(* ===== verification/Soct_Prelude.thy ===== *)
theory Soct_Prelude
  imports Main "HOL-Library.Word" "HOL-Library.Monad_Syntax"
begin

text \<open>
  Shared vocabulary of the SoCeteer development: the machine integers of the RV64 target,
  polling of volatile registers, C strings held in byte lists, and the lemmas on them that
  several components use.
\<close>

unbundle bit_operations_syntax

type_synonym u8 = "8 word"
type_synonym u16 = "16 word"
type_synonym u32 = "32 word"
type_synonym u64 = "64 word"

text \<open>
  Two collections: \<open>soct_simps\<close> holds rewrite rules a component exports to its clients,
  \<open>soct_inv\<close> the preservation facts of its invariant.
\<close>

named_theorems soct_simps
named_theorems soct_inv

section \<open>Polling loops\<close>

text \<open>
  A volatile register is modelled by the list of values its successive reads return. The loop
  \<open>while (!P(reg)) {}\<close> consumes reads until one satisfies the exit condition; when the given
  reads run out first, the loop is still spinning and the result is \<open>None\<close>.
\<close>

fun poll :: "('a \<Rightarrow> bool) \<Rightarrow> 'a list \<Rightarrow> ('a \<times> 'a list) option" where
  "poll P [] = None"
| "poll P (x # xs) = (if P x then Some (x, xs) else poll P xs)"

lemma poll_Some_iff:
  "poll P xs = Some (x, ys) \<longleftrightarrow>
     (\<exists>ws. xs = ws @ x # ys \<and> P x \<and> (\<forall>w \<in> set ws. \<not> P w))"
proof (induction xs)
  case Nil
  show ?case by simp
next
  case (Cons a xs)
  show ?case
  proof (cases "P a")
    case True
    then show ?thesis by (force simp: Cons_eq_append_conv)
  next
    case False
    have "(\<exists>ws. a # xs = ws @ x # ys \<and> P x \<and> (\<forall>w\<in>set ws. \<not> P w)) \<longleftrightarrow>
          (\<exists>ws. xs = ws @ x # ys \<and> P x \<and> (\<forall>w\<in>set ws. \<not> P w))"
      using False by (auto simp: Cons_eq_append_conv)
    with False Cons.IH show ?thesis by simp
  qed
qed

lemma poll_exit: "poll P xs = Some (x, ys) \<Longrightarrow> P x"
  by (auto simp: poll_Some_iff)

lemma poll_returns_iff: "(\<exists>r. poll P xs = Some r) \<longleftrightarrow> (\<exists>x \<in> set xs. P x)"
  by (induction xs) auto

lemma poll_consumes: "poll P xs = Some (x, ys) \<Longrightarrow> length ys < length xs"
  by (induction xs) (auto split: if_splits)

section \<open>Words\<close>

lemma unat_add_no_wrap:
  fixes a b :: "'a::len word"
  assumes "unat a + unat b < 2 ^ LENGTH('a)"
  shows "unat (a + b) = unat a + unat b"
  using assms by (simp add: unat_word_ariths)

lemma word_le_add_iff:
  fixes a b :: "'a::len word"
  shows "a \<le> a + b \<longleftrightarrow> unat a + unat b < 2 ^ LENGTH('a)"
proof
  assume "unat a + unat b < 2 ^ LENGTH('a)"
  then show "a \<le> a + b" by (simp add: word_le_nat_alt unat_add_no_wrap)
next
  assume le: "a \<le> a + b"
  show "unat a + unat b < 2 ^ LENGTH('a)"
  proof (rule ccontr)
    assume big: "\<not> unat a + unat b < 2 ^ LENGTH('a)"
    have ab: "unat a < 2 ^ LENGTH('a)" "unat b < 2 ^ LENGTH('a)" by simp_all
    from big have "(unat a + unat b) mod 2 ^ LENGTH('a) =
        (unat a + unat b - 2 ^ LENGTH('a)) mod 2 ^ LENGTH('a)"
      by (simp add: le_mod_geq)
    also have "\<dots> = unat a + unat b - 2 ^ LENGTH('a)"
      using ab by (intro mod_less) linarith
    finally have "(unat a + unat b) mod 2 ^ LENGTH('a) = unat a + unat b - 2 ^ LENGTH('a)" .
    with le have "unat a \<le> unat a + unat b - 2 ^ LENGTH('a)"
      by (simp add: word_le_nat_alt unat_word_ariths)
    with ab big show False by linarith
  qed
qed

lemma word_add_le_iff:
  fixes a b c :: "'a::len word"
  shows "a \<le> a + b \<and> a + b \<le> c \<longleftrightarrow> unat a + unat b \<le> unat c"
proof -
  have "unat a + unat b \<le> unat c \<Longrightarrow> unat a + unat b < 2 ^ LENGTH('a)"
    by (rule le_less_trans [OF _ unsigned_less])
  then show ?thesis
    using unat_add_no_wrap [of a b] word_le_add_iff [of a b] by (auto simp: word_le_nat_alt)
qed

lemma word_add_gt_iff:
  fixes a b c :: "'a::len word"
  shows "a \<le> a + b \<and> c < a + b \<longleftrightarrow>
    unat a + unat b < 2 ^ LENGTH('a) \<and> unat c < unat a + unat b"
  using unat_add_no_wrap [of a b] word_le_add_iff [of a b] by (auto simp: word_less_nat_alt)

lemma unat_diff_le:
  fixes a b :: "'a::len word"
  shows "b \<le> a \<Longrightarrow> unat (a - b) = unat a - unat b"
  by (simp add: unat_sub word_le_nat_alt)

lemma word_sub_decreases:
  fixes a b :: "'a::len word"
  assumes "b \<noteq> 0" and "b \<le> a"
  shows "unat (a - b) < unat a"
proof -
  have "unat b \<le> unat a" "0 < unat b" using assms by (simp_all add: word_le_nat_alt unat_gt_0)
  then show ?thesis unfolding unat_diff_le [OF assms(2)] by linarith
qed

lemma unat_ucast_up:
  fixes x :: "'a::len word"
  assumes "LENGTH('a) \<le> LENGTH('b::len)"
  shows "unat (ucast x :: 'b word) = unat x"
proof -
  have "unat x < 2 ^ LENGTH('b)"
    using assms by (intro less_le_trans [OF unsigned_less [of x]] power_increasing) simp_all
  then show ?thesis by (simp add: unsigned_ucast_eq take_bit_nat_eq_self)
qed

lemma unat_ucast_down: "unat (ucast (a :: u64) :: u32) = unat a mod 2 ^ 32"
  by (simp add: unsigned_ucast_eq take_bit_eq_mod)

lemma ucast_down_add: "(ucast (a + b :: u64) :: u32) = ucast a + ucast b"
  by (simp only: word_unat_eq_iff unat_ucast_down unat_word_ariths) (simp add: mod_mod_cancel mod_simps)

lemma ucast_down_up [simp]: "(ucast (ucast (a :: u32) :: u64) :: u32) = a"
proof -
  have "unat a < 2 ^ 32" using unsigned_less [of a, where 'a = nat] by simp
  then show ?thesis by (simp only: word_unat_eq_iff unat_ucast_down) (simp add: unat_ucast_up)
qed

lemma ucast_up_of_nat: "(ucast (x :: u32) :: u64) = of_nat (unat x)"
proof -
  have "unat x < 2 ^ 32" using unsigned_less [of x, where 'a = nat] by simp
  then show ?thesis by (simp add: word_unat_eq_iff unat_ucast_up unat_of_nat)
qed

text \<open>Words that hold natural numbers below the wrap-around.\<close>

lemma unat_of_nat_small: "n < 2 ^ LENGTH('a) \<Longrightarrow> unat (of_nat n :: 'a::len word) = n"
  by (simp add: unat_of_nat)

lemma of_nat_word_less:
  "a < 2 ^ LENGTH('a) \<Longrightarrow> b < 2 ^ LENGTH('a) \<Longrightarrow> (of_nat a :: 'a::len word) < of_nat b \<longleftrightarrow> a < b"
  by (simp add: word_less_nat_alt unat_of_nat_small)

lemma of_nat_word_div:
  "a < 2 ^ LENGTH('a) \<Longrightarrow> b < 2 ^ LENGTH('a) \<Longrightarrow> (of_nat a :: 'a::len word) div of_nat b = of_nat (a div b)"
  by (simp add: word_unat_eq_iff unat_div unat_of_nat_small le_less_trans [OF div_le_dividend])

lemma ucast_down_of_nat: "(ucast (of_nat n :: u64) :: u32) = of_nat n"
  by (simp only: word_unat_eq_iff unat_ucast_down unat_of_nat) (simp add: mod_mod_cancel)

text \<open>Rounding to a multiple of a power of two.\<close>

lemma unat_and_not_mask: "unat (x AND NOT (mask n) :: u64) = unat x div 2 ^ n * 2 ^ n"
proof -
  have "x AND NOT (mask n) = push_bit n (drop_bit n x)"
    by (rule bit_word_eqI) (auto simp: bit_simps)
  moreover have "unat x div 2 ^ n * 2 ^ n < 2 ^ 64"
    using unsigned_less [of x] by (intro le_less_trans [OF div_times_less_eq_dividend]) simp
  ultimately show ?thesis
    by (simp only: unsigned_push_bit_eq unsigned_drop_bit_eq)
      (simp add: push_bit_eq_mult drop_bit_eq_div take_bit_nat_eq_self unsigned_less [of x, simplified])
qed

lemma align_up:
  assumes "unat (x :: u64) + 2 ^ n \<le> 2 ^ 64"
  shows "x \<le> (x + mask n) AND NOT (mask n)" and "unat ((x + mask n) AND NOT (mask n)) mod 2 ^ n = 0"
    and "unat ((x + mask n) AND NOT (mask n)) < unat x + 2 ^ n"
proof -
  have e: "(mask n :: u64) = of_nat (2 ^ n - 1)" by (simp add: mask_eq_exp_minus_1 of_nat_diff)
  have "(0 :: nat) < 2 ^ n" by simp
  then have "2 ^ n - 1 < (2 :: nat) ^ 64" using assms by linarith
  then have m: "unat (mask n :: u64) = 2 ^ n - 1" unfolding e by (intro unat_of_nat_small) simp
  have u: "unat (x + mask n) = unat x + (2 ^ n - 1)"
    using assms by (subst unat_add_no_wrap) (simp_all add: m)
  show "unat ((x + mask n) AND NOT (mask n)) mod 2 ^ n = 0" by (simp add: unat_and_not_mask)
  have d: "(unat x + (2 ^ n - 1)) div 2 ^ n * 2 ^ n + (unat x + (2 ^ n - 1)) mod 2 ^ n = unat x + (2 ^ n - 1)"
    by (rule div_mult_mod_eq)
  have p: "(0 :: nat) < 2 ^ n" by simp
  then have r: "(unat x + (2 ^ n - 1)) mod 2 ^ n < 2 ^ n" by (rule mod_less_divisor)
  show "x \<le> (x + mask n) AND NOT (mask n)" "unat ((x + mask n) AND NOT (mask n)) < unat x + 2 ^ n"
    using d r p unfolding word_le_nat_alt unat_and_not_mask u by linarith+
qed

section \<open>Lists\<close>

lemma take_Suc_update [simp]:
  "n < length xs \<Longrightarrow> take (Suc n) (xs[n := x]) = take n xs @ [x]"
  by (simp add: take_Suc_conv_app_nth)

lemma drop_update_self [simp]:
  "n < length xs \<Longrightarrow> drop n (xs[n := x]) = x # drop (Suc n) xs"
  by (simp add: drop_update_swap Cons_nth_drop_Suc [symmetric])

lemma map_upt_Suc_Cons: "map f [0..<Suc n] = f 0 # map (\<lambda>i. f (Suc i)) [0..<n]"
  by (simp add: upt_conv_Cons map_Suc_upt [symmetric] del: upt_Suc)

end
