(* ===== verification/Bump_Alloc.thy ===== *)
theory Bump_Alloc
  imports Soct_Prelude
begin

text \<open>
  The contract of the runtime's two monotone allocators, \<open>_sbrk\<close> (\<open>posix/sbrk.c\<close>) and
  \<open>dtb_malloc\<close> (\<open>soctglue.c\<close>): a request either fails or hands out a block that starts at or
  above the current top and ends at or below the new one. Blocks handed out by one run of such
  an allocator never overlap; that is proved here once.
\<close>

text \<open>
  A run of requests: the blocks \<open>(address, size)\<close> of the successful ones, in order, and the
  final state.
\<close>

fun alloc_run :: "('r \<Rightarrow> 's \<Rightarrow> nat option \<times> 's) \<Rightarrow> ('r \<Rightarrow> nat) \<Rightarrow> 'r list \<Rightarrow> 's \<Rightarrow>
    (nat \<times> nat) list \<times> 's" where
  "alloc_run alloc sz [] s = ([], s)"
| "alloc_run alloc sz (r # rs) s =
     (case alloc r s of
        (None, s') \<Rightarrow> alloc_run alloc sz rs s'
      | (Some p, s') \<Rightarrow>
          (case alloc_run alloc sz rs s' of (bs, s'') \<Rightarrow> ((p, sz r) # bs, s'')))"

definition block_before :: "nat \<times> nat \<Rightarrow> nat \<times> nat \<Rightarrow> bool" where
  "block_before a b \<longleftrightarrow> fst a + snd a \<le> fst b"

locale bump_allocator =
  fixes ok :: "'s \<Rightarrow> bool"
    and top :: "'s \<Rightarrow> nat"
    and alloc :: "'r \<Rightarrow> 's \<Rightarrow> nat option \<times> 's"
    and sz :: "'r \<Rightarrow> nat"
  assumes alloc_ok: "ok s \<Longrightarrow> alloc r s = (res, s') \<Longrightarrow> ok s'"
    and alloc_Some: "ok s \<Longrightarrow> alloc r s = (Some p, s') \<Longrightarrow> top s \<le> p \<and> p + sz r \<le> top s'"
    and alloc_None: "ok s \<Longrightarrow> alloc r s = (None, s') \<Longrightarrow> top s \<le> top s'"
begin

lemma run_blocks:
  assumes "ok s" and "alloc_run alloc sz rs s = (bs, s')"
  shows "ok s' \<and> top s \<le> top s' \<and>
    (\<forall>b \<in> set bs. top s \<le> fst b \<and> fst b + snd b \<le> top s') \<and> sorted_wrt block_before bs"
  using assms
proof (induction rs arbitrary: s bs)
  case Nil
  then show ?case by simp
next
  case (Cons r rs)
  obtain res t where step: "alloc r s = (res, t)" by (cases "alloc r s")
  have t: "ok t" using Cons.prems(1) step by (rule alloc_ok)
  show ?case
  proof (cases res)
    case None
    with Cons.prems step have "alloc_run alloc sz rs t = (bs, s')" by simp
    moreover have "top s \<le> top t" using Cons.prems(1) step None alloc_None by blast
    ultimately show ?thesis using Cons.IH [OF t] by fastforce
  next
    case (Some p)
    with Cons.prems step obtain cs where run: "alloc_run alloc sz rs t = (cs, s')"
      and bs: "bs = (p, sz r) # cs"
      by (auto split: prod.splits)
    have p: "top s \<le> p" "p + sz r \<le> top t"
      using Cons.prems(1) step Some alloc_Some by blast+
    show ?thesis using Cons.IH [OF t run] p
      by (fastforce simp: bs block_before_def)
  qed
qed

lemma run_ascending:
  assumes "ok s" and "alloc_run alloc sz rs s = (bs, s')" and "i < j" and "j < length bs"
  shows "fst (bs ! i) + snd (bs ! i) \<le> fst (bs ! j)"
  using run_blocks [OF assms(1,2)] assms(3,4) by (simp add: sorted_wrt_iff_nth_less block_before_def)

lemma run_disjoint:
  assumes "ok s" and "alloc_run alloc sz rs s = (bs, s')"
    and "i < length bs" and "j < length bs" and "i \<noteq> j"
  shows "{fst (bs ! i)..<fst (bs ! i) + snd (bs ! i)} \<inter>
         {fst (bs ! j)..<fst (bs ! j) + snd (bs ! j)} = {}"
proof (cases "i < j")
  case True
  then show ?thesis using run_ascending [OF assms(1,2) True assms(4)] by auto
next
  case False
  then have "j < i" using assms(5) by simp
  then show ?thesis using run_ascending [OF assms(1,2) _ assms(3)] by fastforce
qed

end

end
