(* ===== verification/Heap_Sbrk.thy ===== *)
theory Heap_Sbrk
  imports Bump_Alloc
begin

text \<open>
  The program break of \<open>shared/soctglue/src/posix/sbrk.c\<close>. Addresses are 64-bit words, so the
  pointer comparisons and the overflow checks of the code are the ones proved about. The linker
  symbols are the fields of a layout; what the device tree says at the time of a call (the RAM
  end, 0 when unknown, and the hart count) is an environment.
\<close>

section \<open>State and operations\<close>

record heap_layout =
  sym_end :: u64
  stack_start :: u64
  stack_size :: u64

record heap_env =
  env_ram_end :: u64
  env_n_harts :: int

record heap_state =
  curbrk :: u64
  heap_errno :: u32

definition ENOMEM :: u32 where
  "ENOMEM = 12"

definition stacks_end :: "heap_layout \<Rightarrow> heap_env \<Rightarrow> u64" where
  "stacks_end L E =
     (let harts = (if env_n_harts E < 1 then 1 else env_n_harts E)
      in stack_start L + of_int harts * stack_size L)"

definition soct_heap_remaining :: "heap_layout \<Rightarrow> heap_env \<Rightarrow> heap_state \<Rightarrow> u64" where
  "soct_heap_remaining L E st =
     (let ram_end = env_ram_end E
      in if curbrk st \<le> stack_start L
         then let rem = stack_start L - curbrk st
              in if ram_end \<noteq> 0
                 then let ext_start = stacks_end L E
                      in if ext_start < ram_end then rem + (ram_end - ext_start) else rem
                 else rem
         else if ram_end > curbrk st then ram_end - curbrk st else 0)"

definition sbrk_fail :: "heap_state \<Rightarrow> u64 \<times> heap_state" where
  "sbrk_fail st = (- 1, st\<lparr>heap_errno := ENOMEM\<rparr>)"

definition sbrk :: "heap_layout \<Rightarrow> heap_env \<Rightarrow> u64 \<Rightarrow> heap_state \<Rightarrow> u64 \<times> heap_state" where
  "sbrk L E incr st =
     (let oldbrk = curbrk st; newbrk = oldbrk + incr
      in if sint incr < 0 then sbrk_fail st
         else if newbrk < oldbrk then sbrk_fail st
         else
           let cross = oldbrk \<le> stack_start L \<and> newbrk > stack_start L
           in if cross \<and> env_ram_end E = 0 then sbrk_fail st
              else
                let oldbrk = (if cross then stacks_end L E else oldbrk);
                    newbrk = (if cross then oldbrk + incr else newbrk);
                    ram_end = env_ram_end E
                in if oldbrk > stack_start L \<and>
                      (ram_end = 0 \<or> newbrk < oldbrk \<or> newbrk > ram_end \<or>
                       newbrk < stacks_end L E)
                   then sbrk_fail st
                   else (oldbrk, st\<lparr>curbrk := newbrk\<rparr>))"

text \<open>
  A call is a success when the break moved or the old break came back: the code signals failure
  by the pointer value -1 alone.
\<close>

definition sbrk_request :: "heap_layout \<Rightarrow> heap_env \<Rightarrow> bool \<times> u64 \<Rightarrow> heap_state \<Rightarrow>
    nat option \<times> heap_state" where
  "sbrk_request L F r st =
     (case sbrk L (if fst r then F else \<lparr>env_ram_end = 0, env_n_harts = 1\<rparr>) (snd r) st of
        (p, st') \<Rightarrow> (if p = - 1 then None else Some (unat p), st'))"

section \<open>Layout assumptions and the invariant\<close>

text \<open>
  What the linker script and a sane device tree guarantee: the image ends below the stacks, each
  stack is non-empty, and the stack region ends inside the address space.
\<close>

definition layout_ok :: "heap_layout \<Rightarrow> heap_env \<Rightarrow> bool" where
  "layout_ok L E \<longleftrightarrow> sym_end L \<le> stack_start L \<and> 0 < stack_size L \<and>
     int (unat (stack_start L)) + max 1 (env_n_harts E) * int (unat (stack_size L)) < 2 ^ 64"

definition heap_inv :: "heap_layout \<Rightarrow> heap_env \<Rightarrow> heap_state \<Rightarrow> bool" where
  "heap_inv L E st \<longleftrightarrow>
     sym_end L \<le> curbrk st \<and> curbrk st \<le> stack_start L \<or>
     stacks_end L E \<le> curbrk st \<and> curbrk st \<le> env_ram_end E"

definition initial_heap :: "heap_layout \<Rightarrow> heap_state" where
  "initial_heap L = \<lparr>curbrk = sym_end L, heap_errno = 0\<rparr>"

text \<open>
  What a successful call returns, region by region; every other fact about \<open>sbrk\<close> follows from
  this characterisation.
\<close>

definition sbrk_ok :: "heap_layout \<Rightarrow> heap_env \<Rightarrow> u64 \<Rightarrow> heap_state \<Rightarrow> u64 \<Rightarrow> bool" where
  "sbrk_ok L E incr st p \<longleftrightarrow> 0 \<le> sint incr \<and>
     (p = curbrk st \<and> (p \<le> p + incr \<and> p + incr \<le> stack_start L) \<or>
      p = stacks_end L E \<and> curbrk st \<le> stack_start L \<and>
        (curbrk st \<le> curbrk st + incr \<and> stack_start L < curbrk st + incr) \<and>
        env_ram_end E \<noteq> 0 \<and> (p \<le> p + incr \<and> p + incr \<le> env_ram_end E) \<or>
      p = curbrk st \<and> stack_start L < curbrk st \<and> env_ram_end E \<noteq> 0 \<and>
        (p \<le> p + incr \<and> p + incr \<le> env_ram_end E))"

text \<open>
  The same operation on natural numbers, where nothing wraps: the break, the size and the bounds
  as addresses, the block's address as result.
\<close>

definition sbrk_spec :: "heap_layout \<Rightarrow> heap_env \<Rightarrow> nat \<Rightarrow> nat \<Rightarrow> nat option" where
  "sbrk_spec L E b n =
     (let ss = unat (stack_start L); se = unat (stacks_end L E); re = unat (env_ram_end E)
      in if b \<le> ss
         then if b + n \<le> ss then Some b
              else if se + n \<le> re then Some se else None
         else if b + n \<le> re then Some b else None)"

text \<open>The layout of a two-hart design with 1 MiB of RAM above its base, for concrete runs.\<close>

definition demo_layout :: heap_layout where
  "demo_layout = \<lparr>sym_end = 0x80008000, stack_start = 0x80010000, stack_size = 0x8000\<rparr>"

definition demo_env :: heap_env where
  "demo_env = \<lparr>env_ram_end = 0x80100000, env_n_harts = 2\<rparr>"

section \<open>Lemmas\<close>

lemma unat_stacks_end:
  assumes "layout_ok L E"
  shows "int (unat (stacks_end L E)) =
    int (unat (stack_start L)) + max 1 (env_n_harts E) * int (unat (stack_size L))"
proof -
  define h where "h = nat (max 1 (env_n_harts E))"
  have h: "int h = max 1 (env_n_harts E)" by (simp add: h_def)
  have "stacks_end L E = stack_start L + of_nat h * stack_size L"
    by (auto simp: stacks_end_def h_def Let_def max_def)
  also have "\<dots> = of_nat (unat (stack_start L) + h * unat (stack_size L))"
    by simp
  finally have se: "stacks_end L E = of_nat (unat (stack_start L) + h * unat (stack_size L))" .
  have "int (unat (stack_start L) + h * unat (stack_size L)) < 2 ^ 64"
    using assms by (simp add: layout_ok_def h)
  then have "unat (stack_start L) + h * unat (stack_size L) < 2 ^ 64"
    by (metis of_nat_less_iff of_nat_numeral of_nat_power)
  then have "unat (stacks_end L E) = unat (stack_start L) + h * unat (stack_size L)"
    unfolding se by (simp only: unat_of_nat) simp
  then show ?thesis by (simp add: h)
qed

lemma stack_start_less_stacks_end:
  assumes "layout_ok L E"
  shows "stack_start L < stacks_end L E"
proof -
  have "0 < unat (stack_size L)"
    using assms by (simp add: layout_ok_def word_less_nat_alt)
  then have "0 < int (unat (stack_size L))"
    by (simp only: of_nat_0_less_iff)
  then have "0 < max 1 (env_n_harts E) * int (unat (stack_size L))"
    by (intro mult_pos_pos) simp_all
  then have "int (unat (stack_start L)) < int (unat (stacks_end L E))"
    using unat_stacks_end [OF assms] by linarith
  then show ?thesis by (simp add: word_less_def)
qed

lemma sbrk_refused:
  assumes "sint incr < 0 \<or> curbrk st + incr < curbrk st"
  shows "sbrk L E incr st = sbrk_fail st" and "\<not> sbrk_ok L E incr st p"
  using assms by (auto simp: sbrk_def sbrk_ok_def Let_def not_le)

lemma sbrk_below:
  assumes "0 \<le> sint incr" and "curbrk st \<le> curbrk st + incr"
    and "curbrk st + incr \<le> stack_start L"
  shows "sbrk L E incr st = (curbrk st, st\<lparr>curbrk := curbrk st + incr\<rparr>)"
    and "sbrk_ok L E incr st (curbrk st)"
  using assms by (auto simp: sbrk_def sbrk_ok_def Let_def not_less)

lemma sbrk_crossing:
  assumes "layout_ok L E" and "0 \<le> sint incr" and "curbrk st \<le> curbrk st + incr"
    and "curbrk st \<le> stack_start L" and "stack_start L < curbrk st + incr"
    and p: "p = stacks_end L E"
  shows "env_ram_end E \<noteq> 0 \<and> p \<le> p + incr \<and> p + incr \<le> env_ram_end E \<Longrightarrow>
      sbrk L E incr st = (p, st\<lparr>curbrk := p + incr\<rparr>) \<and> sbrk_ok L E incr st p"
    and "\<not> (env_ram_end E \<noteq> 0 \<and> p \<le> p + incr \<and> p + incr \<le> env_ram_end E) \<Longrightarrow>
      sbrk L E incr st = sbrk_fail st \<and> \<not> sbrk_ok L E incr st q"
  using assms stack_start_less_stacks_end [OF assms(1)]
  by (auto simp: sbrk_def sbrk_ok_def Let_def not_less not_le)

lemma sbrk_above:
  assumes "0 \<le> sint incr" and "curbrk st \<le> curbrk st + incr"
    and "stack_start L < curbrk st" and "stacks_end L E \<le> curbrk st"
  shows "env_ram_end E \<noteq> 0 \<and> curbrk st + incr \<le> env_ram_end E \<Longrightarrow>
      sbrk L E incr st = (curbrk st, st\<lparr>curbrk := curbrk st + incr\<rparr>) \<and>
      sbrk_ok L E incr st (curbrk st)"
    and "\<not> (env_ram_end E \<noteq> 0 \<and> curbrk st + incr \<le> env_ram_end E) \<Longrightarrow>
      sbrk L E incr st = sbrk_fail st \<and> \<not> sbrk_ok L E incr st q"
  using assms by (auto simp: sbrk_def sbrk_ok_def Let_def not_less not_le)

lemma sbrk_cases:
  assumes L: "layout_ok L E" and inv: "heap_inv L E st"
  shows "sbrk L E incr st = sbrk_fail st \<and> (\<nexists>p. sbrk_ok L E incr st p) \<or>
    (\<exists>p. sbrk L E incr st = (p, st\<lparr>curbrk := p + incr\<rparr>) \<and> sbrk_ok L E incr st p)"
proof -
  have above: "stacks_end L E \<le> curbrk st" if "stack_start L < curbrk st"
    using inv that by (auto simp: heap_inv_def)
  consider "sint incr < 0 \<or> curbrk st + incr < curbrk st"
    | "0 \<le> sint incr" "curbrk st \<le> curbrk st + incr" "curbrk st + incr \<le> stack_start L"
    | "0 \<le> sint incr" "curbrk st \<le> curbrk st + incr" "curbrk st \<le> stack_start L"
        "stack_start L < curbrk st + incr"
    | "0 \<le> sint incr" "curbrk st \<le> curbrk st + incr" "stack_start L < curbrk st"
    by fastforce
  then show ?thesis
  proof cases
    case 1
    then show ?thesis using sbrk_refused by blast
  next
    case 2
    then show ?thesis using sbrk_below by blast
  next
    case 3
    then show ?thesis using sbrk_crossing [OF L 3 refl] by blast
  next
    case 4
    then show ?thesis using sbrk_above [OF 4 above] by blast
  qed
qed

lemma heap_inv_errno [simp]: "heap_inv L E (st\<lparr>heap_errno := e\<rparr>) = heap_inv L E st"
  by (simp add: heap_inv_def)

lemma heap_inv_brk:
  "curbrk st' = curbrk st \<Longrightarrow> heap_inv L E st' = heap_inv L E st"
  by (simp add: heap_inv_def)

lemma sbrk_success:
  assumes "layout_ok L E" and "heap_inv L E st" and "sbrk L E incr st = (p, st')" and "p \<noteq> - 1"
  shows "st' = st\<lparr>curbrk := p + incr\<rparr>" and "sbrk_ok L E incr st p"
  using sbrk_cases [OF assms(1,2), of incr] assms(3,4) by (auto simp: sbrk_fail_def)

lemma sbrk_ok_inv:
  assumes "layout_ok L E" and "heap_inv L E st" and "sbrk_ok L E incr st p"
  shows "heap_inv L E (st\<lparr>curbrk := p + incr\<rparr>)"
  using assms stack_start_less_stacks_end [OF assms(1)]
  by (auto simp: heap_inv_def sbrk_ok_def)

lemma sbrk_inv [soct_inv]:
  assumes "layout_ok L E" and "heap_inv L E st"
  shows "heap_inv L E (snd (sbrk L E incr st))"
  using sbrk_cases [OF assms, of incr] sbrk_ok_inv [OF assms] assms(2)
  by (auto simp: sbrk_fail_def)

lemma sbrk_ok_block:
  assumes "layout_ok L E" and "heap_inv L E st" and "sbrk_ok L E incr st p"
  shows "unat (p + incr) = unat p + unat incr"
    and "unat (sym_end L) \<le> unat p \<and> unat p + unat incr \<le> unat (stack_start L) \<or>
         unat (stacks_end L E) \<le> unat p \<and> unat p + unat incr \<le> unat (env_ram_end E)"
proof -
  from assms(3) have "p \<le> p + incr" by (auto simp: sbrk_ok_def)
  then show u: "unat (p + incr) = unat p + unat incr"
    using word_le_add_iff unat_add_no_wrap by blast
  have "sym_end L \<le> p \<and> p + incr \<le> stack_start L \<or>
        stacks_end L E \<le> p \<and> p + incr \<le> env_ram_end E"
    using assms stack_start_less_stacks_end [OF assms(1)]
    by (auto simp: sbrk_ok_def heap_inv_def)
  then show "unat (sym_end L) \<le> unat p \<and> unat p + unat incr \<le> unat (stack_start L) \<or>
      unat (stacks_end L E) \<le> unat p \<and> unat p + unat incr \<le> unat (env_ram_end E)"
    unfolding word_le_nat_alt u by simp
qed

lemma sbrk_ok_monotone:
  assumes "layout_ok L E" and "sbrk_ok L E incr st p"
  shows "curbrk st \<le> p"
  using assms stack_start_less_stacks_end [OF assms(1)] by (auto simp: sbrk_ok_def)

lemma heap_inv_unready:
  "layout_ok L F \<Longrightarrow> layout_ok L \<lparr>env_ram_end = 0, env_n_harts = 1\<rparr>"
proof -
  assume "layout_ok L F"
  moreover from this have "1 * int (unat (stack_size L)) \<le>
      max 1 (env_n_harts F) * int (unat (stack_size L))"
    by (intro mult_right_mono) simp_all
  ultimately show ?thesis by (auto simp: layout_ok_def)
qed

text \<open>Before the device tree is parsed only requests inside the initial region succeed.\<close>

lemma sbrk_unready:
  assumes "layout_ok L F" and "heap_inv L F st"
  shows "sbrk L \<lparr>env_ram_end = 0, env_n_harts = 1\<rparr> incr st = sbrk_fail st \<or>
    sbrk L \<lparr>env_ram_end = 0, env_n_harts = 1\<rparr> incr st = (curbrk st, st\<lparr>curbrk := curbrk st + incr\<rparr>) \<and>
    sbrk_ok L F incr st (curbrk st)"
  using assms by (auto simp: sbrk_def sbrk_ok_def Let_def not_less)

text \<open>One request of a run, before or after the device tree became available.\<close>

lemma sbrk_request_cases:
  assumes "layout_ok L F" and "heap_inv L F st" and "sbrk_request L F r st = (res, st')"
  shows "res = None \<and> curbrk st' = curbrk st \<or> res = None \<and> (\<exists>p. sbrk_ok L F (snd r) st p \<and>
            st' = st\<lparr>curbrk := p + snd r\<rparr>) \<or>
    (\<exists>p. res = Some (unat p) \<and> sbrk_ok L F (snd r) st p \<and> st' = st\<lparr>curbrk := p + snd r\<rparr>)"
proof (cases "fst r")
  case True
  with assms sbrk_cases [OF assms(1,2), of "snd r"] show ?thesis
    by (auto simp: sbrk_request_def sbrk_fail_def split: if_splits)
next
  case False
  with assms sbrk_unready [OF assms(1,2), of "snd r"] show ?thesis
    by (auto simp: sbrk_request_def sbrk_fail_def split: if_splits)
qed

interpretation sbrk_alloc: bump_allocator "\<lambda>st. layout_ok L F \<and> heap_inv L F st"
  "\<lambda>st. unat (curbrk st)" "sbrk_request L F" "\<lambda>r. unat (snd r)" for L F
proof unfold_locales
  fix st r res st'
  assume ok: "layout_ok L F \<and> heap_inv L F st" and req: "sbrk_request L F r st = (res, st')"
  from sbrk_request_cases [OF conjunct1 [OF ok] conjunct2 [OF ok] req]
  consider "curbrk st' = curbrk st"
    | p where "sbrk_ok L F (snd r) st p" "st' = st\<lparr>curbrk := p + snd r\<rparr>"
    by auto
  then show "layout_ok L F \<and> heap_inv L F st'"
  proof cases
    case 1
    with ok show ?thesis using heap_inv_brk [of st' st] by simp
  next
    case 2
    with ok show ?thesis using sbrk_ok_inv [of L F st "snd r" p] by simp
  qed
next
  fix st r p st'
  assume ok: "layout_ok L F \<and> heap_inv L F st" and req: "sbrk_request L F r st = (Some p, st')"
  from sbrk_request_cases [OF conjunct1 [OF ok] conjunct2 [OF ok] req]
  obtain q where q: "p = unat q" "sbrk_ok L F (snd r) st q" "st' = st\<lparr>curbrk := q + snd r\<rparr>"
    by auto
  with ok sbrk_ok_monotone [of L F "snd r" st q] sbrk_ok_block(1) [of L F st "snd r" q]
  show "unat (curbrk st) \<le> p \<and> p + unat (snd r) \<le> unat (curbrk st')"
    by (simp add: word_le_nat_alt)
next
  fix st r st'
  assume ok: "layout_ok L F \<and> heap_inv L F st" and req: "sbrk_request L F r st = (None, st')"
  from sbrk_request_cases [OF conjunct1 [OF ok] conjunct2 [OF ok] req]
  consider "curbrk st' = curbrk st"
    | p where "sbrk_ok L F (snd r) st p" "st' = st\<lparr>curbrk := p + snd r\<rparr>"
    by auto
  then show "unat (curbrk st) \<le> unat (curbrk st')"
  proof cases
    case 1
    then show ?thesis by simp
  next
    case 2
    have "curbrk st \<le> p" using conjunct1 [OF ok] 2(1) by (rule sbrk_ok_monotone)
    moreover have "p \<le> p + snd r" using 2(1) by (auto simp: sbrk_ok_def)
    ultimately have "curbrk st \<le> p + snd r" by (rule order_trans)
    then have "unat (curbrk st) \<le> unat (p + snd r)" by (rule word_le_nat_alt [THEN iffD1])
    then show ?thesis unfolding 2 by simp
  qed
qed

text \<open>The case analysis of the break over plain natural numbers.\<close>

lemma break_cases:
  fixes ss se re b n p w :: nat
  assumes "ss < se" and "ss < b \<Longrightarrow> se \<le> b" and "re < w"
  shows "(if b \<le> ss then if b + n \<le> ss then Some b else if se + n \<le> re then Some se else None
     else if b + n \<le> re then Some b else None) = Some p \<longleftrightarrow>
     (p = b \<and> p + n \<le> ss \<or>
      p = se \<and> b \<le> ss \<and> (b + n < w \<and> ss < b + n) \<and> re \<noteq> 0 \<and> p + n \<le> re \<or>
      p = b \<and> ss < b \<and> re \<noteq> 0 \<and> p + n \<le> re)"
proof (cases "b \<le> ss")
  case True
  with assms show ?thesis by (cases "b + n \<le> ss") auto
next
  case False
  with assms show ?thesis by auto
qed

lemma sbrk_spec_ok:
  assumes L: "layout_ok L E" and inv: "heap_inv L E st" and nn: "0 \<le> sint incr"
  shows "sbrk_spec L E (unat (curbrk st)) (unat incr) = Some (unat p) \<longleftrightarrow> sbrk_ok L E incr st p"
proof -
  have lt: "unat (stack_start L) < unat (stacks_end L E)"
    using stack_start_less_stacks_end [OF L] by (simp add: word_less_nat_alt)
  have ext: "unat (stacks_end L E) \<le> unat (curbrk st)" if "unat (stack_start L) < unat (curbrk st)"
    using inv that by (auto simp: heap_inv_def word_le_nat_alt)
  have z: "env_ram_end E \<noteq> 0 \<longleftrightarrow> unat (env_ram_end E) \<noteq> 0"
    by (simp add: unat_eq_0)
  have eq: "p = q \<longleftrightarrow> unat p = unat q" for q
    by (rule word_unat_eq_iff)
  show ?thesis
    unfolding sbrk_spec_def Let_def sbrk_ok_def word_add_le_iff word_add_gt_iff z
      word_le_nat_alt [of "curbrk st" "stack_start L"]
      word_less_nat_alt [of "stack_start L" "curbrk st"] eq
    using nn by (simp only: simp_thms) (rule break_cases [OF lt ext unsigned_less])
qed

lemma sbrk_refines:
  assumes L: "layout_ok L E" and inv: "heap_inv L E st" and nn: "0 \<le> sint incr"
  shows "sbrk L E incr st =
    (case sbrk_spec L E (unat (curbrk st)) (unat incr) of
       None \<Rightarrow> (- 1, st\<lparr>heap_errno := ENOMEM\<rparr>)
     | Some p \<Rightarrow> (of_nat p, st\<lparr>curbrk := of_nat (p + unat incr)\<rparr>))"
  using sbrk_cases [OF L inv, of incr]
proof (elim disjE conjE exE)
  assume f: "sbrk L E incr st = sbrk_fail st" and none: "\<nexists>p. sbrk_ok L E incr st p"
  have "sbrk_spec L E (unat (curbrk st)) (unat incr) = None"
  proof (rule ccontr)
    assume "sbrk_spec L E (unat (curbrk st)) (unat incr) \<noteq> None"
    then obtain a where a: "sbrk_spec L E (unat (curbrk st)) (unat incr) = Some a" by blast
    then have "\<exists>p. a = unat (p::u64)"
      by (auto simp: sbrk_spec_def Let_def split: if_splits)
    with a none sbrk_spec_ok [OF L inv nn] show False by auto
  qed
  with f show ?thesis by (simp add: sbrk_fail_def)
next
  fix p
  assume "sbrk L E incr st = (p, st\<lparr>curbrk := p + incr\<rparr>)" and "sbrk_ok L E incr st p"
  with sbrk_spec_ok [OF L inv nn, of p] show ?thesis by simp
qed

text \<open>The bytes left, as a sum of the two regions.\<close>

lemma unat_heap_remaining:
  assumes L: "layout_ok L E" and inv: "heap_inv L E st"
  shows "unat (soct_heap_remaining L E st) =
    (if curbrk st \<le> stack_start L
     then (unat (stack_start L) - unat (curbrk st)) +
          (unat (env_ram_end E) - unat (stacks_end L E))
     else unat (env_ram_end E) - unat (curbrk st))"
proof -
  have lt: "unat (stack_start L) < unat (stacks_end L E)"
    using stack_start_less_stacks_end [OF L] by (simp add: word_less_nat_alt)
  have sum: "unat (stack_start L - curbrk st + (env_ram_end E - stacks_end L E)) =
      (unat (stack_start L) - unat (curbrk st)) + (unat (env_ram_end E) - unat (stacks_end L E))"
    if "curbrk st \<le> stack_start L" "stacks_end L E \<le> env_ram_end E"
  proof -
    have "unat (env_ram_end E) < 2 ^ LENGTH(64)" by (rule unsigned_less)
    moreover have "unat (stacks_end L E) \<le> unat (env_ram_end E)"
      using that(2) by (simp add: word_le_nat_alt)
    ultimately have "unat (stack_start L - curbrk st) +
        unat (env_ram_end E - stacks_end L E) < 2 ^ LENGTH(64)"
      unfolding unat_diff_le [OF that(1)] unat_diff_le [OF that(2)]
      using lt by arith
    then show ?thesis
      by (simp only: unat_add_no_wrap unat_diff_le [OF that(1)] unat_diff_le [OF that(2)])
  qed
  have z: "unat (env_ram_end E) - unat (stacks_end L E) = 0"
    if "\<not> stacks_end L E < env_ram_end E"
    using that by (simp add: word_less_nat_alt)
  show ?thesis
  proof (cases "curbrk st \<le> stack_start L")
    case True
    then show ?thesis
      using sum z unat_diff_le [OF True]
      by (auto simp: soct_heap_remaining_def Let_def simp del: unat_plus_if')
  next
    case False
    then show ?thesis
      using unat_diff_le [of "curbrk st" "env_ram_end E"]
      by (auto simp: soct_heap_remaining_def Let_def word_less_nat_alt word_le_nat_alt not_less)
  qed
qed

lemma demo_heap:
  "layout_ok demo_layout demo_env" "heap_inv demo_layout demo_env (initial_heap demo_layout)"
  by (simp_all add: layout_ok_def heap_inv_def demo_layout_def demo_env_def initial_heap_def)

section \<open>Properties\<close>

text \<open>
  C2. On every branch \<open>_sbrk\<close> computes what the region-based allocator on unbounded numbers
  computes: a request that fits below the stacks is served at the break, one that does not is
  served at the end of the stacks when it fits below the RAM end, a request above the stacks is
  bounded by the RAM end, everything else (a negative increment included) fails with -1 and
  ENOMEM and leaves the break alone. No pointer wrap-around escapes the checks.
\<close>

theorem sbrk_refines_spec:
  assumes "layout_ok L E" and "heap_inv L E st"
  shows "sbrk L E incr st =
    (case (if sint incr < 0 then None else sbrk_spec L E (unat (curbrk st)) (unat incr)) of
       None \<Rightarrow> (- 1, st\<lparr>heap_errno := ENOMEM\<rparr>)
     | Some p \<Rightarrow> (of_nat p, st\<lparr>curbrk := of_nat (p + unat incr)\<rparr>))"
proof (cases "sint incr < 0")
  case True
  then show ?thesis by (simp add: sbrk_refused(1) sbrk_fail_def)
next
  case False
  then show ?thesis using sbrk_refines [OF assms, of incr] by simp
qed

theorem sbrk_refines_spec_witness:
  "layout_ok demo_layout demo_env \<and> heap_inv demo_layout demo_env (initial_heap demo_layout) \<and>
   sbrk demo_layout demo_env 0x10000 (initial_heap demo_layout) =
     (0x80020000, \<lparr>curbrk = 0x80030000, heap_errno = 0\<rparr>)"
proof -
  show ?thesis
    using sbrk_refines_spec [OF demo_heap, of "0x10000"] demo_heap
    by (simp add: demo_layout_def demo_env_def initial_heap_def sbrk_spec_def stacks_end_def)
qed

text \<open>
  Safety of one allocation: from a break inside the heap, a successful call returns a block of
  \<open>incr\<close> bytes that lies entirely in the initial region below the stacks or entirely between
  the end of the stacks and the RAM end, and leaves the break inside the heap again. The per-hart
  stacks are never handed out.
\<close>

theorem sbrk_block_safe:
  assumes "layout_ok L E" and "heap_inv L E st" and "sbrk L E incr st = (p, st')" and "p \<noteq> - 1"
  shows "heap_inv L E st' \<and> curbrk st' = p + incr \<and>
    (unat (sym_end L) \<le> unat p \<and> unat p + unat incr \<le> unat (stack_start L) \<or>
     unat (stacks_end L E) \<le> unat p \<and> unat p + unat incr \<le> unat (env_ram_end E))"
  using sbrk_success [OF assms] sbrk_ok_inv [OF assms(1,2)]
    sbrk_ok_block(2) [OF assms(1,2)] by simp

theorem sbrk_block_safe_witness:
  "heap_inv demo_layout demo_env \<lparr>curbrk = 0x80009000, heap_errno = 0\<rparr> \<and>
   sbrk demo_layout demo_env 0x1000 (initial_heap demo_layout) =
     (0x80008000, \<lparr>curbrk = 0x80009000, heap_errno = 0\<rparr>)"
proof -
  have run: "sbrk demo_layout demo_env 0x1000 (initial_heap demo_layout) =
      (0x80008000, \<lparr>curbrk = 0x80009000, heap_errno = 0\<rparr>)"
    by (simp add: sbrk_def demo_layout_def demo_env_def initial_heap_def)
  show ?thesis using sbrk_block_safe [OF demo_heap run] run by simp
qed

text \<open>
  C15. The blocks returned by any sequence of \<open>_sbrk\<close> calls are pairwise disjoint and ascending: a later
  block starts at or above the end of every earlier one, whichever of the calls happen before the
  device tree is available and whichever fail.
\<close>

theorem sbrk_blocks_disjoint:
  assumes "layout_ok L F" and "heap_inv L F st"
    and "alloc_run (sbrk_request L F) (\<lambda>r. unat (snd r)) rs st = (bs, st')"
    and "i < length bs" and "j < length bs" and "i \<noteq> j"
  shows "(i < j \<longrightarrow> fst (bs ! i) + snd (bs ! i) \<le> fst (bs ! j)) \<and>
    {fst (bs ! i)..<fst (bs ! i) + snd (bs ! i)} \<inter> {fst (bs ! j)..<fst (bs ! j) + snd (bs ! j)} = {}"
  using sbrk_alloc.run_disjoint [of L F st rs bs st' i j] sbrk_alloc.run_ascending [of L F st rs bs st' i j] assms
  by blast

theorem sbrk_blocks_disjoint_witness:
  "alloc_run (sbrk_request demo_layout demo_env) (\<lambda>r. unat (snd r))
     [(False, 0x1000), (True, 0x10000)] (initial_heap demo_layout) =
     ([(0x80008000, 0x1000), (0x80020000, 0x10000)], \<lparr>curbrk = 0x80030000, heap_errno = 0\<rparr>) \<and>
   {0x80008000..<0x80008000 + 0x1000} \<inter> {0x80020000..<0x80020000 + 0x10000} = ({} :: nat set)"
proof -
  have run: "alloc_run (sbrk_request demo_layout demo_env) (\<lambda>r. unat (snd r))
     [(False, 0x1000), (True, 0x10000)] (initial_heap demo_layout) =
     ([(0x80008000, 0x1000), (0x80020000, 0x10000)], \<lparr>curbrk = 0x80030000, heap_errno = 0\<rparr>)"
    by (simp add: sbrk_request_def sbrk_def demo_layout_def demo_env_def initial_heap_def
        stacks_end_def)
  show ?thesis using sbrk_blocks_disjoint [OF demo_heap run, of 0 1] run by simp
qed

text \<open>
  \<open>soct_heap_remaining\<close> is an upper bound: a successful \<open>_sbrk\<close> of \<open>incr\<close> bytes finds at
  least \<open>incr\<close> bytes remaining before the call and at most the difference afterwards (the
  unused tail of the initial region is lost when the break jumps over the stacks).
\<close>

theorem heap_remaining_bound:
  assumes "layout_ok L E" and "heap_inv L E st" and "sbrk L E incr st = (p, st')" and "p \<noteq> - 1"
  shows "unat (soct_heap_remaining L E st') + unat incr \<le> unat (soct_heap_remaining L E st)"
proof -
  note ok = sbrk_success [OF assms]
  have inv': "heap_inv L E st'" using sbrk_inv [OF assms(1,2), of incr] assms(3) by simp
  have lt: "unat (stack_start L) < unat (stacks_end L E)"
    using stack_start_less_stacks_end [OF assms(1)] by (simp add: word_less_nat_alt)
  note u = sbrk_ok_block(1) [OF assms(1,2) ok(2)]
  have nat_ok: "unat p = unat (curbrk st) \<and> unat p + unat incr \<le> unat (stack_start L) \<or>
      unat p = unat (stacks_end L E) \<and> unat (curbrk st) \<le> unat (stack_start L) \<and>
        unat p + unat incr \<le> unat (env_ram_end E) \<or>
      unat p = unat (curbrk st) \<and> unat (stack_start L) < unat (curbrk st) \<and>
        unat p + unat incr \<le> unat (env_ram_end E)"
    using ok(2) unfolding sbrk_ok_def word_add_le_iff
    unfolding word_le_nat_alt word_less_nat_alt by blast
  show ?thesis
    unfolding unat_heap_remaining [OF assms(1,2)] unat_heap_remaining [OF assms(1) inv']
    unfolding ok(1) heap_state.simps word_le_nat_alt
    using nat_ok lt by (auto simp: u simp del: unat_plus_if')
qed

theorem heap_remaining_bound_witness:
  "soct_heap_remaining demo_layout demo_env (initial_heap demo_layout) = 0xe8000 \<and>
   unat (soct_heap_remaining demo_layout demo_env \<lparr>curbrk = 0x80030000, heap_errno = 0\<rparr>) + 0x10000
     \<le> 0xe8000"
proof -
  have run: "sbrk demo_layout demo_env 0x10000 (initial_heap demo_layout) =
      (0x80020000, \<lparr>curbrk = 0x80030000, heap_errno = 0\<rparr>)"
    by (simp add: sbrk_def demo_layout_def demo_env_def initial_heap_def stacks_end_def)
  have "soct_heap_remaining demo_layout demo_env (initial_heap demo_layout) = 0xe8000"
    by (simp add: soct_heap_remaining_def demo_layout_def demo_env_def initial_heap_def
        stacks_end_def)
  then show ?thesis using heap_remaining_bound [OF demo_heap run] by simp
qed

end
