(* ===== verification/Smoldtb_Mem.thy ===== *)
theory Smoldtb_Mem
  imports Soct_Prelude
begin

text \<open>
  The memory side of the device tree parser \<open>shared/soctglue/src/smoldtb.c\<close>: the blob as a byte
  list, native (little-endian) loads, the byte swaps, and the C string helpers. A pointer into
  the blob is a byte offset; a read outside the blob, which the C code does not notice, is the
  value \<open>None\<close>. A \<open>const char*\<close> is the list of bytes from the pointer onwards.
\<close>

section \<open>Loads and byte order\<close>

type_synonym blob = "u8 list"
type_synonym cstr = "u8 list"

definition le32 :: "u8 \<Rightarrow> u8 \<Rightarrow> u8 \<Rightarrow> u8 \<Rightarrow> u32" where
  "le32 b0 b1 b2 b3 =
     ucast b0 OR push_bit 8 (ucast b1) OR push_bit 16 (ucast b2) OR push_bit 24 (ucast b3)"

definition rd32 :: "blob \<Rightarrow> nat \<Rightarrow> u32 option" where
  "rd32 b i = (if i + 4 \<le> length b
     then Some (le32 (b ! i) (b ! (i + 1)) (b ! (i + 2)) (b ! (i + 3))) else None)"

definition rd64 :: "blob \<Rightarrow> nat \<Rightarrow> u64 option" where
  "rd64 b i = do {
     lo \<leftarrow> rd32 b i;
     hi \<leftarrow> rd32 b (i + 4);
     Some (ucast lo OR push_bit 32 (ucast hi)) }"

definition be32 :: "u32 \<Rightarrow> u32" where
  "be32 input =
     push_bit 24 (input AND 0xFF) OR push_bit 8 (input AND 0xFF00) OR
     drop_bit 8 (input AND 0xFF0000) OR drop_bit 24 (input AND 0xFF000000)"

definition be64 :: "u64 \<Rightarrow> u64" where
  "be64 input =
     push_bit 56 (drop_bit 0 input AND 0xFF) OR push_bit 48 (drop_bit 8 input AND 0xFF) OR
     push_bit 40 (drop_bit 16 input AND 0xFF) OR push_bit 32 (drop_bit 24 input AND 0xFF) OR
     push_bit 24 (drop_bit 32 input AND 0xFF) OR push_bit 16 (drop_bit 40 input AND 0xFF) OR
     push_bit 8 (drop_bit 48 input AND 0xFF) OR push_bit 0 (drop_bit 56 input AND 0xFF)"

section \<open>Strings\<close>

fun string_len :: "cstr \<Rightarrow> nat option" where
  "string_len [] = None"
| "string_len (c # cs) = (if c = 0 then Some 0 else map_option Suc (string_len cs))"

text \<open>\<open>string_len\<close> tests its argument for NULL first.\<close>

definition string_len_ptr :: "cstr option \<Rightarrow> nat option" where
  "string_len_ptr p = (case p of None \<Rightarrow> Some 0 | Some s \<Rightarrow> string_len s)"

fun strings_eq :: "cstr \<Rightarrow> cstr \<Rightarrow> nat \<Rightarrow> bool option" where
  "strings_eq a b 0 = Some True"
| "strings_eq (x # a) (y # b) (Suc n) =
     (if x = 0 \<and> y = 0 then Some True
      else if x \<noteq> y then Some False
      else strings_eq a b n)"
| "strings_eq a b (Suc n) = None"

text \<open>The outer option is the read outside the blob, the inner \<open>None\<close> the result \<open>-1ul\<close>.\<close>

fun string_find_char :: "cstr \<Rightarrow> u8 \<Rightarrow> nat option option" where
  "string_find_char [] target = None"
| "string_find_char (c # cs) target =
     (if c = target then Some (Some 0)
      else if c = 0 then Some None
      else map_option (map_option Suc) (string_find_char cs target))"

definition dtb_align_up :: "nat \<Rightarrow> nat \<Rightarrow> nat" where
  "dtb_align_up input alignment = ((input + alignment - 1) div alignment) * alignment"

text \<open>A string literal of the program: its bytes and the terminating zero.\<close>

definition cstring :: "string \<Rightarrow> cstr" where
  "cstring s = map of_char s @ [0]"

text \<open>The characters before the terminator.\<close>

definition cval :: "cstr \<Rightarrow> u8 list" where
  "cval s = takeWhile (\<lambda>c. c \<noteq> 0) s"

section \<open>Cells\<close>

text \<open>
  \<open>extract_cells\<close> on the cells at a byte offset. A shift by 64 or more is undefined in C, so more
  than two cells give \<open>None\<close>.
\<close>

fun extract_loop :: "blob \<Rightarrow> nat \<Rightarrow> nat \<Rightarrow> nat list \<Rightarrow> u64 \<Rightarrow> u64 option" where
  "extract_loop b cells count [] v = Some v"
| "extract_loop b cells count (i # is) v =
     (case rd32 b (cells + 4 * i) of
        None \<Rightarrow> None
      | Some c \<Rightarrow>
          if (count - 1 - i) * 32 < 64
          then extract_loop b cells count is
                 (v OR push_bit ((count - 1 - i) * 32) (ucast (be32 c)))
          else None)"

definition extract_cells :: "blob \<Rightarrow> nat \<Rightarrow> nat \<Rightarrow> u64 option" where
  "extract_cells b cells count = extract_loop b cells count [0..<count] 0"

section \<open>Lemmas\<close>

lemma mask_numerals:
  "(0xFF :: 32 word) = mask 8" "(0xFF00 :: 32 word) = push_bit 8 (mask 8)"
  "(0xFF0000 :: 32 word) = push_bit 16 (mask 8)" "(0xFF000000 :: 32 word) = push_bit 24 (mask 8)"
  "(0xFF :: 64 word) = mask 8"
  by (simp_all add: mask_eq_exp_minus_1 push_bit_eq_mult)

lemma bit_be32:
  "bit (be32 x) n \<longleftrightarrow>
     (if n < 8 then bit x (n + 24) else if n < 16 then bit x (n + 8)
      else if n < 24 then bit x (n - 8) else n < 32 \<and> bit x (n - 24))"
proof -
  consider "n < 8" | "8 \<le> n" "n < 16" | "16 \<le> n" "n < 24" | "24 \<le> n" by linarith
  then show ?thesis
    by cases (auto simp add: be32_def mask_numerals bit_simps add.commute)
qed

lemma bit_le32:
  "bit (le32 b0 b1 b2 b3) n \<longleftrightarrow>
     (if n < 8 then bit b0 n else if n < 16 then bit b1 (n - 8)
      else if n < 24 then bit b2 (n - 16) else n < 32 \<and> bit b3 (n - 24))"
proof -
  consider "n < 8" | "8 \<le> n" "n < 16" | "16 \<le> n" "n < 24" | "24 \<le> n" by linarith
  then show ?thesis
    by cases (auto simp add: le32_def bit_simps dest: bit_imp_le_length)
qed

text \<open>The four byte lanes of a bit position.\<close>

lemma byte_lanes:
  obtains "n < 8" | m where "n = m + 8" "m < 8" | m where "n = m + 16" "m < 8"
    | m where "n = m + 24" "m < (8::nat)" | "32 \<le> n"
proof -
  consider "n < 8" | "8 \<le> n" "n < 16" | "16 \<le> n" "n < 24" | "24 \<le> n" "n < 32" | "32 \<le> n"
    by linarith
  then show ?thesis
    using that(1) that(2) [of "n - 8"] that(3) [of "n - 16"] that(4) [of "n - 24"] that(5)
    by cases simp_all
qed

lemma be32_le32 [simp]: "be32 (le32 b0 b1 b2 b3) = le32 b3 b2 b1 b0"
proof (rule bit_eqI)
  fix n
  show "bit (be32 (le32 b0 b1 b2 b3)) n = bit (le32 b3 b2 b1 b0) n"
    by (rule byte_lanes [of n]) (simp_all add: bit_be32 bit_le32)
qed

lemma be32_involution [simp]: "be32 (be32 x) = x"
proof (rule bit_eqI)
  fix n
  show "bit (be32 (be32 x)) n = bit x n"
    by (rule byte_lanes [of n]) (auto simp add: bit_be32 add.commute dest: bit_imp_le_length)
qed

text \<open>The string helpers against the list of characters before the terminator.\<close>

lemma string_len_eq:
  "string_len s = (if 0 \<in> set s then Some (length (cval s)) else None)"
  by (induction s) (auto simp: cval_def)

lemma strings_eq_prefix:
  assumes "0 \<in> set a" and "0 \<in> set b"
  shows "strings_eq a b n = Some (take n (cval a) = take n (cval b))"
  using assms
proof (induction a b n rule: strings_eq.induct)
  case (2 x a y b n)
  then show ?case by (cases "x = 0"; cases "y = 0") (auto simp: cval_def)
qed (simp_all add: cval_def)

lemma string_find_char_eq:
  assumes "0 \<in> set s" and "t \<noteq> 0"
  shows "string_find_char s t = Some (if t \<in> set (cval s)
     then Some (length (takeWhile (\<lambda>c. c \<noteq> t) (cval s))) else None)"
  using assms by (induction s) (auto simp: cval_def)

lemma cval_append_zero: "0 \<notin> set xs \<Longrightarrow> cval (xs @ 0 # ys) = xs"
  by (induction xs) (auto simp: cval_def)

lemma zero_in_cstring [simp]: "0 \<in> set (cstring s)"
  by (simp add: cstring_def)

lemma cval_cstring: "(\<forall>c \<in> set s. (of_char c :: u8) \<noteq> 0) \<Longrightarrow> cval (cstring s) = map of_char s"
  unfolding cstring_def by (subst cval_append_zero) (auto simp: image_iff)

lemma cval_no_zero [simp]: "0 \<notin> set (cval s)"
  by (auto simp: cval_def dest: set_takeWhileD)

lemma cval_split: "0 \<in> set s \<Longrightarrow> \<exists>r. s = cval s @ 0 # r"
proof (induction s)
  case (Cons c s)
  then show ?case by (cases "c = 0") (auto simp: cval_def)
qed simp

lemma dtb_align_up_4: "dtb_align_up n 4 div 4 = (n + 3) div 4"
  by (simp add: dtb_align_up_def)

lemma extract_cells_1:
  "extract_cells b i 1 = map_option (\<lambda>c. ucast (be32 c)) (rd32 b i)"
  by (cases "rd32 b i") (simp_all add: extract_cells_def)

lemma extract_cells_2:
  "extract_cells b i 2 = do {
     hi \<leftarrow> rd32 b i; lo \<leftarrow> rd32 b (i + 4);
     Some (push_bit 32 (ucast (be32 hi)) OR ucast (be32 lo)) }"
proof -
  have "[0..<2] = [0, 1::nat]" by (simp add: upt_rec)
  then show ?thesis
    by (cases "rd32 b i"; cases "rd32 b (i + 4)") (simp_all add: extract_cells_def)
qed

end
