(* ===== verification/Smoldtb.thy ===== *)
theory Smoldtb
  imports Smoldtb_Mem
begin

text \<open>
  The read-only mode of the device tree parser \<open>shared/soctglue/src/smoldtb.c\<close>, function by
  function. The parser keeps its nodes and properties in two arrays; a \<open>dtb_node*\<close> or
  \<open>dtb_prop*\<close> is an index into the array, NULL is \<open>None\<close>. The callbacks (\<open>malloc\<close>, \<open>free\<close>,
  \<open>on_error\<close>) act on a host state \<open>'h\<close> of the caller.

  A loop that the C code may run forever (the child loop of \<open>parse_node\<close>) takes fuel, and running
  out of fuel is a result of its own; the linked-list loops are partial functions whose value is
  \<open>None\<close> when they do not return or read outside the blob.
\<close>

section \<open>Data\<close>

record dtb_node =
  nd_parent :: "nat option"
  nd_sibling :: "nat option"
  nd_child :: "nat option"
  nd_props :: "nat option"
  nd_name :: "nat option"
  nd_fromMalloc :: bool

record dtb_prop =
  pr_node :: "nat option"
  pr_name :: nat
  pr_data :: nat
  pr_next :: "nat option"
  pr_length :: u32
  pr_fromMalloc :: bool
  pr_dataFromMalloc :: bool

record 'h dtb_ops =
  op_malloc :: "(nat \<Rightarrow> 'h \<Rightarrow> nat option \<times> 'h) option"
  op_free :: "(nat \<Rightarrow> nat \<Rightarrow> 'h \<Rightarrow> 'h) option"
  op_on_error :: "(string \<Rightarrow> 'h \<Rightarrow> 'h) option"

record dtb_init_info =
  ii_cells :: nat
  ii_strings :: nat
  ii_cell_count :: nat

record 'h dtb_state =
  st_root :: "nat option"
  handle_lookup :: "nat option list"
  buffer :: "nat option"
  node_buff :: "dtb_node list"
  node_alloc_head :: nat
  node_alloc_max :: nat
  prop_buff :: "dtb_prop list"
  prop_alloc_head :: nat
  prop_alloc_max :: nat
  resv_memory :: nat
  st_ops :: "'h dtb_ops"
  st_host :: 'h

definition FDT_MAGIC :: u32 where "FDT_MAGIC = 0xD00DFEED"
definition FDT_BEGIN_NODE :: u32 where "FDT_BEGIN_NODE = 1"
definition FDT_END_NODE :: u32 where "FDT_END_NODE = 2"
definition FDT_PROP :: u32 where "FDT_PROP = 3"
definition FDT_CELL_SIZE :: nat where "FDT_CELL_SIZE = 4"

text \<open>Structure sizes on the 64-bit target.\<close>

definition sizeof_dtb_node :: nat where "sizeof_dtb_node = 48"
definition sizeof_dtb_prop :: nat where "sizeof_dtb_prop = 40"
definition sizeof_ptr :: nat where "sizeof_ptr = 8"

text \<open>The contents of a freshly zeroed buffer slot.\<close>

definition zero_node :: dtb_node where
  "zero_node = \<lparr>nd_parent = None, nd_sibling = None, nd_child = None, nd_props = None,
     nd_name = None, nd_fromMalloc = False\<rparr>"

definition zero_prop :: dtb_prop where
  "zero_prop = \<lparr>pr_node = None, pr_name = 0, pr_data = 0, pr_next = None, pr_length = 0,
     pr_fromMalloc = False, pr_dataFromMalloc = False\<rparr>"

text \<open>Result of a fuelled loop: a value, a read outside the blob, or no fuel left.\<close>

datatype 'a run = Ret 'a | Fault | Out_of_fuel

section \<open>Allocation\<close>

definition log_error :: "string \<Rightarrow> 'h dtb_state \<Rightarrow> 'h dtb_state" where
  "log_error msg st =
     (case op_on_error (st_ops st) of
        None \<Rightarrow> st
      | Some f \<Rightarrow> st\<lparr>st_host := f msg (st_host st)\<rparr>)"

definition try_malloc :: "nat \<Rightarrow> 'h dtb_state \<Rightarrow> nat option \<times> 'h dtb_state" where
  "try_malloc count st =
     (case op_malloc (st_ops st) of
        Some f \<Rightarrow> (case f count (st_host st) of (p, h) \<Rightarrow> (p, st\<lparr>st_host := h\<rparr>))
      | None \<Rightarrow> (None, log_error ''try_malloc() called but state.ops.malloc is NULL'' st))"

definition try_free :: "nat \<Rightarrow> nat \<Rightarrow> 'h dtb_state \<Rightarrow> 'h dtb_state" where
  "try_free ptr count st =
     log_error ''try_free() called but state.ops.free is NULL''
       (case op_free (st_ops st) of
          Some f \<Rightarrow> st\<lparr>st_host := f ptr count (st_host st)\<rparr>
        | None \<Rightarrow> st)"

definition alloc_node :: "'h dtb_state \<Rightarrow> nat option \<times> 'h dtb_state" where
  "alloc_node st =
     (if node_alloc_head st + 1 < node_alloc_max st
      then (Some (node_alloc_head st), st\<lparr>node_alloc_head := node_alloc_head st + 1\<rparr>)
      else (None, log_error ''Not enough space for source dtb node.'' st))"

definition alloc_prop :: "'h dtb_state \<Rightarrow> nat option \<times> 'h dtb_state" where
  "alloc_prop st =
     (if prop_alloc_head st + 1 < prop_alloc_max st
      then (Some (prop_alloc_head st), st\<lparr>prop_alloc_head := prop_alloc_head st + 1\<rparr>)
      else (None, log_error ''Not enough space for source dtb property.'' st))"

definition buffers_size :: "'h dtb_state \<Rightarrow> nat" where
  "buffers_size st = node_alloc_max st * sizeof_dtb_node +
     prop_alloc_max st * sizeof_dtb_prop + node_alloc_max st * sizeof_ptr"

text \<open>Called with a non-null \<open>node_buff\<close> only.\<close>

definition free_buffers :: "'h dtb_state \<Rightarrow> 'h dtb_state" where
  "free_buffers st =
     (let st = (case buffer st of None \<Rightarrow> st | Some p \<Rightarrow> try_free p (buffers_size st) st)
      in st\<lparr>buffer := None, node_buff := [], prop_buff := [], handle_lookup := [],
            node_alloc_head := 0, node_alloc_max := 0,
            prop_alloc_head := 0, prop_alloc_max := 0\<rparr>)"

section \<open>Parsing\<close>

text \<open>\<open>be32(init_info->cells[i])\<close>\<close>

definition cell :: "blob \<Rightarrow> dtb_init_info \<Rightarrow> nat \<Rightarrow> u32 option" where
  "cell b ii i = map_option be32 (rd32 b (ii_cells ii + FDT_CELL_SIZE * i))"

fun count_cells :: "blob \<Rightarrow> dtb_init_info \<Rightarrow> nat list \<Rightarrow> nat \<times> nat \<Rightarrow> (nat \<times> nat) option" where
  "count_cells b ii [] (nodes, props) = Some (nodes, props)"
| "count_cells b ii (i # is) (nodes, props) =
     (case cell b ii i of
        None \<Rightarrow> None
      | Some c \<Rightarrow>
          if c = FDT_BEGIN_NODE then count_cells b ii is (nodes + 1, props)
          else if c = FDT_PROP then count_cells b ii is (nodes, props + 1)
          else count_cells b ii is (nodes, props))"

definition alloc_buffers :: "blob \<Rightarrow> dtb_init_info \<Rightarrow> 'h dtb_state \<Rightarrow> (bool \<times> 'h dtb_state) option"
  where
  "alloc_buffers b ii st =
     (case count_cells b ii [0..<ii_cell_count ii] (0, 0) of
        None \<Rightarrow> None
      | Some (nodes, props) \<Rightarrow>
          let st = st\<lparr>node_alloc_max := nodes, prop_alloc_max := props\<rparr>
          in case try_malloc (buffers_size st) st of
               (None, st) \<Rightarrow> Some (False, log_error ''Failed to allocate big buffer.'' st)
             | (Some p, st) \<Rightarrow>
                 Some (True, st\<lparr>buffer := Some p,
                    node_buff := replicate nodes zero_node, node_alloc_head := 0,
                    prop_buff := replicate props zero_prop, prop_alloc_head := 0,
                    handle_lookup := replicate nodes None\<rparr>))"

definition set_node :: "nat \<Rightarrow> (dtb_node \<Rightarrow> dtb_node) \<Rightarrow> 'h dtb_state \<Rightarrow> 'h dtb_state" where
  "set_node n f st = st\<lparr>node_buff := (node_buff st)[n := f (node_buff st ! n)]\<rparr>"

definition set_prop :: "nat \<Rightarrow> (dtb_prop \<Rightarrow> dtb_prop) \<Rightarrow> 'h dtb_state \<Rightarrow> 'h dtb_state" where
  "set_prop p f st = st\<lparr>prop_buff := (prop_buff st)[p := f (prop_buff st ! p)]\<rparr>"

text \<open>
  \<open>dtb_read_prop_1\<close> takes the length from the property header in the blob, two cells before the
  data. The result is the list of values it stores, the count is its length.
\<close>

definition fdt_prop_length :: "blob \<Rightarrow> dtb_prop \<Rightarrow> nat option" where
  "fdt_prop_length b pr =
     (if pr_data pr < 8 then None
      else map_option (\<lambda>c. unat (be32 c)) (rd32 b (pr_data pr - 8)))"

fun read_vals :: "blob \<Rightarrow> nat \<Rightarrow> nat \<Rightarrow> nat list \<Rightarrow> u64 list option" where
  "read_vals b data cell_count [] = Some []"
| "read_vals b data cell_count (i # is) =
     (case extract_cells b (data + FDT_CELL_SIZE * (i * cell_count)) cell_count of
        None \<Rightarrow> None
      | Some v \<Rightarrow> map_option (\<lambda>vs. v # vs) (read_vals b data cell_count is))"

definition dtb_read_prop_1 :: "blob \<Rightarrow> dtb_prop option \<Rightarrow> nat \<Rightarrow> u64 list option" where
  "dtb_read_prop_1 b prop cell_count =
     (case prop of
        None \<Rightarrow> Some []
      | Some pr \<Rightarrow>
          if cell_count = 0 then Some []
          else case fdt_prop_length b pr of
                 None \<Rightarrow> None
               | Some len \<Rightarrow>
                   read_vals b (pr_data pr) cell_count [0..<len div (cell_count * FDT_CELL_SIZE)])"

text \<open>\<open>handle_lookup[handle] = node\<close> for the single cell of a phandle property.\<close>

definition record_phandle :: "blob \<Rightarrow> nat \<Rightarrow> dtb_prop \<Rightarrow> 'h dtb_state \<Rightarrow> 'h dtb_state option" where
  "record_phandle b n pr st =
     (case dtb_read_prop_1 b (Some pr) 1 of
        Some [handle] \<Rightarrow>
          if unat handle < length (handle_lookup st)
          then Some (st\<lparr>handle_lookup := (handle_lookup st)[unat handle := Some n]\<rparr>)
          else None
      | _ \<Rightarrow> None)"

definition name_is :: "cstr \<Rightarrow> string \<Rightarrow> bool option" where
  "name_is s lit = do {
     name_len \<leftarrow> string_len s;
     if name_len = length lit then strings_eq s (cstring lit) name_len else Some False }"

definition check_for_special_prop ::
    "blob \<Rightarrow> nat \<Rightarrow> dtb_prop \<Rightarrow> 'h dtb_state \<Rightarrow> 'h dtb_state option" where
  "check_for_special_prop b n pr st =
     (case drop (pr_name pr) b of
        [] \<Rightarrow> None
      | name0 # rest \<Rightarrow>
          if name0 \<noteq> of_char CHR ''p'' \<or> name0 \<noteq> of_char CHR ''l'' then Some st
          else do {
            ph \<leftarrow> name_is (name0 # rest) ''phandle'';
            if ph then record_phandle b n pr st
            else do {
              lh \<leftarrow> name_is (name0 # rest) ''linux,phandle'';
              if lh then record_phandle b n pr st else Some st } })"

definition parse_prop :: "blob \<Rightarrow> dtb_init_info \<Rightarrow> nat \<Rightarrow> 'h dtb_state \<Rightarrow>
    (nat option \<times> nat \<times> 'h dtb_state) option" where
  "parse_prop b ii off st =
     (case cell b ii off of
        None \<Rightarrow> None
      | Some c \<Rightarrow>
          if c \<noteq> FDT_PROP then Some (None, off, st)
          else
            let off = off + 1
            in case alloc_prop st of
                 (None, st) \<Rightarrow> Some (None, off, log_error ''Property allocation failed'' st)
               | (Some p, st) \<Rightarrow> do {
                   len \<leftarrow> cell b ii off;
                   name_offset \<leftarrow> cell b ii (off + 1);
                   Some (Some p, off + (dtb_align_up (unat len) 4 div 4 + 2),
                     set_prop p (\<lambda>pr. pr\<lparr>pr_name := ii_strings ii + unat name_offset,
                       pr_data := ii_cells ii + FDT_CELL_SIZE * (off + 2), pr_length := len,
                       pr_fromMalloc := False, pr_dataFromMalloc := False\<rparr>) st) })"

text \<open>
  \<open>parse_node\<close> and the while loop of its body (\<open>parse_body\<close>, for the node already allocated).
  The result is the node or NULL, the cell offset and the state.
\<close>

fun parse_node :: "nat \<Rightarrow> blob \<Rightarrow> dtb_init_info \<Rightarrow> nat \<Rightarrow> 'h dtb_state \<Rightarrow>
      (nat option \<times> nat \<times> 'h dtb_state) run"
  and parse_body :: "nat \<Rightarrow> blob \<Rightarrow> dtb_init_info \<Rightarrow> nat \<Rightarrow> nat \<Rightarrow> 'h dtb_state \<Rightarrow>
      (nat option \<times> nat \<times> 'h dtb_state) run" where
  "parse_node 0 b ii off st = Out_of_fuel"
| "parse_node (Suc fuel) b ii off st =
     (case cell b ii off of
        None \<Rightarrow> Fault
      | Some c \<Rightarrow>
          if c \<noteq> FDT_BEGIN_NODE then Ret (None, off, st)
          else case alloc_node st of
                 (None, st) \<Rightarrow> Ret (None, off, log_error ''Node allocation failed'' st)
               | (Some n, st) \<Rightarrow>
                   let name = ii_cells ii + FDT_CELL_SIZE * (off + 1)
                   in case string_len (drop name b) of
                        None \<Rightarrow> Fault
                      | Some name_len \<Rightarrow>
                          parse_body fuel b ii n
                            (off + (dtb_align_up (name_len + 1) FDT_CELL_SIZE div FDT_CELL_SIZE + 1))
                            (set_node n (\<lambda>nd. nd\<lparr>nd_name := (if name_len = 0 then None else Some name),
                               nd_fromMalloc := False\<rparr>) st))"
| "parse_body 0 b ii n off st = Out_of_fuel"
| "parse_body (Suc fuel) b ii n off st =
     (if off < ii_cell_count ii
      then case cell b ii off of
             None \<Rightarrow> Fault
           | Some test \<Rightarrow>
               if test = FDT_END_NODE then Ret (Some n, off + 1, st)
               else if test = FDT_BEGIN_NODE
               then case parse_node fuel b ii off st of
                      Ret (None, off, st) \<Rightarrow> parse_body fuel b ii n off st
                    | Ret (Some child, off, st) \<Rightarrow>
                        parse_body fuel b ii n off
                          (set_node child (\<lambda>nd. nd\<lparr>nd_parent := Some n\<rparr>)
                            (set_node n (\<lambda>nd. nd\<lparr>nd_child := Some child\<rparr>)
                              (set_node child (\<lambda>nd. nd\<lparr>nd_sibling := nd_child (node_buff st ! n)\<rparr>) st)))
                    | Fault \<Rightarrow> Fault
                    | Out_of_fuel \<Rightarrow> Out_of_fuel
               else if test = FDT_PROP
               then case parse_prop b ii off st of
                      None \<Rightarrow> Fault
                    | Some (None, off, st) \<Rightarrow> parse_body fuel b ii n off st
                    | Some (Some p, off, st) \<Rightarrow>
                        let st = set_node n (\<lambda>nd. nd\<lparr>nd_props := Some p\<rparr>)
                                   (set_prop p (\<lambda>pr. pr\<lparr>pr_next := nd_props (node_buff st ! n),
                                      pr_node := Some n\<rparr>) st)
                        in case check_for_special_prop b n (prop_buff st ! p) st of
                             None \<Rightarrow> Fault
                           | Some st \<Rightarrow> parse_body fuel b ii n off st
               else parse_body fuel b ii n (off + 1) st
      else Ret (None, off, log_error ''Node is missing terminating tag.'' st))"

definition dtb_query_total_size :: "blob option \<Rightarrow> nat option" where
  "dtb_query_total_size start =
     (case start of
        None \<Rightarrow> Some 0
      | Some b \<Rightarrow> do {
          magic \<leftarrow> rd32 b 0;
          if be32 magic \<noteq> FDT_MAGIC then Some 0
          else map_option (\<lambda>c. unat (be32 c)) (rd32 b 4) })"

text \<open>The loop over the top level of the structure block.\<close>

fun init_loop :: "nat \<Rightarrow> blob \<Rightarrow> dtb_init_info \<Rightarrow> nat \<Rightarrow> 'h dtb_state \<Rightarrow> 'h dtb_state run" where
  "init_loop 0 b ii i st = Out_of_fuel"
| "init_loop (Suc fuel) b ii i st =
     (if i < ii_cell_count ii
      then case cell b ii i of
             None \<Rightarrow> Fault
           | Some c \<Rightarrow>
               if c \<noteq> FDT_BEGIN_NODE then init_loop fuel b ii (i + 1) st
               else case parse_node fuel b ii i st of
                      Ret (None, i, st) \<Rightarrow> init_loop fuel b ii (i + 1) st
                    | Ret (Some sub_root, i, st) \<Rightarrow>
                        init_loop fuel b ii (i + 1)
                          ((set_node sub_root (\<lambda>nd. nd\<lparr>nd_sibling := st_root st\<rparr>) st)
                             \<lparr>st_root := Some sub_root\<rparr>)
                    | Fault \<Rightarrow> Fault
                    | Out_of_fuel \<Rightarrow> Out_of_fuel
      else Ret st)"

text \<open>The header fields \<open>dtb_init\<close> reads, at their byte offsets.\<close>

definition read_header :: "blob \<Rightarrow> (dtb_init_info \<times> nat) option" where
  "read_header b = do {
     structs \<leftarrow> rd32 b 8;
     strings \<leftarrow> rd32 b 12;
     rsvd \<leftarrow> rd32 b 16;
     size_structs \<leftarrow> rd32 b 36;
     Some (\<lparr>ii_cells = unat (be32 structs), ii_strings = unat (be32 strings),
            ii_cell_count = unat (be32 size_structs) div 4\<rparr>, unat (be32 rsvd)) }"

definition dtb_init :: "nat \<Rightarrow> blob option \<Rightarrow> 'h dtb_ops \<Rightarrow> 'h dtb_state \<Rightarrow> (bool \<times> 'h dtb_state) run"
  where
  "dtb_init fuel start ops st0 =
     (let st = st0\<lparr>st_ops := ops\<rparr>
      in if op_malloc ops = None
         then Ret (False, log_error ''smoldtb has been compiled without an internal static buffer, but not passed a malloc() function.'' st)
         else case start of
           None \<Rightarrow> Ret (True, st\<lparr>st_root := None\<rparr>)
         | Some b \<Rightarrow>
             (case rd32 b 0 of
                None \<Rightarrow> Fault
              | Some magic \<Rightarrow>
                  if be32 magic \<noteq> FDT_MAGIC
                  then Ret (False, log_error ''FDT has incorrect magic number.'' st)
                  else case read_header b of
                    None \<Rightarrow> Fault
                  | Some (ii, rsvd) \<Rightarrow>
                      let st = st\<lparr>resv_memory := rsvd\<rparr>;
                          st = (if buffer st \<noteq> None then free_buffers st else st)
                      in case alloc_buffers b ii st of
                           None \<Rightarrow> Fault
                         | Some (False, st) \<Rightarrow>
                             Ret (False, log_error ''failed to allocate readonly buffer'' st)
                         | Some (True, st) \<Rightarrow>
                             (case init_loop fuel b ii 0 st of
                                Ret st \<Rightarrow> Ret (True, st)
                              | Fault \<Rightarrow> Fault
                              | Out_of_fuel \<Rightarrow> Out_of_fuel)))"

section \<open>Queries\<close>

text \<open>Dereferencing a node or property pointer; a wild index is \<open>None\<close>.\<close>

definition node_at :: "'h dtb_state \<Rightarrow> nat \<Rightarrow> dtb_node option" where
  "node_at st n = (if n < length (node_buff st) then Some (node_buff st ! n) else None)"

definition prop_at :: "'h dtb_state \<Rightarrow> nat \<Rightarrow> dtb_prop option" where
  "prop_at st p = (if p < length (prop_buff st) then Some (prop_buff st ! p) else None)"

partial_function (option) find_prop_loop ::
    "blob \<Rightarrow> 'h dtb_state \<Rightarrow> cstr \<Rightarrow> nat \<Rightarrow> nat option \<Rightarrow> nat option option" where
  "find_prop_loop b st name name_len prop =
     (case prop of
        None \<Rightarrow> Some None
      | Some p \<Rightarrow>
          do { pr \<leftarrow> prop_at st p;
               prop_name_len \<leftarrow> string_len (drop (pr_name pr) b);
               eq \<leftarrow> (if prop_name_len = name_len
                     then strings_eq (drop (pr_name pr) b) name prop_name_len else Some False);
               if eq then Some (Some p) else find_prop_loop b st name name_len (pr_next pr) })"

declare find_prop_loop.simps [code]

definition dtb_find_prop :: "blob \<Rightarrow> 'h dtb_state \<Rightarrow> nat option \<Rightarrow> cstr \<Rightarrow> nat option option" where
  "dtb_find_prop b st node name =
     (case node of
        None \<Rightarrow> Some None
      | Some n \<Rightarrow> do {
          nd \<leftarrow> node_at st n;
          name_len \<leftarrow> string_len name;
          find_prop_loop b st name name_len (nd_props nd) })"

partial_function (option) find_child_loop ::
    "blob \<Rightarrow> 'h dtb_state \<Rightarrow> cstr \<Rightarrow> nat \<Rightarrow> nat option \<Rightarrow> nat option option" where
  "find_child_loop b st name name_bounds scan =
     (case scan of
        None \<Rightarrow> Some None
      | Some n \<Rightarrow>
          do { nd \<leftarrow> node_at st n;
               nm \<leftarrow> nd_name nd;
               at \<leftarrow> string_find_char (drop nm b) (of_char CHR ''@'');
               child_name_len \<leftarrow> (case at of Some k \<Rightarrow> Some k | None \<Rightarrow> string_len (drop nm b));
               eq \<leftarrow> (if child_name_len = name_bounds
                     then strings_eq (drop nm b) name name_bounds else Some False);
               if eq then Some (Some n)
               else find_child_loop b st name name_bounds (nd_sibling nd) })"

declare find_child_loop.simps [code]

definition find_child_internal ::
    "blob \<Rightarrow> 'h dtb_state \<Rightarrow> nat \<Rightarrow> cstr \<Rightarrow> nat \<Rightarrow> nat option option" where
  "find_child_internal b st start name name_bounds = do {
     nd \<leftarrow> node_at st start;
     find_child_loop b st name name_bounds (nd_child nd) }"

definition skip_slashes :: "cstr \<Rightarrow> cstr" where
  "skip_slashes name = dropWhile (\<lambda>c. c = of_char CHR ''/'') name"

partial_function (option) find_loop ::
    "blob \<Rightarrow> 'h dtb_state \<Rightarrow> cstr \<Rightarrow> nat option \<Rightarrow> nat option option" where
  "find_loop b st path scan =
     (case scan of
        None \<Rightarrow> Some None
      | Some n \<Rightarrow>
          do { slash \<leftarrow> string_find_char (skip_slashes path) (of_char CHR ''/'');
               seg_len \<leftarrow> (case slash of Some k \<Rightarrow> Some k | None \<Rightarrow> string_len (skip_slashes path));
               if seg_len = 0 then Some (Some n)
               else do { next \<leftarrow> find_child_internal b st n (skip_slashes path) seg_len;
                         find_loop b st (drop seg_len (skip_slashes path)) next } })"

declare find_loop.simps [code]

definition dtb_find :: "blob \<Rightarrow> 'h dtb_state \<Rightarrow> cstr \<Rightarrow> nat option option" where
  "dtb_find b st path = find_loop b st path (st_root st)"

definition dtb_find_child :: "blob \<Rightarrow> 'h dtb_state \<Rightarrow> nat option \<Rightarrow> cstr \<Rightarrow> nat option option" where
  "dtb_find_child b st start name =
     (case start of
        None \<Rightarrow> Some None
      | Some n \<Rightarrow> do { len \<leftarrow> string_len name; find_child_internal b st n name len })"

definition dtb_find_phandle :: "'h dtb_state \<Rightarrow> nat \<Rightarrow> nat option option" where
  "dtb_find_phandle st handle =
     (if handle < node_alloc_max st
      then if handle < length (handle_lookup st) then Some (handle_lookup st ! handle) else None
      else Some None)"

definition dtb_get_sibling :: "'h dtb_state \<Rightarrow> nat option \<Rightarrow> nat option option" where
  "dtb_get_sibling st node =
     (case node of None \<Rightarrow> Some None | Some n \<Rightarrow> map_option nd_sibling (node_at st n))"

definition dtb_get_child :: "'h dtb_state \<Rightarrow> nat option \<Rightarrow> nat option option" where
  "dtb_get_child st node =
     (case node of None \<Rightarrow> Some None | Some n \<Rightarrow> map_option nd_child (node_at st n))"

definition dtb_get_parent :: "'h dtb_state \<Rightarrow> nat option \<Rightarrow> nat option option" where
  "dtb_get_parent st node =
     (case node of None \<Rightarrow> Some None | Some n \<Rightarrow> map_option nd_parent (node_at st n))"

text \<open>The list of a node's properties is walked \<open>index\<close> steps.\<close>

fun get_prop_loop :: "'h dtb_state \<Rightarrow> nat \<Rightarrow> nat option \<Rightarrow> nat option option" where
  "get_prop_loop st index None = Some None"
| "get_prop_loop st 0 (Some p) = Some (Some p)"
| "get_prop_loop st (Suc index) (Some p) =
     (case prop_at st p of None \<Rightarrow> None | Some pr \<Rightarrow> get_prop_loop st index (pr_next pr))"

definition dtb_get_prop :: "'h dtb_state \<Rightarrow> nat option \<Rightarrow> nat \<Rightarrow> nat option option" where
  "dtb_get_prop st node index =
     (case node of
        None \<Rightarrow> Some None
      | Some n \<Rightarrow> do { nd \<leftarrow> node_at st n; get_prop_loop st index (nd_props nd) })"

definition get_cells_helper ::
    "blob \<Rightarrow> 'h dtb_state \<Rightarrow> nat option \<Rightarrow> string \<Rightarrow> nat \<Rightarrow> nat option" where
  "get_cells_helper b st node prop_name orDefault =
     (case node of
        None \<Rightarrow> Some orDefault
      | Some n \<Rightarrow> do {
          prop \<leftarrow> dtb_find_prop b st (Some n) (cstring prop_name);
          case prop of
            None \<Rightarrow> Some orDefault
          | Some p \<Rightarrow> do {
              pr \<leftarrow> prop_at st p;
              vals \<leftarrow> dtb_read_prop_1 b (Some pr) 1;
              case vals of [v] \<Rightarrow> Some (unat v) | _ \<Rightarrow> Some orDefault } })"

definition dtb_get_addr_cells_of :: "blob \<Rightarrow> 'h dtb_state \<Rightarrow> nat option \<Rightarrow> nat option" where
  "dtb_get_addr_cells_of b st node = get_cells_helper b st node ''#address-cells'' 2"

definition dtb_get_size_cells_of :: "blob \<Rightarrow> 'h dtb_state \<Rightarrow> nat option \<Rightarrow> nat option" where
  "dtb_get_size_cells_of b st node = get_cells_helper b st node ''#size-cells'' 1"

definition dtb_get_addr_cells_for :: "blob \<Rightarrow> 'h dtb_state \<Rightarrow> nat option \<Rightarrow> nat option" where
  "dtb_get_addr_cells_for b st node =
     (case node of
        None \<Rightarrow> Some 2
      | Some n \<Rightarrow> do { nd \<leftarrow> node_at st n;
                       get_cells_helper b st (nd_parent nd) ''#address-cells'' 2 })"

definition dtb_get_size_cells_for :: "blob \<Rightarrow> 'h dtb_state \<Rightarrow> nat option \<Rightarrow> nat option" where
  "dtb_get_size_cells_for b st node =
     (case node of
        None \<Rightarrow> Some 1
      | Some n \<Rightarrow> do { nd \<leftarrow> node_at st n;
                       get_cells_helper b st (nd_parent nd) ''#size-cells'' 1 })"

text \<open>
  The scan over \<open>length * 4\<close> bytes (the product is 32 bits wide) from the property's data: the
  first non-zero byte after \<open>index\<close> zero bytes starts the string.
\<close>

fun prop_string_loop :: "blob \<Rightarrow> nat \<Rightarrow> nat \<Rightarrow> nat \<Rightarrow> nat \<Rightarrow> nat option option" where
  "prop_string_loop b addr 0 curr_index index = Some None"
| "prop_string_loop b addr (Suc left) curr_index index =
     (if addr < length b
      then if b ! addr = 0 then prop_string_loop b (addr + 1) left (curr_index + 1) index
           else if curr_index = index then Some (Some addr)
           else prop_string_loop b (addr + 1) left curr_index index
      else None)"

definition dtb_read_prop_string :: "blob \<Rightarrow> dtb_prop option \<Rightarrow> nat \<Rightarrow> nat option option" where
  "dtb_read_prop_string b prop index =
     (case prop of
        None \<Rightarrow> Some None
      | Some pr \<Rightarrow> prop_string_loop b (pr_data pr) (unat (pr_length pr * 4)) 0 index)"

partial_function (option) compatible_loop ::
    "blob \<Rightarrow> dtb_prop \<Rightarrow> cstr \<Rightarrow> nat \<Rightarrow> nat \<Rightarrow> bool option" where
  "compatible_loop b pr str str_len i =
     do { check_str \<leftarrow> dtb_read_prop_string b (Some pr) i;
          case check_str of
            None \<Rightarrow> Some False
          | Some s \<Rightarrow>
              do { eq \<leftarrow> strings_eq (drop s b) str str_len;
                   if eq then Some True else compatible_loop b pr str str_len (i + 1) } }"

declare compatible_loop.simps [code]

definition dtb_is_compatible :: "blob \<Rightarrow> 'h dtb_state \<Rightarrow> nat option \<Rightarrow> cstr option \<Rightarrow> bool option" where
  "dtb_is_compatible b st node str =
     (case (node, str) of
        (Some n, Some s) \<Rightarrow> do {
          compat_prop \<leftarrow> dtb_find_prop b st (Some n) (cstring ''compatible'');
          case compat_prop of
            None \<Rightarrow> Some False
          | Some p \<Rightarrow> do {
              pr \<leftarrow> prop_at st p;
              str_len \<leftarrow> string_len s;
              compatible_loop b pr s str_len 0 } }
      | _ \<Rightarrow> Some False)"

fun find_compatible_loop :: "blob \<Rightarrow> 'h dtb_state \<Rightarrow> cstr \<Rightarrow> nat list \<Rightarrow> nat option option" where
  "find_compatible_loop b st str [] = Some None"
| "find_compatible_loop b st str (i # is) =
     (case dtb_is_compatible b st (Some i) (Some str) of
        None \<Rightarrow> None
      | Some True \<Rightarrow> Some (Some i)
      | Some False \<Rightarrow> find_compatible_loop b st str is)"

definition dtb_find_compatible :: "blob \<Rightarrow> 'h dtb_state \<Rightarrow> nat option \<Rightarrow> cstr \<Rightarrow> nat option option" where
  "dtb_find_compatible b st start str =
     (let begin_index = (case start of None \<Rightarrow> 0 | Some n \<Rightarrow> n + 1)
      in find_compatible_loop b st str [begin_index..<node_alloc_head st])"

section \<open>Readers\<close>

fun read_pairs :: "blob \<Rightarrow> nat \<Rightarrow> nat \<times> nat \<Rightarrow> nat list \<Rightarrow> (u64 \<times> u64) list option" where
  "read_pairs b data layout [] = Some []"
| "read_pairs b data layout (i # is) =
     (let base = data + FDT_CELL_SIZE * (i * (fst layout + snd layout))
      in do { x \<leftarrow> extract_cells b base (fst layout);
              y \<leftarrow> extract_cells b (base + FDT_CELL_SIZE * fst layout) (snd layout);
              vs \<leftarrow> read_pairs b data layout is;
              Some ((x, y) # vs) })"

text \<open>
  \<open>dtb_read_prop_2\<close> with \<open>vals == NULL\<close> is the count alone; with an array it stores \<open>count\<close>
  pairs, however large the caller's array is.
\<close>

definition dtb_count_prop_2 :: "blob \<Rightarrow> dtb_prop option \<Rightarrow> nat \<times> nat \<Rightarrow> nat option" where
  "dtb_count_prop_2 b prop layout =
     (case prop of
        None \<Rightarrow> Some 0
      | Some pr \<Rightarrow>
          if fst layout = 0 \<or> snd layout = 0 then Some 0
          else map_option (\<lambda>len. len div ((fst layout + snd layout) * FDT_CELL_SIZE))
                 (fdt_prop_length b pr))"

definition dtb_read_prop_2 :: "blob \<Rightarrow> dtb_prop option \<Rightarrow> nat \<times> nat \<Rightarrow> (u64 \<times> u64) list option" where
  "dtb_read_prop_2 b prop layout =
     (case dtb_count_prop_2 b prop layout of
        None \<Rightarrow> None
      | Some count \<Rightarrow>
          (case prop of
             None \<Rightarrow> Some []
           | Some pr \<Rightarrow> read_pairs b (pr_data pr) layout [0..<count]))"

fun read_tuples :: "blob \<Rightarrow> nat \<Rightarrow> nat list \<Rightarrow> nat list \<Rightarrow> u64 list list option" where
  "read_tuples b data layout [] = Some []"
| "read_tuples b data layout (i # is) =
     (let base = data + FDT_CELL_SIZE * (i * sum_list layout)
      in do { xs \<leftarrow> those (map (\<lambda>k. extract_cells b
                       (base + FDT_CELL_SIZE * sum_list (take k layout)) (layout ! k))
                     [0..<length layout]);
              vs \<leftarrow> read_tuples b data layout is;
              Some (xs # vs) })"

text \<open>\<open>dtb_read_prop_3\<close> and \<open>dtb_read_prop_4\<close>, the layout and each value as a list of its fields.\<close>

definition dtb_read_prop_n :: "blob \<Rightarrow> dtb_prop option \<Rightarrow> nat list \<Rightarrow> u64 list list option" where
  "dtb_read_prop_n b prop layout =
     (case prop of
        None \<Rightarrow> Some []
      | Some pr \<Rightarrow>
          if 0 \<in> set layout then Some []
          else case fdt_prop_length b pr of
                 None \<Rightarrow> None
               | Some len \<Rightarrow>
                   read_tuples b (pr_data pr) layout
                     [0..<len div (sum_list layout * FDT_CELL_SIZE)])"

definition dtb_read_prop_3 :: "blob \<Rightarrow> dtb_prop option \<Rightarrow> nat \<Rightarrow> nat \<Rightarrow> nat \<Rightarrow> u64 list list option" where
  "dtb_read_prop_3 b prop la lb lc = dtb_read_prop_n b prop [la, lb, lc]"

definition dtb_read_prop_4 ::
    "blob \<Rightarrow> dtb_prop option \<Rightarrow> nat \<Rightarrow> nat \<Rightarrow> nat \<Rightarrow> nat \<Rightarrow> u64 list list option" where
  "dtb_read_prop_4 b prop la lb lc ld = dtb_read_prop_n b prop [la, lb, lc, ld]"

text \<open>
  \<open>dtb_read_resv_memory\<close>: the count of entries before the first zero base, then the returned
  count and the entries as the code fills them in (it reads the base twice).
\<close>

partial_function (option) resv_count :: "blob \<Rightarrow> nat \<Rightarrow> nat \<Rightarrow> nat option" where
  "resv_count b resv total_count =
     do { base \<leftarrow> rd64 b (resv + 8 * (total_count * 2));
          if be64 (if base \<noteq> 0 then 1 else 0) \<noteq> 0 then resv_count b resv (total_count + 1)
          else Some total_count }"

declare resv_count.simps [code]

definition dtb_read_resv_memory ::
    "blob \<Rightarrow> 'h dtb_state \<Rightarrow> nat \<Rightarrow> bool \<Rightarrow> (nat \<times> (u64 \<times> u64) list) option" where
  "dtb_read_resv_memory b st entry_count vals_null = do {
     total_count \<leftarrow> resv_count b (resv_memory st) 0;
     if entry_count = 0 \<or> vals_null then Some (total_count, [])
     else let entry_count = min total_count entry_count
       in do { vals \<leftarrow> those (map (\<lambda>i. do {
                  base \<leftarrow> rd64 b (resv_memory st + 8 * (i * 2));
                  length \<leftarrow> rd64 b (resv_memory st + 8 * (i * 2));
                  Some (be64 base, be64 length) }) [0..<entry_count]);
               Some (entry_count, vals) } }"

text \<open>The name of a node is the literal for the root, or the pointer of the node.\<close>

definition ROOT_NODE_STR :: string where "ROOT_NODE_STR = [CHR 0x27, CHR ''/'', CHR 0x27]"

record dtb_node_stat =
  stat_name :: "string + nat option"
  stat_child_count :: nat
  stat_prop_count :: nat
  stat_sibling_count :: nat

partial_function (option) count_siblings :: "'h dtb_state \<Rightarrow> nat option \<Rightarrow> nat \<Rightarrow> nat option" where
  "count_siblings st node k =
     (case node of
        None \<Rightarrow> Some k
      | Some n \<Rightarrow> do { nd \<leftarrow> node_at st n; count_siblings st (nd_sibling nd) (k + 1) })"

declare count_siblings.simps [code]

partial_function (option) count_props :: "'h dtb_state \<Rightarrow> nat option \<Rightarrow> nat \<Rightarrow> nat option" where
  "count_props st prop k =
     (case prop of
        None \<Rightarrow> Some k
      | Some p \<Rightarrow> do { pr \<leftarrow> prop_at st p; count_props st (pr_next pr) (k + 1) })"

declare count_props.simps [code]

definition dtb_stat_node :: "'h dtb_state \<Rightarrow> nat option \<Rightarrow> dtb_node_stat option option" where
  "dtb_stat_node st node =
     (case node of
        None \<Rightarrow> Some None
      | Some n \<Rightarrow> do {
          nd \<leftarrow> node_at st n;
          props \<leftarrow> count_props st (nd_props nd) 0;
          children \<leftarrow> count_siblings st (nd_child nd) 0;
          siblings \<leftarrow> (case nd_parent nd of
                        None \<Rightarrow> Some 0
                      | Some q \<Rightarrow> do { pd \<leftarrow> node_at st q; count_siblings st (nd_child pd) 0 });
          Some (Some \<lparr>stat_name = (if st_root st = Some n then Inl ROOT_NODE_STR else Inr (nd_name nd)),
            stat_child_count = children, stat_prop_count = props,
            stat_sibling_count = siblings\<rparr>) })"

definition dtb_stat_prop :: "'h dtb_state \<Rightarrow> nat option \<Rightarrow> (nat \<times> nat \<times> u32) option option" where
  "dtb_stat_prop st prop =
     (case prop of
        None \<Rightarrow> Some None
      | Some p \<Rightarrow> map_option (\<lambda>pr. Some (pr_name pr, pr_data pr, pr_length pr)) (prop_at st p))"

end
