(* ===== verification/Smoldtb_Tree.thy ===== *)
theory Smoldtb_Tree
  imports Smoldtb
begin

text \<open>
  Correctness of the device tree parser against an abstract tree. \<open>holds_node\<close> says that the
  structure block of a blob encodes a tree, \<open>rep_node\<close> that the node and property arrays represent
  it: nodes and properties are numbered in preorder, and the child and property lists are linked in
  reverse order of the blob. The lemmas show that the parser turns the first into the second.
\<close>

section \<open>Abstract trees\<close>

lemma segment_shorter:
  assumes "dropWhile (\<lambda>c. c = s) path = q" and "q \<noteq> []"
  shows "length (dropWhile (\<lambda>c. c \<noteq> s) q) < length path"
proof -
  obtain c r where q: "q = c # r" using assms(2) by (cases q) simp_all
  with assms(1) have "c \<noteq> s" by (simp add: dropWhile_eq_Cons_conv)
  then have "length (dropWhile (\<lambda>c. c \<noteq> s) q) < length q"
    by (simp add: q le_imp_less_Suc length_dropWhile_le)
  also have "length q \<le> length path" using assms(1) length_dropWhile_le by blast
  finally show ?thesis .
qed

text \<open>The body of a node: properties, children and tokens the parser skips, in blob order.\<close>

datatype dtree = DNode (tname: "u8 list") (titems: "ditem list")
  and ditem = DProp "u8 list" "u8 list" | DChild dtree | DNop

fun nnodes :: "dtree \<Rightarrow> nat" and nnodes_items :: "ditem list \<Rightarrow> nat" where
  "nnodes (DNode name items) = Suc (nnodes_items items)"
| "nnodes_items [] = 0"
| "nnodes_items (DProp nm d # is) = nnodes_items is"
| "nnodes_items (DChild t # is) = nnodes t + nnodes_items is"
| "nnodes_items (DNop # is) = nnodes_items is"

fun nprops :: "dtree \<Rightarrow> nat" and nprops_items :: "ditem list \<Rightarrow> nat" where
  "nprops (DNode name items) = nprops_items items"
| "nprops_items [] = 0"
| "nprops_items (DProp nm d # is) = Suc (nprops_items is)"
| "nprops_items (DChild t # is) = nprops t + nprops_items is"
| "nprops_items (DNop # is) = nprops_items is"

definition name_cells :: "u8 list \<Rightarrow> nat" where
  "name_cells name = (length name + 4) div 4"

fun ncells :: "dtree \<Rightarrow> nat" and ncells_items :: "ditem list \<Rightarrow> nat" where
  "ncells (DNode name items) = 1 + name_cells name + ncells_items items"
| "ncells_items [] = 1"
| "ncells_items (DProp nm d # is) = 3 + (length d + 3) div 4 + ncells_items is"
| "ncells_items (DChild t # is) = ncells t + ncells_items is"
| "ncells_items (DNop # is) = 1 + ncells_items is"

section \<open>Encoding and representation\<close>

definition cstr_at :: "blob \<Rightarrow> nat \<Rightarrow> u8 list \<Rightarrow> bool" where
  "cstr_at b i s \<longleftrightarrow> 0 \<notin> set s \<and> take (length s + 1) (drop i b) = s @ [0]"

definition bytes_at :: "blob \<Rightarrow> nat \<Rightarrow> u8 list \<Rightarrow> bool" where
  "bytes_at b i d \<longleftrightarrow> take (length d) (drop i b) = d"

definition holds_prop :: "blob \<Rightarrow> dtb_init_info \<Rightarrow> nat \<Rightarrow> u8 list \<Rightarrow> u8 list \<Rightarrow> bool" where
  "holds_prop b ii off nm d \<longleftrightarrow>
     cell b ii off = Some FDT_PROP \<and> length d < 2 ^ 32 \<and>
     cell b ii (off + 1) = Some (of_nat (length d)) \<and>
     (case cell b ii (off + 2) of None \<Rightarrow> False
      | Some no \<Rightarrow> cstr_at b (ii_strings ii + unat no) nm) \<and>
     bytes_at b (ii_cells ii + FDT_CELL_SIZE * (off + 3)) d"

definition skipped_token :: "u32 \<Rightarrow> bool" where
  "skipped_token c \<longleftrightarrow> c \<noteq> FDT_BEGIN_NODE \<and> c \<noteq> FDT_END_NODE \<and> c \<noteq> FDT_PROP"

fun holds_node :: "blob \<Rightarrow> dtb_init_info \<Rightarrow> nat \<Rightarrow> dtree \<Rightarrow> bool"
  and holds_items :: "blob \<Rightarrow> dtb_init_info \<Rightarrow> nat \<Rightarrow> ditem list \<Rightarrow> bool" where
  "holds_node b ii off (DNode name items) \<longleftrightarrow>
     cell b ii off = Some FDT_BEGIN_NODE \<and>
     cstr_at b (ii_cells ii + FDT_CELL_SIZE * (off + 1)) name \<and>
     holds_items b ii (off + 1 + name_cells name) items"
| "holds_items b ii off [] \<longleftrightarrow> cell b ii off = Some FDT_END_NODE"
| "holds_items b ii off (DProp nm d # is) \<longleftrightarrow>
     holds_prop b ii off nm d \<and> holds_items b ii (off + 3 + (length d + 3) div 4) is"
| "holds_items b ii off (DChild t # is) \<longleftrightarrow>
     holds_node b ii off t \<and> holds_items b ii (off + ncells t) is"
| "holds_items b ii off (DNop # is) \<longleftrightarrow>
     (case cell b ii off of None \<Rightarrow> False | Some c \<Rightarrow> skipped_token c) \<and>
     holds_items b ii (off + 1) is"

definition rep_prop :: "blob \<Rightarrow> dtb_prop \<Rightarrow> nat \<Rightarrow> u8 list \<Rightarrow> u8 list \<Rightarrow> bool" where
  "rep_prop b pr n nm d \<longleftrightarrow>
     pr_node pr = Some n \<and> cstr_at b (pr_name pr) nm \<and> bytes_at b (pr_data pr) d \<and>
     length d < 2 ^ 32 \<and> pr_length pr = of_nat (length d) \<and>
     fdt_prop_length b pr = Some (length d)"

definition rep_name :: "blob \<Rightarrow> dtb_node \<Rightarrow> u8 list \<Rightarrow> bool" where
  "rep_name b nd name \<longleftrightarrow>
     (case nd_name nd of None \<Rightarrow> name = [] | Some i \<Rightarrow> name \<noteq> [] \<and> cstr_at b i name)"

fun rep_node :: "blob \<Rightarrow> dtb_node list \<Rightarrow> dtb_prop list \<Rightarrow> nat \<Rightarrow> nat \<Rightarrow> dtree \<Rightarrow> bool"
  and rep_items :: "blob \<Rightarrow> dtb_node list \<Rightarrow> dtb_prop list \<Rightarrow> nat \<Rightarrow> nat \<Rightarrow> nat \<Rightarrow>
        nat option \<Rightarrow> nat option \<Rightarrow> ditem list \<Rightarrow> bool" where
  "rep_node b nb pb n p (DNode name items) \<longleftrightarrow>
     n < length nb \<and> rep_name b (nb ! n) name \<and> rep_items b nb pb n (Suc n) p None None items"
| "rep_items b nb pb n h p lc lp [] \<longleftrightarrow> nd_child (nb ! n) = lc \<and> nd_props (nb ! n) = lp"
| "rep_items b nb pb n h p lc lp (DProp nm d # is) \<longleftrightarrow>
     p < length pb \<and> rep_prop b (pb ! p) n nm d \<and> pr_next (pb ! p) = lp \<and>
     rep_items b nb pb n h (Suc p) lc (Some p) is"
| "rep_items b nb pb n h p lc lp (DChild t # is) \<longleftrightarrow>
     rep_node b nb pb h p t \<and> nd_sibling (nb ! h) = lc \<and> nd_parent (nb ! h) = Some n \<and>
     rep_items b nb pb n (h + nnodes t) (p + nprops t) (Some h) lp is"
| "rep_items b nb pb n h p lc lp (DNop # is) \<longleftrightarrow> rep_items b nb pb n h p lc lp is"

text \<open>What parsing leaves alone: everything but the arrays and the allocation heads.\<close>

definition same_rest :: "'h dtb_state \<Rightarrow> 'h dtb_state \<Rightarrow> bool" where
  "same_rest st st' \<longleftrightarrow>
     st_root st' = st_root st \<and> handle_lookup st' = handle_lookup st \<and>
     buffer st' = buffer st \<and> resv_memory st' = resv_memory st \<and>
     node_alloc_max st' = node_alloc_max st \<and> prop_alloc_max st' = prop_alloc_max st \<and>
     st_ops st' = st_ops st \<and> st_host st' = st_host st \<and>
     length (node_buff st') = length (node_buff st) \<and>
     length (prop_buff st') = length (prop_buff st)"

definition keeps_node :: "dtb_node \<Rightarrow> dtb_node \<Rightarrow> bool" where
  "keeps_node nd nd' \<longleftrightarrow> nd_name nd' = nd_name nd \<and> nd_sibling nd' = nd_sibling nd \<and>
     nd_parent nd' = nd_parent nd"

definition arrays_ok :: "'h dtb_state \<Rightarrow> bool" where
  "arrays_ok st \<longleftrightarrow> length (node_buff st) = node_alloc_max st \<and>
     length (prop_buff st) = prop_alloc_max st"

text \<open>Slots at and above the allocation heads are still zeroed.\<close>

definition fresh_above :: "'h dtb_state \<Rightarrow> bool" where
  "fresh_above st \<longleftrightarrow>
     (\<forall>i. node_alloc_head st \<le> i \<longrightarrow> i < length (node_buff st) \<longrightarrow> node_buff st ! i = zero_node)"

text \<open>
  The effect of a parsing step on the state: \<open>k\<close> nodes and \<open>m\<close> properties were taken, and no
  earlier slot but node \<open>n\<close> has changed.
\<close>

definition grown :: "nat \<Rightarrow> nat \<Rightarrow> nat \<Rightarrow> 'h dtb_state \<Rightarrow> 'h dtb_state \<Rightarrow> bool" where
  "grown n k m st st' \<longleftrightarrow> same_rest st st' \<and>
     node_alloc_head st' = node_alloc_head st + k \<and>
     prop_alloc_head st' = prop_alloc_head st + m \<and>
     (\<forall>i<node_alloc_head st. i \<noteq> n \<longrightarrow> node_buff st' ! i = node_buff st ! i) \<and>
     (\<forall>i<prop_alloc_head st. prop_buff st' ! i = prop_buff st ! i) \<and> fresh_above st'"

text \<open>Room for \<open>k\<close> nodes and \<open>m\<close> properties, with the slot the allocators never hand out.\<close>

definition room :: "nat \<Rightarrow> nat \<Rightarrow> 'h dtb_state \<Rightarrow> bool" where
  "room k m st \<longleftrightarrow> arrays_ok st \<and> fresh_above st \<and>
     node_alloc_head st + k < node_alloc_max st \<and> prop_alloc_head st + m < prop_alloc_max st"

text \<open>The state after a parsed child \<open>h\<close> has been linked in front of the children of \<open>n\<close>.\<close>

definition link_child :: "nat \<Rightarrow> nat \<Rightarrow> 'h dtb_state \<Rightarrow> 'h dtb_state" where
  "link_child n child st =
     set_node child (\<lambda>nd. nd\<lparr>nd_parent := Some n\<rparr>)
       (set_node n (\<lambda>nd. nd\<lparr>nd_child := Some child\<rparr>)
         (set_node child (\<lambda>nd. nd\<lparr>nd_sibling := nd_child (node_buff st ! n)\<rparr>) st))"

text \<open>The properties and children of a node with their positions in the arrays.\<close>

fun item_props :: "nat \<Rightarrow> ditem list \<Rightarrow> (nat \<times> u8 list \<times> u8 list) list" where
  "item_props p [] = []"
| "item_props p (DProp nm d # is) = (p, nm, d) # item_props (Suc p) is"
| "item_props p (DChild t # is) = item_props (p + nprops t) is"
| "item_props p (DNop # is) = item_props p is"

fun item_children :: "nat \<Rightarrow> nat \<Rightarrow> ditem list \<Rightarrow> (nat \<times> nat \<times> dtree) list" where
  "item_children h p [] = []"
| "item_children h p (DProp nm d # is) = item_children h (Suc p) is"
| "item_children h p (DChild t # is) = (h, p, t) # item_children (h + nnodes t) (p + nprops t) is"
| "item_children h p (DNop # is) = item_children h p is"

text \<open>Path lookup on the tree: a name up to its unit address, the last match in blob order.\<close>

definition unit_base :: "u8 list \<Rightarrow> u8 list" where
  "unit_base nm = takeWhile (\<lambda>c. c \<noteq> of_char CHR ''@'') nm"

fun tree_find :: "nat \<Rightarrow> nat \<Rightarrow> dtree \<Rightarrow> u8 list list \<Rightarrow> (nat \<times> nat \<times> dtree) option" where
  "tree_find n p t [] = Some (n, p, t)"
| "tree_find n p t (s # ss) =
     (case find (\<lambda>(_, _, c). unit_base (tname c) = s) (rev (item_children (Suc n) p (titems t))) of
        None \<Rightarrow> None
      | Some (h, q, c) \<Rightarrow> tree_find h q c ss)"

function segments :: "u8 list \<Rightarrow> u8 list list" where
  "segments path =
     (let q = dropWhile (\<lambda>c. c = of_char CHR ''/'') path
      in if q = [] then []
         else takeWhile (\<lambda>c. c \<noteq> of_char CHR ''/'') q #
              segments (dropWhile (\<lambda>c. c \<noteq> of_char CHR ''/'') q))"
  by pat_completeness auto
termination
proof (relation "measure length")
  fix path q :: "u8 list"
  assume q: "q = dropWhile (\<lambda>c. c = of_char CHR ''/'') path" "q \<noteq> []"
  show "(dropWhile (\<lambda>c. c \<noteq> of_char CHR ''/'') q, path) \<in> measure length"
    using segment_shorter [OF q(1) [symmetric] q(2)] unfolding in_measure .
qed (rule wf_measure)

text \<open>Every node below the root has a name.\<close>

fun named :: "dtree \<Rightarrow> bool" and named_items :: "ditem list \<Rightarrow> bool" where
  "named (DNode name items) \<longleftrightarrow> named_items items"
| "named_items [] \<longleftrightarrow> True"
| "named_items (DProp nm d # is) \<longleftrightarrow> named_items is"
| "named_items (DChild t # is) \<longleftrightarrow> tname t \<noteq> [] \<and> named t \<and> named_items is"
| "named_items (DNop # is) \<longleftrightarrow> named_items is"

text \<open>What parsing a node, or the rest of the body of node \<open>n\<close>, achieves.\<close>

definition node_parsed ::
    "nat \<Rightarrow> blob \<Rightarrow> dtb_init_info \<Rightarrow> nat \<Rightarrow> dtree \<Rightarrow> 'h dtb_state \<Rightarrow> bool" where
  "node_parsed fuel b ii off t st \<longleftrightarrow>
     (\<exists>st'. parse_node fuel b ii off st = Ret (Some (node_alloc_head st), off + ncells t, st') \<and>
       grown (node_alloc_head st) (nnodes t) (nprops t) st st' \<and>
       rep_node b (node_buff st') (prop_buff st') (node_alloc_head st) (prop_alloc_head st) t)"

definition items_parsed ::
    "nat \<Rightarrow> blob \<Rightarrow> dtb_init_info \<Rightarrow> nat \<Rightarrow> nat \<Rightarrow> ditem list \<Rightarrow> 'h dtb_state \<Rightarrow> bool" where
  "items_parsed fuel b ii n off is st \<longleftrightarrow>
     (\<exists>st'. parse_body fuel b ii n off st = Ret (Some n, off + ncells_items is, st') \<and>
       grown n (nnodes_items is) (nprops_items is) st st' \<and>
       keeps_node (node_buff st ! n) (node_buff st' ! n) \<and>
       rep_items b (node_buff st') (prop_buff st') n (node_alloc_head st) (prop_alloc_head st)
         (nd_child (node_buff st ! n)) (nd_props (node_buff st ! n)) is)"

section \<open>Strings in the blob\<close>

lemma cstr_at_drop:
  assumes "cstr_at b i s"
  obtains r where "drop i b = s @ 0 # r"
proof
  have "drop i b = take (length s + 1) (drop i b) @ drop (length s + 1) (drop i b)"
    by (simp only: append_take_drop_id)
  also have "\<dots> = s @ 0 # drop (length s + 1) (drop i b)"
    using assms by (simp add: cstr_at_def)
  finally show "drop i b = s @ 0 # drop (length s + 1) (drop i b)" .
qed

lemma cstr_at_facts:
  assumes "cstr_at b i s"
  shows "0 \<in> set (drop i b)" "cval (drop i b) = s" "string_len (drop i b) = Some (length s)"
proof -
  obtain r where r: "drop i b = s @ 0 # r" using assms by (rule cstr_at_drop)
  show z: "0 \<in> set (drop i b)" by (simp add: r)
  show c: "cval (drop i b) = s" using assms by (simp add: r cval_append_zero cstr_at_def)
  show "string_len (drop i b) = Some (length s)" by (simp add: string_len_eq z c)
qed

lemma cstr_at_nonempty: "cstr_at b i s \<Longrightarrow> \<exists>c r. drop i b = c # r"
  by (erule cstr_at_drop) (cases s; simp)

section \<open>Frame\<close>

lemma rep_frame:
  "rep_node b nb pb n p t \<Longrightarrow>
     (\<And>i. n \<le> i \<Longrightarrow> i < n + nnodes t \<Longrightarrow> nd_name (nb' ! i) = nd_name (nb ! i) \<and>
        nd_child (nb' ! i) = nd_child (nb ! i) \<and> nd_props (nb' ! i) = nd_props (nb ! i)) \<Longrightarrow>
     (\<And>i. n < i \<Longrightarrow> i < n + nnodes t \<Longrightarrow> nb' ! i = nb ! i) \<Longrightarrow>
     (\<And>i. p \<le> i \<Longrightarrow> i < p + nprops t \<Longrightarrow> pb' ! i = pb ! i) \<Longrightarrow>
     length nb' = length nb \<Longrightarrow> length pb' = length pb \<Longrightarrow> rep_node b nb' pb' n p t"
  "rep_items b nb pb n h p lc lp is \<Longrightarrow>
     nd_child (nb' ! n) = nd_child (nb ! n) \<Longrightarrow> nd_props (nb' ! n) = nd_props (nb ! n) \<Longrightarrow>
     (\<And>i. h \<le> i \<Longrightarrow> i < h + nnodes_items is \<Longrightarrow> nb' ! i = nb ! i) \<Longrightarrow>
     (\<And>i. p \<le> i \<Longrightarrow> i < p + nprops_items is \<Longrightarrow> pb' ! i = pb ! i) \<Longrightarrow>
     length nb' = length nb \<Longrightarrow> length pb' = length pb \<Longrightarrow> rep_items b nb' pb' n h p lc lp is"
proof (induction b nb pb n p t and b nb pb n h p lc lp "is" rule: rep_node_rep_items.induct)
  case (1 b nb pb n p name items)
  then show ?case by (simp add: rep_name_def)
next
  case (4 b nb pb n h p lc lp t "is")
  moreover have "nnodes t > 0" by (cases t) simp
  ultimately show ?case by simp
qed simp_all

lemma grown_refl: "fresh_above st \<Longrightarrow> grown n 0 0 st st"
  by (simp add: grown_def same_rest_def)

lemma grown_trans:
  assumes "grown n k m st st1" and "grown n k' m' st1 st2"
  shows "grown n (k + k') (m + m') st st2"
  using assms by (auto simp: grown_def same_rest_def)

lemma room_grown:
  assumes "room k m st" and "grown n k1 m1 st st'" and "k1 + k' \<le> k" and "m1 + m' \<le> m"
  shows "room k' m' st'"
  using assms by (auto simp: room_def grown_def arrays_ok_def same_rest_def)

lemma keeps_node_trans: "keeps_node a b \<Longrightarrow> keeps_node b c \<Longrightarrow> keeps_node a c"
  by (simp add: keeps_node_def)

section \<open>Parsing a property\<close>

text \<open>The first-character test of \<open>check_for_special_prop\<close> holds for every character.\<close>

lemma special_prop_noop:
  assumes "pr_name pr < length b"
  shows "check_for_special_prop b n pr st = Some st"
proof -
  have "drop (pr_name pr) b = b ! pr_name pr # drop (Suc (pr_name pr)) b"
    using assms by (rule Cons_nth_drop_Suc [symmetric])
  then show ?thesis by (auto simp: check_for_special_prop_def)
qed

lemma cstr_at_bound: "cstr_at b i s \<Longrightarrow> i < length b"
  using cstr_at_nonempty [of b i s] by (metis drop_eq_Nil list.distinct(1) not_le)

lemma fdt_prop_length_cell:
  assumes "cell b ii (off + 1) = Some (of_nat (length d))" and "length d < 2 ^ 32"
    and "pr_data pr = ii_cells ii + FDT_CELL_SIZE * (off + 3)"
  shows "fdt_prop_length b pr = Some (length d)"
proof -
  have "pr_data pr - 8 = ii_cells ii + FDT_CELL_SIZE * (off + 1)"
    and "\<not> pr_data pr < 8"
    using assms(3) by (simp_all add: FDT_CELL_SIZE_def)
  moreover have "unat (of_nat (length d) :: u32) = length d"
    using assms(2) by (simp add: unat_of_nat)
  ultimately show ?thesis
    using assms(1) by (auto simp: fdt_prop_length_def cell_def)
qed

lemma parse_prop_holds:
  assumes "holds_prop b ii off nm d" and "room k (Suc m) st"
  obtains pr where
    "parse_prop b ii off st = Some (Some (prop_alloc_head st), off + 3 + (length d + 3) div 4,
       st\<lparr>prop_alloc_head := Suc (prop_alloc_head st),
          prop_buff := (prop_buff st)[prop_alloc_head st := pr]\<rparr>)"
    "\<And>l. rep_prop b (pr\<lparr>pr_next := l, pr_node := Some n\<rparr>) n nm d"
proof -
  from assms(1) obtain no where c: "cell b ii off = Some FDT_PROP" "length d < 2 ^ 32"
      "cell b ii (off + 1) = Some (of_nat (length d))" "cell b ii (off + 2) = Some no"
      "cstr_at b (ii_strings ii + unat no) nm"
      "bytes_at b (ii_cells ii + FDT_CELL_SIZE * (off + 3)) d"
    by (auto simp: holds_prop_def split: option.splits)
  have alloc: "alloc_prop st =
      (Some (prop_alloc_head st), st\<lparr>prop_alloc_head := Suc (prop_alloc_head st)\<rparr>)"
    using assms(2) by (simp add: alloc_prop_def room_def)
  note c' = c(1) c(3,4) [simplified]
  have len: "unat (of_nat (length d) :: u32) = length d"
    using c(2) by (simp add: unat_of_nat)
  define pr where "pr = (prop_buff st ! prop_alloc_head st)\<lparr>pr_name := ii_strings ii + unat no,
    pr_data := ii_cells ii + FDT_CELL_SIZE * (off + 3), pr_length := of_nat (length d),
    pr_fromMalloc := False, pr_dataFromMalloc := False\<rparr>"
  show thesis
  proof (rule that)
    show "parse_prop b ii off st = Some (Some (prop_alloc_head st), off + 3 + (length d + 3) div 4,
       st\<lparr>prop_alloc_head := Suc (prop_alloc_head st),
          prop_buff := (prop_buff st)[prop_alloc_head st := pr]\<rparr>)"
      unfolding parse_prop_def pr_def set_prop_def
      by (simp add: c' alloc len dtb_align_up_4 add_ac FDT_CELL_SIZE_def)
    show "rep_prop b (pr\<lparr>pr_next := l, pr_node := Some n\<rparr>) n nm d" for l
      using c by (simp add: rep_prop_def pr_def fdt_prop_length_cell [OF c(3,2)])
  qed
qed

section \<open>Parsing a node\<close>

lemma body_end:
  assumes "cell b ii off = Some FDT_END_NODE" and "off < ii_cell_count ii"
  shows "parse_body (Suc fuel) b ii n off st = Ret (Some n, Suc off, st)"
  using assms by simp

lemma body_skip:
  assumes "cell b ii off = Some c" and "skipped_token c" and "off < ii_cell_count ii"
  shows "parse_body (Suc fuel) b ii n off st = parse_body fuel b ii n (off + 1) st"
  using assms by (simp add: skipped_token_def)

text \<open>The state after a property has been linked into node \<open>n\<close>.\<close>

lemma body_prop:
  assumes "holds_prop b ii off nm d" and "off < ii_cell_count ii" and "room k (Suc m) st"
    and "n < node_alloc_head st"
  obtains st1 where
    "parse_body (Suc fuel) b ii n off st =
       parse_body fuel b ii n (off + 3 + (length d + 3) div 4) st1"
    "grown n 0 1 st st1" "keeps_node (node_buff st ! n) (node_buff st1 ! n)"
    "nd_child (node_buff st1 ! n) = nd_child (node_buff st ! n)"
    "nd_props (node_buff st1 ! n) = Some (prop_alloc_head st)"
    "rep_prop b (prop_buff st1 ! prop_alloc_head st) n nm d"
    "pr_next (prop_buff st1 ! prop_alloc_head st) = nd_props (node_buff st ! n)"
proof -
  let ?p = "prop_alloc_head st"
  obtain pr where pp: "parse_prop b ii off st = Some (Some ?p, off + 3 + (length d + 3) div 4,
       st\<lparr>prop_alloc_head := Suc ?p, prop_buff := (prop_buff st)[?p := pr]\<rparr>)"
    and rp: "\<And>l. rep_prop b (pr\<lparr>pr_next := l, pr_node := Some n\<rparr>) n nm d"
    using parse_prop_holds [OF assms(1,3), where n = n] by metis
  let ?pr = "pr\<lparr>pr_next := nd_props (node_buff st ! n), pr_node := Some n\<rparr>"
  define st1 where "st1 = st\<lparr>prop_alloc_head := Suc ?p, prop_buff := (prop_buff st)[?p := ?pr],
    node_buff := (node_buff st)[n := (node_buff st ! n)\<lparr>nd_props := Some ?p\<rparr>]\<rparr>"
  have len: "?p < length (prop_buff st)" "n < length (node_buff st)"
    using assms(3,4) by (simp_all add: room_def arrays_ok_def)
  have "pr_name ?pr < length b"
    using rp [of "nd_props (node_buff st ! n)"] by (auto simp: rep_prop_def dest: cstr_at_bound)
  then have "check_for_special_prop b n ?pr st1 = Some st1" by (rule special_prop_noop)
  moreover have "set_node n (\<lambda>nd. nd\<lparr>nd_props := Some ?p\<rparr>)
      (set_prop ?p (\<lambda>pr. pr\<lparr>pr_next := nd_props (node_buff st ! n), pr_node := Some n\<rparr>)
        (st\<lparr>prop_alloc_head := Suc ?p, prop_buff := (prop_buff st)[?p := pr]\<rparr>)) = st1"
    using len by (simp add: set_node_def set_prop_def st1_def)
  moreover have "cell b ii off = Some FDT_PROP" using assms(1) by (simp add: holds_prop_def)
  moreover have "prop_buff st1 ! ?p = ?pr" using len by (simp add: st1_def)
  ultimately have "parse_body (Suc fuel) b ii n off st =
      parse_body fuel b ii n (off + 3 + (length d + 3) div 4) st1"
    using assms(2) pp
    by (simp add: Let_def FDT_PROP_def FDT_END_NODE_def FDT_BEGIN_NODE_def)
  moreover have "grown n 0 1 st st1"
    using assms(3,4) len by (auto simp: grown_def same_rest_def st1_def room_def fresh_above_def)
  ultimately show thesis
    using that [of st1] len rp by (simp add: st1_def keeps_node_def)
qed

lemma link_child_buff:
  assumes "n \<noteq> h" and "n < length (node_buff st)" and "h < length (node_buff st)"
  shows "link_child n h st = st\<lparr>node_buff := (node_buff st)
    [n := (node_buff st ! n)\<lparr>nd_child := Some h\<rparr>,
     h := (node_buff st ! h)\<lparr>nd_sibling := nd_child (node_buff st ! n), nd_parent := Some n\<rparr>]\<rparr>"
  using assms by (simp add: link_child_def set_node_def list_update_swap)

lemma body_child:
  assumes "parse_node fuel b ii off st = Ret (Some h, off', st1)"
    and "cell b ii off = Some FDT_BEGIN_NODE" and "off < ii_cell_count ii"
  shows "parse_body (Suc fuel) b ii n off st = parse_body fuel b ii n off' (link_child n h st1)"
  using assms by (simp add: link_child_def FDT_END_NODE_def FDT_BEGIN_NODE_def)

lemma link_child_effect:
  assumes "grown h k m st st1" and "h = node_alloc_head st" and "n < h" and "k > 0"
    and "room k m st" and "rep_node b (node_buff st1) (prop_buff st1) h p t" and "nnodes t = k"
  defines "st2 \<equiv> link_child n h st1"
  shows "grown n k m st st2" and "keeps_node (node_buff st ! n) (node_buff st2 ! n)"
    and "nd_child (node_buff st2 ! n) = Some h"
    and "nd_props (node_buff st2 ! n) = nd_props (node_buff st ! n)"
    and "rep_node b (node_buff st2) (prop_buff st2) h p t"
    and "nd_sibling (node_buff st2 ! h) = nd_child (node_buff st ! n)"
    and "nd_parent (node_buff st2 ! h) = Some n"
proof -
  have len: "n < length (node_buff st1)" "h < length (node_buff st1)" "n \<noteq> h"
    using assms(1-5) by (simp_all add: grown_def same_rest_def room_def arrays_ok_def)
  have n: "node_buff st1 ! n = node_buff st ! n" using assms(1-3) by (simp add: grown_def)
  note st2 = st2_def [unfolded link_child_buff [OF len(3,1,2)]]
  show "grown n k m st st2"
    using assms(1-4) len by (auto simp: st2 grown_def same_rest_def fresh_above_def nth_list_update)
  show "keeps_node (node_buff st ! n) (node_buff st2 ! n)"
    and "nd_child (node_buff st2 ! n) = Some h"
    and "nd_props (node_buff st2 ! n) = nd_props (node_buff st ! n)"
    and "nd_sibling (node_buff st2 ! h) = nd_child (node_buff st ! n)"
    and "nd_parent (node_buff st2 ! h) = Some n"
    using len n by (simp_all add: st2 keeps_node_def nth_list_update)
  show "rep_node b (node_buff st2) (prop_buff st2) h p t"
    using assms(3) len by (intro rep_frame(1) [OF assms(6)]) (auto simp: st2 nth_list_update)
qed

text \<open>The state in which the body of a new node is parsed.\<close>

lemma node_start:
  assumes "cell b ii off = Some FDT_BEGIN_NODE" and "room (Suc k) m st"
    and "cstr_at b (ii_cells ii + FDT_CELL_SIZE * (off + 1)) name"
  obtains st1 where
    "parse_node (Suc fuel) b ii off st =
       parse_body fuel b ii (node_alloc_head st) (off + 1 + name_cells name) st1"
    "grown (node_alloc_head st) 1 0 st st1" "rep_name b (node_buff st1 ! node_alloc_head st) name"
    "nd_child (node_buff st1 ! node_alloc_head st) = None"
    "nd_props (node_buff st1 ! node_alloc_head st) = None"
proof -
  let ?n = "node_alloc_head st" and ?nm = "ii_cells ii + FDT_CELL_SIZE * (off + 1)"
  define st1 where "st1 = set_node ?n (\<lambda>nd. nd\<lparr>nd_name := (if length name = 0 then None else Some ?nm),
    nd_fromMalloc := False\<rparr>) (st\<lparr>node_alloc_head := Suc ?n\<rparr>)"
  have len: "?n < length (node_buff st)" and z: "node_buff st ! ?n = zero_node"
    using assms(2) by (simp_all add: room_def arrays_ok_def fresh_above_def)
  have "alloc_node st = (Some ?n, st\<lparr>node_alloc_head := Suc ?n\<rparr>)"
    using assms(2) by (simp add: alloc_node_def room_def)
  moreover have "off + (dtb_align_up (length name + 1) FDT_CELL_SIZE div FDT_CELL_SIZE + 1) =
      off + 1 + name_cells name"
    by (simp add: FDT_CELL_SIZE_def dtb_align_up_4 name_cells_def)
  ultimately have "parse_node (Suc fuel) b ii off st =
      parse_body fuel b ii ?n (off + 1 + name_cells name) st1"
    using assms(1) cstr_at_facts(3) [OF assms(3)] by (simp add: st1_def Let_def)
  moreover have "grown ?n 1 0 st st1"
    using assms(2) len
    by (auto simp: st1_def set_node_def grown_def same_rest_def room_def fresh_above_def)
  ultimately show thesis
    using that [of st1] len z assms(3)
    by (simp add: st1_def set_node_def rep_name_def zero_node_def)
qed

lemma nnodes_pos: "0 < nnodes t"
  by (cases t) simp

lemma holds_node_begin: "holds_node b ii off t \<Longrightarrow> cell b ii off = Some FDT_BEGIN_NODE"
  by (cases t) simp

lemma ncells_items_pos: "0 < ncells_items is"
proof (induction "is")
  case (Cons x xs)
  then show ?case by (cases x) simp_all
qed simp

lemma node_step:
  fixes st :: "'h dtb_state"
  assumes "cell b ii off = Some FDT_BEGIN_NODE"
    and "cstr_at b (ii_cells ii + FDT_CELL_SIZE * (off + 1)) name"
    and "room (Suc k) m st" and "k = nnodes_items items" and "m = nprops_items items"
    and IH: "\<And>st1 :: 'h dtb_state. room k m st1 \<Longrightarrow> node_alloc_head st < node_alloc_head st1 \<Longrightarrow>
      items_parsed fuel b ii (node_alloc_head st) (off + 1 + name_cells name) items st1"
  shows "node_parsed (Suc fuel) b ii off (DNode name items) st"
proof -
  let ?n = "node_alloc_head st"
  obtain st1 where s: "parse_node (Suc fuel) b ii off st =
       parse_body fuel b ii ?n (off + 1 + name_cells name) st1" "grown ?n 1 0 st st1"
      "rep_name b (node_buff st1 ! ?n) name" "nd_child (node_buff st1 ! ?n) = None"
      "nd_props (node_buff st1 ! ?n) = None"
    by (rule node_start [OF assms(1,3,2), of fuel])
  have h: "node_alloc_head st1 = Suc ?n" "prop_alloc_head st1 = prop_alloc_head st"
    using s(2) by (simp_all add: grown_def)
  have "room k m st1" using assms(3) s(2) by (rule room_grown) simp_all
  from IH [OF this] h s(4,5) obtain st2 where
      r: "parse_body fuel b ii ?n (off + 1 + name_cells name) st1 =
       Ret (Some ?n, off + 1 + name_cells name + ncells_items items, st2)"
      "grown ?n k m st1 st2" "keeps_node (node_buff st1 ! ?n) (node_buff st2 ! ?n)"
      "rep_items b (node_buff st2) (prop_buff st2) ?n (Suc ?n) (prop_alloc_head st) None None items"
    unfolding items_parsed_def assms(4,5) by auto
  have "grown ?n (Suc k) m st st2" using grown_trans [OF s(2) r(2)] by simp
  moreover from this have "?n < length (node_buff st2)"
    using assms(3) by (simp add: grown_def same_rest_def room_def arrays_ok_def)
  ultimately show ?thesis
    using s(1,3) r assms(4,5)
    by (auto simp: node_parsed_def rep_name_def keeps_node_def add_ac)
qed

lemma prop_step:
  fixes st :: "'h dtb_state"
  assumes "holds_prop b ii off nm d" and "off < ii_cell_count ii"
    and "room k (Suc m) st" and "n < node_alloc_head st"
    and "k = nnodes_items is" and "m = nprops_items is"
    and IH: "\<And>st1 :: 'h dtb_state. room k m st1 \<Longrightarrow> n < node_alloc_head st1 \<Longrightarrow>
      items_parsed fuel b ii n (off + 3 + (length d + 3) div 4) is st1"
  shows "items_parsed (Suc fuel) b ii n off (DProp nm d # is) st"
proof -
  let ?p = "prop_alloc_head st"
  obtain st1 where s: "parse_body (Suc fuel) b ii n off st =
       parse_body fuel b ii n (off + 3 + (length d + 3) div 4) st1"
    "grown n 0 1 st st1" "keeps_node (node_buff st ! n) (node_buff st1 ! n)"
    "nd_child (node_buff st1 ! n) = nd_child (node_buff st ! n)"
    "nd_props (node_buff st1 ! n) = Some ?p" "rep_prop b (prop_buff st1 ! ?p) n nm d"
    "pr_next (prop_buff st1 ! ?p) = nd_props (node_buff st ! n)"
    by (rule body_prop [OF assms(1-4), of fuel])
  have h: "node_alloc_head st1 = node_alloc_head st" "prop_alloc_head st1 = Suc ?p"
    using s(2) by (simp_all add: grown_def)
  have "room k m st1" using assms(3) s(2) by (rule room_grown) simp_all
  from IH [OF this] h assms(4) obtain st2 where
      r: "parse_body fuel b ii n (off + 3 + (length d + 3) div 4) st1 =
       Ret (Some n, off + 3 + (length d + 3) div 4 + ncells_items is, st2)"
      "grown n k m st1 st2" "keeps_node (node_buff st1 ! n) (node_buff st2 ! n)"
      "rep_items b (node_buff st2) (prop_buff st2) n (node_alloc_head st) (Suc ?p)
         (nd_child (node_buff st ! n)) (Some ?p) is"
    unfolding items_parsed_def assms(5,6) s(4,5) h by auto
  have "grown n k (Suc m) st st2" using grown_trans [OF s(2) r(2)] by simp
  moreover have "prop_buff st2 ! ?p = prop_buff st1 ! ?p" using r(2) h(2) by (simp add: grown_def)
  moreover from calculation(1) have "?p < length (prop_buff st2)"
    using assms(3) by (simp add: grown_def same_rest_def room_def arrays_ok_def)
  ultimately show ?thesis
    using s r assms(5,6) keeps_node_trans [OF s(3) r(3)]
    by (auto simp: items_parsed_def add_ac)
qed

lemma child_step:
  fixes st :: "'h dtb_state"
  assumes "node_parsed fuel b ii off t st" and "cell b ii off = Some FDT_BEGIN_NODE"
    and "off < ii_cell_count ii" and "n < node_alloc_head st"
    and "room (nnodes t + k) (nprops t + m) st" and "k = nnodes_items is" and "m = nprops_items is"
    and IH: "\<And>st1 :: 'h dtb_state. room k m st1 \<Longrightarrow> n < node_alloc_head st1 \<Longrightarrow>
      items_parsed fuel b ii n (off + ncells t) is st1"
  shows "items_parsed (Suc fuel) b ii n off (DChild t # is) st"
proof -
  let ?h = "node_alloc_head st" and ?p = "prop_alloc_head st"
  obtain st1 where s: "parse_node fuel b ii off st = Ret (Some ?h, off + ncells t, st1)"
      "grown ?h (nnodes t) (nprops t) st st1"
      "rep_node b (node_buff st1) (prop_buff st1) ?h ?p t"
    using assms(1) by (auto simp: node_parsed_def)
  have rm: "room (nnodes t) (nprops t) st" using assms(5) by (simp add: room_def)
  define st2 where "st2 = link_child n ?h st1"
  note l = link_child_effect [OF s(2) refl assms(4) nnodes_pos rm s(3) refl, folded st2_def]
  have h: "node_alloc_head st2 = ?h + nnodes t" "prop_alloc_head st2 = ?p + nprops t"
    using l(1) by (simp_all add: grown_def)
  have "room k m st2" using assms(5) l(1) by (rule room_grown) simp_all
  from IH [OF this] h assms(4) obtain st3 where
      r: "parse_body fuel b ii n (off + ncells t) st2 =
       Ret (Some n, off + ncells t + ncells_items is, st3)"
      "grown n k m st2 st3" "keeps_node (node_buff st2 ! n) (node_buff st3 ! n)"
      "rep_items b (node_buff st3) (prop_buff st3) n (?h + nnodes t) (?p + nprops t)
         (Some ?h) (nd_props (node_buff st ! n)) is"
    unfolding items_parsed_def assms(6,7) l(3,4) h by auto
  have f: "node_buff st3 ! i = node_buff st2 ! i" if "?h \<le> i" "i < ?h + nnodes t" for i
    using that r(2) h assms(4) by (simp add: grown_def)
  have "rep_node b (node_buff st3) (prop_buff st3) ?h ?p t"
    using r(2) h f by (intro rep_frame(1) [OF l(5)]) (auto simp: grown_def same_rest_def)
  moreover have "node_buff st3 ! ?h = node_buff st2 ! ?h" using f [of ?h] nnodes_pos [of t] by simp
  ultimately show ?thesis
    using grown_trans [OF l(1) r(2)] l(6,7) r body_child [OF s(1) assms(2,3), of n, folded st2_def]
      assms(6,7) keeps_node_trans [OF l(2) r(3)]
    by (auto simp: items_parsed_def add_ac)
qed

text \<open>
  Enough fuel is one unit per cell: every turn of the loop consumes a cell, and a child is parsed
  with the fuel that is left.
\<close>

lemma parse_holds:
  fixes st :: "'h dtb_state"
  shows "holds_node b ii off t \<Longrightarrow> room (nnodes t) (nprops t) st \<Longrightarrow>
     off + ncells t \<le> ii_cell_count ii \<Longrightarrow> ncells t \<le> fuel \<Longrightarrow> node_parsed fuel b ii off t st"
  and "holds_items b ii off is \<Longrightarrow> room (nnodes_items is) (nprops_items is) st \<Longrightarrow>
     off + ncells_items is \<le> ii_cell_count ii \<Longrightarrow> ncells_items is \<le> fuel \<Longrightarrow>
     n < node_alloc_head st \<Longrightarrow> items_parsed fuel b ii n off is st"
proof (induction b ii off t and b ii off "is" arbitrary: fuel st and fuel st n
    rule: holds_node_holds_items.induct)
  case (1 b ii off name items)
  then obtain f where "fuel = Suc f" by (cases fuel) simp_all
  with 1 show ?case by (auto intro!: node_step)
next
  case (2 b ii off)
  then obtain f where "fuel = Suc f" by (cases fuel) simp_all
  with 2 show ?case by (simp add: items_parsed_def grown_refl room_def keeps_node_def)
next
  case (3 b ii off nm d "is")
  then obtain f where "fuel = Suc f" by (cases fuel) simp_all
  with 3 show ?case by (auto intro!: prop_step)
next
  case (4 b ii off t "is")
  have pos: "0 < ncells t" by (cases t) simp
  with 4 obtain f where f: "fuel = Suc f" by (cases fuel) simp_all
  have "node_parsed f b ii off t st"
    using 4(1) [of st f] 4(3-6) f ncells_items_pos [of "is"] by (simp add: room_def)
  moreover have "items_parsed f b ii n (off + ncells t) is st1"
    if "room (nnodes_items is) (nprops_items is) st1" "n < node_alloc_head st1"
    for st1 :: "'h dtb_state"
    using 4(2) [of st1 f n] 4(3-6) f pos that by simp
  ultimately show ?case
    unfolding f using 4(3-7) pos by (intro child_step) (auto simp: holds_node_begin)
next
  case (5 b ii off "is")
  then obtain f c where f: "fuel = Suc f" and c: "cell b ii off = Some c" "skipped_token c"
    by (cases fuel) (auto split: option.splits)
  have "items_parsed f b ii n (off + 1) is st" using 5 f by simp
  then show ?case
    using 5(4) body_skip [OF c, of f n st] unfolding f items_parsed_def by simp
qed

end
