(* ===== verification/Smoldtb_Query.thy ===== *)
theory Smoldtb_Query
  imports Smoldtb_Tree
begin

text \<open>
  The queries of the device tree parser on a parsed tree: lookup of a property by name, of a node
  by path, and the decoded values of a property, against the abstract tree.
\<close>

section \<open>Definitions\<close>

text \<open>The big-endian value of a byte string.\<close>

definition be_val :: "u8 list \<Rightarrow> u64" where
  "be_val bs = foldl (\<lambda>acc c. push_bit 8 acc OR ucast c) 0 bs"

definition chunks :: "nat \<Rightarrow> u8 list \<Rightarrow> u8 list list" where
  "chunks k d = map (\<lambda>i. take k (drop (i * k) d)) [0..<length d div k]"

section \<open>Properties of a node\<close>

lemma find_snoc: "find P (xs @ [x]) = (case find P xs of Some y \<Rightarrow> Some y | None \<Rightarrow> find P [x])"
  by (induction xs) auto

lemma find_prop_unfold:
  assumes "p < length (prop_buff st)" and "rep_prop b (prop_buff st ! p) n nm d"
    and "0 \<in> set name"
  shows "find_prop_loop b st name (length (cval name)) (Some p) =
    (if nm = cval name then Some (Some p)
     else find_prop_loop b st name (length (cval name)) (pr_next (prop_buff st ! p)))"
proof -
  note c = cstr_at_facts [of b "pr_name (prop_buff st ! p)" nm]
  have "strings_eq (drop (pr_name (prop_buff st ! p)) b) name (length nm) =
      Some (take (length nm) nm = take (length nm) (cval name))"
    using assms(2,3) c by (subst strings_eq_prefix) (simp_all add: rep_prop_def)
  then show ?thesis
    using assms c by (subst find_prop_loop.simps) (auto simp: prop_at_def rep_prop_def)
qed

lemma find_prop_chain:
  assumes "rep_items b (node_buff st) (prop_buff st) n h p lc lp is" and "0 \<in> set name"
  shows "find_prop_loop b st name (length (cval name)) (nd_props (node_buff st ! n)) =
    (case find (\<lambda>(_, nm, _). nm = cval name) (rev (item_props p is)) of
       Some (i, _) \<Rightarrow> Some (Some i)
     | None \<Rightarrow> find_prop_loop b st name (length (cval name)) lp)"
  using assms(1)
proof (induction p "is" arbitrary: h lc lp rule: item_props.induct)
  case (2 p nm d "is")
  then show ?case
    using find_prop_unfold [of p st b n nm d name] assms(2)
    by (auto simp: find_snoc split: option.split)
qed auto

lemma dtb_find_prop_rep:
  assumes "rep_node b (node_buff st) (prop_buff st) n p t" and "0 \<in> set name"
  shows "dtb_find_prop b st (Some n) name =
    Some (map_option fst (find (\<lambda>(_, nm, _). nm = cval name) (rev (item_props p (titems t)))))"
proof -
  obtain nm "is" where t: "t = DNode nm is" by (cases t)
  have r: "rep_items b (node_buff st) (prop_buff st) n (Suc n) p None None is"
    and n: "n < length (node_buff st)"
    using assms(1) by (simp_all add: t)
  show ?thesis
    using find_prop_chain [OF r assms(2)] n assms(2)
    by (auto simp: dtb_find_prop_def node_at_def string_len_eq t find_prop_loop.simps [of _ _ _ _ None]
        split: option.split)
qed

section \<open>Children and paths\<close>

text \<open>The length of a name or path segment: up to the separator, or to the end of the string.\<close>

lemma segment_length:
  assumes "0 \<in> set s" and "t \<noteq> 0"
  obtains at where "string_find_char s t = Some at"
    "(case at of Some k \<Rightarrow> Some k | None \<Rightarrow> string_len s) =
       Some (length (takeWhile (\<lambda>c. c \<noteq> t) (cval s)))"
proof (cases "t \<in> set (cval s)")
  case True
  then show thesis
    using that [of "Some (length (takeWhile (\<lambda>c. c \<noteq> t) (cval s)))"] string_find_char_eq [OF assms]
    by simp
next
  case False
  then have "length (takeWhile (\<lambda>c. c \<noteq> t) (cval s)) = length (cval s)"
    by (subst takeWhile_eq_all_conv [THEN iffD2]) auto
  then show thesis
    using that [of None] string_find_char_eq [OF assms] False assms(1) by (simp add: string_len_eq)
qed

lemma separators_nonzero: "of_char CHR ''@'' \<noteq> (0 :: u8)" "of_char CHR ''/'' \<noteq> (0 :: u8)"
  by simp_all

lemma find_in_set: "find P xs = Some x \<Longrightarrow> x \<in> set xs \<and> P x"
  by (induction xs) (auto split: if_splits)

lemma prefix_match:
  assumes "k \<le> length s"
  shows "length (unit_base nm) = k \<and> take k nm = take k s \<longleftrightarrow> unit_base nm = take k s"
proof -
  have "take (length (unit_base nm)) nm = unit_base nm"
    unfolding unit_base_def by (metis takeWhile_eq_take)
  then show ?thesis using assms by (metis length_take min_absorb2)
qed

lemma find_child_unfold:
  assumes "rep_node b (node_buff st) (prop_buff st) h p t" and "tname t \<noteq> []"
    and "0 \<in> set name" and "k \<le> length (cval name)"
  shows "find_child_loop b st name k (Some h) =
    (if unit_base (tname t) = take k (cval name) then Some (Some h)
     else find_child_loop b st name k (nd_sibling (node_buff st ! h)))"
proof -
  obtain i where h: "h < length (node_buff st)" and i: "nd_name (node_buff st ! h) = Some i"
      "cstr_at b i (tname t)"
    using assms(1,2) by (cases t) (auto simp: rep_name_def split: option.splits)
  have s: "strings_eq (drop i b) name k = Some (take k (tname t) = take k (cval name))"
    using strings_eq_prefix [OF cstr_at_facts(1) [OF i(2)] assms(3)] cstr_at_facts(2) [OF i(2)]
    by simp
  obtain at where "string_find_char (drop i b) (of_char CHR ''@'') = Some at"
      "(case at of Some k \<Rightarrow> Some k | None \<Rightarrow> string_len (drop i b)) =
        Some (length (unit_base (tname t)))"
    using segment_length [OF cstr_at_facts(1) [OF i(2)] separators_nonzero(1)]
    unfolding cstr_at_facts(2) [OF i(2)] unit_base_def by metis
  then show ?thesis
    using h i s prefix_match [OF assms(4), of "tname t"]
    by (subst find_child_loop.simps) (auto simp: node_at_def)
qed

lemma find_child_chain:
  assumes "rep_items b (node_buff st) (prop_buff st) n h p lc lp is" and "named_items is"
    and "0 \<in> set name" and "k \<le> length (cval name)"
  shows "find_child_loop b st name k (nd_child (node_buff st ! n)) =
    (case find (\<lambda>(_, _, c). unit_base (tname c) = take k (cval name)) (rev (item_children h p is)) of
       Some (i, _) \<Rightarrow> Some (Some i)
     | None \<Rightarrow> find_child_loop b st name k lc)"
  using assms(1,2)
proof (induction h p "is" arbitrary: lc lp rule: item_children.induct)
  case (3 h p t "is")
  then show ?case
    using find_child_unfold [of b st h p t name k] assms(3,4)
    by (auto simp: find_snoc split: option.split)
qed auto

lemma find_child_rep:
  assumes "rep_node b (node_buff st) (prop_buff st) n p t" and "named t"
    and "0 \<in> set name" and "k \<le> length (cval name)"
  shows "find_child_internal b st n name k = Some (map_option fst
    (find (\<lambda>(_, _, c). unit_base (tname c) = take k (cval name))
      (rev (item_children (Suc n) p (titems t)))))"
proof -
  obtain nm "is" where t: "t = DNode nm is" by (cases t)
  have r: "rep_items b (node_buff st) (prop_buff st) n (Suc n) p None None is"
    and n: "n < length (node_buff st)" and nis: "named_items is"
    using assms(1,2) by (simp_all add: t)
  show ?thesis
    using find_child_chain [OF r nis assms(3,4)] n
    by (auto simp: find_child_internal_def node_at_def t find_child_loop.simps [of _ _ _ _ None]
        split: option.split)
qed

lemma item_children_rep:
  assumes "rep_items b nb pb n h p lc lp is" and "named_items is"
    and "(i, q, c) \<in> set (item_children h p is)"
  shows "rep_node b nb pb i q c \<and> named c"
  using assms by (induction h p "is" arbitrary: lc lp rule: item_children.induct) auto

lemma tree_find_rep:
  assumes "rep_node b nb pb n p t" and "named t" and "tree_find n p t ss = Some (i, q, c)"
  shows "rep_node b nb pb i q c \<and> named c"
  using assms
proof (induction n p t ss rule: tree_find.induct)
  case (2 n p t s ss)
  then obtain h r c' where f: "find (\<lambda>(_, _, c). unit_base (tname c) = s)
      (rev (item_children (Suc n) p (titems t))) = Some (h, r, c')"
    and g: "tree_find h r c' ss = Some (i, q, c)"
    by (auto split: option.splits)
  from f have "(h, r, c') \<in> set (item_children (Suc n) p (titems t))"
    using find_in_set by fastforce
  with 2(2,3) have "rep_node b nb pb h r c' \<and> named c'"
    by (cases t) (auto dest!: item_children_rep)
  then show ?case using 2(1) [OF f refl refl] g by simp
qed simp

lemma skip_slashes_cval:
  assumes "0 \<in> set path"
  shows "0 \<in> set (skip_slashes path)"
    and "cval (skip_slashes path) = dropWhile (\<lambda>c. c = of_char CHR ''/'') (cval path)"
  using assms by (induction path) (auto simp: skip_slashes_def cval_def)

lemma drop_segment:
  assumes "0 \<in> set s" and "k \<le> length (cval s)"
  shows "0 \<in> set (drop k s)" and "cval (drop k s) = drop k (cval s)"
proof -
  obtain r where s: "s = cval s @ 0 # r" using cval_split [OF assms(1)] by blast
  have d: "drop k s = drop k (cval s) @ 0 # r"
    using arg_cong [OF s, of "drop k"] assms(2) by simp
  show "0 \<in> set (drop k s)" by (simp add: d)
  show "cval (drop k s) = drop k (cval s)"
    unfolding d by (rule cval_append_zero) (use in_set_dropD in force)
qed

lemma find_loop_unfold:
  assumes "0 \<in> set path"
  defines "s \<equiv> skip_slashes path"
  defines "seg \<equiv> takeWhile (\<lambda>c. c \<noteq> of_char CHR ''/'') (cval s)"
  shows "find_loop b st path (Some n) =
    (if seg = [] then Some (Some n)
     else do { next \<leftarrow> find_child_internal b st n s (length seg);
               find_loop b st (drop (length seg) s) next })"
proof -
  obtain at where "string_find_char s (of_char CHR ''/'') = Some at"
      "(case at of Some k \<Rightarrow> Some k | None \<Rightarrow> string_len s) = Some (length seg)"
    unfolding seg_def s_def
    by (rule segment_length [OF skip_slashes_cval(1) [OF assms(1)] separators_nonzero(2)])
  then show ?thesis
    unfolding s_def by (subst find_loop.simps) simp
qed

lemma segment_empty:
  "takeWhile (\<lambda>c. c \<noteq> x) (dropWhile (\<lambda>c. c = x) xs) = [] \<longleftrightarrow> dropWhile (\<lambda>c. c = x) xs = []"
  by (induction xs) auto

lemma find_loop_rep:
  assumes "rep_node b (node_buff st) (prop_buff st) n p t" and "named t" and "0 \<in> set path"
  shows "find_loop b st path (Some n) = Some (map_option fst (tree_find n p t (segments (cval path))))"
  using assms
proof (induction "cval path" arbitrary: path n p t rule: segments.induct)
  case 1
  let ?s = "skip_slashes path" and ?sl = "of_char CHR ''/'' :: u8"
  let ?seg = "takeWhile (\<lambda>c. c \<noteq> ?sl) (cval ?s)"
  note q = skip_slashes_cval [OF 1(4)]
  have k: "length ?seg \<le> length (cval ?s)" by (rule length_takeWhile_le)
  have seg: "take (length ?seg) (cval ?s) = ?seg" by (metis takeWhile_eq_take)
  have rest: "cval (drop (length ?seg) ?s) = dropWhile (\<lambda>c. c \<noteq> ?sl) (cval ?s)"
    unfolding drop_segment(2) [OF q(1) k] by (rule dropWhile_eq_drop [symmetric])
  show ?case
  proof (cases "cval ?s = []")
    case True
    then have "segments (cval path) = []" unfolding q(2) by (subst segments.simps) simp
    then show ?thesis using True by (simp add: find_loop_unfold [OF 1(4)])
  next
    case False
    have sg: "segments (cval path) = ?seg # segments (cval (drop (length ?seg) ?s))"
      using False unfolding rest unfolding q(2) by (subst segments.simps) (simp only: Let_def if_False)
    have ne: "?seg \<noteq> []" using False unfolding q(2) segment_empty .
    note c = find_child_rep [OF 1(2,3) q(1) k, unfolded seg]
    note IH = 1(1) [OF q(2) False rest [symmetric] _ _ drop_segment(1) [OF q(1) k]]
    let ?f = "find (\<lambda>(_, _, c). unit_base (tname c) = ?seg) (rev (item_children (Suc n) p (titems t)))"
    show ?thesis
    proof (cases ?f)
      case None
      show ?thesis
        unfolding find_loop_unfold [OF 1(4)] sg c tree_find.simps None
        using ne by (simp add: find_loop.simps [of _ _ _ None])
    next
      case (Some x)
      obtain h r c' where x: "x = (h, r, c')" by (cases x)
      have "(h, r, c') \<in> set (item_children (Suc n) p (titems t))"
        using find_in_set [OF Some] x by simp
      then have "rep_node b (node_buff st) (prop_buff st) h r c'" "named c'"
        using 1(2,3) by (cases t; auto dest!: item_children_rep)+
      note IH = IH [OF this]
      show ?thesis
        unfolding find_loop_unfold [OF 1(4)] sg c tree_find.simps Some x
        using ne IH by simp
    qed
  qed
qed

section \<open>Property values\<close>

lemma be_val_append: "be_val (xs @ ys) = push_bit (8 * length ys) (be_val xs) OR be_val ys"
proof (induction ys rule: rev_induct)
  case (snoc y ys)
  have "be_val (zs @ [y]) = push_bit 8 (be_val zs) OR ucast y" for zs by (simp add: be_val_def)
  from this [of ys] this [of "xs @ ys"] snoc show ?case
    by (simp add: push_bit_or or.assoc push_bit_push_bit)
qed (simp add: be_val_def)

lemma ucast_byte_zero: "bit (ucast (c :: u8) :: u64) n \<longleftrightarrow> bit c n"
  by (auto simp: bit_simps dest: bit_imp_le_length)

lemma be_val_4: "be_val [b0, b1, b2, b3] = ucast (le32 b3 b2 b1 b0)"
proof (rule bit_eqI)
  fix n
  have v: "be_val [b0, b1, b2, b3] = push_bit 24 (ucast b0) OR push_bit 16 (ucast b1) OR
      push_bit 8 (ucast b2) OR ucast b3"
    by (simp add: be_val_def push_bit_or push_bit_push_bit or.assoc)
  show "bit (be_val [b0, b1, b2, b3]) n = bit (ucast (le32 b3 b2 b1 b0) :: u64) n"
    unfolding v
    by (rule byte_lanes [of n])
      (auto simp: bit_le32 bit_or_iff bit_push_bit_iff ucast_byte_zero bit_ucast_iff
        dest: bit_imp_le_length)
qed

lemma rd32_bytes:
  assumes "bytes_at b i d" and "off + 4 \<le> length d"
  shows "map_option (\<lambda>c. ucast (be32 c)) (rd32 b (i + off)) = Some (be_val (take 4 (drop off d)))"
proof -
  have len: "i + length d \<le> length b"
    using arg_cong [OF assms(1) [unfolded bytes_at_def], of length] assms(2) by simp
  have nth: "b ! (i + j) = d ! j" if "j < length d" for j
    using arg_cong [OF assms(1) [unfolded bytes_at_def], of "\<lambda>l. l ! j"] that len by simp
  have "take 4 (drop off d) = [d ! off, d ! (off + 1), d ! (off + 2), d ! (off + 3)]"
    using assms(2) by (intro nth_equalityI) (auto simp: less_Suc_eq numeral_eq_Suc)
  then show ?thesis
    using assms(2) len nth [of off] nth [of "off + 1"] nth [of "off + 2"] nth [of "off + 3"]
    by (simp add: rd32_def be_val_4 add.assoc)
qed

lemma extract_bytes:
  assumes "bytes_at b i d" and "off + 4 * cc \<le> length d" and "cc = 1 \<or> cc = 2"
  shows "extract_cells b (i + off) cc = Some (be_val (take (4 * cc) (drop off d)))"
  using assms(3)
proof
  assume "cc = 1"
  then show ?thesis using rd32_bytes [OF assms(1)] assms(2) by (simp only: extract_cells_1) simp
next
  assume cc: "cc = 2"
  obtain hi where hi: "rd32 b (i + off) = Some hi" "ucast (be32 hi) = be_val (take 4 (drop off d))"
    using rd32_bytes [OF assms(1), of off] assms(2) cc by auto
  obtain lo where lo: "rd32 b (i + off + 4) = Some lo"
      "ucast (be32 lo) = be_val (take 4 (drop (off + 4) d))"
    using rd32_bytes [OF assms(1), of "off + 4"] assms(2) cc by (auto simp: add.assoc)
  have "take 8 (drop off d) = take 4 (drop off d) @ take 4 (drop (off + 4) d)"
    using take_add [of 4 4 "drop off d"] by (simp add: add.commute)
  moreover have "length (take 4 (drop (off + 4) d)) = 4" using assms(2) cc by simp
  ultimately show ?thesis
    unfolding cc extract_cells_2 hi(1) lo(1)
    using hi(2) lo(2) be_val_append [of "take 4 (drop off d)" "take 4 (drop (off + 4) d)"] by simp
qed

lemma chunk_bound: "i < n div k \<Longrightarrow> i * k + k \<le> (n :: nat)"
  by (metis Suc_leI add.commute div_times_less_eq_dividend le_trans mult_Suc mult_le_mono1)

lemma read_vals_bytes:
  assumes "bytes_at b i d" and "cc = 1 \<or> cc = 2" and "\<forall>j\<in>set js. j < length d div (4 * cc)"
  shows "read_vals b i cc js = Some (map (\<lambda>j. be_val (take (4 * cc) (drop (j * (4 * cc)) d))) js)"
  using assms(3)
proof (induction js)
  case (Cons j js)
  then have "j * (4 * cc) + 4 * cc \<le> length d" by (intro chunk_bound) simp
  from extract_bytes [OF assms(1) this assms(2)] Cons show ?case
    by (simp add: FDT_CELL_SIZE_def ac_simps)
qed simp

lemma read_pairs_bytes:
  assumes "bytes_at b i d" and "la = 1 \<or> la = 2" and "lb = 1 \<or> lb = 2"
    and "\<forall>j\<in>set js. j < length d div (4 * (la + lb))"
  shows "read_pairs b i (la, lb) js = Some (map (\<lambda>j.
    (be_val (take (4 * la) (drop (j * (4 * (la + lb))) d)),
     be_val (take (4 * lb) (drop (j * (4 * (la + lb)) + 4 * la) d)))) js)"
  using assms(4)
proof (induction js)
  case (Cons j js)
  let ?o = "j * (4 * (la + lb))"
  have b: "?o + 4 * (la + lb) \<le> length d" using Cons(2) by (intro chunk_bound) simp
  have "extract_cells b (i + ?o) la = Some (be_val (take (4 * la) (drop ?o d)))"
    using b by (intro extract_bytes [OF assms(1) _ assms(2)]) simp
  moreover have "extract_cells b (i + (?o + 4 * la)) lb =
      Some (be_val (take (4 * lb) (drop (?o + 4 * la) d)))"
    using b by (intro extract_bytes [OF assms(1) _ assms(3)]) simp
  ultimately show ?case
    using Cons by (simp add: FDT_CELL_SIZE_def Let_def algebra_simps)
qed simp

end
