(* ===== verification/Device_Tree.thy ===== *)
theory Device_Tree
  imports Smoldtb_Query
begin

text \<open>
  The properties of the device tree parser as its callers see them: what \<open>dtb_init\<close> builds from a
  flattened tree, what the lookups and readers return on it, and the inputs on which the parser
  does not return or forgets a phandle.
\<close>

section \<open>Definitions\<close>

text \<open>The structure block of a blob is the tree followed by \<open>FDT_END\<close>.\<close>

definition flat_tree :: "blob \<Rightarrow> dtb_init_info \<Rightarrow> dtree \<Rightarrow> bool" where
  "flat_tree b ii t \<longleftrightarrow>
     map_option be32 (rd32 b 0) = Some FDT_MAGIC \<and> map_option fst (read_header b) = Some ii \<and>
     holds_node b ii 0 t \<and> ii_cell_count ii = ncells t + 1 \<and> cell b ii (ncells t) = Some 9"

text \<open>\<open>ops.malloc\<close> is set and never returns NULL.\<close>

definition malloc_total :: "'h dtb_ops \<Rightarrow> bool" where
  "malloc_total ops \<longleftrightarrow> (\<exists>f. op_malloc ops = Some f \<and> (\<forall>c h. fst (f c h) \<noteq> None))"

text \<open>
  The buffers are sized by counting the cells of the structure block that equal a token, and the
  allocators never hand out the last slot: the tree needs one cell more of either kind.
\<close>

definition slack :: "blob \<Rightarrow> dtb_init_info \<Rightarrow> dtree \<Rightarrow> bool" where
  "slack b ii t \<longleftrightarrow>
     (case count_cells b ii [0..<ii_cell_count ii] (0, 0) of
        None \<Rightarrow> False
      | Some (nodes, props) \<Rightarrow> nnodes t < nodes \<and> nprops t < props)"

text \<open>The phandle table is untouched.\<close>

definition keeps_lookup :: "'h dtb_state \<Rightarrow> 'h dtb_state \<Rightarrow> bool" where
  "keeps_lookup st st' \<longleftrightarrow>
     handle_lookup st' = handle_lookup st \<and> node_alloc_max st' = node_alloc_max st"

text \<open>The byte string of a list of big-endian cells, and two small trees.\<close>

definition cell_bytes :: "u32 \<Rightarrow> u8 list" where
  "cell_bytes w = [ucast (drop_bit 24 w), ucast (drop_bit 16 w), ucast (drop_bit 8 w), ucast w]"

definition demo_blob :: "u32 list \<Rightarrow> u8 list \<Rightarrow> blob" where
  "demo_blob cells strings = concat (map cell_bytes
     ([0xD00DFEED, of_nat (56 + 4 * length cells + length strings), 56,
       of_nat (56 + 4 * length cells), 40, 17, 16, 0, of_nat (length strings),
       of_nat (4 * length cells), 0, 0, 0, 0] @ cells)) @ strings"

definition demo_info :: "u32 list \<Rightarrow> dtb_init_info" where
  "demo_info cells = \<lparr>ii_cells = 56, ii_strings = 56 + 4 * length cells, ii_cell_count = length cells\<rparr>"

definition cpu_cells :: "u32 list" where
  "cpu_cells = [1, 0, 3, 4, 0, 1, 3, 4, 2, 3,
     1, 0x63707540, 0x30000000, 3, 8, 4, 0, 5, 2, 2, 9]"

definition cpu_strings :: "u8 list" where
  "cpu_strings = [0x61, 0, 0x62, 0, 0x72, 0x65, 0x67, 0]"

definition cpu_blob :: blob where
  "cpu_blob = demo_blob cpu_cells cpu_strings"

definition cpu_tree :: dtree where
  "cpu_tree = DNode [] [DProp [0x61] [0, 0, 0, 1], DProp [0x62] [0, 0, 0, 3],
     DChild (DNode [0x63, 0x70, 0x75, 0x40, 0x30] [DProp [0x72, 0x65, 0x67] [0, 0, 0, 0, 0, 0, 0, 5]])]"

definition tight_cells :: "u32 list" where
  "tight_cells = [1, 0, 1, 0x63000000, 2, 2, 9]"

text \<open>A caller whose allocator counts its calls.\<close>

definition demo_ops :: "nat dtb_ops" where
  "demo_ops = \<lparr>op_malloc = Some (\<lambda>c h. (Some 0x1000, h + 1)), op_free = None, op_on_error = None\<rparr>"

definition demo_state :: "nat dtb_state" where
  "demo_state = \<lparr>st_root = None, handle_lookup = [], buffer = None, node_buff = [],
     node_alloc_head = 0, node_alloc_max = 0, prop_buff = [], prop_alloc_head = 0,
     prop_alloc_max = 0, resv_memory = 0, st_ops = demo_ops, st_host = 0\<rparr>"

section \<open>Initialisation\<close>

lemma alloc_buffers_ok:
  assumes "count_cells b ii [0..<ii_cell_count ii] (0, 0) = Some (nodes, props)"
    and "malloc_total (st_ops st)"
  obtains st1 where "alloc_buffers b ii st = Some (True, st1)"
    "node_alloc_head st1 = 0" "prop_alloc_head st1 = 0"
    "node_alloc_max st1 = nodes" "prop_alloc_max st1 = props"
    "arrays_ok st1" "fresh_above st1" "st_ops st1 = st_ops st" "st_root st1 = st_root st"
proof -
  obtain f where f: "op_malloc (st_ops st) = Some f" "\<And>c h. fst (f c h) \<noteq> None"
    using assms(2) by (auto simp: malloc_total_def)
  obtain q h' where q: "f (buffers_size (st\<lparr>node_alloc_max := nodes, prop_alloc_max := props\<rparr>))
      (st_host st) = (Some q, h')"
    using f(2) by (metis option.exhaust prod.collapse)
  define st1 where "st1 = st\<lparr>node_alloc_max := nodes, prop_alloc_max := props, st_host := h',
    buffer := Some q, node_buff := replicate nodes zero_node, node_alloc_head := 0,
    prop_buff := replicate props zero_prop, prop_alloc_head := 0,
    handle_lookup := replicate nodes None\<rparr>"
  have "alloc_buffers b ii st = Some (True, st1)"
    using assms(1) f(1) q by (simp add: alloc_buffers_def try_malloc_def Let_def st1_def)
  then show thesis
    by (rule that) (simp_all add: arrays_ok_def fresh_above_def st1_def)
qed

lemma init_loop_tree:
  assumes "holds_node b ii 0 t" and "ii_cell_count ii = ncells t + 1" and "ncells t < fuel"
    and "room (nnodes t) (nprops t) st" and "node_alloc_head st = 0" and "prop_alloc_head st = 0"
  obtains st' where "init_loop fuel b ii 0 st = Ret st'" "st_root st' = Some 0"
    "node_alloc_head st' = nnodes t" "rep_node b (node_buff st') (prop_buff st') 0 0 t"
proof -
  have "0 < ncells t" by (cases t) simp
  with assms(3) obtain f g where f: "fuel = Suc f" "f = Suc g" "ncells t \<le> f"
    by (metis Suc_lessE less_Suc_eq_le less_trans_Suc Suc_le_D)
  obtain st1 where s: "parse_node f b ii 0 st = Ret (Some 0, ncells t, st1)"
      "grown 0 (nnodes t) (nprops t) st st1" "rep_node b (node_buff st1) (prop_buff st1) 0 0 t"
    using parse_holds(1) [OF assms(1,4) _ f(3)] assms(2,5,6) by (auto simp: node_parsed_def)
  define st2 where "st2 = (set_node 0 (\<lambda>nd. nd\<lparr>nd_sibling := st_root st1\<rparr>) st1)\<lparr>st_root := Some 0\<rparr>"
  have "init_loop fuel b ii 0 st = Ret st2"
    using s(1) assms(2) holds_node_begin [OF assms(1)] f(1,2) by (simp add: st2_def)
  moreover have "rep_node b (node_buff st2) (prop_buff st2) 0 0 t"
    using s(3) by (intro rep_frame(1) [OF s(3)]) (cases t; auto simp: st2_def set_node_def nth_list_update)+
  moreover have "node_alloc_head st2 = nnodes t"
    using s(2) assms(5) by (simp add: st2_def set_node_def grown_def)
  ultimately show thesis using that [of st2] by (simp add: st2_def)
qed

lemma free_buffers_keeps [simp]: "st_ops (free_buffers st) = st_ops st"
  by (simp add: free_buffers_def Let_def try_free_def log_error_def split: option.split)

section \<open>The example trees\<close>

lemma cpu_blob_bytes: "cpu_blob =
     [208, 13, 254, 237, 0, 0, 0, 148, 0, 0, 0, 56, 0, 0, 0, 140, 0, 0, 0, 40, 0, 0, 0, 17, 0,
     0, 0, 16, 0, 0, 0, 0, 0, 0, 0, 8, 0, 0, 0, 84, 0, 0, 0, 0, 0, 0, 0, 0, 0, 0, 0, 0, 0, 0,
     0, 0, 0, 0, 0, 1, 0, 0, 0, 0, 0, 0, 0, 3, 0, 0, 0, 4, 0, 0, 0, 0, 0, 0, 0, 1, 0, 0, 0, 3,
     0, 0, 0, 4, 0, 0, 0, 2, 0, 0, 0, 3, 0, 0, 0, 1, 99, 112, 117, 64, 48, 0, 0, 0, 0, 0, 0, 3,
     0, 0, 0, 8, 0, 0, 0, 4, 0, 0, 0, 0, 0, 0, 0, 5, 0, 0, 0, 2, 0, 0, 0, 2, 0, 0, 0, 9, 97, 0,
     98, 0, 114, 101, 103, 0]"
  by (simp add: cpu_blob_def demo_blob_def cpu_cells_def cpu_strings_def cell_bytes_def)

lemmas token_defs = FDT_MAGIC_def FDT_BEGIN_NODE_def FDT_END_NODE_def FDT_PROP_def FDT_CELL_SIZE_def

lemma cpu_flat_tree: "flat_tree cpu_blob (demo_info cpu_cells) cpu_tree"
  by (simp add: flat_tree_def cpu_tree_def demo_info_def cpu_cells_def cell_def holds_prop_def
      cstr_at_def bytes_at_def name_cells_def rd32_def cpu_blob_bytes le32_def be32_def token_defs
      read_header_def)

lemma cpu_slack: "slack cpu_blob (demo_info cpu_cells) cpu_tree"
  unfolding cpu_blob_bytes by code_simp

lemma demo_malloc: "malloc_total demo_ops"
  by (simp add: malloc_total_def demo_ops_def)

lemma cpu_ncells: "ncells cpu_tree = 20"
  by (simp add: cpu_tree_def name_cells_def)

text \<open>Two nodes, and no other cell that equals FDT_BEGIN_NODE.\<close>

lemma tight_bytes: "demo_blob tight_cells [] =
     [208, 13, 254, 237, 0, 0, 0, 84, 0, 0, 0, 56, 0, 0, 0, 84, 0, 0, 0, 40, 0, 0, 0, 17, 0, 0,
     0, 16, 0, 0, 0, 0, 0, 0, 0, 0, 0, 0, 0, 28, 0, 0, 0, 0, 0, 0, 0, 0, 0, 0, 0, 0, 0, 0, 0,
     0, 0, 0, 0, 1, 0, 0, 0, 0, 0, 0, 0, 1, 99, 0, 0, 0, 0, 0, 0, 2, 0, 0, 0, 2, 0, 0, 0, 9]"
  by (simp add: demo_blob_def tight_cells_def cell_bytes_def)

lemma tight_cell:
  "cell (demo_blob tight_cells []) (demo_info tight_cells) 0 = Some FDT_BEGIN_NODE"
  "cell (demo_blob tight_cells []) (demo_info tight_cells) 2 = Some FDT_BEGIN_NODE"
  "string_len (drop 60 (demo_blob tight_cells [])) = Some 0"
  "count_cells (demo_blob tight_cells []) (demo_info tight_cells)
     [0..<ii_cell_count (demo_info tight_cells)] (0, 0) = Some (2, 0)"
  unfolding tight_bytes by code_simp+

lemma tight_count: "ii_cell_count (demo_info tight_cells) = 7" "ii_cells (demo_info tight_cells) = 56"
  by (simp_all add: demo_info_def tight_cells_def)

lemma tight_header:
  "map_option be32 (rd32 (demo_blob tight_cells []) 0) = Some FDT_MAGIC"
  "read_header (demo_blob tight_cells []) = Some (demo_info tight_cells, 40)"
  unfolding tight_bytes by code_simp+

section \<open>Running out of nodes\<close>

lemma alloc_node_full:
  assumes "node_alloc_max st \<le> node_alloc_head st + 1"
  shows "alloc_node st = (None, log_error ''Not enough space for source dtb node.'' st)"
  using assms by (simp add: alloc_node_def)

lemma log_error_keeps [simp]:
  "node_alloc_head (log_error m st) = node_alloc_head st"
  "node_alloc_max (log_error m st) = node_alloc_max st"
  "handle_lookup (log_error m st) = handle_lookup st"
  by (simp_all add: log_error_def split: option.split)

section \<open>Phandles\<close>

lemma special_prop_keeps: "check_for_special_prop b n pr st = Some st' \<Longrightarrow> st' = st"
  by (auto simp: check_for_special_prop_def split: list.splits if_splits)

lemma keeps_lookup_simps [simp]:
  "keeps_lookup st st" "keeps_lookup st (set_node n f st') = keeps_lookup st st'"
  "keeps_lookup (set_node n f st) st' = keeps_lookup st st'"
  "keeps_lookup st (set_prop p g st') = keeps_lookup st st'"
  "keeps_lookup (set_prop p g st) st' = keeps_lookup st st'"
  "keeps_lookup st (log_error m st') = keeps_lookup st st'"
  "keeps_lookup (st\<lparr>st_root := r\<rparr>) st' = keeps_lookup st st'"
  by (simp_all add: keeps_lookup_def set_node_def set_prop_def)

lemma keeps_lookup_trans: "keeps_lookup st st1 \<Longrightarrow> keeps_lookup st1 st2 \<Longrightarrow> keeps_lookup st st2"
  by (simp add: keeps_lookup_def)

lemma alloc_keeps:
  "alloc_node st = (r, st') \<Longrightarrow> keeps_lookup st st'" "alloc_prop st = (r, st') \<Longrightarrow> keeps_lookup st st'"
  by (auto simp: alloc_node_def alloc_prop_def keeps_lookup_def split: if_splits)

lemma parse_prop_keeps:
  assumes "parse_prop b ii off st = Some (r, off', st')"
  shows "keeps_lookup st st'"
proof -
  obtain p st1 where a: "alloc_prop st = (p, st1)" by fastforce
  from assms alloc_keeps(2) [OF a] a show ?thesis
    by (auto simp: parse_prop_def Let_def split: option.splits if_splits Option.bind_splits)
qed

lemma body_keeps:
  assumes "parse_body (Suc fuel) b ii n off st = Ret (r, off', st')"
    and node: "\<And>r1 o1 st1. parse_node fuel b ii off st = Ret (r1, o1, st1) \<Longrightarrow> keeps_lookup st st1"
    and body: "\<And>o1 st1. parse_body fuel b ii n o1 st1 = Ret (r, off', st') \<Longrightarrow> keeps_lookup st1 st'"
  shows "keeps_lookup st st'"
proof (cases "parse_body fuel b ii n (off + 1) st = Ret (r, off', st') \<or> off \<ge> ii_cell_count ii")
  case True
  then show ?thesis using assms(1) body by (elim disjE) auto
next
  case False
  with assms(1) obtain c where c: "cell b ii off = Some c" by (auto split: option.splits)
  consider "c = FDT_END_NODE" | "c = FDT_BEGIN_NODE" "c \<noteq> FDT_END_NODE"
    | "c = FDT_PROP" "c \<noteq> FDT_BEGIN_NODE" "c \<noteq> FDT_END_NODE"
    using assms(1) False c by (auto split: if_splits)
  then show ?thesis
  proof cases
    case 2
    with assms(1) False c obtain r1 o1 s1 where "parse_node fuel b ii off st = Ret (r1, o1, s1)"
      by (auto split: run.splits)
    with 2 assms(1) False c node body show ?thesis
      by (cases r1) (auto intro: keeps_lookup_trans dest!: body)
  next
    case 3
    with assms(1) False c obtain r1 o1 s1 where p: "parse_prop b ii off st = Some (r1, o1, s1)"
      by (auto split: option.splits)
    note k = parse_prop_keeps [OF p]
    show ?thesis
    proof (cases r1)
      case None
      then show ?thesis using 3 assms(1) False c p k by (auto intro: keeps_lookup_trans dest!: body)
    next
      case (Some q)
      then show ?thesis using 3 assms(1) False c p k
        by (auto simp: Let_def split: option.splits intro: keeps_lookup_trans
            dest!: body special_prop_keeps)
    qed
  qed (use assms(1) False c in auto)
qed

lemma parse_keeps:
  "(\<forall>off st r off' st'. parse_node fuel b ii off (st :: 'h dtb_state) = Ret (r, off', st') \<longrightarrow>
      keeps_lookup st st') \<and>
   (\<forall>n off st r off' st'. parse_body fuel b ii n off (st :: 'h dtb_state) = Ret (r, off', st') \<longrightarrow>
      keeps_lookup st st')"
proof (induction fuel)
  case (Suc fuel)
  have "keeps_lookup st st'" if p: "parse_node (Suc fuel) b ii off st = Ret (r, off', st')"
    for off r off' and st st' :: "'h dtb_state"
  proof -
    obtain q st1 where a: "alloc_node st = (q, st1)" by fastforce
    from alloc_keeps(1) [OF a] p a show ?thesis
      by (auto simp: Let_def split: option.splits if_splits dest!: Suc.IH [THEN conjunct2, rule_format]
          intro: keeps_lookup_trans)
  qed
  moreover have "keeps_lookup st st'" if "parse_body (Suc fuel) b ii n off st = Ret (r, off', st')"
    for n off r off' and st st' :: "'h dtb_state"
    by (rule body_keeps [OF that]) (use Suc.IH in blast)+
  ultimately show ?case by blast
qed simp

lemma init_loop_keeps: "init_loop fuel b ii i st = Ret st' \<Longrightarrow> keeps_lookup st st'"
proof (induction fuel arbitrary: i st)
  case (Suc fuel)
  show ?case
  proof (cases "parse_node fuel b ii i st")
    case (Ret x)
    obtain r i' st1 where x: "x = (r, i', st1)" by (cases x)
    have k: "keeps_lookup st st1" using parse_keeps Ret x by blast
    from Suc.prems Ret x k show ?thesis
      by (auto split: if_splits option.splits dest!: Suc.IH intro: keeps_lookup_trans)
  qed (use Suc in \<open>auto split: if_splits option.splits\<close>)
qed simp

lemma alloc_buffers_lookup:
  assumes "alloc_buffers b ii st = Some (True, st')"
  shows "handle_lookup st' = replicate (node_alloc_max st') None"
  using assms
  by (auto simp: alloc_buffers_def Let_def try_malloc_def log_error_def
      split: option.splits prod.splits)

lemma init_represents:
  assumes "flat_tree b ii t" and "slack b ii t" and "malloc_total ops" and "ncells t < fuel"
  shows "\<exists>st'. dtb_init fuel (Some b) ops st0 = Ret (True, st') \<and> st_root st' = Some 0 \<and>
    node_alloc_head st' = nnodes t \<and> rep_node b (node_buff st') (prop_buff st') 0 0 t"
proof -
  obtain magic rsvd where hd: "rd32 b 0 = Some magic" "be32 magic = FDT_MAGIC"
      "read_header b = Some (ii, rsvd)"
    using assms(1) by (auto simp: flat_tree_def)
  obtain nodes props where cnt: "count_cells b ii [0..<ii_cell_count ii] (0, 0) = Some (nodes, props)"
      "nnodes t < nodes" "nprops t < props"
    using assms(2) by (auto simp: slack_def split: option.splits)
  define st where "st = (let st = st0\<lparr>st_ops := ops, resv_memory := rsvd\<rparr>
    in if buffer st \<noteq> None then free_buffers st else st)"
  have ops: "st_ops st = ops" by (simp add: st_def Let_def)
  obtain st1 where s: "alloc_buffers b ii st = Some (True, st1)"
    "node_alloc_head st1 = 0" "prop_alloc_head st1 = 0" "node_alloc_max st1 = nodes"
    "prop_alloc_max st1 = props" "arrays_ok st1" "fresh_above st1"
    by (rule alloc_buffers_ok [OF cnt(1), of st]) (use assms(3) ops in auto)
  have "room (nnodes t) (nprops t) st1" using s cnt by (simp add: room_def)
  then obtain st' where "init_loop fuel b ii 0 st1 = Ret st'" "st_root st' = Some 0"
      "node_alloc_head st' = nnodes t" "rep_node b (node_buff st') (prop_buff st') 0 0 t"
    using assms(1,4) s(2,3) by (auto simp: flat_tree_def elim: init_loop_tree)
  moreover have "op_malloc ops \<noteq> None" using assms(3) by (auto simp: malloc_total_def)
  moreover have "alloc_buffers b ii (if buffer (st0\<lparr>st_ops := ops, resv_memory := rsvd\<rparr>) \<noteq> None
      then free_buffers (st0\<lparr>st_ops := ops, resv_memory := rsvd\<rparr>)
      else st0\<lparr>st_ops := ops, resv_memory := rsvd\<rparr>) = Some (True, st1)"
    using s(1) by (simp add: st_def Let_def)
  ultimately show ?thesis using hd by (simp add: dtb_init_def Let_def)
qed

text \<open>The parser's state for the example tree.\<close>

lemma cpu_state:
  obtains st where "dtb_init 100 (Some cpu_blob) demo_ops demo_state = Ret (True, st)"
    "st_root st = Some 0" "rep_node cpu_blob (node_buff st) (prop_buff st) 0 0 cpu_tree"
  using init_represents [OF cpu_flat_tree cpu_slack demo_malloc, of 100 demo_state]
  by (auto simp: cpu_ncells)

lemma item_props_rep:
  assumes "rep_items b nb pb n h p lc lp is" and "(i, nm, d) \<in> set (item_props p is)"
  shows "i < length pb \<and> rep_prop b (pb ! i) n nm d"
  using assms by (induction p "is" arbitrary: h lc lp rule: item_props.induct) auto

lemma read_prop_1_rep:
  assumes "rep_prop b pr n nm d" and "cc = 1 \<or> cc = 2"
  shows "dtb_read_prop_1 b (Some pr) cc = Some (map be_val (chunks (4 * cc) d))"
  using read_vals_bytes [of b "pr_data pr" d cc "[0..<length d div (4 * cc)]"] assms
  by (auto simp: dtb_read_prop_1_def rep_prop_def chunks_def FDT_CELL_SIZE_def mult.commute)

lemma read_prop_2_rep:
  assumes "rep_prop b pr n nm d" and "la = 1 \<or> la = 2" and "lb = 1 \<or> lb = 2"
  shows "dtb_read_prop_2 b (Some pr) (la, lb) =
    Some (map (\<lambda>c. (be_val (take (4 * la) c), be_val (drop (4 * la) c))) (chunks (4 * (la + lb)) d))"
proof -
  have "fst (la, lb) \<noteq> 0" "snd (la, lb) \<noteq> 0" using assms(2,3) by auto
  moreover have "bytes_at b (pr_data pr) d" "fdt_prop_length b pr = Some (length d)"
    using assms(1) by (simp_all add: rep_prop_def)
  moreover have "take (4 * la) (take (4 * (la + lb)) x) = take (4 * la) x"
    "drop (4 * la) (take (4 * (la + lb)) x) = take (4 * lb) (drop (4 * la) x)" for x :: "u8 list"
    by (simp_all add: drop_take min_def)
  ultimately show ?thesis
    using read_pairs_bytes [OF _ assms(2,3), of b "pr_data pr" d "[0..<length d div (4 * (la + lb))]"]
    by (simp add: dtb_read_prop_2_def dtb_count_prop_2_def chunks_def FDT_CELL_SIZE_def ac_simps)
qed

section \<open>Properties\<close>

text \<open>
  C3. Initialisation from a flattened tree. If the structure block of the blob encodes the tree
  \<open>t\<close> followed by FDT_END, the buffers counted by alloc_buffers have the spare slots the
  allocators need, and malloc succeeds, then dtb_init returns true with fuel for one step per
  cell, whatever the parser state was before; the root is node 0 and the arrays represent \<open>t\<close>.
\<close>

theorem dtb_init_represents:
  assumes "flat_tree b ii t" and "slack b ii t" and "malloc_total ops" and "ncells t < fuel"
  shows "\<exists>st'. dtb_init fuel (Some b) ops st0 = Ret (True, st') \<and> st_root st' = Some 0 \<and>
    node_alloc_head st' = nnodes t \<and> rep_node b (node_buff st') (prop_buff st') 0 0 t"
  using assms by (rule init_represents)

theorem dtb_init_represents_witness:
  "\<exists>st'. dtb_init 100 (Some cpu_blob) demo_ops demo_state = Ret (True, st') \<and> st_root st' = Some 0 \<and>
     node_alloc_head st' = 2 \<and> rep_node cpu_blob (node_buff st') (prop_buff st') 0 0 cpu_tree"
proof -
  have "nnodes cpu_tree = 2" by (simp add: cpu_tree_def)
  then show ?thesis
    using dtb_init_represents [OF cpu_flat_tree cpu_slack demo_malloc, of 100 demo_state]
    by (simp add: cpu_ncells)
qed

text \<open>
  C13. Path lookup. On a represented tree whose nodes below the root all have names, find_loop (the
  body of dtb_find) started at the root's node returns, for every path, the node the path leads to
  in the tree: slashes separate the segments, a segment matches a child by its name up to the unit
  address, and of several matches the last one in the blob wins; NULL if there is none. The node
  found represents the subtree found.
\<close>

theorem dtb_find_correct:
  assumes "rep_node b (node_buff st) (prop_buff st) n p t" and "named t" and "0 \<in> set path"
    and "st_root st = Some n"
  shows "dtb_find b st path = Some (map_option fst (tree_find n p t (segments (cval path)))) \<and>
    (\<forall>i q c. tree_find n p t (segments (cval path)) = Some (i, q, c) \<longrightarrow>
       rep_node b (node_buff st) (prop_buff st) i q c)"
  using find_loop_rep [OF assms(1-3)] tree_find_rep [OF assms(1,2)] assms(4)
  by (auto simp: dtb_find_def)

theorem dtb_find_correct_witness:
  "\<exists>st. dtb_init 100 (Some cpu_blob) demo_ops demo_state = Ret (True, st) \<and>
     dtb_find cpu_blob st (cstring ''//cpu/'') = Some (Some 1) \<and>
     dtb_find cpu_blob st (cstring ''/soc'') = Some None"
proof -
  obtain st where st: "dtb_init 100 (Some cpu_blob) demo_ops demo_state = Ret (True, st)"
    "st_root st = Some 0" "rep_node cpu_blob (node_buff st) (prop_buff st) 0 0 cpu_tree"
    by (rule cpu_state)
  note f = dtb_find_correct [OF st(3) _ zero_in_cstring st(2), THEN conjunct1]
  have "named cpu_tree" by code_simp
  moreover have "map_option fst (tree_find 0 0 cpu_tree (segments (cval (cstring ''//cpu/'')))) = Some 1"
    by code_simp
  moreover have "map_option fst (tree_find 0 0 cpu_tree (segments (cval (cstring ''/soc'')))) = None"
    by code_simp
  ultimately show ?thesis
    using st(1) f [of "''//cpu/''"] f [of "''/soc''"] by (intro exI [of _ st]) metis
qed

text \<open>
  C32. Property lookup and decoding. On a represented node, dtb_find_prop returns the property of
  that name (the last of several), or NULL if the node has none; for the property found,
  dtb_read_prop_1 returns the big-endian values of its data split into chunks of one or two cells,
  and dtb_read_prop_2 the pairs of such values, a trailing partial chunk being dropped.
\<close>

theorem dtb_prop_correct:
  assumes "rep_node b (node_buff st) (prop_buff st) n p t" and "0 \<in> set name"
    and "cc = 1 \<or> cc = 2" and "la = 1 \<or> la = 2" and "lb = 1 \<or> lb = 2"
  shows "dtb_find_prop b st (Some n) name =
      Some (map_option fst (find (\<lambda>(_, nm, _). nm = cval name) (rev (item_props p (titems t))))) \<and>
    (\<forall>i nm d. find (\<lambda>(_, nm, _). nm = cval name) (rev (item_props p (titems t))) = Some (i, nm, d) \<longrightarrow>
      (\<exists>pr. prop_at st i = Some pr \<and>
        dtb_read_prop_1 b (Some pr) cc = Some (map be_val (chunks (4 * cc) d)) \<and>
        dtb_read_prop_2 b (Some pr) (la, lb) = Some (map (\<lambda>c. (be_val (take (4 * la) c),
          be_val (drop (4 * la) c))) (chunks (4 * (la + lb)) d))))"
proof (intro conjI allI impI)
  show "dtb_find_prop b st (Some n) name =
      Some (map_option fst (find (\<lambda>(_, nm, _). nm = cval name) (rev (item_props p (titems t)))))"
    using assms(1,2) by (rule dtb_find_prop_rep)
  fix i nm d
  assume "find (\<lambda>(_, nm, _). nm = cval name) (rev (item_props p (titems t))) = Some (i, nm, d)"
  then have "(i, nm, d) \<in> set (item_props p (titems t))" using find_in_set by fastforce
  then have "i < length (prop_buff st) \<and> rep_prop b (prop_buff st ! i) n nm d"
    using assms(1) by (cases t) (auto dest: item_props_rep)
  then show "\<exists>pr. prop_at st i = Some pr \<and>
      dtb_read_prop_1 b (Some pr) cc = Some (map be_val (chunks (4 * cc) d)) \<and>
      dtb_read_prop_2 b (Some pr) (la, lb) = Some (map (\<lambda>c. (be_val (take (4 * la) c),
        be_val (drop (4 * la) c))) (chunks (4 * (la + lb)) d))"
    using read_prop_1_rep [OF _ assms(3)] read_prop_2_rep [OF _ assms(4,5)]
    by (auto simp: prop_at_def)
qed

theorem dtb_prop_correct_witness:
  "\<exists>st pr. dtb_init 100 (Some cpu_blob) demo_ops demo_state = Ret (True, st) \<and>
     dtb_find_prop cpu_blob st (Some 0) (cstring ''b'') = Some (Some 1) \<and> prop_at st 1 = Some pr \<and>
     dtb_read_prop_1 cpu_blob (Some pr) 1 = Some [3]"
proof -
  obtain st where st: "dtb_init 100 (Some cpu_blob) demo_ops demo_state = Ret (True, st)"
    "st_root st = Some 0" "rep_node cpu_blob (node_buff st) (prop_buff st) 0 0 cpu_tree"
    by (rule cpu_state)
  have f: "find (\<lambda>(_, nm, _). nm = cval (cstring ''b'')) (rev (item_props 0 (titems cpu_tree))) =
      Some (1, [0x62], [0, 0, 0, 3])"
    by code_simp
  have "map be_val (chunks (4 * 1) [0, 0, 0, 3]) = [3]" by code_simp
  then show ?thesis
    using st(1) dtb_prop_correct [OF st(3) zero_in_cstring, of 1 1 1 "''b''"] f by auto
qed

text \<open>
  C33. An exhausted node buffer hangs the parser. When parse_node's loop meets an FDT_BEGIN_NODE
  while alloc_node has no node left (it refuses the last slot of the buffer), the offset does not
  advance and the loop never ends: no amount of fuel gives a result.
\<close>

theorem node_buffer_exhausted_diverges:
  assumes "cell b ii off = Some FDT_BEGIN_NODE" and "off < ii_cell_count ii"
    and "node_alloc_max st \<le> node_alloc_head st + 1"
  shows "parse_body fuel b ii n off st = Out_of_fuel"
  using assms(3)
proof (induction fuel arbitrary: st)
  case (Suc fuel)
  then show ?case
    using assms(1,2) by (cases fuel) (simp_all add: alloc_node_full token_defs)
qed simp

theorem node_buffer_exhausted_diverges_witness:
  "\<forall>fuel. dtb_init fuel (Some (demo_blob tight_cells [])) demo_ops demo_state = Out_of_fuel"
proof
  fix fuel
  let ?b = "demo_blob tight_cells []" and ?ii = "demo_info tight_cells"
  let ?st = "demo_state\<lparr>resv_memory := 40\<rparr>"
  obtain st1 where s: "alloc_buffers ?b ?ii ?st = Some (True, st1)"
    "node_alloc_head st1 = 0" "node_alloc_max st1 = 2"
    by (rule alloc_buffers_ok [OF tight_cell(4), of ?st]) (simp_all add: demo_malloc demo_state_def)
  have b: "parse_body g ?b ?ii 0 (Suc (Suc 0)) st = Out_of_fuel"
    if "node_alloc_max st \<le> node_alloc_head st + 1" for g and st :: "nat dtb_state"
    using that tight_count tight_cell(2) [unfolded numeral_2_eq_2]
    by (intro node_buffer_exhausted_diverges) simp_all
  have "init_loop fuel ?b ?ii 0 st1 = Out_of_fuel"
  proof (cases fuel)
    case (Suc f)
    then show ?thesis
      using tight_cell(1,3) tight_count s(2,3) b
      by (cases f) (simp_all add: alloc_node_def set_node_def dtb_align_up_def FDT_CELL_SIZE_def)
  qed simp
  then show "dtb_init fuel (Some ?b) demo_ops demo_state = Out_of_fuel"
    using tight_header s(1) by (auto simp: dtb_init_def demo_ops_def demo_state_def Let_def)
qed

text \<open>
  A phandle is never recorded: the first-character test of check_for_special_prop holds for
  every name, so after any successful dtb_init of a blob dtb_find_phandle returns NULL for every
  handle.
\<close>

theorem phandle_never_found:
  assumes "dtb_init fuel (Some b) ops st0 = Ret (True, st)"
  shows "dtb_find_phandle st handle = Some None"
proof -
  obtain ii st1 st2 where "alloc_buffers b ii st1 = Some (True, st2)" "init_loop fuel b ii 0 st2 = Ret st"
    using assms
    by (auto simp: dtb_init_def Let_def split: if_splits option.splits prod.splits bool.splits run.splits)
  then have "handle_lookup st = replicate (node_alloc_max st) None"
    using alloc_buffers_lookup init_loop_keeps by (fastforce simp: keeps_lookup_def)
  then show ?thesis by (simp add: dtb_find_phandle_def)
qed

theorem phandle_never_found_witness:
  "\<exists>st. dtb_init 100 (Some cpu_blob) demo_ops demo_state = Ret (True, st) \<and>
     dtb_find_phandle st 1 = Some None"
  using cpu_state phandle_never_found by metis

end
