(* ===== verification/Syscall_Handler.thy ===== *)
theory Syscall_Handler
  imports Soct_Prelude
begin

text \<open>
  The syscall dispatch of \<open>shared/soctglue/src/syscall-handler.c\<close>: one fixed table in which user
  handlers grow from the front and default handlers from the back, and \<open>soct_syscall\<close>, which
  offers a call to every handler until one answers. The handlers act on the machine state
  \<open>'s\<close> (devices, memory); the table itself is not changed while a call is dispatched.
\<close>

section \<open>Data\<close>

datatype soct_handler_status_t = SOCT_HANDLER_PASS | SOCT_HANDLER_HANDLED

record soct_handler_resp_t =
  resp_status :: soct_handler_status_t
  resp_ret :: u64

record sc_args =
  sc_a0 :: u64
  sc_a1 :: u64
  sc_a2 :: u64
  sc_a3 :: u64
  sc_a4 :: u64
  sc_a5 :: u64
  sc_a6 :: u64

type_synonym 's soct_handler_t = "'s \<Rightarrow> u32 \<Rightarrow> sc_args \<Rightarrow> soct_handler_resp_t \<times> 's"

definition SOCT_N_SYSCALL_HANDLERS :: nat where
  "SOCT_N_SYSCALL_HANDLERS = 64"

definition ENOSYS :: u32 where
  "ENOSYS = 88"

text \<open>A slot that was never written holds a null \<open>handle\<close> pointer, here \<open>None\<close>.\<close>

record 's handler_table =
  s_syscall_handlers :: "'s soct_handler_t option list"
  s_user_count :: nat
  s_default_count :: nat

definition initial_table :: "'s handler_table" where
  "initial_table = \<lparr>s_syscall_handlers = replicate SOCT_N_SYSCALL_HANDLERS None,
     s_user_count = 0, s_default_count = 0\<rparr>"

section \<open>Operations\<close>

definition soct_register_handler ::
    "'s soct_handler_t \<Rightarrow> 's handler_table \<Rightarrow> bool \<times> 's handler_table" where
  "soct_register_handler h T =
     (if s_user_count T + s_default_count T \<ge> SOCT_N_SYSCALL_HANDLERS then (False, T)
      else (True, T\<lparr>s_syscall_handlers := (s_syscall_handlers T)[s_user_count T := Some h],
                    s_user_count := s_user_count T + 1\<rparr>))"

definition soct_register_default_handler ::
    "'s soct_handler_t \<Rightarrow> 's handler_table \<Rightarrow> bool \<times> 's handler_table" where
  "soct_register_default_handler h T =
     (if s_user_count T + s_default_count T \<ge> SOCT_N_SYSCALL_HANDLERS then (False, T)
      else (True, T\<lparr>s_syscall_handlers :=
                      (s_syscall_handlers T)
                        [SOCT_N_SYSCALL_HANDLERS - 1 - s_default_count T := Some h],
                    s_default_count := s_default_count T + 1\<rparr>))"

text \<open>
  The inner loop of one pass over the indices \<open>is\<close>: \<open>None\<close> is a call through a null pointer,
  \<open>Some (None, s)\<close> means that every handler passed.
\<close>

fun pass_loop :: "'s handler_table \<Rightarrow> nat \<Rightarrow> nat list \<Rightarrow> u32 \<Rightarrow> sc_args \<Rightarrow> 's \<Rightarrow>
    (u64 option \<times> 's) option" where
  "pass_loop T pass [] nr args s = Some (None, s)"
| "pass_loop T pass (i # is) nr args s =
     (let idx = (if pass = 0 then i else SOCT_N_SYSCALL_HANDLERS - 1 - i)
      in case s_syscall_handlers T ! idx of
           None \<Rightarrow> None
         | Some h \<Rightarrow>
             (case h s nr args of
                (resp, s') \<Rightarrow>
                  if resp_status resp = SOCT_HANDLER_HANDLED then Some (Some (resp_ret resp), s')
                  else pass_loop T pass is nr args s'))"

text \<open>
  The return value and the new \<open>errno\<close> for a handled call. The negation of the least \<open>long\<close> overflows,
  which C leaves undefined: no result.
\<close>

definition handled_result :: "u64 \<Rightarrow> u32 \<Rightarrow> (u64 \<times> u32) option" where
  "handled_result r errno =
     (if sint r < 0 then if r = push_bit 63 1 then None else Some (- 1, ucast (- r))
      else Some (r, errno))"

definition soct_syscall :: "'s handler_table \<Rightarrow> u32 \<Rightarrow> sc_args \<Rightarrow> u32 \<Rightarrow> 's \<Rightarrow>
    (u64 \<times> u32 \<times> 's) option" where
  "soct_syscall T nr args errno s =
     (case pass_loop T 0 [0..<s_user_count T] nr args s of
        None \<Rightarrow> None
      | Some (Some r, s') \<Rightarrow> map_option (\<lambda>(v, e). (v, e, s')) (handled_result r errno)
      | Some (None, s') \<Rightarrow>
          (case pass_loop T 1 [0..<s_default_count T] nr args s' of
             None \<Rightarrow> None
           | Some (Some r, s'') \<Rightarrow> map_option (\<lambda>(v, e). (v, e, s'')) (handled_result r errno)
           | Some (None, s'') \<Rightarrow> Some (- 1, ENOSYS, s'')))"

section \<open>Well-formed tables and the handler chain\<close>

definition handlers_wf :: "'s handler_table \<Rightarrow> bool" where
  "handlers_wf T \<longleftrightarrow>
     length (s_syscall_handlers T) = SOCT_N_SYSCALL_HANDLERS \<and>
     s_user_count T + s_default_count T \<le> SOCT_N_SYSCALL_HANDLERS \<and>
     (\<forall>i < s_user_count T. s_syscall_handlers T ! i \<noteq> None) \<and>
     (\<forall>i < s_default_count T. s_syscall_handlers T ! (SOCT_N_SYSCALL_HANDLERS - 1 - i) \<noteq> None)"

text \<open>The user handlers and the default handlers, each in registration order.\<close>

definition user_handlers :: "'s handler_table \<Rightarrow> 's soct_handler_t list" where
  "user_handlers T = map (\<lambda>i. the (s_syscall_handlers T ! i)) [0..<s_user_count T]"

definition default_handlers :: "'s handler_table \<Rightarrow> 's soct_handler_t list" where
  "default_handlers T =
     map (\<lambda>i. the (s_syscall_handlers T ! (SOCT_N_SYSCALL_HANDLERS - 1 - i)))
       [0..<s_default_count T]"

text \<open>The abstract dispatch: the first handler of the chain that answers decides.\<close>

fun chain_dispatch :: "'s soct_handler_t list \<Rightarrow> u32 \<Rightarrow> sc_args \<Rightarrow> 's \<Rightarrow> u64 option \<times> 's" where
  "chain_dispatch [] nr args s = (None, s)"
| "chain_dispatch (h # hs) nr args s =
     (case h s nr args of
        (resp, s') \<Rightarrow>
          if resp_status resp = SOCT_HANDLER_HANDLED then (Some (resp_ret resp), s')
          else chain_dispatch hs nr args s')"

text \<open>
  The convention of the C library, on integers: an answer of at least 0 is returned and \<open>errno\<close> kept, a
  negative answer \<open>v\<close> is returned as -1 with \<open>errno = - v\<close>, and no answer as -1 with error 88 (\<open>ENOSYS\<close>
  of newlib). The least \<open>long\<close> is no error number: nothing is promised for it.
\<close>

definition answer_spec :: "u64 \<Rightarrow> u32 \<Rightarrow> 's \<Rightarrow> (u64 \<times> u32 \<times> 's) option" where
  "answer_spec r errno s =
     (let v = sint r
      in if 0 \<le> v then Some (r, errno, s)
         else if v = - (2 ^ 63) then None
         else Some (of_int (- 1), of_int (- v), s))"

definition syscall_spec :: "'s soct_handler_t list \<Rightarrow> u32 \<Rightarrow> sc_args \<Rightarrow> u32 \<Rightarrow> 's \<Rightarrow>
    (u64 \<times> u32 \<times> 's) option" where
  "syscall_spec hs nr args errno s =
     (case chain_dispatch hs nr args s of
        (Some r, s') \<Rightarrow> answer_spec r errno s'
      | (None, s') \<Rightarrow> Some (of_int (- 1), 88, s'))"

section \<open>Registration runs\<close>

datatype 's reg_op = RegUser "'s soct_handler_t" | RegDefault "'s soct_handler_t"

fun reg_step :: "'s reg_op \<Rightarrow> 's handler_table \<Rightarrow> 's handler_table" where
  "reg_step (RegUser h) T = snd (soct_register_handler h T)"
| "reg_step (RegDefault h) T = snd (soct_register_default_handler h T)"

definition reg_run :: "'s reg_op list \<Rightarrow> 's handler_table \<Rightarrow> 's handler_table" where
  "reg_run ops T = fold reg_step ops T"

fun user_ops :: "'s reg_op list \<Rightarrow> 's soct_handler_t list" where
  "user_ops [] = []"
| "user_ops (RegUser h # ops) = h # user_ops ops"
| "user_ops (RegDefault h # ops) = user_ops ops"

fun default_ops :: "'s reg_op list \<Rightarrow> 's soct_handler_t list" where
  "default_ops [] = []"
| "default_ops (RegUser h # ops) = default_ops ops"
| "default_ops (RegDefault h # ops) = h # default_ops ops"

text \<open>Two handlers and an argument block for concrete runs.\<close>

definition no_args :: sc_args where
  "no_args = \<lparr>sc_a0 = 0, sc_a1 = 0, sc_a2 = 0, sc_a3 = 0, sc_a4 = 0, sc_a5 = 0, sc_a6 = 0\<rparr>"

definition demo_pass :: "nat soct_handler_t" where
  "demo_pass s nr args = (\<lparr>resp_status = SOCT_HANDLER_PASS, resp_ret = 0\<rparr>, s + 1)"

definition demo_fail :: "nat soct_handler_t" where
  "demo_fail s nr args = (\<lparr>resp_status = SOCT_HANDLER_HANDLED, resp_ret = - 14\<rparr>, s + 10)"

section \<open>Lemmas\<close>

lemma chain_dispatch_append:
  "chain_dispatch (hs @ hs') nr args s =
     (case chain_dispatch hs nr args s of
        (Some r, s') \<Rightarrow> (Some r, s')
      | (None, s') \<Rightarrow> chain_dispatch hs' nr args s')"
  by (induction hs arbitrary: s) (auto split: prod.splits option.splits)

lemma pass_loop_chain:
  assumes "\<forall>i \<in> set is. s_syscall_handlers T ! (if pass = 0 then i
             else SOCT_N_SYSCALL_HANDLERS - 1 - i) \<noteq> None"
  shows "pass_loop T pass is nr args s =
     Some (chain_dispatch (map (\<lambda>i. the (s_syscall_handlers T ! (if pass = 0 then i
             else SOCT_N_SYSCALL_HANDLERS - 1 - i))) is) nr args s)"
  using assms
proof (induction "is" arbitrary: s)
  case Nil
  then show ?case by simp
next
  case (Cons i "is")
  then obtain h where "s_syscall_handlers T ! (if pass = 0 then i
      else SOCT_N_SYSCALL_HANDLERS - 1 - i) = Some h"
    by auto
  with Cons show ?case by (auto simp: Let_def split: prod.splits)
qed

lemma pass_loop_user:
  "handlers_wf T \<Longrightarrow>
     pass_loop T 0 [0..<s_user_count T] nr args s =
       Some (chain_dispatch (user_handlers T) nr args s)"
  by (subst pass_loop_chain) (auto simp: handlers_wf_def user_handlers_def)

lemma pass_loop_default:
  "handlers_wf T \<Longrightarrow>
     pass_loop T 1 [0..<s_default_count T] nr args s =
       Some (chain_dispatch (default_handlers T) nr args s)"
  by (subst pass_loop_chain) (auto simp: handlers_wf_def default_handlers_def)

lemma initial_table_wf [soct_inv]: "handlers_wf initial_table"
  by (simp add: handlers_wf_def initial_table_def)

lemma initial_table_counts [soct_simps]:
  "s_user_count initial_table = 0" "s_default_count initial_table = 0"
  by (simp_all add: initial_table_def)

lemma initial_table_chains [soct_simps]:
  "user_handlers initial_table = []" "default_handlers initial_table = []"
  by (simp_all add: user_handlers_def default_handlers_def initial_table_def)

lemma soct_register_handler_wf [soct_inv]:
  "handlers_wf T \<Longrightarrow> handlers_wf (snd (soct_register_handler h T))"
  by (auto simp: handlers_wf_def soct_register_handler_def nth_list_update less_Suc_eq)

lemma soct_register_default_handler_wf [soct_inv]:
  "handlers_wf T \<Longrightarrow> handlers_wf (snd (soct_register_default_handler h T))"
  by (auto simp: handlers_wf_def soct_register_default_handler_def nth_list_update less_Suc_eq)

lemma soct_register_handler_chains:
  assumes "handlers_wf T" and "s_user_count T + s_default_count T < SOCT_N_SYSCALL_HANDLERS"
  shows "user_handlers (snd (soct_register_handler h T)) = user_handlers T @ [h]"
    and "default_handlers (snd (soct_register_handler h T)) = default_handlers T"
  using assms
  by (auto simp: handlers_wf_def soct_register_handler_def user_handlers_def default_handlers_def)

lemma soct_register_default_handler_chains:
  assumes "handlers_wf T" and "s_user_count T + s_default_count T < SOCT_N_SYSCALL_HANDLERS"
  shows "user_handlers (snd (soct_register_default_handler h T)) = user_handlers T"
    and "default_handlers (snd (soct_register_default_handler h T)) = default_handlers T @ [h]"
  using assms
  by (auto simp: handlers_wf_def soct_register_default_handler_def user_handlers_def
      default_handlers_def nth_list_update)

section \<open>The registry interface\<close>

text \<open>
  What the rest of the runtime relies on: two ordered handler lists, registration at their
  ends, and dispatch along \<open>users @ defaults\<close>.
\<close>

locale handler_registry =
  fixes inv :: "'t \<Rightarrow> bool"
    and users :: "'t \<Rightarrow> 's soct_handler_t list"
    and defaults :: "'t \<Rightarrow> 's soct_handler_t list"
    and reg_user :: "'s soct_handler_t \<Rightarrow> 't \<Rightarrow> bool \<times> 't"
    and reg_default :: "'s soct_handler_t \<Rightarrow> 't \<Rightarrow> bool \<times> 't"
    and call :: "'t \<Rightarrow> u32 \<Rightarrow> sc_args \<Rightarrow> u32 \<Rightarrow> 's \<Rightarrow> (u64 \<times> u32 \<times> 's) option"
  assumes inv_user: "inv T \<Longrightarrow> inv (snd (reg_user h T))"
    and inv_default: "inv T \<Longrightarrow> inv (snd (reg_default h T))"
    and user_chains: "inv T \<Longrightarrow> fst (reg_user h T) \<Longrightarrow>
      users (snd (reg_user h T)) = users T @ [h] \<and> defaults (snd (reg_user h T)) = defaults T"
    and default_chains: "inv T \<Longrightarrow> fst (reg_default h T) \<Longrightarrow>
      users (snd (reg_default h T)) = users T \<and>
      defaults (snd (reg_default h T)) = defaults T @ [h]"
    and call_chain: "inv T \<Longrightarrow>
      call T nr args errno s = syscall_spec (users T @ defaults T) nr args errno s"
begin

lemma default_is_last_resort:
  assumes "inv T" and "fst (reg_default h T)"
    and "chain_dispatch (users T @ defaults T) nr args s = (Some r, s')"
  shows "call (snd (reg_default h T)) nr args errno s = call T nr args errno s"
proof -
  have "chain_dispatch (users T @ defaults T @ [h]) nr args s = (Some r, s')"
    using assms(3) chain_dispatch_append [of "users T @ defaults T" "[h]"] by simp
  with assms show ?thesis
    by (simp add: call_chain inv_default default_chains syscall_spec_def)
qed

lemma user_before_defaults:
  assumes "inv T" and "fst (reg_user h T)"
    and "chain_dispatch (users T) nr args s = (None, s')"
    and "h s' nr args = (\<lparr>resp_status = SOCT_HANDLER_HANDLED, resp_ret = r\<rparr>, s'')"
  shows "call (snd (reg_user h T)) nr args errno s = answer_spec r errno s''"
  using assms
  by (simp add: call_chain inv_user user_chains syscall_spec_def chain_dispatch_append
      split: prod.splits)

end

lemma handled_result_answer:
  "map_option (\<lambda>(v, e). (v, e, s)) (handled_result r errno) = answer_spec r errno s"
proof -
  have "sint (push_bit 63 1 :: u64) = - (2 ^ 63)" by simp
  then have "r = push_bit 63 1 \<longleftrightarrow> sint r = - (2 ^ 63)" using signed_word_eqI [of r "push_bit 63 1"] by auto
  moreover have "(of_int (- sint r) :: u32) = ucast (- r)"
  proof -
    have "ucast (of_int (- sint r) :: u64) = (of_int (- sint r) :: u32)"
      by (rule bit_word_eqI) (simp add: bit_ucast_iff bit_word_of_int_iff del: of_int_minus)
    then show ?thesis by simp
  qed
  ultimately show ?thesis by (simp add: handled_result_def answer_spec_def Let_def)
qed

lemma soct_syscall_chain:
  assumes "handlers_wf T"
  shows "soct_syscall T nr args errno s =
     syscall_spec (user_handlers T @ default_handlers T) nr args errno s"
  using pass_loop_user [OF assms, of nr args s] pass_loop_default [OF assms, of nr args]
  by (auto simp: soct_syscall_def syscall_spec_def chain_dispatch_append handled_result_answer ENOSYS_def
      split: prod.splits option.splits)

lemma soct_register_handler_full:
  "fst (soct_register_handler h T) \<longleftrightarrow>
     s_user_count T + s_default_count T < SOCT_N_SYSCALL_HANDLERS"
  by (simp add: soct_register_handler_def)

lemma soct_register_default_handler_full:
  "fst (soct_register_default_handler h T) \<longleftrightarrow>
     s_user_count T + s_default_count T < SOCT_N_SYSCALL_HANDLERS"
  by (simp add: soct_register_default_handler_def)

interpretation soct_reg: handler_registry handlers_wf user_handlers default_handlers
  soct_register_handler soct_register_default_handler soct_syscall
  by unfold_locales
    (simp_all add: soct_inv soct_register_handler_chains soct_register_default_handler_chains
      soct_register_handler_full soct_register_default_handler_full soct_syscall_chain)

section \<open>Registration sequences\<close>

lemma reg_step_wf [soct_inv]: "handlers_wf T \<Longrightarrow> handlers_wf (reg_step c T)"
  by (cases c) (simp_all add: soct_inv)

lemma reg_step_count:
  "s_user_count T + s_default_count T < SOCT_N_SYSCALL_HANDLERS \<Longrightarrow>
     s_user_count (reg_step c T) + s_default_count (reg_step c T) =
       Suc (s_user_count T + s_default_count T)"
  by (cases c) (simp_all add: soct_register_handler_def soct_register_default_handler_def)

lemma reg_run_simps [simp]:
  "reg_run [] T = T" "reg_run (c # ops) T = reg_run ops (reg_step c T)"
  by (simp_all add: reg_run_def)

lemma reg_run_wf [soct_inv]: "handlers_wf T \<Longrightarrow> handlers_wf (reg_run ops T)"
  by (induction ops arbitrary: T) (simp_all add: soct_inv)

lemma reg_run_chains:
  assumes "handlers_wf T"
    and "s_user_count T + s_default_count T + length ops \<le> SOCT_N_SYSCALL_HANDLERS"
  shows "user_handlers (reg_run ops T) = user_handlers T @ user_ops ops \<and>
    default_handlers (reg_run ops T) = default_handlers T @ default_ops ops"
  using assms
proof (induction ops arbitrary: T)
  case Nil
  then show ?case by simp
next
  case (Cons c ops)
  from Cons.prems have room: "s_user_count T + s_default_count T < SOCT_N_SYSCALL_HANDLERS"
    by simp
  have IH: "user_handlers (reg_run ops (reg_step c T)) =
        user_handlers (reg_step c T) @ user_ops ops \<and>
      default_handlers (reg_run ops (reg_step c T)) =
        default_handlers (reg_step c T) @ default_ops ops"
    using Cons.prems by (intro Cons.IH) (simp_all add: soct_inv reg_step_count [OF room])
  show ?case
    using IH Cons.prems(1) room
    by (cases c) (simp_all add: soct_register_handler_chains
        soct_register_default_handler_chains)
qed

section \<open>Properties\<close>

text \<open>
  C1. The table scan of \<open>soct_syscall\<close> implements dispatch along one ordered chain: on a
  well-formed table it calls no null handler, offers the call to the user handlers in
  registration order and then to the default handlers in registration order, returns the
  first answer (one of at least 0 as it is, a negative one as -1 with \<open>errno\<close> set to its negation), and
  returns -1 with \<open>errno\<close> 88 when every handler passes. The one answer with no result is the least \<open>long\<close>,
  whose negation the code leaves undefined.
\<close>

theorem soct_syscall_refines_chain:
  assumes "handlers_wf T"
  shows "soct_syscall T nr args errno s =
     syscall_spec (user_handlers T @ default_handlers T) nr args errno s"
  using assms by (rule soct_reg.call_chain)

theorem soct_syscall_refines_chain_witness:
  "handlers_wf (reg_run [RegDefault demo_fail, RegUser demo_pass] initial_table) \<and>
   soct_syscall (reg_run [RegDefault demo_fail, RegUser demo_pass] initial_table) 1 no_args 0 0 =
     Some (- 1, 14, 11)"
proof -
  let ?T = "reg_run [RegDefault demo_fail, RegUser demo_pass] initial_table"
  have wf: "handlers_wf ?T" by (intro reg_run_wf initial_table_wf)
  have "user_handlers ?T @ default_handlers ?T = [demo_pass, demo_fail]"
    using reg_run_chains [of initial_table "[RegDefault demo_fail, RegUser demo_pass]"]
    by (simp add: initial_table_wf soct_simps SOCT_N_SYSCALL_HANDLERS_def del: reg_run_simps)
  with wf soct_syscall_refines_chain [OF wf, of 1 no_args 0 0] show ?thesis
    by (simp add: syscall_spec_def answer_spec_def demo_pass_def demo_fail_def)
qed

text \<open>
  C17. Registration keeps the table well formed whatever the sequence of calls, and as long as
  at most 64 registrations are made the two regions of the table hold exactly the registered
  user handlers and the registered default handlers, each in registration order: neither
  region overwrites the other.
\<close>

theorem registration_order:
  assumes "length ops \<le> SOCT_N_SYSCALL_HANDLERS"
  shows "handlers_wf (reg_run ops initial_table) \<and>
    user_handlers (reg_run ops initial_table) = user_ops ops \<and>
    default_handlers (reg_run ops initial_table) = default_ops ops"
  using assms reg_run_chains [of initial_table ops]
  by (simp add: reg_run_wf initial_table_wf soct_simps)

theorem registration_order_witness:
  "user_handlers (reg_run [RegDefault demo_fail, RegUser demo_pass, RegDefault demo_pass]
      initial_table) = [demo_pass] \<and>
   default_handlers (reg_run [RegDefault demo_fail, RegUser demo_pass, RegDefault demo_pass]
      initial_table) = [demo_fail, demo_pass]"
  using registration_order [of "[RegDefault demo_fail, RegUser demo_pass, RegDefault demo_pass]"]
  by (simp add: SOCT_N_SYSCALL_HANDLERS_def del: reg_run_simps)

text \<open>
  A full table refuses further registrations of either kind and is left unchanged.
\<close>

theorem registration_full:
  assumes "SOCT_N_SYSCALL_HANDLERS \<le> s_user_count T + s_default_count T"
  shows "soct_register_handler h T = (False, T) \<and> soct_register_default_handler h T = (False, T)"
  using assms by (simp add: soct_register_handler_def soct_register_default_handler_def)

theorem registration_full_witness:
  "soct_register_handler demo_pass
     \<lparr>s_syscall_handlers = [], s_user_count = 60, s_default_count = 4\<rparr> =
   (False, \<lparr>s_syscall_handlers = [], s_user_count = 60, s_default_count = 4\<rparr>)"
  using registration_full [of "\<lparr>s_syscall_handlers = [], s_user_count = 60, s_default_count = 4\<rparr>"
      demo_pass]
  by (simp add: SOCT_N_SYSCALL_HANDLERS_def)

end
