(* ===== verification/Uart.thy ===== *)
theory Uart
  imports Syscall_Handler
begin

text \<open>
  The UART console of \<open>shared/soctglue/src/syscall-uart.c\<close>: the polled transmit and receive
  routines and the syscall handler for standard input and output. The registers are volatile: the
  state holds the values that the coming reads of \<open>status\<close> and \<open>rx_fifo\<close> will return, and the
  trace of the writes to \<open>tx_fifo\<close>. A routine that is still polling when the reads run out has no
  result (\<open>None\<close>).
\<close>

section \<open>Data\<close>

definition SR_RX_FIFO_VALID_DATA :: u32 where "SR_RX_FIFO_VALID_DATA = 1"
definition SR_TX_FIFO_FULL :: u32 where "SR_TX_FIFO_FULL = 8"

record uart_io =
  status_reads :: "u32 list"
  rx_reads :: "u32 list"
  tx_writes :: "u32 list"
  io_mem :: "u64 \<Rightarrow> u8"

definition SOCT_READ :: u32 where "SOCT_READ = 0"
definition SOCT_WRITE :: u32 where "SOCT_WRITE = 1"
definition SOCT_STDIN :: u64 where "SOCT_STDIN = 0"
definition SOCT_STDOUT :: u64 where "SOCT_STDOUT = 1"
definition SOCT_STDERR :: u64 where "SOCT_STDERR = 2"
definition EFAULT :: u64 where "EFAULT = 14"

section \<open>Transmit and receive\<close>

definition tx_ready :: "u32 \<Rightarrow> bool" where
  "tx_ready s \<longleftrightarrow> s AND SR_TX_FIFO_FULL = 0"

definition rx_valid :: "u32 \<Rightarrow> bool" where
  "rx_valid s \<longleftrightarrow> s AND SR_RX_FIFO_VALID_DATA \<noteq> 0"

function kputc :: "u8 \<Rightarrow> uart_io \<Rightarrow> uart_io option" where
  "kputc ch io = do {
     io \<leftarrow> (if ch = 0x0A then kputc 0x0D io else Some io);
     (_, ss) \<leftarrow> poll tx_ready (status_reads io);
     Some (io\<lparr>status_reads := ss, tx_writes := tx_writes io @ [ucast ch AND 0xFF]\<rparr>) }"
  by pat_completeness auto
termination
  by (relation "measure (\<lambda>(ch, io). if ch = 0x0A then 1 else 0)") auto

text \<open>The loop of \<open>kputs\<close> over a counted buffer, and the one over a terminated string.\<close>

fun kputs_loop :: "u64 \<Rightarrow> nat list \<Rightarrow> uart_io \<Rightarrow> uart_io option" where
  "kputs_loop s [] io = Some io"
| "kputs_loop s (i # is) io = do { io \<leftarrow> kputc (io_mem io (s + of_nat i)) io; kputs_loop s is io }"

partial_function (option) kputs_string :: "u64 \<Rightarrow> uart_io \<Rightarrow> uart_io option" where
  "kputs_string s io =
     (if io_mem io s = 0 then Some io
      else do { io \<leftarrow> kputc (io_mem io s) io; kputs_string (s + 1) io })"

declare kputs_string.simps [code]

definition kputs :: "u64 \<Rightarrow> u64 \<Rightarrow> uart_io \<Rightarrow> uart_io option" where
  "kputs s nbyte io =
     (if nbyte = 0 then kputs_string s io else kputs_loop s [0..<unat nbyte] io)"

definition kgetc :: "uart_io \<Rightarrow> (u8 \<times> uart_io) option" where
  "kgetc io = do {
     (_, ss) \<leftarrow> poll rx_valid (status_reads io);
     case rx_reads io of
       [] \<Rightarrow> None
     | r # rs \<Rightarrow> Some (ucast (r AND 0xFF), io\<lparr>status_reads := ss, rx_reads := rs\<rparr>) }"

fun read_loop :: "u64 \<Rightarrow> nat list \<Rightarrow> uart_io \<Rightarrow> uart_io option" where
  "read_loop buf [] io = Some io"
| "read_loop buf (i # is) io = do {
     (c, io) \<leftarrow> kgetc io;
     read_loop buf is (io\<lparr>io_mem := (io_mem io)(buf + of_nat i := c)\<rparr>) }"

section \<open>The syscall handler\<close>

definition pass_resp :: soct_handler_resp_t where
  "pass_resp = \<lparr>resp_status = SOCT_HANDLER_PASS, resp_ret = 0\<rparr>"

definition handled :: "u64 \<Rightarrow> soct_handler_resp_t" where
  "handled r = \<lparr>resp_status = SOCT_HANDLER_HANDLED, resp_ret = r\<rparr>"

definition soct_handle_uart ::
    "uart_io \<Rightarrow> u32 \<Rightarrow> sc_args \<Rightarrow> (soct_handler_resp_t \<times> uart_io) option" where
  "soct_handle_uart io syscall args =
     (let a0 = sc_a0 args; a1 = sc_a1 args; nbyte = sc_a2 args
      in if syscall = SOCT_READ then
           if a0 = SOCT_STDIN then
             if nbyte > 0 \<and> a1 = 0 then Some (handled (- EFAULT), io)
             else do { io \<leftarrow> read_loop a1 [0..<unat nbyte] io; Some (handled nbyte, io) }
           else Some (pass_resp, io)
         else if syscall = SOCT_WRITE then
           if a0 = SOCT_STDOUT \<or> a0 = SOCT_STDERR then
             if nbyte > 0 \<and> a1 = 0 then Some (handled (- EFAULT), io)
             else do { io \<leftarrow> kputs a1 nbyte io; Some (handled nbyte, io) }
           else Some (pass_resp, io)
         else Some (pass_resp, io))"

section \<open>Specification\<close>

text \<open>A line feed goes out as carriage return and line feed.\<close>

definition crlf :: "u8 list \<Rightarrow> u8 list" where
  "crlf cs = concat (map (\<lambda>c. if c = 0x0A then [0x0D, 0x0A] else [c]) cs)"

definition buffer_at :: "(u64 \<Rightarrow> u8) \<Rightarrow> u64 \<Rightarrow> nat \<Rightarrow> u8 list" where
  "buffer_at m a n = map (\<lambda>i. m (a + of_nat i)) [0..<n]"

text \<open>
  The status register reports room for \<open>n\<close> characters, however often it reports a full FIFO in
  between.
\<close>

definition tx_room :: "nat \<Rightarrow> uart_io \<Rightarrow> bool" where
  "tx_room n io \<longleftrightarrow> n \<le> length (filter tx_ready (status_reads io))"

definition rx_room :: "nat \<Rightarrow> uart_io \<Rightarrow> bool" where
  "rx_room n io \<longleftrightarrow> n \<le> length (filter rx_valid (status_reads io)) \<and> n \<le> length (rx_reads io)"

text \<open>The characters \<open>cs\<close> were sent and nothing else has changed but the status register.\<close>

definition sent :: "u8 list \<Rightarrow> uart_io \<Rightarrow> uart_io \<Rightarrow> bool" where
  "sent cs io io' \<longleftrightarrow> tx_writes io' = tx_writes io @ map ucast cs \<and> io_mem io' = io_mem io \<and>
     rx_reads io' = rx_reads io \<and>
     length (filter tx_ready (status_reads io')) + length cs = length (filter tx_ready (status_reads io))"

text \<open>Memory in which the characters \<open>cs\<close> have been stored from \<open>buf\<close> on.\<close>

definition store :: "u64 \<Rightarrow> u8 list \<Rightarrow> (u64 \<Rightarrow> u8) \<Rightarrow> u64 \<Rightarrow> u8" where
  "store buf cs m a = (if unat (a - buf) < length cs then cs ! unat (a - buf) else m a)"

definition demo_io :: uart_io where
  "demo_io = \<lparr>status_reads = [8, 0, 8, 8, 0, 4, 9, 1, 1], rx_reads = [0x61, 0x62], tx_writes = [],
     io_mem = (\<lambda>a. if a = 0x1000 then 0x68 else if a = 0x1001 then 0x0A else 0)\<rparr>"

definition demo_args :: "u64 \<Rightarrow> u64 \<Rightarrow> u64 \<Rightarrow> sc_args" where
  "demo_args a0 a1 a2 =
     \<lparr>sc_a0 = a0, sc_a1 = a1, sc_a2 = a2, sc_a3 = 0, sc_a4 = 0, sc_a5 = 0, sc_a6 = 0\<rparr>"

section \<open>Lemmas\<close>

lemma poll_filter:
  assumes "0 < length (filter P xs)"
  obtains x ys where "poll P xs = Some (x, ys)" "P x" "length (filter P ys) + 1 = length (filter P xs)"
  using assms by (induction xs) (auto split: if_splits)

lemma ucast_and_ff: "(ucast (c :: u8) :: u32) AND 0xFF = ucast c"
proof -
  have m: "(0xFF :: u32) = mask 8" by (simp add: mask_eq_exp_minus_1)
  show ?thesis
    unfolding m using bit_imp_le_length [of c] by (auto intro!: bit_word_eqI simp: bit_simps)
qed

declare kputc.simps [simp del]

text \<open>One character that is not a line feed.\<close>

lemma kputc_plain:
  assumes "ch \<noteq> 0x0A" and "tx_room 1 io"
  obtains io' where "kputc ch io = Some io'" "sent [ch] io io'"
proof -
  obtain x ys where "poll tx_ready (status_reads io) = Some (x, ys)"
      "length (filter tx_ready ys) + 1 = length (filter tx_ready (status_reads io))"
    using assms(2) poll_filter [of tx_ready "status_reads io"]
    unfolding tx_room_def by (metis Suc_le_lessD One_nat_def)
  with assms(1) show thesis
    by (intro that [of "io\<lparr>status_reads := ys, tx_writes := tx_writes io @ [ucast ch AND 0xFF]\<rparr>"])
      (simp_all add: kputc.simps sent_def ucast_and_ff)
qed

lemma sent_trans: "sent xs io io1 \<Longrightarrow> sent ys io1 io2 \<Longrightarrow> sent (xs @ ys) io io2"
  by (simp add: sent_def)

lemma sent_room: "sent xs io io1 \<Longrightarrow> tx_room (length xs + n) io \<Longrightarrow> tx_room n io1"
  by (auto simp: sent_def tx_room_def)

lemma cr_not_lf: "(0x0D :: u8) \<noteq> 0x0A"
  by simp

lemma kputc_sent:
  assumes "tx_room (length (crlf [ch])) io"
  obtains io' where "kputc ch io = Some io'" "sent (crlf [ch]) io io'"
proof (cases "ch = 0x0A")
  case True
  with assms have r: "tx_room (length [0x0D :: u8] + 1) io" by (simp add: crlf_def)
  have "tx_room 1 io" using r by (simp add: tx_room_def)
  then obtain io1 where io1: "kputc 0x0D io = Some io1" "sent [0x0D] io io1"
    by (rule kputc_plain [OF cr_not_lf])
  obtain x ys where "poll tx_ready (status_reads io1) = Some (x, ys)"
      "length (filter tx_ready ys) + 1 = length (filter tx_ready (status_reads io1))"
    using sent_room [OF io1(2) r] poll_filter [of tx_ready "status_reads io1"]
    unfolding tx_room_def by (metis Suc_le_lessD One_nat_def)
  then have "kputc ch io = Some (io1\<lparr>status_reads := ys, tx_writes := tx_writes io1 @ [0x0A]\<rparr>)"
    and "sent [0x0A] io1 (io1\<lparr>status_reads := ys, tx_writes := tx_writes io1 @ [0x0A]\<rparr>)"
    using io1(1) True by (simp_all add: kputc.simps [of "0x0A"] sent_def)
  with sent_trans [OF io1(2)] that show thesis by (fastforce simp: crlf_def True)
next
  case False
  with assms kputc_plain [of ch io] that show thesis by (auto simp: crlf_def)
qed

lemma crlf_Cons: "crlf (c # cs) = crlf [c] @ crlf cs"
  by (simp add: crlf_def)

lemma kputs_loop_sent:
  assumes "tx_room (length (crlf (map (\<lambda>i. io_mem io (s + of_nat i)) is))) io"
  shows "\<exists>io'. kputs_loop s is io = Some io' \<and>
    sent (crlf (map (\<lambda>i. io_mem io (s + of_nat i)) is)) io io'"
  using assms
proof (induction "is" arbitrary: io)
  case Nil
  then show ?case by (simp add: sent_def crlf_def)
next
  case (Cons i "is")
  let ?c = "io_mem io (s + of_nat i)" and ?cs = "\<lambda>io. map (\<lambda>i. io_mem io (s + of_nat i)) is"
  have sp: "crlf (map (\<lambda>i. io_mem io (s + of_nat i)) (i # is)) = crlf [?c] @ crlf (?cs io)"
    unfolding list.map by (rule crlf_Cons)
  have len: "tx_room (length (crlf [?c]) + length (crlf (?cs io))) io"
    using Cons.prems unfolding sp length_append .
  then have "tx_room (length (crlf [?c])) io" by (simp add: tx_room_def)
  then obtain io1 where io1: "kputc ?c io = Some io1" "sent (crlf [?c]) io io1" by (rule kputc_sent)
  then have m: "?cs io1 = ?cs io" by (simp add: sent_def)
  have "tx_room (length (crlf (?cs io1))) io1" using sent_room [OF io1(2) len] by (simp add: m)
  from Cons.IH [OF this] obtain io2 where "kputs_loop s is io1 = Some io2"
      "sent (crlf (?cs io)) io1 io2"
    by (auto simp: m)
  then show ?case
    using io1 sent_trans [OF io1(2)] unfolding sp by auto
qed

lemma kputs_string_sent:
  assumes "\<forall>i<n. io_mem io (s + of_nat i) \<noteq> 0" and "io_mem io (s + of_nat n) = 0"
    and "tx_room (length (crlf (buffer_at (io_mem io) s n))) io"
  shows "\<exists>io'. kputs_string s io = Some io' \<and> sent (crlf (buffer_at (io_mem io) s n)) io io'"
  using assms
proof (induction n arbitrary: s io)
  case 0
  then show ?case by (subst kputs_string.simps) (simp add: sent_def crlf_def buffer_at_def)
next
  case (Suc n)
  let ?c = "io_mem io s" and ?cs = "buffer_at (io_mem io) (s + 1) n"
  have b: "buffer_at (io_mem io) s (Suc n) = ?c # ?cs"
    unfolding buffer_at_def map_upt_Suc_Cons by (simp add: add.assoc)
  have sp: "crlf (buffer_at (io_mem io) s (Suc n)) = crlf [?c] @ crlf ?cs"
    unfolding b by (rule crlf_Cons)
  have len: "tx_room (length (crlf [?c]) + length (crlf ?cs)) io"
    using Suc.prems(3) unfolding sp length_append .
  then have "tx_room (length (crlf [?c])) io" by (simp add: tx_room_def)
  then obtain io1 where io1: "kputc ?c io = Some io1" "sent (crlf [?c]) io io1" by (rule kputc_sent)
  then have m: "io_mem io1 = io_mem io" by (simp add: sent_def)
  have nz: "io_mem io (s + 1 + of_nat i) \<noteq> 0" if "i < n" for i
    using Suc.prems(1) [rule_format, of "Suc i"] that by (simp add: add.assoc)
  have z: "io_mem io (s + 1 + of_nat n) = 0" using Suc.prems(2) by (simp add: add.assoc)
  obtain io2 where "kputs_string (s + 1) io1 = Some io2" "sent (crlf ?cs) io1 io2"
    using Suc.IH [of io1 "s + 1"] nz z sent_room [OF io1(2) len] by (auto simp: m)
  moreover have "io_mem io s \<noteq> 0" using Suc.prems(1) [rule_format, of 0] by simp
  ultimately show ?case
    using io1 sent_trans [OF io1(2)] unfolding sp
    by (subst kputs_string.simps) auto
qed

lemma kgetc_read:
  assumes "rx_room (Suc n) io"
  obtains io' where "kgetc io = Some (ucast (hd (rx_reads io) AND 0xFF), io')" "rx_room n io'"
    "rx_reads io' = tl (rx_reads io)" "io_mem io' = io_mem io" "tx_writes io' = tx_writes io"
proof -
  obtain x ys where "poll rx_valid (status_reads io) = Some (x, ys)"
      "length (filter rx_valid ys) + 1 = length (filter rx_valid (status_reads io))"
    using assms poll_filter [of rx_valid "status_reads io"]
    unfolding rx_room_def by (metis Suc_le_lessD less_nat_zero_code not_gr_zero)
  with assms show thesis
    by (intro that [of "io\<lparr>status_reads := ys, rx_reads := tl (rx_reads io)\<rparr>"])
      (auto simp: kgetc_def rx_room_def split: list.split)
qed

text \<open>The receive loop stores the characters at consecutive addresses.\<close>

lemma store_Cons:
  assumes "length cs < 2 ^ 64"
  shows "store (buf + 1) cs (m(buf := c)) = store buf (c # cs) m"
proof
  fix a
  show "store (buf + 1) cs (m(buf := c)) a = store buf (c # cs) m a"
  proof (cases "a = buf")
    case True
    have "unat (a - (buf + 1)) = 2 ^ 64 - 1"
      by (simp add: True unsigned_minus_1_eq_mask mask_eq_exp_minus_1)
    with assms show ?thesis by (simp add: store_def True)
  next
    case False
    then have "a - buf \<noteq> 0" by simp
    then have "unat (a - buf) = Suc (unat (a - buf - 1))"
      by (simp add: unat_minus_one unat_gt_0 del: diff_gt_0_iff_gt)
    with False show ?thesis by (simp add: store_def diff_diff_add)
  qed
qed

lemma read_loop_stored:
  assumes "rx_room n io" and "n < 2 ^ 64"
  shows "\<exists>io'. read_loop buf [k..<k + n] io = Some io' \<and> tx_writes io' = tx_writes io \<and>
    rx_reads io' = drop n (rx_reads io) \<and>
    io_mem io' = store (buf + of_nat k) (map (\<lambda>r. ucast (r AND 0xFF)) (take n (rx_reads io))) (io_mem io)"
  using assms
proof (induction n arbitrary: k io)
  case 0
  then show ?case by (simp add: store_def)
next
  case (Suc n)
  obtain r rs where rx: "rx_reads io = r # rs"
    using Suc.prems(1) by (cases "rx_reads io") (simp_all add: rx_room_def)
  obtain io1 where io1: "kgetc io = Some (ucast (r AND 0xFF), io1)"
      "rx_room n io1" "rx_reads io1 = rs" "io_mem io1 = io_mem io" "tx_writes io1 = tx_writes io"
    using kgetc_read [OF Suc.prems(1)] rx by auto
  define m1 where "m1 = (io_mem io)(buf + of_nat k := ucast (r AND 0xFF))"
  let ?io = "io1\<lparr>io_mem := m1\<rparr>"
  have "rx_room n ?io" using io1(2) by (simp add: rx_room_def)
  then obtain io2 where io2: "read_loop buf [Suc k..<Suc k + n] ?io = Some io2"
      "tx_writes io2 = tx_writes io" "rx_reads io2 = drop n rs"
      "io_mem io2 = store (buf + of_nat (Suc k)) (map (\<lambda>r. ucast (r AND 0xFF)) (take n rs)) m1"
    using Suc.IH [of ?io "Suc k"] Suc.prems(2) io1(3,5) by (auto simp del: upt_Suc)
  have "io_mem io2 = store (buf + of_nat k) (map (\<lambda>r. ucast (r AND 0xFF)) (take (Suc n) (rx_reads io))) (io_mem io)"
    using store_Cons [of "map (\<lambda>r. ucast (r AND 0xFF)) (take n rs)" "buf + of_nat k"] Suc.prems(2)
    by (simp add: io2(4) m1_def rx add_ac)
  moreover have "[k..<k + Suc n] = k # [Suc k..<Suc k + n]" by (simp add: upt_conv_Cons del: upt_Suc)
  ultimately show ?case using io1(1,4) io2(1-3) rx by (simp add: m1_def del: upt_Suc)
qed

lemma demo_uart:
  "buffer_at (io_mem demo_io) 0x1000 2 = [0x68, 0x0A]" "crlf [0x68, 0x0A] = [0x68, 0x0D, 0x0A]"
  "tx_room (Suc (Suc (Suc 0))) demo_io" "rx_room 2 demo_io" "tx_writes demo_io = []"
  "rx_reads demo_io = [0x61, 0x62]"
  by (simp_all add: buffer_at_def upt_rec demo_io_def tx_room_def tx_ready_def SR_TX_FIFO_FULL_def
      rx_room_def rx_valid_def SR_RX_FIFO_VALID_DATA_def crlf_def)

lemma demo_uart_mem:
  "io_mem demo_io 0x1000 = 0x68" "io_mem demo_io 0x1001 = 0x0A" "io_mem demo_io 0x1002 = 0"
  by (simp_all add: demo_io_def)

lemma demo_read:
  "sc_a0 (demo_args 0 0x2000 2) = SOCT_STDIN" "sc_a1 (demo_args 0 0x2000 2) \<noteq> 0"
  "sc_a1 (demo_args 0 0x2000 2) = 0x2000" "sc_a2 (demo_args 0 0x2000 2) = 2" "unat (2 :: u64) = 2"
  "take 2 [x, y :: u32] = [x, y]"
  by (simp_all add: demo_args_def SOCT_STDIN_def)

section \<open>Properties\<close>

text \<open>
  Writing to standard output or error. A write of a non-empty buffer at a non-null address is
  handled and returns the byte count once the transmit FIFO has had room for the expanded text: the
  bytes of the buffer go out in order, each line feed preceded by a carriage return, and memory is
  unchanged. A write of a null buffer is answered with -EFAULT and nothing is sent.
\<close>

theorem uart_write_sends_crlf:
  assumes "a0 = SOCT_STDOUT \<or> a0 = SOCT_STDERR" and "sc_a0 args = a0" and "sc_a2 args \<noteq> 0"
    and "tx_room (length (crlf (buffer_at (io_mem io) (sc_a1 args) (unat (sc_a2 args))))) io"
  shows "if sc_a1 args = 0
    then soct_handle_uart io SOCT_WRITE args = Some (handled (- EFAULT), io)
    else \<exists>io'. soct_handle_uart io SOCT_WRITE args = Some (handled (sc_a2 args), io') \<and>
      sent (crlf (buffer_at (io_mem io) (sc_a1 args) (unat (sc_a2 args)))) io io'"
proof -
  have "sc_a2 args > 0" using assms(3) by (simp add: word_neq_0_conv)
  with assms show ?thesis
    using kputs_loop_sent [of io "sc_a1 args" "[0..<unat (sc_a2 args)]"]
    by (auto simp: soct_handle_uart_def Let_def kputs_def buffer_at_def SOCT_WRITE_def SOCT_READ_def)
qed

theorem uart_write_sends_crlf_witness:
  "\<exists>io'. soct_handle_uart demo_io SOCT_WRITE (demo_args 1 0x1000 2) = Some (handled 2, io') \<and>
     tx_writes io' = [0x68, 0x0D, 0x0A]"
  using uart_write_sends_crlf [of SOCT_STDOUT "demo_args 1 0x1000 2" demo_io]
  by (auto simp: demo_args_def SOCT_STDOUT_def demo_uart sent_def)

text \<open>
  Reading standard input. A read of \<open>n\<close> bytes to a non-null address waits for \<open>n\<close> valid
  characters, stores the low bytes of the receive register at consecutive addresses in the order of
  arrival, leaves all other memory and the transmitter alone, and returns \<open>n\<close>.
\<close>

theorem uart_read_stores:
  assumes "sc_a0 args = SOCT_STDIN" and "sc_a1 args \<noteq> 0" and "n = unat (sc_a2 args)"
    and "rx_room n io"
  shows "\<exists>io'. soct_handle_uart io SOCT_READ args = Some (handled (sc_a2 args), io') \<and>
    io_mem io' = store (sc_a1 args) (map (\<lambda>r. ucast (r AND 0xFF)) (take n (rx_reads io))) (io_mem io) \<and>
    rx_reads io' = drop n (rx_reads io) \<and> tx_writes io' = tx_writes io"
proof -
  have "n < 2 ^ 64" using unsigned_less [of "sc_a2 args"] assms(3) by simp
  from read_loop_stored [OF assms(4) this, of "sc_a1 args" 0] assms show ?thesis
    by (auto simp: soct_handle_uart_def Let_def SOCT_READ_def)
qed

theorem uart_read_stores_witness:
  "\<exists>io'. soct_handle_uart demo_io SOCT_READ (demo_args 0 0x2000 2) = Some (handled 2, io') \<and>
     io_mem io' 0x2000 = 0x61 \<and> io_mem io' 0x2001 = 0x62 \<and> io_mem io' 0x1000 = 0x68"
proof -
  obtain io' where "soct_handle_uart demo_io SOCT_READ (demo_args 0 0x2000 2) = Some (handled 2, io')"
      and m: "io_mem io' = store 0x2000 [0x61, 0x62] (io_mem demo_io)"
    using uart_read_stores [OF demo_read(1,2) refl, of demo_io] demo_uart(4)
    unfolding demo_read demo_uart(6) by auto
  moreover have "store 0x2000 [0x61, 0x62] (io_mem demo_io) 0x2000 = 0x61"
    "store 0x2000 [0x61, 0x62] (io_mem demo_io) 0x2001 = 0x62"
    "store 0x2000 [0x61, 0x62] (io_mem demo_io) 0x1000 = 0x68"
    by (simp_all add: store_def demo_uart_mem)
  ultimately show ?thesis by (intro exI [of _ io']) simp
qed

text \<open>
  A write of zero bytes is not empty: the handler sends the zero-terminated string at the
  buffer address instead, and still returns 0.
\<close>

theorem uart_write_zero_sends_string:
  assumes "sc_a0 args = SOCT_STDOUT" and "sc_a2 args = 0"
    and "\<forall>i<n. io_mem io (sc_a1 args + of_nat i) \<noteq> 0" and "io_mem io (sc_a1 args + of_nat n) = 0"
    and "tx_room (length (crlf (buffer_at (io_mem io) (sc_a1 args) n))) io"
  shows "\<exists>io'. soct_handle_uart io SOCT_WRITE args = Some (handled 0, io') \<and>
    sent (crlf (buffer_at (io_mem io) (sc_a1 args) n)) io io'"
  using kputs_string_sent [OF assms(3-5)] assms(1,2)
  by (auto simp: soct_handle_uart_def Let_def kputs_def SOCT_WRITE_def SOCT_READ_def)

theorem uart_write_zero_sends_string_witness:
  "\<exists>io'. soct_handle_uart demo_io SOCT_WRITE (demo_args 1 0x1000 0) = Some (handled 0, io') \<and>
     tx_writes io' = [0x68, 0x0D, 0x0A]"
proof -
  have "\<forall>i<2. io_mem demo_io (0x1000 + of_nat i) \<noteq> 0" "io_mem demo_io (0x1000 + of_nat 2) = 0"
    using demo_uart_mem by (auto dest!: less_2_cases)
  then show ?thesis
    using uart_write_zero_sends_string [of "demo_args 1 0x1000 0" 2 demo_io]
    by (auto simp: demo_args_def SOCT_STDOUT_def demo_uart sent_def)
qed

end
