(* ===== verification/Htif.thy ===== *)
theory Htif
  imports Uart
begin

text \<open>
  The host interface of \<open>shared/soctglue/src/syscall-htif.c\<close>: harts that call \<open>htif_syscall\<close>
  concurrently share the mailbox words \<open>tohost\<close> and \<open>fromhost\<close> under the spinlock of
  \<open>include/spinlock.h\<close>. The calls are a step relation over the state of the mailbox, the lock and
  the program counters of the harts, one step per access to shared memory; the host is an
  environment that takes a request word and later answers it. The two entry points that use the
  call are functions of the answer the host writes into the argument buffer.
\<close>

section \<open>Request words\<close>

definition SOCT_HTIF_CMD_SHIFT :: nat where "SOCT_HTIF_CMD_SHIFT = 48"
definition SOCT_HTIF_PAYLOAD_MASK :: u64 where
  "SOCT_HTIF_PAYLOAD_MASK = push_bit SOCT_HTIF_CMD_SHIFT 1 - 1"
definition SOCT_HTIF_DEV_TEST :: u64 where "SOCT_HTIF_DEV_TEST = 2012"

text \<open>
  The device and command fields are 32-bit \<open>int\<close> values shifted by 56 and 48, which C leaves
  undefined; the only call passes zero for both, where every compiler gives zero.
\<close>

definition htif_tohost :: "u8 \<Rightarrow> u8 \<Rightarrow> u64 \<Rightarrow> u64 option" where
  "htif_tohost dev cmd payload =
     (if dev = 0 \<and> cmd = 0 then Some (payload AND SOCT_HTIF_PAYLOAD_MASK) else None)"

section \<open>The concurrent call\<close>

text \<open>
  Where a hart is in \<open>htif_syscall\<close>: outside, in the load loop or before the swap of
  \<open>spin_lock\<close>, before the store to \<open>tohost\<close>, in the poll loop, before the clear of
  \<open>fromhost\<close>, before \<open>spin_unlock\<close> with the result to return, or returned.
\<close>

datatype htif_pc = Idle | Lock_load | Lock_swap | Store_tohost | Poll_fromhost | Clear_fromhost
  | Unlock bool | Returned bool

record htif_state =
  htif_lock :: u32
  tohost :: u64
  fromhost :: u64
  pcs :: "nat \<Rightarrow> htif_pc"
  host_req :: "u64 option"
  served :: "u64 list"

definition htif_init :: htif_state where
  "htif_init = \<lparr>htif_lock = 0, tohost = 0, fromhost = 0, pcs = (\<lambda>h. Idle), host_req = None, served = []\<rparr>"

definition set_pc :: "nat \<Rightarrow> htif_pc \<Rightarrow> htif_state \<Rightarrow> htif_state" where
  "set_pc h c s = s\<lparr>pcs := (pcs s)(h := c)\<rparr>"

text \<open>
  \<open>sc h\<close> is the request word of hart \<open>h\<close> and \<open>wait h\<close> its second argument. The last two rules
  are the host's.
\<close>

inductive htif_step :: "(nat \<Rightarrow> u64) \<Rightarrow> (nat \<Rightarrow> bool) \<Rightarrow> htif_state \<Rightarrow> htif_state \<Rightarrow> bool"
  for sc :: "nat \<Rightarrow> u64" and wait :: "nat \<Rightarrow> bool" where
  call: "pcs s h = Idle \<Longrightarrow> htif_step sc wait s (set_pc h Lock_load s)"
| load_free: "pcs s h = Lock_load \<Longrightarrow> htif_lock s = 0 \<Longrightarrow> htif_step sc wait s (set_pc h Lock_swap s)"
| swap_won: "pcs s h = Lock_swap \<Longrightarrow> htif_lock s = 0 \<Longrightarrow>
    htif_step sc wait s (set_pc h Store_tohost (s\<lparr>htif_lock := - 1\<rparr>))"
| swap_lost: "pcs s h = Lock_swap \<Longrightarrow> htif_lock s \<noteq> 0 \<Longrightarrow>
    htif_step sc wait s (set_pc h Lock_load (s\<lparr>htif_lock := - 1\<rparr>))"
| store: "pcs s h = Store_tohost \<Longrightarrow>
    htif_step sc wait s (set_pc h Poll_fromhost (s\<lparr>tohost := sc h\<rparr>))"
| poll_answer: "pcs s h = Poll_fromhost \<Longrightarrow> fromhost s \<noteq> 0 \<Longrightarrow>
    htif_step sc wait s (set_pc h Clear_fromhost s)"
| poll_timeout: "pcs s h = Poll_fromhost \<Longrightarrow> fromhost s = 0 \<Longrightarrow> \<not> wait h \<Longrightarrow>
    htif_step sc wait s (set_pc h (Unlock False) s)"
| clear: "pcs s h = Clear_fromhost \<Longrightarrow>
    htif_step sc wait s (set_pc h (Unlock True) (s\<lparr>fromhost := 0\<rparr>))"
| unlock: "pcs s h = Unlock r \<Longrightarrow>
    htif_step sc wait s (set_pc h (Returned r) (s\<lparr>htif_lock := 0\<rparr>))"
| return: "pcs s h = Returned r \<Longrightarrow> htif_step sc wait s (set_pc h Idle s)"
| host_take: "tohost s \<noteq> 0 \<Longrightarrow> host_req s = None \<Longrightarrow>
    htif_step sc wait s (s\<lparr>host_req := Some (tohost s), tohost := 0\<rparr>)"
| host_answer: "host_req s = Some q \<Longrightarrow> fromhost s = 0 \<Longrightarrow>
    htif_step sc wait s (s\<lparr>host_req := None, fromhost := 1, served := served s @ [q]\<rparr>)"

definition htif_reachable :: "(nat \<Rightarrow> u64) \<Rightarrow> (nat \<Rightarrow> bool) \<Rightarrow> htif_state \<Rightarrow> bool" where
  "htif_reachable sc wait s \<longleftrightarrow> (htif_step sc wait)\<^sup>*\<^sup>* htif_init s"

section \<open>The entry points\<close>

text \<open>
  The host side of one call: from the argument buffer to the buffer as the host left it, or
  \<open>None\<close> when the probe timed out.
\<close>

definition soct_htif_present :: "('s \<Rightarrow> u64 list \<Rightarrow> u64 list option \<times> 's) \<Rightarrow> 's \<Rightarrow> bool \<times> 's" where
  "soct_htif_present probe s =
     (case probe s [SOCT_HTIF_DEV_TEST, 0, 0, 0, 0, 0, 0, 0] of (r, s') \<Rightarrow> (r \<noteq> None, s'))"

definition soct_handle_htif :: "('s \<Rightarrow> u64 list \<Rightarrow> u64 list \<times> 's) \<Rightarrow> 's soct_handler_t" where
  "soct_handle_htif host s nr args =
     (let buf = [ucast nr, sc_a0 args, sc_a1 args, sc_a2 args, sc_a3 args, sc_a4 args, sc_a5 args, sc_a6 args]
      in case host s buf of (buf', s') \<Rightarrow> (handled (buf' ! 0), s'))"

section \<open>Invariants\<close>

text \<open>A hart between the successful swap and the release.\<close>

fun in_critical :: "htif_pc \<Rightarrow> bool" where
  "in_critical Store_tohost \<longleftrightarrow> True"
| "in_critical Poll_fromhost \<longleftrightarrow> True"
| "in_critical Clear_fromhost \<longleftrightarrow> True"
| "in_critical (Unlock r) \<longleftrightarrow> True"
| "in_critical _ \<longleftrightarrow> False"

definition critical :: "htif_state \<Rightarrow> nat set" where
  "critical s = {h. in_critical (pcs s h)}"

definition lock_inv :: "htif_state \<Rightarrow> bool" where
  "lock_inv s \<longleftrightarrow> (if htif_lock s = 0 then critical s = {} else \<exists>h. critical s = {h})"

text \<open>Where the request of hart \<open>h\<close> is while it polls: in the mailbox, with the host, or answered.\<close>

definition quiet :: "htif_state \<Rightarrow> bool" where
  "quiet s \<longleftrightarrow> tohost s = 0 \<and> host_req s = None \<and> fromhost s = 0"

definition answered :: "u64 \<Rightarrow> htif_state \<Rightarrow> bool" where
  "answered q s \<longleftrightarrow> tohost s = 0 \<and> host_req s = None \<and> fromhost s \<noteq> 0 \<and>
     served s \<noteq> [] \<and> last (served s) = q"

definition in_flight :: "u64 \<Rightarrow> htif_state \<Rightarrow> bool" where
  "in_flight q s \<longleftrightarrow> fromhost s = 0 \<and>
     (tohost s = q \<and> host_req s = None \<or> tohost s = 0 \<and> host_req s = Some q)"

fun mailbox_at :: "u64 \<Rightarrow> htif_state \<Rightarrow> htif_pc \<Rightarrow> bool" where
  "mailbox_at q s Poll_fromhost \<longleftrightarrow> in_flight q s \<or> answered q s"
| "mailbox_at q s Clear_fromhost \<longleftrightarrow> answered q s"
| "mailbox_at q s _ \<longleftrightarrow> quiet s"

text \<open>The mailbox belongs to the hart in the critical section, and is quiet when there is none.\<close>

definition mailbox_inv :: "(nat \<Rightarrow> u64) \<Rightarrow> htif_state \<Rightarrow> bool" where
  "mailbox_inv sc s \<longleftrightarrow>
     (critical s = {} \<longrightarrow> quiet s) \<and> (\<forall>h\<in>critical s. mailbox_at (sc h) s (pcs s h))"

section \<open>Lemmas\<close>

lemma set_pc_simps [simp]:
  "pcs (set_pc h c s) = (pcs s)(h := c)" "htif_lock (set_pc h c s) = htif_lock s"
  "tohost (set_pc h c s) = tohost s" "fromhost (set_pc h c s) = fromhost s"
  "host_req (set_pc h c s) = host_req s" "served (set_pc h c s) = served s"
  by (simp_all add: set_pc_def)

lemma critical_updates [simp]:
  "critical (s\<lparr>htif_lock := l\<rparr>) = critical s" "critical (s\<lparr>tohost := x\<rparr>) = critical s"
  "critical (s\<lparr>fromhost := y\<rparr>) = critical s" "critical (s\<lparr>host_req := q\<rparr>) = critical s"
  "critical (s\<lparr>served := l'\<rparr>) = critical s"
  by (simp_all add: critical_def)

lemma critical_set_pc [simp]:
  "critical (set_pc h c s) = (if in_critical c then insert h (critical s) else critical s - {h})"
  by (auto simp: critical_def)

lemma critical_pc: "in_critical (pcs s h) \<Longrightarrow> h \<in> critical s" "\<not> in_critical (pcs s h) \<Longrightarrow> h \<notin> critical s"
  by (simp_all add: critical_def)

text \<open>A step of a hart outside the critical section, and one inside it.\<close>

lemma lock_inv_outside:
  assumes "lock_inv s" and "\<not> in_critical (pcs s h)" and "\<not> in_critical c"
  shows "lock_inv (set_pc h c s)" and "htif_lock s \<noteq> 0 \<Longrightarrow> lock_inv (set_pc h c (s\<lparr>htif_lock := - 1\<rparr>))"
  using assms critical_pc(2) [OF assms(2)] by (auto simp: lock_inv_def)

lemma lock_inv_owner: "lock_inv s \<Longrightarrow> in_critical (pcs s h) \<Longrightarrow> critical s = {h} \<and> htif_lock s \<noteq> 0"
  using critical_pc(1) [of s h] by (auto simp: lock_inv_def split: if_splits)

lemma lock_inv_inside:
  assumes "lock_inv s" and "in_critical (pcs s h)" and "in_critical c"
  shows "lock_inv (set_pc h c s)"
  using lock_inv_owner [OF assms(1,2)] assms(3) by (simp add: lock_inv_def)

lemma lock_inv_mailbox [simp]:
  "lock_inv (s\<lparr>tohost := x\<rparr>) = lock_inv s" "lock_inv (s\<lparr>fromhost := x\<rparr>) = lock_inv s"
  "lock_inv (s\<lparr>host_req := r\<rparr>) = lock_inv s" "lock_inv (s\<lparr>served := q\<rparr>) = lock_inv s"
  by (simp_all add: lock_inv_def)

lemma lock_inv_step: "htif_step sc wait s s' \<Longrightarrow> lock_inv s \<Longrightarrow> lock_inv s'"
proof (induction rule: htif_step.induct)
  case (swap_won s h)
  then show ?case by (simp add: lock_inv_def)
next
  case (unlock s h r)
  then have "critical s = {h}" by (simp add: lock_inv_owner)
  then show ?case by (simp add: lock_inv_def)
qed (simp_all add: lock_inv_outside lock_inv_inside)

lemma lock_inv_init: "lock_inv htif_init"
  by (simp add: lock_inv_def htif_init_def critical_def)

lemma mailbox_at_cong [simp]:
  "mailbox_at q (set_pc h c s) c' = mailbox_at q s c'"
  "mailbox_at q (s\<lparr>htif_lock := l\<rparr>) c' = mailbox_at q s c'"
  by (cases c'; simp add: in_flight_def answered_def quiet_def)+

lemma mailbox_simps [simp]:
  "quiet (set_pc h c s) = quiet s" "quiet (s\<lparr>htif_lock := l\<rparr>) = quiet s"
  "answered q (set_pc h c s) = answered q s" "in_flight q (set_pc h c s) = in_flight q s"
  by (simp_all add: quiet_def answered_def in_flight_def)

text \<open>A step of a hart outside the critical section, and one of the hart inside it.\<close>

lemma mailbox_outside:
  assumes "mailbox_inv sc s" and "\<not> in_critical (pcs s h)" and "\<not> in_critical c"
  shows "mailbox_inv sc (set_pc h c (s\<lparr>htif_lock := l\<rparr>))" and "mailbox_inv sc (set_pc h c s)"
  using assms critical_pc(2) [OF assms(2)] by (auto simp: mailbox_inv_def)

lemma mailbox_inside:
  assumes "lock_inv s" and "in_critical (pcs s h)" and "critical s' = {h}" and "pcs s' h = c"
    and "mailbox_at (sc h) s' c"
  shows "mailbox_inv sc s'"
  using assms by (simp add: mailbox_inv_def)

lemma mailbox_inv_step:
  assumes "htif_step sc wait s s'" and "lock_inv s" and "mailbox_inv sc s"
    and "\<forall>h. wait h" and "\<forall>h. sc h \<noteq> 0"
  shows "mailbox_inv sc s'"
  using assms(1-3)
proof (induction rule: htif_step.induct)
  case (swap_won s h)
  then have "critical s = {}" by (simp add: lock_inv_def)
  with swap_won show ?case by (simp add: mailbox_inv_def quiet_def)
next
  case (store s h)
  have "critical s = {h}" using store by (simp add: lock_inv_owner)
  with store show ?case by (simp add: mailbox_inv_def in_flight_def quiet_def)
next
  case (poll_answer s h)
  have "critical s = {h}" using poll_answer by (simp add: lock_inv_owner)
  with poll_answer show ?case by (auto simp: mailbox_inv_def in_flight_def)
next
  case (clear s h)
  have "critical s = {h}" using clear by (simp add: lock_inv_owner)
  with clear show ?case by (simp add: mailbox_inv_def answered_def quiet_def)
next
  case (unlock s h r)
  have "critical s = {h}" using unlock by (simp add: lock_inv_owner)
  with unlock show ?case by (simp add: mailbox_inv_def)
next
  case (host_take s)
  show ?case
  proof (cases "critical s = {}")
    case True
    with host_take show ?thesis by (simp add: mailbox_inv_def quiet_def)
  next
    case False
    then obtain h where h: "critical s = {h}" using host_take.prems(1) by (auto simp: lock_inv_def split: if_splits)
    with host_take show ?thesis
      by (cases "pcs s h") (auto simp: mailbox_inv_def in_flight_def answered_def quiet_def)
  qed
next
  case (host_answer s q)
  show ?case
  proof (cases "critical s = {}")
    case True
    with host_answer show ?thesis by (simp add: mailbox_inv_def quiet_def)
  next
    case False
    then obtain h where h: "critical s = {h}" using host_answer.prems(1) by (auto simp: lock_inv_def split: if_splits)
    with host_answer show ?thesis
      by (cases "pcs s h") (auto simp: mailbox_inv_def in_flight_def answered_def quiet_def)
  qed
qed (use assms(4) in \<open>simp_all add: mailbox_outside\<close>)

lemma reachable_inv:
  assumes "htif_reachable sc wait s"
  shows "lock_inv s" and "(\<forall>h. wait h) \<Longrightarrow> (\<forall>h. sc h \<noteq> 0) \<Longrightarrow> mailbox_inv sc s"
proof -
  have "lock_inv s \<and> ((\<forall>h. wait h) \<longrightarrow> (\<forall>h. sc h \<noteq> 0) \<longrightarrow> mailbox_inv sc s)"
    using assms unfolding htif_reachable_def
  proof (induction rule: rtranclp_induct)
    case base
    show ?case using lock_inv_init by (simp add: mailbox_inv_def htif_init_def critical_def quiet_def)
  next
    case (step s s')
    then show ?case using lock_inv_step mailbox_inv_step by blast
  qed
  then show "lock_inv s" "(\<forall>h. wait h) \<Longrightarrow> (\<forall>h. sc h \<noteq> 0) \<Longrightarrow> mailbox_inv sc s" by auto
qed

lemma reachable_step: "htif_reachable sc wait s \<Longrightarrow> htif_step sc wait s s' \<Longrightarrow> htif_reachable sc wait s'"
  by (simp add: htif_reachable_def rtranclp.rtrancl_into_rtrancl)

text \<open>A hart that finds the lock free gets to the store, and the host answers a stored request.\<close>

lemma acquire_run:
  assumes "htif_reachable sc wait s" and "pcs s h = Idle" and "htif_lock s = 0"
  shows "htif_reachable sc wait (set_pc h Store_tohost (s\<lparr>htif_lock := - 1\<rparr>))"
proof -
  let ?s1 = "set_pc h Lock_load s" and ?s2 = "set_pc h Lock_swap s"
  have "htif_reachable sc wait ?s1" using assms call by (blast intro: reachable_step)
  moreover have "htif_step sc wait ?s1 ?s2"
    using load_free [of ?s1 h sc wait] assms(3) by (simp add: set_pc_def)
  moreover have "htif_step sc wait ?s2 (set_pc h Store_tohost (s\<lparr>htif_lock := - 1\<rparr>))"
    using swap_won [of ?s2 h sc wait] assms(3) by (simp add: set_pc_def)
  ultimately show ?thesis by (blast intro: reachable_step)
qed

lemma answer_run:
  assumes "htif_reachable sc wait s" and "pcs s h = Poll_fromhost" and "fromhost s = 0"
    and "host_req s = Some q"
  shows "htif_reachable sc wait
    (set_pc h Clear_fromhost (s\<lparr>host_req := None, fromhost := 1, served := served s @ [q]\<rparr>))"
  using reachable_step [OF reachable_step [OF assms(1) host_answer [OF assms(4,3)]]] assms(2)
    poll_answer [of "s\<lparr>host_req := None, fromhost := 1, served := served s @ [q]\<rparr>" h sc wait]
  by simp

text \<open>
  How far the hart in the critical section is from its release: every one of its waits is for a step
  the host or the hart itself can take.
\<close>

definition htif_rank :: "nat \<Rightarrow> htif_state \<Rightarrow> nat" where
  "htif_rank h s =
     (case pcs s h of
        Store_tohost \<Rightarrow> 6
      | Poll_fromhost \<Rightarrow> 3 + (if tohost s \<noteq> 0 then 2 else if host_req s \<noteq> None then 1 else 0)
      | Clear_fromhost \<Rightarrow> 2
      | Unlock r \<Rightarrow> 1
      | _ \<Rightarrow> 0)"

definition others_kept :: "nat \<Rightarrow> htif_state \<Rightarrow> htif_state \<Rightarrow> bool" where
  "others_kept h s s' \<longleftrightarrow> (\<forall>k. k \<noteq> h \<longrightarrow> pcs s' k = pcs s k)"

definition released :: "nat \<Rightarrow> htif_state \<Rightarrow> bool" where
  "released h s \<longleftrightarrow> htif_lock s = 0 \<and> (\<exists>r. pcs s h = Returned r)"

lemma others_kept_trans: "others_kept h s s' \<Longrightarrow> others_kept h s' s'' \<Longrightarrow> others_kept h s s''"
  by (simp add: others_kept_def)

lemma reachable_steps:
  "htif_reachable sc wait s \<Longrightarrow> (htif_step sc wait)\<^sup>*\<^sup>* s s' \<Longrightarrow> htif_reachable sc wait s'"
  by (simp add: htif_reachable_def)

lemma critical_progress:
  assumes "in_critical (pcs s h)" and "mailbox_inv sc s" and "sc h \<noteq> 0"
  shows "\<exists>s'. htif_step sc wait s s' \<and> others_kept h s s' \<and>
    (released h s' \<or> in_critical (pcs s' h) \<and> htif_rank h s' < htif_rank h s)"
proof -
  have m: "mailbox_at (sc h) s (pcs s h)" using assms(1,2) critical_pc(1) by (auto simp: mailbox_inv_def)
  show ?thesis
  proof (cases "pcs s h")
    case Store_tohost
    then show ?thesis
      by (intro exI conjI, rule store) (simp_all add: others_kept_def htif_rank_def)
  next
    case Poll_fromhost
    consider "fromhost s \<noteq> 0" | "tohost s \<noteq> 0" "host_req s = None"
      | "fromhost s = 0" "tohost s = 0" "host_req s = Some (sc h)"
      using m assms(3) Poll_fromhost by (auto simp: in_flight_def answered_def)
    then show ?thesis
    proof cases
      case 1
      with Poll_fromhost show ?thesis
        by (intro exI [of _ "set_pc h Clear_fromhost s"]) (simp add: poll_answer others_kept_def htif_rank_def)
    next
      case 2
      with Poll_fromhost show ?thesis
        by (intro exI [of _ "s\<lparr>host_req := Some (tohost s), tohost := 0\<rparr>"])
          (simp add: host_take others_kept_def htif_rank_def)
    next
      case 3
      with Poll_fromhost show ?thesis
        by (intro exI [of _ "s\<lparr>host_req := None, fromhost := 1, served := served s @ [sc h]\<rparr>"])
          (simp add: host_answer others_kept_def htif_rank_def)
    qed
  next
    case Clear_fromhost
    then show ?thesis
      by (intro exI conjI, rule clear) (simp_all add: others_kept_def htif_rank_def)
  next
    case (Unlock r)
    then show ?thesis
      by (intro exI conjI, rule unlock) (simp_all add: others_kept_def released_def)
  qed (use assms(1) in simp_all)
qed

lemma critical_finishes:
  assumes "htif_reachable sc wait s" and "in_critical (pcs s h)" and w: "\<forall>h. wait h" "\<forall>h. sc h \<noteq> 0"
  shows "\<exists>s'. (htif_step sc wait)\<^sup>*\<^sup>* s s' \<and> others_kept h s s' \<and> released h s'"
  using assms(1,2)
proof (induction "htif_rank h s" arbitrary: s rule: less_induct)
  case less
  obtain s' where s': "htif_step sc wait s s'" "others_kept h s s'"
    "released h s' \<or> in_critical (pcs s' h) \<and> htif_rank h s' < htif_rank h s"
    using critical_progress [OF less.prems(2) reachable_inv(2) [OF less.prems(1) w]] w(2) by blast
  show ?case
  proof (cases "released h s'")
    case True
    with s' show ?thesis by blast
  next
    case False
    with s' less.hyps [of s'] reachable_step [OF less.prems(1) s'(1)]
    obtain s'' where "(htif_step sc wait)\<^sup>*\<^sup>* s' s''" "others_kept h s' s''" "released h s''" by blast
    with s' show ?thesis by (blast intro: converse_rtranclp_into_rtranclp others_kept_trans)
  qed
qed

text \<open>Another hart's release leaves a waiting hart where it is, with the lock free.\<close>

lemma lock_becomes_free:
  assumes "htif_reachable sc wait s" and w: "\<forall>h. wait h" "\<forall>h. sc h \<noteq> 0" and "\<not> in_critical (pcs s h)"
  shows "\<exists>s'. (htif_step sc wait)\<^sup>*\<^sup>* s s' \<and> htif_lock s' = 0 \<and> pcs s' h = pcs s h"
proof (cases "htif_lock s = 0")
  case False
  then obtain k where "critical s = {k}" using reachable_inv(1) [OF assms(1)] by (auto simp: lock_inv_def)
  then have "in_critical (pcs s k)" by (auto simp: critical_def)
  with critical_finishes [OF assms(1) this w] assms(4) show ?thesis
    by (metis others_kept_def released_def)
qed blast

lemma free_lock_taken:
  assumes "htif_lock s = 0" and "pcs s h = Lock_load \<or> pcs s h = Lock_swap"
  shows "\<exists>s'. (htif_step sc wait)\<^sup>*\<^sup>* s s' \<and> pcs s' h = Store_tohost"
proof -
  let ?s = "set_pc h Lock_swap s"
  have "(htif_step sc wait)\<^sup>*\<^sup>* s ?s"
  proof (cases "pcs s h = Lock_swap")
    case True
    then have "?s = s" by (simp add: set_pc_def fun_upd_idem)
    then show ?thesis by simp
  next
    case False
    with assms load_free [of s h sc wait] show ?thesis by auto
  qed
  moreover have "htif_step sc wait ?s (set_pc h Store_tohost (?s\<lparr>htif_lock := - 1\<rparr>))"
    by (rule swap_won) (simp_all add: assms)
  ultimately have "(htif_step sc wait)\<^sup>*\<^sup>* s (set_pc h Store_tohost (?s\<lparr>htif_lock := - 1\<rparr>))" by simp
  then show ?thesis by (intro exI) auto
qed

section \<open>Properties\<close>

text \<open>
  C11. Mutual exclusion: in every reachable state at most one hart is between the swap that takes
  the lock and its release, and the lock word is non-zero exactly when there is one, whether or not
  calls time out.
\<close>

theorem htif_mutual_exclusion:
  assumes "htif_reachable sc wait s"
  shows "(\<forall>h k. in_critical (pcs s h) \<longrightarrow> in_critical (pcs s k) \<longrightarrow> h = k) \<and>
    (htif_lock s \<noteq> 0 \<longleftrightarrow> (\<exists>h. in_critical (pcs s h)))"
  using reachable_inv(1) [OF assms] by (auto simp: lock_inv_def critical_def set_eq_iff split: if_splits)

theorem htif_mutual_exclusion_witness:
  "let s = set_pc 3 Store_tohost (htif_init\<lparr>htif_lock := - 1\<rparr>)
   in htif_reachable (\<lambda>h. 1) (\<lambda>h. True) s \<and> htif_lock s \<noteq> 0 \<and> \<not> in_critical (pcs s 4)"
proof -
  have "htif_reachable (\<lambda>h. 1) (\<lambda>h. True) (set_pc 3 Store_tohost (htif_init\<lparr>htif_lock := - 1\<rparr>))"
    by (rule acquire_run) (simp_all add: htif_reachable_def htif_init_def)
  moreover from htif_mutual_exclusion [OF this] have "\<not> in_critical (pcs (set_pc 3 Store_tohost (htif_init\<lparr>htif_lock := - 1\<rparr>)) 4)"
    by (elim conjE allE [of _ 4] allE [of _ 3]) simp
  ultimately show ?thesis by (simp add: Let_def)
qed

text \<open>
  C34. Every answer goes to its request: when all calls wait and all request words are non-zero, a
  hart that leaves the poll loop with an answer finds that the last request the host served is its
  own, and no request is left in the mailbox.
\<close>

theorem htif_answer_is_own:
  assumes "htif_reachable sc wait s" and "\<forall>h. wait h" and "\<forall>h. sc h \<noteq> 0"
    and "pcs s h = Clear_fromhost"
  shows "served s \<noteq> [] \<and> last (served s) = sc h \<and> tohost s = 0 \<and> host_req s = None"
proof -
  have "h \<in> critical s" using assms(4) by (simp add: critical_def)
  then show ?thesis
    using reachable_inv(2) [OF assms(1-3)] assms(4) by (auto simp: mailbox_inv_def answered_def)
qed

theorem htif_answer_is_own_witness:
  "\<exists>s. htif_reachable (\<lambda>h. 5) (\<lambda>h. True) s \<and> pcs s 0 = Clear_fromhost \<and> last (served s) = 5"
proof -
  let ?s1 = "set_pc 0 Store_tohost (htif_init\<lparr>htif_lock := - 1\<rparr>)"
  let ?s2 = "set_pc 0 Poll_fromhost (?s1\<lparr>tohost := 5\<rparr>)"
  let ?s3 = "?s2\<lparr>host_req := Some (tohost ?s2), tohost := 0\<rparr>"
  let ?s4 = "set_pc 0 Clear_fromhost (?s3\<lparr>host_req := None, fromhost := 1, served := served ?s3 @ [5]\<rparr>)"
  have "htif_reachable (\<lambda>h. 5) (\<lambda>h. True) ?s1"
    by (rule acquire_run) (simp_all add: htif_reachable_def htif_init_def)
  then have "htif_reachable (\<lambda>h. 5) (\<lambda>h. True) ?s2"
    by (rule reachable_step) (use store [of ?s1 0 "\<lambda>h. 5"] in simp)
  then have "htif_reachable (\<lambda>h. 5) (\<lambda>h. True) ?s3"
    by (rule reachable_step) (rule host_take; simp add: htif_init_def)
  then have r: "htif_reachable (\<lambda>h. 5) (\<lambda>h. True) ?s4"
    by (rule answer_run) (simp_all add: htif_init_def)
  from htif_answer_is_own [OF r, of 0] r show ?thesis
    by (intro exI [of _ ?s4]) simp
qed

text \<open>
  C31. No call is stuck: when all calls wait and all request words are non-zero, every hart inside
  \<open>htif_syscall\<close>, in whatever reachable state and whoever holds the lock, can still return; its steps
  wait for nothing but steps the host and the other harts are able to take.
\<close>

theorem htif_call_can_return:
  assumes "htif_reachable sc wait s" and w: "\<forall>h. wait h" "\<forall>h. sc h \<noteq> 0" and "pcs s h \<noteq> Idle"
  shows "\<exists>s' r. (htif_step sc wait)\<^sup>*\<^sup>* s s' \<and> pcs s' h = Returned r"
proof -
  have crit: "\<exists>s' r. (htif_step sc wait)\<^sup>*\<^sup>* t s' \<and> pcs s' h = Returned r"
    if "htif_reachable sc wait t" "in_critical (pcs t h)" for t
    using critical_finishes [OF that w] by (auto simp: released_def)
  consider "in_critical (pcs s h)" | r where "pcs s h = Returned r"
    | "pcs s h = Lock_load \<or> pcs s h = Lock_swap"
    using assms(4) by (cases "pcs s h") auto
  then show ?thesis
  proof cases
    case 3
    then obtain t where t: "(htif_step sc wait)\<^sup>*\<^sup>* s t" "htif_lock t = 0" "pcs t h = pcs s h"
      using lock_becomes_free [OF assms(1) w, of h] by auto
    with 3 obtain u where u: "(htif_step sc wait)\<^sup>*\<^sup>* t u" "pcs u h = Store_tohost"
      using free_lock_taken [of t h sc wait] by auto
    with crit [of u] reachable_steps [OF reachable_steps [OF assms(1) t(1)] u(1)] t(1)
    show ?thesis by (metis in_critical.simps(1) rtranclp_trans)
  qed (use crit assms(1) in blast)+
qed

theorem htif_call_can_return_witness:
  "let s = set_pc 3 Store_tohost (htif_init\<lparr>htif_lock := - 1\<rparr>)
   in \<exists>s' r. (htif_step (\<lambda>h. 1) (\<lambda>h. True))\<^sup>*\<^sup>* s s' \<and> pcs s' 3 = Returned r"
proof -
  have "htif_reachable (\<lambda>h. 1) (\<lambda>h. True) (set_pc 3 Store_tohost (htif_init\<lparr>htif_lock := - 1\<rparr>))"
    by (rule acquire_run) (simp_all add: htif_reachable_def htif_init_def)
  from htif_call_can_return [OF this, of 3] show ?thesis by (simp add: Let_def)
qed

text \<open>
  A timed-out call leaves its request behind: if hart 0 gives up (its call does not wait), the
  next caller can leave the poll loop with the host's answer to the abandoned request instead of an
  answer to its own.
\<close>

theorem htif_timeout_misdelivers:
  assumes "sc 0 \<noteq> 0" and "\<not> wait 0"
  shows "\<exists>s. htif_reachable sc wait s \<and> pcs s 1 = Clear_fromhost \<and> last (served s) = sc 0 \<and>
    tohost s = sc 1"
proof -
  let ?s1 = "set_pc 0 Store_tohost (htif_init\<lparr>htif_lock := - 1\<rparr>)"
  let ?s2 = "set_pc 0 Poll_fromhost (?s1\<lparr>tohost := sc 0\<rparr>)"
  let ?s3 = "set_pc 0 (Unlock False) ?s2"
  let ?s4 = "set_pc 0 (Returned False) (?s3\<lparr>htif_lock := 0\<rparr>)"
  let ?s5 = "set_pc 1 Store_tohost (?s4\<lparr>htif_lock := - 1\<rparr>)"
  let ?s6 = "?s5\<lparr>host_req := Some (tohost ?s5), tohost := 0\<rparr>"
  let ?s7 = "set_pc 1 Poll_fromhost (?s6\<lparr>tohost := sc 1\<rparr>)"
  have "htif_reachable sc wait ?s1"
    by (rule acquire_run) (simp_all add: htif_reachable_def htif_init_def)
  then have "htif_reachable sc wait ?s2"
    by (rule reachable_step) (rule store; simp)
  then have "htif_reachable sc wait ?s3"
    by (rule reachable_step) (rule poll_timeout; simp add: assms htif_init_def)
  then have "htif_reachable sc wait ?s4"
    by (rule reachable_step) (rule unlock; simp)
  then have "htif_reachable sc wait ?s5"
    by (rule acquire_run) (simp_all add: htif_init_def)
  then have "htif_reachable sc wait ?s6"
    by (rule reachable_step) (rule host_take; simp add: assms htif_init_def)
  then have "htif_reachable sc wait ?s7"
    by (rule reachable_step) (rule store; simp)
  then have "htif_reachable sc wait
      (set_pc 1 Clear_fromhost (?s7\<lparr>host_req := None, fromhost := 1, served := served ?s7 @ [sc 0]\<rparr>))"
    by (rule answer_run) (simp_all add: htif_init_def)
  then show ?thesis by (intro exI conjI) (assumption, simp_all)
qed

theorem htif_timeout_misdelivers_witness:
  "\<exists>s. htif_reachable (\<lambda>h. of_nat h + 7) (\<lambda>h. h \<noteq> 0) s \<and> pcs s 1 = Clear_fromhost \<and>
     last (served s) = 7 \<and> tohost s = 8"
  using htif_timeout_misdelivers [of "\<lambda>h. of_nat h + 7" "\<lambda>h. h \<noteq> 0"] by simp

end
