(* ===== verification/Soctglue.thy ===== *)
theory Soctglue
  imports Bump_Alloc Device_Tree Htif
begin

text \<open>
  The start-up code of \<open>shared/soctglue/src/soctglue.c\<close>: the static buffer the device tree is
  parsed into, the setup log, the UART base address from the tree (\<open>syscall-uart.c\<close>), the start
  of the primary hart, and the two queries of the tree the heap depends on, \<open>soct_ram_end\<close> and
  \<open>soct_n_harts\<close>.
\<close>

section \<open>Data\<close>

definition SOCT_DTB_MAX_SIZE :: u64 where "SOCT_DTB_MAX_SIZE = 0x10000"
definition SOCT_N_SETUP_MSGS :: nat where "SOCT_N_SETUP_MSGS = 16"
definition SOCT_GET_MAINVARS :: u32 where "SOCT_GET_MAINVARS = 2011"

definition SOCT_UART_NAME_DTS :: string where "SOCT_UART_NAME_DTS = ''riscv,axi-uart-1.0''"
definition SOCT_HTIF_NAME_DTS :: string where "SOCT_HTIF_NAME_DTS = ''ucb,htif0''"

text \<open>
  A log entry: a literal, or a literal with the number formatted into it. The wording of the literals
  is the code's, without the words in quotation marks.
\<close>

datatype setup_msg = Text string | With_addr string u64 | Welcome int u64 | Out_of_slots

text \<open>What the callbacks of the tree parser act on.\<close>

record glue_host =
  s_dtb_parsed_len :: u64
  s_setup_msgs :: "setup_msg list"

record 's glue =
  g_dtb :: "glue_host dtb_state"
  s_dtb_ready :: bool
  s_uart_base :: u64
  ram_end_cached :: u64
  g_table :: "'s handler_table"
  g_machine :: 's
  g_errno :: u32
  s_args :: "u64 list"
  s_argc :: u32
  g_console :: "setup_msg list"
  boot_sync :: int

section \<open>The tree buffer and the setup log\<close>

text \<open>The result is an offset into \<open>s_dtb_tree\<close>.\<close>

definition dtb_malloc :: "u64 \<Rightarrow> glue_host \<Rightarrow> u64 option \<times> glue_host" where
  "dtb_malloc len h =
     (if s_dtb_parsed_len h + len > SOCT_DTB_MAX_SIZE then (None, h)
      else (Some (s_dtb_parsed_len h), h\<lparr>s_dtb_parsed_len := s_dtb_parsed_len h + len\<rparr>))"

definition dtb_free :: "u64 \<Rightarrow> glue_host \<Rightarrow> glue_host" where
  "dtb_free len h = h\<lparr>s_dtb_parsed_len := s_dtb_parsed_len h - len\<rparr>"

definition soct_add_setup_msg :: "setup_msg \<Rightarrow> glue_host \<Rightarrow> glue_host" where
  "soct_add_setup_msg msg h =
     (let n = length (s_setup_msgs h)
      in if n \<ge> SOCT_N_SETUP_MSGS then h
         else if n = SOCT_N_SETUP_MSGS - 1 then h\<lparr>s_setup_msgs := s_setup_msgs h @ [Out_of_slots]\<rparr>
         else h\<lparr>s_setup_msgs := s_setup_msgs h @ [msg]\<rparr>)"

definition glue_ops :: "glue_host dtb_ops" where
  "glue_ops = \<lparr>
     op_malloc = Some (\<lambda>n h. case dtb_malloc (of_nat n) h of (p, h') \<Rightarrow> (map_option unat p, h')),
     op_free = Some (\<lambda>p n h. dtb_free (of_nat n) h),
     op_on_error = Some (\<lambda>m h. soct_add_setup_msg (Text m) h)\<rparr>"

definition add_msg :: "setup_msg \<Rightarrow> 's glue \<Rightarrow> 's glue" where
  "add_msg m g = g\<lparr>g_dtb := (g_dtb g)\<lparr>st_host := soct_add_setup_msg m (st_host (g_dtb g))\<rparr>\<rparr>"

section \<open>The UART node\<close>

text \<open>
  \<open>dtb_read_prop_1\<close> stores every value into \<open>regs[16]\<close>; more than 16 values overrun the array,
  which has no result here.
\<close>

definition soct_init_from_dtb_uart :: "u64 \<Rightarrow> blob \<Rightarrow> 's glue \<Rightarrow> (bool \<times> 's glue) option" where
  "soct_init_from_dtb_uart default_addr b g = do {
     node \<leftarrow> dtb_find_compatible b (g_dtb g) None (cstring SOCT_UART_NAME_DTS);
     case node of
       None \<Rightarrow> Some (False, add_msg (With_addr ''No UART node found in DTB - falling back to default address'' default_addr) g)
     | Some n \<Rightarrow> do {
         reg_prop \<leftarrow> dtb_find_prop b (g_dtb g) (Some n) (cstring ''reg'');
         case reg_prop of
           None \<Rightarrow> Some (False, add_msg (With_addr ''UART node found in DTB but has no reg property - falling back to default address'' default_addr) g)
         | Some p \<Rightarrow> do {
             pr \<leftarrow> prop_at (g_dtb g) p;
             addr_cells \<leftarrow> dtb_get_addr_cells_for b (g_dtb g) (Some n);
             regs \<leftarrow> dtb_read_prop_1 b (Some pr) addr_cells;
             if length regs > 16 then None
             else if length regs > 1
             then Some (True, add_msg (With_addr ''UART node found in DTB with base address'' (hd regs))
                          (g\<lparr>s_uart_base := hd regs\<rparr>))
             else Some (False, add_msg (With_addr ''UART node found in DTB but failed to read base address - falling back to default address'' default_addr) g) } } }"

section \<open>Queries for the heap\<close>

text \<open>\<open>strcmp(s, lit) == 0\<close>\<close>

fun strcmp_eq :: "cstr \<Rightarrow> cstr \<Rightarrow> bool option" where
  "strcmp_eq (x # xs) (y # ys) =
     (if x \<noteq> y then Some False else if x = 0 then Some True else strcmp_eq xs ys)"
| "strcmp_eq _ _ = None"

definition device_type_is :: "blob \<Rightarrow> 'h dtb_state \<Rightarrow> nat \<Rightarrow> string \<Rightarrow> bool option" where
  "device_type_is b st n lit = do {
     dtype \<leftarrow> dtb_find_prop b st (Some n) (cstring ''device_type'');
     case dtype of
       None \<Rightarrow> Some False
     | Some p \<Rightarrow> do {
         pr \<leftarrow> prop_at st p;
         val \<leftarrow> dtb_read_prop_string b (Some pr) 0;
         case val of None \<Rightarrow> Some False | Some a \<Rightarrow> strcmp_eq (drop a b) (cstring lit) } }"

fun pair_scan :: "u64 \<Rightarrow> (u64 \<times> u64) list \<Rightarrow> u64 option" where
  "pair_scan here [] = None"
| "pair_scan here ((base, len) # ps) =
     (if here \<ge> base \<and> here < base + len then Some (base + len) else pair_scan here ps)"

text \<open>
  The pairs of one memory node. \<open>pairs\<close> is clamped to the eight elements of \<open>vals\<close>, but
  \<open>dtb_read_prop_2\<close> stores all of them: more than eight overrun the array.
\<close>

definition memory_range :: "blob \<Rightarrow> 'h dtb_state \<Rightarrow> u64 \<Rightarrow> nat \<Rightarrow> u64 option option" where
  "memory_range b st here n = do {
     mem \<leftarrow> device_type_is b st n ''memory'';
     if \<not> mem then Some None
     else do {
       reg \<leftarrow> dtb_find_prop b st (Some n) (cstring ''reg'');
       case reg of
         None \<Rightarrow> Some None
       | Some p \<Rightarrow> do {
           pr \<leftarrow> prop_at st p;
           ac \<leftarrow> dtb_get_addr_cells_for b st (Some n);
           sc \<leftarrow> dtb_get_size_cells_for b st (Some n);
           pairs \<leftarrow> dtb_count_prop_2 b (Some pr) (ac, sc);
           vals \<leftarrow> dtb_read_prop_2 b (Some pr) (ac, sc);
           if length vals > 8 then None
           else Some (pair_scan here (take (min pairs 8) vals)) } } }"

partial_function (option) ram_end_loop ::
    "blob \<Rightarrow> 'h dtb_state \<Rightarrow> u64 \<Rightarrow> nat option \<Rightarrow> u64 option" where
  "ram_end_loop b st here scan =
     (case scan of
        None \<Rightarrow> Some 0
      | Some n \<Rightarrow> do {
          found \<leftarrow> memory_range b st here n;
          case found of
            Some e \<Rightarrow> Some e
          | None \<Rightarrow> do { next \<leftarrow> dtb_get_sibling st (Some n); ram_end_loop b st here next } })"

declare ram_end_loop.simps [code]

definition soct_ram_end :: "u64 \<Rightarrow> blob \<Rightarrow> 's glue \<Rightarrow> (u64 \<times> 's glue) option" where
  "soct_ram_end here b g =
     (if ram_end_cached g \<noteq> 0 \<or> \<not> s_dtb_ready g then Some (ram_end_cached g, g)
      else do {
        root \<leftarrow> dtb_find b (g_dtb g) (cstring ''/'');
        case root of
          None \<Rightarrow> Some (0, g)
        | Some r \<Rightarrow> do {
            child \<leftarrow> dtb_get_child (g_dtb g) (Some r);
            e \<leftarrow> ram_end_loop b (g_dtb g) here child;
            Some (e, g\<lparr>ram_end_cached := e\<rparr>) } })"

partial_function (option) count_cpus ::
    "blob \<Rightarrow> 'h dtb_state \<Rightarrow> nat option \<Rightarrow> nat \<Rightarrow> nat option" where
  "count_cpus b st child k =
     (case child of
        None \<Rightarrow> Some k
      | Some n \<Rightarrow> do {
          cpu \<leftarrow> device_type_is b st n ''cpu'';
          next \<leftarrow> dtb_get_sibling st (Some n);
          count_cpus b st next (if cpu then k + 1 else k) })"

declare count_cpus.simps [code]

definition soct_n_harts :: "blob \<Rightarrow> 'h dtb_state \<Rightarrow> int option" where
  "soct_n_harts b st = do {
     cpus \<leftarrow> dtb_find b st (cstring ''/cpus'');
     case cpus of
       None \<Rightarrow> Some 1
     | Some c \<Rightarrow> do {
         child \<leftarrow> dtb_get_child st (Some c);
         k \<leftarrow> count_cpus b st child 0;
         Some (if k > 0 then int k else - 1) } }"

section \<open>Start of the primary hart\<close>

definition opt_run :: "'a option \<Rightarrow> 'a run" where
  "opt_run x = (case x of None \<Rightarrow> Fault | Some v \<Rightarrow> Ret v)"

definition bind_run :: "'a run \<Rightarrow> ('a \<Rightarrow> 'b run) \<Rightarrow> 'b run" where
  "bind_run r f = (case r of Ret v \<Rightarrow> f v | Fault \<Rightarrow> Fault | Out_of_fuel \<Rightarrow> Out_of_fuel)"

definition register_default :: "'s soct_handler_t \<Rightarrow> 's glue \<Rightarrow> 's glue" where
  "register_default h g = g\<lparr>g_table := snd (soct_register_default_handler h (g_table g))\<rparr>"

text \<open>
  The HTIF part of \<open>_soct_start_main\<close>: probe when the tree names the device or there is no tree,
  register the handler, and ask it for the program's arguments.
\<close>

definition start_htif :: "bool \<Rightarrow> ('s \<Rightarrow> u64 list \<Rightarrow> u64 list option \<times> 's) \<Rightarrow> 's soct_handler_t \<Rightarrow>
    ('s \<Rightarrow> u64 list) \<Rightarrow> sc_args \<Rightarrow> 's glue \<Rightarrow> 's glue option" where
  "start_htif htif_in_dtb probe htif_handler read_args args g =
     (if htif_in_dtb \<or> \<not> s_dtb_ready g then
        case soct_htif_present probe (g_machine g) of
          (False, m) \<Rightarrow> Some (g\<lparr>g_machine := m\<rparr>)
        | (True, m) \<Rightarrow>
            let g = register_default htif_handler
                      (add_msg (Text ''HTIF device detected, registering handler'') (g\<lparr>g_machine := m\<rparr>))
            in do {
              (ret, e, m) \<leftarrow> soct_syscall (g_table g) SOCT_GET_MAINVARS args (g_errno g) (g_machine g);
              let g = g\<lparr>g_machine := m, g_errno := e, s_args := read_args m\<rparr>;
              if ret \<noteq> 0
              then Some (add_msg (With_addr ''Failed to get main vars from HTIF syscall, ret code'' ret) g)
              else Some (add_msg (Text ''Successfully retrieved main vars from HTIF syscall'')
                           (g\<lparr>s_argc := ucast (hd (read_args m))\<rparr>)) }
      else Some g)"

text \<open>
  \<open>_soct_start_main\<close> up to the call of \<open>main\<close>. The file system start-up \<open>init_soct_ff\<close>, the UART
  handler as it is registered, the HTIF probe and handler, and the memory behind \<open>s_args\<close> are
  parameters; \<open>b\<close> is the memory at \<open>dtb_blob\<close>.
\<close>

definition soct_start_main :: "nat \<Rightarrow> u64 \<Rightarrow> int \<Rightarrow> u64 \<Rightarrow> blob \<Rightarrow> 's soct_handler_t \<Rightarrow>
    ('s glue \<Rightarrow> 's glue) \<Rightarrow> ('s \<Rightarrow> u64 list \<Rightarrow> u64 list option \<times> 's) \<Rightarrow> 's soct_handler_t \<Rightarrow>
    ('s \<Rightarrow> u64 list) \<Rightarrow> sc_args \<Rightarrow> 's glue \<Rightarrow> 's glue run" where
  "soct_start_main fuel default_addr hartid dtb_blob b uart_handler init_soct_ff probe htif_handler
       read_args args g0 =
     (let g = add_msg (Welcome hartid dtb_blob) g0
      in bind_run (dtb_init fuel (if dtb_blob = 0 then None else Some b) glue_ops (g_dtb g)) (\<lambda>(ready, st).
         let g = g\<lparr>g_dtb := st, s_dtb_ready := ready\<rparr>
         in bind_run (opt_run (soct_init_from_dtb_uart default_addr b g)) (\<lambda>(have_uart, g).
            let g = init_soct_ff
                      (if have_uart \<or> \<not> s_dtb_ready g then register_default uart_handler g else g)
            in bind_run (opt_run (if s_dtb_ready g
                          then dtb_find_compatible b (g_dtb g) None (cstring SOCT_HTIF_NAME_DTS)
                          else Some None)) (\<lambda>node.
               let htif_in_dtb = (node \<noteq> None);
                   g = (if s_dtb_ready g \<and> \<not> htif_in_dtb
                        then add_msg (Text ''HTIF not described in the DTB - not probing for fesvr'') g
                        else g)
               in bind_run (opt_run (start_htif htif_in_dtb probe htif_handler read_args args g)) (\<lambda>g.
                  let g = add_msg (Text ''Initialization complete, entering main'') g
                  in Ret (g\<lparr>g_console := g_console g @ s_setup_msgs (st_host (g_dtb g)),
                           boot_sync := - 1\<rparr>))))))"

text \<open>A secondary hart leaves its wait loop with the first non-zero read of \<open>__boot_sync\<close>.\<close>

definition soct_start_secondary :: "int list \<Rightarrow> (int \<times> int list) option" where
  "soct_start_secondary reads = poll (\<lambda>v. v \<noteq> 0) reads"

section \<open>Specification\<close>

fun item_list :: "ditem list \<Rightarrow> (u8 list \<times> u8 list) list" where
  "item_list [] = []"
| "item_list (DProp nm d # is) = (nm, d) # item_list is"
| "item_list (DChild t # is) = item_list is"
| "item_list (DNop # is) = item_list is"

fun subtrees :: "ditem list \<Rightarrow> dtree list" where
  "subtrees [] = []"
| "subtrees (DProp nm d # is) = subtrees is"
| "subtrees (DChild t # is) = t # subtrees is"
| "subtrees (DNop # is) = subtrees is"

definition tree_prop :: "string \<Rightarrow> dtree \<Rightarrow> u8 list option" where
  "tree_prop lit t = map_option snd (find (\<lambda>(nm, _). nm = map of_char lit) (rev (item_list (titems t))))"

text \<open>A string property: not empty, zero-terminated, and short enough for its scan length.\<close>

definition string_data :: "u8 list \<Rightarrow> bool" where
  "string_data d \<longleftrightarrow> d \<noteq> [] \<and> hd d \<noteq> 0 \<and> 0 \<in> set d \<and> length d < 2 ^ 30"

definition typed :: "dtree \<Rightarrow> bool" where
  "typed t \<longleftrightarrow> (case tree_prop ''device_type'' t of None \<Rightarrow> True | Some d \<Rightarrow> string_data d)"

definition has_type :: "string \<Rightarrow> dtree \<Rightarrow> bool" where
  "has_type lit t \<longleftrightarrow>
     (case tree_prop ''device_type'' t of None \<Rightarrow> False | Some d \<Rightarrow> cval d = map of_char lit)"

text \<open>The nodes of a chain of siblings.\<close>

inductive in_chain :: "'h dtb_state \<Rightarrow> nat option \<Rightarrow> nat \<Rightarrow> bool" for st where
  first: "in_chain st (Some n) n"
| later: "dtb_get_sibling st (Some n) = Some m \<Longrightarrow> in_chain st m k \<Longrightarrow> in_chain st (Some n) k"

text \<open>The address ranges of a node: the pairs in its reg property, with the cell counts that hold for it.\<close>

definition reg_pairs :: "blob \<Rightarrow> 'h dtb_state \<Rightarrow> nat \<Rightarrow> (u64 \<times> u64) list \<Rightarrow> bool" where
  "reg_pairs b st n vals \<longleftrightarrow>
     (\<exists>p pr ac sc. dtb_find_prop b st (Some n) (cstring ''reg'') = Some (Some p) \<and> prop_at st p = Some pr \<and>
        dtb_get_addr_cells_for b st (Some n) = Some ac \<and> dtb_get_size_cells_for b st (Some n) = Some sc \<and>
        dtb_read_prop_2 b (Some pr) (ac, sc) = Some vals)"

text \<open>
  \<open>e\<close> is the end of a range of node \<open>n\<close> that contains \<open>here\<close>, and the node is a memory node.
\<close>

definition range_of :: "blob \<Rightarrow> 'h dtb_state \<Rightarrow> u64 \<Rightarrow> nat \<Rightarrow> u64 \<Rightarrow> bool" where
  "range_of b st here n e \<longleftrightarrow>
     device_type_is b st n ''memory'' = Some True \<and>
     (\<exists>vals base len. reg_pairs b st n vals \<and> (base, len) \<in> set vals \<and> base \<le> here \<and> here < e \<and> e = base + len)"

text \<open>Two small parsed trees: two harts under \<open>/cpus\<close>, and one memory range.\<close>

definition demo_dtb :: "dtb_node list \<Rightarrow> dtb_prop list \<Rightarrow> glue_host dtb_state" where
  "demo_dtb nb pb = \<lparr>st_root = (if nb = [] then None else Some 0), handle_lookup = [], buffer = Some 0,
     node_buff = nb, node_alloc_head = length nb, node_alloc_max = length nb + 1, prop_buff = pb,
     prop_alloc_head = length pb, prop_alloc_max = length pb + 1, resv_memory = 0,
     st_ops = glue_ops, st_host = \<lparr>s_dtb_parsed_len = 0, s_setup_msgs = []\<rparr>\<rparr>"

definition smp_blob :: blob where
  "smp_blob =
     [100, 101, 118, 105, 99, 101, 95, 116, 121, 112, 101, 0, 99, 112, 117, 115, 0, 99, 112,
     117, 64, 48, 0, 99, 112, 117, 64, 49, 0, 0, 0, 0, 0, 0, 0, 4, 0, 0, 0, 0, 99, 112, 117, 0]"

definition cpu_prop :: "nat \<Rightarrow> dtb_prop" where
  "cpu_prop n = zero_prop\<lparr>pr_node := Some n, pr_data := 40, pr_length := 4\<rparr>"

definition smp_nodes :: "dtb_node list" where
  "smp_nodes = [zero_node\<lparr>nd_child := Some 1\<rparr>,
     zero_node\<lparr>nd_parent := Some 0, nd_child := Some 3, nd_name := Some 12\<rparr>,
     zero_node\<lparr>nd_parent := Some 1, nd_props := Some 0, nd_name := Some 17\<rparr>,
     zero_node\<lparr>nd_parent := Some 1, nd_sibling := Some 2, nd_props := Some 1, nd_name := Some 23\<rparr>]"

definition smp_dtb :: "glue_host dtb_state" where
  "smp_dtb = demo_dtb smp_nodes [cpu_prop 2, cpu_prop 3]"

definition cpu_node :: "u8 \<Rightarrow> dtree" where
  "cpu_node k = DNode (map of_char ''cpu@'' @ [k])
     [DProp (map of_char ''device_type'') (map of_char ''cpu'' @ [0])]"

definition smp_tree :: dtree where
  "smp_tree = DNode [] [DChild (DNode (map of_char ''cpus'') [DChild (cpu_node 0x30), DChild (cpu_node 0x31)])]"

definition mem_blob :: blob where
  "mem_blob =
     [100, 101, 118, 105, 99, 101, 95, 116, 121, 112, 101, 0, 114, 101, 103, 0, 109, 101, 109,
     111, 114, 121, 0, 0, 0, 0, 0, 7, 0, 0, 0, 0, 109, 101, 109, 111, 114, 121, 0, 0, 0, 0, 0,
     12, 0, 0, 0, 12, 0, 0, 0, 0, 128, 0, 0, 0, 16, 0, 0, 0]"

definition mem_dtb :: "glue_host dtb_state" where
  "mem_dtb = demo_dtb
     [zero_node\<lparr>nd_child := Some 1\<rparr>,
      zero_node\<lparr>nd_parent := Some 0, nd_props := Some 1, nd_name := Some 16\<rparr>]
     [zero_prop\<lparr>pr_node := Some 1, pr_data := 32, pr_length := 7\<rparr>,
      zero_prop\<lparr>pr_node := Some 1, pr_name := 12, pr_data := 48, pr_length := 12, pr_next := Some 0\<rparr>]"

definition demo_glue :: "glue_host dtb_state \<Rightarrow> unit glue" where
  "demo_glue st = \<lparr>g_dtb = st, s_dtb_ready = True, s_uart_base = 0, ram_end_cached = 0,
     g_table = initial_table, g_machine = (), g_errno = 0, s_args = [], s_argc = 0, g_console = [],
     boot_sync = 0\<rparr>"

section \<open>The tree buffer\<close>

interpretation dtb_buf: bump_allocator "\<lambda>h. s_dtb_parsed_len h \<le> SOCT_DTB_MAX_SIZE"
  "\<lambda>h. unat (s_dtb_parsed_len h)"
  "\<lambda>(len :: u32) h. case dtb_malloc (ucast len) h of (p, h') \<Rightarrow> (map_option unat p, h')"
  "\<lambda>len. unat len"
proof
  fix h :: glue_host and len :: u32 and res h' p
  have ex: "unat (s_dtb_parsed_len h + ucast len) = unat (s_dtb_parsed_len h) + unat len"
    if "s_dtb_parsed_len h \<le> SOCT_DTB_MAX_SIZE"
  proof -
    have "unat (s_dtb_parsed_len h) \<le> 0x10000"
      using that by (simp add: word_le_nat_alt SOCT_DTB_MAX_SIZE_def)
    moreover have "unat len < 2 ^ 32" using unsigned_less [of len] by simp
    ultimately have "unat (s_dtb_parsed_len h) + unat (ucast len :: u64) < 2 ^ 64"
      by (simp add: unat_ucast_up)
    then show ?thesis by (subst unat_add_no_wrap) (simp_all add: unat_ucast_up)
  qed
  show "(case dtb_malloc (ucast len) h of (p, h') \<Rightarrow> (map_option unat p, h')) = (res, h') \<Longrightarrow>
      s_dtb_parsed_len h \<le> SOCT_DTB_MAX_SIZE \<Longrightarrow> s_dtb_parsed_len h' \<le> SOCT_DTB_MAX_SIZE"
    by (auto simp: dtb_malloc_def not_less split: if_splits)
  show "s_dtb_parsed_len h \<le> SOCT_DTB_MAX_SIZE \<Longrightarrow>
      (case dtb_malloc (ucast len) h of (p, h') \<Rightarrow> (map_option unat p, h')) = (Some p, h') \<Longrightarrow>
      unat (s_dtb_parsed_len h) \<le> p \<and> p + unat len \<le> unat (s_dtb_parsed_len h')"
    using ex by (auto simp: dtb_malloc_def split: if_splits)
  show "s_dtb_parsed_len h \<le> SOCT_DTB_MAX_SIZE \<Longrightarrow>
      (case dtb_malloc (ucast len) h of (p, h') \<Rightarrow> (map_option unat p, h')) = (None, h') \<Longrightarrow>
      unat (s_dtb_parsed_len h) \<le> unat (s_dtb_parsed_len h')"
    by (auto simp: dtb_malloc_def split: if_splits)
qed

section \<open>The setup log\<close>

lemma setup_log_step:
  "s_setup_msgs (soct_add_setup_msg m h) =
     (if length (s_setup_msgs h) < 15 then s_setup_msgs h @ [m]
      else if length (s_setup_msgs h) = 15 then s_setup_msgs h @ [Out_of_slots] else s_setup_msgs h)"
  by (simp add: soct_add_setup_msg_def Let_def SOCT_N_SETUP_MSGS_def)

lemma setup_log_run:
  assumes "s_setup_msgs h = []"
  shows "s_setup_msgs (fold soct_add_setup_msg ms h) =
    (if length ms < 16 then ms else take 15 ms @ [Out_of_slots])"
proof (induction ms rule: rev_induct)
  case Nil
  then show ?case using assms by simp
next
  case (snoc m ms)
  then show ?case by (simp add: setup_log_step)
qed

section \<open>Device types on a represented tree\<close>

lemma item_list_props: "map snd (item_props p is) = item_list is"
  by (induction p "is" rule: item_props.induct) auto

lemma subtrees_children: "map (snd \<circ> snd) (item_children h p is) = subtrees is"
  by (induction h p "is" rule: item_children.induct) auto

lemma find_map_snd:
  "find (\<lambda>(nm, _). nm = k) (map snd xs) = map_option snd (find (\<lambda>(_, nm, _). nm = k) xs)"
  by (induction xs) auto

lemma tree_prop_find:
  "map_option (\<lambda>(_, _, d). d) (find (\<lambda>(_, nm, _). nm = map of_char lit) (rev (item_props p (titems t)))) =
     tree_prop lit t"
  unfolding tree_prop_def item_list_props [of p, symmetric] rev_map find_map_snd
  by (simp add: option.map_comp comp_def case_prod_unfold)

lemma strcmp_eq_cval:
  assumes "0 \<in> set xs" and "0 \<in> set ys"
  shows "strcmp_eq xs ys = Some (cval xs = cval ys)"
  using assms by (induction xs ys rule: strcmp_eq.induct) (auto simp: cval_def)

lemma bytes_at_cval:
  assumes "bytes_at b a d" and "0 \<in> set d"
  shows "0 \<in> set (drop a b)" and "cval (drop a b) = cval d"
proof -
  have "drop a b = d @ drop (length d) (drop a b)"
    using assms(1) unfolding bytes_at_def by (metis append_take_drop_id)
  then obtain r where r: "drop a b = d @ r" by blast
  show "0 \<in> set (drop a b)" using assms(2) by (simp add: r)
  show "cval (drop a b) = cval d"
    unfolding r cval_def using assms(2) by (simp add: takeWhile_append1)
qed

lemma read_prop_string_first:
  assumes "rep_prop b pr n nm d" and "string_data d"
  shows "dtb_read_prop_string b (Some pr) 0 = Some (Some (pr_data pr))"
proof -
  have d: "bytes_at b (pr_data pr) d" "pr_length pr = of_nat (length d)"
    using assms(1) by (simp_all add: rep_prop_def)
  have len: "0 < length d" "length d < 2 ^ 30" using assms(2) by (auto simp: string_data_def)
  have "length (take (length d) (drop (pr_data pr) b)) = length d" using d(1) by (simp add: bytes_at_def)
  then have a: "pr_data pr < length b" using len(1) by (cases "pr_data pr < length b") auto
  have "b ! pr_data pr = hd d"
    using d(1) len(1) a unfolding bytes_at_def by (metis hd_drop_conv_nth hd_take)
  moreover have "unat (of_nat (length d) * (4 :: u32)) = length d * 4"
    using len(2) by (simp add: unat_word_ariths unat_of_nat)
  then obtain m where "unat (of_nat (length d) * (4 :: u32)) = Suc m"
    using len(1) by (metis mult_eq_0_iff not0_implies_Suc not_less_iff_gr_or_eq numeral_eq_Suc nat.distinct(1))
  ultimately show ?thesis
    using assms(2) a by (simp add: dtb_read_prop_string_def d(2) string_data_def)
qed

lemma device_type_rep:
  assumes "rep_node b (node_buff st) (prop_buff st) n p t" and "typed t"
    and "\<forall>c\<in>set lit. (of_char c :: u8) \<noteq> 0"
  shows "device_type_is b st n lit = Some (has_type lit t)"
proof -
  let ?f = "find (\<lambda>(_, nm, _). nm = map of_char ''device_type'') (rev (item_props p (titems t)))"
  have c: "cval (cstring ''device_type'') = map of_char ''device_type''" by (rule cval_cstring) simp
  have fp: "dtb_find_prop b st (Some n) (cstring ''device_type'') = Some (map_option fst ?f)"
    using dtb_find_prop_rep [OF assms(1) zero_in_cstring, of "''device_type''"] unfolding c .
  show ?thesis
  proof (cases ?f)
    case None
    then show ?thesis
      using fp tree_prop_find [of "''device_type''" p t] by (simp add: device_type_is_def has_type_def)
  next
    case (Some x)
    obtain i nm d where x: "x = (i, nm, d)" by (cases x)
    then have tp: "tree_prop ''device_type'' t = Some d"
      using tree_prop_find [of "''device_type''" p t] Some by simp
    have "(i, nm, d) \<in> set (item_props p (titems t))"
      using find_in_set [OF Some, THEN conjunct1] unfolding x set_rev .
    then have r: "i < length (prop_buff st)" "rep_prop b (prop_buff st ! i) n nm d"
      using assms(1) by (cases t; auto dest: item_props_rep)+
    have sd: "string_data d" using assms(2) tp by (simp add: typed_def)
    then have z: "0 \<in> set d" by (simp add: string_data_def)
    have "bytes_at b (pr_data (prop_buff st ! i)) d" using r(2) by (simp add: rep_prop_def)
    note cv = bytes_at_cval [OF this z]
    show ?thesis
      using fp Some x r(1) read_prop_string_first [OF r(2) sd] strcmp_eq_cval [OF cv(1) zero_in_cstring, of lit]
      by (simp add: device_type_is_def prop_at_def has_type_def tp cv(2) cval_cstring [OF assms(3)])
  qed
qed

lemma count_cpus_chain:
  assumes "rep_items b (node_buff st) (prop_buff st) n h p lc lp is"
    and "\<forall>c\<in>set (subtrees is). typed c"
  shows "count_cpus b st (nd_child (node_buff st ! n)) k =
    count_cpus b st lc (k + length (filter (has_type ''cpu'') (subtrees is)))"
  using assms
proof (induction h p "is" arbitrary: lc lp k rule: item_children.induct)
  case (3 h p t "is")
  have r: "rep_node b (node_buff st) (prop_buff st) h p t" "nd_sibling (node_buff st ! h) = lc"
    using 3(2) by simp_all
  have "h < length (node_buff st)" using r(1) by (cases t) simp
  then have "count_cpus b st (Some h) j = count_cpus b st lc (if has_type ''cpu'' t then j + 1 else j)" for j
    using device_type_rep [OF r(1), of "''cpu''"] 3(3) r(2)
    by (subst count_cpus.simps) (simp add: dtb_get_sibling_def node_at_def)
  with 3(1) [of "Some h" lp k] 3(2,3) show ?case by (simp split: if_split)
qed auto

lemma n_harts_rep:
  assumes "rep_node b (node_buff st) (prop_buff st) n p t" and "named t" and "st_root st = Some n"
    and "tree_find n p t [map of_char ''cpus''] = Some (i, q, c)"
    and "\<forall>c\<in>set (subtrees (titems c)). typed c"
  shows "soct_n_harts b st = Some (let k = length (filter (has_type ''cpu'') (subtrees (titems c)))
    in if k > 0 then int k else - 1)"
proof -
  have seg: "segments (cval (cstring ''/cpus'')) = [map of_char ''cpus'']" by code_simp
  have "dtb_find b st (cstring ''/cpus'') = Some (Some i)"
    using find_loop_rep [OF assms(1,2) zero_in_cstring, of "''/cpus''"] assms(3,4) seg
    by (simp add: dtb_find_def)
  moreover have r: "rep_node b (node_buff st) (prop_buff st) i q c"
    using tree_find_rep [OF assms(1,2,4)] by simp
  then have "rep_items b (node_buff st) (prop_buff st) i (Suc i) q None None (titems c)"
    and "i < length (node_buff st)" by (cases c; simp)+
  ultimately show ?thesis
    using count_cpus_chain [OF _ assms(5), of b st i "Suc i" q None None 0]
    by (simp add: soct_n_harts_def dtb_get_child_def node_at_def count_cpus.simps [of _ _ None] Let_def)
qed

section \<open>The end of memory\<close>

lemma pair_scan_Some:
  assumes "pair_scan here ps = Some e"
  shows "\<exists>base len. (base, len) \<in> set ps \<and> base \<le> here \<and> here < e \<and> e = base + len"
  using assms by (induction here ps rule: pair_scan.induct) (auto split: if_splits)

lemma memory_range_Some:
  assumes "memory_range b st here n = Some (Some e)"
  shows "range_of b st here n e"
proof -
  obtain vals k where v: "reg_pairs b st n vals" "device_type_is b st n ''memory'' = Some True"
      "pair_scan here (take k vals) = Some e"
    using assms
    by (auto simp: memory_range_def reg_pairs_def split: Option.bind_splits if_splits option.splits)
  then show ?thesis
    using pair_scan_Some [OF v(3)] unfolding range_of_def by (blast dest: in_set_takeD)
qed

lemma ram_end_loop_Some:
  assumes "ram_end_loop b st here scan = Some e" and "e \<noteq> 0"
  shows "\<exists>n. in_chain st scan n \<and> range_of b st here n e"
proof -
  have "e \<noteq> 0 \<longrightarrow> (\<exists>n. in_chain st scan n \<and> range_of b st here n e)"
  proof (rule ram_end_loop.raw_induct [where P = "\<lambda>b st here scan e. e \<noteq> 0 \<longrightarrow> (\<exists>n. in_chain st scan n \<and> range_of b st here n e)",
      OF _ assms(1)], goal_cases)
    case (1 loop b st here scan e)
    show ?case
    proof (cases scan)
      case None
      then show ?thesis using 1(2) by simp
    next
      case (Some n)
      with 1(2) obtain found where f: "memory_range b st here n = Some found"
        by (auto split: Option.bind_splits)
      show ?thesis
      proof (cases found)
        case None
        with 1(2) Some f obtain nx where nx: "dtb_get_sibling st (Some n) = Some nx" "loop b st here nx = Some e"
          by (auto split: Option.bind_splits)
        from 1(1) [OF nx(2)] show ?thesis using Some nx(1) by (auto intro: in_chain.later)
      next
        case (Some e')
        then have "e' = e" using 1(2) \<open>scan = Some n\<close> f by simp
        then show ?thesis using memory_range_Some [of b st here n e] f Some \<open>scan = Some n\<close> by (blast intro: in_chain.first)
      qed
    qed
  qed
  with assms(2) show ?thesis by simp
qed

lemma smp_rep: "rep_node smp_blob (node_buff smp_dtb) (prop_buff smp_dtb) 0 0 smp_tree"
  by (simp add: smp_tree_def smp_dtb_def demo_dtb_def smp_nodes_def smp_blob_def cpu_node_def
      cpu_prop_def zero_node_def zero_prop_def rep_name_def rep_prop_def cstr_at_def bytes_at_def
      fdt_prop_length_def rd32_def be32_def le32_def)

section \<open>Start-up without a tree\<close>

lemma add_msg_simps [simp]:
  "g_table (add_msg m g) = g_table g" "s_dtb_ready (add_msg m g) = s_dtb_ready g"
  "st_root (g_dtb (add_msg m g)) = st_root (g_dtb g)"
  "node_alloc_head (g_dtb (add_msg m g)) = node_alloc_head (g_dtb g)"
  by (simp_all add: add_msg_def)

lemma find_compatible_empty:
  assumes "node_alloc_head st = 0"
  shows "dtb_find_compatible b st None str = Some None"
  using assms by (simp add: dtb_find_compatible_def)

lemma dtb_init_null:
  "dtb_init fuel None glue_ops st = Ret (True, st\<lparr>st_ops := glue_ops, st_root := None\<rparr>)"
  by (simp add: dtb_init_def glue_ops_def)

section \<open>Properties\<close>

text \<open>
  The buffer the tree is parsed into: requests below 4 GiB that dtb_malloc grants, in any
  sequence, are blocks inside the 64 KiB array that do not overlap.
\<close>

theorem dtb_malloc_blocks_disjoint:
  fixes rs :: "u32 list"
  assumes "s_dtb_parsed_len h = 0"
    and "alloc_run (\<lambda>len h. case dtb_malloc (ucast len) h of (p, h') \<Rightarrow> (map_option unat p, h')) unat rs h = (bs, h')"
  shows "(\<forall>(p, n)\<in>set bs. p + n \<le> 0x10000) \<and>
    (\<forall>i<length bs. \<forall>j<length bs. i \<noteq> j \<longrightarrow>
      {fst (bs ! i)..<fst (bs ! i) + snd (bs ! i)} \<inter> {fst (bs ! j)..<fst (bs ! j) + snd (bs ! j)} = {})"
proof -
  have ok: "s_dtb_parsed_len h \<le> SOCT_DTB_MAX_SIZE" using assms(1) by simp
  note r = dtb_buf.run_blocks [OF ok assms(2)]
  have "unat (s_dtb_parsed_len h') \<le> 0x10000"
    using r by (simp add: word_le_nat_alt SOCT_DTB_MAX_SIZE_def)
  then show ?thesis using r dtb_buf.run_disjoint [OF ok assms(2)] by fastforce
qed

theorem dtb_malloc_blocks_disjoint_witness:
  "\<exists>bs h'. alloc_run (\<lambda>len h. case dtb_malloc (ucast (len :: u32)) h of (p, h') \<Rightarrow> (map_option unat p, h'))
     unat [100, 0x10000, 40] \<lparr>s_dtb_parsed_len = 0, s_setup_msgs = []\<rparr> = (bs, h') \<and>
     bs = [(0, 100), (100, 40)] \<and> (\<forall>(p, n)\<in>set bs. p + n \<le> 0x10000)"
proof -
  have "alloc_run (\<lambda>len h. case dtb_malloc (ucast (len :: u32)) h of (p, h') \<Rightarrow> (map_option unat p, h'))
     unat [100, 0x10000, 40] \<lparr>s_dtb_parsed_len = 0, s_setup_msgs = []\<rparr> =
     ([(0, 100), (100, 40)], \<lparr>s_dtb_parsed_len = 140, s_setup_msgs = []\<rparr>)"
    by (simp add: dtb_malloc_def SOCT_DTB_MAX_SIZE_def)
  from dtb_malloc_blocks_disjoint [OF _ this] this show ?thesis by simp
qed

text \<open>
  The setup log keeps the first fifteen messages in order; the sixteenth slot, once needed,
  says that messages were dropped, and later messages change nothing.
\<close>

theorem setup_log_contents:
  assumes "s_setup_msgs h = []"
  shows "s_setup_msgs (fold soct_add_setup_msg ms h) =
    (if length ms < 16 then ms else take 15 ms @ [Out_of_slots])"
  using assms by (rule setup_log_run)

theorem setup_log_contents_witness:
  "s_setup_msgs (fold soct_add_setup_msg (replicate 20 (Text ''x'')) \<lparr>s_dtb_parsed_len = 0, s_setup_msgs = []\<rparr>) =
     replicate 15 (Text ''x'') @ [Out_of_slots]"
  by (subst setup_log_contents) simp_all

text \<open>
  The hart count. On a parsed tree with a \<open>/cpus\<close> node whose children's device_type strings
  are well formed, soct_n_harts returns the number of children of type "cpu", or -1 if there is none.
\<close>

theorem n_harts_counts_cpus:
  assumes "rep_node b (node_buff st) (prop_buff st) n p t" and "named t" and "st_root st = Some n"
    and "tree_find n p t [map of_char ''cpus''] = Some (i, q, c)"
    and "\<forall>c\<in>set (subtrees (titems c)). typed c"
  shows "soct_n_harts b st = Some (let k = length (filter (has_type ''cpu'') (subtrees (titems c)))
    in if k > 0 then int k else - 1)"
  using assms by (rule n_harts_rep)

theorem n_harts_counts_cpus_witness: "soct_n_harts smp_blob smp_dtb = Some 2"
proof -
  have f: "tree_find 0 0 smp_tree [map of_char ''cpus''] =
      Some (1, 0, DNode (map of_char ''cpus'') [DChild (cpu_node 0x30), DChild (cpu_node 0x31)])"
    by code_simp
  have "named smp_tree" by code_simp
  moreover have "st_root smp_dtb = Some 0" by (simp add: smp_dtb_def demo_dtb_def smp_nodes_def)
  moreover have "typed (cpu_node k)" "has_type ''cpu'' (cpu_node k)" for k
    by (simp_all add: typed_def has_type_def tree_prop_def cpu_node_def string_data_def cval_def)
  ultimately show ?thesis using n_harts_counts_cpus [OF smp_rep _ _ f] by simp
qed

text \<open>
  C35. The end of memory. When soct_ram_end computes a non-zero answer, the answer lies above the
  program's address \<open>here\<close> and is the end of a range that contains \<open>here\<close>; the range is one of the pairs
  in the reg property of a memory node, decoded with the cell counts of that node, and the node is a
  child of the root. The answer is cached, so every later call returns it.
\<close>

theorem ram_end_covers_program:
  assumes "soct_ram_end here b g = Some (e, g')" and "ram_end_cached g = 0" and "e \<noteq> 0"
  shows "(\<exists>root child n. dtb_find b (g_dtb g) (cstring ''/'') = Some (Some root) \<and>
      dtb_get_child (g_dtb g) (Some root) = Some child \<and> in_chain (g_dtb g) child n \<and>
      range_of b (g_dtb g) here n e) \<and> soct_ram_end here b g' = Some (e, g')"
proof -
  obtain root child where "dtb_find b (g_dtb g) (cstring ''/'') = Some (Some root)"
      "dtb_get_child (g_dtb g) (Some root) = Some child" "ram_end_loop b (g_dtb g) here child = Some e"
      "g' = g\<lparr>ram_end_cached := e\<rparr>"
    using assms
    by (auto simp: soct_ram_end_def split: if_splits Option.bind_splits option.splits)
  then show ?thesis
    using ram_end_loop_Some [OF _ assms(3)] assms(3) by (auto simp: soct_ram_end_def)
qed

theorem ram_end_covers_program_witness:
  "\<exists>g'. soct_ram_end 0x80001000 mem_blob (demo_glue mem_dtb) = Some (0x90000000, g') \<and>
     (\<exists>n. range_of mem_blob mem_dtb 0x80001000 n 0x90000000)"
proof -
  have "map_option fst (soct_ram_end 0x80001000 mem_blob (demo_glue mem_dtb)) = Some 0x90000000"
    by code_simp
  then obtain g' where g: "soct_ram_end 0x80001000 mem_blob (demo_glue mem_dtb) = Some (0x90000000, g')"
    by auto
  from ram_end_covers_program [OF g] g show ?thesis by (auto simp: demo_glue_def)
qed

text \<open>
  Start-up without a device tree. With a null blob dtb_init reports success (it sets up an
  empty tree), so the start-up code takes the tree as ready: it registers neither the UART handler
  at the default address nor probes for HTIF, and enters main with no default handler but those
  init_soct_ff registers.
\<close>

theorem null_dtb_registers_no_console:
  assumes "node_alloc_head (g_dtb gs) = 0"
    and "\<And>g. g_table (init_soct_ff g) = g_table g \<and> g_dtb (init_soct_ff g) = g_dtb g \<and>
      s_dtb_ready (init_soct_ff g) = s_dtb_ready g"
  shows "\<exists>g. soct_start_main fuel default_addr hartid 0 b uart_handler init_soct_ff probe htif_handler
      read_args args gs = Ret g \<and> s_dtb_ready g \<and> g_table g = g_table gs \<and> boot_sync g = - 1"
  using assms
  by (simp add: soct_start_main_def Let_def bind_run_def opt_run_def dtb_init_null
      soct_init_from_dtb_uart_def find_compatible_empty start_htif_def)

theorem null_dtb_registers_no_console_witness:
  "\<exists>g. soct_start_main 10 0x60000000 0 0 [] (\<lambda>m nr args. (handled 0, m)) (\<lambda>g. g)
      (\<lambda>m buf. (Some buf, m)) (\<lambda>m nr args. (handled 0, m)) (\<lambda>m. []) (demo_args 0 0 0)
      (demo_glue (demo_dtb [] [])) = Ret g \<and> s_dtb_ready g \<and> g_table g = initial_table"
proof -
  have h: "node_alloc_head (g_dtb (demo_glue (demo_dtb [] []))) = 0"
    and t: "g_table (demo_glue (demo_dtb [] [])) = initial_table"
    by (simp_all add: demo_glue_def demo_dtb_def)
  show ?thesis
    using null_dtb_registers_no_console [where init_soct_ff = "\<lambda>g. g", OF h] unfolding t by blast
qed

end
