(* ===== verification/Addr_Loop.thy ===== *)
theory Addr_Loop
  imports Soct_Prelude
begin

text \<open>
  The loop \<open>for (a = start; a < end; a += step)\<close> over addresses, which the memory test and the cache
  flush share, and the addresses it visits.
\<close>

section \<open>Definitions\<close>

text \<open>
  \<open>for (a = start; a < end; a += step)\<close>: when the end is so high that the addition wraps around
  below it, the loop does not end.
\<close>

partial_function (option) addr_loop :: "u64 \<Rightarrow> u64 \<Rightarrow> (u64 \<Rightarrow> 's \<Rightarrow> 's) \<Rightarrow> u64 \<Rightarrow> 's \<Rightarrow> 's option" where
  "addr_loop inc e f a st = (if a < e then addr_loop inc e f (a + inc) (f a st) else Some st)"

declare addr_loop.simps [code]

text \<open>The addresses a loop over a window visits, and when it ends.\<close>

definition grid :: "u64 \<Rightarrow> u64 \<Rightarrow> u64 \<Rightarrow> u64 set" where
  "grid inc s e = {a. s \<le> a \<and> a < e \<and> unat (a - s) mod unat inc = 0}"

definition loop_ends :: "u64 \<Rightarrow> u64 \<Rightarrow> bool" where
  "loop_ends inc e \<longleftrightarrow> inc \<noteq> 0 \<and> unat e + unat inc \<le> 2 ^ 64"

definition addrs :: "u64 \<Rightarrow> u64 \<Rightarrow> u64 \<Rightarrow> u64 list" where
  "addrs inc s e = map (\<lambda>k. s + of_nat k * inc)
     [0..<(unat e - unat s + (unat inc - 1)) div unat inc]"

section \<open>Lemmas\<close>

lemma steps_Suc:
  fixes D i :: nat
  assumes "0 < D" "0 < i"
  shows "(D + (i - 1)) div i = Suc ((D - i + (i - 1)) div i)"
proof (cases "i \<le> D")
  case True
  then have "D + (i - 1) = (D - i + (i - 1)) + i" by simp
  then have "(D + (i - 1)) div i = ((D - i + (i - 1)) + i) div i" by (rule arg_cong)
  also have "\<dots> = (D - i + (i - 1)) div i + 1" using assms by (intro div_add_self2) simp
  finally show ?thesis by simp
next
  case False
  have "D + (i - 1) = (D - 1) + i" using assms by simp
  then have "(D + (i - 1)) div i = ((D - 1) + i) div i" by (rule arg_cong)
  also have "\<dots> = (D - 1) div i + 1" using assms by (intro div_add_self2) simp
  finally show ?thesis using False assms by simp
qed

text \<open>What every round keeps holds when the loop has ended.\<close>

lemma addr_loop_keeps:
  assumes "addr_loop inc e f a st = Some st'" and "\<And>a s. Q s \<Longrightarrow> Q (f a s)" and "Q st"
  shows "Q st'"
proof -
  have "(\<forall>a s. Q s \<longrightarrow> Q (f a s)) \<longrightarrow> Q st \<longrightarrow> Q st'"
    using assms(1)
  proof (rule addr_loop.raw_induct [where P = "\<lambda>inc e f a st st'. (\<forall>a s. Q s \<longrightarrow> Q (f a s)) \<longrightarrow> Q st \<longrightarrow> Q st'", rotated], goal_cases)
    case (1 loop inc e f a st st')
    then show ?case by (auto split: if_splits)
  qed
  with assms(2,3) show ?thesis by blast
qed

lemma addr_loop_fold:
  assumes "loop_ends inc e"
  shows "addr_loop inc e f s st = Some (fold f (addrs inc s e) st)"
proof -
  let ?i = "unat inc" and ?e = "e"
  have i: "0 < ?i" using assms by (simp add: loop_ends_def unat_gt_0)
  have "addr_loop inc ?e f a st = Some (fold f (map (\<lambda>k. a + of_nat k * inc) [0..<(unat ?e - unat a + (?i - 1)) div ?i]) st)" for a
  proof (induction "unat ?e - unat a" arbitrary: a st rule: less_induct)
    case less
    show ?case
    proof (cases "a < ?e")
      case False
      then have "unat ?e - unat a = 0" by (simp add: word_less_nat_alt)
      then show ?thesis using False i by (subst addr_loop.simps) simp
    next
      case True
      have u: "unat (a + inc) = unat a + ?i"
        using True assms by (intro unat_add_no_wrap) (simp add: loop_ends_def word_less_nat_alt)
      have lt: "unat ?e - unat (a + inc) < unat ?e - unat a" using True i u by (simp add: word_less_nat_alt)
      have n: "(unat ?e - unat a + (?i - 1)) div ?i = Suc ((unat ?e - unat (a + inc) + (?i - 1)) div ?i)"
        using steps_Suc [of "unat ?e - unat a" ?i] True i by (simp add: u word_less_nat_alt)
      have "map (\<lambda>k. a + of_nat k * inc) [0..<(unat ?e - unat a + (?i - 1)) div ?i] =
          a # map (\<lambda>k. (a + inc) + of_nat k * inc) [0..<(unat ?e - unat (a + inc) + (?i - 1)) div ?i]"
        unfolding n map_upt_Suc_Cons by (simp add: algebra_simps)
      then show ?thesis by (subst addr_loop.simps) (simp only: True less [OF lt] if_True fold_simps)
    qed
  qed
  then show ?thesis by (simp add: addrs_def)
qed

lemma steps_less:
  fixes D i k :: nat
  assumes "0 < i"
  shows "k < (D + (i - 1)) div i \<longleftrightarrow> k * i < D"
proof -
  have "k < (D + (i - 1)) div i \<longleftrightarrow> Suc k * i \<le> D + (i - 1)"
    using assms by (simp add: less_eq_div_iff_mult_less_eq Suc_le_eq [symmetric])
  then show ?thesis using assms by auto
qed

lemma addrs_grid:
  assumes "loop_ends inc e"
  shows "set (addrs inc s e) = grid inc s e" and "distinct (addrs inc s e)"
proof -
  let ?i = "unat inc" and ?D = "unat e - unat s"
  have i: "0 < ?i" using assms by (simp add: loop_ends_def unat_gt_0)
  have e: "unat e < 2 ^ 64" using unsigned_less [of "e"] by simp
  have off: "unat (of_nat k * inc :: u64) = k * ?i" "unat (s + of_nat k * inc) = unat s + k * ?i"
    if "k * ?i < ?D" for k
  proof -
    have eq: "(of_nat k * inc :: u64) = of_nat (k * ?i)" by simp
    show k: "unat (of_nat k * inc :: u64) = k * ?i"
      unfolding eq using that e by (intro unat_of_nat_small) simp
    show "unat (s + of_nat k * inc) = unat s + k * ?i"
      using that e k by (subst unat_add_no_wrap) simp_all
  qed
  show "set (addrs inc s e) = grid inc s e"
  proof (intro set_eqI iffI)
    fix x assume "x \<in> set (addrs inc s e)"
    then obtain k where k: "k * ?i < ?D" and x: "x = s + of_nat k * inc"
      using steps_less [OF i] by (auto simp: addrs_def)
    show "x \<in> grid inc s e"
      using off [OF k] k by (simp add: x grid_def word_le_nat_alt word_less_nat_alt)
  next
    fix x assume x: "x \<in> grid inc s e"
    define k where "k = unat (x - s) div ?i"
    have k: "unat (x - s) = k * ?i" using x by (simp add: grid_def k_def mod_eq_0_iff_dvd)
    moreover have "unat (x - s) = unat x - unat s"
      using x by (simp add: grid_def unat_diff_le)
    ultimately have "k * ?i < ?D" using x by (auto simp: grid_def word_le_nat_alt word_less_nat_alt)
    moreover have "x = s + of_nat k * inc"
    proof -
      have "x - s = of_nat (k * ?i)" by (simp flip: k)
      then show ?thesis by (simp add: algebra_simps)
    qed
    ultimately show "x \<in> set (addrs inc s e)"
      unfolding addrs_def set_map set_upt
      by (intro image_eqI [where x = k]) (simp_all only: atLeastLessThan_iff steps_less [OF i] le0 simp_thms)
  qed
  have "inj_on (\<lambda>k. s + of_nat k * inc) {0..<(?D + (?i - 1)) div ?i}"
  proof (rule inj_onI)
    fix j k assume r: "j \<in> {0..<(?D + (?i - 1)) div ?i}" "k \<in> {0..<(?D + (?i - 1)) div ?i}"
      and eq: "s + of_nat j * inc = s + of_nat k * inc"
    have "j * ?i < ?D" "k * ?i < ?D" using r by (simp_all only: atLeastLessThan_iff steps_less [OF i])
    with off have "j * ?i = k * ?i" using eq by (metis add_left_cancel)
    then show "j = k" using i by simp
  qed
  then show "distinct (addrs inc s e)" by (simp add: addrs_def distinct_map)
qed

end
