(* ===== verification/Mem_Test.thy ===== *)
theory Mem_Test
  imports Addr_Loop
begin

text \<open>
  The memory test of \<open>baremetal/mem-test/main.c\<close>: the address pattern, the capacity check and the
  suites that write a unique marker per address and verify all of them later. Memory holds one word
  per cell; which cell an address reaches is a parameter, since that is what the test is to find
  out. Addresses are those of aligned words. Output, the clock and the scrubbing reads, which change
  no memory, are left out. The access width and burst copy
  suites and \<open>main\<close> are in \<open>Mem_Main\<close>.
\<close>

section \<open>Pattern\<close>

definition LINE_BYTES :: u64 where "LINE_BYTES = 64"
definition WORD_BYTES :: u64 where "WORD_BYTES = 8"
definition WIN_BYTES :: u64 where "WIN_BYTES = 0x400000"
definition MAX_ERR_PRINT :: nat where "MAX_ERR_PRINT = 8"
definition SEED_A :: u64 where "SEED_A = 0x9E3779B97F4A7C15"
definition SEED_PROBE :: u64 where "SEED_PROBE = SEED_A XOR 0xCAFE"
definition SEED_LINE :: u64 where "SEED_LINE = SEED_A XOR 0xED6E"

definition mix64 :: "u64 \<Rightarrow> u64" where
  "mix64 x =
     (let x = x XOR drop_bit 33 x;
          x = x * 0xff51afd7ed558ccd;
          x = x XOR drop_bit 33 x;
          x = x * 0xc4ceb9fe1a85ec53
      in x XOR drop_bit 33 x)"

definition pat :: "u64 \<Rightarrow> u64 \<Rightarrow> u64" where
  "pat addr seed = mix64 (addr XOR seed)"

section \<open>Windows and loops\<close>

record window =
  w_start :: u64
  w_end :: u64

fun each_window :: "(window \<Rightarrow> 's \<Rightarrow> 's option) \<Rightarrow> window list \<Rightarrow> 's \<Rightarrow> 's option" where
  "each_window pass [] st = Some st"
| "each_window pass (w # ws) st = do { st \<leftarrow> pass w st; each_window pass ws st }"

section \<open>Mismatches\<close>

datatype bad_msg = Bad u64 u64 u64 | Suppressing

text \<open>Memory, \<open>sweep_failures\<close>, which fewer than \<open>2 ^ 64\<close> words cannot wrap, and what is printed.\<close>

record 'c mtest =
  t_mem :: "'c \<Rightarrow> u64"
  sweep_failures :: nat
  t_log :: "bad_msg list"

definition mem_put :: "'c \<Rightarrow> u64 \<Rightarrow> 'c mtest \<Rightarrow> 'c mtest" where
  "mem_put c v st = st\<lparr>t_mem := (t_mem st)(c := v)\<rparr>"

definition report_bad :: "u64 \<Rightarrow> u64 \<Rightarrow> u64 \<Rightarrow> 'c mtest \<Rightarrow> 'c mtest" where
  "report_bad a got expected st =
     st\<lparr>t_log := t_log st @ (if sweep_failures st < MAX_ERR_PRINT then [Bad a got expected]
                            else if sweep_failures st = MAX_ERR_PRINT then [Suppressing] else []),
        sweep_failures := sweep_failures st + 1\<rparr>"

section \<open>Line edge test\<close>

definition line_step :: "(u64 \<Rightarrow> 'c) \<Rightarrow> bool \<Rightarrow> u64 \<Rightarrow> 'c mtest \<Rightarrow> 'c mtest" where
  "line_step cell verify a st =
     (let e = pat a SEED_LINE
      in if verify then
           let got = t_mem st (cell a) in if got \<noteq> e then report_bad a got e st else st
         else mem_put (cell a) e st)"

definition line_pass :: "(u64 \<Rightarrow> 'c) \<Rightarrow> bool \<Rightarrow> window \<Rightarrow> 'c mtest \<Rightarrow> 'c mtest option" where
  "line_pass cell verify w st = addr_loop LINE_BYTES (w_end w) (line_step cell verify) (w_start w) st"

definition test_line_edges :: "(u64 \<Rightarrow> 'c) \<Rightarrow> window list \<Rightarrow> 'c mtest \<Rightarrow> (int \<times> 'c mtest) option" where
  "test_line_edges cell wins st = do {
     st \<leftarrow> each_window (line_pass cell False) wins (st\<lparr>sweep_failures := 0\<rparr>);
     st \<leftarrow> each_window (line_pass cell True) wins st;
     Some (if sweep_failures st > 0 then 1 else 0, st) }"

section \<open>Moving-inversion sweep\<close>

datatype sweep_mode_t = SWEEP_WRITE | SWEEP_VERIFY_WRITE_INV | SWEEP_VERIFY_INV

definition sweep_step :: "(u64 \<Rightarrow> 'c) \<Rightarrow> sweep_mode_t \<Rightarrow> u64 \<Rightarrow> 'c mtest \<Rightarrow> 'c mtest" where
  "sweep_step cell mode a st =
     (let e = pat a SEED_A; got = t_mem st (cell a)
      in case mode of
           SWEEP_WRITE \<Rightarrow> mem_put (cell a) e st
         | SWEEP_VERIFY_WRITE_INV \<Rightarrow>
             mem_put (cell a) (NOT e) (if got \<noteq> e then report_bad a got e st else st)
         | SWEEP_VERIFY_INV \<Rightarrow> if got \<noteq> NOT e then report_bad a got (NOT e) st else st)"

definition sweep :: "(u64 \<Rightarrow> 'c) \<Rightarrow> sweep_mode_t \<Rightarrow> window \<Rightarrow> 'c mtest \<Rightarrow> 'c mtest option" where
  "sweep cell mode w st = addr_loop WORD_BYTES (w_end w) (sweep_step cell mode) (w_start w) st"

definition test_full_sweep :: "(u64 \<Rightarrow> 'c) \<Rightarrow> window list \<Rightarrow> 'c mtest \<Rightarrow> (int \<times> 'c mtest) option" where
  "test_full_sweep cell wins st = do {
     st \<leftarrow> each_window (sweep cell SWEEP_WRITE) wins (st\<lparr>sweep_failures := 0\<rparr>);
     st \<leftarrow> each_window (sweep cell SWEEP_VERIFY_WRITE_INV) wins st;
     st \<leftarrow> each_window (sweep cell SWEEP_VERIFY_INV) wins st;
     Some (if sweep_failures st > 0 then 1 else 0, st) }"

section \<open>Capacity check\<close>

definition addr_testable :: "window list \<Rightarrow> u64 \<Rightarrow> bool" where
  "addr_testable wins a \<longleftrightarrow> list_ex (\<lambda>w. a \<ge> w_start w \<and> a + WORD_BYTES \<le> w_end w) wins"

partial_function (option) probe_offsets :: "window list \<Rightarrow> u64 \<Rightarrow> u64 \<Rightarrow> u64 \<Rightarrow> u64 list \<Rightarrow> u64 list option" where
  "probe_offsets wins ref e p offs =
     (if ref + p + WORD_BYTES \<le> e \<and> length offs < 63
      then probe_offsets wins ref e (push_bit 1 p) (if addr_testable wins (ref + p) then offs @ [p] else offs)
      else Some offs)"

declare probe_offsets.simps [code]

definition probe_store :: "(u64 \<Rightarrow> 'c) \<Rightarrow> u64 \<Rightarrow> u64 \<Rightarrow> ('c \<Rightarrow> u64) \<Rightarrow> 'c \<Rightarrow> u64" where
  "probe_store cell ref off m = m(cell (ref + off) := pat (ref + off) SEED_PROBE)"

text \<open>The offset whose marker is lost first, 0 when there is none, and whether the reference cell holds.\<close>

fun first_lost :: "(u64 \<Rightarrow> 'c) \<Rightarrow> u64 \<Rightarrow> ('c \<Rightarrow> u64) \<Rightarrow> u64 list \<Rightarrow> u64" where
  "first_lost cell ref m [] = 0"
| "first_lost cell ref m (off # offs) =
     (if m (cell (ref + off)) \<noteq> pat (ref + off) SEED_PROBE \<and> off \<noteq> 0 then off
      else first_lost cell ref m offs)"

definition test_capacity_probe :: "(u64 \<Rightarrow> 'c) \<Rightarrow> window list \<Rightarrow> ('c \<Rightarrow> u64) \<Rightarrow>
    (int \<times> u64 \<times> bool \<times> ('c \<Rightarrow> u64)) option" where
  "test_capacity_probe cell wins m =
     (if wins = [] then None
      else do {
        let ref = w_start (hd wins);
        let e = w_end (last wins);
        offs \<leftarrow> probe_offsets wins ref e 0x100000 [];
        let offs = offs @ [e - LINE_BYTES - ref];
        let m = fold (probe_store cell ref) offs (m(cell ref := pat ref SEED_PROBE));
        let wrap = first_lost cell ref m offs;
        let ref_ok = (m (cell ref) = pat ref SEED_PROBE);
        Some (if wrap = 0 \<and> ref_ok then 0 else 1, wrap, ref_ok, m) })"

section \<open>Interleave marker test\<close>

text \<open>The windows at the start, around 4 GiB and at the top.\<close>

definition marker_windows :: "window list \<Rightarrow> window list" where
  "marker_windows wins =
     (let w0 = hd wins; wl = last wins; four_gib = 0x100000000;
          first = \<lparr>w_start = w_start w0, w_end = w_start w0 + WIN_BYTES\<rparr>;
          across = (if list_ex (\<lambda>w. w_start w + WIN_BYTES < four_gib - WIN_BYTES \<and> four_gib + WIN_BYTES \<le> w_end w) wins
                    then [\<lparr>w_start = four_gib - WIN_BYTES, w_end = four_gib + WIN_BYTES\<rparr>] else []);
          top = (if w_end wl - WIN_BYTES > w_end first
                 then [\<lparr>w_start = w_end wl - WIN_BYTES, w_end = w_end wl\<rparr>] else [])
      in first # across @ top)"

definition marker_write :: "(u64 \<Rightarrow> 'c) \<Rightarrow> window \<Rightarrow> ('c \<Rightarrow> u64) \<Rightarrow> ('c \<Rightarrow> u64) option" where
  "marker_write cell w m = addr_loop LINE_BYTES (w_end w) (\<lambda>a m. m(cell a := pat a SEED_A)) (w_start w) m"

text \<open>The number of bad lines of a window and the first of them with its content.\<close>

definition marker_verify :: "(u64 \<Rightarrow> 'c) \<Rightarrow> ('c \<Rightarrow> u64) \<Rightarrow> window \<Rightarrow> (nat \<times> u64 \<times> u64) option" where
  "marker_verify cell m w =
     addr_loop LINE_BYTES (w_end w)
       (\<lambda>a (bad, first_bad, got0).
          if m (cell a) \<noteq> pat a SEED_A
          then if bad = 0 then (1, a, m (cell a)) else (bad + 1, first_bad, got0)
          else (bad, first_bad, got0))
       (w_start w) (0, 0, 0)"

fun marker_report :: "(u64 \<Rightarrow> 'c) \<Rightarrow> ('c \<Rightarrow> u64) \<Rightarrow> window list \<Rightarrow> int option" where
  "marker_report cell m [] = Some 0"
| "marker_report cell m (w # ws) = do {
     (bad, _, _) \<leftarrow> marker_verify cell m w;
     f \<leftarrow> marker_report cell m ws;
     Some (if bad > 0 then f + 1 else f) }"

definition test_interleave_markers :: "(u64 \<Rightarrow> 'c) \<Rightarrow> window list \<Rightarrow> ('c \<Rightarrow> u64) \<Rightarrow> (int \<times> ('c \<Rightarrow> u64)) option" where
  "test_interleave_markers cell wins m =
     (if wins = [] then None
      else do {
        let probes = marker_windows wins;
        m \<leftarrow> each_window (marker_write cell) probes m;
        f \<leftarrow> marker_report cell m probes;
        Some (f, m) })"

section \<open>Specification\<close>

definition win_addrs :: "u64 \<Rightarrow> window \<Rightarrow> u64 list" where
  "win_addrs inc w = addrs inc (w_start w) (w_end w)"

definition write_all :: "('a \<Rightarrow> 'v) \<Rightarrow> ('a \<Rightarrow> 'c) \<Rightarrow> 'a list \<Rightarrow> ('c \<Rightarrow> 'v) \<Rightarrow> 'c \<Rightarrow> 'v" where
  "write_all mark cell as m = fold (\<lambda>a m. m(cell a := mark a)) as m"

text \<open>The offsets of the capacity check: powers of two from 1 MiB on, and the last line.\<close>

definition probe_addrs :: "window list \<Rightarrow> u64 set" where
  "probe_addrs wins =
     (let ref = w_start (hd wins); e = w_end (last wins)
      in {ref, ref + (e - LINE_BYTES - ref)} \<union>
         {ref + 2 ^ j | j. 20 \<le> j \<and> j < 63 \<and> ref + 2 ^ j + WORD_BYTES \<le> e \<and> addr_testable wins (ref + 2 ^ j)})"

section \<open>Unique markers\<close>

text \<open>
  Markers that differ at every address tell whether two addresses share a cell: after all writes,
  every marker is intact exactly when no two of the addresses do.
\<close>

locale unique_marks =
  fixes mark :: "'a \<Rightarrow> 'v"
  assumes mark_inj: "mark a = mark b \<Longrightarrow> a = b"
begin

lemma last_write:
  assumes "as = xs @ x # ys" "cell x \<notin> cell ` set ys"
  shows "write_all mark cell as m (cell x) = mark x"
proof -
  have "fold (\<lambda>a m. m(cell a := mark a)) ys m' (cell x) = m' (cell x)" for m'
    using assms(2) by (induction ys arbitrary: m') auto
  then show ?thesis using assms(1) by (simp add: write_all_def)
qed

lemma last_writer:
  assumes "x \<in> set as"
  obtains y where "y \<in> set as" "cell y = cell x" "write_all mark cell as m (cell x) = mark y"
proof -
  have "\<exists>y\<in>set as. cell y = cell x" using assms by blast
  then obtain xs y ys where s: "as = xs @ y # ys" "cell y = cell x" "\<forall>z\<in>set ys. cell z \<noteq> cell x"
    by (rule split_list_last_propE)
  then have "write_all mark cell as m (cell y) = mark y" by (intro last_write) auto
  with s that [of y] show thesis by simp
qed

lemma intact_iff: "(\<forall>a\<in>set as. write_all mark cell as m (cell a) = mark a) \<longleftrightarrow> inj_on cell (set as)"
proof
  assume "\<forall>a\<in>set as. write_all mark cell as m (cell a) = mark a"
  then show "inj_on cell (set as)" by (metis inj_onI mark_inj)
next
  assume "inj_on cell (set as)"
  then show "\<forall>a\<in>set as. write_all mark cell as m (cell a) = mark a"
    by (metis inj_onD last_writer)
qed

end

section \<open>Lemmas\<close>

lemma xor_cancel: "(x XOR y) XOR y = (x :: u64)"
  by (simp add: xor.assoc)

lemma xorshift_cancel: "drop_bit 66 (x :: u64) = 0 \<Longrightarrow> (x XOR drop_bit 33 x) XOR drop_bit 33 (x XOR drop_bit 33 x) = x"
  by (simp add: drop_bit_xor xor_cancel)

lemma mix64_inj: "mix64 a = mix64 b \<Longrightarrow> a = b"
proof -
  have x: "a = b" if "a XOR drop_bit 33 a = b XOR drop_bit 33 b" for a b :: u64
  proof -
    have "drop_bit 66 c = 0" for c :: u64 by (rule bit_word_eqI) (simp add: bit_simps)
    then show ?thesis using xorshift_cancel that by metis
  qed
  have m: "a = b" if "a * c = b * c" "c * i = 1" for a b c i :: u64
  proof -
    have "a * c * i = b * c * i" using that(1) by simp
    then show ?thesis using that(2) by (simp add: mult.assoc)
  qed
  have i: "0xff51afd7ed558ccd * 0x4f74430c22a54005 = (1 :: u64)" "0xc4ceb9fe1a85ec53 * 0x9cb4b2f8129337db = (1 :: u64)"
    by simp_all
  assume "mix64 a = mix64 b"
  then show ?thesis unfolding mix64_def Let_def by (blast dest: x m [OF _ i(1)] m [OF _ i(2)])
qed

lemma pat_inj: "pat a s = pat b s \<Longrightarrow> a = b"
  unfolding pat_def by (drule mix64_inj) (metis xor_cancel)

interpretation line_marks: unique_marks "\<lambda>a. pat a SEED_LINE"
  by unfold_locales (rule pat_inj)

interpretation sweep_marks: unique_marks "\<lambda>a. pat a SEED_A"
  by unfold_locales (rule pat_inj)

interpretation inverse_marks: unique_marks "\<lambda>a. NOT (pat a SEED_A)"
  by unfold_locales (simp add: pat_inj)

interpretation probe_marks: unique_marks "\<lambda>a. pat a SEED_PROBE"
  by unfold_locales (rule pat_inj)

lemma each_window_fold:
  assumes "\<And>w st. w \<in> set wins \<Longrightarrow> pass w st = Some (fold f (as w) st)"
  shows "each_window pass wins st = Some (fold f (concat (map as wins)) st)"
  using assms by (induction wins arbitrary: st) auto

lemma report_bad_simps [simp]:
  "t_mem (report_bad a g e st) = t_mem st" "sweep_failures (report_bad a g e st) = Suc (sweep_failures st)"
  by (simp_all add: report_bad_def)

lemma mem_put_simps [simp]:
  "t_mem (mem_put c v st) = (t_mem st)(c := v)" "sweep_failures (mem_put c v st) = sweep_failures st"
  by (simp_all add: mem_put_def)

lemma line_written:
  "t_mem (fold (line_step cell False) as st) = write_all (\<lambda>a. pat a SEED_LINE) cell as (t_mem st)"
  "sweep_failures (fold (line_step cell False) as st) = sweep_failures st"
  by (induction as arbitrary: st) (simp_all add: write_all_def line_step_def Let_def)

lemma line_verified:
  "sweep_failures (fold (line_step cell True) as st) =
     sweep_failures st + length (filter (\<lambda>a. t_mem st (cell a) \<noteq> pat a SEED_LINE) as)"
  by (induction as arbitrary: st) (simp_all add: line_step_def Let_def)

lemma sweep_written:
  "t_mem (fold (sweep_step cell SWEEP_WRITE) as st) = write_all (\<lambda>a. pat a SEED_A) cell as (t_mem st)"
  "sweep_failures (fold (sweep_step cell SWEEP_WRITE) as st) = sweep_failures st"
  by (induction as arbitrary: st) (simp_all add: write_all_def sweep_step_def Let_def)

lemma sweep_checked:
  "sweep_failures (fold (sweep_step cell SWEEP_VERIFY_INV) as st) =
     sweep_failures st + length (filter (\<lambda>a. t_mem st (cell a) \<noteq> NOT (pat a SEED_A)) as)"
  by (induction as arbitrary: st) (simp_all add: sweep_step_def Let_def)

lemma sweep_inverted:
  "t_mem (fold (sweep_step cell SWEEP_VERIFY_WRITE_INV) as st) = write_all (\<lambda>a. NOT (pat a SEED_A)) cell as (t_mem st)"
  by (induction as arbitrary: st) (simp_all add: write_all_def sweep_step_def Let_def)

text \<open>The fused phase: nothing fails when no cell is shared; otherwise the first address of a shared cell fails.\<close>

lemma sweep_inverts:
  assumes "distinct as" "inj_on cell (set as)" "\<forall>a\<in>set as. t_mem st (cell a) = pat a SEED_A"
  shows "sweep_failures (fold (sweep_step cell SWEEP_VERIFY_WRITE_INV) as st) = sweep_failures st"
  using assms
proof (induction as arbitrary: st)
  case (Cons a as)
  have "cell b \<noteq> cell a" if "b \<in> set as" for b
    using Cons.prems(1,2) that by (auto simp: inj_on_def)
  then show ?case
    using Cons.prems by (subst fold_simps, subst Cons.IH) (auto simp: sweep_step_def Let_def)
qed simp

lemma sweep_failures_mono:
  "sweep_failures st \<le> sweep_failures (fold (sweep_step cell mode) as st)"
proof (induction as arbitrary: st)
  case (Cons a as)
  have "sweep_failures st \<le> sweep_failures (sweep_step cell mode a st)"
    by (cases mode) (simp_all add: sweep_step_def Let_def)
  also note Cons.IH
  finally show ?case by simp
qed simp

lemma sweep_first:
  assumes "sweep_failures (fold (sweep_step cell SWEEP_VERIFY_WRITE_INV) (xs @ x # ys) st) = 0"
    and "cell x \<notin> cell ` set xs"
  shows "t_mem st (cell x) = pat x SEED_A"
proof -
  let ?st = "fold (sweep_step cell SWEEP_VERIFY_WRITE_INV) xs st"
  have "t_mem ?st (cell x) = t_mem st (cell x)"
    using assms(2) by (induction xs arbitrary: st) (auto simp: sweep_step_def Let_def)
  moreover have "t_mem ?st (cell x) = pat x SEED_A"
  proof (rule ccontr)
    assume "t_mem ?st (cell x) \<noteq> pat x SEED_A"
    then have "0 < sweep_failures (sweep_step cell SWEEP_VERIFY_WRITE_INV x ?st)"
      by (simp add: sweep_step_def Let_def)
    then show False
      using assms(1) sweep_failures_mono [of "sweep_step cell SWEEP_VERIFY_WRITE_INV x ?st" cell SWEEP_VERIFY_WRITE_INV ys]
      by simp
  qed
  ultimately show ?thesis by simp
qed

lemma shared_cell_detected:
  assumes "sweep_failures (fold (sweep_step cell SWEEP_VERIFY_WRITE_INV) as st) = 0" "distinct as"
    and "t_mem st = write_all (\<lambda>a. pat a SEED_A) cell as m"
  shows "inj_on cell (set as)"
proof (rule inj_onI)
  fix a b assume ab: "a \<in> set as" "b \<in> set as" "cell a = cell b"
  then have ex: "\<exists>x\<in>set as. cell x = cell a" by blast
  then obtain xs x ys where f: "as = xs @ x # ys" "cell x = cell a" "\<forall>z\<in>set xs. cell z \<noteq> cell a"
    by (rule split_list_first_propE)
  obtain us z vs where l: "as = us @ z # vs" "cell z = cell a" "\<forall>y\<in>set vs. cell y \<noteq> cell a"
    using ex by (rule split_list_last_propE)
  have "t_mem st (cell x) = pat x SEED_A"
    using assms(1) f by (intro sweep_first [of cell xs x ys]) auto
  moreover have "t_mem st (cell z) = pat z SEED_A"
    unfolding assms(3) using l by (intro sweep_marks.last_write [OF l(1)]) auto
  ultimately have "x = z" using f(2) l(2) by (intro pat_inj [of x SEED_A]) simp
  then have "xs = us" "ys = vs" using f(1) l(1) assms(2) by (auto simp: append_eq_append_conv2 Cons_eq_append_conv append_eq_Cons_conv)
  then have only: "y = x" if "y \<in> set as" "cell y = cell a" for y using that f l by auto
  from only [of a] only [of b] ab show "a = b" by simp
qed

lemma all_addrs:
  assumes "\<forall>w\<in>set wins. loop_ends inc (w_end w)"
  shows "set (concat (map (win_addrs inc) wins)) = (\<Union>w\<in>set wins. grid inc (w_start w) (w_end w))"
  using assms by (simp add: win_addrs_def addrs_grid)

lemma addrs_distinct:
  assumes "\<forall>w\<in>set wins. loop_ends inc (w_end w)" "sorted_wrt (\<lambda>v w. w_end v \<le> w_start w) wins"
  shows "distinct (concat (map (win_addrs inc) wins))"
  using assms
proof (induction wins)
  case (Cons w wins)
  have "set (win_addrs inc w) \<inter> set (concat (map (win_addrs inc) wins)) = {}"
  proof -
    have "a \<notin> grid inc (w_start v) (w_end v)" if "a \<in> grid inc (w_start w) (w_end w)" "v \<in> set wins" for a v
    proof -
      have "a < w_end w" "w_end w \<le> w_start v" using that Cons.prems(2) by (auto simp: grid_def)
      then show ?thesis by (auto simp: grid_def)
    qed
    then show ?thesis using Cons.prems(1) all_addrs [of wins inc] addrs_grid(1) [of inc "w_end w" "w_start w"] by (auto simp: win_addrs_def)
  qed
  then show ?case using Cons addrs_grid(2) [of inc "w_end w" "w_start w"] by (simp add: win_addrs_def)
qed simp

lemma line_edges_detect:
  assumes "\<forall>w\<in>set wins. loop_ends LINE_BYTES (w_end w)"
  shows "\<exists>st'. test_line_edges cell wins st =
    Some (if inj_on cell (\<Union>w\<in>set wins. grid LINE_BYTES (w_start w) (w_end w)) then 0 else 1, st')"
proof -
  let ?as = "concat (map (win_addrs LINE_BYTES) wins)"
  have p: "each_window (line_pass cell v) wins st = Some (fold (line_step cell v) ?as st)" for v st
    using assms by (intro each_window_fold) (simp add: line_pass_def win_addrs_def addr_loop_fold)
  let ?st = "fold (line_step cell False) ?as (st\<lparr>sweep_failures := 0\<rparr>)"
  have "sweep_failures (fold (line_step cell True) ?as ?st) > 0 \<longleftrightarrow> \<not> inj_on cell (set ?as)"
    unfolding line_marks.intact_iff [of ?as cell "t_mem st", symmetric] line_verified line_written
    by (auto simp: filter_empty_conv)
  then show ?thesis using all_addrs [OF assms] by (simp add: test_line_edges_def p)
qed

lemma full_sweep_detect:
  assumes ends: "\<forall>w\<in>set wins. loop_ends WORD_BYTES (w_end w)" and sep: "sorted_wrt (\<lambda>v w. w_end v \<le> w_start w) wins"
  shows "\<exists>st'. test_full_sweep cell wins st =
    Some (if inj_on cell (\<Union>w\<in>set wins. grid WORD_BYTES (w_start w) (w_end w)) then 0 else 1, st')"
proof -
  let ?as = "concat (map (win_addrs WORD_BYTES) wins)" and ?m = "\<lambda>a. pat a SEED_A"
  note dist = addrs_distinct [OF ends sep]
  have p: "each_window (sweep cell v) wins st = Some (fold (sweep_step cell v) ?as st)" for v st
    using ends by (intro each_window_fold) (simp add: sweep_def win_addrs_def addr_loop_fold)
  define s1 where "s1 = fold (sweep_step cell SWEEP_WRITE) ?as (st\<lparr>sweep_failures := 0\<rparr>)"
  define s2 where "s2 = fold (sweep_step cell SWEEP_VERIFY_WRITE_INV) ?as s1"
  define s3 where "s3 = fold (sweep_step cell SWEEP_VERIFY_INV) ?as s2"
  have m1: "t_mem s1 = write_all ?m cell ?as (t_mem st)" and f1: "sweep_failures s1 = 0"
    by (simp_all add: s1_def sweep_written)
  have "sweep_failures s3 = 0 \<longleftrightarrow> inj_on cell (set ?as)"
  proof
    assume "sweep_failures s3 = 0"
    then have "sweep_failures s2 = 0"
      using sweep_failures_mono [of s2 cell SWEEP_VERIFY_INV ?as] by (simp add: s3_def)
    then show "inj_on cell (set ?as)" using dist m1 by (intro shared_cell_detected [of cell ?as s1]) (simp_all add: s2_def)
  next
    assume inj: "inj_on cell (set ?as)"
    have "\<forall>a\<in>set ?as. t_mem s1 (cell a) = ?m a"
      unfolding m1 using inj sweep_marks.intact_iff by blast
    then have "sweep_failures s2 = 0" unfolding s2_def using dist inj f1 by (simp add: sweep_inverts)
    moreover have "\<forall>a\<in>set ?as. t_mem s2 (cell a) = NOT (?m a)"
      unfolding s2_def sweep_inverted using inj inverse_marks.intact_iff by blast
    ultimately show "sweep_failures s3 = 0" by (simp add: s3_def sweep_checked filter_empty_conv)
  qed
  then show ?thesis
    using all_addrs [OF ends] by (auto simp: test_full_sweep_def p s1_def s2_def s3_def)
qed

text \<open>The capacity check and the marker windows.\<close>

lemma probe_stores:
  "fold (probe_store cell ref) offs m = write_all (\<lambda>a. pat a SEED_PROBE) cell (map ((+) ref) offs) m"
  by (induction offs arbitrary: m) (simp_all add: write_all_def probe_store_def)

lemma first_lost_iff:
  "first_lost cell ref m offs = 0 \<longleftrightarrow> (\<forall>off\<in>set offs. off = 0 \<or> m (cell (ref + off)) = pat (ref + off) SEED_PROBE)"
  by (induction offs) auto

lemma probe_offsets_result:
  assumes "j \<le> 63" "unat e \<le> 2 ^ 63" "unat ref + 8 < 2 ^ 63" "length offs \<le> j"
  shows "\<exists>offs'. probe_offsets wins ref e (2 ^ j) offs = Some offs' \<and>
    set offs' = set offs \<union> {2 ^ i | i. j \<le> i \<and> i < 63 \<and> ref + 2 ^ i + WORD_BYTES \<le> e \<and> addr_testable wins (ref + 2 ^ i)}"
  using assms(1,4)
proof (induction j arbitrary: offs rule: inc_induct)
  case base
  have "unat (ref + 2 ^ 63 + WORD_BYTES) = unat ref + 2 ^ 63 + 8"
    using assms(3) by (simp add: unat_word_ariths WORD_BYTES_def)
  then have "\<not> ref + 2 ^ 63 + WORD_BYTES \<le> e" using assms(2) by (simp add: word_le_nat_alt)
  then show ?case by (subst probe_offsets.simps) auto
next
  case (step j)
  have below: "\<not> ref + 2 ^ i + WORD_BYTES \<le> e" if "\<not> ref + 2 ^ j + WORD_BYTES \<le> e" "j \<le> i" "i < 63" for i
  proof -
    have u: "unat (ref + 2 ^ k + WORD_BYTES) = unat ref + 2 ^ k + 8" if "k < 63" for k
    proof -
      have "(2 :: nat) ^ k \<le> 2 ^ 62" using that by (intro power_increasing) simp_all
      moreover from this have "unat (of_nat (2 ^ k) :: u64) = 2 ^ k" by (intro unat_of_nat_small) simp
      then have "unat (2 ^ k :: u64) = 2 ^ k" by simp
      ultimately show ?thesis using assms(3) by (simp add: unat_word_ariths WORD_BYTES_def)
    qed
    have "(2 :: nat) ^ j \<le> 2 ^ i" using that by (intro power_increasing) simp_all
    then show ?thesis using that(1) u [of j] u [of i] that(2,3) unfolding word_le_nat_alt by linarith
  qed
  let ?offs = "if addr_testable wins (ref + 2 ^ j) then offs @ [2 ^ j] else offs"
  have dbl: "push_bit 1 (2 ^ j) = (2 ^ Suc j :: u64)" by (simp add: push_bit_eq_mult)
  show ?case
  proof (cases "ref + 2 ^ j + WORD_BYTES \<le> e")
    case False
    then have "{2 ^ i | i. j \<le> i \<and> i < 63 \<and> ref + 2 ^ i + WORD_BYTES \<le> e \<and> addr_testable wins (ref + 2 ^ i)} = ({} :: u64 set)"
      using below by blast
    then show ?thesis using False by (subst probe_offsets.simps) auto
  next
    case True
    have "probe_offsets wins ref e (2 ^ j) offs = probe_offsets wins ref e (2 ^ Suc j) ?offs"
      using True step.prems step.hyps by (subst probe_offsets.simps) (simp add: dbl mult.commute)
    moreover have "length ?offs \<le> Suc j" using step.prems by simp
    from step.IH [OF this] obtain offs' where "probe_offsets wins ref e (2 ^ Suc j) ?offs = Some offs'"
      "set offs' = set ?offs \<union> {2 ^ i | i. Suc j \<le> i \<and> i < 63 \<and> ref + 2 ^ i + WORD_BYTES \<le> e \<and> addr_testable wins (ref + 2 ^ i)}"
      by blast
    moreover have "{2 ^ i | i. j \<le> i \<and> i < 63 \<and> ref + 2 ^ i + WORD_BYTES \<le> e \<and> addr_testable wins (ref + 2 ^ i)} =
        (if addr_testable wins (ref + 2 ^ j) then {2 ^ j} else {}) \<union>
        {2 ^ i | i. Suc j \<le> i \<and> i < 63 \<and> ref + 2 ^ i + WORD_BYTES \<le> e \<and> addr_testable wins (ref + 2 ^ i)}" (is "?L = ?R")
    proof -
      have "j \<le> i \<longleftrightarrow> i = j \<or> Suc j \<le> i" for i by auto
      then show ?thesis using True step.hyps by auto
    qed
    ultimately show ?thesis by auto
  qed
qed

lemma capacity_detect:
  assumes "wins \<noteq> []" "unat (w_end (last wins)) \<le> 2 ^ 63" "unat (w_start (hd wins)) + 8 < 2 ^ 63"
  shows "\<exists>wrap ref_ok m'. test_capacity_probe cell wins m =
    Some (if inj_on cell (probe_addrs wins) then 0 else 1, wrap, ref_ok, m')"
proof -
  let ?ref = "w_start (hd wins)" and ?e = "w_end (last wins)" and ?mk = "\<lambda>a. pat a SEED_PROBE"
  have twenty: "(0x100000 :: u64) = 2 ^ 20" by simp
  obtain offs where o: "probe_offsets wins ?ref ?e 0x100000 [] = Some offs"
    "set offs = {2 ^ i | i. 20 \<le> i \<and> i < 63 \<and> ?ref + 2 ^ i + WORD_BYTES \<le> ?e \<and> addr_testable wins (?ref + 2 ^ i)}"
    using probe_offsets_result [of 20 ?e ?ref "[]" wins] assms(2,3) unfolding twenty by auto
  let ?offs = "offs @ [?e - LINE_BYTES - ?ref]" and ?as = "?ref # map ((+) ?ref) (offs @ [?e - LINE_BYTES - ?ref])"
  let ?m = "write_all ?mk cell ?as m"
  have st: "fold (probe_store cell ?ref) ?offs (m(cell ?ref := ?mk ?ref)) = ?m"
    unfolding probe_stores by (simp add: write_all_def)
  have as: "set ?as = probe_addrs wins" by (auto simp: probe_addrs_def o(2) Let_def)
  have "(first_lost cell ?ref ?m ?offs = 0 \<and> ?m (cell ?ref) = ?mk ?ref) \<longleftrightarrow> (\<forall>a\<in>set ?as. ?m (cell a) = ?mk a)"
    unfolding first_lost_iff by auto
  also have "\<dots> \<longleftrightarrow> inj_on cell (probe_addrs wins)"
    using probe_marks.intact_iff [of ?as cell m] unfolding as .
  finally show ?thesis
    using assms(1) by (simp only: test_capacity_probe_def o(1) st Let_def if_False bind.simps) simp
qed

lemma marker_verify_bad:
  assumes "loop_ends LINE_BYTES (w_end w)"
  shows "\<exists>r. marker_verify cell m w = Some r \<and> (fst r > 0 \<longleftrightarrow> (\<exists>a\<in>grid LINE_BYTES (w_start w) (w_end w). m (cell a) \<noteq> pat a SEED_A))"
proof -
  have "fst (fold (\<lambda>a (bad, first_bad, got0).
          if m (cell a) \<noteq> pat a SEED_A
          then if bad = 0 then (1, a, m (cell a)) else (bad + 1, first_bad, got0)
          else (bad, first_bad, got0)) as (n, x, y)) > 0 \<longleftrightarrow> n > 0 \<or> (\<exists>a\<in>set as. m (cell a) \<noteq> pat a SEED_A)"
    for as and n :: nat and x y
    by (induction as arbitrary: n x y) auto
  then show ?thesis
    unfolding marker_verify_def addr_loop_fold [OF assms] addrs_grid(1) [OF assms, symmetric] by auto
qed

lemma marker_report_bad:
  assumes "\<forall>w\<in>set ws. loop_ends LINE_BYTES (w_end w)"
  shows "\<exists>f. marker_report cell m ws = Some f \<and> 0 \<le> f \<and>
    (f = 0 \<longleftrightarrow> (\<forall>w\<in>set ws. \<forall>a\<in>grid LINE_BYTES (w_start w) (w_end w). m (cell a) = pat a SEED_A))"
  using assms
proof (induction ws)
  case (Cons w ws)
  have "loop_ends LINE_BYTES (w_end w)" using Cons.prems by simp
  from marker_verify_bad [OF this, of cell m] obtain r where
    "marker_verify cell m w = Some r \<and> (fst r > 0 \<longleftrightarrow> (\<exists>a\<in>grid LINE_BYTES (w_start w) (w_end w). m (cell a) \<noteq> pat a SEED_A))" by (rule exE)
  moreover obtain f where "marker_report cell m ws = Some f" "0 \<le> f"
    "f = 0 \<longleftrightarrow> (\<forall>w\<in>set ws. \<forall>a\<in>grid LINE_BYTES (w_start w) (w_end w). m (cell a) = pat a SEED_A)"
    using Cons by auto
  ultimately show ?case by (cases r) auto
qed simp

lemma markers_detect:
  assumes "wins \<noteq> []" "\<forall>w\<in>set (marker_windows wins). loop_ends LINE_BYTES (w_end w)"
  shows "\<exists>f m'. test_interleave_markers cell wins m = Some (f, m') \<and>
    (f = 0 \<longleftrightarrow> inj_on cell (\<Union>w\<in>set (marker_windows wins). grid LINE_BYTES (w_start w) (w_end w)))"
proof -
  let ?ws = "marker_windows wins" and ?as = "concat (map (win_addrs LINE_BYTES) (marker_windows wins))"
  have w: "each_window (marker_write cell) ?ws m = Some (write_all (\<lambda>a. pat a SEED_A) cell ?as m)"
    unfolding write_all_def
    using assms(2) by (intro each_window_fold) (simp add: marker_write_def win_addrs_def addr_loop_fold)
  obtain f where f: "marker_report cell (write_all (\<lambda>a. pat a SEED_A) cell ?as m) ?ws = Some f"
    "f = 0 \<longleftrightarrow> (\<forall>w\<in>set ?ws. \<forall>a\<in>grid LINE_BYTES (w_start w) (w_end w). write_all (\<lambda>a. pat a SEED_A) cell ?as m (cell a) = pat a SEED_A)"
    using marker_report_bad [OF assms(2)] by blast
  have "f = 0 \<longleftrightarrow> (\<forall>a\<in>set ?as. write_all (\<lambda>a. pat a SEED_A) cell ?as m (cell a) = pat a SEED_A)"
    unfolding f(2) all_addrs [OF assms(2)] by blast
  also have "\<dots> \<longleftrightarrow> inj_on cell (\<Union>w\<in>set ?ws. grid LINE_BYTES (w_start w) (w_end w))"
    using sweep_marks.intact_iff [of ?as cell m] unfolding all_addrs [OF assms(2)] .
  finally show ?thesis
    using assms(1) w f(1) by (simp only: test_interleave_markers_def Let_def if_False bind.simps) simp
qed

section \<open>Properties\<close>

text \<open>
  C6. Full-range suites. On disjoint windows that end at least a line below the top of the address
  space, the line edge test and the moving-inversion sweep end, and each passes exactly when no two
  of the addresses it visits reach the same memory cell, whatever the mapping of addresses to cells.
\<close>

theorem mem_test_detects_aliasing:
  assumes "\<forall>w\<in>set wins. unat (w_end w) + 64 \<le> 2 ^ 64" "sorted_wrt (\<lambda>v w. w_end v \<le> w_start w) wins"
  shows "(\<exists>st'. test_line_edges cell wins st =
        Some (if inj_on cell (\<Union>w\<in>set wins. grid LINE_BYTES (w_start w) (w_end w)) then 0 else 1, st')) \<and>
    (\<exists>st'. test_full_sweep cell wins st =
        Some (if inj_on cell (\<Union>w\<in>set wins. grid WORD_BYTES (w_start w) (w_end w)) then 0 else 1, st'))"
proof -
  have "\<forall>w\<in>set wins. loop_ends LINE_BYTES (w_end w)" "\<forall>w\<in>set wins. loop_ends WORD_BYTES (w_end w)"
    using assms(1) by (auto simp: loop_ends_def LINE_BYTES_def WORD_BYTES_def)
  then show ?thesis using line_edges_detect full_sweep_detect [OF _ assms(2)] by blast
qed

theorem mem_test_detects_aliasing_witness:
  "\<exists>st'. test_line_edges (\<lambda>a. a AND 0x7F) [\<lparr>w_start = 0x80000000, w_end = 0x80000100\<rparr>]
    \<lparr>t_mem = \<lambda>_. 0, sweep_failures = 0, t_log = []\<rparr> = Some (1, st')"
proof -
  let ?w = "\<lparr>w_start = 0x80000000, w_end = 0x80000100\<rparr> :: window"
  have "0x80000000 \<in> grid LINE_BYTES (w_start ?w) (w_end ?w)" "0x80000080 \<in> grid LINE_BYTES (w_start ?w) (w_end ?w)"
    by (simp_all add: grid_def LINE_BYTES_def)
  moreover have "(0x80000000 :: u64) \<noteq> 0x80000080" "(0x80000000 :: u64) AND 0x7F = 0x80000080 AND 0x7F" by simp_all
  ultimately have "\<not> inj_on (\<lambda>a. a AND 0x7F) (grid LINE_BYTES (w_start ?w) (w_end ?w))" unfolding inj_on_def by blast
  then show ?thesis
    using mem_test_detects_aliasing [of "[?w]" "\<lambda>a. a AND 0x7F"] by simp
qed

text \<open>
  Quick suites. The capacity check ends and passes exactly when the reference cell, the powers of
  two from it and the last line are distinct cells; the interleave marker test passes exactly when
  the lines of its windows are.
\<close>

theorem mem_test_quick_suites:
  assumes "wins \<noteq> []" "unat (w_end (last wins)) \<le> 2 ^ 63" "unat (w_start (hd wins)) + 0x400000 < 2 ^ 63"
  shows "(\<exists>wrap ref_ok m'. test_capacity_probe cell wins m =
        Some (if inj_on cell (probe_addrs wins) then 0 else 1, wrap, ref_ok, m')) \<and>
    (\<exists>f m'. test_interleave_markers cell wins m = Some (f, m') \<and>
      (f = 0 \<longleftrightarrow> inj_on cell (\<Union>w\<in>set (marker_windows wins). grid LINE_BYTES (w_start w) (w_end w))))"
proof -
  have "unat (w_start (hd wins) + WIN_BYTES) = unat (w_start (hd wins)) + 0x400000"
    using assms(3) by (simp add: WIN_BYTES_def unat_word_ariths)
  then have "\<forall>w\<in>set (marker_windows wins). loop_ends LINE_BYTES (w_end w)"
    using assms(2,3) by (auto simp: marker_windows_def loop_ends_def LINE_BYTES_def WIN_BYTES_def Let_def)
  then show ?thesis using capacity_detect [of wins cell m] markers_detect [of wins cell m] assms by auto
qed

theorem mem_test_quick_suites_witness:
  "\<exists>wrap ref_ok m'. test_capacity_probe (\<lambda>a. a AND 0x7FFFFF) [\<lparr>w_start = 0x80400000, w_end = 0x82000000\<rparr>] (\<lambda>_. 0) =
     Some (1, wrap, ref_ok, m')"
proof -
  let ?wins = "[\<lparr>w_start = 0x80400000, w_end = 0x82000000\<rparr>] :: window list" and ?c = "\<lambda>a :: u64. a AND 0x7FFFFF"
  have "0x80400000 \<in> probe_addrs ?wins" by (simp add: probe_addrs_def)
  moreover have "0x80400000 + 2 ^ 23 \<in> probe_addrs ?wins"
    unfolding probe_addrs_def Let_def by (rule UnI2, intro CollectI exI [of _ 23]) (simp add: addr_testable_def WORD_BYTES_def)
  moreover have "?c 0x80400000 = ?c (0x80400000 + 2 ^ 23)" "(0x80400000 :: u64) \<noteq> 0x80400000 + 2 ^ 23" by simp_all
  ultimately have "\<not> inj_on ?c (probe_addrs ?wins)" unfolding inj_on_def by blast
  then show ?thesis using mem_test_quick_suites [of ?wins ?c "\<lambda>_. 0"] by simp
qed

end
