(* ===== verification/Mem_Windows.thy ===== *)
theory Mem_Windows
  imports Heap_Sbrk Soctglue Mem_Test "HOL-Library.Multiset"
begin

text \<open>
  What the memory test may touch, \<open>baremetal/mem-test/main.c\<close>: the RAM ranges of the device tree,
  sorted and merged in place, and the windows left after the program, its stacks and its heap.
\<close>

section \<open>RAM ranges\<close>

definition MAX_RANGES :: nat where "MAX_RANGES = 8"

record ram_range =
  rr_base :: u64
  rr_size :: u64

text \<open>The pairs of one node; more than eight overrun \<open>vals\<close>, as in \<open>soct_ram_end\<close>.\<close>

definition node_ranges :: "blob \<Rightarrow> 'h dtb_state \<Rightarrow> nat \<Rightarrow> ram_range list option" where
  "node_ranges b st n = do {
     mem \<leftarrow> device_type_is b st n ''memory'';
     if \<not> mem then Some []
     else do {
       reg \<leftarrow> dtb_find_prop b st (Some n) (cstring ''reg'');
       case reg of
         None \<Rightarrow> Some []
       | Some p \<Rightarrow> do {
           pr \<leftarrow> prop_at st p;
           ac \<leftarrow> dtb_get_addr_cells_for b st (Some n);
           sc \<leftarrow> dtb_get_size_cells_for b st (Some n);
           pairs \<leftarrow> dtb_count_prop_2 b (Some pr) (ac, sc);
           if pairs = 0 then Some []
           else do {
             vals \<leftarrow> dtb_read_prop_2 b (Some pr) (ac, sc);
             if length vals > MAX_RANGES then None
             else Some (map (\<lambda>(x, y). \<lparr>rr_base = x, rr_size = y\<rparr>) (take (min pairs MAX_RANGES) vals)) } } } }"

partial_function (option) collect_ranges ::
    "blob \<Rightarrow> 'h dtb_state \<Rightarrow> nat \<Rightarrow> nat option \<Rightarrow> ram_range list \<Rightarrow> ram_range list option" where
  "collect_ranges b st mx scan out =
     (case scan of
        None \<Rightarrow> Some out
      | Some n \<Rightarrow> do {
          rs \<leftarrow> node_ranges b st n;
          next \<leftarrow> dtb_get_sibling st (Some n);
          collect_ranges b st mx next (out @ take (mx - length out) rs) })"

declare collect_ranges.simps [code]

text \<open>Insertion of the range at index \<open>j\<close>: greater ranges before it move up by one.\<close>

fun insert_range :: "ram_range \<Rightarrow> ram_range list \<Rightarrow> nat \<Rightarrow> ram_range list" where
  "insert_range key out 0 = out[0 := key]"
| "insert_range key out (Suc j) =
     (if rr_base (out ! j) > rr_base key then insert_range key (out[Suc j := out ! j]) j
      else out[Suc j := key])"

definition sort_ranges :: "ram_range list \<Rightarrow> ram_range list" where
  "sort_ranges out = fold (\<lambda>i out. insert_range (out ! i) out i) [1..<length out] out"

definition rr_end :: "ram_range \<Rightarrow> u64" where
  "rr_end r = rr_base r + rr_size r"

definition merge_step :: "nat \<Rightarrow> ram_range list \<times> nat \<Rightarrow> ram_range list \<times> nat" where
  "merge_step i = (\<lambda>(out, m).
     if rr_base (out ! i) \<le> rr_end (out ! m)
     then (if rr_end (out ! i) > rr_end (out ! m)
           then out[m := (out ! m)\<lparr>rr_size := rr_end (out ! i) - rr_base (out ! m)\<rparr>]
           else out, m)
     else (out[Suc m := out ! i], Suc m))"

definition merge_ranges :: "ram_range list \<Rightarrow> ram_range list" where
  "merge_ranges out =
     (case fold merge_step [1..<length out] (out, 0) of
        (out', m) \<Rightarrow> if out = [] then [] else take (m + 1) out')"

definition dtb_ram_ranges :: "blob \<Rightarrow> 'h dtb_state \<Rightarrow> nat \<Rightarrow> ram_range list option" where
  "dtb_ram_ranges b st mx = do {
     root \<leftarrow> dtb_find b st (cstring ''/'');
     case root of
       None \<Rightarrow> Some []
     | Some r \<Rightarrow> do {
         child \<leftarrow> dtb_get_child st (Some r);
         out \<leftarrow> collect_ranges b st mx child [];
         Some (merge_ranges (sort_ranges out)) } }"

definition dtb_nharts :: "blob \<Rightarrow> 'h dtb_state \<Rightarrow> int option" where
  "dtb_nharts b st = do {
     cpus \<leftarrow> dtb_find b st (cstring ''/cpus'');
     case cpus of
       None \<Rightarrow> Some 1
     | Some c \<Rightarrow> do {
         child \<leftarrow> dtb_get_child st (Some c);
         k \<leftarrow> count_cpus b st child 0;
         Some (if k > 0 then int k else 1) } }"

section \<open>Windows\<close>

definition reserved_end :: "heap_layout \<Rightarrow> int \<Rightarrow> u64 \<Rightarrow> u64" where
  "reserved_end L nharts brk =
     (let e = stack_start L + of_int nharts * stack_size L;
          e = (if brk + 0x100000 > e then brk + 0x100000 else e)
      in (e + (WIN_BYTES - 1)) AND NOT (WIN_BYTES - 1))"

text \<open>One range on RV64, where \<open>addr_limit\<close> is the largest address.\<close>

definition window_step :: "u64 \<Rightarrow> nat \<Rightarrow> ram_range \<Rightarrow> window list \<times> u64 \<Rightarrow> window list \<times> u64" where
  "window_step reserved mx r = (\<lambda>(out, clamped).
     if length out \<ge> mx then (out, clamped)
     else
       let start = rr_base r; e = rr_end r; addr_limit = - 1;
           start = (if start < reserved then reserved else start);
           clamped = (if addr_limit \<noteq> 0 \<and> e > addr_limit then clamped + (e - addr_limit) else clamped);
           e = (if addr_limit \<noteq> 0 \<and> e > addr_limit then addr_limit else e)
       in if start + WIN_BYTES > e then (out, clamped)
          else (out @ [\<lparr>w_start = start, w_end = e\<rparr>], clamped))"

definition compute_windows :: "heap_layout \<Rightarrow> int \<Rightarrow> u64 \<Rightarrow> ram_range list \<Rightarrow> nat \<Rightarrow> window list \<times> u64" where
  "compute_windows L nharts brk ranges mx = fold (window_step (reserved_end L nharts brk) mx) ranges ([], 0)"

section \<open>Specification\<close>

definition span :: "ram_range \<Rightarrow> nat set" where
  "span r = {unat (rr_base r)..<unat (rr_base r) + unat (rr_size r)}"

definition range_ok :: "ram_range \<Rightarrow> bool" where
  "range_ok r \<longleftrightarrow> unat (rr_base r) + unat (rr_size r) < 2 ^ 64"

text \<open>Ranges in ascending order, none of which touches the next.\<close>

definition apart :: "ram_range \<Rightarrow> ram_range \<Rightarrow> bool" where
  "apart r s \<longleftrightarrow> unat (rr_base r) + unat (rr_size r) < unat (rr_base s)"

fun coalesce :: "ram_range \<Rightarrow> ram_range list \<Rightarrow> ram_range list" where
  "coalesce c [] = [c]"
| "coalesce c (r # rs) =
     (if rr_base r \<le> rr_end c
      then coalesce (if rr_end r > rr_end c then c\<lparr>rr_size := rr_end r - rr_base c\<rparr> else c) rs
      else c # coalesce r rs)"

text \<open>A range that ends, and a footprint that ends, well below the top of the address space.\<close>

definition low_range :: "ram_range \<Rightarrow> bool" where
  "low_range r \<longleftrightarrow> unat (rr_base r) + unat (rr_size r) + 0x1000000 \<le> 2 ^ 64"

text \<open>A window that is the upper part of one of the ranges, above the reserved area.\<close>

definition window_in :: "u64 \<Rightarrow> ram_range list \<Rightarrow> window \<Rightarrow> bool" where
  "window_in reserved ranges w \<longleftrightarrow> reserved \<le> w_start w \<and> unat (w_start w) + 0x400000 \<le> unat (w_end w) \<and>
     (\<exists>r\<in>set ranges. unat (rr_base r) \<le> unat (w_start w) \<and> unat (w_end w) = unat (rr_base r) + unat (rr_size r))"

text \<open>
  The windows as they should be: what of each range lies above the program, its stacks and a mebibyte of
  heap headroom, rounded up to 4 MiB, when that is 4 MiB at least.
\<close>

definition footprint :: "heap_layout \<Rightarrow> heap_env \<Rightarrow> u64 \<Rightarrow> nat" where
  "footprint L E brk = (max (unat (stacks_end L E)) (unat brk + 0x100000) + 0x3FFFFF) div 0x400000 * 0x400000"

definition windows_spec :: "nat \<Rightarrow> ram_range list \<Rightarrow> (nat \<times> nat) list" where
  "windows_spec low ranges =
     filter (\<lambda>(a, e). a + 0x400000 \<le> e)
       (map (\<lambda>r. (max low (unat (rr_base r)), unat (rr_base r) + unat (rr_size r))) ranges)"

definition window_bounds :: "window \<Rightarrow> nat \<times> nat" where
  "window_bounds w = (unat (w_start w), unat (w_end w))"

section \<open>Lemmas\<close>

lemma unat_rr_end: "range_ok r \<Longrightarrow> unat (rr_end r) = unat (rr_base r) + unat (rr_size r)"
  by (simp add: range_ok_def rr_end_def unat_add_no_wrap)

lemma insert_range_length [simp]: "length (insert_range key out j) = length out"
  by (induction j arbitrary: out) auto

lemma insert_range_drop: "j < length out \<Longrightarrow> drop (Suc j) (insert_range key out j) = drop (Suc j) out"
proof (induction j arbitrary: out)
  case (Suc j)
  then have "drop (Suc j) (insert_range key (out[Suc j := out ! j]) j) = drop (Suc j) (out[Suc j := out ! j])" by simp
  then have "drop 1 (drop (Suc j) (insert_range key (out[Suc j := out ! j]) j)) = drop 1 (drop (Suc j) (out[Suc j := out ! j]))"
    by simp
  then show ?case using Suc.prems by simp
next
  case 0
  then show ?case by (cases out) simp_all
qed

lemma insert_range_mset: "j < length out \<Longrightarrow> mset (insert_range key out j) = mset (out[j := key])"
proof (induction j arbitrary: out)
  case (Suc j)
  then show ?case by (auto simp: mset_update nth_list_update)
qed simp

lemma insert_range_sorted:
  assumes "j < length out" "sorted (map rr_base (take j out))"
  shows "sorted (map rr_base (take (Suc j) (insert_range key out j))) \<and>
    set (take (Suc j) (insert_range key out j)) = insert key (set (take j out))"
  using assms
proof (induction j arbitrary: out)
  case 0
  then show ?case by (cases out) simp_all
next
  case (Suc j)
  have t: "take (Suc j) out = take j out @ [out ! j]" using Suc.prems(1) by (simp add: take_Suc_conv_app_nth)
  have le: "\<forall>r\<in>set (take j out). rr_base r \<le> rr_base (out ! j)" and srt: "sorted (map rr_base (take j out))"
    using Suc.prems(2) unfolding t by (auto simp: sorted_append)
  show ?case
  proof (cases "rr_base (out ! j) > rr_base key")
    case False
    have "take (Suc (Suc j)) (out[Suc j := key]) = take (Suc j) out @ [key]" using Suc.prems(1) by simp
    then show ?thesis using False le srt unfolding insert_range.simps by (auto simp: t sorted_append intro: order_trans)
  next
    case True
    let ?out = "out[Suc j := out ! j]" and ?R = "insert_range key (out[Suc j := out ! j]) j"
    have IH: "sorted (map rr_base (take (Suc j) ?R))" "set (take (Suc j) ?R) = insert key (set (take j out))"
      using Suc.IH [of ?out] Suc.prems(1) srt by simp_all
    have "drop (Suc j) ?R = drop (Suc j) ?out" using Suc.prems(1) by (intro insert_range_drop) simp
    then have "?R ! Suc j = out ! j"
      using Suc.prems(1) by (metis drop_update_self hd_drop_conv_nth insert_range_length length_list_update list.sel(1))
    then have "take (Suc (Suc j)) ?R = take (Suc j) ?R @ [out ! j]"
      using Suc.prems(1) by (simp add: take_Suc_conv_app_nth)
    then show ?thesis using True IH le by (auto simp: t sorted_append)
  qed
qed

lemma sort_ranges_sorted:
  "sorted (map rr_base (sort_ranges out)) \<and> mset (sort_ranges out) = mset out"
proof -
  have "length (fold (\<lambda>i out. insert_range (out ! i) out i) [1..<k] out) = length out \<and>
      mset (fold (\<lambda>i out. insert_range (out ! i) out i) [1..<k] out) = mset out \<and>
      sorted (map rr_base (take k (fold (\<lambda>i out. insert_range (out ! i) out i) [1..<k] out)))"
    if "k \<le> length out" for k
    using that
  proof (induction k)
    case (Suc k)
    let ?o = "fold (\<lambda>i out. insert_range (out ! i) out i) [1..<k] out"
    show ?case
    proof (cases "k = 0")
      case True
      then show ?thesis using Suc.prems by (cases out) simp_all
    next
      case False
      then have "k < length ?o" "sorted (map rr_base (take k ?o))" using Suc by simp_all
      from insert_range_sorted [OF this, of "?o ! k"] insert_range_mset [OF this(1), of "?o ! k"]
      show ?thesis using False Suc by simp
    qed
  qed simp
  note * = this [of "length out", folded sort_ranges_def, OF order_refl]
  then have "take (length out) (sort_ranges out) = sort_ranges out" by (intro take_all) simp
  with * show ?thesis by simp
qed

lemma merge_loop_coalesce:
  assumes "m < i" "i \<le> length out"
  shows "case fold merge_step [i..<length out] (out, m) of (out', m') \<Rightarrow>
    take (m' + 1) out' = take m out @ coalesce (out ! m) (drop i out)"
  using assms
proof (induction "length out - i" arbitrary: i m out)
  case 0
  then show ?case by (simp add: take_Suc_conv_app_nth)
next
  case (Suc n)
  then have i: "i < length out" by simp
  have u: "[i..<length out] = i # [Suc i..<length out]" and d: "drop i out = out ! i # drop (Suc i) out"
    using i by (simp_all add: upt_conv_Cons Cons_nth_drop_Suc)
  let ?c = "(out ! m)\<lparr>rr_size := rr_end (out ! i) - rr_base (out ! m)\<rparr>"
  have n: "n = length out - Suc i" using Suc.hyps(2) by simp
  consider (grow) "rr_base (out ! i) \<le> rr_end (out ! m)" "rr_end (out ! i) > rr_end (out ! m)"
    | (inside) "rr_base (out ! i) \<le> rr_end (out ! m)" "\<not> rr_end (out ! i) > rr_end (out ! m)"
    | (beyond) "\<not> rr_base (out ! i) \<le> rr_end (out ! m)" by blast
  then show ?case
  proof cases
    case grow
    have "case fold merge_step [Suc i..<length (out[m := ?c])] (out[m := ?c], m) of (out', m') \<Rightarrow>
        take (m' + 1) out' = take m (out[m := ?c]) @ coalesce (out[m := ?c] ! m) (drop (Suc i) (out[m := ?c]))"
      using n i Suc.prems(1) by (intro Suc.hyps(1)) simp_all
    then show ?thesis using grow Suc.prems(1) i by (simp add: u d merge_step_def drop_update_cancel)
  next
    case inside
    have "case fold merge_step [Suc i..<length out] (out, m) of (out', m') \<Rightarrow>
        take (m' + 1) out' = take m out @ coalesce (out ! m) (drop (Suc i) out)"
      using n i Suc.prems(1) by (intro Suc.hyps(1)) simp_all
    then show ?thesis using inside by (simp add: u d merge_step_def)
  next
    case beyond
    let ?o = "out[Suc m := out ! i]"
    have "case fold merge_step [Suc i..<length ?o] (?o, Suc m) of (out', m') \<Rightarrow>
        take (m' + 1) out' = take (Suc m) ?o @ coalesce (?o ! Suc m) (drop (Suc i) ?o)"
      using n i Suc.prems(1) by (intro Suc.hyps(1)) simp_all
    then show ?thesis
      using beyond Suc.prems(1) i by (simp add: u d merge_step_def take_Suc_conv_app_nth)
  qed
qed

lemma merge_ranges_coalesce: "merge_ranges (r # rs) = coalesce r rs"
  using merge_loop_coalesce [of 0 1 "r # rs"] by (simp add: merge_ranges_def del: upt_Suc split: prod.splits)

lemma coalesce_hd: "coalesce c rs \<noteq> [] \<and> rr_base (hd (coalesce c rs)) = rr_base c"
  by (induction rs arbitrary: c) auto

lemma coalesce_spans:
  assumes "range_ok c" "\<forall>r\<in>set rs. range_ok r" "sorted (map rr_base (c # rs))"
  shows "(\<Union>r\<in>set (coalesce c rs). span r) = (\<Union>r\<in>set (c # rs). span r) \<and>
    (\<forall>r\<in>set (coalesce c rs). range_ok r) \<and> sorted_wrt apart (coalesce c rs)"
  using assms
proof (induction rs arbitrary: c)
  case (Cons r rs)
  let ?g = "c\<lparr>rr_size := rr_end r - rr_base c\<rparr>"
  have ends: "unat (rr_end c) = unat (rr_base c) + unat (rr_size c)" "unat (rr_end r) = unat (rr_base r) + unat (rr_size r)"
    using Cons.prems by (simp_all add: unat_rr_end)
  have ord: "unat (rr_base c) \<le> unat (rr_base r)" using Cons.prems(3) by (simp add: word_le_nat_alt)
  consider (grow) "rr_base r \<le> rr_end c" "rr_end r > rr_end c" | (inside) "rr_base r \<le> rr_end c" "\<not> rr_end r > rr_end c"
    | (beyond) "\<not> rr_base r \<le> rr_end c" by blast
  then show ?case
  proof cases
    case grow
    have sz: "unat (rr_size ?g) = unat (rr_end r) - unat (rr_base c)"
      using ord ends by (simp add: unat_diff_le word_le_nat_alt)
    then have ok: "range_ok ?g" and sp: "span ?g = span c \<union> span r"
      using grow ord ends Cons.prems(2) by (auto simp: range_ok_def span_def word_le_nat_alt word_less_nat_alt)
    show ?thesis using Cons.IH [OF ok] Cons.prems grow sp by auto
  next
    case inside
    have "span r \<subseteq> span c" using inside ord ends by (auto simp: span_def word_le_nat_alt word_less_nat_alt)
    then show ?thesis using Cons.IH [of c] Cons.prems inside by auto
  next
    case beyond
    have IH: "(\<Union>s\<in>set (coalesce r rs). span s) = (\<Union>s\<in>set (r # rs). span s)" "\<forall>s\<in>set (coalesce r rs). range_ok s"
      "sorted_wrt apart (coalesce r rs)"
      using Cons.IH [of r] Cons.prems by auto
    have "apart c s" if "s \<in> set (coalesce r rs)" for s
    proof -
      have "apart c (hd (coalesce r rs))"
        using beyond ends coalesce_hd [of r rs] by (simp add: apart_def word_le_nat_alt)
      moreover have "s = hd (coalesce r rs) \<or> apart (hd (coalesce r rs)) s"
        using IH(3) that by (cases "coalesce r rs") auto
      ultimately show ?thesis by (auto simp: apart_def)
    qed
    then show ?thesis using IH Cons.prems(1) beyond by auto
  qed
qed simp

lemma sbrk_current:
  assumes "layout_ok L E" "heap_inv L E st"
  shows "sbrk L E 0 st = (curbrk st, st)"
proof -
  have "stack_start L < stacks_end L E" using assms(1) by (rule stack_start_less_stacks_end)
  then show ?thesis using assms(2) by (auto simp: sbrk_def heap_inv_def Let_def)
qed

lemma reserved_end_bounds:
  assumes "nharts = max 1 (env_n_harts E)"
    and "unat (stacks_end L E) + 0x1000000 \<le> 2 ^ 64" "unat brk + 0x1000000 \<le> 2 ^ 64"
  shows "stacks_end L E \<le> reserved_end L nharts brk" "unat brk + 0x100000 \<le> unat (reserved_end L nharts brk)"
    "unat (reserved_end L nharts brk) + 0x400000 < 2 ^ 64" "unat (reserved_end L nharts brk) = footprint L E brk"
proof -
  let ?s = "stacks_end L E" and ?b = "brk + 0x100000"
  define e where "e = (if ?b > ?s then ?b else ?s)"
  have st: "stack_start L + of_int nharts * stack_size L = ?s"
    using assms(1) by (simp add: stacks_end_def Let_def max_def)
  have mk: "WIN_BYTES - 1 = mask 22" by (simp add: WIN_BYTES_def mask_eq_exp_minus_1)
  have r: "reserved_end L nharts brk = (e + mask 22) AND NOT (mask 22)"
    unfolding reserved_end_def st Let_def e_def [symmetric] mk ..
  have b: "unat ?b = unat brk + 0x100000" using assms(3) by (simp add: unat_word_ariths)
  have e: "unat ?s \<le> unat e" "unat brk + 0x100000 \<le> unat e" "unat e + 0xF00000 \<le> 2 ^ 64"
    using assms(2,3) b by (auto simp: e_def word_less_nat_alt)
  note a = align_up [of e 22]
  have u: "unat e \<le> unat (reserved_end L nharts brk)" "unat (reserved_end L nharts brk) < unat e + 0x400000"
    using a(1,3) e(3) unfolding r word_le_nat_alt by simp_all
  show "?s \<le> reserved_end L nharts brk" "unat brk + 0x100000 \<le> unat (reserved_end L nharts brk)"
    "unat (reserved_end L nharts brk) + 0x400000 < 2 ^ 64"
    using u e unfolding word_le_nat_alt by linarith+
  have "unat (e + mask 22) = unat e + 0x3FFFFF"
    using e(3) by (subst unat_add_no_wrap) (simp_all add: mask_eq_exp_minus_1)
  moreover have "unat e = max (unat ?s) (unat brk + 0x100000)" using b by (simp add: e_def max_def word_less_nat_alt)
  ultimately show "unat (reserved_end L nharts brk) = footprint L E brk"
    unfolding r unat_and_not_mask by (simp add: footprint_def)
qed

text \<open>A window is the part of a range above the reserved area, when it is large enough.\<close>

lemma window_step_cases:
  assumes "unat reserved + 0x400000 < 2 ^ 64" "low_range r"
  obtains "window_step reserved mx r (out, clamped) = (out, clamped)"
  | w where "window_step reserved mx r (out, clamped) = (out @ [w], clamped)"
      "reserved \<le> w_start w" "unat (rr_base r) \<le> unat (w_start w)" "unat (w_start w) + 0x400000 \<le> unat (w_end w)"
      "unat (w_end w) = unat (rr_base r) + unat (rr_size r)"
proof -
  have re: "unat (rr_end r) = unat (rr_base r) + unat (rr_size r)"
    using assms(2) by (intro unat_rr_end) (simp add: low_range_def range_ok_def)
  let ?s = "if rr_base r < reserved then reserved else rr_base r"
  have "unat ?s + 0x400000 < 2 ^ 64" using assms by (simp add: low_range_def)
  then have s: "unat (?s + WIN_BYTES) = unat ?s + 0x400000" by (simp add: unat_word_ariths WIN_BYTES_def)
  have max: "\<not> rr_end r > - 1" by (simp add: not_less)
  show thesis
  proof (cases "length out \<ge> mx \<or> ?s + WIN_BYTES > rr_end r")
    case True
    then show thesis using max by (intro that(1)) (auto simp: window_step_def Let_def)
  next
    case False
    let ?w = "\<lparr>w_start = ?s, w_end = rr_end r\<rparr>"
    have "window_step reserved mx r (out, clamped) = (out @ [?w], clamped)"
      using False max by (auto simp: window_step_def Let_def)
    moreover have "unat ?s + 0x400000 \<le> unat (rr_end r)" using False s by (simp add: word_less_nat_alt)
    ultimately show thesis using re by (intro that(2) [of ?w]) (auto simp: word_less_nat_alt word_le_nat_alt)
  qed
qed

lemma windows_exact:
  assumes "unat reserved + 0x400000 < 2 ^ 64" "\<forall>r\<in>set ranges. low_range r"
  shows "map window_bounds (fst (fold (window_step reserved mx) ranges (out, clamped))) =
    map window_bounds out @ take (mx - length out) (windows_spec (unat reserved) ranges)"
  using assms(2)
proof (induction ranges arbitrary: out clamped)
  case (Cons r rs)
  define a where "a = (if rr_base r < reserved then reserved else rr_base r)"
  let ?e = "unat (rr_base r) + unat (rr_size r)" and ?w = "\<lparr>w_start = a, w_end = rr_end r\<rparr>"
  have low: "low_range r" using Cons.prems by simp
  then have re: "unat (rr_end r) = ?e" by (intro unat_rr_end) (simp add: low_range_def range_ok_def)
  have "unat a + 0x400000 < 2 ^ 64" using assms(1) low by (simp add: low_range_def a_def)
  then have "unat (a + WIN_BYTES) = unat a + 0x400000" by (simp add: unat_word_ariths WIN_BYTES_def)
  then have fits: "a + WIN_BYTES > rr_end r \<longleftrightarrow> \<not> unat a + 0x400000 \<le> ?e"
    unfolding word_less_nat_alt re by (simp add: not_le)
  have m: "unat a = max (unat reserved) (unat (rr_base r))" by (simp add: a_def word_less_nat_alt)
  have spec: "windows_spec (unat reserved) (r # rs) =
      (if unat a + 0x400000 \<le> ?e then [(unat a, ?e)] else []) @ windows_spec (unat reserved) rs"
    unfolding windows_spec_def m by simp
  have "\<not> rr_end r > - 1" by (simp add: not_less)
  then have "window_step reserved mx r (out, clamped) = (if length out \<ge> mx \<or> a + WIN_BYTES > rr_end r then out else out @ [?w], clamped)"
    by (auto simp: window_step_def Let_def a_def)
  moreover have "window_bounds ?w = (unat a, ?e)" by (simp add: window_bounds_def re)
  ultimately show ?case
    using Cons.IH [of out clamped] Cons.IH [of "out @ [?w]" clamped] Cons.prems unfolding spec fits
    by (cases "mx - length out") (auto simp: Suc_diff_Suc diff_Suc split: nat.splits simp del: unat_plus_if')
qed (simp add: windows_spec_def)

lemma windows_fold:
  assumes "unat reserved + 0x400000 < 2 ^ 64" "\<forall>r\<in>set ranges. low_range r" "sorted_wrt apart ranges"
  shows "\<exists>wins. fold (window_step reserved mx) ranges (out, clamped) = (out @ wins, clamped) \<and>
    (\<forall>w\<in>set wins. window_in reserved ranges w) \<and> sorted_wrt (\<lambda>v w. w_end v \<le> w_start w) wins"
  using assms(2,3)
proof (induction ranges arbitrary: out)
  case (Cons r rs)
  have low: "low_range r" using Cons.prems by simp
  have IH: "\<exists>wins. fold (window_step reserved mx) rs (out', clamped) = (out' @ wins, clamped) \<and>
      (\<forall>w\<in>set wins. window_in reserved rs w) \<and> sorted_wrt (\<lambda>v w. w_end v \<le> w_start w) wins" for out'
    using Cons.prems by (intro Cons.IH) auto
  have mono: "window_in reserved (r # rs) w" if "window_in reserved rs w" for w
    using that by (auto simp: window_in_def)
  from assms(1) low show ?case
  proof (cases rule: window_step_cases [of reserved r mx out clamped])
    case 1
    then show ?thesis using IH [of out] mono by auto
  next
    case (2 w)
    obtain wins where wins: "fold (window_step reserved mx) rs (out @ [w], clamped) = ((out @ [w]) @ wins, clamped)"
      "\<forall>v\<in>set wins. window_in reserved rs v" "sorted_wrt (\<lambda>v w. w_end v \<le> w_start w) wins"
      using IH [of "out @ [w]"] by blast
    have "w_end w \<le> w_start v" if v: "v \<in> set wins" for v
    proof -
      obtain s where "s \<in> set rs" "unat (rr_base s) \<le> unat (w_start v)" using wins(2) v by (auto simp: window_in_def)
      moreover have "unat (w_end w) < unat (rr_base s)" using Cons.prems(2) \<open>s \<in> set rs\<close> 2 by (auto simp: apart_def)
      ultimately show ?thesis by (simp add: word_le_nat_alt)
    qed
    moreover have "window_in reserved (r # rs) w" using 2 by (auto simp: window_in_def)
    ultimately show ?thesis using 2(1) wins mono by (intro exI [of _ "w # wins"]) auto
  qed
qed simp

section \<open>Properties\<close>

text \<open>
  Merging the RAM ranges. For ranges that end inside the address space, sorting and merging keeps
  the set of addresses they cover and leaves ranges in ascending order with a gap after each.
\<close>

theorem ram_ranges_merged:
  assumes "\<forall>r\<in>set out. range_ok r"
  shows "(\<Union>r\<in>set (merge_ranges (sort_ranges out)). span r) = (\<Union>r\<in>set out. span r) \<and>
    (\<forall>r\<in>set (merge_ranges (sort_ranges out)). range_ok r) \<and> sorted_wrt apart (merge_ranges (sort_ranges out))"
proof -
  have s: "sorted (map rr_base (sort_ranges out))" "set (sort_ranges out) = set out"
    using sort_ranges_sorted [of out] by (auto dest: mset_eq_setD)
  show ?thesis
  proof (cases "sort_ranges out")
    case Nil
    then show ?thesis using s by (simp add: merge_ranges_def)
  next
    case (Cons c rs)
    have "set (c # rs) = set out" using s(2) Cons by simp
    then show ?thesis using coalesce_spans [of c rs] assms s(1) Cons by (auto simp: merge_ranges_coalesce)
  qed
qed

theorem ram_ranges_merged_witness:
  "sorted_wrt apart (merge_ranges (sort_ranges
     [\<lparr>rr_base = 0x90000000, rr_size = 0x1000\<rparr>, \<lparr>rr_base = 0x80000000, rr_size = 0x1000\<rparr>, \<lparr>rr_base = 0x80001000, rr_size = 0x800\<rparr>]))"
  using ram_ranges_merged [of "[\<lparr>rr_base = 0x90000000, rr_size = 0x1000\<rparr>, \<lparr>rr_base = 0x80000000, rr_size = 0x1000\<rparr>,
    \<lparr>rr_base = 0x80001000, rr_size = 0x800\<rparr>]"]
  by (simp add: range_ok_def)

text \<open>
  C16. The memory test spares the program. With a break where \<open>_sbrk\<close> keeps it and the merged ranges of
  the device tree, every window starts above the stacks and a mebibyte above the break, lies in one
  of the ranges and is at least 4 MiB long; the windows are disjoint and in order, and nothing is
  cut off. And it tests the rest: the windows are exactly what the ranges leave above the program,
  rounded up to 4 MiB, of each range that leaves 4 MiB at least, up to the number of windows asked for.
\<close>

theorem windows_spare_program:
  assumes "layout_ok L E" "heap_inv L E st" "\<forall>r\<in>set ranges. low_range r" "sorted_wrt apart ranges"
    and "unat (stacks_end L E) + 0x1000000 \<le> 2 ^ 64" "unat (curbrk st) + 0x1000000 \<le> 2 ^ 64"
    and "compute_windows L (max 1 (env_n_harts E)) (fst (sbrk L E 0 st)) ranges mx = (wins, clamped)"
  shows "clamped = 0 \<and> sorted_wrt (\<lambda>v w. w_end v \<le> w_start w) wins \<and>
    map window_bounds wins = take mx (windows_spec (footprint L E (curbrk st)) ranges) \<and>
    (\<forall>w\<in>set wins. stacks_end L E \<le> w_start w \<and> unat (curbrk st) + 0x100000 \<le> unat (w_start w) \<and>
       unat (w_start w) + 0x400000 \<le> unat (w_end w) \<and>
       (\<exists>r\<in>set ranges. {unat (w_start w)..<unat (w_end w)} \<subseteq> span r))"
proof -
  let ?res = "reserved_end L (max 1 (env_n_harts E)) (curbrk st)"
  note R = reserved_end_bounds [OF refl assms(5,6)]
  obtain wins' where "fold (window_step ?res mx) ranges ([], 0) = ([] @ wins', 0)"
    "\<forall>w\<in>set wins'. window_in ?res ranges w" "sorted_wrt (\<lambda>v w. w_end v \<le> w_start w) wins'"
    using windows_fold [OF R(3) assms(3,4), of mx "[]" 0] by blast
  then have w: "clamped = 0" "\<forall>w\<in>set wins. window_in ?res ranges w" "sorted_wrt (\<lambda>v w. w_end v \<le> w_start w) wins"
    using assms(7) by (simp_all add: compute_windows_def sbrk_current [OF assms(1,2)])
  have "stacks_end L E \<le> w_start v \<and> unat (curbrk st) + 0x100000 \<le> unat (w_start v) \<and>
      unat (w_start v) + 0x400000 \<le> unat (w_end v) \<and> (\<exists>r\<in>set ranges. {unat (w_start v)..<unat (w_end v)} \<subseteq> span r)"
    if v: "v \<in> set wins" for v
  proof -
    obtain r where r: "?res \<le> w_start v" "unat (w_start v) + 0x400000 \<le> unat (w_end v)" "r \<in> set ranges"
      "unat (rr_base r) \<le> unat (w_start v)" "unat (w_end v) = unat (rr_base r) + unat (rr_size r)"
      using w(2) v by (auto simp: window_in_def)
    then have "{unat (w_start v)..<unat (w_end v)} \<subseteq> span r" by (auto simp: span_def)
    moreover have "stacks_end L E \<le> w_start v" using R(1) r(1) by (rule order_trans)
    moreover have "unat (curbrk st) + 0x100000 \<le> unat (w_start v)"
      using R(2) r(1) unfolding word_le_nat_alt by (rule order_trans)
    ultimately show ?thesis using r by blast
  qed
  moreover have "map window_bounds wins = take mx (windows_spec (footprint L E (curbrk st)) ranges)"
    using windows_exact [OF R(3) assms(3), of mx "[]" 0] assms(7)
    by (simp add: compute_windows_def sbrk_current [OF assms(1,2)] R(4))
  ultimately show ?thesis using w by blast
qed

theorem windows_spare_program_witness:
  "map window_bounds (fst (compute_windows demo_layout 2 (fst (sbrk demo_layout demo_env 0 (initial_heap demo_layout)))
      [\<lparr>rr_base = 0x80000000, rr_size = 0x10000000\<rparr>, \<lparr>rr_base = 0x98000000, rr_size = 0x1000\<rparr>,
       \<lparr>rr_base = 0xA0000000, rr_size = 0x8000000\<rparr>] 8)) =
   [(0x80400000, 0x90000000), (0xA0000000, 0xA8000000)]"
proof -
  let ?rs = "[\<lparr>rr_base = 0x80000000, rr_size = 0x10000000\<rparr>, \<lparr>rr_base = 0x98000000, rr_size = 0x1000\<rparr>,
    \<lparr>rr_base = 0xA0000000, rr_size = 0x8000000\<rparr>] :: ram_range list"
  obtain wins c where w: "compute_windows demo_layout (max 1 (env_n_harts demo_env))
      (fst (sbrk demo_layout demo_env 0 (initial_heap demo_layout))) ?rs 8 = (wins, c)" by fastforce
  have "footprint demo_layout demo_env (curbrk (initial_heap demo_layout)) = 0x80400000"
    by (simp add: footprint_def demo_layout_def demo_env_def initial_heap_def stacks_end_def)
  with windows_spare_program [OF demo_heap _ _ _ _ w]
  have "map window_bounds wins = [(0x80400000, 0x90000000), (0xA0000000, 0xA8000000)]"
    by (simp add: low_range_def apart_def windows_spec_def demo_layout_def demo_env_def initial_heap_def stacks_end_def)
  with w show ?thesis by (simp add: demo_env_def)
qed

end
