(* ===== verification/Mem_Main.thy ===== *)
theory Mem_Main
  imports Mem_Windows
begin

text \<open>
  The rest of the memory test, \<open>baremetal/mem-test/main.c\<close>: the access width and burst copy suites, the
  clock that measures the throughput, and \<open>main\<close>, which runs all suites on the windows of the device tree.
  Memory is that of \<open>Mem_Test\<close>, one word per cell; a store of fewer bytes changes some lanes of a word.
\<close>

section \<open>Clock\<close>

record clock =
  s_mtime_lo :: u64
  s_timebase_hz :: u64

text \<open>
  \<open>clock_init\<close>: \<open>None\<close> as a clock when the tree has no CLINT or no frequency. The readers store every value
  of a property; more than the one there is room for overrun it.
\<close>

definition clint_base :: "blob \<Rightarrow> 'h dtb_state \<Rightarrow> u64 option option" where
  "clint_base b D = do {
     clint \<leftarrow> dtb_find_compatible b D None (cstring ''riscv,clint0'');
     case clint of
       None \<Rightarrow> Some None
     | Some n \<Rightarrow> do {
         reg \<leftarrow> dtb_find_prop b D (Some n) (cstring ''reg'');
         case reg of
           None \<Rightarrow> Some None
         | Some p \<Rightarrow> do {
             pr \<leftarrow> prop_at D p;
             ac \<leftarrow> dtb_get_addr_cells_for b D (Some n);
             sc \<leftarrow> dtb_get_size_cells_for b D (Some n);
             vals \<leftarrow> dtb_read_prop_2 b (Some pr) (ac, sc);
             if length vals > 1 then None
             else Some (case vals of [] \<Rightarrow> None | (a, _) # _ \<Rightarrow> Some a) } } }"

definition timebase :: "blob \<Rightarrow> 'h dtb_state \<Rightarrow> u64 option" where
  "timebase b D = do {
     cpus \<leftarrow> dtb_find b D (cstring ''/cpus'');
     case cpus of
       None \<Rightarrow> Some 0
     | Some n \<Rightarrow> do {
         tb \<leftarrow> dtb_find_prop b D (Some n) (cstring ''timebase-frequency'');
         case tb of
           None \<Rightarrow> Some 0
         | Some p \<Rightarrow> do {
             pr \<leftarrow> prop_at D p;
             vals \<leftarrow> dtb_read_prop_1 b (Some pr) 1;
             if length vals > 1 then None
             else Some (case vals of [] \<Rightarrow> 0 | hz # _ \<Rightarrow> hz) } } }"

definition clock_init :: "blob \<Rightarrow> 'h dtb_state \<Rightarrow> clock option option" where
  "clock_init b D = do {
     base \<leftarrow> clint_base b D;
     case base of
       None \<Rightarrow> Some None
     | Some a \<Rightarrow> do {
         hz \<leftarrow> timebase b D;
         Some (if hz = 0 then None else Some \<lparr>s_mtime_lo = a + 0xBFF8, s_timebase_hz = hz\<rparr>) } }"

text \<open>The high, low and again the high half of the counter, until no carry came between.\<close>

fun read_mtime :: "u32 list \<Rightarrow> (u64 \<times> u32 list) option" where
  "read_mtime (hi # lo # hi2 # rest) =
     (if hi \<noteq> hi2 then read_mtime rest else Some (push_bit 32 (ucast hi) OR ucast lo, rest))"
| "read_mtime _ = None"

definition clock_now :: "clock option \<Rightarrow> u32 list \<Rightarrow> (u64 \<times> u32 list) option" where
  "clock_now clk reads = (case clk of None \<Rightarrow> Some (0, reads) | Some _ \<Rightarrow> read_mtime reads)"

text \<open>A product of ticks that wraps around to 0 leaves a division by zero, which has no result.\<close>

definition mibps :: "clock option \<Rightarrow> u64 \<Rightarrow> u64 \<Rightarrow> u32 option" where
  "mibps clk bytes ticks =
     (case clk of
        None \<Rightarrow> Some 0
      | Some c \<Rightarrow>
          if ticks = 0 then Some 0
          else if ticks * 0x100000 = 0 then None
          else Some (ucast ((bytes * s_timebase_hz c) div (ticks * 0x100000))))"

section \<open>Access width test\<close>

text \<open>The word that holds a byte, and the byte's first bit in it; narrow stores and loads touch whole lanes.\<close>

definition word_of :: "u64 \<Rightarrow> u64" where
  "word_of a = a AND NOT 7"

definition lane :: "u64 \<Rightarrow> nat" where
  "lane a = 8 * unat (a AND 7)"

definition narrow_store :: "(u64 \<Rightarrow> 'c) \<Rightarrow> nat \<Rightarrow> u64 \<Rightarrow> u64 \<Rightarrow> ('c \<Rightarrow> u64) \<Rightarrow> 'c \<Rightarrow> u64" where
  "narrow_store phys wsz a v m =
     m(phys (word_of a) := (m (phys (word_of a)) AND NOT (push_bit (lane a) (mask (8 * wsz)))) OR
                            push_bit (lane a) (take_bit (8 * wsz) v))"

definition narrow_load :: "(u64 \<Rightarrow> 'c) \<Rightarrow> nat \<Rightarrow> u64 \<Rightarrow> ('c \<Rightarrow> u64) \<Rightarrow> u64" where
  "narrow_load phys wsz a m = take_bit (8 * wsz) (drop_bit (lane a) (m (phys (word_of a))))"

definition width_span :: u64 where "width_span = 4 * LINE_BYTES"

definition width_write :: "(u64 \<Rightarrow> 'c) \<Rightarrow> u64 \<Rightarrow> u64 \<Rightarrow> nat \<Rightarrow> ('c \<Rightarrow> u64) \<Rightarrow> ('c \<Rightarrow> u64) option" where
  "width_write phys base seed wsz m =
     addr_loop (of_nat wsz) width_span
       (\<lambda>off m. let a = base + off in narrow_store phys wsz a (mix64 (a XOR seed)) m) 0 m"

text \<open>The number of bad accesses and the first of them.\<close>

definition width_verify :: "(u64 \<Rightarrow> 'c) \<Rightarrow> u64 \<Rightarrow> u64 \<Rightarrow> nat \<Rightarrow> ('c \<Rightarrow> u64) \<Rightarrow> (nat \<times> u64) option" where
  "width_verify phys base seed wsz m =
     addr_loop (of_nat wsz) width_span
       (\<lambda>off (bad, first_bad).
          let a = base + off; e = take_bit (8 * wsz) (mix64 (a XOR seed)); got = narrow_load phys wsz a m
          in if got \<noteq> e then (bad + 1, if bad = 0 then a else first_bad) else (bad, first_bad)) 0 (0, 0)"

fun width_cases :: "(u64 \<Rightarrow> 'c) \<Rightarrow> u64 \<Rightarrow> nat \<Rightarrow> nat list \<Rightarrow> ('c \<Rightarrow> u64) \<Rightarrow> (int \<times> ('c \<Rightarrow> u64)) option" where
  "width_cases phys base c [] m = Some (0, m)"
| "width_cases phys base c (wsz # ws) m = do {
     let seed = SEED_A + of_nat c + 1;
     m \<leftarrow> width_write phys base seed wsz m;
     (bad, _) \<leftarrow> width_verify phys base seed wsz m;
     (f, m) \<leftarrow> width_cases phys base (Suc c) ws m;
     Some (if bad > 0 then f + 1 else f, m) }"

definition test_access_widths :: "(u64 \<Rightarrow> 'c) \<Rightarrow> window list \<Rightarrow> ('c \<Rightarrow> u64) \<Rightarrow> (int \<times> ('c \<Rightarrow> u64)) option" where
  "test_access_widths phys wins m =
     (case wins of [] \<Rightarrow> None | w # _ \<Rightarrow> width_cases phys (w_start w) 0 [1, 2, 4, 8] m)"

section \<open>Burst copy test\<close>

definition SEED_BURST :: u64 where "SEED_BURST = SEED_A XOR 0xB0B"
definition burst_words :: u64 where "burst_words = 0x100000 div WORD_BYTES"

definition burst_fill :: "(u64 \<Rightarrow> 'c) \<Rightarrow> u64 \<Rightarrow> ('c \<Rightarrow> u64) \<Rightarrow> ('c \<Rightarrow> u64) option" where
  "burst_fill phys src m =
     addr_loop 1 burst_words (\<lambda>i m. m(phys (src + i * WORD_BYTES) := pat (src + i * WORD_BYTES) SEED_BURST)) 0 m"

text \<open>\<open>memcpy\<close> and \<open>memcmp\<close> on blocks of aligned words, which the C library copies and compares in ascending order.\<close>

definition copy_block :: "(u64 \<Rightarrow> 'c) \<Rightarrow> u64 \<Rightarrow> u64 \<Rightarrow> ('c \<Rightarrow> u64) \<Rightarrow> ('c \<Rightarrow> u64) option" where
  "copy_block phys dst src m =
     addr_loop 1 burst_words (\<lambda>i m. m(phys (dst + i * WORD_BYTES) := m (phys (src + i * WORD_BYTES)))) 0 m"

definition same_block :: "(u64 \<Rightarrow> 'c) \<Rightarrow> u64 \<Rightarrow> u64 \<Rightarrow> ('c \<Rightarrow> u64) \<Rightarrow> bool option" where
  "same_block phys dst src m =
     addr_loop 1 burst_words (\<lambda>i same. same \<and> m (phys (dst + i * WORD_BYTES)) = m (phys (src + i * WORD_BYTES))) 0 True"

definition clobbered :: "(u64 \<Rightarrow> 'c) \<Rightarrow> u64 \<Rightarrow> ('c \<Rightarrow> u64) \<Rightarrow> nat option" where
  "clobbered phys src m =
     addr_loop 1 burst_words
       (\<lambda>i bad. if m (phys (src + i * WORD_BYTES)) \<noteq> pat (src + i * WORD_BYTES) SEED_BURST then bad + 1 else bad) 0 0"

definition test_burst_copy :: "(u64 \<Rightarrow> 'c) \<Rightarrow> window list \<Rightarrow> ('c \<Rightarrow> u64) \<Rightarrow> (int \<times> ('c \<Rightarrow> u64)) option" where
  "test_burst_copy phys wins m =
     (case wins of
        [] \<Rightarrow> None
      | w # _ \<Rightarrow> do {
          let src = w_start w;
          let dst = w_start w + WIN_BYTES div 2;
          m \<leftarrow> burst_fill phys src m;
          m \<leftarrow> copy_block phys dst src m;
          same \<leftarrow> same_block phys dst src m;
          bad \<leftarrow> clobbered phys src m;
          Some ((if same then 0 else 1) + (if bad > 0 then 1 else 0), m) })"

section \<open>Entry point\<close>

text \<open>The suites on the windows: a failed capacity check stops the run.\<close>

definition mem_suites :: "(u64 \<Rightarrow> 'c) \<Rightarrow> window list \<Rightarrow> ('c \<Rightarrow> u64) \<Rightarrow> (int \<times> ('c \<Rightarrow> u64)) option" where
  "mem_suites phys wins m = do {
     (total, _, _, m) \<leftarrow> test_capacity_probe phys wins m;
     if total \<noteq> 0 then Some (1, m)
     else do {
       (f1, m) \<leftarrow> test_interleave_markers phys wins m;
       (f2, m) \<leftarrow> test_access_widths phys wins m;
       (f3, m) \<leftarrow> test_burst_copy phys wins m;
       (f4, st) \<leftarrow> test_line_edges phys wins \<lparr>t_mem = m, sweep_failures = 0, t_log = []\<rparr>;
       (f5, st) \<leftarrow> test_full_sweep phys wins st;
       Some (if total + f1 + f2 + f3 + f4 + f5 = 0 then 0 else 1, t_mem st) } }"

definition mem_test_main :: "(u64 \<Rightarrow> 'c) \<Rightarrow> heap_layout \<Rightarrow> heap_env \<Rightarrow> heap_state \<Rightarrow> blob \<Rightarrow> 'h dtb_state \<Rightarrow>
    ('c \<Rightarrow> u64) \<Rightarrow> (int \<times> ('c \<Rightarrow> u64)) option" where
  "mem_test_main phys L E hs b D m = do {
     ranges \<leftarrow> dtb_ram_ranges b D MAX_RANGES;
     if ranges = [] then Some (1, m)
     else do {
       _ \<leftarrow> clock_init b D;
       nharts \<leftarrow> dtb_nharts b D;
       let (wins, clamped) = compute_windows L nharts (fst (sbrk L E 0 hs)) ranges MAX_RANGES;
       if wins = [] then Some (1, m) else mem_suites phys wins m } }"

section \<open>Specification\<close>

text \<open>The values of a 64-bit counter at successive reads, as the halves that \<open>clock_now\<close> reads.\<close>

definition mtime_reads :: "(nat \<Rightarrow> nat) \<Rightarrow> nat \<Rightarrow> nat \<Rightarrow> u32 list" where
  "mtime_reads c i n = concat (map (\<lambda>j.
     [of_nat (c (3 * j) div 2 ^ 32), of_nat (c (3 * j + 1)), of_nat (c (3 * j + 2) div 2 ^ 32)]) [i..<i + n])"

text \<open>A range of whole words in the lower half of the address space, and windows made of such.\<close>

definition ram_ok :: "ram_range \<Rightarrow> bool" where
  "ram_ok r \<longleftrightarrow> unat (rr_base r) mod 8 = 0 \<and> unat (rr_size r) mod 8 = 0 \<and> unat (rr_base r) + unat (rr_size r) \<le> 2 ^ 63"

definition window_ok :: "window \<Rightarrow> bool" where
  "window_ok w \<longleftrightarrow> unat (w_start w) mod 8 = 0 \<and> unat (w_end w) mod 8 = 0 \<and>
     unat (w_start w) + 0x400000 \<le> unat (w_end w) \<and> unat (w_end w) \<le> 2 ^ 63"

definition tested_words :: "window list \<Rightarrow> u64 set" where
  "tested_words wins = (\<Union>w\<in>set wins. grid WORD_BYTES (w_start w) (w_end w))"

section \<open>The clock\<close>

lemma halves_of_counter:
  assumes "c < 2 ^ 64"
  shows "push_bit 32 (ucast (of_nat (c div 2 ^ 32) :: u32)) OR ucast (of_nat c :: u32) = (of_nat c :: u64)"
proof -
  have "(of_nat c :: u64) = push_bit 32 (drop_bit 32 (of_nat c)) OR take_bit 32 (of_nat c)"
    by (rule bit_word_eqI) (auto simp: bit_simps)
  moreover have "ucast (of_nat c :: u32) = (take_bit 32 (of_nat c) :: u64)"
    by (rule bit_word_eqI) (simp add: bit_simps)
  moreover have "unat (of_nat c :: u64) = c" using assms by (intro unat_of_nat_small) simp
  then have "unat (drop_bit 32 (of_nat c :: u64)) = c div 2 ^ 32"
    by (simp add: drop_bit_eq_div unat_div_distrib del: unsigned_of_nat)
  moreover have "c div 2 ^ 32 < 2 ^ 32" using assms by (simp add: less_mult_imp_div_less)
  then have "unat (ucast (of_nat (c div 2 ^ 32) :: u32) :: u64) = c div 2 ^ 32"
    by (simp add: unsigned_ucast_eq take_bit_nat_eq_self unsigned_of_nat)
  ultimately show ?thesis by (metis word_unat_eq_iff)
qed

text \<open>
  With a counter that does not run backwards, \<open>clock_now\<close> returns its value at one of the reads of the low
  half, as soon as one round sees no carry.
\<close>

lemma clock_now_exact:
  assumes "\<And>i j. i \<le> j \<Longrightarrow> c i \<le> c j" "\<And>i. c i < 2 ^ 64"
    and "j < n" "c (3 * j) div 2 ^ 32 = c (3 * j + 2) div 2 ^ 32"
  shows "\<exists>k\<le>j. clock_now (Some clk) (mtime_reads c 0 n) = Some (of_nat (c (3 * k + 1)), mtime_reads c (k + 1) (n - (k + 1)))"
proof -
  have small: "c i div 2 ^ 32 < 2 ^ 32" for i using assms(2) [of i] by (simp add: less_mult_imp_div_less)
  have eq: "(of_nat (c i div 2 ^ 32) :: u32) = of_nat (c k div 2 ^ 32) \<longleftrightarrow> c i div 2 ^ 32 = c k div 2 ^ 32" for i k
    using small [of i] small [of k] by (simp add: of_nat_eq_iff word_of_nat_eq_iff take_bit_nat_eq_self)
  have "i \<le> j \<Longrightarrow> j < i + n \<Longrightarrow> \<exists>k\<ge>i. k \<le> j \<and> read_mtime (mtime_reads c i n) =
      Some (of_nat (c (3 * k + 1)), mtime_reads c (k + 1) (i + n - (k + 1)))" for i n
  proof (induction n arbitrary: i)
    case (Suc n)
    have reads: "mtime_reads c i (Suc n) = of_nat (c (3 * i) div 2 ^ 32) # of_nat (c (3 * i + 1)) #
        of_nat (c (3 * i + 2) div 2 ^ 32) # mtime_reads c (Suc i) n"
      unfolding mtime_reads_def by (subst upt_conv_Cons) simp_all
    show ?case
    proof (cases "c (3 * i) div 2 ^ 32 = c (3 * i + 2) div 2 ^ 32")
      case True
      have "c (3 * i) div 2 ^ 32 \<le> c (3 * i + 1) div 2 ^ 32" "c (3 * i + 1) div 2 ^ 32 \<le> c (3 * i + 2) div 2 ^ 32"
        by (intro div_le_mono assms(1); simp)+
      then have "c (3 * i + 1) div 2 ^ 32 = c (3 * i) div 2 ^ 32" using True by simp
      then have "read_mtime (mtime_reads c i (Suc n)) = Some (of_nat (c (3 * i + 1)), mtime_reads c (Suc i) n)"
        using halves_of_counter [OF assms(2) [of "3 * i + 1"]] True by (simp add: reads)
      then show ?thesis using Suc.prems by (intro exI [of _ i]) simp
    next
      case False
      then have "i \<noteq> j" using assms(4) by auto
      then have "Suc i \<le> j" "j < Suc i + n" using Suc.prems by simp_all
      from Suc.IH [OF this] obtain k where "Suc i \<le> k" "k \<le> j" "read_mtime (mtime_reads c (Suc i) n) =
          Some (of_nat (c (3 * k + 1)), mtime_reads c (k + 1) (Suc i + n - (k + 1)))" by blast
      then show ?thesis using False eq by (intro exI [of _ k]) (simp add: reads)
    qed
  qed simp
  from this [of 0 n] assms(3) show ?thesis by (auto simp: clock_now_def)
qed

lemma mibps_floor:
  assumes "unat bytes * unat (s_timebase_hz clk) < 2 ^ 64" "0 < unat ticks" "unat ticks * 0x100000 < 2 ^ 64"
    and "(unat bytes * unat (s_timebase_hz clk)) div (unat ticks * 0x100000) < 2 ^ 32"
  shows "\<exists>r. mibps (Some clk) bytes ticks = Some r \<and>
    unat r = (unat bytes * unat (s_timebase_hz clk)) div (unat ticks * 0x100000)"
proof -
  have t: "unat (ticks * 0x100000) = unat ticks * 0x100000" "unat (bytes * s_timebase_hz clk) = unat bytes * unat (s_timebase_hz clk)"
    using assms(1,3) by (simp_all add: unat_word_ariths)
  have "ticks * 0x100000 \<noteq> 0" using t(1) assms(2) by (metis mult_eq_0_iff neq0_conv unat_0 zero_neq_numeral)
  moreover have "unat (ucast ((bytes * s_timebase_hz clk) div (ticks * 0x100000)) :: u32) =
      (unat bytes * unat (s_timebase_hz clk)) div (unat ticks * 0x100000)"
    using assms(4) by (simp add: unsigned_ucast_eq unat_div_distrib t take_bit_nat_eq_self)
  ultimately show ?thesis using assms(2) by (auto simp: mibps_def)
qed

section \<open>Narrow accesses\<close>

lemma word_lane: "a = word_of a + (a AND 7)" "lane a = 8 * (unat a mod 8)" "unat (word_of a) = unat a - unat a mod 8"
proof -
  have seven: "(7 :: u64) = mask 3" by (simp add: mask_eq_exp_minus_1)
  show "a = word_of a + (a AND 7)"
    unfolding word_of_def by (subst disjunctive_add_eq_or) (auto simp: bit_eq_iff bit_simps)
  show "lane a = 8 * (unat a mod 8)"
    unfolding lane_def seven by (simp add: take_bit_eq_mask [symmetric] unsigned_take_bit_eq) (simp add: take_bit_eq_mod)
  show "unat (word_of a) = unat a - unat a mod 8"
    unfolding word_of_def seven unat_and_not_mask by (simp add: minus_mod_eq_div_mult)
qed

lemma bit_load: "bit (narrow_load phys wsz a m) n \<longleftrightarrow> n < 8 * wsz \<and> bit (m (phys (word_of a))) (lane a + n)"
  by (simp add: narrow_load_def bit_take_bit_iff bit_drop_bit_eq)

lemma bit_store:
  "bit (narrow_store phys wsz a v m c) k \<longleftrightarrow>
     (if c = phys (word_of a) \<and> lane a \<le> k \<and> k < lane a + 8 * wsz then k < 64 \<and> bit v (k - lane a) else bit (m c) k)"
  by (auto simp: narrow_store_def bit_simps dest: bit_imp_le_length)

lemma load_same:
  assumes "lane a + 8 * wsz \<le> 64"
  shows "narrow_load phys wsz a (narrow_store phys wsz a v m) = take_bit (8 * wsz) v"
  using assms by (intro bit_word_eqI) (auto simp: bit_load bit_store bit_take_bit_iff)

lemma load_other:
  assumes "phys (word_of a) \<noteq> phys (word_of b) \<or> lane a + 8 * wsz \<le> lane b \<or> lane b + 8 * wsz \<le> lane a"
  shows "narrow_load phys wsz a (narrow_store phys wsz b v m) = narrow_load phys wsz a m"
  using assms by (intro bit_word_eqI) (auto simp: bit_load bit_store)

lemma lanes_apart:
  assumes "a \<noteq> b" "word_of a = word_of b" "wsz dvd unat a" "wsz dvd unat b" "wsz dvd 8"
  shows "lane a + 8 * wsz \<le> lane b \<or> lane b + 8 * wsz \<le> lane a"
proof -
  have "a AND 7 \<noteq> b AND 7" using word_lane(1) assms(1,2) by metis
  then have "lane a \<noteq> lane b" by (simp add: lane_def word_unat_eq_iff)
  then have "unat a mod 8 \<noteq> unat b mod 8" by (simp add: word_lane(2))
  moreover have "wsz dvd unat a mod 8" "wsz dvd unat b mod 8" using assms(3-5) by (simp_all add: dvd_mod)
  ultimately obtain i j where "unat a mod 8 = wsz * i" "unat b mod 8 = wsz * j" "i \<noteq> j" by (auto elim!: dvdE)
  then have "unat a mod 8 + wsz \<le> unat b mod 8 \<or> unat b mod 8 + wsz \<le> unat a mod 8"
    by (metis Suc_leI add.commute mult_Suc_right mult_le_mono2 nat_neq_iff)
  then show ?thesis unfolding word_lane(2) by linarith
qed

text \<open>Stores that do not disturb each other are all read back.\<close>

lemma read_back:
  assumes "\<And>a m. a \<in> A \<Longrightarrow> get a (put a m) = e a" "\<And>a b m. a \<in> A \<Longrightarrow> b \<in> A \<Longrightarrow> a \<noteq> b \<Longrightarrow> get a (put b m) = get a m"
    and "set as \<subseteq> A" "a \<in> set as"
  shows "get a (fold put as m) = e a"
  using assms(3,4)
proof (induction as rule: rev_induct)
  case (snoc x as)
  then show ?case using assms(1,2) by (cases "a = x") auto
qed simp

lemma count_bad:
  "fst (fold (\<lambda>off (bad, first). if P off then (bad + 1, if bad = 0 then g off else first) else (bad, first)) as (n, x)) > (0 :: nat) \<longleftrightarrow>
     n > 0 \<or> (\<exists>off\<in>set as. P off)"
  by (induction as arbitrary: n x) auto

section \<open>Access width test\<close>

interpretation any_marks: unique_marks "\<lambda>a. pat a s" for s
  by unfold_locales (rule pat_inj)

lemma wsz_cases:
  assumes "wsz \<in> {1, 2, 4, 8 :: nat}"
  shows "loop_ends (of_nat wsz) width_span" "wsz dvd 8" "unat (of_nat wsz :: u64) = wsz" "0 < wsz"
  using assms by (auto simp: loop_ends_def width_span_def LINE_BYTES_def)

text \<open>The accesses of one case: aligned, and in words of the region.\<close>

lemma width_access:
  assumes "wsz \<in> {1, 2, 4, 8}" "unat base mod 8 = 0" "unat base + 0x100 \<le> 2 ^ 63"
    and "off \<in> set (addrs (of_nat wsz) 0 width_span)"
  shows "wsz dvd unat (base + off)" "word_of (base + off) \<in> grid WORD_BYTES base (base + width_span)"
    "lane (base + off) + 8 * wsz \<le> 64"
proof -
  note w = wsz_cases [OF assms(1)]
  have o: "unat off < 0x100" "wsz dvd unat off"
    using assms(4) unfolding addrs_grid(1) [OF w(1)]
    by (auto simp: grid_def w(3) width_span_def LINE_BYTES_def word_less_nat_alt)
  have u: "unat (base + off) = unat base + unat off" using o(1) assms(3) by (subst unat_add_no_wrap) simp_all
  have b: "wsz dvd unat base" using w(2) assms(2) by (meson dvd_trans mod_0_imp_dvd)
  with o(2) u show d: "wsz dvd unat (base + off)" by simp
  have "unat (base + off) mod 8 + wsz \<le> 8"
  proof -
    have "wsz dvd unat (base + off) mod 8" using d w(2) by (simp add: dvd_mod)
    then obtain i j where ij: "unat (base + off) mod 8 = wsz * i" "8 = wsz * j"
      using w(2) unfolding dvd_def by blast
    moreover have "unat (base + off) mod 8 < 8" by simp
    ultimately have "i < j" by (metis nat_mult_less_cancel_disj)
    then have "wsz * Suc i \<le> wsz * j" by (intro mult_le_mono2) simp
    then show ?thesis using ij by simp
  qed
  then show "lane (base + off) + 8 * wsz \<le> 64" by (simp add: word_lane(2))
  have m: "unat (base + off) mod 8 = unat off mod 8" using assms(2) u by (metis add.commute mod_add_right_eq add_0)
  have wd: "unat (word_of (base + off)) = unat base + (unat off - unat off mod 8)"
    unfolding word_lane(3) [of "base + off"] m by (simp add: u Nat.add_diff_assoc)
  have e: "unat (base + width_span) = unat base + 0x100"
    using assms(3) by (subst unat_add_no_wrap) (simp_all add: width_span_def LINE_BYTES_def)
  have le: "base \<le> word_of (base + off)" by (simp add: word_le_nat_alt wd)
  moreover have "word_of (base + off) < base + width_span" using o(1) by (simp add: word_less_nat_alt wd e)
  moreover have "unat (word_of (base + off) - base) mod 8 = 0"
    using le by (simp add: unat_diff_le wd minus_mod_eq_div_mult)
  ultimately show "word_of (base + off) \<in> grid WORD_BYTES base (base + width_span)"
    by (simp add: grid_def WORD_BYTES_def)
qed

lemma width_written:
  assumes "wsz \<in> {1, 2, 4, 8}"
  shows "width_write phys base seed wsz m =
    Some (fold (\<lambda>off. narrow_store phys wsz (base + off) (mix64 ((base + off) XOR seed))) (addrs (of_nat wsz) 0 width_span) m)"
  unfolding width_write_def Let_def by (rule addr_loop_fold [OF wsz_cases(1) [OF assms]])

lemma width_verified:
  assumes "wsz \<in> {1, 2, 4, 8}"
  shows "\<exists>r. width_verify phys base seed wsz m = Some r \<and>
    (fst r > 0 \<longleftrightarrow> (\<exists>off\<in>set (addrs (of_nat wsz) 0 width_span).
       narrow_load phys wsz (base + off) m \<noteq> take_bit (8 * wsz) (mix64 ((base + off) XOR seed))))"
  unfolding width_verify_def Let_def addr_loop_fold [OF wsz_cases(1) [OF assms]]
  by (intro exI conjI, rule refl) (subst count_bad, simp)

lemma width_case_passes:
  assumes "wsz \<in> {1, 2, 4, 8}" "unat base mod 8 = 0" "unat base + 0x100 \<le> 2 ^ 63"
    and inj: "inj_on phys (grid WORD_BYTES base (base + width_span))"
    and off: "off \<in> set (addrs (of_nat wsz) 0 width_span)"
  shows "narrow_load phys wsz (base + off)
      (fold (\<lambda>off. narrow_store phys wsz (base + off) (mix64 ((base + off) XOR seed))) (addrs (of_nat wsz) 0 width_span) m) =
    take_bit (8 * wsz) (mix64 ((base + off) XOR seed))"
proof (rule read_back [where A = "set (addrs (of_nat wsz) 0 width_span)" and get = "\<lambda>off. narrow_load phys wsz (base + off)"])
  note acc = width_access [OF assms(1-3)]
  show "narrow_load phys wsz (base + a) (narrow_store phys wsz (base + b) (mix64 ((base + b) XOR seed)) m') =
      narrow_load phys wsz (base + a) m'"
    if ab: "a \<in> set (addrs (of_nat wsz) 0 width_span)" "b \<in> set (addrs (of_nat wsz) 0 width_span)" "a \<noteq> b" for a b m'
  proof (intro load_other, cases "word_of (base + a) = word_of (base + b)")
    case True
    then show "phys (word_of (base + a)) \<noteq> phys (word_of (base + b)) \<or> lane (base + a) + 8 * wsz \<le> lane (base + b) \<or>
        lane (base + b) + 8 * wsz \<le> lane (base + a)"
      using lanes_apart [of "base + a" "base + b" wsz] acc(1) [OF ab(1)] acc(1) [OF ab(2)] ab(3) wsz_cases(2) [OF assms(1)] by simp
  qed (use inj acc(2) [OF ab(1)] acc(2) [OF ab(2)] in \<open>auto dest: inj_onD\<close>)
qed (use off width_access(3) [OF assms(1-3)] in \<open>simp_all add: load_same\<close>)

text \<open>The 64-bit stores are the marker test of the region's words.\<close>

lemma full_width_detects:
  assumes "unat base mod 8 = 0" "unat base + 0x100 \<le> 2 ^ 63"
  shows "(\<forall>off\<in>set (addrs 8 0 width_span). narrow_load phys 8 (base + off)
      (fold (\<lambda>off. narrow_store phys 8 (base + off) (mix64 ((base + off) XOR seed))) (addrs 8 0 width_span) m) =
        take_bit 64 (mix64 ((base + off) XOR seed))) \<longleftrightarrow>
    inj_on phys (grid WORD_BYTES base (base + width_span))"
proof -
  let ?as = "addrs WORD_BYTES base (base + width_span)"
  have e: "unat (base + width_span) = unat base + 0x100"
    using assms(2) by (subst unat_add_no_wrap) (simp_all add: width_span_def LINE_BYTES_def)
  have ends: "loop_ends WORD_BYTES (base + width_span)" using assms(2) e by (simp add: loop_ends_def WORD_BYTES_def)
  have as: "?as = map ((+) base) (addrs 8 0 width_span)"
    unfolding addrs_def e by (simp add: WORD_BYTES_def width_span_def LINE_BYTES_def comp_def)
  have al: "word_of (base + off) = base + off \<and> lane (base + off) = 0" if "off \<in> set (addrs 8 0 width_span)" for off
  proof -
    have "8 dvd unat (base + off)" using width_access(1) [of 8 base off] assms that by simp
    then have "unat (base + off) mod 8 = 0" by simp
    then show ?thesis using word_lane(2,3) [of "base + off"] by (simp add: word_unat_eq_iff)
  qed
  have full: "(x AND NOT (mask 64)) OR take_bit 64 v = (v :: u64)" for x v
    by (rule bit_word_eqI) (simp add: bit_simps)
  have whole: "take_bit 64 v = (v :: u64)" for v by (rule bit_word_eqI) (simp add: bit_simps)
  have "fold (\<lambda>off. narrow_store phys 8 (base + off) (mix64 ((base + off) XOR seed))) (addrs 8 0 width_span) m =
      fold (\<lambda>off m. m(phys (base + off) := pat (base + off) seed)) (addrs 8 0 width_span) m"
    by (intro fold_cong refl ext) (auto simp: narrow_store_def al pat_def full)
  also have "\<dots> = write_all (\<lambda>a. pat a seed) phys ?as m" by (simp add: write_all_def as fold_map comp_def)
  finally have w: "fold (\<lambda>off. narrow_store phys 8 (base + off) (mix64 ((base + off) XOR seed))) (addrs 8 0 width_span) m =
      write_all (\<lambda>a. pat a seed) phys ?as m" .
  have "(\<forall>off\<in>set (addrs 8 0 width_span). narrow_load phys 8 (base + off) (write_all (\<lambda>a. pat a seed) phys ?as m) =
        take_bit 64 (mix64 ((base + off) XOR seed))) \<longleftrightarrow>
      (\<forall>a\<in>set ?as. write_all (\<lambda>a. pat a seed) phys ?as m (phys a) = pat a seed)"
    unfolding as by (auto simp: narrow_load_def al pat_def whole)
  also have "\<dots> \<longleftrightarrow> inj_on phys (grid WORD_BYTES base (base + width_span))"
    using any_marks.intact_iff [where s = seed and as = ?as and cell = phys and m = m] unfolding addrs_grid(1) [OF ends] .
  finally show ?thesis unfolding w .
qed

text \<open>
  The access width test passes exactly when the words of its region are in different cells: then the lanes
  of narrow stores do not meet, and otherwise the 64-bit case fails.
\<close>

lemma width_cases_result:
  assumes "set ws \<subseteq> {1, 2, 4, 8}" "unat base mod 8 = 0" "unat base + 0x100 \<le> 2 ^ 63"
  shows "\<exists>f m'. width_cases phys base c ws m = Some (f, m') \<and> 0 \<le> f \<and>
    (inj_on phys (grid WORD_BYTES base (base + width_span)) \<longrightarrow> f = 0) \<and>
    (8 \<in> set ws \<longrightarrow> f = 0 \<longrightarrow> inj_on phys (grid WORD_BYTES base (base + width_span)))"
  using assms(1)
proof (induction ws arbitrary: c m)
  case (Cons wsz ws)
  let ?seed = "SEED_A + of_nat c + 1 :: u64" and ?inj = "inj_on phys (grid WORD_BYTES base (base + width_span))"
  define m1 where "m1 = fold (\<lambda>off. narrow_store phys wsz (base + off) (mix64 ((base + off) XOR ?seed))) (addrs (of_nat wsz) 0 width_span) m"
  have w: "wsz \<in> {1, 2, 4, 8}" using Cons.prems by simp
  from width_verified [OF w, of phys base ?seed m1] obtain bad x where v: "width_verify phys base ?seed wsz m1 = Some (bad, x)"
    "bad > 0 \<longleftrightarrow> (\<exists>off\<in>set (addrs (of_nat wsz) 0 width_span).
       narrow_load phys wsz (base + off) m1 \<noteq> take_bit (8 * wsz) (mix64 ((base + off) XOR ?seed)))" by (auto simp: split_paired_Ex)
  from Cons obtain f m' where r: "width_cases phys base (Suc c) ws m1 = Some (f, m')" "0 \<le> f" "?inj \<longrightarrow> f = 0"
    "8 \<in> set ws \<longrightarrow> f = 0 \<longrightarrow> ?inj" by (metis insert_subset list.simps(15))
  have pass: "bad = 0" if ?inj
    using width_case_passes [OF w assms(2,3) that, of _ ?seed m] v(2) by (auto simp: m1_def)
  have full: ?inj if "bad = 0" "wsz = 8"
    using full_width_detects [OF assms(2,3), of phys ?seed m] v(2) that by (auto simp: m1_def)
  have "width_cases phys base c (wsz # ws) m = Some (if bad > 0 then f + 1 else f, m')"
    unfolding width_cases.simps Let_def
    by (simp only: width_written [OF w, of phys base ?seed m, folded m1_def] bind.simps v(1) r(1) prod.case)
  then show ?case
    by (intro exI conjI impI, assumption) (use r(2-4) pass full in \<open>auto split: if_splits\<close>)
qed simp

lemma access_widths_detect:
  assumes "wins \<noteq> []" "window_ok (hd wins)"
  shows "\<exists>f m'. test_access_widths phys wins m = Some (f, m') \<and> 0 \<le> f \<and>
    (f = 0 \<longleftrightarrow> inj_on phys (grid WORD_BYTES (w_start (hd wins)) (w_start (hd wins) + width_span)))"
proof -
  let ?b = "w_start (hd wins)"
  have b: "unat ?b mod 8 = 0" "unat ?b + 0x100 \<le> 2 ^ 63" using assms(2) by (simp_all add: window_ok_def)
  obtain f m' where "width_cases phys ?b 0 [1, 2, 4, 8] m = Some (f, m')" "0 \<le> f"
    "inj_on phys (grid WORD_BYTES ?b (?b + width_span)) \<longleftrightarrow> f = 0"
    using width_cases_result [OF _ b, of "[1, 2, 4, 8]" phys 0 m] by auto
  then show ?thesis using assms(1) by (cases wins) (auto simp: test_access_widths_def)
qed

section \<open>Burst copy test\<close>

lemma burst_loop: "addr_loop 1 burst_words f 0 st = Some (fold f (addrs 1 0 burst_words) st)"
  "i \<in> set (addrs 1 0 burst_words) \<longleftrightarrow> unat i < 0x20000"
proof -
  have e: "loop_ends 1 burst_words" by (simp add: loop_ends_def burst_words_def WORD_BYTES_def)
  show "addr_loop 1 burst_words f 0 st = Some (fold f (addrs 1 0 burst_words) st)" by (rule addr_loop_fold [OF e])
  show "i \<in> set (addrs 1 0 burst_words) \<longleftrightarrow> unat i < 0x20000"
    unfolding addrs_grid(1) [OF e] by (simp add: grid_def burst_words_def WORD_BYTES_def word_less_nat_alt)
qed

lemma copy_other:
  "c \<notin> phys ` D ` set is \<Longrightarrow> fold (\<lambda>i m. m(phys (D i) := m (phys (S i)))) is m c = m c"
  by (induction "is" arbitrary: m) auto

lemma copy_words:
  assumes "inj_on (\<lambda>i. phys (D i)) (set is)" "\<And>i j. i \<in> set is \<Longrightarrow> j \<in> set is \<Longrightarrow> phys (S i) \<noteq> phys (D j)"
    and "i \<in> set is"
  shows "fold (\<lambda>i m. m(phys (D i) := m (phys (S i)))) is m (phys (D i)) = m (phys (S i))"
  using assms
proof (induction "is" arbitrary: m rule: rev_induct)
  case (snoc x xs)
  show ?case
  proof (cases "i = x")
    case True
    have "phys (S x) \<notin> phys ` D ` set xs" using snoc.prems(2) [of x] by auto
    from copy_other [OF this, of S m] show ?thesis unfolding True by (simp only: fold_append fold_simps comp_apply fun_upd_same)
  next
    case False
    then have "i \<in> set xs" "phys (D i) \<noteq> phys (D x)" using snoc.prems(1,3) by (auto simp: inj_on_def)
    moreover have "inj_on (\<lambda>i. phys (D i)) (set xs)" using snoc.prems(1) by (auto simp: inj_on_def)
    ultimately show ?thesis using snoc.IH [of m] snoc.prems(2) by simp
  qed
qed simp

lemma in_grid:
  assumes "unat (w_start w) mod 8 = 0" "unat a mod 8 = 0" "w_start w \<le> a" "a < w_end w"
  shows "a \<in> grid WORD_BYTES (w_start w) (w_end w)"
proof -
  have "unat (a - w_start w) mod 8 = 0"
    using assms(1-3) by (simp add: unat_diff_le mod_eq_0_iff_dvd dvd_diff_nat)
  then show ?thesis using assms(3,4) by (simp add: grid_def WORD_BYTES_def)
qed

text \<open>The words of source and destination lie in the window.\<close>

lemma burst_addr:
  assumes "window_ok w" "unat i < 0x20000"
  shows "unat (w_start w + i * WORD_BYTES) = unat (w_start w) + 8 * unat i"
    "unat (w_start w + WIN_BYTES div 2 + i * WORD_BYTES) = unat (w_start w) + 0x200000 + 8 * unat i"
    "w_start w + i * WORD_BYTES \<in> grid WORD_BYTES (w_start w) (w_end w)"
    "w_start w + WIN_BYTES div 2 + i * WORD_BYTES \<in> grid WORD_BYTES (w_start w) (w_end w)"
proof -
  have s: "unat (w_start w) + 0x400000 \<le> 2 ^ 63" using assms(1) by (simp add: window_ok_def)
  have i: "unat (i * WORD_BYTES) = 8 * unat i" using assms(2) by (simp add: unat_word_ariths WORD_BYTES_def)
  have h: "unat (w_start w + WIN_BYTES div 2) = unat (w_start w) + 0x200000"
    using s by (subst unat_add_no_wrap) (simp_all add: WIN_BYTES_def)
  show 1: "unat (w_start w + i * WORD_BYTES) = unat (w_start w) + 8 * unat i"
    using s i assms(2) by (subst unat_add_no_wrap) simp_all
  show 2: "unat (w_start w + WIN_BYTES div 2 + i * WORD_BYTES) = unat (w_start w) + 0x200000 + 8 * unat i"
    using s i h assms(2) by (subst unat_add_no_wrap) simp_all
  have al: "unat (w_start w) mod 8 = 0" "unat (w_start w) + 0x400000 \<le> unat (w_end w)" using assms(1) by (simp_all add: window_ok_def)
  show "w_start w + i * WORD_BYTES \<in> grid WORD_BYTES (w_start w) (w_end w)"
    using al assms(2) by (intro in_grid) (simp_all add: 1 word_le_nat_alt word_less_nat_alt mod_add_eq [symmetric])
  show "w_start w + WIN_BYTES div 2 + i * WORD_BYTES \<in> grid WORD_BYTES (w_start w) (w_end w)"
    using al assms(2) by (intro in_grid) (simp_all add: 2 word_le_nat_alt word_less_nat_alt mod_add_eq [symmetric])
qed

lemma burst_sums:
  "fold (\<lambda>i same. same \<and> P i) xs b \<longleftrightarrow> b \<and> (\<forall>i\<in>set xs. P i)"
  "fold (\<lambda>i bad. if Q i then bad + 1 else bad) xs n = n + length (filter Q xs)"
  by (induction xs arbitrary: b n) auto

lemma burst_runs:
  assumes "wins \<noteq> []"
  shows "\<exists>f m'. test_burst_copy phys wins m = Some (f, m') \<and> 0 \<le> f"
  using assms by (cases wins)
    (simp_all add: test_burst_copy_def burst_fill_def copy_block_def same_block_def clobbered_def burst_loop(1) Let_def)

lemma burst_passes:
  assumes "wins \<noteq> []" "window_ok (hd wins)" "inj_on phys (grid WORD_BYTES (w_start (hd wins)) (w_end (hd wins)))"
  shows "\<exists>m'. test_burst_copy phys wins m = Some (0, m')"
proof -
  let ?w = "hd wins" and ?is = "addrs 1 0 burst_words"
  define S D where "S i = w_start ?w + i * WORD_BYTES" and "D i = w_start ?w + WIN_BYTES div 2 + i * WORD_BYTES" for i
  define m1 where "m1 = fold (\<lambda>i m. m(phys (S i) := pat (S i) SEED_BURST)) ?is m"
  define m2 where "m2 = fold (\<lambda>i m. m(phys (D i) := m (phys (S i)))) ?is m1"
  have idx: "unat i < 0x20000" if "i \<in> set ?is" for i using that by (simp only: burst_loop(2))
  have inj: "phys a = phys b \<Longrightarrow> a \<in> S ` set ?is \<union> D ` set ?is \<Longrightarrow> b \<in> S ` set ?is \<union> D ` set ?is \<Longrightarrow> a = b" for a b
    using assms(3) burst_addr(3,4) [OF assms(2) idx] by (auto simp: inj_on_def S_def D_def)
  have apart: "S i \<noteq> D j" if "i \<in> set ?is" "j \<in> set ?is" for i j
    using burst_addr(1,2) [OF assms(2)] idx [OF that(1)] idx [OF that(2)] unfolding S_def D_def word_unat_eq_iff by simp
  have D_inj: "i = j" if "D i = D j" "i \<in> set ?is" "j \<in> set ?is" for i j
    using burst_addr(2) [OF assms(2)] idx [OF that(2)] idx [OF that(3)] that(1)
    unfolding D_def word_unat_eq_iff [of i] by (metis add_left_cancel nat_mult_eq_cancel1 zero_less_numeral)
  have "m1 = write_all (\<lambda>a. pat a SEED_BURST) phys (map S ?is) m" by (simp add: m1_def write_all_def fold_map comp_def)
  moreover have "inj_on phys (set (map S ?is))" using inj by (auto simp: inj_on_def)
  ultimately have m1: "m1 (phys (S i)) = pat (S i) SEED_BURST" if "i \<in> set ?is" for i
    using any_marks.intact_iff [where s = SEED_BURST and as = "map S ?is" and cell = phys and m = m] that by auto
  have src: "m2 (phys (S i)) = m1 (phys (S i))" if "i \<in> set ?is" for i
    unfolding m2_def using inj apart that by (intro copy_other) blast
  have "m2 (phys (D i)) = m1 (phys (S i))" if "i \<in> set ?is" for i
    unfolding m2_def using inj apart D_inj that by (intro copy_words inj_onI) blast+
  with src have same: "\<forall>i\<in>set ?is. m2 (phys (D i)) = m2 (phys (S i))" by simp
  have keep: "filter (\<lambda>i. m2 (phys (S i)) \<noteq> pat (S i) SEED_BURST) ?is = []" using src m1 by (simp add: filter_empty_conv)
  obtain ws where wins: "wins = ?w # ws" using assms(1) by (cases wins) auto
  have "test_burst_copy phys (?w # ws) m = Some (0, m2)"
    unfolding test_burst_copy_def list.case Let_def burst_fill_def copy_block_def same_block_def clobbered_def burst_loop(1)
    unfolding S_def [symmetric] D_def [symmetric] bind.simps m1_def [symmetric] m2_def [symmetric] burst_sums
    by (simp add: same keep)
  then show ?thesis using wins by auto
qed

section \<open>The suites together\<close>

text \<open>Every suite stays in the windows: what it tests is part of what the sweep tests.\<close>

lemma in_tested:
  assumes "w \<in> set wins" "window_ok w" "unat a mod 8 = 0" "w_start w \<le> a" "a < w_end w"
  shows "a \<in> tested_words wins"
  using assms in_grid [of w a] by (auto simp: tested_words_def window_ok_def)

lemma line_grid_tested:
  assumes "w \<in> set wins" "window_ok w" "unat s mod 8 = 0" "w_start w \<le> s" "e \<le> w_end w"
  shows "grid LINE_BYTES s e \<subseteq> tested_words wins"
proof
  fix a assume a: "a \<in> grid LINE_BYTES s e"
  then have "64 dvd unat (a - s)" "s \<le> a" "a < e" by (auto simp: grid_def LINE_BYTES_def)
  then have "8 dvd unat a - unat s" "unat s \<le> unat a" by (auto simp: unat_diff_le word_le_nat_alt elim: dvd_trans [rotated])
  moreover have "8 dvd unat s" using assms(3) by (rule mod_0_imp_dvd)
  ultimately have "8 dvd unat a" by (metis dvd_diffD)
  then show "a \<in> tested_words wins" using assms \<open>s \<le> a\<close> \<open>a < e\<close> by (intro in_tested [of w]) auto
qed

lemma window_ok_simps:
  assumes "window_ok w"
  shows "w_start w < w_end w" "unat (w_start w + WIN_BYTES) = unat (w_start w) + 0x400000" "w_start w + WIN_BYTES \<le> w_end w"
    "unat (w_end w - WIN_BYTES) = unat (w_end w) - 0x400000" "w_start w \<le> w_end w - WIN_BYTES" "unat (w_end w - LINE_BYTES) = unat (w_end w) - 64"
proof -
  have ok: "unat (w_start w) + 0x400000 \<le> unat (w_end w)" "unat (w_end w) \<le> 2 ^ 63" using assms by (simp_all add: window_ok_def)
  show a: "unat (w_start w + WIN_BYTES) = unat (w_start w) + 0x400000"
    using ok by (subst unat_add_no_wrap) (simp_all add: WIN_BYTES_def)
  have "WIN_BYTES \<le> w_end w" "LINE_BYTES \<le> w_end w" using ok by (simp_all add: word_le_nat_alt WIN_BYTES_def LINE_BYTES_def)
  then show e: "unat (w_end w - WIN_BYTES) = unat (w_end w) - 0x400000" "unat (w_end w - LINE_BYTES) = unat (w_end w) - 64"
    by (simp_all add: unat_diff_le WIN_BYTES_def LINE_BYTES_def)
  show "w_start w < w_end w" "w_start w + WIN_BYTES \<le> w_end w" "w_start w \<le> w_end w - WIN_BYTES"
    using ok a e by (simp_all add: word_le_nat_alt word_less_nat_alt)
qed

lemma markers_tested:
  assumes "wins \<noteq> []" "\<forall>w\<in>set wins. window_ok w" "v \<in> set (marker_windows wins)"
  shows "grid LINE_BYTES (w_start v) (w_end v) \<subseteq> tested_words wins"
proof -
  have h: "hd wins \<in> set wins" "window_ok (hd wins)" and l: "last wins \<in> set wins" "window_ok (last wins)" using assms(1,2) by simp_all
  consider "v = \<lparr>w_start = w_start (hd wins), w_end = w_start (hd wins) + WIN_BYTES\<rparr>"
    | w where "w \<in> set wins" "w_start w + WIN_BYTES < 0x100000000 - WIN_BYTES" "0x100000000 + WIN_BYTES \<le> w_end w"
        "v = \<lparr>w_start = 0x100000000 - WIN_BYTES, w_end = 0x100000000 + WIN_BYTES\<rparr>"
    | "v = \<lparr>w_start = w_end (last wins) - WIN_BYTES, w_end = w_end (last wins)\<rparr>"
    using assms(3) by (auto simp: marker_windows_def Let_def list_ex_iff split: if_splits)
  then show ?thesis
  proof cases
    case 1
    moreover have "unat (w_start (hd wins)) mod 8 = 0" using h(2) by (simp add: window_ok_def)
    ultimately show ?thesis using h window_ok_simps(3) [OF h(2)] by (intro line_grid_tested [of "hd wins"]) simp_all
  next
    case (2 w)
    then have "window_ok w" using assms(2) by blast
    moreover from window_ok_simps(2) [OF this] have "w_start w \<le> 0x100000000 - WIN_BYTES"
      using 2(2) by (simp add: word_le_nat_alt word_less_nat_alt WIN_BYTES_def)
    ultimately show ?thesis using 2 by (intro line_grid_tested [of w]) (simp_all add: WIN_BYTES_def)
  next
    case 3
    have "unat (w_end (last wins) - WIN_BYTES) mod 8 = 0"
      using l(2) unfolding window_ok_simps(4) [OF l(2)] by (simp add: window_ok_def mod_eq_0_iff_dvd dvd_diff_nat)
    then show ?thesis using 3 l window_ok_simps(5) [OF l(2)] by (intro line_grid_tested [of "last wins"]) simp_all
  qed
qed

lemma probes_tested:
  assumes "wins \<noteq> []" "\<forall>w\<in>set wins. window_ok w"
  shows "probe_addrs wins \<subseteq> tested_words wins"
proof
  fix a assume a: "a \<in> probe_addrs wins"
  have h: "hd wins \<in> set wins" "window_ok (hd wins)" and l: "last wins \<in> set wins" "window_ok (last wins)" using assms by simp_all
  consider "a = w_start (hd wins)" | "a = w_end (last wins) - LINE_BYTES"
    | j w where "20 \<le> j" "j < 63" "a = w_start (hd wins) + 2 ^ j" "w \<in> set wins" "w_start w \<le> a" "a + WORD_BYTES \<le> w_end w"
    using a by (auto simp: probe_addrs_def Let_def addr_testable_def list_ex_iff)
  then show "a \<in> tested_words wins"
  proof cases
    case 1
    then show ?thesis using h window_ok_simps(1) [OF h(2)] by (intro in_tested [of "hd wins"]) (auto simp: window_ok_def)
  next
    case 2
    have "unat a mod 8 = 0" "unat a = unat (w_end (last wins)) - 64"
      using l(2) unfolding 2 window_ok_simps(6) [OF l(2)] by (simp_all add: window_ok_def mod_eq_0_iff_dvd dvd_diff_nat)
    then show ?thesis
      using l by (intro in_tested [of "last wins"]) (auto simp: window_ok_def word_le_nat_alt word_less_nat_alt)
  next
    case (3 j w)
    have "(2 :: nat) ^ j \<le> 2 ^ 62" using 3(2) by (intro power_increasing) simp_all
    then have "unat (of_nat (2 ^ j) :: u64) = 2 ^ j" by (intro unat_of_nat_small) simp
    then have p: "unat (2 ^ j :: u64) = 2 ^ j" by simp
    have "(2 :: nat) ^ 3 dvd 2 ^ j" using 3(1) by (intro le_imp_power_dvd) simp
    moreover have "8 dvd unat (w_start (hd wins))" "unat (w_start (hd wins)) \<le> 2 ^ 63" using h(2) by (auto simp: window_ok_def)
    ultimately have m: "unat a mod 8 = 0" "unat a < 2 ^ 64 - 8"
      using p \<open>2 ^ j \<le> 2 ^ 62\<close> unfolding 3(3) by (subst unat_add_no_wrap; simp)+
    then have "unat (a + WORD_BYTES) = unat a + 8" by (subst unat_add_no_wrap) (simp_all add: WORD_BYTES_def)
    then have "a < w_end w" using 3(6) by (simp add: word_le_nat_alt word_less_nat_alt)
    then show ?thesis using 3 m assms(2) by (intro in_tested [of w]) auto
  qed
qed

lemma markers_nonneg:
  assumes "test_interleave_markers phys wins m = Some (f, m')"
  shows "0 \<le> f"
proof -
  have "marker_report phys m ws = Some f \<Longrightarrow> 0 \<le> f" for m ws f
    by (induction ws arbitrary: f) (auto split: bind_splits if_splits)
  then show ?thesis using assms by (auto simp: test_interleave_markers_def Let_def split: if_splits bind_splits)
qed

lemma suites_verdict:
  assumes "wins \<noteq> []" "\<forall>w\<in>set wins. window_ok w" "sorted_wrt (\<lambda>v w. w_end v \<le> w_start w) wins"
  shows "\<exists>m'. mem_suites phys wins m = Some (if inj_on phys (tested_words wins) then 0 else 1, m')"
proof -
  have h: "hd wins \<in> set wins" "window_ok (hd wins)" and l: "window_ok (last wins)" using assms(1,2) by simp_all
  have ends: "\<forall>w\<in>set wins. loop_ends LINE_BYTES (w_end w)" "\<forall>w\<in>set wins. loop_ends WORD_BYTES (w_end w)"
    using assms(2) by (auto simp: window_ok_def loop_ends_def LINE_BYTES_def WORD_BYTES_def)
  have low: "unat (w_end (last wins)) \<le> 2 ^ 63" "unat (w_start (hd wins)) + 8 < 2 ^ 63" using h(2) l by (auto simp: window_ok_def)
  have mends: "\<forall>w\<in>set (marker_windows wins). loop_ends LINE_BYTES (w_end w)"
    using low(1) h(2) window_ok_simps(2) [OF h(2)]
    by (auto simp: marker_windows_def loop_ends_def window_ok_def LINE_BYTES_def WIN_BYTES_def Let_def)
  obtain wrap ref_ok m0 where c: "test_capacity_probe phys wins m =
      Some (if inj_on phys (probe_addrs wins) then 0 else 1, wrap, ref_ok, m0)" using capacity_detect [OF assms(1) low] by blast
  obtain f1 m1 where f1: "test_interleave_markers phys wins m0 = Some (f1, m1)"
    "f1 = 0 \<longleftrightarrow> inj_on phys (\<Union>w\<in>set (marker_windows wins). grid LINE_BYTES (w_start w) (w_end w))"
    using markers_detect [OF assms(1) mends] by blast
  obtain f2 m2 where f2: "test_access_widths phys wins m1 = Some (f2, m2)" "0 \<le> f2"
    "f2 = 0 \<longleftrightarrow> inj_on phys (grid WORD_BYTES (w_start (hd wins)) (w_start (hd wins) + width_span))"
    using access_widths_detect [OF assms(1) h(2)] by blast
  obtain f3 m3 where f3: "test_burst_copy phys wins m2 = Some (f3, m3)" "0 \<le> f3" using burst_runs [OF assms(1)] by blast
  obtain s4 where f4: "test_line_edges phys wins \<lparr>t_mem = m3, sweep_failures = 0, t_log = []\<rparr> =
      Some (if inj_on phys (\<Union>w\<in>set wins. grid LINE_BYTES (w_start w) (w_end w)) then 0 else 1, s4)"
    using line_edges_detect [OF ends(1)] by blast
  obtain s5 where f5: "test_full_sweep phys wins s4 = Some (if inj_on phys (tested_words wins) then 0 else 1, s5)"
    using full_sweep_detect [OF ends(2) assms(3)] unfolding tested_words_def by blast
  have "grid LINE_BYTES (w_start w) (w_end w) \<subseteq> tested_words wins" if "w \<in> set wins" for w
    using that assms(2) by (intro line_grid_tested [OF that]) (auto simp: window_ok_def)
  then have sub: "probe_addrs wins \<subseteq> tested_words wins"
    "(\<Union>w\<in>set (marker_windows wins). grid LINE_BYTES (w_start w) (w_end w)) \<subseteq> tested_words wins"
    "(\<Union>w\<in>set wins. grid LINE_BYTES (w_start w) (w_end w)) \<subseteq> tested_words wins"
    "grid WORD_BYTES (w_start (hd wins)) (w_end (hd wins)) \<subseteq> tested_words wins"
    using probes_tested [OF assms(1,2)] markers_tested [OF assms(1,2)] h(1) by (blast, blast, blast) (auto simp: tested_words_def h(1) intro!: bexI [of _ "hd wins"])
  have "w_start (hd wins) + width_span \<le> w_end (hd wins)"
  proof -
    have "unat (w_start (hd wins) + width_span) = unat (w_start (hd wins)) + 0x100"
      using low(2) h(2) by (subst unat_add_no_wrap) (simp_all add: window_ok_def width_span_def LINE_BYTES_def)
    then show ?thesis using h(2) by (simp add: window_ok_def word_le_nat_alt)
  qed
  then have sub2: "grid WORD_BYTES (w_start (hd wins)) (w_start (hd wins) + width_span) \<subseteq> tested_words wins"
    using sub(4) by (auto simp: grid_def)
  have zero: "f1 = 0" "f2 = 0" "f3 = 0" if inj: "inj_on phys (tested_words wins)"
    using f1(2) f2(3) burst_passes [OF assms(1) h(2), of phys m2] inj_on_subset [OF inj] sub sub2 f3(1) by auto
  note runs = mem_suites_def c f1(1) f2(1) f3(1) f4 f5
  have "0 \<le> f1" using f1(1) by (rule markers_nonneg)
  show ?thesis
  proof (cases "inj_on phys (tested_words wins)")
    case True
    then show ?thesis using zero inj_on_subset [OF True] sub by (simp add: runs)
  next
    case False
    then have "f1 + f2 + f3 + (if b then 0 else 1) + 1 \<noteq> 0" for b using \<open>0 \<le> f1\<close> f2(2) f3(2) by simp
    then show ?thesis using False by (simp add: runs)
  qed
qed

text \<open>The windows of whole-word ranges.\<close>

lemma start_origin:
  assumes "P reserved" "\<forall>r\<in>set ranges. P (rr_base r)" "\<forall>w\<in>set out. P (w_start w)"
  shows "\<forall>w\<in>set (fst (fold (window_step reserved mx) ranges (out, clamped))). P (w_start w)"
  using assms(2,3)
proof (induction ranges arbitrary: out clamped)
  case (Cons r rs)
  obtain out' clamped' where s: "window_step reserved mx r (out, clamped) = (out', clamped')" by fastforce
  then have "\<forall>w\<in>set out'. P (w_start w)"
    using Cons.prems assms(1) by (auto simp: window_step_def Let_def split: if_splits)
  then show ?case using Cons s by simp
qed simp

lemma windows_whole:
  assumes "compute_windows L nharts brk ranges mx = (wins, clamped)" "\<forall>r\<in>set ranges. ram_ok r" "sorted_wrt apart ranges"
    and "unat (reserved_end L nharts brk) + 0x400000 < 2 ^ 64"
  shows "\<forall>w\<in>set wins. window_ok w" "sorted_wrt (\<lambda>v w. w_end v \<le> w_start w) wins"
proof -
  let ?res = "reserved_end L nharts brk"
  have low: "\<forall>r\<in>set ranges. low_range r" using assms(2) by (auto simp: ram_ok_def low_range_def)
  obtain wins' where w: "fold (window_step ?res mx) ranges ([], 0) = ([] @ wins', 0)" "\<forall>w\<in>set wins'. window_in ?res ranges w"
    "sorted_wrt (\<lambda>v w. w_end v \<le> w_start w) wins'" using windows_fold [OF assms(4) low assms(3), of mx "[]" 0] by blast
  then have eq: "wins = wins'" using assms(1) by (simp add: compute_windows_def)
  have mk: "WIN_BYTES - 1 = mask 22" by (simp add: WIN_BYTES_def mask_eq_exp_minus_1)
  have "unat ?res mod 8 = 0"
    unfolding reserved_end_def Let_def mk unat_and_not_mask by (simp add: mod_eq_0_iff_dvd dvd_mult)
  then have start: "\<forall>w\<in>set wins. unat (w_start w) mod 8 = 0"
    using start_origin [of "\<lambda>a. unat a mod 8 = 0" ?res ranges "[]" mx 0] assms(2) w(1) by (simp add: eq ram_ok_def)
  show "\<forall>w\<in>set wins. window_ok w"
  proof
    fix w assume v: "w \<in> set wins"
    then obtain r where "unat (w_start w) + 0x400000 \<le> unat (w_end w)" "r \<in> set ranges"
      "unat (w_end w) = unat (rr_base r) + unat (rr_size r)" using w(2) by (auto simp: eq window_in_def)
    then show "window_ok w" using v start assms(2) by (auto simp: window_ok_def ram_ok_def)
  qed
  show "sorted_wrt (\<lambda>v w. w_end v \<le> w_start w) wins" using w(3) eq by simp
qed

section \<open>Properties\<close>

text \<open>
  C7. The verdict of the memory test. On ranges of whole words in the lower half of the address space, in
  order and apart (as \<open>dtb_ram_ranges\<close> leaves them), \<open>main\<close> ends: it returns 0 exactly when there is a window
  to test and no two words of all windows reach the same memory cell, whatever the mapping of addresses to
  cells, and 1 otherwise.
\<close>

theorem mem_test_verdict:
  assumes "dtb_ram_ranges b D MAX_RANGES = Some ranges" "clock_init b D = Some clk" "dtb_nharts b D = Some nharts"
    and "compute_windows L nharts (fst (sbrk L E 0 hs)) ranges MAX_RANGES = (wins, clamped)"
    and "\<forall>r\<in>set ranges. ram_ok r" "sorted_wrt apart ranges"
    and "unat (reserved_end L nharts (fst (sbrk L E 0 hs))) + 0x400000 < 2 ^ 64"
  shows "\<exists>m'. mem_test_main phys L E hs b D m =
    Some (if wins \<noteq> [] \<and> inj_on phys (tested_words wins) then 0 else 1, m')"
proof -
  have "ranges = [] \<Longrightarrow> wins = []" using assms(4) by (simp add: compute_windows_def)
  moreover have "\<exists>m'. mem_suites phys wins m = Some (if inj_on phys (tested_words wins) then 0 else 1, m')" if "wins \<noteq> []"
    using suites_verdict [OF that windows_whole [OF assms(4-7)]] .
  ultimately show ?thesis
    using assms(1-4) by (cases "wins = []") (auto simp: mem_test_main_def)
qed

theorem mem_test_verdict_witness:
  "\<exists>m'. mem_test_main (\<lambda>a. a) demo_layout demo_env (initial_heap demo_layout) mem_blob mem_dtb (\<lambda>_. 0) = Some (0, m')"
proof -
  let ?r = "[\<lparr>rr_base = 0x80000000, rr_size = 0x10000000\<rparr>] :: ram_range list"
  have r: "dtb_ram_ranges mem_blob mem_dtb MAX_RANGES = Some ?r" by code_simp
  have n: "dtb_nharts mem_blob mem_dtb = Some 1" "clock_init mem_blob mem_dtb = Some None" by code_simp+
  have w: "compute_windows demo_layout 1 (fst (sbrk demo_layout demo_env 0 (initial_heap demo_layout))) ?r MAX_RANGES =
      ([\<lparr>w_start = 0x80400000, w_end = 0x90000000\<rparr>], 0)" by code_simp
  have "reserved_end demo_layout 1 (fst (sbrk demo_layout demo_env 0 (initial_heap demo_layout))) = 0x80400000"
    by code_simp
  then show ?thesis using mem_test_verdict [OF r n(2,1) w, of "\<lambda>a. a" "\<lambda>_. 0"] by (simp add: ram_ok_def)
qed

end
