(* ===== verification/Sd_Controller.thy ===== *)
theory Sd_Controller
  imports Soct_Prelude
begin

text \<open>
  The AXI SD card controller as its two polled drivers see it (\<open>soct_ff/sdc.c\<close> of the runtime and
  \<open>sd-boot/bootrom.c\<close>; the Linux driver shares the registers): for every register the values its coming reads return, and the trace of the
  register writes and delays. A driver that is still polling when the reads of a register run out
  has no result.
\<close>

section \<open>Registers\<close>

datatype sdc_reg = R_argument | R_command | R_response1 | R_response2 | R_response3 | R_response4
  | R_data_timeout | R_control | R_cmd_timeout | R_clock_divider | R_software_reset
  | R_power_control | R_capability | R_cmd_int_status | R_cmd_int_enable | R_dat_int_status
  | R_dat_int_enable | R_block_size | R_block_count | R_card_detect | R_dma_addres

datatype sdc_event = Wr sdc_reg u64 | Usleep u32

record sdc_dev =
  dev_reads :: "sdc_reg \<Rightarrow> u32 list"
  dev_trace :: "sdc_event list"
  sd_response :: "u32 list"
  sd_card_type :: u8
  sd_drv_status :: u8
  sd_errno :: u32

definition wr :: "sdc_reg \<Rightarrow> u64 \<Rightarrow> sdc_dev \<Rightarrow> sdc_dev" where
  "wr r v d = d\<lparr>dev_trace := dev_trace d @ [Wr r v]\<rparr>"

definition usleep :: "u32 \<Rightarrow> sdc_dev \<Rightarrow> sdc_dev" where
  "usleep us d = d\<lparr>dev_trace := dev_trace d @ [Usleep us]\<rparr>"

definition poll_reg :: "(u32 \<Rightarrow> bool) \<Rightarrow> sdc_reg \<Rightarrow> sdc_dev \<Rightarrow> (u32 \<times> sdc_dev) option" where
  "poll_reg P r d =
     (case poll P (dev_reads d r) of
        None \<Rightarrow> None
      | Some (v, vs) \<Rightarrow> Some (v, d\<lparr>dev_reads := (dev_reads d)(r := vs)\<rparr>))"

definition rd :: "sdc_reg \<Rightarrow> sdc_dev \<Rightarrow> (u32 \<times> sdc_dev) option" where
  "rd r d = poll_reg (\<lambda>v. True) r d"

text \<open>The four response registers into the driver's copy.\<close>

definition read_response :: "sdc_dev \<Rightarrow> sdc_dev option" where
  "read_response d = do {
     (r1, d) \<leftarrow> rd R_response1 d;
     (r2, d) \<leftarrow> rd R_response2 d;
     (r3, d) \<leftarrow> rd R_response3 d;
     (r4, d) \<leftarrow> rd R_response4 d;
     Some (d\<lparr>sd_response := [r1, r2, r3, r4]\<rparr>) }"

section \<open>Traces\<close>

text \<open>The commands and arguments written, in order.\<close>

fun writes_to :: "sdc_reg \<Rightarrow> sdc_event list \<Rightarrow> u64 list" where
  "writes_to r [] = []"
| "writes_to r (Wr q v # es) = (if q = r then v # writes_to r es else writes_to r es)"
| "writes_to r (Usleep us # es) = writes_to r es"

text \<open>
  What a trace makes the controller and the card do. The controller starts the command in its command
  register when the argument is written; bit 5 of the word asks for a data transfer and bit 6 makes it
  one to the card. The card goes by the number of the command (17 and 18 read one and many blocks, 24
  and 25 write them), and after 18 and 25 expects nothing but the stop command 12. A transfer moves
  blocks between card addresses and memory when both agree; everything else is \<open>Garbled\<close>. \<open>step\<close> is the
  distance of two blocks on the card.
\<close>

datatype sd_move = From_card u32 u64 | To_card u32 u64 | Garbled

record xfer =
  x_dma :: u64
  x_size :: u64
  x_count :: u64
  x_command :: u64
  x_open :: bool

definition opcode :: "u64 \<Rightarrow> u64" where
  "opcode w = drop_bit 8 w AND 0x3F"

definition agreed :: "xfer \<Rightarrow> bool" where
  "agreed x \<longleftrightarrow> x_size x = 511 \<and>
     (if bit (x_command x) 6 then opcode (x_command x) = 25 \<or> opcode (x_command x) = 24 \<and> x_count x = 0
      else opcode (x_command x) = 18 \<or> opcode (x_command x) = 17 \<and> x_count x = 0)"

definition started :: "u32 \<Rightarrow> u64 \<Rightarrow> xfer \<Rightarrow> sd_move list" where
  "started step g x =
     (if x_open x \<and> opcode (x_command x) \<noteq> 12 then [Garbled]
      else if \<not> bit (x_command x) 5
      then if opcode (x_command x) \<in> {17, 18, 24, 25} then [Garbled] else []
      else if \<not> agreed x then [Garbled]
      else map (\<lambda>k. (if bit (x_command x) 6 then To_card else From_card)
             (ucast g + step * of_nat k) (x_dma x + 512 * of_nat k)) [0..<unat (x_count x) + 1])"

definition x_write :: "u32 \<Rightarrow> sdc_reg \<Rightarrow> u64 \<Rightarrow> xfer \<Rightarrow> sd_move list \<times> xfer" where
  "x_write step r v x =
     (if r = R_dma_addres then ([], x\<lparr>x_dma := v\<rparr>)
      else if r = R_block_size then ([], x\<lparr>x_size := v\<rparr>)
      else if r = R_block_count then ([], x\<lparr>x_count := v\<rparr>)
      else if r = R_command then ([], x\<lparr>x_command := v\<rparr>)
      else if r = R_argument then (started step v x,
        x\<lparr>x_open := opcode (x_command x) \<in> {18, 25} \<or> x_open x \<and> opcode (x_command x) \<noteq> 12\<rparr>)
      else ([], x))"

fun x_run :: "u32 \<Rightarrow> sdc_event list \<Rightarrow> xfer \<Rightarrow> sd_move list \<times> xfer" where
  "x_run step [] x = ([], x)"
| "x_run step (Usleep us # es) x = x_run step es x"
| "x_run step (Wr r v # es) x =
     (case x_write step r v x of (ms, x) \<Rightarrow> case x_run step es x of (ms', x) \<Rightarrow> (ms @ ms', x))"

text \<open>
  A device on which at least \<open>n\<close> more commands succeed: every status read reports completion, the
  reset bit reads zero, and the responses can be read.
\<close>

definition healthy :: "nat \<Rightarrow> sdc_dev \<Rightarrow> bool" where
  "healthy n d \<longleftrightarrow>
     (\<forall>v\<in>set (dev_reads d R_cmd_int_status). v = 1) \<and> n \<le> length (dev_reads d R_cmd_int_status) \<and>
     (\<forall>v\<in>set (dev_reads d R_dat_int_status). v = 1) \<and> n \<le> length (dev_reads d R_dat_int_status) \<and>
     (\<forall>v\<in>set (dev_reads d R_software_reset). v = 0) \<and> 2 * n \<le> length (dev_reads d R_software_reset) \<and>
     (\<forall>r\<in>{R_response1, R_response2, R_response3, R_response4}. n \<le> length (dev_reads d r))"

section \<open>Lemmas\<close>

lemma writes_to_append [simp]: "writes_to r (xs @ ys) = writes_to r xs @ writes_to r ys"
  by (induction r xs rule: writes_to.induct) auto

lemma x_run_append:
  "x_run step (xs @ ys) x = (case x_run step xs x of (ms, x) \<Rightarrow> case x_run step ys x of (ms', x) \<Rightarrow> (ms @ ms', x))"
  by (induction step xs x rule: x_run.induct) (auto split: prod.splits)

lemma wr_simps [simp]:
  "dev_reads (wr r v d) = dev_reads d" "dev_trace (wr r v d) = dev_trace d @ [Wr r v]"
  "sd_response (wr r v d) = sd_response d" "sd_card_type (wr r v d) = sd_card_type d"
  "sd_drv_status (wr r v d) = sd_drv_status d" "sd_errno (wr r v d) = sd_errno d"
  by (simp_all add: wr_def)

lemma usleep_simps [simp]:
  "dev_reads (usleep u d) = dev_reads d" "dev_trace (usleep u d) = dev_trace d @ [Usleep u]"
  "sd_response (usleep u d) = sd_response d" "sd_card_type (usleep u d) = sd_card_type d"
  "sd_drv_status (usleep u d) = sd_drv_status d"
  by (simp_all add: usleep_def)

text \<open>Reads leave everything but the pending reads alone.\<close>

lemma poll_reg_keeps:
  assumes "poll_reg P r d = Some (v, d')"
  shows "P v" "dev_trace d' = dev_trace d" "sd_card_type d' = sd_card_type d"
    "sd_drv_status d' = sd_drv_status d" "sd_errno d' = sd_errno d" "sd_response d' = sd_response d"
  using assms by (auto simp: poll_reg_def dest: poll_exit split: option.splits)

lemma read_response_keeps:
  assumes "read_response d = Some d'"
  shows "dev_trace d' = dev_trace d" "sd_card_type d' = sd_card_type d"
    "sd_drv_status d' = sd_drv_status d" "sd_errno d' = sd_errno d"
  using assms
  by (auto simp: read_response_def rd_def poll_reg_def split: Option.bind_splits option.splits)

end
