(* ===== verification/Sdc.thy ===== *)
theory Sdc
  imports Sd_Controller
begin

text \<open>
  The SD card driver of the runtime, \<open>shared/soctglue/src/soct_ff/sdc.c\<close>, for one drive: the
  command words, the polled command, the identification sequence, and block transfers split into
  chunks of at most 4096 blocks. An \<open>int\<close> result below zero is \<open>False\<close>.
\<close>

section \<open>Constants\<close>

definition CT_SD1 :: u8 where "CT_SD1 = 2"
definition CT_SD2 :: u8 where "CT_SD2 = 4"
definition CT_BLOCK :: u8 where "CT_BLOCK = 8"
definition STA_NOINIT :: u8 where "STA_NOINIT = 1"

definition SDC_CMD_INT_STATUS_CC :: u32 where "SDC_CMD_INT_STATUS_CC = 1"
definition SDC_CMD_INT_STATUS_CTE :: u32 where "SDC_CMD_INT_STATUS_CTE = 4"
definition SDC_CMD_INT_STATUS_CCRC :: u32 where "SDC_CMD_INT_STATUS_CCRC = 8"
definition SDC_CMD_INT_STATUS_CIE :: u32 where "SDC_CMD_INT_STATUS_CIE = 0x10"
definition SDC_DAT_INT_STATUS_TRS :: u32 where "SDC_DAT_INT_STATUS_TRS = 1"
definition SDC_DAT_INT_STATUS_CTE :: u32 where "SDC_DAT_INT_STATUS_CTE = 4"
definition SDC_DAT_INT_STATUS_CRC :: u32 where "SDC_DAT_INT_STATUS_CRC = 8"
definition SDC_DAT_INT_STATUS_CFE :: u32 where "SDC_DAT_INT_STATUS_CFE = 0x10"
definition SDC_CAPABILITY_SD_RESET :: u32 where "SDC_CAPABILITY_SD_RESET = 2"
definition SDC_CONTROL_SD_RESET :: u32 where "SDC_CONTROL_SD_RESET = 2"

definition FR_DISK_ERR :: u32 where "FR_DISK_ERR = 1"
definition FR_TIMEOUT :: u32 where "FR_TIMEOUT = 15"
definition ERR_CMD_CRC :: u32 where "ERR_CMD_CRC = 34"
definition ERR_CMD_CHECK :: u32 where "ERR_CMD_CHECK = 35"
definition ERR_DATA_CRC :: u32 where "ERR_DATA_CRC = 36"
definition ERR_DATA_FIFO :: u32 where "ERR_DATA_FIFO = 37"
definition ERR_BUF_ALIGNMENT :: u32 where "ERR_BUF_ALIGNMENT = 38"
definition MAX_BLOCK_CNT :: u32 where "MAX_BLOCK_CNT = 0x1000"

datatype DRESULT = RES_OK | RES_ERROR | RES_WRPRT | RES_NOTRDY | RES_PARERR

section \<open>Commands\<close>

definition cmd_errno :: "u32 \<Rightarrow> u32" where
  "cmd_errno status =
     (let e = FR_DISK_ERR;
          e = (if status AND SDC_CMD_INT_STATUS_CTE \<noteq> 0 then FR_TIMEOUT else e);
          e = (if status AND SDC_CMD_INT_STATUS_CCRC \<noteq> 0 then ERR_CMD_CRC else e);
          e = (if status AND SDC_CMD_INT_STATUS_CIE \<noteq> 0 then ERR_CMD_CHECK else e)
      in e)"

definition dat_errno :: "u32 \<Rightarrow> u32" where
  "dat_errno status =
     (let e = FR_DISK_ERR;
          e = (if status AND SDC_DAT_INT_STATUS_CTE \<noteq> 0 then FR_TIMEOUT else e);
          e = (if status AND SDC_DAT_INT_STATUS_CRC \<noteq> 0 then ERR_DATA_CRC else e);
          e = (if status AND SDC_DAT_INT_STATUS_CFE \<noteq> 0 then ERR_DATA_FIFO else e)
      in e)"

definition sdc_cmd_finish :: "sdc_dev \<Rightarrow> (bool \<times> sdc_dev) option" where
  "sdc_cmd_finish d = do {
     (status, d) \<leftarrow> poll_reg (\<lambda>v. v \<noteq> 0) R_cmd_int_status d;
     (_, d) \<leftarrow> poll_reg (\<lambda>v. v = 0) R_software_reset (wr R_cmd_int_status 0 d);
     if status = SDC_CMD_INT_STATUS_CC
     then do { d \<leftarrow> read_response d; Some (True, d) }
     else Some (False, d\<lparr>sd_errno := cmd_errno status\<rparr>) }"

definition sdc_data_finish :: "sdc_dev \<Rightarrow> (bool \<times> sdc_dev) option" where
  "sdc_data_finish d = do {
     (status, d) \<leftarrow> poll_reg (\<lambda>v. v \<noteq> 0) R_dat_int_status d;
     (_, d) \<leftarrow> poll_reg (\<lambda>v. v = 0) R_software_reset (wr R_dat_int_status 0 d);
     if status = SDC_DAT_INT_STATUS_TRS then Some (True, d)
     else Some (False, d\<lparr>sd_errno := dat_errno status\<rparr>) }"

text \<open>The response bits of the command word; \<open>ACMD\<open>n\<close>\<close> is numbered \<open>0x80 + n\<close>.\<close>

definition resp_flags :: "u32 \<Rightarrow> u32" where
  "resp_flags cmd =
     (if cmd \<in> set [0, 4, 15] then 0
      else if cmd \<in> set [11, 13, 16, 17, 18, 19, 23, 24, 25, 27, 30, 32, 33, 42, 55, 56, 0x80 + 6]
      then 1 OR push_bit 3 1 OR push_bit 4 1
      else if cmd \<in> set [7, 12, 20, 28, 29, 38]
      then 1 OR push_bit 2 1 OR push_bit 3 1 OR push_bit 4 1
      else if cmd \<in> set [2, 9, 10] then 2 OR push_bit 3 1
      else if cmd = 0x80 + 41 then 1
      else if cmd = 3 then 1 OR push_bit 2 1 OR push_bit 3 1 OR push_bit 4 1
      else if cmd = 8 then 1 OR push_bit 3 1 OR push_bit 4 1
      else 0)"

definition data_flags :: "u32 \<Rightarrow> u32" where
  "data_flags cmd =
     push_bit 5 1 OR (if cmd \<in> set [24, 25, 27, 28, 29, 38] then push_bit 6 1 else 0)"

definition cmd_word :: "u32 \<Rightarrow> u32 \<Rightarrow> u32" where
  "cmd_word cmd blocks =
     push_bit 8 (cmd AND 0x3F) OR resp_flags cmd OR (if blocks \<noteq> 0 then data_flags cmd else 0)"

definition issue :: "u32 \<Rightarrow> u32 \<Rightarrow> sdc_dev \<Rightarrow> sdc_dev" where
  "issue command arg d =
     wr R_argument (ucast arg) (wr R_cmd_timeout 0xFFFFF (wr R_command (ucast command) d))"

definition setup_data :: "u64 \<Rightarrow> u32 \<Rightarrow> sdc_dev \<Rightarrow> sdc_dev" where
  "setup_data buf blocks d =
     wr R_data_timeout 0xFFFFFF (wr R_block_count (ucast (blocks - 1))
       (wr R_block_size 511 (wr R_dma_addres buf d)))"

definition send_data_cmd :: "u32 \<Rightarrow> u32 \<Rightarrow> u64 \<Rightarrow> u32 \<Rightarrow> sdc_dev \<Rightarrow> (bool \<times> sdc_dev) option" where
  "send_data_cmd cmd arg buf blocks d =
     (if blocks \<noteq> 0 \<and> buf AND 3 \<noteq> 0 then Some (False, d\<lparr>sd_errno := ERR_BUF_ALIGNMENT\<rparr>)
      else do {
        (ok, d) \<leftarrow> sdc_cmd_finish (issue (cmd_word cmd blocks) arg
                     (if blocks \<noteq> 0 then setup_data buf blocks d else d));
        if \<not> ok then Some (False, d)
        else if blocks \<noteq> 0 then sdc_data_finish d
        else Some (True, d) })"

definition send_cmd :: "u32 \<Rightarrow> u32 \<Rightarrow> sdc_dev \<Rightarrow> (bool \<times> sdc_dev) option" where
  "send_cmd cmd arg d = send_data_cmd cmd arg 0 0 d"

section \<open>Initialisation\<close>

partial_function (option) wait_ready :: "sdc_dev \<Rightarrow> (bool \<times> sdc_dev) option" where
  "wait_ready d = do {
     (ok, d) \<leftarrow> send_cmd 55 0 d;
     if \<not> ok then Some (False, d)
     else do {
       (ok, d) \<leftarrow> send_cmd (0x80 + 41) 0x40300000 d;
       if \<not> ok then Some (False, d)
       else if (sd_response d ! 0) AND push_bit 31 1 \<noteq> 0
       then Some (True, if (sd_response d ! 0) AND push_bit 30 1 \<noteq> 0
                        then d\<lparr>sd_card_type := sd_card_type d OR CT_BLOCK\<rparr> else d)
       else wait_ready d } }"

declare wait_ready.simps [code]

text \<open>
  \<open>if (send_cmd(cmd, arg) < 0) return s_drv_status;\<close> before the rest; the sequence once the card
  has left the idle state.
\<close>

definition try_cmd :: "u32 \<Rightarrow> u32 \<Rightarrow> (sdc_dev \<Rightarrow> sdc_dev option) \<Rightarrow> sdc_dev \<Rightarrow> sdc_dev option" where
  "try_cmd cmd arg rest d = do { (ok, d) \<leftarrow> send_cmd cmd arg d; if \<not> ok then Some d else rest d }"

definition identify :: "sdc_dev \<Rightarrow> sdc_dev option" where
  "identify =
     try_cmd 2 0 (
     try_cmd 3 (push_bit 16 0x1234) (\<lambda>d.
     let rca = drop_bit 16 (sd_response d ! 0)
     in try_cmd 7 (push_bit 16 rca) (\<lambda>d.
     try_cmd 55 (push_bit 16 rca) (
     try_cmd (0x80 + 6) 0 (
     try_cmd 16 512 (\<lambda>d.
     Some (d\<lparr>sd_drv_status := sd_drv_status d AND NOT STA_NOINIT\<rparr>))))
     (wr R_control 0 (usleep 10000 (wr R_clock_divider 3 d)))) d))"

definition reset_controller :: "sdc_dev \<Rightarrow> sdc_dev option" where
  "reset_controller d = do {
     (_, d) \<leftarrow> poll_reg (\<lambda>v. v AND 1 \<noteq> 0) R_software_reset (wr R_software_reset 1 d);
     (_, d) \<leftarrow> poll_reg (\<lambda>v. v = 0) R_software_reset (wr R_software_reset 0 (wr R_clock_divider 0x7C d));
     let d = usleep 5000 d;
     (cap, d) \<leftarrow> rd R_capability d;
     if cap AND SDC_CAPABILITY_SD_RESET \<noteq> 0
     then do {
       (c, d) \<leftarrow> rd R_control d;
       let d = usleep 1000000 (wr R_control (ucast (c OR SDC_CONTROL_SD_RESET)) d);
       (c, d) \<leftarrow> rd R_control d;
       Some (usleep 100000 (wr R_control (ucast (c AND NOT SDC_CONTROL_SD_RESET)) d)) }
     else Some d }"

definition sdc_initialize :: "sdc_dev \<Rightarrow> (u8 \<times> sdc_dev) option" where
  "sdc_initialize d = do {
     d \<leftarrow> reset_controller (d\<lparr>sd_card_type := 0, sd_drv_status := STA_NOINIT\<rparr>);
     (_, d) \<leftarrow> send_cmd 0 0 d;
     (ok, d) \<leftarrow> send_cmd 8 0x1AA (d\<lparr>sd_card_type := CT_SD1\<rparr>);
     if ok \<and> (sd_response d ! 0) AND 0xFFF \<noteq> 0x1AA
     then Some (sd_drv_status d, d\<lparr>sd_errno := ERR_CMD_CHECK\<rparr>)
     else do {
       (ok, d) \<leftarrow> wait_ready (if ok then d\<lparr>sd_card_type := CT_SD2\<rparr> else d);
       if \<not> ok then Some (sd_drv_status d, d)
       else do { d \<leftarrow> identify d; Some (sd_drv_status d, d) } } }"

definition sdc_status :: "sdc_dev \<Rightarrow> u8" where
  "sdc_status d = sd_drv_status d"

section \<open>Block transfers\<close>

text \<open>The loop of \<open>sdc_read\<close> and \<open>sdc_write\<close>, with the single- and the multi-block command.\<close>

function xfer_loop :: "u32 \<Rightarrow> u32 \<Rightarrow> u64 \<Rightarrow> u64 \<Rightarrow> u32 \<Rightarrow> sdc_dev \<Rightarrow> (DRESULT \<times> sdc_dev) option" where
  "xfer_loop one many buff sector count d =
     (if count = 0 then Some (RES_OK, d)
      else
        let bcnt = (if count > MAX_BLOCK_CNT then MAX_BLOCK_CNT else count);
            bytes = bcnt * 512
        in do {
          (ok, d) \<leftarrow> send_data_cmd (if bcnt = 1 then one else many) (ucast sector) buff bcnt d;
          if \<not> ok then Some (RES_ERROR, d)
          else do {
            (ok, d) \<leftarrow> (if bcnt > 1 then send_cmd 12 0 d else Some (True, d));
            if \<not> ok then Some (RES_ERROR, d)
            else xfer_loop one many (buff + ucast bytes)
                   (sector + (if sd_card_type d AND CT_BLOCK \<noteq> 0 then ucast bcnt else ucast bytes))
                   (count - bcnt) d } })"
  by pat_completeness auto
termination
proof (relation "measure (\<lambda>(_, _, _, _, count, _). unat count)", rule wf_measure)
  fix count bcnt :: u32
  assume "count \<noteq> 0" and "bcnt = (if MAX_BLOCK_CNT < count then MAX_BLOCK_CNT else count)"
  then have "bcnt \<noteq> 0 \<and> bcnt \<le> count" by (auto simp: MAX_BLOCK_CNT_def)
  then have "unat (count - bcnt) < unat count" by (simp add: word_sub_decreases)
  then show "\<And>one many buff sector d one' many' buff' sector' d'.
      ((one', many', buff', sector', count - bcnt, d'), (one, many, buff, sector, count, d))
        \<in> measure (\<lambda>(_, _, _, _, count, _). unat count)"
    by simp
qed

definition start_sector :: "sdc_dev \<Rightarrow> u64 \<Rightarrow> u64" where
  "start_sector d sector = (if sd_card_type d AND CT_BLOCK \<noteq> 0 then sector else sector * 512)"

definition sdc_read :: "u64 \<Rightarrow> u64 \<Rightarrow> u32 \<Rightarrow> sdc_dev \<Rightarrow> (DRESULT \<times> sdc_dev) option" where
  "sdc_read buff sector count d =
     (if count = 0 then Some (RES_PARERR, d)
      else if sd_drv_status d AND STA_NOINIT \<noteq> 0 then Some (RES_NOTRDY, d)
      else xfer_loop 17 18 buff (start_sector d sector) count d)"

definition sdc_write :: "u64 \<Rightarrow> u64 \<Rightarrow> u32 \<Rightarrow> sdc_dev \<Rightarrow> (DRESULT \<times> sdc_dev) option" where
  "sdc_write buff sector count d =
     (if count = 0 then Some (RES_PARERR, d)
      else if sd_drv_status d AND STA_NOINIT \<noteq> 0 then Some (RES_NOTRDY, d)
      else xfer_loop 24 25 buff (start_sector d sector) count d)"

text \<open>The result code and the value stored through \<open>buff\<close>, if any.\<close>

definition sdc_ioctl :: "u8 \<Rightarrow> sdc_dev \<Rightarrow> DRESULT \<times> u64 option" where
  "sdc_ioctl cmd d =
     (if sd_drv_status d AND STA_NOINIT \<noteq> 0 then (RES_NOTRDY, None)
      else if cmd = 0 then (RES_OK, None)
      else if cmd = 1 then (RES_OK, Some 0x100000)
      else if cmd = 2 then (RES_OK, Some 512)
      else if cmd = 3 then (RES_OK, Some 1)
      else (RES_PARERR, None))"

section \<open>Specification\<close>

text \<open>
  The blocks a request for \<open>count\<close> sectors is to move, from the card or to it: sector by sector and 512
  bytes by 512 bytes. A card is addressed by block number or, without block addressing, by byte.
\<close>

definition card_address :: "sdc_dev \<Rightarrow> u64 \<Rightarrow> u32" where
  "card_address d n = ucast (if sd_card_type d AND CT_BLOCK \<noteq> 0 then n else n * 512)"

definition requested :: "bool \<Rightarrow> u64 \<Rightarrow> u64 \<Rightarrow> nat \<Rightarrow> sdc_dev \<Rightarrow> sd_move list" where
  "requested to_card buff sector count d =
     map (\<lambda>k. (if to_card then To_card else From_card) (card_address d (sector + of_nat k)) (buff + 512 * of_nat k))
       [0..<count]"

definition card_step :: "sdc_dev \<Rightarrow> u32" where
  "card_step d = (if sd_card_type d AND CT_BLOCK \<noteq> 0 then 1 else 512)"

text \<open>The register writes of a data command.\<close>

definition data_trace :: "u64 \<Rightarrow> u32 \<Rightarrow> u64 \<Rightarrow> u32 \<Rightarrow> sdc_event list" where
  "data_trace buf blocks w arg = [Wr R_dma_addres buf, Wr R_block_size 511,
     Wr R_block_count (ucast (blocks - 1)), Wr R_data_timeout 0xFFFFFF, Wr R_command w,
     Wr R_cmd_timeout 0xFFFFF, Wr R_argument (ucast arg), Wr R_cmd_int_status 0,
     Wr R_dat_int_status 0]"

text \<open>A ready drive whose commands all complete, and a card that goes through identification.\<close>

definition demo_sd :: sdc_dev where
  "demo_sd = \<lparr>dev_reads = (\<lambda>r. if r = R_cmd_int_status \<or> r = R_dat_int_status then replicate 20 1
       else replicate 20 0),
     dev_trace = [], sd_response = [0, 0, 0, 0], sd_card_type = CT_SD2 OR CT_BLOCK,
     sd_drv_status = 0, sd_errno = 0\<rparr>"

definition fresh_card :: sdc_dev where
  "fresh_card = \<lparr>dev_reads = (\<lambda>r. if r = R_cmd_int_status then replicate 10 1
       else if r = R_software_reset then 0 # 1 # replicate 20 0
       else if r = R_response1 then [0, 0x1AA, 0x120, 0xC0FF8000, 0, 0xAAAA0520, 0x700, 0x920, 0x920, 0x900]
       else replicate 10 0),
     dev_trace = [], sd_response = [0, 0, 0, 0], sd_card_type = 0, sd_drv_status = STA_NOINIT, sd_errno = 0\<rparr>"

text \<open>A step that only appends events and keeps the card type and the drive status.\<close>

definition extends :: "sdc_dev \<Rightarrow> sdc_dev \<Rightarrow> sdc_event list \<Rightarrow> bool" where
  "extends d d' es \<longleftrightarrow> dev_trace d' = dev_trace d @ es \<and>
     sd_card_type d' = sd_card_type d \<and> sd_drv_status d' = sd_drv_status d"

section \<open>Commands\<close>

lemma extends_refl: "extends d d []"
  by (simp add: extends_def)

lemma extends_trans: "extends d d1 xs \<Longrightarrow> extends d1 d2 ys \<Longrightarrow> extends d d2 (xs @ ys)"
  by (simp add: extends_def)

lemma poll_reg_extends: "poll_reg P r d = Some (v, d') \<Longrightarrow> extends d d' []"
  by (simp add: extends_def poll_reg_keeps)

lemma cmd_finish_extends:
  assumes "sdc_cmd_finish d = Some (ok, d')"
  shows "extends d d' [Wr R_cmd_int_status 0]"
proof -
  obtain st d1 x d2 where p: "poll_reg (\<lambda>v. v \<noteq> 0) R_cmd_int_status d = Some (st, d1)"
      "poll_reg (\<lambda>v. v = 0) R_software_reset (wr R_cmd_int_status 0 d1) = Some (x, d2)"
      "(if st = SDC_CMD_INT_STATUS_CC then do { d \<leftarrow> read_response d2; Some (True, d) }
        else Some (False, d2\<lparr>sd_errno := cmd_errno st\<rparr>)) = Some (ok, d')"
    using assms by (auto simp: sdc_cmd_finish_def split: Option.bind_splits)
  from p(3) have "extends d2 d' []"
    by (auto simp: extends_def read_response_keeps split: if_splits Option.bind_splits)
  with poll_reg_extends [OF p(1)] poll_reg_extends [OF p(2)] show ?thesis by (simp add: extends_def)
qed

lemma data_finish_extends:
  assumes "sdc_data_finish d = Some (ok, d')"
  shows "extends d d' [Wr R_dat_int_status 0]"
proof -
  obtain st d1 x d2 where p: "poll_reg (\<lambda>v. v \<noteq> 0) R_dat_int_status d = Some (st, d1)"
      "poll_reg (\<lambda>v. v = 0) R_software_reset (wr R_dat_int_status 0 d1) = Some (x, d2)"
      "extends d2 d' []"
    using assms by (auto simp: sdc_data_finish_def extends_def split: Option.bind_splits if_splits)
  with poll_reg_extends [OF p(1)] poll_reg_extends [OF p(2)] show ?thesis by (simp add: extends_def)
qed

text \<open>The events of a command.\<close>

lemma send_cmd_extends:
  assumes "send_cmd cmd arg d = Some (ok, d')"
  shows "extends d d' [Wr R_command (ucast (cmd_word cmd 0)), Wr R_cmd_timeout 0xFFFFF,
    Wr R_argument (ucast arg), Wr R_cmd_int_status 0]"
proof -
  obtain ok1 d1 where "sdc_cmd_finish (issue (cmd_word cmd 0) arg d) = Some (ok1, d1)" "d' = d1"
    using assms by (auto simp: send_cmd_def send_data_cmd_def split: Option.bind_splits if_splits)
  with cmd_finish_extends [OF this(1)] show ?thesis by (simp add: extends_def issue_def)
qed

lemma send_data_extends:
  assumes "send_data_cmd cmd arg buf blocks d = Some (True, d')" and "blocks \<noteq> 0"
  shows "extends d d' (data_trace buf blocks (ucast (cmd_word cmd blocks)) arg)"
proof -
  obtain d1 where "sdc_cmd_finish (issue (cmd_word cmd blocks) arg (setup_data buf blocks d)) = Some (True, d1)"
      "sdc_data_finish d1 = Some (True, d')"
    using assms by (auto simp: send_data_cmd_def split: Option.bind_splits if_splits)
  with cmd_finish_extends [OF this(1)] data_finish_extends [OF this(2)] show ?thesis
    by (simp add: extends_def issue_def setup_data_def data_trace_def)
qed

section \<open>Transfers\<close>

lemma upt_shift: "map f [0..<m] @ map (\<lambda>k. f (m + k)) [0..<n] = map f [0..<m + n]"
  by (induction n) simp_all

text \<open>The commands of a direction, and what their words tell the controller and the card.\<close>

definition data_cmd :: "bool \<Rightarrow> u32 \<Rightarrow> u32" where
  "data_cmd to_card n = (if to_card then if n = 1 then 24 else 25 else if n = 1 then 17 else 18)"

lemma data_cmd_word:
  assumes "n \<noteq> 0" "w = ucast (cmd_word (data_cmd to_card n) n)"
  shows "opcode w = ucast (data_cmd to_card n)" "bit w 5" "bit w 6 = to_card"
  using assms
  by (auto simp: data_cmd_def cmd_word_def resp_flags_def data_flags_def opcode_def push_bit_eq_mult)

lemma stop_word: "opcode (ucast (cmd_word 12 0)) = 12" "\<not> bit (ucast (cmd_word 12 0) :: u64) 5"
  by (simp_all add: cmd_word_def resp_flags_def opcode_def push_bit_eq_mult)

lemma block_count_word:
  fixes n :: u32
  assumes "n \<noteq> 0"
  shows "unat (ucast (n - 1) :: u64) + 1 = unat n" "(ucast (n - 1) :: u64) = 0 \<longleftrightarrow> n = 1"
proof -
  have u: "unat (ucast (n - 1) :: u64) = unat n - 1" using assms by (simp add: unat_ucast_up unat_minus_one)
  have n: "0 < unat n" using assms by (simp add: unat_gt_0)
  show "unat (ucast (n - 1) :: u64) + 1 = unat n" using u n by simp
  have "(ucast (n - 1) :: u64) = 0 \<longleftrightarrow> unat n = 1" using u n by (auto simp: word_unat_eq_iff)
  then show "(ucast (n - 1) :: u64) = 0 \<longleftrightarrow> n = 1" by (simp add: word_unat_eq_iff)
qed

text \<open>One data command moves its blocks in order.\<close>

lemma data_events:
  assumes "n \<noteq> 0" "\<not> x_open x"
  shows "\<exists>x'. x_run step (data_trace buf n (ucast (cmd_word (data_cmd to_card n) n)) arg) x =
      (map (\<lambda>k. (if to_card then To_card else From_card) (arg + step * of_nat k) (buf + 512 * of_nat k)) [0..<unat n], x') \<and>
    (x_open x' \<longleftrightarrow> n \<noteq> 1)"
proof -
  define w :: u64 where "w = ucast (cmd_word (data_cmd to_card n) n)"
  note w = data_cmd_word [OF assms(1) w_def]
  let ?x = "x\<lparr>x_dma := buf, x_size := 511, x_count := ucast (n - 1), x_command := w\<rparr>"
  have "agreed ?x"
    using w block_count_word(2) [OF assms(1)] by (auto simp: agreed_def data_cmd_def)
  moreover have "opcode w \<in> {18, 25} \<longleftrightarrow> n \<noteq> 1" unfolding w(1) by (auto simp: data_cmd_def)
  moreover have "ucast (ucast arg :: u64) = arg" by (rule ucast_down_up)
  ultimately show ?thesis
    using assms(2) w(2,3) block_count_word(1) [OF assms(1)]
    unfolding w_def [symmetric] by (simp add: data_trace_def x_write_def started_def)
qed

lemma stop_events:
  "\<exists>x'. x_run step [Wr R_command (ucast (cmd_word 12 0)), Wr R_cmd_timeout t, Wr R_argument y, Wr R_cmd_int_status 0] x =
     ([], x') \<and> \<not> x_open x'"
  by (simp add: x_write_def started_def stop_word)

text \<open>One turn of the loop.\<close>

lemma chunk_events:
  assumes "send_data_cmd (data_cmd to_card bcnt) arg buff bcnt d = Some (True, d1)" and "bcnt \<noteq> 0"
    and "(if bcnt > 1 then send_cmd 12 0 d1 else Some (True, d1)) = Some (True, d2)"
  obtains es where "extends d d2 es"
    "\<And>s x. \<not> x_open x \<Longrightarrow> \<exists>x'. x_run s es x =
       (map (\<lambda>k. (if to_card then To_card else From_card) (arg + s * of_nat k) (buff + 512 * of_nat k)) [0..<unat bcnt], x') \<and>
       \<not> x_open x'"
proof -
  note e1 = send_data_extends [OF assms(1,2)]
  note o = data_events [OF assms(2), where buf = buff and arg = arg and to_card = to_card]
  show thesis
  proof (cases "bcnt > 1")
    case True
    with assms(3) have "send_cmd 12 0 d1 = Some (True, d2)" by simp
    note e2 = send_cmd_extends [OF this]
    show thesis
    proof (rule that [OF extends_trans [OF e1 e2]], goal_cases)
      case (1 s x)
      from o [OF this, of s] obtain x1 where "x_run s (data_trace buff bcnt (ucast (cmd_word (data_cmd to_card bcnt) bcnt)) arg) x =
        (map (\<lambda>k. (if to_card then To_card else From_card) (arg + s * of_nat k) (buff + 512 * of_nat k)) [0..<unat bcnt], x1)" by blast
      moreover obtain x2 where "x_run s [Wr R_command (ucast (cmd_word 12 0)), Wr R_cmd_timeout 0xFFFFF,
          Wr R_argument (ucast (0 :: u32)), Wr R_cmd_int_status 0] x1 = ([], x2)" "\<not> x_open x2" using stop_events by blast
      ultimately show ?case by (simp only: x_run_append prod.case append_Nil2) blast
    qed
  next
    case False
    then have "bcnt = 1" using assms(2) by (simp add: word_less_nat_alt word_unat_eq_iff)
    moreover have "d2 = d1" using assms(3) False by simp
    ultimately show thesis using e1 o by (intro that [of "data_trace buff bcnt (ucast (cmd_word (data_cmd to_card bcnt) bcnt)) arg"]) auto
  qed
qed

lemma chunk_arith:
  fixes bcnt count :: u32 and sector buff :: u64 and blk :: bool and mv :: "u32 \<Rightarrow> u64 \<Rightarrow> 'm"
  assumes "bcnt \<le> count" and "unat bcnt \<le> 4096"
  defines "sector' \<equiv> sector + (if blk then ucast bcnt else ucast (bcnt * 512))"
    and "step \<equiv> (if blk then 1 else 512) :: u32"
  shows "map (\<lambda>k. mv (ucast sector + step * of_nat k) (buff + 512 * of_nat k)) [0..<unat bcnt] @
    map (\<lambda>k. mv (ucast sector' + step * of_nat k) (buff + ucast (bcnt * 512) + 512 * of_nat k))
      [0..<unat (count - bcnt)] =
    map (\<lambda>k. mv (ucast sector + step * of_nat k) (buff + 512 * of_nat k)) [0..<unat count]"
proof -
  have "unat (bcnt * 512) = unat bcnt * 512"
    using assms(2) by (simp add: unat_word_ariths)
  then have "ucast (bcnt * 512) = (512 * of_nat (unat bcnt) :: u64)"
    by (simp only: ucast_up_of_nat of_nat_mult of_nat_numeral mult.commute)
  moreover have "ucast sector' = ucast sector + step * of_nat (unat bcnt)"
    unfolding sector'_def step_def ucast_down_add by (cases blk) (simp_all add: mult.commute)
  moreover have "unat count = unat bcnt + unat (count - bcnt)"
    using assms(1) by (simp add: unat_diff_le word_le_nat_alt)
  moreover define f where "f = (\<lambda>k. mv (ucast sector + step * of_nat k) (buff + 512 * of_nat k))"
  ultimately have "mv (ucast sector' + step * of_nat k) (buff + ucast (bcnt * 512) + 512 * of_nat k) =
      f (unat bcnt + k)" for k
    by (simp add: distrib_left add.assoc)
  then show ?thesis
    using upt_shift [of f "unat bcnt" "unat (count - bcnt)"]
      \<open>unat count = unat bcnt + unat (count - bcnt)\<close> by (simp only: f_def)
qed

lemma chunk_size:
  assumes "count \<noteq> 0" and "bcnt = (if count > MAX_BLOCK_CNT then MAX_BLOCK_CNT else count)"
  shows "bcnt \<noteq> 0" "bcnt \<le> count" "unat bcnt \<le> 4096"
  using assms by (auto simp: MAX_BLOCK_CNT_def word_le_nat_alt word_less_nat_alt not_less)

text \<open>A successful call of the loop: its first chunk and the call for the rest.\<close>

lemma xfer_loop_split:
  assumes "xfer_loop one many buff sector count d = Some (RES_OK, d')" and "count \<noteq> 0"
    and "bcnt = (if count > MAX_BLOCK_CNT then MAX_BLOCK_CNT else count)"
  obtains d1 d2 where
    "send_data_cmd (if bcnt = 1 then one else many) (ucast sector) buff bcnt d = Some (True, d1)"
    "(if bcnt > 1 then send_cmd 12 0 d1 else Some (True, d1)) = Some (True, d2)"
    "xfer_loop one many (buff + ucast (bcnt * 512))
       (sector + (if sd_card_type d2 AND CT_BLOCK \<noteq> 0 then ucast bcnt else ucast (bcnt * 512)))
       (count - bcnt) d2 = Some (RES_OK, d')"
proof (cases "send_data_cmd (if bcnt = 1 then one else many) (ucast sector) buff bcnt d")
  case None
  with assms(1) show thesis
    unfolding xfer_loop.simps [of one many buff sector count d] assms(3) [symmetric] Let_def
    using assms(2) by simp
next
  case (Some r)
  obtain ok d1 where r: "r = (ok, d1)" by (cases r)
  have ok: "ok" and rest: "do { (ok, d) \<leftarrow> (if bcnt > 1 then send_cmd 12 0 d1 else Some (True, d1));
      if \<not> ok then Some (RES_ERROR, d)
      else xfer_loop one many (buff + ucast (bcnt * 512))
        (sector + (if sd_card_type d AND CT_BLOCK \<noteq> 0 then ucast bcnt else ucast (bcnt * 512)))
        (count - bcnt) d } = Some (RES_OK, d')"
    using assms(1) assms(2) Some r
    unfolding xfer_loop.simps [of one many buff sector count d] assms(3) [symmetric] Let_def
    by (simp_all del: xfer_loop.simps split: if_splits)
  show thesis
  proof (cases "if bcnt > 1 then send_cmd 12 0 d1 else Some (True, d1)")
    case None
    with rest show thesis by simp
  next
    case (Some q)
    obtain ok2 d2 where "q = (ok2, d2)" by (cases q)
    with Some rest ok r \<open>send_data_cmd _ _ _ _ _ = Some r\<close> show thesis
      by (intro that [of d1 d2]) (simp_all del: xfer_loop.simps split: if_splits)
  qed
qed

declare xfer_loop.simps [simp del]

lemma xfer_loop_blocks:
  assumes "xfer_loop one many buff sector count d = Some (RES_OK, d')"
    and "one = data_cmd to_card 1" "many = data_cmd to_card 2"
  shows "\<exists>es. extends d d' es \<and> (\<forall>x. \<not> x_open x \<longrightarrow> (\<exists>x'. x_run (card_step d) es x =
      (map (\<lambda>k. (if to_card then To_card else From_card) (ucast sector + card_step d * of_nat k) (buff + 512 * of_nat k)) [0..<unat count], x') \<and>
      \<not> x_open x'))"
  using assms(1)
proof (induction "unat count" arbitrary: buff sector count d rule: less_induct)
  case less
  let ?mv = "if to_card then To_card else From_card"
  show ?case
  proof (cases "count = 0")
    case True
    with less(2) have "d' = d" by (simp add: xfer_loop.simps)
    with True show ?thesis by (intro exI [of _ "[]"]) (simp add: extends_refl)
  next
    case False
    define bcnt where "bcnt = (if count > MAX_BLOCK_CNT then MAX_BLOCK_CNT else count)"
    note b = chunk_size [OF False bcnt_def]
    let ?blk = "sd_card_type d AND CT_BLOCK \<noteq> 0"
    let ?sector = "sector + (if ?blk then ucast bcnt else ucast (bcnt * 512))"
    have cmd: "(if bcnt = 1 then one else many) = data_cmd to_card bcnt" using assms(2,3) by (simp add: data_cmd_def)
    obtain d1 d2 where s:
        "send_data_cmd (data_cmd to_card bcnt) (ucast sector) buff bcnt d = Some (True, d1)"
        "(if bcnt > 1 then send_cmd 12 0 d1 else Some (True, d1)) = Some (True, d2)"
        "xfer_loop one many (buff + ucast (bcnt * 512))
           (sector + (if sd_card_type d2 AND CT_BLOCK \<noteq> 0 then ucast bcnt else ucast (bcnt * 512)))
           (count - bcnt) d2 = Some (RES_OK, d')"
      by (rule xfer_loop_split [OF less(2) False bcnt_def]) (simp only: cmd)
    obtain es where e: "extends d d2 es"
      "\<And>s x. \<not> x_open x \<Longrightarrow> \<exists>x'. x_run s es x =
         (map (\<lambda>k. ?mv (ucast sector + s * of_nat k) (buff + 512 * of_nat k)) [0..<unat bcnt], x') \<and> \<not> x_open x'"
      using chunk_events [OF s(1) b(1) s(2)] by blast
    have ct: "sd_card_type d2 = sd_card_type d" "card_step d2 = card_step d"
      using e(1) by (simp_all add: extends_def card_step_def)
    have "unat (count - bcnt) < unat count" using b(1,2) by (rule word_sub_decreases)
    from less(1) [OF this s(3)] obtain es' where e': "extends d2 d' es'"
      "\<And>x. \<not> x_open x \<Longrightarrow> \<exists>x'. x_run (card_step d) es' x = (map (\<lambda>k. ?mv (ucast ?sector + card_step d * of_nat k)
         (buff + ucast (bcnt * 512) + 512 * of_nat k)) [0..<unat (count - bcnt)], x') \<and> \<not> x_open x'"
      unfolding ct by blast
    have "\<exists>x'. x_run (card_step d) (es @ es') x =
        (map (\<lambda>k. ?mv (ucast sector + card_step d * of_nat k) (buff + 512 * of_nat k)) [0..<unat count], x') \<and> \<not> x_open x'"
      if x: "\<not> x_open x" for x
    proof -
      obtain x1 where 1: "x_run (card_step d) es x =
          (map (\<lambda>k. ?mv (ucast sector + card_step d * of_nat k) (buff + 512 * of_nat k)) [0..<unat bcnt], x1)" "\<not> x_open x1"
        using e(2) [OF x] by blast
      from e'(2) [OF 1(2)] show ?thesis
        unfolding x_run_append 1(1) using chunk_arith [OF b(2,3), of ?mv sector ?blk buff, folded card_step_def] by auto
    qed
    then show ?thesis using extends_trans [OF e(1) e'(1)] by blast
  qed
qed

lemma requested_blocks:
  "requested to_card buff sector count d = map (\<lambda>k. (if to_card then To_card else From_card)
     (ucast (start_sector d sector) + card_step d * of_nat k) (buff + 512 * of_nat k)) [0..<count]"
proof -
  have "card_address d (sector + of_nat k) = ucast (start_sector d sector) + card_step d * of_nat k" for k
  proof -
    have n: "ucast (of_nat n :: u64) = (of_nat n :: u32)" for n
      by (rule bit_word_eqI) (simp add: bit_ucast_iff bit_of_nat_iff)
    have "ucast (of_nat k * 512 :: u64) = (512 * of_nat k :: u32)" "ucast (of_nat k :: u64) = (of_nat k :: u32)"
      using n [of "512 * k"] n [of k] by (simp_all add: mult.commute)
    then show ?thesis
      by (simp add: card_address_def start_sector_def card_step_def ucast_down_add distrib_right)
  qed
  then show ?thesis by (simp add: requested_def)
qed

section \<open>Completion\<close>

lemma const_Cons:
  "Suc n \<le> length xs \<Longrightarrow> \<forall>v\<in>set xs. v = a \<Longrightarrow>
     \<exists>ys. xs = a # ys \<and> (\<forall>v\<in>set ys. v = a) \<and> n \<le> length ys"
  by (cases xs) auto

lemma length_Cons: "Suc n \<le> length xs \<Longrightarrow> \<exists>x ys. xs = x # ys \<and> n \<le> length ys"
  by (cases xs) auto

lemma healthy_reads:
  assumes "healthy (Suc n) d"
  obtains c t r x1 x2 x3 x4 s1 s2 s3 s4 where
    "dev_reads d R_cmd_int_status = 1 # c" "dev_reads d R_dat_int_status = 1 # t"
    "dev_reads d R_software_reset = 0 # 0 # r" "dev_reads d R_response1 = x1 # s1"
    "dev_reads d R_response2 = x2 # s2" "dev_reads d R_response3 = x3 # s3"
    "dev_reads d R_response4 = x4 # s4"
    "\<forall>v\<in>set c. v = 1" "\<forall>v\<in>set t. v = 1" "\<forall>v\<in>set r. v = 0" "n \<le> length c" "n \<le> length t"
    "2 * n \<le> length r" "n \<le> length s1" "n \<le> length s2" "n \<le> length s3" "n \<le> length s4"
proof -
  note h = assms [unfolded healthy_def]
  from h const_Cons [of n "dev_reads d R_cmd_int_status" 1] obtain c where
    c: "dev_reads d R_cmd_int_status = 1 # c" "\<forall>v\<in>set c. v = 1" "n \<le> length c" by blast
  from h const_Cons [of n "dev_reads d R_dat_int_status" 1] obtain t where
    t: "dev_reads d R_dat_int_status = 1 # t" "\<forall>v\<in>set t. v = 1" "n \<le> length t" by blast
  have "Suc (Suc (2 * n)) \<le> length (dev_reads d R_software_reset)" using h by simp
  with h const_Cons [of "Suc (2 * n)" "dev_reads d R_software_reset" 0] obtain q where
    q: "dev_reads d R_software_reset = 0 # q" "\<forall>v\<in>set q. v = 0" "Suc (2 * n) \<le> length q" by blast
  from const_Cons [OF q(3,2)] obtain r where
    r: "q = 0 # r" "\<forall>v\<in>set r. v = 0" "2 * n \<le> length r" by blast
  have "\<exists>x ys. dev_reads d reg = x # ys \<and> n \<le> length ys"
    if "reg \<in> {R_response1, R_response2, R_response3, R_response4}" for reg
    using h that by (intro length_Cons) blast
  then obtain x s where s: "\<And>reg. reg \<in> {R_response1, R_response2, R_response3, R_response4} \<Longrightarrow>
      dev_reads d reg = x reg # s reg \<and> n \<le> length (s reg)" by metis
  show ?thesis
    using c t q(1) [unfolded r(1)] r(2,3) s [of R_response1] s [of R_response2] s [of R_response3] s [of R_response4]
    by (intro that [of c t r "x R_response1" "s R_response1" "x R_response2" "s R_response2"
          "x R_response3" "s R_response3" "x R_response4" "s R_response4"]) simp_all
qed

lemma cmd_finish_healthy:
  assumes "healthy (Suc n) d"
  obtains d' where "sdc_cmd_finish d = Some (True, d')" "healthy n d'"
    "\<exists>t. dev_reads d' R_dat_int_status = 1 # t \<and> n \<le> length t \<and> (\<forall>v\<in>set t. v = 1)"
    "\<exists>r. dev_reads d' R_software_reset = 0 # r \<and> 2 * n \<le> length r \<and> (\<forall>v\<in>set r. v = 0)"
proof -
  obtain c t r x1 x2 x3 x4 s1 s2 s3 s4 where h:
    "dev_reads d R_cmd_int_status = 1 # c" "dev_reads d R_dat_int_status = 1 # t"
    "dev_reads d R_software_reset = 0 # 0 # r" "dev_reads d R_response1 = x1 # s1"
    "dev_reads d R_response2 = x2 # s2" "dev_reads d R_response3 = x3 # s3"
    "dev_reads d R_response4 = x4 # s4"
    "\<forall>v\<in>set c. v = 1" "\<forall>v\<in>set t. v = 1" "\<forall>v\<in>set r. v = 0" "n \<le> length c" "n \<le> length t"
    "2 * n \<le> length r" "n \<le> length s1" "n \<le> length s2" "n \<le> length s3" "n \<le> length s4"
    by (rule healthy_reads [OF assms])
  define d' where "d' = (wr R_cmd_int_status 0 d)\<lparr>dev_reads := (dev_reads d)(R_cmd_int_status := c,
    R_software_reset := 0 # r, R_response1 := s1, R_response2 := s2, R_response3 := s3, R_response4 := s4),
    sd_response := [x1, x2, x3, x4]\<rparr>"
  have "sdc_cmd_finish d = Some (True, d')"
    using h by (simp add: sdc_cmd_finish_def poll_reg_def read_response_def rd_def
        SDC_CMD_INT_STATUS_CC_def d'_def wr_def)
  moreover have "healthy n d'" using h by (simp add: healthy_def d'_def)
  ultimately show thesis using that [of d'] h by (simp add: d'_def)
qed

lemma send_healthy:
  assumes "healthy (Suc n) d" and "blocks \<noteq> 0 \<longrightarrow> buf AND 3 = 0"
  obtains d' where "send_data_cmd cmd arg buf blocks d = Some (True, d')" "healthy n d'"
proof -
  let ?d = "issue (cmd_word cmd blocks) arg (if blocks \<noteq> 0 then setup_data buf blocks d else d)"
  have "healthy (Suc n) ?d" using assms(1) by (simp add: healthy_def issue_def setup_data_def)
  then obtain d1 t r where d1: "sdc_cmd_finish ?d = Some (True, d1)" "healthy n d1"
    "dev_reads d1 R_dat_int_status = 1 # t" "n \<le> length t" "\<forall>v\<in>set t. v = 1"
    "dev_reads d1 R_software_reset = 0 # r" "2 * n \<le> length r" "\<forall>v\<in>set r. v = 0"
    by (rule cmd_finish_healthy) blast
  show thesis
  proof (cases "blocks = 0")
    case True
    with d1(1,2) show thesis by (intro that [of d1]) (simp_all add: send_data_cmd_def)
  next
    case False
    define d2 where "d2 = (wr R_dat_int_status 0 d1)\<lparr>dev_reads := (dev_reads d1)(R_dat_int_status := t,
      R_software_reset := r)\<rparr>"
    have "sdc_data_finish d1 = Some (True, d2)"
      using d1 by (simp add: sdc_data_finish_def poll_reg_def SDC_DAT_INT_STATUS_TRS_def d2_def wr_def)
    moreover have "healthy n d2" using d1 by (simp add: healthy_def d2_def)
    ultimately show thesis using that [of d2] False assms(2) d1(1) by (simp add: send_data_cmd_def)
  qed
qed

lemma healthy_mono: "healthy n d \<Longrightarrow> m \<le> n \<Longrightarrow> healthy m d"
  by (auto simp: healthy_def)

lemma aligned_step:
  fixes buff :: u64
  assumes "buff AND 3 = 0"
  shows "(buff + ucast (bcnt * 512 :: u32)) AND 3 = 0"
proof -
  have m: "x AND 3 = take_bit 2 x" for x :: u64
    by (simp add: take_bit_eq_mask mask_eq_exp_minus_1)
  have "bcnt * 512 = push_bit 9 bcnt" by (simp add: push_bit_eq_mult mult.commute)
  then have "take_bit 2 (ucast (bcnt * 512) :: u64) = 0"
    by (intro bit_word_eqI) (auto simp: bit_simps)
  then show ?thesis using assms unfolding m take_bit_eq_0_iff by (rule dvd_add [rotated])
qed

lemma xfer_loop_healthy:
  assumes "healthy (2 * unat count) d" and "buff AND 3 = 0"
  shows "\<exists>d'. xfer_loop one many buff sector count d = Some (RES_OK, d')"
  using assms
proof (induction "unat count" arbitrary: buff sector count d rule: less_induct)
  case less
  show ?case
  proof (cases "count = 0")
    case False
    define bcnt where "bcnt = (if count > MAX_BLOCK_CNT then MAX_BLOCK_CNT else count)"
    note b = chunk_size [OF False bcnt_def]
    have dec: "unat (count - bcnt) < unat count" using b(1,2) by (rule word_sub_decreases)
    then have "healthy (Suc (Suc (2 * unat (count - bcnt)))) d"
      using less(2) by (rule_tac healthy_mono) auto
    then obtain d1 where d1: "send_data_cmd (if bcnt = 1 then one else many) (ucast sector) buff bcnt d = Some (True, d1)"
        "healthy (Suc (2 * unat (count - bcnt))) d1"
      using send_healthy less(3) by metis
    then obtain d2 where d2: "(if bcnt > 1 then send_cmd 12 0 d1 else Some (True, d1)) = Some (True, d2)"
        "healthy (2 * unat (count - bcnt)) d2"
      using send_healthy [of "2 * unat (count - bcnt)" d1 0 0 12 0] healthy_mono [OF d1(2)]
      by (cases "bcnt > 1") (auto simp: send_cmd_def)
    from less(1) [OF dec d2(2) aligned_step [OF less(3)]] d1(1) d2(1) False show ?thesis
      by (subst xfer_loop.simps) (simp add: Let_def bcnt_def [symmetric])
  qed (simp add: xfer_loop.simps)
qed

section \<open>Identification\<close>

lemma send_cmd_status: "send_cmd cmd arg d = Some (ok, d') \<Longrightarrow> sd_drv_status d' = sd_drv_status d"
  by (drule send_cmd_extends) (simp add: extends_def)

lemma send_step:
  assumes "try_cmd c a k d = Some d'"
    and "sd_drv_status d = STA_NOINIT" and "sd_drv_status d' = 0"
  obtains d1 where "send_cmd c a d = Some (True, d1)" "k d1 = Some d'" "sd_drv_status d1 = STA_NOINIT"
    "writes_to R_argument (dev_trace d1) = writes_to R_argument (dev_trace d) @ [ucast a]"
    "writes_to R_command (dev_trace d1) = writes_to R_command (dev_trace d) @ [ucast (cmd_word c 0)]"
proof -
  obtain ok d1 where s: "send_cmd c a d = Some (ok, d1)" "(if \<not> ok then Some d1 else k d1) = Some d'"
    using assms(1) by (auto simp: try_cmd_def split: Option.bind_splits)
  have st: "sd_drv_status d1 = STA_NOINIT" using send_cmd_status [OF s(1)] assms(2) by simp
  then have "ok" using s(2) assms(3) by (cases ok) (auto simp: STA_NOINIT_def)
  with s st send_cmd_extends [OF s(1)] that show thesis by (simp add: extends_def)
qed

lemma identify_ready:
  assumes "identify d = Some d'" and "sd_drv_status d = STA_NOINIT" and "sd_drv_status d' = 0"
  obtains rca where
    "writes_to R_argument (dev_trace d') = writes_to R_argument (dev_trace d) @
       map ucast [0, 0x12340000, push_bit 16 rca, push_bit 16 rca, 0, 512 :: u32]"
    "writes_to R_command (dev_trace d') = writes_to R_command (dev_trace d) @
       map (\<lambda>c. ucast (cmd_word c 0)) [2, 3, 7, 55, 0x80 + 6, 16]"
proof -
  let ?tr = "\<lambda>d. (writes_to R_argument (dev_trace d), writes_to R_command (dev_trace d))"
  obtain d1 where d1: "sd_drv_status d1 = STA_NOINIT"
    "try_cmd 3 (push_bit 16 0x1234) (\<lambda>d.
      let rca = drop_bit 16 (sd_response d ! 0)
      in try_cmd 7 (push_bit 16 rca) (\<lambda>d. try_cmd 55 (push_bit 16 rca) (try_cmd (0x80 + 6) 0 (
        try_cmd 16 512 (\<lambda>d. Some (d\<lparr>sd_drv_status := sd_drv_status d AND NOT STA_NOINIT\<rparr>))))
        (wr R_control 0 (usleep 10000 (wr R_clock_divider 3 d)))) d) d1 = Some d'"
    "?tr d1 = (fst (?tr d) @ [0], snd (?tr d) @ [ucast (cmd_word 2 0)])"
    using send_step [OF assms(1) [unfolded identify_def] assms(2,3)] by auto
  obtain d2 where d2: "sd_drv_status d2 = STA_NOINIT"
    "try_cmd 7 (push_bit 16 (drop_bit 16 (sd_response d2 ! 0))) (\<lambda>d.
       try_cmd 55 (push_bit 16 (drop_bit 16 (sd_response d2 ! 0))) (try_cmd (0x80 + 6) 0 (
        try_cmd 16 512 (\<lambda>d. Some (d\<lparr>sd_drv_status := sd_drv_status d AND NOT STA_NOINIT\<rparr>))))
        (wr R_control 0 (usleep 10000 (wr R_clock_divider 3 d)))) d2 = Some d'"
    "?tr d2 = (fst (?tr d1) @ [0x12340000], snd (?tr d1) @ [ucast (cmd_word 3 0)])"
    using send_step [OF d1(2,1) assms(3)] by (auto simp: Let_def)
  define rca where "rca = drop_bit 16 (sd_response d2 ! 0)"
  obtain d3 where d3: "sd_drv_status d3 = STA_NOINIT"
    "try_cmd 55 (push_bit 16 rca) (try_cmd (0x80 + 6) 0 (
        try_cmd 16 512 (\<lambda>d. Some (d\<lparr>sd_drv_status := sd_drv_status d AND NOT STA_NOINIT\<rparr>))))
        (wr R_control 0 (usleep 10000 (wr R_clock_divider 3 d3))) = Some d'"
    "?tr d3 = (fst (?tr d2) @ [ucast (push_bit 16 rca)], snd (?tr d2) @ [ucast (cmd_word 7 0)])"
    using send_step [OF d2(2,1) assms(3)] by (auto simp: rca_def)
  obtain d4 where d4: "sd_drv_status d4 = STA_NOINIT"
    "try_cmd (0x80 + 6) 0 (
        try_cmd 16 512 (\<lambda>d. Some (d\<lparr>sd_drv_status := sd_drv_status d AND NOT STA_NOINIT\<rparr>))) d4 = Some d'"
    "?tr d4 = (fst (?tr d3) @ [ucast (push_bit 16 rca)], snd (?tr d3) @ [ucast (cmd_word 55 0)])"
    using send_step [OF d3(2) _ assms(3)] d3(1) by auto
  obtain d5 where d5: "sd_drv_status d5 = STA_NOINIT"
    "try_cmd 16 512 (\<lambda>d. Some (d\<lparr>sd_drv_status := sd_drv_status d AND NOT STA_NOINIT\<rparr>)) d5 = Some d'"
    "?tr d5 = (fst (?tr d4) @ [0], snd (?tr d4) @ [ucast (cmd_word (0x80 + 6) 0)])"
    using send_step [OF d4(2,1) assms(3)] by auto
  obtain d6 where d6: "Some (d6\<lparr>sd_drv_status := sd_drv_status d6 AND NOT STA_NOINIT\<rparr>) = Some d'"
      "writes_to R_argument (dev_trace d6) = writes_to R_argument (dev_trace d5) @ [ucast (512 :: u32)]"
      "writes_to R_command (dev_trace d6) = writes_to R_command (dev_trace d5) @ [ucast (cmd_word 16 0)]"
    by (rule send_step [OF d5(2,1) assms(3)])
  from d6(1) have "dev_trace d' = dev_trace d6" by auto
  with that [of rca] d1(3) d2(3) d3(3) d4(3) d5(3) d6(2,3) show thesis by simp
qed

lemma wait_ready_status: "wait_ready d = Some (ok, d') \<Longrightarrow> sd_drv_status d' = sd_drv_status d"
proof -
  assume "wait_ready d = Some (ok, d')"
  then have "sd_drv_status (snd (ok, d')) = sd_drv_status d"
  proof (rule wait_ready.raw_induct [where P = "\<lambda>d r. sd_drv_status (snd r) = sd_drv_status d", rotated], goal_cases)
    case (1 loop d r)
    obtain ok1 d1 where s1: "send_cmd 55 0 d = Some (ok1, d1)" using 1(2) by (auto split: Option.bind_splits)
    show ?case
    proof (cases ok1)
      case False
      then show ?thesis using 1(2) s1 send_cmd_status [OF s1] by auto
    next
      case True
      then obtain ok2 d2 where s2: "send_cmd (0x80 + 41) 0x40300000 d1 = Some (ok2, d2)"
        using 1(2) s1 by (auto split: Option.bind_splits)
      have st: "sd_drv_status d2 = sd_drv_status d" using send_cmd_status [OF s1] send_cmd_status [OF s2] by simp
      show ?thesis
        using 1(2) s1 s2 True st 1(1) [of d2 r] by (auto split: if_splits)
    qed
  qed
  then show ?thesis by simp
qed

lemma reset_status: "reset_controller d = Some d' \<Longrightarrow> sd_drv_status d' = sd_drv_status d"
  by (auto simp: reset_controller_def rd_def Let_def poll_reg_keeps split: Option.bind_splits if_splits)

lemma identify_status:
  assumes "identify d = Some d'" and "sd_drv_status d = STA_NOINIT"
  shows "sd_drv_status d' = STA_NOINIT \<or> sd_drv_status d' = 0"
  using assms
  by (auto simp: identify_def try_cmd_def Let_def STA_NOINIT_def send_cmd_status
      split: Option.bind_splits if_splits)

lemma initialize_cases:
  assumes "sdc_initialize d = Some (st, d')"
  shows "st = sd_drv_status d' \<and> (sd_drv_status d' = STA_NOINIT \<or>
    (\<exists>d1. identify d1 = Some d' \<and> sd_drv_status d1 = STA_NOINIT))"
proof -
  obtain d1 ok0 d2 ok d3 where s:
    "reset_controller (d\<lparr>sd_card_type := 0, sd_drv_status := STA_NOINIT\<rparr>) = Some d1"
    "send_cmd 0 0 d1 = Some (ok0, d2)" "send_cmd 8 0x1AA (d2\<lparr>sd_card_type := CT_SD1\<rparr>) = Some (ok, d3)"
    using assms by (auto simp: sdc_initialize_def split: Option.bind_splits)
  have st: "sd_drv_status d3 = STA_NOINIT"
    using send_cmd_status [OF s(3)] send_cmd_status [OF s(2)] reset_status [OF s(1)] by simp
  show ?thesis
  proof (cases "ok \<and> (sd_response d3 ! 0) AND 0xFFF \<noteq> 0x1AA")
    case True
    then show ?thesis using assms s st by (auto simp: sdc_initialize_def)
  next
    case False
    then obtain ok2 d4 where w: "wait_ready (if ok then d3\<lparr>sd_card_type := CT_SD2\<rparr> else d3) = Some (ok2, d4)"
      using assms s by (auto simp: sdc_initialize_def split: Option.bind_splits if_splits)
    then have "sd_drv_status d4 = STA_NOINIT" using wait_ready_status [OF w] st by (simp split: if_splits)
    with False w s assms show ?thesis
      by (cases ok2) (auto simp: sdc_initialize_def split: Option.bind_splits if_splits)
  qed
qed

lemma demo_healthy: "healthy 10 demo_sd"
  by (simp add: healthy_def demo_sd_def)

section \<open>Properties\<close>

text \<open>
  C5. Block reads and writes. On an initialised drive whose commands complete, a transfer of
  \<open>count\<close> blocks with a word-aligned buffer returns RES_OK, and the register writes it makes, in
  chunks of at most 4096 blocks, make controller and card move exactly the requested blocks in the
  right direction: for sdc_read the k-th sector on the card (by block number, or by byte address on a
  card without block addressing) goes to the k-th 512 bytes of the buffer, for sdc_write those bytes go
  to that sector, each once and in order. Single blocks and runs of blocks use the commands the card has for them, and
  every run is stopped before the next command.
\<close>

theorem sdc_transfer_blocks:
  assumes "count \<noteq> 0" and "sd_drv_status d AND STA_NOINIT = 0" and "buff AND 3 = 0"
    and "healthy (2 * unat count) d" and "\<not> x_open x"
  shows "(\<exists>d' es x'. sdc_read buff sector count d = Some (RES_OK, d') \<and> dev_trace d' = dev_trace d @ es \<and>
      x_run (card_step d) es x = (requested False buff sector (unat count) d, x') \<and> \<not> x_open x') \<and>
    (\<exists>d' es x'. sdc_write buff sector count d = Some (RES_OK, d') \<and> dev_trace d' = dev_trace d @ es \<and>
      x_run (card_step d) es x = (requested True buff sector (unat count) d, x') \<and> \<not> x_open x')"
proof -
  have run: "\<exists>d' es x'. xfer_loop (data_cmd w 1) (data_cmd w 2) buff (start_sector d sector) count d = Some (RES_OK, d') \<and>
      dev_trace d' = dev_trace d @ es \<and> x_run (card_step d) es x = (requested w buff sector (unat count) d, x') \<and> \<not> x_open x'" for w
  proof -
    obtain d' where l: "xfer_loop (data_cmd w 1) (data_cmd w 2) buff (start_sector d sector) count d = Some (RES_OK, d')"
      using xfer_loop_healthy [OF assms(4,3)] by blast
    from xfer_loop_blocks [OF l refl refl] show ?thesis
      using assms(5) l unfolding requested_blocks extends_def by blast
  qed
  show ?thesis
    using run [of False] run [of True] assms(1,2) by (simp add: sdc_read_def sdc_write_def data_cmd_def)
qed

theorem sdc_transfer_blocks_witness:
  "let x = \<lparr>x_dma = 0, x_size = 0, x_count = 0, x_command = 0, x_open = False\<rparr>
   in (\<exists>d'. sdc_read 0x80001000 5 2 demo_sd = Some (RES_OK, d') \<and>
       fst (x_run 1 (dev_trace d') x) = [From_card 5 0x80001000, From_card 6 0x80001200]) \<and>
     (\<exists>d'. sdc_write 0x80001000 5 1 demo_sd = Some (RES_OK, d') \<and>
       fst (x_run 1 (dev_trace d') x) = [To_card 5 0x80001000])"
proof -
  let ?x = "\<lparr>x_dma = 0, x_size = 0, x_count = 0, x_command = 0, x_open = False\<rparr> :: xfer"
  have h: "healthy (2 * unat (2 :: u32)) demo_sd" "healthy (2 * unat (1 :: u32)) demo_sd"
    using demo_healthy by (rule healthy_mono, simp)+
  have s: "card_step demo_sd = 1" "dev_trace demo_sd = []" "sd_drv_status demo_sd AND STA_NOINIT = 0"
    by (simp_all add: card_step_def demo_sd_def CT_SD2_def CT_BLOCK_def)
  have "requested False 0x80001000 5 (unat (2 :: u32)) demo_sd = [From_card 5 0x80001000, From_card 6 0x80001200]"
    "requested True 0x80001000 5 (unat (1 :: u32)) demo_sd = [To_card 5 0x80001000]"
    by (simp_all add: requested_def card_address_def demo_sd_def CT_SD2_def CT_BLOCK_def upt_rec)
  with sdc_transfer_blocks [where x = ?x and sector = 5 and buff = "0x80001000", OF _ s(3) _ h(1)]
    sdc_transfer_blocks [where x = ?x and sector = 5 and buff = "0x80001000", OF _ s(3) _ h(2)] s
  show ?thesis unfolding Let_def by fastforce
qed

text \<open>
  Outcome of initialisation. sdc_initialize leaves the drive either ready or marked STA_NOINIT,
  and returns that status. It is ready only after the identification sequence CMD2, CMD3, CMD7,
  CMD55, ACMD6, CMD16 has been sent in this order with the card's own address; a drive that is not
  ready refuses transfers without touching the controller.
\<close>

theorem sdc_initialize_outcome:
  assumes "sdc_initialize d = Some (st, d')" and "count \<noteq> 0"
  shows "st = sd_drv_status d' \<and>
    (st = STA_NOINIT \<and> sdc_read buff sector count d' = Some (RES_NOTRDY, d') \<and>
       sdc_write buff sector count d' = Some (RES_NOTRDY, d') \<or>
     st = 0 \<and> (\<exists>pre cpre rca. writes_to R_argument (dev_trace d') = pre @
         map ucast [0, 0x12340000, push_bit 16 rca, push_bit 16 rca, 0, 512 :: u32] \<and>
       writes_to R_command (dev_trace d') = cpre @
         map (\<lambda>c. ucast (cmd_word c 0)) [2, 3, 7, 55, 0x80 + 6, 16]))"
proof (cases "sd_drv_status d' = STA_NOINIT")
  case True
  then show ?thesis
    using initialize_cases [OF assms(1)] assms(2)
    by (simp add: sdc_read_def sdc_write_def STA_NOINIT_def)
next
  case False
  then obtain d1 where d1: "identify d1 = Some d'" "sd_drv_status d1 = STA_NOINIT"
    using initialize_cases [OF assms(1)] by blast
  with False have "sd_drv_status d' = 0" using identify_status by blast
  with identify_ready [OF d1] initialize_cases [OF assms(1)] show ?thesis by metis
qed

theorem sdc_initialize_outcome_witness:
  "\<exists>d' pre. sdc_initialize fresh_card = Some (0, d') \<and>
     (\<exists>rca. writes_to R_argument (dev_trace d') =
       pre @ map ucast [0, 0x12340000, push_bit 16 rca, push_bit 16 rca, 0, 512 :: u32])"
proof -
  have "map_option fst (sdc_initialize fresh_card) = Some 0" by code_simp
  then obtain d' where d: "sdc_initialize fresh_card = Some (0, d')" by auto
  from sdc_initialize_outcome [OF d, of 1] d show ?thesis by (auto simp: STA_NOINIT_def)
qed

text \<open>
  A misaligned buffer is refused before any register is written: the transfer fails with
  ERR_BUF_ALIGNMENT and the controller is untouched.
\<close>

theorem sdc_misaligned_refused:
  assumes "count \<noteq> 0" and "sd_drv_status d AND STA_NOINIT = 0" and "buff AND 3 \<noteq> 0"
    and "f = sdc_read \<or> f = sdc_write"
  shows "f buff sector count d = Some (RES_ERROR, d\<lparr>sd_errno := ERR_BUF_ALIGNMENT\<rparr>)"
proof -
  obtain one many where f: "f buff sector count d = xfer_loop one many buff (start_sector d sector) count d"
    using assms(1,2,4) by (auto simp: sdc_read_def sdc_write_def)
  define bcnt where "bcnt = (if count > MAX_BLOCK_CNT then MAX_BLOCK_CNT else count)"
  have "bcnt \<noteq> 0" by (rule chunk_size(1) [OF assms(1) bcnt_def])
  then show ?thesis
    unfolding f using assms(1,3)
    by (subst xfer_loop.simps) (simp add: Let_def bcnt_def [symmetric] send_data_cmd_def)
qed

theorem sdc_misaligned_refused_witness:
  "sdc_write 0x80001002 5 2 demo_sd = Some (RES_ERROR, demo_sd\<lparr>sd_errno := ERR_BUF_ALIGNMENT\<rparr>)"
  by (rule sdc_misaligned_refused) (simp_all add: demo_sd_def)

end
