(* ===== verification/Soct_Ff.thy ===== *)
theory Soct_Ff
  imports Soctglue Sdc
begin

text \<open>
  The file system glue of \<open>soct_ff/soct_ff.c\<close>: the dispatch of the FatFs disk interface to the
  driver a drive was mounted with, the stdio cookie over a FatFs file, \<open>fopen\<close> on volume paths, and
  the mounting of the SD cards the device tree names (\<open>soct_init_from_dtb_sdc\<close> of \<open>sdc.c\<close>). FatFs
  and the C library are parameters. A NULL pointer that is dereferenced and a driver that never
  returns have no result.
\<close>

section \<open>Disk dispatch\<close>

definition FF_VOLUMES :: nat where "FF_VOLUMES = 8"

definition vol_str :: "string list" where
  "vol_str = [''RAM'', ''NAND'', ''CF'', ''SD'', ''SD2'', ''USB'', ''USB2'', ''USB3'']"

text \<open>\<open>'m\<close> is what the drivers act on; a missing function pointer is \<open>None\<close>.\<close>

record 'm soct_disk_ops =
  dop_initialize :: "u8 \<Rightarrow> 'm \<Rightarrow> (u8 \<times> 'm) option"
  dop_status :: "(u8 \<Rightarrow> 'm \<Rightarrow> u8) option"
  dop_read :: "(u8 \<Rightarrow> u64 \<Rightarrow> u64 \<Rightarrow> u32 \<Rightarrow> 'm \<Rightarrow> (DRESULT \<times> 'm) option) option"
  dop_write :: "(u8 \<Rightarrow> u64 \<Rightarrow> u64 \<Rightarrow> u32 \<Rightarrow> 'm \<Rightarrow> (DRESULT \<times> 'm) option) option"
  dop_ioctl :: "(u8 \<Rightarrow> u8 \<Rightarrow> 'm \<Rightarrow> DRESULT \<times> u64 option) option"

record 'm disks =
  s_disk_ops :: "'m soct_disk_ops option list"
  s_mount_ops :: "'m soct_disk_ops option"
  d_machine :: 'm

definition fresh_disks :: "'m \<Rightarrow> 'm disks" where
  "fresh_disks m = \<lparr>s_disk_ops = replicate FF_VOLUMES None, s_mount_ops = None, d_machine = m\<rparr>"

definition soct_set_mount_ops :: "'m soct_disk_ops option \<Rightarrow> 'm disks \<Rightarrow> 'm disks" where
  "soct_set_mount_ops ops d = d\<lparr>s_mount_ops := ops\<rparr>"

definition disk_initialize :: "u8 \<Rightarrow> 'm disks \<Rightarrow> (u8 \<times> 'm disks) option" where
  "disk_initialize pdrv d =
     (if unat pdrv \<ge> FF_VOLUMES then Some (STA_NOINIT, d)
      else case s_mount_ops d of
        None \<Rightarrow> None
      | Some ops \<Rightarrow> do {
          (st, m) \<leftarrow> dop_initialize ops pdrv (d_machine d);
          Some (st, d\<lparr>s_disk_ops := (s_disk_ops d)[unat pdrv := Some ops], d_machine := m\<rparr>) })"

definition disk_status :: "u8 \<Rightarrow> 'm disks \<Rightarrow> u8" where
  "disk_status pdrv d =
     (if unat pdrv \<ge> FF_VOLUMES then STA_NOINIT
      else case s_disk_ops d ! unat pdrv of
        None \<Rightarrow> STA_NOINIT
      | Some ops \<Rightarrow> (case dop_status ops of None \<Rightarrow> STA_NOINIT | Some f \<Rightarrow> f pdrv (d_machine d)))"

definition disk_read :: "u8 \<Rightarrow> u64 \<Rightarrow> u64 \<Rightarrow> u32 \<Rightarrow> 'm disks \<Rightarrow> (DRESULT \<times> 'm disks) option" where
  "disk_read pdrv buff sector count d =
     (if unat pdrv \<ge> FF_VOLUMES then Some (RES_NOTRDY, d)
      else case s_disk_ops d ! unat pdrv of
        None \<Rightarrow> Some (RES_NOTRDY, d)
      | Some ops \<Rightarrow>
          (case dop_read ops of
             None \<Rightarrow> Some (RES_NOTRDY, d)
           | Some f \<Rightarrow> do { (r, m) \<leftarrow> f pdrv buff sector count (d_machine d); Some (r, d\<lparr>d_machine := m\<rparr>) }))"

definition disk_write :: "u8 \<Rightarrow> u64 \<Rightarrow> u64 \<Rightarrow> u32 \<Rightarrow> 'm disks \<Rightarrow> (DRESULT \<times> 'm disks) option" where
  "disk_write pdrv buff sector count d =
     (if unat pdrv \<ge> FF_VOLUMES then Some (RES_NOTRDY, d)
      else case s_disk_ops d ! unat pdrv of
        None \<Rightarrow> Some (RES_NOTRDY, d)
      | Some ops \<Rightarrow>
          (case dop_write ops of
             None \<Rightarrow> Some (RES_NOTRDY, d)
           | Some f \<Rightarrow> do { (r, m) \<leftarrow> f pdrv buff sector count (d_machine d); Some (r, d\<lparr>d_machine := m\<rparr>) }))"

definition disk_ioctl :: "u8 \<Rightarrow> u8 \<Rightarrow> 'm disks \<Rightarrow> DRESULT \<times> u64 option" where
  "disk_ioctl pdrv cmd d =
     (if unat pdrv \<ge> FF_VOLUMES then (RES_NOTRDY, None)
      else case s_disk_ops d ! unat pdrv of
        None \<Rightarrow> (RES_NOTRDY, None)
      | Some ops \<Rightarrow> (case dop_ioctl ops of None \<Rightarrow> (RES_NOTRDY, None) | Some f \<Rightarrow> f pdrv cmd (d_machine d)))"

section \<open>The SD cards\<close>

text \<open>Per drive the register base \<open>s_regs[pdrv]\<close> and the driver's state with its card.\<close>

record sd_machine =
  sd_regs :: "u8 \<Rightarrow> u64"
  sd_drives :: "u8 \<Rightarrow> sdc_dev"

definition on_drive :: "u8 \<Rightarrow> (sdc_dev \<Rightarrow> ('r \<times> sdc_dev) option) \<Rightarrow> sd_machine \<Rightarrow> ('r \<times> sd_machine) option" where
  "on_drive pdrv f m = do {
     (r, d) \<leftarrow> f (sd_drives m pdrv);
     Some (r, m\<lparr>sd_drives := (sd_drives m)(pdrv := d)\<rparr>) }"

definition s_sdc_ops :: "sd_machine soct_disk_ops" where
  "s_sdc_ops = \<lparr>
     dop_initialize = (\<lambda>pdrv. on_drive pdrv sdc_initialize),
     dop_status = Some (\<lambda>pdrv m. sdc_status (sd_drives m pdrv)),
     dop_read = Some (\<lambda>pdrv buff sector count. on_drive pdrv (sdc_read buff sector count)),
     dop_write = Some (\<lambda>pdrv buff sector count. on_drive pdrv (sdc_write buff sector count)),
     dop_ioctl = Some (\<lambda>pdrv cmd m. sdc_ioctl cmd (sd_drives m pdrv))\<rparr>"

definition SOCT_SDC_NAME_DTS :: string where "SOCT_SDC_NAME_DTS = ''riscv,axi-sd-card-1.0''"
definition sd_vol_names :: "string list" where "sd_vol_names = [''SD'', ''SD2'']"
definition sd_path_names :: "string list" where "sd_path_names = [''/SD'', ''/SD2'']"

fun find_pdrv_loop :: "nat \<Rightarrow> string list \<Rightarrow> string \<Rightarrow> int" where
  "find_pdrv_loop i [] vol_name = - 1"
| "find_pdrv_loop i (v # vs) vol_name = (if v = vol_name then int i else find_pdrv_loop (Suc i) vs vol_name)"

definition find_pdrv :: "string \<Rightarrow> int" where
  "find_pdrv vol_name = find_pdrv_loop 0 vol_str vol_name"

text \<open>
  The first register address of a node: the outer option is a fault (\<open>regs[16]\<close> overrun included),
  \<open>Inl\<close> the message for a node without one.
\<close>

definition sdc_base :: "blob \<Rightarrow> 'h dtb_state \<Rightarrow> nat \<Rightarrow> (string + u64) option" where
  "sdc_base b st n = do {
     reg_prop \<leftarrow> dtb_find_prop b st (Some n) (cstring ''reg'');
     case reg_prop of
       None \<Rightarrow> Some (Inl ''SD card node found in DTB but it has no reg property'')
     | Some p \<Rightarrow> do {
         pr \<leftarrow> prop_at st p;
         addr_cells \<leftarrow> dtb_get_addr_cells_for b st (Some n);
         regs \<leftarrow> dtb_read_prop_1 b (Some pr) addr_cells;
         if length regs > 16 then None
         else if length regs < 1 then Some (Inl ''SD card node found in DTB but failed to read base address from reg property'')
         else Some (Inr (hd regs)) } }"

type_synonym f_mount_t = "nat \<Rightarrow> string \<Rightarrow> sd_machine disks \<Rightarrow> (u32 \<times> sd_machine disks) option"

text \<open>
  One iteration for the node found; the result says whether it mounted. \<open>st\<close> is the parsed tree,
  which the log entries do not change.
\<close>

definition sdc_slot :: "f_mount_t \<Rightarrow> blob \<Rightarrow> glue_host dtb_state \<Rightarrow> nat \<Rightarrow> nat \<Rightarrow> 's glue \<Rightarrow> sd_machine disks \<Rightarrow>
    (bool \<times> 's glue \<times> sd_machine disks) option" where
  "sdc_slot f_mount b st slot n g d =
     (let pdrv = find_pdrv (sd_vol_names ! slot)
      in if pdrv < 0 then Some (False, add_msg (Text ''SD card volume name not found in VolumeStr'') g, d)
         else do {
           base \<leftarrow> sdc_base b st n;
           case base of
             Inl msg \<Rightarrow> Some (False, add_msg (Text msg) g, d)
           | Inr a \<Rightarrow> do {
               let d = d\<lparr>d_machine := (d_machine d)\<lparr>sd_regs := (sd_regs (d_machine d))(of_int pdrv := a)\<rparr>\<rparr>;
               let mount_path = sd_path_names ! slot;
               (res, d) \<leftarrow> f_mount (nat pdrv) mount_path (soct_set_mount_ops (Some s_sdc_ops) d);
               if res \<noteq> 0
               then Some (False, add_msg (With_addr (mount_path @ '': filesystem mount failed with error'') (ucast res)) g, d)
               else Some (True, add_msg (With_addr (mount_path @ '': mounted from DTB node at'') a) g, d) } })"

fun sdc_slots :: "f_mount_t \<Rightarrow> blob \<Rightarrow> glue_host dtb_state \<Rightarrow> nat list \<Rightarrow> nat option \<Rightarrow> bool \<Rightarrow> 's glue \<Rightarrow> sd_machine disks \<Rightarrow>
    (bool \<times> 's glue \<times> sd_machine disks) option" where
  "sdc_slots f_mount b st [] node any_mounted g d = Some (any_mounted, g, d)"
| "sdc_slots f_mount b st (slot # slots) node any_mounted g d = do {
     node \<leftarrow> dtb_find_compatible b st node (cstring SOCT_SDC_NAME_DTS);
     case node of
       None \<Rightarrow> Some (any_mounted, g, d)
     | Some n \<Rightarrow> do {
         (mounted, g, d) \<leftarrow> sdc_slot f_mount b st slot n g d;
         sdc_slots f_mount b st slots (Some n) (any_mounted \<or> mounted) g d } }"

definition soct_init_from_dtb_sdc :: "f_mount_t \<Rightarrow> blob \<Rightarrow> 's glue \<Rightarrow> sd_machine disks \<Rightarrow>
    (bool \<times> 's glue \<times> sd_machine disks) option" where
  "soct_init_from_dtb_sdc f_mount b g d =
     sdc_slots f_mount b (g_dtb g) [0..<length sd_vol_names] None False g d"

definition init_soct_ff :: "f_mount_t \<Rightarrow> blob \<Rightarrow> 's glue \<Rightarrow> sd_machine disks \<Rightarrow>
    ('s glue \<times> sd_machine disks) option" where
  "init_soct_ff f_mount b g d = do { (_, g, d) \<leftarrow> soct_init_from_dtb_sdc f_mount b g d; Some (g, d) }"

section \<open>Files\<close>

definition EIO :: u32 where "EIO = 5"
definition ENOMEM :: u32 where "ENOMEM = 12"
definition EFAULT_32 :: u32 where "EFAULT_32 = 14"
definition EINVAL :: u32 where "EINVAL = 22"
definition FA_READ :: u8 where "FA_READ = 1"
definition FA_WRITE :: u8 where "FA_WRITE = 2"
definition FA_CREATE_ALWAYS :: u8 where "FA_CREATE_ALWAYS = 8"
definition FA_OPEN_APPEND :: u8 where "FA_OPEN_APPEND = 0x30"

text \<open>
  The calls into FatFs and the C library that acquire or release something, with their results.
  \<open>FIL\<close> objects and streams are numbers.
\<close>

datatype fio_event = Malloc "nat option" | Free nat | F_open nat string u8 u32 | F_close nat u32
  | Fopencookie nat string "nat option" | Real_fopen string string "nat option" | Fclose nat

record 'w fio =
  fio_world :: 'w
  fio_errno :: u32
  fio_trace :: "fio_event list"

text \<open>
  FatFs and the C library; a call that fails with an \<open>errno\<close> of its own returns it. \<open>f_read\<close> and
  \<open>f_write\<close> give the result code and the number of bytes moved.
\<close>

record 'w ffs =
  e_malloc :: "'w \<Rightarrow> nat option \<times> 'w"
  e_free :: "nat \<Rightarrow> 'w \<Rightarrow> 'w"
  e_f_open :: "nat \<Rightarrow> string \<Rightarrow> u8 \<Rightarrow> 'w \<Rightarrow> u32 \<times> 'w"
  e_f_close :: "nat \<Rightarrow> 'w \<Rightarrow> u32 \<times> 'w"
  e_f_read :: "nat \<Rightarrow> u64 \<Rightarrow> u32 \<Rightarrow> 'w \<Rightarrow> (u32 \<times> u32) \<times> 'w"
  e_f_write :: "nat \<Rightarrow> u64 \<Rightarrow> u32 \<Rightarrow> 'w \<Rightarrow> (u32 \<times> u32) \<times> 'w"
  e_f_lseek :: "nat \<Rightarrow> u64 \<Rightarrow> 'w \<Rightarrow> u32 \<times> 'w"
  e_f_tell :: "nat \<Rightarrow> 'w \<Rightarrow> u64"
  e_f_size :: "nat \<Rightarrow> 'w \<Rightarrow> u64"
  e_fopencookie :: "nat \<Rightarrow> string \<Rightarrow> 'w \<Rightarrow> (u32 + nat) \<times> 'w"
  e_real_fopen :: "string \<Rightarrow> string \<Rightarrow> 'w \<Rightarrow> (u32 + nat) \<times> 'w"
  e_fclose :: "nat \<Rightarrow> 'w \<Rightarrow> 'w"

definition log_call :: "fio_event \<Rightarrow> 'w \<Rightarrow> 'w fio \<Rightarrow> 'w fio" where
  "log_call e w s = s\<lparr>fio_world := w, fio_trace := fio_trace s @ [e]\<rparr>"

definition set_errno :: "u32 \<Rightarrow> 'w fio \<Rightarrow> 'w fio" where
  "set_errno e s = s\<lparr>fio_errno := e\<rparr>"

definition malloc_fil :: "'w ffs \<Rightarrow> 'w fio \<Rightarrow> nat option \<times> 'w fio" where
  "malloc_fil ffs s = (case e_malloc ffs (fio_world s) of (p, w) \<Rightarrow> (p, log_call (Malloc p) w s))"

definition free_fil :: "'w ffs \<Rightarrow> nat \<Rightarrow> 'w fio \<Rightarrow> 'w fio" where
  "free_fil ffs p s = log_call (Free p) (e_free ffs p (fio_world s)) s"

definition f_open :: "'w ffs \<Rightarrow> nat \<Rightarrow> string \<Rightarrow> u8 \<Rightarrow> 'w fio \<Rightarrow> u32 \<times> 'w fio" where
  "f_open ffs fp path flags s =
     (case e_f_open ffs fp path flags (fio_world s) of (r, w) \<Rightarrow> (r, log_call (F_open fp path flags r) w s))"

definition f_close :: "'w ffs \<Rightarrow> nat \<Rightarrow> 'w fio \<Rightarrow> u32 \<times> 'w fio" where
  "f_close ffs fp s = (case e_f_close ffs fp (fio_world s) of (r, w) \<Rightarrow> (r, log_call (F_close fp r) w s))"

text \<open>The errors of \<open>fopencookie\<close> and of the real \<open>fopen\<close> set \<open>errno\<close>.\<close>

definition stream_result :: "(nat option \<Rightarrow> fio_event) \<Rightarrow> (u32 + nat) \<times> 'w \<Rightarrow> 'w fio \<Rightarrow> nat option \<times> 'w fio" where
  "stream_result ev rw s =
     (case rw of
        (Inl e, w) \<Rightarrow> (None, set_errno e (log_call (ev None) w s))
      | (Inr f, w) \<Rightarrow> (Some f, log_call (ev (Some f)) w s))"

subsection \<open>The stdio cookie\<close>

text \<open>The size is cut to the 32 bits of \<open>UINT\<close>.\<close>

definition ff_cookie_read :: "'w ffs \<Rightarrow> nat \<Rightarrow> u64 \<Rightarrow> u64 \<Rightarrow> 'w fio \<Rightarrow> u64 \<times> 'w fio" where
  "ff_cookie_read ffs fp buf nbytes s =
     (case e_f_read ffs fp buf (ucast nbytes) (fio_world s) of
        ((r, br), w) \<Rightarrow>
          if r \<noteq> 0 then (- 1, set_errno EIO (s\<lparr>fio_world := w\<rparr>)) else (ucast br, s\<lparr>fio_world := w\<rparr>))"

definition ff_cookie_write :: "'w ffs \<Rightarrow> nat \<Rightarrow> u64 \<Rightarrow> u64 \<Rightarrow> 'w fio \<Rightarrow> u64 \<times> 'w fio" where
  "ff_cookie_write ffs fp buf nbytes s =
     (case e_f_write ffs fp buf (ucast nbytes) (fio_world s) of
        ((r, bw), w) \<Rightarrow>
          if r \<noteq> 0 then (- 1, set_errno EIO (s\<lparr>fio_world := w\<rparr>)) else (ucast bw, s\<lparr>fio_world := w\<rparr>))"

text \<open>The result code, \<open>*offset\<close> afterwards and the state; the additions wrap.\<close>

definition ff_cookie_seek :: "'w ffs \<Rightarrow> nat \<Rightarrow> u64 \<Rightarrow> u32 \<Rightarrow> 'w fio \<Rightarrow> u32 \<times> u64 \<times> 'w fio" where
  "ff_cookie_seek ffs fp offset whence s =
     (let new_pos =
            (if whence = 0 then Some offset
             else if whence = 1 then Some (e_f_tell ffs fp (fio_world s) + offset)
             else if whence = 2 then Some (e_f_size ffs fp (fio_world s) + offset)
             else None)
      in case new_pos of
           None \<Rightarrow> (- 1, offset, set_errno EINVAL s)
         | Some pos \<Rightarrow>
             (case e_f_lseek ffs fp pos (fio_world s) of
                (r, w) \<Rightarrow>
                  if r \<noteq> 0 then (- 1, offset, set_errno EIO (s\<lparr>fio_world := w\<rparr>))
                  else (0, e_f_tell ffs fp w, s\<lparr>fio_world := w\<rparr>)))"

definition ff_cookie_close :: "'w ffs \<Rightarrow> nat \<Rightarrow> 'w fio \<Rightarrow> u32 \<times> 'w fio" where
  "ff_cookie_close ffs fp s =
     (case f_close ffs fp s of
        (r, s) \<Rightarrow>
          let s = free_fil ffs fp s
          in if r \<noteq> 0 then (- 1, set_errno EIO s) else (0, s))"

subsection \<open>fopen\<close>

definition parse_ff_mode :: "string \<Rightarrow> u8" where
  "parse_ff_mode mode =
     (let plus = CHR ''+'' \<in> set mode
      in case mode of
           [] \<Rightarrow> 0
         | c # _ \<Rightarrow>
             if c = CHR ''r'' then (if plus then FA_READ OR FA_WRITE else FA_READ)
             else if c = CHR ''w'' then (if plus then FA_READ OR FA_WRITE else FA_WRITE) OR FA_CREATE_ALWAYS
             else if c = CHR ''a'' then (if plus then FA_READ OR FA_WRITE else FA_WRITE) OR FA_OPEN_APPEND
             else 0)"

text \<open>\<open>strncmp(s, v, strlen(v)) == 0\<close> and the character after it.\<close>

definition vol_match :: "string \<Rightarrow> string \<Rightarrow> bool" where
  "vol_match s v \<longleftrightarrow>
     take (length v) s = v \<and>
     (case drop (length v) s of [] \<Rightarrow> True | next # _ \<Rightarrow> next = CHR ''/'')"

text \<open>The scan starts at \<open>path + 1\<close>, which lies behind the terminator of an empty path.\<close>

definition is_ff_path :: "string \<Rightarrow> bool option" where
  "is_ff_path path = (case path of [] \<Rightarrow> None | _ # rest \<Rightarrow> Some (list_ex (vol_match rest) vol_str))"

definition wrap_fopen :: "'w ffs \<Rightarrow> string option \<Rightarrow> string option \<Rightarrow> 'w fio \<Rightarrow> (nat option \<times> 'w fio) option" where
  "wrap_fopen ffs path mode s =
     (case (path, mode) of
        (Some path, Some mode) \<Rightarrow> do {
          ff \<leftarrow> is_ff_path path;
          if \<not> ff then Some (stream_result (Real_fopen path mode) (e_real_fopen ffs path mode (fio_world s)) s)
          else
            let flags = parse_ff_mode mode
            in if flags = 0 then Some (None, set_errno EINVAL s)
               else case malloc_fil ffs s of
                 (None, s) \<Rightarrow> Some (None, set_errno ENOMEM s)
               | (Some fp, s) \<Rightarrow>
                   case f_open ffs fp path flags s of
                     (r, s) \<Rightarrow>
                       if r \<noteq> 0 then Some (None, set_errno EIO (free_fil ffs fp s))
                       else case stream_result (Fopencookie fp mode) (e_fopencookie ffs fp mode (fio_world s)) s of
                         (None, s) \<Rightarrow> Some (None, free_fil ffs fp (snd (f_close ffs fp s)))
                       | (Some f, s) \<Rightarrow> Some (Some f, s) }
      | _ \<Rightarrow> Some (None, set_errno EFAULT_32 s))"

definition wrap_freopen :: "'w ffs \<Rightarrow> string option \<Rightarrow> string option \<Rightarrow> nat \<Rightarrow> 'w fio \<Rightarrow>
    (nat option \<times> 'w fio) option" where
  "wrap_freopen ffs path mode stream s =
     (if path = None \<or> mode = None then Some (None, set_errno EFAULT_32 s)
      else wrap_fopen ffs path mode (log_call (Fclose stream) (e_fclose ffs stream (fio_world s)) s))"

section \<open>Specification\<close>

text \<open>The \<open>FIL\<close> objects a trace leaves allocated, and those it leaves open.\<close>

fun allocated :: "fio_event list \<Rightarrow> nat set \<Rightarrow> nat set" where
  "allocated [] A = A"
| "allocated (Malloc (Some p) # es) A = allocated es (insert p A)"
| "allocated (Free p # es) A = allocated es (A - {p})"
| "allocated (_ # es) A = allocated es A"

fun opened :: "fio_event list \<Rightarrow> nat set \<Rightarrow> nat set" where
  "opened [] A = A"
| "opened (F_open p path flags r # es) A = opened es (if r = 0 then insert p A else A)"
| "opened (F_close p r # es) A = opened es (A - {p})"
| "opened (_ # es) A = opened es A"

text \<open>Calls that change the binding of drives to drivers, and the driver bound to a drive by them.\<close>

datatype 'm disk_call = Set_ops "'m soct_disk_ops option" | Initialize u8

fun run_calls :: "'m disk_call list \<Rightarrow> 'm disks \<Rightarrow> 'm disks option" where
  "run_calls [] d = Some d"
| "run_calls (Set_ops ops # cs) d = run_calls cs (soct_set_mount_ops ops d)"
| "run_calls (Initialize p # cs) d = do { (_, d) \<leftarrow> disk_initialize p d; run_calls cs d }"

fun bound_ops :: "u8 \<Rightarrow> 'm disk_call list \<Rightarrow> 'm soct_disk_ops option \<Rightarrow> 'm soct_disk_ops option \<Rightarrow>
    'm soct_disk_ops option" where
  "bound_ops p [] mount bound = bound"
| "bound_ops p (Set_ops ops # cs) mount bound = bound_ops p cs ops bound"
| "bound_ops p (Initialize q # cs) mount bound = bound_ops p cs mount (if q = p then mount else bound)"

text \<open>FatFs mounts a volume without changing the register bases.\<close>

definition keeps_regs :: "f_mount_t \<Rightarrow> bool" where
  "keeps_regs f_mount \<longleftrightarrow>
     (\<forall>p path d res d'. f_mount p path d = Some (res, d') \<longrightarrow> sd_regs (d_machine d') = sd_regs (d_machine d))"

text \<open>The base address that a slot's node gives, if it has one.\<close>

definition node_base :: "blob \<Rightarrow> 'h dtb_state \<Rightarrow> nat option \<Rightarrow> u64 option" where
  "node_base b st n = (case n of None \<Rightarrow> None | Some n \<Rightarrow> (case sdc_base b st n of Some (Inr a) \<Rightarrow> Some a | _ \<Rightarrow> None))"

definition set_base :: "u8 \<Rightarrow> u64 option \<Rightarrow> (u8 \<Rightarrow> u64) \<Rightarrow> u8 \<Rightarrow> u64" where
  "set_base p base m = (case base of None \<Rightarrow> m | Some a \<Rightarrow> m(p := a))"

definition next_sdc :: "blob \<Rightarrow> 'h dtb_state \<Rightarrow> nat option \<Rightarrow> nat option" where
  "next_sdc b st n = (case dtb_find_compatible b st n (cstring SOCT_SDC_NAME_DTS) of Some r \<Rightarrow> r | None \<Rightarrow> None)"

text \<open>A driver that answers with a number, and a C library out of streams at first.\<close>

definition demo_ops :: "nat \<Rightarrow> nat soct_disk_ops" where
  "demo_ops k = \<lparr>dop_initialize = (\<lambda>p m. Some (0, m)), dop_status = Some (\<lambda>p m. of_nat k),
     dop_read = Some (\<lambda>p b s c m. Some (RES_OK, m + k)),
     dop_write = Some (\<lambda>p b s c m. Some (RES_OK, m + 2 * k)), dop_ioctl = Some (\<lambda>p c m. (RES_OK, Some (of_nat k)))\<rparr>"

definition demo_ffs :: "nat ffs" where
  "demo_ffs = \<lparr>e_malloc = (\<lambda>w. (Some w, w + 1)), e_free = (\<lambda>p w. w), e_f_open = (\<lambda>p n fl w. (0, w)),
     e_f_close = (\<lambda>p w. (1, w)), e_f_read = (\<lambda>p b n w. ((0, n), w)), e_f_write = (\<lambda>p b n w. ((0, n), w)),
     e_f_lseek = (\<lambda>p pos w. (0, w)), e_f_tell = (\<lambda>p w. 0), e_f_size = (\<lambda>p w. 0),
     e_fopencookie = (\<lambda>p m w. if w < 5 then (Inl 24, w) else (Inr 40, w)),
     e_real_fopen = (\<lambda>p m w. (Inl 2, w)), e_fclose = (\<lambda>f w. w)\<rparr>"

text \<open>A parsed tree with one SD card at \<open>0x60000000\<close>.\<close>

definition sd_blob :: blob where
  "sd_blob = [99, 111, 109, 112, 97, 116, 105, 98, 108, 101, 0, 0, 114, 101, 103, 0, 109, 109, 99, 0,
     0, 0, 0, 22, 0, 0, 0, 0,
     114, 105, 115, 99, 118, 44, 97, 120, 105, 45, 115, 100, 45, 99, 97, 114, 100, 45, 49, 46, 48, 0, 0, 0,
     0, 0, 0, 12, 0, 0, 0, 12, 0, 0, 0, 0, 0x60, 0, 0, 0, 0, 1, 0, 0]"

definition sd_dtb :: "glue_host dtb_state" where
  "sd_dtb = demo_dtb
     [zero_node\<lparr>nd_child := Some 1\<rparr>,
      zero_node\<lparr>nd_parent := Some 0, nd_props := Some 1, nd_name := Some 16\<rparr>]
     [zero_prop\<lparr>pr_node := Some 1, pr_data := 28, pr_length := 22\<rparr>,
      zero_prop\<lparr>pr_node := Some 1, pr_name := 12, pr_data := 60, pr_length := 12, pr_next := Some 0\<rparr>]"

section \<open>Lemmas\<close>

lemma log_call_simps [simp]:
  "fio_trace (log_call e w s) = fio_trace s @ [e]" "fio_errno (log_call e w s) = fio_errno s"
  "fio_trace (set_errno n s) = fio_trace s" "fio_errno (set_errno n s) = n"
  by (simp_all add: log_call_def set_errno_def)

text \<open>Which calls an \<open>fopen\<close> on a volume path makes, by outcome.\<close>

lemma wrap_fopen_calls:
  assumes "wrap_fopen ffs path mode s = Some (f, s')"
  obtains (none) "fio_trace s' = fio_trace s" "f = None"
  | (real) p m where "fio_trace s' = fio_trace s @ [Real_fopen p m f]"
  | (no_memory) "fio_trace s' = fio_trace s @ [Malloc None]" "f = None"
  | (no_open) fp p fl r where "fio_trace s' = fio_trace s @ [Malloc (Some fp), F_open fp p fl r, Free fp]" "f = None" "r \<noteq> 0"
  | (no_stream) fp p fl m r where "fio_trace s' = fio_trace s @
      [Malloc (Some fp), F_open fp p fl 0, Fopencookie fp m None, F_close fp r, Free fp]" "f = None"
  | (stream) fp p fl m h where "fio_trace s' = fio_trace s @
      [Malloc (Some fp), F_open fp p fl 0, Fopencookie fp m (Some h)]" "f = Some h"
  using assms
  by (auto simp: wrap_fopen_def malloc_fil_def f_open_def f_close_def free_fil_def stream_result_def Let_def
      split: option.splits Option.bind_splits prod.splits if_splits sum.splits)

lemma disks_len: "disk_initialize p d = Some (st, d') \<Longrightarrow> length (s_disk_ops d') = length (s_disk_ops d)"
  by (auto simp: disk_initialize_def split: if_splits option.splits Option.bind_splits)

lemma run_calls_bound:
  assumes "run_calls cs d = Some d'" and "length (s_disk_ops d) = FF_VOLUMES" and "unat p < FF_VOLUMES"
  shows "s_disk_ops d' ! unat p = bound_ops p cs (s_mount_ops d) (s_disk_ops d ! unat p) \<and>
    length (s_disk_ops d') = FF_VOLUMES"
  using assms
proof (induction cs d rule: run_calls.induct)
  case (3 q cs d)
  then obtain st e where e: "disk_initialize q d = Some (st, e)" "run_calls cs e = Some d'"
    by (auto split: Option.bind_splits)
  then have "s_mount_ops e = s_mount_ops d"
    "s_disk_ops e ! unat p = (if q = p then s_mount_ops d else s_disk_ops d ! unat p)"
    using "3.prems"
    by (auto simp: disk_initialize_def nth_list_update word_unat_eq_iff split: if_splits option.splits Option.bind_splits)
  with "3.IH" [OF e(1) refl e(2)] disks_len [OF e(1)] "3.prems" show ?case by simp
qed (simp_all add: soct_set_mount_ops_def)

text \<open>Slots of the mounting loop.\<close>

lemma find_pdrv_sd: "find_pdrv ''SD'' = 3" "find_pdrv ''SD2'' = 4"
  by (simp_all add: find_pdrv_def vol_str_def)

lemma sdc_slots_ConsE:
  assumes "sdc_slots f_mount b st (k # ks) node any_mounted g d = Some R"
  obtains "next_sdc b st node = None" "R = (any_mounted, g, d)"
  | n mt gs ds where "next_sdc b st node = Some n" "sdc_slot f_mount b st k n g d = Some (mt, gs, ds)"
      "sdc_slots f_mount b st ks (Some n) (any_mounted \<or> mt) gs ds = Some R"
  using assms by (auto simp: next_sdc_def split: Option.bind_splits option.splits)

lemma base_None [simp]: "node_base b st None = None" "set_base p None m = m"
  by (simp_all add: node_base_def set_base_def)

lemma sdc_slot_regs:
  assumes "sdc_slot f_mount b st slot n g d = Some (mounted, g', d')" and "slot < 2"
    and f: "keeps_regs f_mount"
  shows "sd_regs (d_machine d') =
      set_base (of_nat (3 + slot)) (node_base b st (Some n)) (sd_regs (d_machine d))"
    and "mounted \<Longrightarrow> node_base b st (Some n) \<noteq> None"
proof -
  have s: "slot = 0 \<or> slot = 1" using assms(2) by auto
  show "sd_regs (d_machine d') = 
      set_base (of_nat (3 + slot)) (node_base b st (Some n)) (sd_regs (d_machine d))"
    using assms(1) s
    by (auto simp: sdc_slot_def Let_def sd_vol_names_def find_pdrv_sd node_base_def set_base_def soct_set_mount_ops_def
        dest!: f [unfolded keeps_regs_def, rule_format] split: Option.bind_splits sum.splits if_splits)
  show "mounted \<Longrightarrow> node_base b st (Some n) \<noteq> None"
    using assms(1) s
    by (auto simp: sdc_slot_def Let_def sd_vol_names_def find_pdrv_sd node_base_def
        split: Option.bind_splits sum.splits if_splits)
qed

lemma vol_match_component:
  assumes "CHR ''/'' \<notin> set dir" and "rest = [] \<or> hd rest = CHR ''/''" and "CHR ''/'' \<notin> set v"
  shows "vol_match (dir @ rest) v \<longleftrightarrow> dir = v"
proof
  assume m: "vol_match (dir @ rest) v"
  show "dir = v"
  proof (cases "length v \<le> length dir")
    case True
    with m have "take (length v) dir = v" by (simp add: vol_match_def)
    then obtain ys where ys: "dir = v @ ys" by (metis append_take_drop_id)
    with m assms(1) show ?thesis by (cases ys) (auto simp: vol_match_def)
  next
    case False
    then have v: "v = dir @ take (length v - length dir) rest"
      using m by (simp add: vol_match_def)
    show ?thesis
    proof (cases rest)
      case (Cons c cs)
      then have "c \<in> set (take (length v - length dir) rest)"
        using False by (simp add: take_Cons')
      then have "c \<in> set v" by (subst v) simp
      with assms(2,3) Cons show ?thesis by simp
    qed (use v in simp)
  qed
next
  assume "dir = v"
  with assms(2) show "vol_match (dir @ rest) v" by (cases rest) (auto simp: vol_match_def)
qed

section \<open>Properties\<close>

text \<open>
  C19. Dispatch by drive. After any sequence of \<open>soct_set_mount_ops\<close> and \<open>disk_initialize\<close> calls
  from start-up, all requests for a drive (\<open>disk_read\<close>, \<open>disk_write\<close>, \<open>disk_ioctl\<close> and \<open>disk_status\<close>) go
  to the driver that was set when that drive was last initialised, whatever was set for other drives
  since; a drive never initialised, or whose driver lacks the function, is not ready.
\<close>

theorem disk_dispatch_sticks:
  assumes "run_calls cs (fresh_disks m) = Some d" and "unat p < FF_VOLUMES"
  shows "disk_read p buff sector count d =
      (case Option.bind (bound_ops p cs None None) dop_read of
         None \<Rightarrow> Some (RES_NOTRDY, d)
       | Some f \<Rightarrow> map_option (\<lambda>(r, m). (r, d\<lparr>d_machine := m\<rparr>)) (f p buff sector count (d_machine d))) \<and>
    disk_write p buff sector count d =
      (case Option.bind (bound_ops p cs None None) dop_write of
         None \<Rightarrow> Some (RES_NOTRDY, d)
       | Some f \<Rightarrow> map_option (\<lambda>(r, m). (r, d\<lparr>d_machine := m\<rparr>)) (f p buff sector count (d_machine d))) \<and>
    disk_ioctl p cmd d =
      (case Option.bind (bound_ops p cs None None) dop_ioctl of
         None \<Rightarrow> (RES_NOTRDY, None) | Some f \<Rightarrow> f p cmd (d_machine d)) \<and>
    disk_status p d =
      (case Option.bind (bound_ops p cs None None) dop_status of
         None \<Rightarrow> STA_NOINIT | Some f \<Rightarrow> f p (d_machine d))"
proof -
  have "s_disk_ops d ! unat p = bound_ops p cs None None"
    using run_calls_bound [OF assms(1) _ assms(2)] assms(2) by (simp add: fresh_disks_def)
  with assms(2) show ?thesis
    by (auto simp: disk_read_def disk_write_def disk_ioctl_def disk_status_def split: option.splits Option.bind_splits)
qed

theorem disk_dispatch_sticks_witness:
  "\<exists>d. run_calls [Set_ops (Some (demo_ops 7)), Initialize 3, Set_ops (Some (demo_ops 9)), Initialize 4]
       (fresh_disks 100) = Some d \<and>
     map_option fst (disk_read 3 0x1000 5 1 d) = Some RES_OK \<and>
     map_option (d_machine \<circ> snd) (disk_read 3 0x1000 5 1 d) = Some 107 \<and>
     map_option (d_machine \<circ> snd) (disk_write 3 0x1000 5 1 d) = Some 114 \<and>
     disk_ioctl 4 0 d = (RES_OK, Some 9) \<and> disk_ioctl 5 0 d = (RES_NOTRDY, None) \<and>
     disk_status 4 d = 9 \<and> disk_status 5 d = STA_NOINIT"
proof -
  let ?cs = "[Set_ops (Some (demo_ops 7)), Initialize 3, Set_ops (Some (demo_ops 9)), Initialize 4]"
  obtain d where d: "run_calls ?cs (fresh_disks 100) = Some d" and m: "d_machine d = 100"
    by (auto simp: disk_initialize_def soct_set_mount_ops_def fresh_disks_def demo_ops_def FF_VOLUMES_def)
  have v: "unat (3 :: u8) < FF_VOLUMES" "unat (4 :: u8) < FF_VOLUMES" "unat (5 :: u8) < FF_VOLUMES"
    by (simp_all add: FF_VOLUMES_def)
  show ?thesis
    using d m disk_dispatch_sticks [OF d v(1), where buff = "0x1000" and sector = 5 and count = 1] disk_dispatch_sticks [OF d v(2)]
      disk_dispatch_sticks [OF d v(3)]
    by (intro exI [of _ d]) (simp add: demo_ops_def)
qed

text \<open>
  Routing of paths. A path goes to FatFs exactly when its first component is the name of a
  volume; a name that only starts with a volume name does not match. The first character is not
  looked at.
\<close>

theorem ff_path_routing:
  assumes "CHR ''/'' \<notin> set dir" and "rest = [] \<or> hd rest = CHR ''/''"
  shows "is_ff_path (c # dir @ rest) = Some (dir \<in> set vol_str)"
proof -
  have "\<And>v. v \<in> set vol_str \<Longrightarrow> CHR ''/'' \<notin> set v" by (auto simp: vol_str_def)
  with vol_match_component [OF assms] show ?thesis by (auto simp: is_ff_path_def list_ex_iff)
qed

theorem ff_path_routing_witness:
  "is_ff_path ''/SD2/boot.elf'' = Some True \<and> is_ff_path ''/SDX/boot.elf'' = Some False \<and>
   is_ff_path ''xSD'' = Some True"
  using ff_path_routing [of "''SD2''" "''/boot.elf''" "CHR ''/''"]
    ff_path_routing [of "''SDX''" "''/boot.elf''" "CHR ''/''"] ff_path_routing [of "''SD''" "[]" "CHR ''x''"]
  by (simp add: vol_str_def)

text \<open>
  C20. \<open>fopen\<close> keeps account of its resources. When it returns NULL, every \<open>FIL\<close> it allocated has
  been freed and every file it opened has been closed. When it returns a stream on a volume, exactly
  one \<open>FIL\<close> is allocated and open, the one behind the stream, and closing the stream's cookie closes
  and frees it whatever \<open>f_close\<close> answers.
\<close>

theorem fopen_no_leak:
  assumes "wrap_fopen ffs path mode s = Some (f, s')"
  shows "\<exists>es. fio_trace s' = fio_trace s @ es \<and>
    (case f of
       None \<Rightarrow> allocated es {} = {} \<and> opened es {} = {}
     | Some h \<Rightarrow>
         (\<exists>p m. es = [Real_fopen p m (Some h)]) \<or>
         (\<exists>fp m. allocated es {} = {fp} \<and> opened es {} = {fp} \<and> Fopencookie fp m (Some h) \<in> set es \<and>
           (\<exists>es'. fio_trace (snd (ff_cookie_close ffs fp s')) = fio_trace s @ es' \<and>
              allocated es' {} = {} \<and> opened es' {} = {})))"
  using assms
proof (cases rule: wrap_fopen_calls)
  case (stream fp p fl m h)
  have "\<exists>r. fio_trace (snd (ff_cookie_close ffs fp s')) = fio_trace s' @ [F_close fp r, Free fp]"
    by (auto simp: ff_cookie_close_def f_close_def free_fil_def Let_def split: prod.splits)
  with stream show ?thesis by auto
next
  case (real p m)
  then show ?thesis by (cases f) auto
qed auto

theorem fopen_no_leak_witness:
  "\<exists>s es. wrap_fopen demo_ffs (Some ''/SD/a'') (Some ''r'') \<lparr>fio_world = 1, fio_errno = 0, fio_trace = []\<rparr> = Some (None, s) \<and>
     fio_trace s = es \<and> es \<noteq> [] \<and> allocated es {} = {} \<and> opened es {} = {} \<and> fio_errno s = 24"
proof -
  obtain s where s: "wrap_fopen demo_ffs (Some ''/SD/a'') (Some ''r'') \<lparr>fio_world = 1, fio_errno = 0, fio_trace = []\<rparr> = Some (None, s)"
    and t: "fio_trace s \<noteq> []" "fio_errno s = 24"
    by (auto simp: wrap_fopen_def is_ff_path_def vol_str_def vol_match_def parse_ff_mode_def demo_ffs_def
        malloc_fil_def f_open_def f_close_def free_fil_def stream_result_def FA_READ_def log_call_def set_errno_def)
  with fopen_no_leak [OF s] show ?thesis by auto
qed

text \<open>
  SD cards from the device tree. Slot \<open>k\<close> belongs to the \<open>k\<close>-th SD card node, whether or not an
  earlier one could be used: drive 3 (\<open>/SD\<close>) gets the register base of the first node and drive 4
  (\<open>/SD2\<close>) that of the second, when the node has one, and no other drive's base changes. The result
  is true only if some node had a base. FatFs' \<open>f_mount\<close> is assumed not to change register bases.
\<close>

theorem sdc_slots_bases:
  assumes "soct_init_from_dtb_sdc f_mount b g d = Some (any_mounted, g', d')"
    and "keeps_regs f_mount"
  shows "let n = next_sdc b (g_dtb g) None; n' = (if n = None then None else next_sdc b (g_dtb g) n) in
    sd_regs (d_machine d') =
      set_base 4 (node_base b (g_dtb g) n') (set_base 3 (node_base b (g_dtb g) n) (sd_regs (d_machine d))) \<and>
    (any_mounted \<longrightarrow> node_base b (g_dtb g) n \<noteq> None \<or> node_base b (g_dtb g) n' \<noteq> None)"
proof -
  let ?st = "g_dtb g"
  have l: "[0..<length sd_vol_names] = [0, 1]" by (simp add: sd_vol_names_def upt_rec)
  from assms(1) [unfolded soct_init_from_dtb_sdc_def l] show ?thesis
  proof (cases rule: sdc_slots_ConsE)
    case (2 n mt gs ds)
    note slot = sdc_slot_regs [OF 2(2) _ assms(2), simplified]
    from 2(3) show ?thesis
    proof (cases rule: sdc_slots_ConsE)
      case two: (2 n' mt' gs' ds')
      with 2 slot sdc_slot_regs [OF two(2) _ assms(2), simplified] show ?thesis by auto
    qed (use 2 slot in auto)
  qed simp
qed

theorem sdc_slots_bases_witness:
  "\<exists>g' d'. soct_init_from_dtb_sdc (\<lambda>p path d. Some (0, d)) sd_blob (demo_glue sd_dtb)
      (fresh_disks \<lparr>sd_regs = (\<lambda>p. 0), sd_drives = (\<lambda>p. demo_sd)\<rparr>) = Some (True, g', d') \<and>
    sd_regs (d_machine d') = (\<lambda>p. 0)(3 := 0x60000000)"
proof -
  have f: "dtb_find_compatible sd_blob sd_dtb None (cstring SOCT_SDC_NAME_DTS) = Some (Some 1)"
    "dtb_find_compatible sd_blob sd_dtb (Some 1) (cstring SOCT_SDC_NAME_DTS) = Some None"
    "sdc_base sd_blob sd_dtb 1 = Some (Inr 0x60000000)"
    by code_simp+
  then have n: "next_sdc sd_blob sd_dtb None = Some 1" "next_sdc sd_blob sd_dtb (Some 1) = None"
    "node_base sd_blob sd_dtb (Some 1) = Some 0x60000000"
    by (simp_all add: next_sdc_def node_base_def)
  have g: "g_dtb (demo_glue sd_dtb) = sd_dtb" by (simp add: demo_glue_def)
  obtain g' d' where r: "soct_init_from_dtb_sdc (\<lambda>p path d. Some (0, d)) sd_blob (demo_glue sd_dtb)
      (fresh_disks \<lparr>sd_regs = (\<lambda>p. 0), sd_drives = (\<lambda>p. demo_sd)\<rparr>) = Some (True, g', d')"
    by (simp add: soct_init_from_dtb_sdc_def sd_vol_names_def upt_rec g f f [simplified] sdc_slot_def find_pdrv_sd)
  have k: "keeps_regs (\<lambda>p path d. Some (0, d))" by (simp add: keeps_regs_def)
  from sdc_slots_bases [OF r k] r n g show ?thesis by (simp add: set_base_def fresh_disks_def)
qed

end
