(* ===== verification/Posix.thy ===== *)
theory Posix
  imports Soct_Ff
begin

text \<open>
  The system call stubs of \<open>posix/*.c\<close> and the default trap handler of \<open>compat.c\<close>. Every stub runs
  \<open>soct_syscall\<close> on the process: its handler table, \<open>errno\<close> and the machine behind the handlers.
  Pointers are 64-bit addresses, zero is NULL; \<open>fdopen\<close> and \<open>fclose\<close> of the C library are
  parameters whose calls are logged.
\<close>

section \<open>Constants\<close>

definition SOCT_OPEN :: u32 where "SOCT_OPEN = 2"
definition SOCT_CLOSE :: u32 where "SOCT_CLOSE = 3"
definition SOCT_FSTAT :: u32 where "SOCT_FSTAT = 5"
definition SOCT_LSEEK :: u32 where "SOCT_LSEEK = 8"
definition SOCT_EXIT :: u32 where "SOCT_EXIT = 60"
definition SOCT_OPENAT :: u32 where "SOCT_OPENAT = 257"

definition SOCT_O_RDONLY :: u32 where "SOCT_O_RDONLY = 0"
definition SOCT_O_WRONLY :: u32 where "SOCT_O_WRONLY = 1"
definition SOCT_O_RDWR :: u32 where "SOCT_O_RDWR = 2"
definition SOCT_O_CREAT :: u32 where "SOCT_O_CREAT = 0x40"
definition SOCT_O_TRUNC :: u32 where "SOCT_O_TRUNC = 0x200"
definition SOCT_O_APPEND :: u32 where "SOCT_O_APPEND = 0x400"
definition S_IFCHR :: u32 where "S_IFCHR = 0x2000"

section \<open>Processes\<close>

datatype stdio_event = Fdopen u32 "nat option" | Fclosed nat

record 's proc =
  p_table :: "'s handler_table"
  p_errno :: u32
  p_machine :: 's
  p_stdio :: "stdio_event list"

record 's stdio =
  e_fdopen :: "u32 \<Rightarrow> string \<Rightarrow> 's \<Rightarrow> (u32 + nat) \<times> 's"
  e_close_stream :: "nat \<Rightarrow> 's \<Rightarrow> 's"

definition sc_args :: "u64 \<Rightarrow> u64 \<Rightarrow> u64 \<Rightarrow> u64 \<Rightarrow> sc_args" where
  "sc_args a0 a1 a2 a3 =
     \<lparr>sc_a0 = a0, sc_a1 = a1, sc_a2 = a2, sc_a3 = a3, sc_a4 = 0, sc_a5 = 0, sc_a6 = 0\<rparr>"

definition proc_errno :: "u32 \<Rightarrow> 's proc \<Rightarrow> 's proc" where
  "proc_errno e p = p\<lparr>p_errno := e\<rparr>"

definition proc_syscall :: "u32 \<Rightarrow> sc_args \<Rightarrow> 's proc \<Rightarrow> (u64 \<times> 's proc) option" where
  "proc_syscall nr args p = do {
     (ret, e, m) \<leftarrow> soct_syscall (p_table p) nr args (p_errno p) (p_machine p);
     Some (ret, p\<lparr>p_errno := e, p_machine := m\<rparr>) }"

definition proc_fdopen :: "'s stdio \<Rightarrow> u32 \<Rightarrow> string \<Rightarrow> 's proc \<Rightarrow> nat option \<times> 's proc" where
  "proc_fdopen io fd mode p =
     (case e_fdopen io fd mode (p_machine p) of
        (Inl e, m) \<Rightarrow> (None, p\<lparr>p_errno := e, p_machine := m, p_stdio := p_stdio p @ [Fdopen fd None]\<rparr>)
      | (Inr f, m) \<Rightarrow> (Some f, p\<lparr>p_machine := m, p_stdio := p_stdio p @ [Fdopen fd (Some f)]\<rparr>))"

definition proc_fclose :: "'s stdio \<Rightarrow> nat \<Rightarrow> 's proc \<Rightarrow> 's proc" where
  "proc_fclose io stream p =
     p\<lparr>p_machine := e_close_stream io stream (p_machine p), p_stdio := p_stdio p @ [Fclosed stream]\<rparr>"

section \<open>Files\<close>

text \<open>A result of type \<open>int\<close> is the low word of the dispatcher's result.\<close>

definition posix_open :: "u64 \<Rightarrow> u32 \<Rightarrow> u32 \<Rightarrow> 's proc \<Rightarrow> (u32 \<times> 's proc) option" where
  "posix_open name flags mode p = do {
     (ret, p) \<leftarrow> proc_syscall SOCT_OPEN (sc_args name (scast flags) (scast mode) 0) p;
     Some (ucast ret, p) }"

definition mode_to_soct_flags :: "string \<Rightarrow> u32" where
  "mode_to_soct_flags mode =
     (let plus = CHR ''+'' \<in> set mode
      in case mode of
           [] \<Rightarrow> - 1
         | c # _ \<Rightarrow>
             if c = CHR ''r'' then (if plus then SOCT_O_RDWR else SOCT_O_RDONLY)
             else if c = CHR ''w'' then (if plus then SOCT_O_RDWR else SOCT_O_WRONLY) OR SOCT_O_CREAT OR SOCT_O_TRUNC
             else if c = CHR ''a'' then (if plus then SOCT_O_RDWR else SOCT_O_WRONLY) OR SOCT_O_CREAT OR SOCT_O_APPEND
             else - 1)"

definition soct_fopen :: "'s stdio \<Rightarrow> u64 \<Rightarrow> string option \<Rightarrow> 's proc \<Rightarrow> (nat option \<times> 's proc) option" where
  "soct_fopen io path mode p =
     (case mode of
        None \<Rightarrow> Some (None, proc_errno EFAULT_32 p)
      | Some mode \<Rightarrow>
          if path = 0 then Some (None, proc_errno EFAULT_32 p)
          else
            let flags = mode_to_soct_flags mode
            in if sint flags < 0 then Some (None, proc_errno EINVAL p)
               else do {
                 (fd, p) \<leftarrow> posix_open path flags 0x1B6 p;
                 if sint fd < 0 then Some (None, p) else Some (proc_fdopen io fd mode p) })"

definition soct_freopen :: "'s stdio \<Rightarrow> u64 \<Rightarrow> string option \<Rightarrow> nat \<Rightarrow> 's proc \<Rightarrow>
    (nat option \<times> 's proc) option" where
  "soct_freopen io path mode stream p =
     (if path = 0 then Some (None, proc_fclose io stream (proc_errno EFAULT_32 p))
      else case mode of
        None \<Rightarrow> Some (None, proc_fclose io stream (proc_errno EFAULT_32 p))
      | Some mode \<Rightarrow>
          let flags = mode_to_soct_flags mode
          in if sint flags < 0 then Some (None, proc_fclose io stream (proc_errno EINVAL p))
             else do {
               (fd, p) \<leftarrow> posix_open path flags 0x1B6 p;
               if sint fd < 0 then Some (None, proc_fclose io stream p)
               else Some (proc_fdopen io fd mode (proc_fclose io stream p)) })"

text \<open>\<open>openat\<close> reads its variadic argument \<open>va_mode\<close> only with \<open>O_CREAT\<close>.\<close>

definition openat :: "u32 \<Rightarrow> u64 \<Rightarrow> u32 \<Rightarrow> u32 \<Rightarrow> 's proc \<Rightarrow> (u32 \<times> 's proc) option" where
  "openat dirfd pname flags va_mode p =
     (if pname = 0 then Some (- 1, proc_errno EFAULT_32 p)
      else do {
        let mode = (if flags AND SOCT_O_CREAT \<noteq> 0 then scast va_mode else 0);
        (ret, p) \<leftarrow> proc_syscall SOCT_OPENAT (sc_args (scast dirfd) pname (scast flags) mode) p;
        Some (ucast ret, p) })"

definition posix_read :: "u32 \<Rightarrow> u64 \<Rightarrow> u64 \<Rightarrow> 's proc \<Rightarrow> (u64 \<times> 's proc) option" where
  "posix_read fd buf nbyte p =
     (if nbyte > 0 \<and> buf = 0 then Some (- 1, proc_errno EFAULT_32 p)
      else proc_syscall SOCT_READ (sc_args (scast fd) buf nbyte 0) p)"

definition posix_write :: "u32 \<Rightarrow> u64 \<Rightarrow> u64 \<Rightarrow> 's proc \<Rightarrow> (u64 \<times> 's proc) option" where
  "posix_write fd buf nbyte p =
     (if nbyte > 0 \<and> buf = 0 then Some (- 1, proc_errno EFAULT_32 p)
      else proc_syscall SOCT_WRITE (sc_args (scast fd) buf nbyte 0) p)"

definition posix_close :: "u32 \<Rightarrow> 's proc \<Rightarrow> (u32 \<times> 's proc) option" where
  "posix_close fd p = do {
     (ret, p) \<leftarrow> proc_syscall SOCT_CLOSE (sc_args (scast fd) 0 0 0) p;
     Some (ucast ret, p) }"

definition posix_lseek :: "u32 \<Rightarrow> u64 \<Rightarrow> u32 \<Rightarrow> 's proc \<Rightarrow> (u64 \<times> 's proc) option" where
  "posix_lseek fd ptr whence p = proc_syscall SOCT_LSEEK (sc_args (scast fd) ptr (scast whence) 0) p"

definition std_fd :: "u32 \<Rightarrow> bool" where
  "std_fd fd \<longleftrightarrow> fd = 0 \<or> fd = 1 \<or> fd = 2"

definition posix_isatty :: "u32 \<Rightarrow> u32" where
  "posix_isatty fd = (if std_fd fd then 1 else 0)"

definition posix_kill :: "u32 \<Rightarrow> u32 \<Rightarrow> 's proc \<Rightarrow> u32 \<times> 's proc" where
  "posix_kill pid sig p = (- 1, proc_errno ENOSYS p)"

definition posix_getpid :: u32 where "posix_getpid = 1"

text \<open>
  \<open>struct soct_stat\<close> and, with the same fields before their conversion to the widths of the C
  library, \<open>struct stat\<close>. \<open>read_ss\<close> is the memory behind \<open>&ss\<close> after the call.
\<close>

record soct_stat =
  st_dev :: u64
  st_ino :: u64
  st_mode :: u32
  st_nlink :: u32
  st_uid :: u32
  st_gid :: u32
  st_rdev :: u64
  st_size :: u64
  st_blksize :: u64
  st_blocks :: u64
  st_atime :: u64
  st_mtime :: u64
  st_ctime :: u64

definition zero_stat :: soct_stat where
  "zero_stat = \<lparr>st_dev = 0, st_ino = 0, st_mode = 0, st_nlink = 0, st_uid = 0, st_gid = 0, st_rdev = 0,
     st_size = 0, st_blksize = 0, st_blocks = 0, st_atime = 0, st_mtime = 0, st_ctime = 0\<rparr>"

text \<open>The result code and, unless \<open>st\<close> is NULL, the contents of \<open>*st\<close>.\<close>

definition posix_fstat :: "('s \<Rightarrow> soct_stat) \<Rightarrow> u64 \<Rightarrow> u32 \<Rightarrow> u64 \<Rightarrow> 's proc \<Rightarrow>
    (u32 \<times> soct_stat option \<times> 's proc) option" where
  "posix_fstat read_ss ss_addr fd st p =
     (if st = 0 then Some (- 1, None, proc_errno EFAULT_32 p)
      else if std_fd fd
      then Some (0, Some (zero_stat\<lparr>st_mode := S_IFCHR OR 0x1B6, st_nlink := 1, st_blksize := 64\<rparr>), p)
      else do {
        (r, p) \<leftarrow> proc_syscall SOCT_FSTAT (sc_args (scast fd) ss_addr 0 0) p;
        let ret = (ucast r :: u32);
        Some (ret, Some (if ret = 0 then read_ss (p_machine p) else zero_stat), p) })"

section \<open>Exit and traps\<close>

text \<open>\<open>_exit\<close> never returns; its only effect is the system call.\<close>

definition posix_exit :: "u32 \<Rightarrow> 's proc \<Rightarrow> 's proc option" where
  "posix_exit code p = do { (_, p) \<leftarrow> proc_syscall SOCT_EXIT (sc_args (scast code) 0 0 0) p; Some p }"

definition trap_code :: "u64 \<Rightarrow> u32" where
  "trap_code cause =
     (let code = ucast (cause AND (push_bit (8 * 4 - 1) 1 - 1)) :: u32
      in if sint cause < 0 then - code else code)"

definition handle_trap :: "u64 \<Rightarrow> 's proc \<Rightarrow> 's proc option" where
  "handle_trap cause p = posix_exit (trap_code cause) p"

section \<open>Specification\<close>

text \<open>What a mode string asks for, read off either flag word.\<close>

record open_intent =
  can_read :: bool
  can_write :: bool
  creates :: bool
  truncates :: bool
  appends :: bool

definition soct_intent :: "u32 \<Rightarrow> open_intent" where
  "soct_intent fl = \<lparr>can_read = (fl AND 3 \<noteq> SOCT_O_WRONLY), can_write = (fl AND 3 \<noteq> SOCT_O_RDONLY),
     creates = (fl AND SOCT_O_CREAT \<noteq> 0), truncates = (fl AND SOCT_O_TRUNC \<noteq> 0),
     appends = (fl AND SOCT_O_APPEND \<noteq> 0)\<rparr>"

text \<open>
  FatFs: bit 3 is create-always, bits 4 and 5 together open-append (open always, then seek to the
  end).
\<close>

definition ff_intent :: "u8 \<Rightarrow> open_intent" where
  "ff_intent fl = \<lparr>can_read = (fl AND FA_READ \<noteq> 0), can_write = (fl AND FA_WRITE \<noteq> 0),
     creates = (fl AND (FA_CREATE_ALWAYS OR 0x10) \<noteq> 0), truncates = (fl AND FA_CREATE_ALWAYS \<noteq> 0),
     appends = (fl AND 0x20 \<noteq> 0)\<rparr>"

text \<open>A C library whose \<open>fdopen\<close> succeeds.\<close>

definition demo_io_fns :: "nat stdio" where
  "demo_io_fns = \<lparr>e_fdopen = (\<lambda>fd mode m. (Inr 9, m)), e_close_stream = (\<lambda>f m. m)\<rparr>"

section \<open>Lemmas\<close>

lemma sint_of_int_32: "- (2 ^ 31) \<le> x \<Longrightarrow> x < 2 ^ 31 \<Longrightarrow> sint (word_of_int x :: u32) = x"
  by (simp add: signed_of_int signed_take_bit_int_eq_self)

lemma take_code: "k < 2 ^ 31 \<Longrightarrow> take_bit 31 (of_nat k) = (of_nat k :: u64)"
  by (simp add: take_bit_of_nat take_bit_nat_eq_self)

lemma ucast_code: "k < 2 ^ 31 \<Longrightarrow> ucast (of_nat k :: u64) = (of_nat k :: u32)"
  by (simp add: unsigned_of_nat take_bit_nat_eq_self)

lemma low_code:
  assumes "k < 2 ^ 31"
  shows "(a OR of_nat k) AND (push_bit 31 1 - 1) = (take_bit 31 a OR of_nat k :: u64)"
proof -
  have e: "push_bit 31 1 - 1 = (mask 31 :: u64)" by (simp add: mask_eq_exp_minus_1 push_bit_eq_mult)
  show ?thesis
    unfolding e take_bit_eq_mask [symmetric] take_bit_or take_code [OF assms] ..
qed

section \<open>Properties\<close>

text \<open>
  The two ways to open a file agree on modes. For every mode string either both
  \<open>mode_to_soct_flags\<close> (files behind system calls) and \<open>parse_ff_mode\<close> (files on a volume) refuse
  it, or both grant the same access, creation, truncation and append behaviour.
\<close>

theorem open_modes_agree:
  "(mode_to_soct_flags mode = - 1 \<and> parse_ff_mode mode = 0) \<or>
   (0 \<le> sint (mode_to_soct_flags mode) \<and> parse_ff_mode mode \<noteq> 0 \<and>
    soct_intent (mode_to_soct_flags mode) = ff_intent (parse_ff_mode mode))"
  by (cases mode)
    (auto simp: mode_to_soct_flags_def parse_ff_mode_def soct_intent_def ff_intent_def Let_def SOCT_O_RDONLY_def
      SOCT_O_WRONLY_def SOCT_O_RDWR_def SOCT_O_CREAT_def SOCT_O_TRUNC_def SOCT_O_APPEND_def FA_READ_def
      FA_WRITE_def FA_CREATE_ALWAYS_def FA_OPEN_APPEND_def)

text \<open>
  \<open>soct_freopen\<close> closes the old stream exactly once on every path, and before a new one is
  made; a descriptor it opened always goes to \<open>fdopen\<close>, and a stream is returned only from there.
\<close>

theorem freopen_closes_once:
  assumes "soct_freopen io path mode stream p = Some (f, p')"
  shows "(f = None \<and> p_stdio p' = p_stdio p @ [Fclosed stream]) \<or>
    (\<exists>fd. 0 \<le> sint fd \<and> p_stdio p' = p_stdio p @ [Fclosed stream, Fdopen fd f])"
  using assms
  by (auto simp: soct_freopen_def proc_errno_def proc_fclose_def proc_fdopen_def posix_open_def
      proc_syscall_def Let_def split: if_splits option.splits Option.bind_splits sum.splits prod.splits)

theorem freopen_closes_once_witness:
  "\<exists>p' fd. soct_freopen demo_io_fns 0x8000 (Some ''r'') 4
      \<lparr>p_table = snd (soct_register_handler (\<lambda>m nr a. (handled 3, m)) initial_table), p_errno = 0,
       p_machine = 0, p_stdio = []\<rparr> = Some (Some 9, p') \<and>
     p_stdio p' = [Fclosed 4, Fdopen fd (Some 9)] \<and> 0 \<le> sint fd"
proof -
  let ?p = "\<lparr>p_table = snd (soct_register_handler (\<lambda>m nr a. (handled 3, m)) initial_table), p_errno = 0,
       p_machine = 0, p_stdio = []\<rparr> :: nat proc"
  obtain p' where r: "soct_freopen demo_io_fns 0x8000 (Some ''r'') 4 ?p = Some (Some 9, p')"
    by (auto simp: soct_freopen_def mode_to_soct_flags_def SOCT_O_RDONLY_def posix_open_def proc_syscall_def
        soct_syscall_def soct_register_handler_def initial_table_def SOCT_N_SYSCALL_HANDLERS_def handled_def
        handled_result_def proc_fdopen_def demo_io_fns_def upt_rec)
  from freopen_closes_once [OF r] r show ?thesis by auto
qed

text \<open>
  Exit code of a trap. The default trap handler exits with the exception code, negated for an
  interrupt, for every cause whose code has at most 31 bits, so that the cause can be told from the
  exit code except for the two causes with code zero.
\<close>

theorem trap_code_roundtrip:
  assumes "cause = (if interrupt then push_bit 63 1 else 0) OR of_nat k" and "k < 2 ^ 31"
  shows "sint (trap_code cause) = (if interrupt then - int k else int k)"
proof -
  let ?hi = "(if interrupt then push_bit 63 1 else 0) :: u64"
  have hi: "take_bit 31 ?hi = 0" by simp
  have "\<not> bit (take_bit 31 (of_nat k :: u64)) 63" by (simp add: bit_take_bit_iff)
  then have "\<not> bit (of_nat k :: u64) 63" using take_code [OF assms(2)] by simp
  then have neg: "sint cause < 0 \<longleftrightarrow> interrupt"
    using assms(1) by (simp add: bit_last_iff [symmetric] bit_or_iff bit_push_bit_iff)
  have "trap_code cause = word_of_int (if interrupt then - int k else int k)"
    using low_code [OF assms(2), of ?hi] assms neg hi ucast_code [OF assms(2)]
    by (simp add: trap_code_def Let_def)
  then show ?thesis using assms(2) by (simp add: sint_of_int_32)
qed

theorem trap_code_roundtrip_witness:
  "sint (trap_code 2) = 2 \<and> sint (trap_code 0x8000000000000007) = - 7"
  using trap_code_roundtrip [of 2 False 2] trap_code_roundtrip [of "0x8000000000000007" True 7]
  by (simp add: push_bit_eq_mult)

end
