(* ===== verification/Boot_Sdc.thy ===== *)
theory Boot_Sdc
  imports Sdc
begin

text \<open>
  The SD card driver of the boot ROM (\<open>bootroms/sd-boot/bootrom.c\<close>), a second copy of the runtime's
  driver that only reads, for one fixed controller. It is modelled on its own and shown to drive
  the controller exactly as the runtime's driver does.
\<close>

section \<open>Commands\<close>

definition boot_cmd_finish :: "sdc_dev \<Rightarrow> (bool \<times> sdc_dev) option" where
  "boot_cmd_finish d = do {
     (status, d) \<leftarrow> poll_reg (\<lambda>v. v \<noteq> 0) R_cmd_int_status d;
     (_, d) \<leftarrow> poll_reg (\<lambda>v. v = 0) R_software_reset (wr R_cmd_int_status 0 d);
     if status = SDC_CMD_INT_STATUS_CC then do { d \<leftarrow> read_response d; Some (True, d) }
     else
       let e = FR_DISK_ERR;
           e = (if status AND SDC_CMD_INT_STATUS_CTE \<noteq> 0 then FR_TIMEOUT else e);
           e = (if status AND SDC_CMD_INT_STATUS_CCRC \<noteq> 0 then ERR_CMD_CRC else e);
           e = (if status AND SDC_CMD_INT_STATUS_CIE \<noteq> 0 then ERR_CMD_CHECK else e)
       in Some (False, d\<lparr>sd_errno := e\<rparr>) }"

definition boot_data_finish :: "sdc_dev \<Rightarrow> (bool \<times> sdc_dev) option" where
  "boot_data_finish d = do {
     (status, d) \<leftarrow> poll_reg (\<lambda>v. v \<noteq> 0) R_dat_int_status d;
     (_, d) \<leftarrow> poll_reg (\<lambda>v. v = 0) R_software_reset (wr R_dat_int_status 0 d);
     if status = SDC_DAT_INT_STATUS_TRS then Some (True, d)
     else
       let e = FR_DISK_ERR;
           e = (if status AND SDC_DAT_INT_STATUS_CTE \<noteq> 0 then FR_TIMEOUT else e);
           e = (if status AND SDC_DAT_INT_STATUS_CRC \<noteq> 0 then ERR_DATA_CRC else e);
           e = (if status AND SDC_DAT_INT_STATUS_CFE \<noteq> 0 then ERR_DATA_FIFO else e)
       in Some (False, d\<lparr>sd_errno := e\<rparr>) }"

text \<open>Here every command without a case of its own has an R1 response.\<close>

definition boot_resp_flags :: "u32 \<Rightarrow> u32" where
  "boot_resp_flags cmd =
     (if cmd \<in> set [0, 4, 15] then 0
      else if cmd \<in> set [7, 12, 20, 28, 29, 38] then 1 OR push_bit 2 1 OR push_bit 3 1 OR push_bit 4 1
      else if cmd \<in> set [2, 9, 10] then 2 OR push_bit 3 1
      else if cmd = 0x80 + 41 then 1
      else if cmd = 3 then 1 OR push_bit 2 1 OR push_bit 3 1 OR push_bit 4 1
      else if cmd = 8 then 1 OR push_bit 3 1 OR push_bit 4 1
      else 1 OR push_bit 3 1 OR push_bit 4 1)"

definition boot_send_data_cmd :: "u32 \<Rightarrow> u32 \<Rightarrow> u64 \<Rightarrow> u32 \<Rightarrow> sdc_dev \<Rightarrow> (bool \<times> sdc_dev) option" where
  "boot_send_data_cmd cmd arg buf blocks d =
     (let command = push_bit 8 (cmd AND 0x3F) OR boot_resp_flags cmd;
          command = (if blocks \<noteq> 0 then command OR push_bit 5 1 else command)
      in if blocks \<noteq> 0 \<and> buf AND 3 \<noteq> 0 then Some (False, d\<lparr>sd_errno := ERR_BUF_ALIGNMENT\<rparr>)
         else do {
           let d = (if blocks \<noteq> 0
                    then wr R_data_timeout 0xFFFFFF (wr R_block_count (ucast (blocks - 1))
                           (wr R_block_size 511 (wr R_dma_addres buf d)))
                    else d);
           let d = wr R_argument (ucast arg) (wr R_cmd_timeout 0xFFFFF (wr R_command (ucast command) d));
           (ok, d) \<leftarrow> boot_cmd_finish d;
           if \<not> ok then Some (False, d) else if blocks \<noteq> 0 then boot_data_finish d else Some (True, d) })"

definition boot_send_cmd :: "u32 \<Rightarrow> u32 \<Rightarrow> sdc_dev \<Rightarrow> (bool \<times> sdc_dev) option" where
  "boot_send_cmd cmd arg d = boot_send_data_cmd cmd arg 0 0 d"

section \<open>Initialisation\<close>

text \<open>The card and the drive status before initialisation.\<close>

definition uninit :: "sdc_dev \<Rightarrow> sdc_dev" where
  "uninit d = d\<lparr>sd_card_type := 0, sd_drv_status := STA_NOINIT\<rparr>"

partial_function (option) boot_wait_ready :: "sdc_dev \<Rightarrow> (bool \<times> sdc_dev) option" where
  "boot_wait_ready d = do {
     (ok, d) \<leftarrow> boot_send_cmd 55 0 d;
     if \<not> ok then Some (False, d)
     else do {
       (ok, d) \<leftarrow> boot_send_cmd (0x80 + 41) 0x40300000 d;
       if \<not> ok then Some (False, d)
       else if (sd_response d ! 0) AND push_bit 31 1 \<noteq> 0
       then Some (True, if (sd_response d ! 0) AND push_bit 30 1 \<noteq> 0
                        then d\<lparr>sd_card_type := sd_card_type d OR CT_BLOCK\<rparr> else d)
       else boot_wait_ready d } }"

declare boot_wait_ready.simps [code]

text \<open>\<open>if (send_cmd(cmd, arg) < 0) return -1;\<close> before the rest.\<close>

definition boot_try :: "u32 \<Rightarrow> u32 \<Rightarrow> (sdc_dev \<Rightarrow> (bool \<times> sdc_dev) option) \<Rightarrow> sdc_dev \<Rightarrow> (bool \<times> sdc_dev) option" where
  "boot_try cmd arg rest d = do { (ok, d) \<leftarrow> boot_send_cmd cmd arg d; if \<not> ok then Some (False, d) else rest d }"

definition boot_identify :: "sdc_dev \<Rightarrow> (bool \<times> sdc_dev) option" where
  "boot_identify =
     boot_try 2 0 (
     boot_try 3 (push_bit 16 0x1234) (\<lambda>d.
     let rca = drop_bit 16 (sd_response d ! 0)
     in boot_try 7 (push_bit 16 rca) (\<lambda>d.
     boot_try 55 (push_bit 16 rca) (
     boot_try (0x80 + 6) 0 (
     boot_try 16 512 (\<lambda>d.
     Some (True, d\<lparr>sd_drv_status := sd_drv_status d AND NOT STA_NOINIT\<rparr>))))
     (wr R_control 0 (usleep 10000 (wr R_clock_divider 3 d)))) d))"

text \<open>From the idle command on.\<close>

definition boot_start :: "sdc_dev \<Rightarrow> (bool \<times> sdc_dev) option" where
  "boot_start d = do {
     (_, d) \<leftarrow> boot_send_cmd 0 0 d;
     (ok, d) \<leftarrow> boot_send_cmd 8 0x1AA (d\<lparr>sd_card_type := CT_SD1\<rparr>);
     if ok \<and> (sd_response d ! 0) AND 0xFFF \<noteq> 0x1AA then Some (False, d\<lparr>sd_errno := ERR_CMD_CHECK\<rparr>)
     else do {
       (ok, d) \<leftarrow> boot_wait_ready (if ok then d\<lparr>sd_card_type := CT_SD2\<rparr> else d);
       if \<not> ok then Some (False, d) else boot_identify d } }"

definition ini_sd :: "sdc_dev \<Rightarrow> (bool \<times> sdc_dev) option" where
  "ini_sd d = do {
     (_, d) \<leftarrow> poll_reg (\<lambda>v. v AND 1 \<noteq> 0) R_software_reset (wr R_software_reset 1 d);
     (_, d) \<leftarrow> poll_reg (\<lambda>v. v = 0) R_software_reset (wr R_software_reset 0 (wr R_clock_divider 0x7C d));
     let d = uninit (usleep 5000 d);
     (cap, d) \<leftarrow> rd R_capability d;
     d \<leftarrow> (if cap AND SDC_CAPABILITY_SD_RESET \<noteq> 0
          then do {
            (c, d) \<leftarrow> rd R_control d;
            let d = usleep 1000000 (wr R_control (ucast (c OR SDC_CONTROL_SD_RESET)) d);
            (c, d) \<leftarrow> rd R_control d;
            Some (usleep 100000 (wr R_control (ucast (c AND NOT SDC_CONTROL_SD_RESET)) d)) }
          else Some d);
     boot_start d }"

section \<open>The disk interface\<close>

definition boot_disk_status :: "sdc_dev \<Rightarrow> u8" where
  "boot_disk_status d = sd_drv_status d"

function boot_read_loop :: "u64 \<Rightarrow> u64 \<Rightarrow> u32 \<Rightarrow> sdc_dev \<Rightarrow> (DRESULT \<times> sdc_dev) option" where
  "boot_read_loop buf sector count d =
     (if count = 0 then Some (RES_OK, d)
      else
        let bcnt = (if count > MAX_BLOCK_CNT then MAX_BLOCK_CNT else count);
            bytes = bcnt * 512
        in do {
          (ok, d) \<leftarrow> boot_send_data_cmd (if bcnt = 1 then 17 else 18) (ucast sector) buf bcnt d;
          if \<not> ok then Some (RES_ERROR, d)
          else do {
            (ok, d) \<leftarrow> (if bcnt > 1 then boot_send_cmd 12 0 d else Some (True, d));
            if \<not> ok then Some (RES_ERROR, d)
            else boot_read_loop (buf + ucast bytes)
                   (sector + (if sd_card_type d AND CT_BLOCK \<noteq> 0 then ucast bcnt else ucast bytes))
                   (count - bcnt) d } })"
  by pat_completeness auto
termination
proof (relation "measure (\<lambda>(_, _, count, _). unat count)", rule wf_measure)
  fix count bcnt :: u32
  assume "count \<noteq> 0" and "bcnt = (if MAX_BLOCK_CNT < count then MAX_BLOCK_CNT else count)"
  then have "bcnt \<noteq> 0 \<and> bcnt \<le> count" by (auto simp: MAX_BLOCK_CNT_def)
  then have "unat (count - bcnt) < unat count" by (simp add: word_sub_decreases)
  then show "\<And>buf sector d buf' sector' d'.
      ((buf', sector', count - bcnt, d'), (buf, sector, count, d)) \<in> measure (\<lambda>(_, _, count, _). unat count)"
    by simp
qed

definition boot_disk_read :: "u64 \<Rightarrow> u64 \<Rightarrow> u32 \<Rightarrow> sdc_dev \<Rightarrow> (DRESULT \<times> sdc_dev) option" where
  "boot_disk_read buf sector count d =
     (if count = 0 then Some (RES_PARERR, d)
      else if sd_drv_status d AND STA_NOINIT \<noteq> 0 then Some (RES_NOTRDY, d)
      else boot_read_loop buf (if sd_card_type d AND CT_BLOCK \<noteq> 0 then sector else sector * 512) count d)"

text \<open>The message on the console is left to the caller.\<close>

definition boot_disk_initialize :: "sdc_dev \<Rightarrow> (u8 \<times> sdc_dev) option" where
  "boot_disk_initialize d = do { (_, d) \<leftarrow> ini_sd d; Some (sd_drv_status d, d) }"

section \<open>Agreement with the runtime's driver\<close>

text \<open>The two command tables agree on the commands the drivers use for reading.\<close>

definition shared_cmds :: "u32 list" where
  "shared_cmds = [0, 2, 3, 7, 8, 12, 16, 17, 18, 55, 0x80 + 6, 0x80 + 41]"

text \<open>
  A step of the boot driver, which reports failure by its result, and one of the runtime's driver,
  which reports it by the drive status, agree on a device not yet initialised.
\<close>

definition agree :: "(sdc_dev \<Rightarrow> (bool \<times> sdc_dev) option) \<Rightarrow> (sdc_dev \<Rightarrow> sdc_dev option) \<Rightarrow> sdc_dev \<Rightarrow> bool" where
  "agree f g d \<longleftrightarrow>
     (sd_drv_status d = STA_NOINIT \<longrightarrow> f d = map_option (\<lambda>d'. (sd_drv_status d' = 0, d')) (g d))"

lemma boot_finish_eq: "boot_cmd_finish = sdc_cmd_finish" "boot_data_finish = sdc_data_finish"
  by (rule ext, simp only: boot_cmd_finish_def boot_data_finish_def sdc_cmd_finish_def sdc_data_finish_def
      cmd_errno_def dat_errno_def Let_def)+

lemma boot_command_eq:
  assumes "cmd \<in> set shared_cmds"
  shows "boot_send_data_cmd cmd arg buf blocks d = send_data_cmd cmd arg buf blocks d"
proof -
  have "boot_resp_flags cmd = resp_flags cmd" "cmd \<notin> set [24, 25, 27, 28, 29, 38]"
    using assms by (auto simp: shared_cmds_def boot_resp_flags_def resp_flags_def)
  then have w: "(if blocks \<noteq> 0 then (push_bit 8 (cmd AND 0x3F) OR boot_resp_flags cmd) OR push_bit 5 1
      else push_bit 8 (cmd AND 0x3F) OR boot_resp_flags cmd) = cmd_word cmd blocks"
    by (simp add: cmd_word_def data_flags_def or.assoc)
  show ?thesis
    by (simp only: boot_send_data_cmd_def send_data_cmd_def boot_finish_eq issue_def setup_data_def Let_def w)
qed

lemma boot_cmd_eq: "cmd \<in> set shared_cmds \<Longrightarrow> boot_send_cmd cmd arg = send_cmd cmd arg"
  by (simp add: fun_eq_iff boot_send_cmd_def send_cmd_def boot_command_eq)

lemma boot_wait_eq: "boot_wait_ready d = wait_ready d"
proof -
  have c: "boot_send_cmd 55 = send_cmd 55" "boot_send_cmd (0x80 + 41) = send_cmd (0x80 + 41)"
    by (simp_all add: fun_eq_iff boot_cmd_eq shared_cmds_def)
  have "wait_ready d = Some r" if "boot_wait_ready d = Some r" for r
    using that
    by (rule boot_wait_ready.raw_induct [where P = "\<lambda>d r. wait_ready d = Some r", rotated], goal_cases)
      (subst wait_ready.simps, auto simp: c [simplified] split: Option.bind_splits if_splits)
  moreover have "boot_wait_ready d = Some r" if "wait_ready d = Some r" for r
    using that
    by (rule wait_ready.raw_induct [where P = "\<lambda>d r. boot_wait_ready d = Some r", rotated], goal_cases)
      (subst boot_wait_ready.simps, auto simp: c [simplified] split: Option.bind_splits if_splits)
  ultimately show ?thesis by (cases "wait_ready d"; cases "boot_wait_ready d") auto
qed

lemma agree_try:
  assumes "cmd \<in> set shared_cmds" and "\<And>d'. agree f g d'"
  shows "agree (boot_try cmd arg f) (try_cmd cmd arg g) d"
  using assms(2)
  by (auto simp: agree_def boot_try_def try_cmd_def boot_cmd_eq [OF assms(1)] STA_NOINIT_def
      dest: send_cmd_status split: Option.bind_splits)

lemma boot_identify_agree: "agree boot_identify identify d"
proof -
  have done_step: "agree (\<lambda>d. Some (True, d\<lparr>sd_drv_status := sd_drv_status d AND NOT STA_NOINIT\<rparr>))
      (\<lambda>d. Some (d\<lparr>sd_drv_status := sd_drv_status d AND NOT STA_NOINIT\<rparr>)) d" for d
    by (simp add: agree_def)
  have write_step: "agree f g (wr R_control 0 (usleep 10000 (wr R_clock_divider 3 d))) \<Longrightarrow>
      agree (\<lambda>d. f (wr R_control 0 (usleep 10000 (wr R_clock_divider 3 d))))
        (\<lambda>d. g (wr R_control 0 (usleep 10000 (wr R_clock_divider 3 d)))) d" for f g d
    by (simp add: agree_def)
  have rca: "(\<And>r. agree (f r) (g r) d) \<Longrightarrow>
      agree (\<lambda>d. let r = drop_bit 16 (sd_response d ! 0) in f r d)
        (\<lambda>d. let r = drop_bit 16 (sd_response d ! 0) in g r d) d" for f g d
    by (simp add: agree_def Let_def)
  show ?thesis
    unfolding boot_identify_def identify_def
    by (intro agree_try rca write_step done_step) (simp_all add: shared_cmds_def)
qed

text \<open>Clearing the card state before or after the reset of the controller is the same.\<close>

lemma uninit_swap:
  "wr r v (uninit d) = uninit (wr r v d)" "usleep us (uninit d) = uninit (usleep us d)"
  "poll_reg P r (uninit d) = map_option (\<lambda>(v, d). (v, uninit d)) (poll_reg P r d)"
  by (auto simp: uninit_def wr_def usleep_def poll_reg_def split: option.splits)

lemma agree_start:
  assumes "sd_drv_status d = STA_NOINIT"
  shows "boot_start d =
    map_option (\<lambda>(st, d). (st = 0, d)) (do { (_, d) \<leftarrow> send_cmd 0 0 d;
       (ok, d) \<leftarrow> send_cmd 8 0x1AA (d\<lparr>sd_card_type := CT_SD1\<rparr>);
       if ok \<and> (sd_response d ! 0) AND 0xFFF \<noteq> 0x1AA
       then Some (sd_drv_status d, d\<lparr>sd_errno := ERR_CMD_CHECK\<rparr>)
       else do {
         (ok, d) \<leftarrow> wait_ready (if ok then d\<lparr>sd_card_type := CT_SD2\<rparr> else d);
         if \<not> ok then Some (sd_drv_status d, d)
         else do { d \<leftarrow> identify d; Some (sd_drv_status d, d) } } })"
proof (cases "send_cmd 0 0 d")
  case (Some r)
  obtain ok d1 where r: "r = (ok, d1)" by fastforce
  have st: "sd_drv_status d1 = STA_NOINIT" using send_cmd_status Some r assms by auto
  have c: "boot_send_cmd 0 = send_cmd 0" "boot_send_cmd 8 = send_cmd 8"
    by (simp_all add: fun_eq_iff boot_cmd_eq shared_cmds_def)
  show ?thesis
  proof (cases "send_cmd 8 0x1AA (d1\<lparr>sd_card_type := CT_SD1\<rparr>)")
    case s: (Some r')
    obtain ok' d2 where r': "r' = (ok', d2)" by fastforce
    have st2: "sd_drv_status d2 = STA_NOINIT" using send_cmd_status s r' st by fastforce
    define d3 where "d3 = (if ok' then d2\<lparr>sd_card_type := CT_SD2\<rparr> else d2)"
    have st3: "sd_drv_status d3 = STA_NOINIT" by (simp add: d3_def st2)
    have "(do { (ok, d) \<leftarrow> wait_ready d3; if \<not> ok then Some (False, d) else boot_identify d }) =
        map_option (\<lambda>(st, d). (st = 0, d)) (do { (ok, d) \<leftarrow> wait_ready d3;
          if \<not> ok then Some (sd_drv_status d, d) else do { d \<leftarrow> identify d; Some (sd_drv_status d, d) } })"
    proof (cases "wait_ready d3")
      case w: (Some q)
      obtain ok3 d4 where q: "q = (ok3, d4)" by fastforce
      have "sd_drv_status d4 = STA_NOINIT" using wait_ready_status w q st3 by auto
      with boot_identify_agree [of d4] w q show ?thesis
        by (cases "identify d4") (auto simp: agree_def STA_NOINIT_def)
    qed simp
    with Some r s r' st2 show ?thesis by (auto simp: boot_start_def c boot_wait_eq d3_def STA_NOINIT_def)
  qed (use Some r c in \<open>simp add: boot_start_def\<close>)
qed (simp add: boot_start_def boot_cmd_eq shared_cmds_def)

lemma ini_sd_reset: "ini_sd d = do { d \<leftarrow> reset_controller (uninit d); boot_start d }"
  unfolding ini_sd_def reset_controller_def uninit_swap map_option_bind bind_map_option
  by (simp add: uninit_swap rd_def bind_map_option split_def Let_def comp_def cong: if_cong)

lemma ini_sd_eq: "ini_sd d = map_option (\<lambda>(st, d). (st = 0, d)) (sdc_initialize d)"
proof (cases "reset_controller (uninit d)")
  case None
  then show ?thesis by (simp add: ini_sd_reset sdc_initialize_def uninit_def)
next
  case (Some d')
  have "sd_drv_status d' = STA_NOINIT" using reset_status [OF Some] by (simp add: uninit_def)
  from agree_start [OF this] Some show ?thesis by (simp add: ini_sd_reset sdc_initialize_def uninit_def)
qed

lemma boot_read_eq: "boot_read_loop buf sector count d = xfer_loop 17 18 buf sector count d"
proof (induction count arbitrary: buf sector d rule: measure_induct_rule [where f = unat])
  case (less count)
  show ?case
  proof (cases "count = 0")
    case True
    then show ?thesis by (subst boot_read_loop.simps, subst xfer_loop.simps) simp
  next
    case False
    define bcnt where "bcnt = (if count > MAX_BLOCK_CNT then MAX_BLOCK_CNT else count)"
    have "bcnt \<noteq> 0 \<and> bcnt \<le> count" using False by (auto simp: bcnt_def MAX_BLOCK_CNT_def)
    then have "unat (count - bcnt) < unat count" by (simp add: word_sub_decreases)
    note IH = less [OF this]
    have c: "boot_send_cmd 12 = send_cmd 12"
      "boot_send_data_cmd (if bcnt = 1 then 17 else 18) = send_data_cmd (if bcnt = 1 then 17 else 18)"
      by (simp_all add: fun_eq_iff boot_cmd_eq boot_command_eq shared_cmds_def)
    show ?thesis
      by (subst boot_read_loop.simps, subst xfer_loop.simps)
        (simp only: bcnt_def [symmetric] Let_def IH c)
  qed
qed

section \<open>Properties\<close>

text \<open>
  C14. The boot ROM drives the card as the runtime does. For every state of the device, reading
  blocks and initialising the card issue the same register accesses, leave the same state and report
  the same outcome in both drivers; both fail to return on the same devices.
\<close>

theorem boot_driver_agrees:
  "boot_disk_read buf sector count d = sdc_read buf sector count d \<and>
   boot_disk_initialize d = sdc_initialize d \<and>
   boot_disk_status d = sdc_status d"
proof -
  have "boot_disk_initialize d = sdc_initialize d"
  proof (cases "sdc_initialize d")
    case (Some r)
    then show ?thesis
      using initialize_cases [of d "fst r" "snd r"]
      by (auto simp: boot_disk_initialize_def ini_sd_eq split: prod.splits)
  qed (simp add: boot_disk_initialize_def ini_sd_eq)
  then show ?thesis
    by (simp add: boot_disk_read_def sdc_read_def boot_read_eq start_sector_def boot_disk_status_def sdc_status_def
        del: boot_read_loop.simps)
qed

end
