(* ===== verification/Vxprintf.thy ===== *)
theory Vxprintf
  imports Soct_Prelude
begin

text \<open>
  Formatted output: \<open>stdio/vxprintf.c\<close>, the printf family of \<open>stdio/stdio.c\<close> and the line buffer of
  \<open>stdio/printbuf.h\<close>. A C \<open>char\<close> is a \<open>char\<close>, a format or a string is the list of characters before
  its terminator. \<open>vxprintf\<close> gives the characters passed to \<open>putfn\<close>, in order. It has no result for
  what is not defined or not modelled: an argument that is missing, an address that is no string, a
  width that overflows \<open>int\<close>, and \<open>%f\<close> (floating point).
\<close>

section \<open>Numbers\<close>

text \<open>
  The digits, lowest first. The bases are 8, 10 and 16; on a base below 2 the loop of the code
  would not end.
\<close>

function digits_loop :: "u64 \<Rightarrow> u64 \<Rightarrow> u64 list" where
  "digits_loop num base =
     num mod base # (if num < base \<or> base < 2 then [] else digits_loop (num div base) base)"
  by pat_completeness auto
termination
proof (relation "measure (\<lambda>(num, _). unat num)", rule wf_measure)
  fix num base :: u64
  assume "\<not> (num < base \<or> base < 2)"
  then have b: "2 \<le> unat base" "unat base \<le> unat num" by (simp_all add: word_less_nat_alt not_less)
  then have "unat num div unat base < unat num" by (intro div_less_dividend) auto
  then show "((num div base, base), (num, base)) \<in> measure (\<lambda>(num, _). unat num)"
    by (simp add: unat_div)
qed

definition digit_char :: "u64 \<Rightarrow> char" where
  "digit_char d = char_of (unat d + (if d \<ge> 10 then 97 - 10 else 48))"

definition printnum :: "u64 \<Rightarrow> u64 \<Rightarrow> int \<Rightarrow> char \<Rightarrow> string" where
  "printnum num base width padc =
     (let digits = digits_loop num base
      in replicate (nat (width - int (length digits))) padc @ map digit_char (rev digits))"

section \<open>Formats\<close>

record spec =
  sp_padc :: char
  sp_width :: int
  sp_prec :: int
  sp_lflag :: nat

definition init_spec :: spec where
  "init_spec = \<lparr>sp_padc = CHR '' '', sp_width = - 1, sp_prec = - 1, sp_lflag = 0\<rparr>"

definition process_precision :: "int \<Rightarrow> spec \<Rightarrow> spec" where
  "process_precision prec sp =
     (if sp_width sp < 0 then sp\<lparr>sp_width := prec, sp_prec := - 1\<rparr> else sp\<lparr>sp_prec := prec\<rparr>)"

text \<open>Arguments are 64-bit slots; without \<open>l\<close> the low 32 bits count.\<close>

definition getuint :: "nat \<Rightarrow> u64 \<Rightarrow> u64" where
  "getuint lflag a = (if lflag \<ge> 1 then a else ucast (ucast a :: u32))"

definition getint :: "nat \<Rightarrow> u64 \<Rightarrow> u64" where
  "getint lflag a = (if lflag \<ge> 1 then a else scast (ucast a :: u32))"

definition conv_s :: "spec \<Rightarrow> string \<Rightarrow> string" where
  "conv_s sp p =
     (let shown = (if sp_prec sp < 0 then p else take (nat (sp_prec sp)) p);
          left = sp_width sp > 0 \<and> sp_padc sp \<noteq> CHR ''-'';
          pad = nat (sp_width sp - int (length shown))
      in if left then replicate pad (sp_padc sp) @ shown else shown @ replicate pad CHR '' '')"

text \<open>\<open>-(long long) num\<close> of the least \<open>long long\<close> overflows, which C leaves undefined: no result.\<close>

definition conv_d :: "spec \<Rightarrow> u64 \<Rightarrow> string option" where
  "conv_d sp a =
     (let num = getint (sp_lflag sp) a
      in if sint num < 0
         then if num = push_bit 63 1 then None
              else Some (CHR ''-'' # printnum (- num) 10 (sp_width sp) (sp_padc sp))
         else Some (printnum num 10 (sp_width sp) (sp_padc sp)))"

definition conv_u :: "spec \<Rightarrow> u64 \<Rightarrow> u64 \<Rightarrow> string" where
  "conv_u sp base a = printnum (getuint (sp_lflag sp) a) base (sp_width sp) (sp_padc sp)"

definition is_digit :: "char \<Rightarrow> bool" where
  "is_digit c \<longleftrightarrow> 48 \<le> (of_char c :: nat) \<and> (of_char c :: nat) \<le> 57"

text \<open>The flags, which go back to \<open>reswitch\<close> without reading an argument.\<close>

definition flag_step :: "char \<Rightarrow> spec \<Rightarrow> spec option" where
  "flag_step c sp =
     (if c = CHR ''-'' then Some (sp\<lparr>sp_padc := CHR ''-''\<rparr>)
      else if c = CHR ''0'' then Some (sp\<lparr>sp_padc := CHR ''0''\<rparr>)
      else if c = CHR ''.'' then Some (if sp_width sp < 0 then sp\<lparr>sp_width := 0\<rparr> else sp)
      else if c = CHR ''#'' then Some sp
      else if c = CHR ''z'' then Some (sp\<lparr>sp_lflag := 2\<rparr>)
      else if c = CHR ''l'' then Some (sp\<lparr>sp_lflag := sp_lflag sp + 1\<rparr>)
      else None)"

text \<open>
  A conversion ends the specifier: the output, where the format goes on, and the arguments left.
  \<open>str a\<close> is the string at address \<open>a\<close>.
\<close>

definition conversion :: "(u64 \<Rightarrow> string option) \<Rightarrow> string \<Rightarrow> spec \<Rightarrow> char \<Rightarrow> string \<Rightarrow> u64 list \<Rightarrow>
    (string \<times> string \<times> u64 list) option" where
  "conversion str last_fmt sp c fmt args =
     (if c = CHR ''f'' then None
      else if c = CHR ''%'' then Some (''%'', fmt, args)
      else if c \<notin> set ''csduopx'' then Some (''%'', last_fmt, args)
      else case args of
        [] \<Rightarrow> None
      | a # args \<Rightarrow>
          if c = CHR ''s''
          then map_option (\<lambda>p. (conv_s sp p, fmt, args)) (if a = 0 then Some ''(null)'' else str a)
          else if c = CHR ''d'' then map_option (\<lambda>out. (out, fmt, args)) (conv_d sp a)
          else Some (
            if c = CHR ''c'' then [char_of (unat a)]
            else if c = CHR ''u'' then conv_u sp 10 a
            else if c = CHR ''o'' then conv_u sp 8 a
            else if c = CHR ''p'' then ''0x'' @ conv_u (sp\<lparr>sp_lflag := 1\<rparr>) 16 a
            else conv_u sp 16 a, fmt, args))"

text \<open>From \<open>reswitch\<close> to the end of one specifier; \<open>num\<close> is the number the width loop is reading.\<close>

function (sequential) reswitch :: "(u64 \<Rightarrow> string option) \<Rightarrow> string \<Rightarrow> int option \<Rightarrow> spec \<Rightarrow> string \<Rightarrow> u64 list \<Rightarrow>
    (string \<times> string \<times> u64 list) option" where
  "reswitch str last_fmt num sp [] args = Some (''%'', last_fmt, args)"
| "reswitch str last_fmt (Some prec) sp (c # fmt) args =
     (if is_digit c
      then if prec * 10 + of_char c \<ge> 2 ^ 31 then None
           else reswitch str last_fmt (Some (prec * 10 + of_char c - 48)) sp fmt args
      else reswitch str last_fmt None (process_precision prec sp) (c # fmt) args)"
| "reswitch str last_fmt None sp (c # fmt) args =
     (case flag_step c sp of
        Some sp' \<Rightarrow> reswitch str last_fmt None sp' fmt args
      | None \<Rightarrow>
          if is_digit c then reswitch str last_fmt (Some (of_char c - 48)) sp fmt args
          else if c = CHR ''*'' then
            (case args of
               [] \<Rightarrow> None
             | a # args \<Rightarrow> reswitch str last_fmt None (process_precision (sint (ucast a :: u32)) sp) fmt args)
          else conversion str last_fmt sp c fmt args)"
  by pat_completeness auto
termination
  by (relation "measures [\<lambda>(_, _, _, _, fmt, _). length fmt, \<lambda>(_, _, num, _). if num = None then 0 else 1]")
    simp_all

function vxprintf :: "(u64 \<Rightarrow> string option) \<Rightarrow> string \<Rightarrow> u64 list \<Rightarrow> string option" where
  "vxprintf str [] args = Some []"
| "vxprintf str (c # fmt) args =
     (if c \<noteq> CHR ''%'' then map_option (Cons c) (vxprintf str fmt args)
      else case reswitch str fmt None init_spec fmt args of
        None \<Rightarrow> None
      | Some (out, rest, args') \<Rightarrow> map_option ((@) out) (vxprintf str rest args'))"
  by pat_completeness auto
termination
proof (relation "measure (\<lambda>(_, fmt, _). length fmt)", rule wf_measure, simp, clarsimp)
  fix str fmt args out rest args'
  have conv: "conversion str last sp c fmt args = Some (out, rest, args') \<Longrightarrow> rest = fmt \<or> rest = last"
    for str last sp c fmt args
    by (auto simp: conversion_def split: if_splits list.splits)
  have "reswitch str last num sp fmt args = Some (out, rest, args') \<Longrightarrow> length fmt \<le> length last \<Longrightarrow>
      length rest \<le> length last" for str last num sp fmt args
    by (induction str last num sp fmt args rule: reswitch.induct)
      (auto split: if_splits list.splits option.splits dest: conv)
  then show "reswitch str fmt None init_spec fmt args = Some (out, rest, args') \<Longrightarrow>
      length rest < Suc (length fmt)"
    by (meson le_imp_less_Suc order_refl)
qed

section \<open>The printf family\<close>

text \<open>
  Standard output of one thread: the filled part of \<open>__printbuf\<close>, the strings written so far, and
  the world the writes act on.
\<close>

record 'w stdout =
  o_buf :: string
  o_written :: "string list"
  o_world :: 'w

definition printbuf_size :: nat where "printbuf_size = 128"

text \<open>\<open>wr\<close> is \<open>write\<close> on standard output, with its \<open>int\<close> result.\<close>

definition to_stdout :: "(string \<Rightarrow> 'w \<Rightarrow> int \<times> 'w) \<Rightarrow> string \<Rightarrow> 'w stdout \<Rightarrow> int \<times> 'w stdout" where
  "to_stdout wr s o1 =
     (case wr s (o_world o1) of (n, w) \<Rightarrow> (n, o1\<lparr>o_written := o_written o1 @ [s], o_world := w\<rparr>))"

definition printbuf_flush :: "(string \<Rightarrow> 'w \<Rightarrow> int \<times> 'w) \<Rightarrow> string \<Rightarrow> 'w stdout \<Rightarrow> int \<times> 'w stdout" where
  "printbuf_flush wr s o1 = to_stdout wr s (o1\<lparr>o_buf := []\<rparr>)"

definition printbuf_putc :: "(string \<Rightarrow> 'w \<Rightarrow> int \<times> 'w) \<Rightarrow> char \<Rightarrow> 'w stdout \<Rightarrow> int \<times> 'w stdout" where
  "printbuf_putc wr c o1 =
     (let b = o_buf o1 @ [c]
      in if length b \<ge> printbuf_size \<or> c = CHR 0x0A then printbuf_flush wr b o1
         else (0, o1\<lparr>o_buf := b\<rparr>))"

text \<open>\<open>EOF\<close> is \<open>-1\<close>.\<close>

definition printbuf_puts :: "(string \<Rightarrow> 'w \<Rightarrow> int \<times> 'w) \<Rightarrow> string \<Rightarrow> 'w stdout \<Rightarrow> int \<times> 'w stdout" where
  "printbuf_puts wr s o1 =
     (let room = printbuf_size - length (o_buf o1)
      in if length s < room
         then (case printbuf_flush wr (o_buf o1 @ s @ [CHR 0x0A]) o1 of (n, o1) \<Rightarrow> (if n < 0 then - 1 else 0, o1))
         else (case printbuf_flush wr (o_buf o1 @ take room s) o1 of
                 (n, o1) \<Rightarrow>
                   if n < 0 then (- 1, o1)
                   else (case to_stdout wr (drop room s) o1 of
                           (n, o1) \<Rightarrow>
                             if n < 0 then (- 1, o1)
                             else (case to_stdout wr [CHR 0x0A] o1 of
                                     (n, o1) \<Rightarrow> (if n < 0 then - 1 else 0, o1)))))"

definition printf_char :: "(string \<Rightarrow> 'w \<Rightarrow> int \<times> 'w) \<Rightarrow> char \<Rightarrow> int \<times> 'w stdout \<Rightarrow> int \<times> 'w stdout" where
  "printf_char wr c lo =
     (case printbuf_putc wr c (snd lo) of (n, o1) \<Rightarrow> (if n \<ge> 0 then fst lo + n else fst lo, o1))"

definition wrap_printf :: "(string \<Rightarrow> 'w \<Rightarrow> int \<times> 'w) \<Rightarrow> (u64 \<Rightarrow> string option) \<Rightarrow> string \<Rightarrow> u64 list \<Rightarrow>
    'w stdout \<Rightarrow> (int \<times> 'w stdout) option" where
  "wrap_printf wr str fmt args o1 =
     map_option (\<lambda>out. fold (printf_char wr) out (0, o1)) (vxprintf str fmt args)"

text \<open>The bytes stored from \<open>str\<close> on, and the result.\<close>

definition wrap_sprintf :: "(u64 \<Rightarrow> string option) \<Rightarrow> string \<Rightarrow> u64 list \<Rightarrow> (string \<times> int) option" where
  "wrap_sprintf str fmt args = map_option (\<lambda>out. (out @ [CHR 0x00], int (length out))) (vxprintf str fmt args)"

definition snprintf_putc :: "nat \<Rightarrow> char \<Rightarrow> string \<Rightarrow> string" where
  "snprintf_putc room c d = (if length d < room then d @ [c] else d)"

definition wrap_snprintf :: "nat \<Rightarrow> (u64 \<Rightarrow> string option) \<Rightarrow> string \<Rightarrow> u64 list \<Rightarrow> (string \<times> int) option" where
  "wrap_snprintf n str fmt args =
     (if n \<le> 0 then Some ([], 0)
      else map_option (\<lambda>out. let d = fold (snprintf_putc (n - 1)) out [] in (d @ [CHR 0x00], int (length d)))
             (vxprintf str fmt args))"

section \<open>Wide characters\<close>

text \<open>
  \<open>stdio/wc.c\<close> over the byte functions of the C library, which are parameters; a wide character is
  one byte. The results carry the \<open>errno\<close> set, if any.
\<close>

definition WEOF :: u32 where "WEOF = - 1"
definition EILSEQ :: u32 where "EILSEQ = 138"
definition EINVAL_W :: u32 where "EINVAL_W = 22"
definition EOVERFLOW :: u32 where "EOVERFLOW = 139"

definition getwc :: "('w \<Rightarrow> int \<times> 'w) \<Rightarrow> 'w \<Rightarrow> u32 \<times> 'w" where
  "getwc fgetc w = (case fgetc w of (c, w) \<Rightarrow> (if c = - 1 then WEOF else ucast (word_of_int c :: u8), w))"

definition putwc :: "(u8 \<Rightarrow> 'w \<Rightarrow> int \<times> 'w) \<Rightarrow> u32 \<Rightarrow> 'w \<Rightarrow> u32 \<times> u32 option \<times> 'w" where
  "putwc fputc wc w =
     (if (scast wc :: u64) > 0xFF then (WEOF, Some EILSEQ, w)
      else case fputc (ucast wc) w of
        (rc, w) \<Rightarrow> (if rc = - 1 then WEOF else ucast (ucast wc :: u8), None, w))"

definition ungetwc :: "(u8 \<Rightarrow> 'w \<Rightarrow> int \<times> 'w) \<Rightarrow> u32 \<Rightarrow> 'w \<Rightarrow> u32 \<times> u32 option \<times> 'w" where
  "ungetwc ungetc wc w =
     (if wc = WEOF then (WEOF, None, w)
      else if (ucast wc :: u64) > 0xFF then (WEOF, Some EILSEQ, w)
      else case ungetc (ucast wc) w of
        (rc, w) \<Rightarrow> (if rc = - 1 then WEOF else ucast (ucast wc :: u8), None, w))"

text \<open>
  \<open>swprintf\<close>: the result, the wide characters stored at \<open>ws\<close> and the \<open>errno\<close> set. \<open>vsnprintf n fmt\<close>
  gives its result and the bytes it stored before the terminator.
\<close>

definition swprintf :: "(nat \<Rightarrow> u8 list \<Rightarrow> int \<times> u8 list) \<Rightarrow> bool \<Rightarrow> nat \<Rightarrow> u32 list option \<Rightarrow>
    int \<times> u32 list \<times> u32 option" where
  "swprintf vsnprintf ws_null n format =
     (case format of
        None \<Rightarrow> (- 1, [], Some EINVAL_W)
      | Some format \<Rightarrow>
          if ws_null \<or> n = 0 then (- 1, [], Some EINVAL_W)
          else if \<exists>c\<in>set format. (scast c :: u64) > 0x7F then (- 1, [0], Some EILSEQ)
          else case vsnprintf n (map ucast format) of
            (ret, out8) \<Rightarrow>
              if ret < 0 then (- 1, [0], None)
              else
                let copy = (if nat ret \<ge> n then n - 1 else nat ret);
                    ws = map ucast (take copy out8) @ [0]
                in if nat ret \<ge> n then (- 1, ws, Some EOVERFLOW) else (ret, ws, None))"

section \<open>Specification\<close>

text \<open>Reading a number back.\<close>

definition char_digit :: "char \<Rightarrow> nat" where
  "char_digit c = (let k = of_char c in if k \<ge> 97 then k - 87 else k - 48)"

definition read_nat :: "nat \<Rightarrow> string \<Rightarrow> nat" where
  "read_nat base s = fold (\<lambda>c n. n * base + char_digit c) s 0"

definition read_int :: "string \<Rightarrow> int" where
  "read_int s = (case s of c # cs \<Rightarrow> if c = CHR ''-'' then - int (read_nat 10 cs) else int (read_nat 10 s) | [] \<Rightarrow> 0)"

text \<open>The line buffer is never full and holds no line end.\<close>

definition buf_inv :: "'w stdout \<Rightarrow> bool" where
  "buf_inv o1 \<longleftrightarrow> length (o_buf o1) < printbuf_size \<and> CHR 0x0A \<notin> set (o_buf o1)"

definition printed :: "'w stdout \<Rightarrow> string" where
  "printed o1 = concat (o_written o1) @ o_buf o1"

section \<open>Lemmas\<close>

declare digits_loop.simps [simp del]

lemma sint_split: "sint (x :: u64) = (if uint x < 2 ^ 63 then uint x else uint x - 2 ^ 64)"
proof -
  have "sint x = (uint x + 2 ^ 63) mod 2 ^ 64 - 2 ^ 63"
    by (simp add: sint_uint signed_take_bit_eq_take_bit_shift take_bit_eq_mod)
  moreover have "0 \<le> uint x" "uint x < 2 ^ 64" using uint_bounded [of x] by simp_all
  ultimately show ?thesis by (simp add: mod_pos_pos_trivial mod_add_if_z)
qed

lemma char_digit_char: "d < 16 \<Longrightarrow> char_digit (digit_char d) = unat d"
  by (auto simp: char_digit_def digit_char_def word_less_nat_alt word_le_nat_alt Let_def)

lemma digit_char_not_minus: "d < 16 \<Longrightarrow> digit_char d \<noteq> CHR ''-''"
proof
  assume d: "d < 16" and "digit_char d = CHR ''-''"
  then have "(of_char (digit_char d) :: nat) = 45" by simp
  with d show False by (simp add: digit_char_def word_less_nat_alt split: if_splits)
qed

lemma digits_value:
  "2 \<le> base \<Longrightarrow> foldr (\<lambda>d n. n * unat base + unat d) (digits_loop num base) 0 = unat num"
proof (induction num base rule: digits_loop.induct)
  case (1 num base)
  then have IH: "\<not> num < base \<Longrightarrow>
      foldr (\<lambda>d n. n * unat base + unat d) (digits_loop (num div base) base) 0 = unat num div unat base"
    by (simp add: unat_div)
  show ?case
    using 1(2) by (subst digits_loop.simps) (auto simp: IH unat_mod word_less_nat_alt word_le_nat_alt)
qed

lemma digits_bound: "2 \<le> base \<Longrightarrow> base \<le> 16 \<Longrightarrow> d \<in> set (digits_loop num base) \<Longrightarrow> d < 16"
proof (induction num base rule: digits_loop.induct)
  case (1 num base)
  have "num mod base < base" using 1(2) by (intro word_mod_less_divisor) (auto simp: word_gt_0)
  then have "num mod base < 16" using 1(3) by (rule less_le_trans)
  with 1 show ?case by (auto simp: digits_loop.simps [of num base] not_less split: if_splits)
qed

lemma digits_ne: "digits_loop num base \<noteq> []"
  by (subst digits_loop.simps) simp

text \<open>Without padding, a printed number reads back, and does not start with a sign.\<close>

lemma read_printnum:
  assumes "2 \<le> base" "base \<le> 16"
  shows "read_nat (unat base) (printnum num base (- 1) padc) = unat num"
proof -
  let ?ds = "digits_loop num base"
  have "fold (\<lambda>c n. n * unat base + char_digit c) (map digit_char ds) k = fold (\<lambda>d n. n * unat base + unat d) ds k"
    if "\<And>d. d \<in> set ds \<Longrightarrow> d < 16" for ds k
    using that by (induction ds arbitrary: k) (simp_all add: char_digit_char)
  from this [of "rev ?ds" 0] digits_bound [OF assms] digits_value [OF assms(1), of num] show ?thesis
    by (simp add: printnum_def read_nat_def foldr_conv_fold)
qed

lemma printnum_no_sign:
  assumes "2 \<le> base" "base \<le> 16"
  shows "\<exists>c cs. printnum num base (- 1) padc = c # cs \<and> c \<noteq> CHR ''-''"
proof -
  from digits_ne obtain ds d where ds: "digits_loop num base = ds @ [d]" by (metis rev_exhaust)
  with digits_bound [OF assms, of d num] show ?thesis
    by (simp add: printnum_def digit_char_not_minus)
qed

lemma read_conv_d:
  assumes "sp_width sp = - 1"
  shows "map_option read_int (conv_d sp a) =
    (let v = sint (getint (sp_lflag sp) a) in if v = - (2 ^ 63) then None else Some v)"
proof -
  let ?n = "getint (sp_lflag sp) a"
  have neg: "unat (- ?n) = nat (- sint ?n)" if "sint ?n < 0"
  proof -
    have u: "2 ^ 63 \<le> uint ?n" "uint ?n < 2 ^ 64"
      using that uint_bounded [of ?n] by (simp_all add: sint_split split: if_splits)
    then have "(2 ^ 64 - uint ?n) mod 2 ^ 64 = 2 ^ 64 - uint ?n" by (intro mod_pos_pos_trivial) simp_all
    then have "(- uint ?n) mod 2 ^ 64 = 2 ^ 64 - uint ?n" by (simp add: mod_diff_left_eq [symmetric])
    with u show ?thesis by (simp add: sint_split uint_word_ariths(4) unat_eq_nat_uint)
  qed
  have pos: "int (unat ?n) = sint ?n" if "\<not> sint ?n < 0"
    using that uint_bounded [of ?n] by (auto simp: sint_split split: if_splits)
  from printnum_no_sign [of 10 ?n "sp_padc sp"] obtain c cs where
    c: "printnum ?n 10 (- 1) (sp_padc sp) = c # cs" "c \<noteq> CHR ''-''" by auto
  have "sint (push_bit 63 1 :: u64) = - (2 ^ 63)" by simp
  then have "?n = push_bit 63 1 \<longleftrightarrow> sint ?n = - (2 ^ 63)" using signed_word_eqI [of ?n "push_bit 63 1"] by auto
  then show ?thesis
    using read_printnum [of 10] neg pos c read_printnum [of 10 ?n "sp_padc sp"] assms
    by (auto simp: conv_d_def Let_def read_int_def)
qed

text \<open>The line buffer.\<close>

lemma printf_char_step:
  assumes "buf_inv (snd lo)"
  shows "printed (snd (printf_char wr c lo)) = printed (snd lo) @ [c] \<and> buf_inv (snd (printf_char wr c lo)) \<and>
    (c = CHR 0x0A \<longrightarrow> o_buf (snd (printf_char wr c lo)) = [])"
  using assms
  by (auto simp: printf_char_def printbuf_putc_def printbuf_flush_def to_stdout_def printed_def buf_inv_def
      printbuf_size_def Let_def split: prod.splits)

lemma printf_chars:
  "buf_inv (snd lo) \<Longrightarrow>
     printed (snd (fold (printf_char wr) out lo)) = printed (snd lo) @ out \<and>
     buf_inv (snd (fold (printf_char wr) out lo))"
  by (induction out arbitrary: lo) (simp_all add: printf_char_step)

lemma snprintf_chars:
  "length d \<le> room \<Longrightarrow> fold (snprintf_putc room) out d = take room (d @ out)"
proof (induction out arbitrary: d)
  case (Cons c out)
  then show ?case by (cases "length d < room") (auto simp: snprintf_putc_def take_Cons')
qed simp

text \<open>\<open>swprintf\<close> stores at most \<open>n\<close> wide characters, the last of them zero.\<close>

lemma swprintf_bounded:
  assumes "swprintf vsnprintf ws_null n format = (ret, ws, e)" and "ws \<noteq> []"
  shows "length ws \<le> n \<and> last ws = 0"
  using assms by (auto simp: swprintf_def Let_def split: option.splits if_splits prod.splits)

lemma putwc_getwc:
  assumes "putwc (\<lambda>b w. (uint b, w @ [b])) wc w = (r, None, w')"
  shows "getwc (\<lambda>v. (uint (last v), butlast v)) w' = (r, w)"
  using assms by (auto simp: putwc_def getwc_def split: if_splits)

section \<open>Properties\<close>

text \<open>
  C10. Numbers survive printing. What \<open>%ld\<close> prints reads back, as a decimal number with a sign, to
  the argument taken as a signed 64-bit integer, for every argument but the least one, whose negation
  overflows and leaves the code without a defined result; what \<open>%lx\<close> prints reads back in base 16 to the
  argument.
\<close>

theorem printed_number_roundtrip:
  "map_option read_int (vxprintf str ''%ld'' [x]) = (if sint x = - (2 ^ 63) then None else Some (sint x)) \<and>
   map_option (read_nat 16) (vxprintf str ''%lx'' [x]) = Some (unat x)"
proof -
  have l: "flag_step CHR ''l'' sp = Some (sp\<lparr>sp_lflag := sp_lflag sp + 1\<rparr>)"
    "flag_step CHR ''d'' sp = None" "flag_step CHR ''x'' sp = None" for sp
    by (simp_all add: flag_step_def)
  have d: "\<not> is_digit CHR ''d''" "\<not> is_digit CHR ''x''" by (simp_all add: is_digit_def)
  have c: "conversion str fmt sp CHR ''d'' [] [x] = map_option (\<lambda>out. (out, [], [])) (conv_d sp x)"
    "conversion str fmt sp CHR ''x'' [] [x] = Some (conv_u sp 16 x, [], [])" for fmt sp
    by (simp_all add: conversion_def)
  have "vxprintf str ''%ld'' [x] = conv_d (init_spec\<lparr>sp_lflag := 1\<rparr>) x"
    "vxprintf str ''%lx'' [x] = Some (conv_u (init_spec\<lparr>sp_lflag := 1\<rparr>) 16 x)"
    by (simp_all add: l d c init_spec_def option.map_comp comp_def split: option.split)
  then show ?thesis
    using read_conv_d [of "init_spec\<lparr>sp_lflag := 1\<rparr>" x] read_printnum [of 16 x]
    by (simp add: init_spec_def getint_def conv_u_def getuint_def)
qed

text \<open>
  C36. \<open>snprintf\<close> stays in its buffer. With a buffer of \<open>n > 0\<close> bytes it stores the first \<open>n - 1\<close>
  characters of the formatted text and a terminator, never more than \<open>n\<close> bytes, and returns the
  number of characters stored, not the length of the whole text.
\<close>

theorem snprintf_bounded:
  assumes "0 < n" and "vxprintf str fmt args = Some out"
  shows "\<exists>d. wrap_snprintf n str fmt args = Some (d, int (min (n - 1) (length out))) \<and>
    length d \<le> n \<and> d = take (n - 1) out @ [CHR 0x00]"
  using assms by (auto simp: wrap_snprintf_def snprintf_chars Let_def min_def)

theorem snprintf_bounded_witness:
  "wrap_snprintf 4 (\<lambda>a. None) ''x%u'' [12345] = Some (''x12'' @ [CHR 0x00], 3)"
proof -
  have "vxprintf (\<lambda>a. None) ''x%u'' [12345] = Some ''x12345''" by code_simp
  from snprintf_bounded [OF _ this, of 4] show ?thesis by simp
qed

text \<open>
  C18. Every character printed comes out once and in order. Over any \<open>printf\<close> the text written to
  standard output followed by what waits in the line buffer grows by exactly the formatted text, and
  the buffer stays below its size and free of line ends; after a text that ends a line nothing
  waits.
\<close>

theorem printf_output:
  assumes "buf_inv s" and "vxprintf str fmt args = Some out"
  shows "\<exists>len s'. wrap_printf wr str fmt args s = Some (len, s') \<and> printed s' = printed s @ out \<and> buf_inv s' \<and>
    (out \<noteq> [] \<and> last out = CHR 0x0A \<longrightarrow> o_buf s' = [])"
proof -
  obtain len s' where s': "fold (printf_char wr) out (0, s) = (len, s')" by fastforce
  have "o_buf s' = []" if l: "out \<noteq> []" "last out = CHR 0x0A"
  proof -
    obtain xs where xs: "out = xs @ [CHR 0x0A]" using l by (cases out rule: rev_cases) auto
    have "buf_inv (snd (fold (printf_char wr) xs (0, s)))" using printf_chars [of "(0, s)" wr xs] assms(1) by simp
    from printf_char_step [OF this, of wr "CHR 0x0A"] s' xs show ?thesis by simp
  qed
  with s' assms printf_chars [of "(0, s)" wr out] show ?thesis by (simp add: wrap_printf_def)
qed

theorem printf_output_witness:
  "\<exists>len s'. wrap_printf (\<lambda>s w. (int (length s), w + length s)) (\<lambda>a. None) ''n=%d%c'' [7, 10]
      \<lparr>o_buf = ''ab'', o_written = [''x''], o_world = 0\<rparr> = Some (len, s') \<and>
    concat (o_written s') = ''xabn=7'' @ [CHR 0x0A] \<and> o_buf s' = []"
proof -
  have v: "vxprintf (\<lambda>a. None) ''n=%d%c'' [7, 10] = Some (''n=7'' @ [CHR 0x0A])" by code_simp
  have b: "buf_inv \<lparr>o_buf = ''ab'', o_written = [''x''], o_world = 0 :: nat\<rparr>"
    by (simp add: buf_inv_def printbuf_size_def)
  from printf_output [OF b v, of "\<lambda>s w. (int (length s), w + length s)"] show ?thesis
    by (auto simp: printed_def)
qed

end
