(* ===== verification/Kprintf.thy ===== *)
theory Kprintf
  imports Vxprintf
begin

text \<open>
  The console output of the boot ROM, \<open>bootroms/sd-boot/kprintf.c\<close>: the characters passed to
  \<open>kputc\<close>, in order. There is no result for an argument that is missing, an address that is no
  string, and for \<open>%ld\<close> of the least integer, whose negation overflows.
\<close>

definition kputs_text :: "string \<Rightarrow> string" where
  "kputs_text s = s @ [CHR 0x0D, CHR 0x0A]"

text \<open>The nibbles of \<open>n\<close> from bit \<open>4 * k\<close> down.\<close>

fun hex_loop :: "u64 \<Rightarrow> nat \<Rightarrow> string" where
  "hex_loop n k =
     (let d = drop_bit (4 * k) n AND 0xF
      in char_of (if d < 10 then 48 + unat d else 97 + unat d - 10) # (if k = 0 then [] else hex_loop n (k - 1)))"

declare hex_loop.simps [simp del]

text \<open>The digits put into \<open>buf\<close> from its end; \<open>i\<close> bytes are free.\<close>

fun dec_loop :: "nat \<Rightarrow> nat \<Rightarrow> string \<Rightarrow> string" where
  "dec_loop 0 n buf = buf"
| "dec_loop (Suc i) n buf =
     (let buf = char_of (n mod 10 + 48) # buf; n = n div 10 in if n = 0 then buf else dec_loop i n buf)"

definition conv_x :: "bool \<Rightarrow> bool \<Rightarrow> u64 \<Rightarrow> string" where
  "conv_x is_long is_char a =
     (if is_long then hex_loop a 15 else hex_loop (ucast (ucast a :: u32)) (if is_char then 1 else 7))"

definition conv_dec :: "bool \<Rightarrow> u64 \<Rightarrow> string option" where
  "conv_dec is_long a =
     (let n = (if is_long then sint a else sint (ucast a :: u32))
      in if n = - (2 ^ 63) then None
         else if n < 0 then Some (CHR ''-'' # dec_loop 32 (nat (- n)) [])
         else Some (dec_loop 32 (nat n) []))"

definition k_conversion :: "(u64 \<Rightarrow> string option) \<Rightarrow> char \<Rightarrow> bool \<Rightarrow> bool \<Rightarrow> u64 \<Rightarrow> string option" where
  "k_conversion str c is_long is_char a =
     (if c = CHR ''x'' then Some (conv_x is_long is_char a)
      else if c = CHR ''d'' then conv_dec is_long a
      else if c = CHR ''s'' then str a
      else Some [char_of (unat a)])"

fun kprintf_loop :: "(u64 \<Rightarrow> string option) \<Rightarrow> bool \<Rightarrow> bool \<Rightarrow> bool \<Rightarrow> string \<Rightarrow> u64 list \<Rightarrow> string option" where
  "kprintf_loop str is_format is_long is_char [] args = Some []"
| "kprintf_loop str is_format is_long is_char (c # fmt) args =
     (if is_format then
        if c = CHR ''l'' then kprintf_loop str True True is_char fmt args
        else if c = CHR ''h'' then kprintf_loop str True is_long True fmt args
        else if c \<in> set ''xdsc'' then
          (case args of
             [] \<Rightarrow> None
           | a # args \<Rightarrow>
               (case k_conversion str c is_long is_char a of
                  None \<Rightarrow> None
                | Some out \<Rightarrow> map_option ((@) out) (kprintf_loop str False False False fmt args)))
        else kprintf_loop str False False False fmt args
      else if c = CHR ''%'' then kprintf_loop str True is_long is_char fmt args
      else if c = CHR 0x0A then map_option ((@) [CHR 0x0D, CHR 0x0A]) (kprintf_loop str False is_long is_char fmt args)
      else map_option (Cons c) (kprintf_loop str False is_long is_char fmt args))"

definition kprintf :: "(u64 \<Rightarrow> string option) \<Rightarrow> string \<Rightarrow> u64 list \<Rightarrow> string option" where
  "kprintf str fmt args = kprintf_loop str False False False fmt args"

section \<open>Lemmas\<close>

lemma nibble_char: "d < 16 \<Longrightarrow> char_digit (char_of (if d < 10 then 48 + unat d else 97 + unat (d :: u64) - 10)) = unat d"
  by (auto simp: char_digit_def word_less_nat_alt Let_def)

lemma nibble_val: "unat (drop_bit k n AND 0xF :: u64) = unat n div 2 ^ k mod 16"
proof -
  have e: "(0xF :: u64) = mask 4" by (simp add: mask_eq_exp_minus_1)
  have "unat (take_bit 4 (drop_bit k n)) = unat n div 2 ^ k mod 16"
    by (simp only: unsigned_take_bit_eq unsigned_drop_bit_eq)
      (simp add: drop_bit_eq_div take_bit_eq_mod unsigned_less [of n, simplified])
  then show ?thesis unfolding e take_bit_eq_mask .
qed

lemma hex_digit:
  "char_digit (char_of (if drop_bit k n AND 0xF < (10 :: u64) then 48 + unat (drop_bit k n AND 0xF)
      else 97 + unat (drop_bit k n AND 0xF) - 10)) = unat n div 2 ^ k mod 16"
proof -
  have "unat (drop_bit k n AND 0xF) < 16" by (subst nibble_val) simp
  then have "drop_bit k n AND 0xF < 16" by (simp add: word_less_nat_alt)
  from nibble_char [OF this] nibble_val show ?thesis by simp
qed

lemma read_hex_loop:
  "fold (\<lambda>c m. m * 16 + char_digit c) (hex_loop n k) m = m * 16 ^ Suc k + unat n mod 16 ^ Suc k"
proof (induction k arbitrary: m)
  case 0
  show ?case
    by (subst hex_loop.simps, simp only: Let_def fold_simps hex_digit) simp
next
  case (Suc k)
  have p: "(2 :: nat) ^ (4 * Suc k) = 16 ^ Suc k" by (simp only: power_mult) simp
  have "unat n mod 16 ^ Suc (Suc k) = 16 ^ Suc k * (unat n div 16 ^ Suc k mod 16) + unat n mod 16 ^ Suc k"
    using mod_mult2_eq [of "unat n" "16 ^ Suc k" 16] by (simp add: mult.commute)
  moreover have "fold (\<lambda>c m. m * 16 + char_digit c) (hex_loop n (Suc k)) m =
      fold (\<lambda>c m. m * 16 + char_digit c) (hex_loop n k) (m * 16 + unat n div 16 ^ Suc k mod 16)"
    by (subst hex_loop.simps) (simp add: Let_def hex_digit p [symmetric] del: power_Suc mult_Suc_right)
  ultimately show ?case unfolding Suc by (simp add: algebra_simps)
qed

text \<open>A \<open>long\<close> printed with \<open>%lx\<close> has sixteen digits and reads back.\<close>

lemma hex_loop_length: "length (hex_loop n k) = Suc k"
  by (induction k) (subst hex_loop.simps, simp add: Let_def)+

lemma kprintf_lx:
  "\<exists>s. kprintf str ''%lx'' [x] = Some s \<and> length s = 16 \<and> read_nat 16 s = unat x"
proof -
  have "unat x < 16 ^ 16" using unsigned_less [of x] by simp
  then have "read_nat 16 (hex_loop x 15) = unat x" by (simp add: read_nat_def read_hex_loop)
  then show ?thesis by (simp add: kprintf_def k_conversion_def conv_x_def hex_loop_length)
qed

end
