(* ===== verification/Bootrom.thy ===== *)
theory Bootrom
  imports Uart Boot_Sdc Kprintf
begin

text \<open>
  The boot loader of \<open>bootroms/sd-boot/bootrom.c\<close> (RV64): it reads \<open>BOOT.ELF\<close> from the card, loads
  its segments, puts the device tree below the scratch area at the top of RAM and jumps to the
  entry. FatFs is a parameter, as are the addresses the build generates. Segments that fall on the
  memory the boot ROM itself runs from go to the scratch area and are moved by the last
  instructions.
\<close>

section \<open>Data\<close>

definition ERR_EOF :: u32 where "ERR_EOF = 30"
definition ERR_NOT_ELF :: u32 where "ERR_NOT_ELF = 31"
definition ERR_ELF_BITS :: u32 where "ERR_ELF_BITS = 32"
definition ERR_ELF_ENDIANNESS :: u32 where "ERR_ELF_ENDIANNESS = 33"
definition ERR_SEGMENT_ADDR :: u32 where "ERR_SEGMENT_ADDR = 39"
definition PT_LOAD :: u32 where "PT_LOAD = 1"

text \<open>The generated addresses and the device tree in the ROM.\<close>

record plat =
  mem_base :: u64
  ext_mem_size :: u64
  mem_end :: u64
  mem_alt :: u64
  rom_dtb :: "u8 list"

text \<open>FatFs with the one file the loader opens; \<open>ft_read\<close> gives the result code and the bytes read.\<close>

record 'f fat =
  ft_mount :: "'f \<Rightarrow> u32 \<times> 'f"
  ft_open :: "string \<Rightarrow> 'f \<Rightarrow> u32 \<times> 'f"
  ft_read :: "u32 \<Rightarrow> 'f \<Rightarrow> (u32 \<times> u8 list) \<times> 'f"
  ft_lseek :: "u64 \<Rightarrow> 'f \<Rightarrow> u32 \<times> 'f"
  ft_tell :: "'f \<Rightarrow> u64"
  ft_close :: "'f \<Rightarrow> u32 \<times> 'f"
  ft_is_open :: "'f \<Rightarrow> bool"

record 'f boot =
  b_errno :: u32
  b_fs :: 'f
  b_mem :: "u64 \<Rightarrow> u8"
  b_alt_mem :: bool
  b_out :: string

definition set_err :: "u32 \<Rightarrow> 'f boot \<Rightarrow> 'f boot" where
  "set_err e s = s\<lparr>b_errno := e\<rparr>"

definition errno_to_str :: "u32 \<Rightarrow> string" where
  "errno_to_str e =
     (if e = 0 then ''No error'' else if e = 1 then ''Disk I/O error'' else if e = 2 then ''Assertion failed''
      else if e = 3 then ''Disk not ready'' else if e = 4 then ''File not found'' else if e = 5 then ''Path not found''
      else if e = 6 then ''Invalid path'' else if e = 7 then ''Access denied'' else if e = 8 then ''Already exist''
      else if e = 9 then ''Invalid FS object'' else if e = 11 then ''Invalid drive number''
      else if e = 12 then ''No work area'' else if e = 13 then ''Invalid FAT volume'' else if e = 15 then ''Timeout''
      else if e = 17 then ''Not enough memory'' else if e = 18 then ''Too many open files''
      else if e = 30 then ''Unexpected EOF'' else if e = 31 then ''Not an ELF file''
      else if e = 32 then ''Wrong ELF word size'' else if e = 33 then ''Wrong ELF endianness''
      else if e = 34 then ''Command CRC error'' else if e = 35 then ''Command code check error''
      else if e = 36 then ''Data CRC error'' else if e = 37 then ''Data FIFO error''
      else if e = 38 then ''Bad buffer alignment''
      else if e = 39 then ''Load address outside RAM - not a loadable application ELF''
      else ''Unknown error'')"

section \<open>File access\<close>

text \<open>\<open>errno = f_read(...)\<close> and \<open>errno = f_lseek(...)\<close>.\<close>

definition do_read :: "'f fat \<Rightarrow> u32 \<Rightarrow> 'f boot \<Rightarrow> u8 list \<times> 'f boot" where
  "do_read F n s = (case ft_read F n (b_fs s) of ((e, bs), f) \<Rightarrow> (bs, s\<lparr>b_errno := e, b_fs := f\<rparr>))"

definition do_lseek :: "'f fat \<Rightarrow> u64 \<Rightarrow> 'f boot \<Rightarrow> 'f boot" where
  "do_lseek F pos s = (case ft_lseek F pos (b_fs s) of (e, f) \<Rightarrow> s\<lparr>b_errno := e, b_fs := f\<rparr>)"

definition le_value :: "u8 list \<Rightarrow> u64" where
  "le_value bs = fold (\<lambda>n v. v OR push_bit (n * 8) (ucast (bs ! n))) [0..<length bs] 0"

definition read_num :: "'f fat \<Rightarrow> nat \<Rightarrow> 'f boot \<Rightarrow> u64 \<times> 'f boot" where
  "read_num F n s =
     (if b_errno s \<noteq> 0 then (0, s)
      else case do_read F (of_nat n) s of
        (bs, s) \<Rightarrow>
          if b_errno s \<noteq> 0 then (0, s)
          else if length bs < n then (0, set_err ERR_EOF s)
          else (le_value (take n bs), s))"

record elf_header =
  entry_addr :: u64
  phoff :: u64
  phentsize :: u16
  phnum :: u16

definition read_elf_header :: "'f fat \<Rightarrow> 'f boot \<Rightarrow> elf_header option \<times> 'f boot" where
  "read_elf_header F s =
     (case do_read F 6 s of
        (buf, s) \<Rightarrow>
          if b_errno s \<noteq> 0 then (None, s)
          else if length buf < 6 then (None, set_err ERR_EOF s)
          else if take 4 buf \<noteq> [0x7F, 0x45, 0x4C, 0x46] then (None, set_err ERR_NOT_ELF s)
          else if buf ! 4 \<noteq> 2 then (None, set_err ERR_ELF_BITS s)
          else if buf ! 5 \<noteq> 1 then (None, set_err ERR_ELF_ENDIANNESS s)
          else case read_num F 8 (do_lseek F 24 s) of
            (entry, s) \<Rightarrow>
              case read_num F 8 s of
                (off, s) \<Rightarrow>
                  if b_errno s \<noteq> 0 then (None, s)
                  else case read_num F 2 (do_lseek F (ft_tell F (b_fs s) + 8 + 6) s) of
                    (ents, s) \<Rightarrow>
                      case read_num F 2 s of
                        (num, s) \<Rightarrow>
                          if b_errno s \<noteq> 0 then (None, s)
                          else (Some \<lparr>entry_addr = entry, phoff = off, phentsize = ucast ents, phnum = ucast num\<rparr>, s))"

record phdr =
  p_offset :: u64
  p_vaddr :: u64
  p_filesz :: u64
  p_memsz :: u64

text \<open>One program header: an error, a header to skip, or a segment to load.\<close>

datatype phdr_result = Ph_error | Ph_skip | Ph_load phdr

definition read_phdr :: "'f fat \<Rightarrow> elf_header \<Rightarrow> nat \<Rightarrow> 'f boot \<Rightarrow> phdr_result \<times> 'f boot" where
  "read_phdr F h i s =
     (case read_num F 4 (do_lseek F (phoff h + ucast (of_nat i * ucast (phentsize h) :: u32)) s) of
        (ty, s) \<Rightarrow>
          if b_errno s \<noteq> 0 then (Ph_error, s)
          else if ucast ty \<noteq> PT_LOAD then (Ph_skip, s)
          else case read_num F 8 (do_lseek F (ft_tell F (b_fs s) + 4) s) of
            (off, s) \<Rightarrow>
              case read_num F 8 s of
                (va, s) \<Rightarrow>
                  case read_num F 8 s of
                    (pa, s) \<Rightarrow>
                      case read_num F 8 s of
                        (fsz, s) \<Rightarrow>
                          case read_num F 8 s of
                            (msz, s) \<Rightarrow>
                              if b_errno s \<noteq> 0 then (Ph_error, s)
                              else (Ph_load \<lparr>p_offset = off, p_vaddr = va, p_filesz = fsz, p_memsz = msz\<rparr>, s))"

section \<open>Loading\<close>

text \<open>Where a chunk of at most \<open>n\<close> bytes for \<open>addr\<close> goes, its size, and whether it was redirected.\<close>

definition chunk :: "plat \<Rightarrow> u64 \<Rightarrow> u64 \<Rightarrow> u64 \<times> u64 \<times> bool" where
  "chunk P addr n =
     (if addr + n > mem_base P \<and> addr < mem_end P
      then (addr - mem_base P + mem_alt P, if addr + n > mem_end P then mem_end P - addr else n, True)
      else (addr, n, False))"

definition clip_size :: "u64 \<Rightarrow> u64 \<Rightarrow> u64" where
  "clip_size n limit = (if n > limit then limit else n)"

text \<open>A chunk is never empty and never larger than asked for, so that the loops below make progress.\<close>

lemma clip_size_bounds: "0 < n \<Longrightarrow> 0 < limit \<Longrightarrow> 0 < clip_size n limit \<and> clip_size n limit \<le> n \<and> clip_size n limit \<le> limit"
  by (auto simp: clip_size_def)

lemma sub_pos: "a < b \<Longrightarrow> 0 < b - (a :: u64)"
  by (auto simp: word_gt_0)

lemma ucast_pos: "r \<noteq> 0 \<Longrightarrow> 0 < (ucast (r :: u32) :: u64)"
  by (simp add: word_less_nat_alt unat_gt_0 unat_ucast_up)

lemma request_bounds:
  assumes "pos < filesz" "pos < memsz" "n = clip_size (clip_size 0x10000 (filesz - pos)) (memsz - pos)"
  shows "0 < n" "n \<le> memsz - pos" "n \<le> filesz - pos" "n \<le> 0x10000"
proof -
  have c: "0 < clip_size 0x10000 (filesz - pos)" "clip_size 0x10000 (filesz - pos) \<le> filesz - pos"
    "clip_size 0x10000 (filesz - pos) \<le> 0x10000"
    using clip_size_bounds [of "0x10000" "filesz - pos"] sub_pos [OF assms(1)] by simp_all
  with clip_size_bounds [OF c(1) sub_pos [OF assms(2)]] assms(3)
  show "0 < n" "n \<le> memsz - pos" "n \<le> filesz - pos" "n \<le> 0x10000" by auto
qed

lemma chunk_bounds:
  assumes "chunk P addr n = (mem, m, alt)" and "0 < n"
  shows "0 < m \<and> m \<le> n"
proof (cases "addr + n > mem_base P \<and> addr < mem_end P \<and> addr + n > mem_end P")
  case True
  then have m: "m = mem_end P - addr" using assms(1) by (auto simp: chunk_def)
  from True have "0 < mem_end P - addr" by (simp add: sub_pos)
  moreover have "mem_end P - addr \<le> n" using True by unat_arith
  ultimately show ?thesis using m by simp
next
  case False
  then show ?thesis using assms by (auto simp: chunk_def split: if_splits)
qed

lemma progress:
  assumes "pos < (memsz :: u64)" and "0 < c" and "c \<le> memsz - pos"
  shows "unat (memsz - (pos + c)) < unat (memsz - pos)"
proof -
  have "c \<noteq> 0" using assms(2) by auto
  with word_sub_decreases [of c "memsz - pos"] assms(3) show ?thesis by (simp add: algebra_simps)
qed

text \<open>The copy loop of a segment: success, the next address and position.\<close>

function load_loop :: "'f fat \<Rightarrow> plat \<Rightarrow> u64 \<Rightarrow> u64 \<Rightarrow> u64 \<Rightarrow> u64 \<Rightarrow> 'f boot \<Rightarrow> bool \<times> u64 \<times> u64 \<times> 'f boot" where
  "load_loop F P filesz memsz addr pos s =
     (if pos < filesz \<and> pos < memsz then
        let n = clip_size (clip_size 0x10000 (filesz - pos)) (memsz - pos)
        in case chunk P addr n of
             (mem, n, alt) \<Rightarrow>
               case do_read F (ucast n) (s\<lparr>b_alt_mem := b_alt_mem s \<or> alt\<rparr>) of
                 (bs, s) \<Rightarrow>
                   let s = s\<lparr>b_mem := store mem bs (b_mem s)\<rparr>;
                       rd = of_nat (length bs) :: u32
                   in if b_errno s \<noteq> 0 then (False, addr, pos, s)
                      else if rd = 0 then (False, addr, pos, set_err ERR_EOF s)
                      else load_loop F P filesz memsz (addr + clip_size n (ucast rd)) (pos + clip_size n (ucast rd)) s
      else (True, addr, pos, s))"
  by pat_completeness auto

termination
proof (relation "measure (\<lambda>(_, _, _, memsz, _, pos, _). unat (memsz - pos))", rule wf_measure)
  fix F :: "'f fat" and P filesz memsz addr pos n mem m alt and rd :: u32
    and q bs s s' s'' and cl :: "u64 \<times> bool"
  assume a: "pos < filesz \<and> pos < memsz" "n = clip_size (clip_size 0x10000 (filesz - pos)) (memsz - pos)"
    "(mem, cl) = chunk P addr n" "(m, alt) = cl" "rd \<noteq> 0"
  have "0 < n \<and> n \<le> memsz - pos" using request_bounds [OF _ _ a(2)] a(1) by simp
  moreover from this have "0 < m \<and> m \<le> n" using a(3,4) chunk_bounds [of P addr n mem m alt] by simp
  moreover from this have "0 < clip_size m (ucast rd) \<and> clip_size m (ucast rd) \<le> m"
    using clip_size_bounds [of m "ucast rd"] ucast_pos [OF a(5)] by simp
  ultimately show "((F, P, filesz, memsz, addr + clip_size m (ucast rd), pos + clip_size m (ucast rd), s''), F, P, filesz, memsz, addr, pos, s)
      \<in> measure (\<lambda>(_, _, _, memsz, _, pos, _). unat (memsz - pos))"
    using a(1) progress [of pos memsz "clip_size m (ucast rd)"] by auto
qed

declare load_loop.simps [simp del]

text \<open>The loop that clears the rest of a segment.\<close>

function zero_loop :: "plat \<Rightarrow> u64 \<Rightarrow> u64 \<Rightarrow> u64 \<Rightarrow> 'f boot \<Rightarrow> 'f boot" where
  "zero_loop P memsz addr pos s =
     (if pos < memsz then
        case chunk P addr (clip_size 0x10000 (memsz - pos)) of
          (mem, n, alt) \<Rightarrow>
            zero_loop P memsz (addr + n) (pos + n)
              (s\<lparr>b_alt_mem := b_alt_mem s \<or> alt, b_mem := store mem (replicate (unat n) 0) (b_mem s)\<rparr>)
      else s)"
  by pat_completeness auto
termination
proof (relation "measure (\<lambda>(_, memsz, _, pos, _). unat (memsz - pos))", rule wf_measure)
  fix P memsz addr pos mem n alt and cl :: "u64 \<times> bool" and s s' :: "'f boot"
  assume a: "pos < memsz" "(mem, cl) = chunk P addr (clip_size 0x10000 (memsz - pos))" "(n, alt) = cl"
  have "0 < clip_size 0x10000 (memsz - pos) \<and> clip_size 0x10000 (memsz - pos) \<le> memsz - pos"
    using clip_size_bounds [of "0x10000" "memsz - pos"] sub_pos [OF a(1)] by simp
  moreover from this have "0 < n \<and> n \<le> clip_size 0x10000 (memsz - pos)"
    using a(2,3) chunk_bounds [of P addr _ mem n alt] by simp
  ultimately show "((P, memsz, addr + n, pos + n, s'), P, memsz, addr, pos, s)
      \<in> measure (\<lambda>(_, memsz, _, pos, _). unat (memsz - pos))"
    using a(1) progress [of pos memsz n] by auto
qed

declare zero_loop.simps [simp del]

text \<open>The address check of a segment, and the segment; \<open>False\<close> is the return of \<open>-1\<close>.\<close>

definition segment_ok :: "plat \<Rightarrow> phdr \<Rightarrow> bool" where
  "segment_ok P ph \<longleftrightarrow>
     \<not> (p_vaddr ph < mem_base P \<or> p_vaddr ph + p_memsz ph > mem_base P + ext_mem_size P)"

definition load_segment :: "'f fat \<Rightarrow> plat \<Rightarrow> phdr \<Rightarrow> 'f boot \<Rightarrow> bool \<times> 'f boot" where
  "load_segment F P ph s =
     (let s = do_lseek F (p_offset ph) s
      in if b_errno s \<noteq> 0 then (False, s)
         else case load_loop F P (p_filesz ph) (p_memsz ph) (p_vaddr ph) 0 s of
           (ok, addr, pos, s) \<Rightarrow>
             if \<not> ok then (False, s) else (True, zero_loop P (p_memsz ph) addr pos s))"

text \<open>The loop over the program headers, with \<open>load_end\<close>.\<close>

fun load_segments :: "'f fat \<Rightarrow> plat \<Rightarrow> elf_header \<Rightarrow> nat list \<Rightarrow> u64 \<Rightarrow> 'f boot \<Rightarrow> u64 option \<times> 'f boot" where
  "load_segments F P h [] load_end s = (Some load_end, s)"
| "load_segments F P h (i # is) load_end s =
     (case read_phdr F h i s of
        (Ph_error, s) \<Rightarrow> (None, s)
      | (Ph_skip, s) \<Rightarrow> load_segments F P h is load_end s
      | (Ph_load ph, s) \<Rightarrow>
          if \<not> segment_ok P ph then (None, set_err ERR_SEGMENT_ADDR s)
          else case load_segment F P ph s of
            (False, s) \<Rightarrow> (None, s)
          | (True, s) \<Rightarrow>
              load_segments F P h is
                (if p_vaddr ph + p_memsz ph > load_end then p_vaddr ph + p_memsz ph else load_end) s)"

section \<open>The device tree\<close>

definition dtb_dst :: "plat \<Rightarrow> u64" where
  "dtb_dst P = (mem_alt P - of_nat (length (rom_dtb P)) - 0x1000) AND NOT 0xFFF"

definition be_total :: "(u64 \<Rightarrow> u8) \<Rightarrow> u64 \<Rightarrow> u32" where
  "be_total m h = push_bit 24 (ucast (m h)) OR push_bit 16 (ucast (m (h + 1))) OR
     push_bit 8 (ucast (m (h + 2))) OR ucast (m (h + 3))"

definition place_dtb :: "plat \<Rightarrow> u64 \<Rightarrow> 'f boot \<Rightarrow> u64 option \<times> 'f boot" where
  "place_dtb P load_end s =
     (let dst = dtb_dst P
      in if load_end < mem_base P \<or> load_end > dst then (None, set_err ERR_SEGMENT_ADDR s)
         else
           let m = store dst (rom_dtb P) (b_mem s);
               total = be_total m (dst + 4);
               m = store (dst + ucast total) (replicate 0x1000 0) m;
               total = total + 0x1000;
               m = store (dst + 4) [ucast (drop_bit 24 total), ucast (drop_bit 16 total), ucast (drop_bit 8 total), ucast total] m
           in (Some dst, s\<lparr>b_mem := m\<rparr>))"

section \<open>Jump\<close>

text \<open>
  The relocation loop of the assembly: eight bytes at a time from the scratch area to the start of
  RAM until the end is met exactly.
\<close>

definition relocate :: "plat \<Rightarrow> (u64 \<Rightarrow> u8) \<Rightarrow> (u64 \<Rightarrow> u8) option" where
  "relocate P m =
     (let n = mem_end P - mem_base P
      in if n = 0 \<or> n mod 8 \<noteq> 0 then None
         else Some (fold (\<lambda>i m. store (mem_base P + of_nat (8 * i)) (buffer_at m (mem_alt P + of_nat (8 * i)) 8) m)
                     [0..<unat n div 8] m))"

datatype boot_exit = Return | Jump u64 u64

text \<open>\<open>download\<close>: it returns \<open>-1\<close>, or jumps to the entry with the tree's address in \<open>a1\<close>.\<close>

definition download :: "'f fat \<Rightarrow> plat \<Rightarrow> 'f boot \<Rightarrow> (boot_exit \<times> 'f boot) option" where
  "download F P s =
     (case ft_open F ''BOOT.ELF'' (b_fs s) of
        (e, f) \<Rightarrow>
          let s = s\<lparr>b_errno := e, b_fs := f\<rparr>
          in if e \<noteq> 0 then Some (Return, s)
             else case read_elf_header F s of
               (None, s) \<Rightarrow> Some (Return, s)
             | (Some h, s) \<Rightarrow>
                 case load_segments F P h [0..<unat (phnum h)] 0 s of
                   (None, s) \<Rightarrow> Some (Return, s)
                 | (Some load_end, s) \<Rightarrow>
                     case ft_close F (b_fs s) of
                       (e, f) \<Rightarrow>
                         let s = s\<lparr>b_errno := e, b_fs := f\<rparr>
                         in if e \<noteq> 0 then Some (Return, s)
                            else case place_dtb P load_end s of
                              (None, s) \<Rightarrow> Some (Return, s)
                            | (Some dtb, s) \<Rightarrow> do {
                                out \<leftarrow> kprintf (\<lambda>a. None) (''DTB at 0x%lx'' @ [CHR 0x0A]) [dtb];
                                let s = s\<lparr>b_out := b_out s @ out\<rparr>;
                                m \<leftarrow> (if b_alt_mem s then relocate P (b_mem s) else Some (b_mem s));
                                Some (Jump (entry_addr h) dtb, s\<lparr>b_mem := m\<rparr>) })"

text \<open>
  One round of the endless loop of \<open>main\<close>; the drive status it resets belongs to the driver. A
  format string with \<open>%s\<close> is printed with the text in place.
\<close>

definition boot_round :: "'f fat \<Rightarrow> plat \<Rightarrow> 'f boot \<Rightarrow> (boot_exit \<times> 'f boot) option" where
  "boot_round F P s =
     (let s = s\<lparr>b_out := b_out s @ kputs_text [] @ ''RISC-V 64, Boot ROM V3.9'' @ [CHR 0x0D, CHR 0x0A]\<rparr>
      in case ft_mount F (b_fs s) of
           (e, f) \<Rightarrow> do {
             let s = s\<lparr>b_errno := e, b_fs := f\<rparr>;
             (x, s) \<leftarrow>
               (if e \<noteq> 0
                then Some (Return, s\<lparr>b_out := b_out s @ ''Cannot mount SD: '' @ errno_to_str e @ [CHR 0x0D, CHR 0x0A]\<rparr>)
                else do {
                  (x, s) \<leftarrow> download F P s;
                  Some (x, if x = Return
                           then s\<lparr>b_out := b_out s @ ''Cannot read BOOT.ELF: '' @ errno_to_str (b_errno s) @ [CHR 0x0D, CHR 0x0A]\<rparr>
                           else s) });
             Some (x, if x = Return \<and> ft_is_open F (b_fs s) then s\<lparr>b_fs := snd (ft_close F (b_fs s))\<rparr> else s) })"

section \<open>Specification\<close>

text \<open>Where the byte for address \<open>a\<close> is put until the jump.\<close>

definition place :: "plat \<Rightarrow> u64 \<Rightarrow> u64" where
  "place P a = (if a < mem_end P then a - mem_base P + mem_alt P else a)"

text \<open>A segment that starts in RAM and ends below the scratch area, which itself does not wrap.\<close>

definition seg_fits :: "plat \<Rightarrow> u64 \<Rightarrow> u64 \<Rightarrow> bool" where
  "seg_fits P va msz \<longleftrightarrow>
     mem_base P \<le> va \<and> mem_base P \<le> mem_end P \<and> unat va + unat msz \<le> unat (mem_alt P) \<and>
     unat (mem_alt P) + unat (mem_end P - mem_base P) \<le> 2 ^ 64"

text \<open>
  The bytes \<open>lo\<close> to \<open>hi\<close> of a segment at \<open>va\<close> hold \<open>g\<close>, and all other memory is as before.
\<close>

definition filled :: "plat \<Rightarrow> u64 \<Rightarrow> nat \<Rightarrow> nat \<Rightarrow> (nat \<Rightarrow> u8) \<Rightarrow> (u64 \<Rightarrow> u8) \<Rightarrow> (u64 \<Rightarrow> u8) \<Rightarrow> bool" where
  "filled P va lo hi g m m' \<longleftrightarrow>
     (\<forall>k. lo \<le> k \<and> k < hi \<longrightarrow> m' (place P (va + of_nat k)) = g k) \<and>
     (\<forall>a. (\<forall>k. lo \<le> k \<and> k < hi \<longrightarrow> a \<noteq> place P (va + of_nat k)) \<longrightarrow> m' a = m a)"

text \<open>FatFs reads and seeks in a file with contents \<open>c\<close> without errors.\<close>

definition file_holds :: "'f fat \<Rightarrow> u8 list \<Rightarrow> bool" where
  "file_holds F c \<longleftrightarrow> length c < 2 ^ 63 \<and>
     (\<forall>n f. \<exists>f'. let bs = take (unat n) (drop (unat (ft_tell F f)) c)
       in ft_read F n f = ((0, bs), f') \<and> ft_tell F f' = ft_tell F f + of_nat (length bs)) \<and>
     (\<forall>p f. unat p \<le> length c \<longrightarrow> (\<exists>f'. ft_lseek F p f = (0, f') \<and> ft_tell F f' = p))"

text \<open>The total size in the header of a device tree blob, and the blob with another one.\<close>

definition be_bytes :: "u32 \<Rightarrow> u8 list" where
  "be_bytes x = [ucast (drop_bit 24 x), ucast (drop_bit 16 x), ucast (drop_bit 8 x), ucast x]"

definition dtb_total :: "u8 list \<Rightarrow> u32" where
  "dtb_total b = push_bit 24 (ucast (b ! 4)) OR push_bit 16 (ucast (b ! 5)) OR push_bit 8 (ucast (b ! 6)) OR ucast (b ! 7)"

definition with_total :: "u32 \<Rightarrow> u8 list \<Rightarrow> u8 list" where
  "with_total x b = take 4 b @ be_bytes x @ drop 8 b"

text \<open>A file held in memory, and a small platform.\<close>

definition list_file :: "u8 list \<Rightarrow> u64 fat" where
  "list_file c = \<lparr>ft_mount = (\<lambda>f. (0, f)), ft_open = (\<lambda>n f. (0, 0)),
     ft_read = (\<lambda>n f. let bs = take (unat n) (drop (unat f) c) in ((0, bs), f + of_nat (length bs))),
     ft_lseek = (\<lambda>p f. (0, p)), ft_tell = (\<lambda>f. f), ft_close = (\<lambda>f. (0, f)), ft_is_open = (\<lambda>f. True)\<rparr>"

definition demo_plat :: plat where
  "demo_plat = \<lparr>mem_base = 0x80000000, ext_mem_size = 0x10000000, mem_end = 0x80008000, mem_alt = 0x8FFF6000,
     rom_dtb = [0xD0, 0x0D, 0xFE, 0xED, 0, 0, 0, 10, 7, 7]\<rparr>"

definition demo_boot :: "u64 boot" where
  "demo_boot = \<lparr>b_errno = 0, b_fs = 0, b_mem = (\<lambda>a. 0xAA), b_alt_mem = False, b_out = []\<rparr>"

section \<open>Lemmas\<close>

lemma unat_offset: "unat (a :: u64) + k < 2 ^ 64 \<Longrightarrow> unat (a + of_nat k) = unat a + k"
  by (simp add: unat_word_ariths unat_of_nat mod_simps)

lemma unat_u64: "unat (x :: u64) < 2 ^ 64"
  using unsigned_less [of x] by simp

lemma store_at: "j < length bs \<Longrightarrow> length bs \<le> 2 ^ 64 \<Longrightarrow> store mem bs m (mem + of_nat j) = bs ! j"
  by (simp add: store_def unat_of_nat)

lemma store_other:
  assumes "\<And>j. j < length bs \<Longrightarrow> a \<noteq> mem + of_nat j"
  shows "store mem bs m a = m a"
proof -
  have "\<not> unat (a - mem) < length bs" using assms [of "unat (a - mem)"] by auto
  then show ?thesis by (simp add: store_def)
qed

lemma place_chunk:
  assumes f: "seg_fits P va msz" and c: "chunk P (va + of_nat k) n = (mem, m, alt)"
    and n: "0 < n" "k + unat n \<le> unat msz" and j: "j < unat m"
  shows "place P (va + of_nat (k + j)) = mem + of_nat j"
proof -
  let ?a = "va + of_nat k"
  have lt: "unat va + unat msz < 2 ^ 64"
    using f unat_u64 [of "mem_alt P"] unfolding seg_fits_def by linarith
  have m: "unat m \<le> unat n" using chunk_bounds [OF c n(1)] by (simp add: word_le_nat_alt)
  have a: "unat ?a = unat va + k" using unat_offset [of va k] lt n j m by simp
  have aj: "unat (va + of_nat (k + j)) = unat va + k + j"
    using unat_offset [of va "k + j"] lt n j m by simp
  have an: "unat (?a + n) = unat va + k + unat n"
    using unat_offset [of ?a "unat n"] a lt n by simp
  have base: "mem_base P < ?a + n"
    using f n an by (simp add: seg_fits_def word_less_nat_alt word_le_nat_alt)
  show ?thesis
  proof (cases "?a < mem_end P")
    case True
    then have "mem = ?a - mem_base P + mem_alt P" "m = (if ?a + n > mem_end P then mem_end P - ?a else n)"
      using c base by (auto simp: chunk_def)
    moreover have "va + of_nat (k + j) < mem_end P"
      using True j an a aj m calculation(2)
      by (auto simp: word_less_nat_alt unat_sub word_le_nat_alt not_less split: if_splits)
    ultimately show ?thesis by (simp add: place_def algebra_simps)
  next
    case False
    then have "mem = ?a" using c by (simp add: chunk_def)
    moreover have "\<not> va + of_nat (k + j) < mem_end P" using False a aj by (simp add: word_less_nat_alt)
    ultimately show ?thesis by (simp add: place_def algebra_simps)
  qed
qed

lemma place_arith:
  fixes v k k' e b a z :: nat
  assumes "(if v + k < e then v + k - b + a else v + k) = (if v + k' < e then v + k' - b + a else v + k')"
    and "b \<le> v" "v + z \<le> a" "k < z" "k' < z"
  shows "k = k'"
  using assms by (auto split: if_splits)

lemma place_inj:
  assumes f: "seg_fits P va msz" and k: "k < unat msz" "k' < unat msz"
    and e: "place P (va + of_nat k) = place P (va + of_nat k')"
  shows "k = k'"
proof -
  have lt: "unat va + unat msz < 2 ^ 64"
    using f unat_u64 [of "mem_alt P"] unfolding seg_fits_def by linarith
  have p: "unat (place P (va + of_nat i)) = (if unat va + i < unat (mem_end P)
      then unat va + i - unat (mem_base P) + unat (mem_alt P) else unat va + i)" if "i < unat msz" for i
  proof -
    have u: "unat (va + of_nat i) = unat va + i" using unat_offset lt that by simp
    have b: "mem_base P \<le> va + of_nat i" using f u by (simp add: seg_fits_def word_le_nat_alt)
    have "unat (va + of_nat i - mem_base P + mem_alt P) = unat va + i - unat (mem_base P) + unat (mem_alt P)"
      if "unat va + i < unat (mem_end P)"
    proof -
      have x: "unat (va + of_nat i - mem_base P) = unat va + i - unat (mem_base P)"
        using b u by (simp add: unat_sub)
      moreover have "unat (mem_end P - mem_base P) = unat (mem_end P) - unat (mem_base P)"
        using f by (simp add: unat_sub seg_fits_def)
      ultimately have "unat (mem_alt P) + unat (va + of_nat i - mem_base P) < 2 ^ 64"
        using that f unfolding seg_fits_def word_le_nat_alt by linarith
      from unat_offset [OF this] have "unat (va + of_nat i - mem_base P + mem_alt P) =
          unat (mem_alt P) + unat (va + of_nat i - mem_base P)"
        by (simp add: add.commute del: unat_sub)
      with x show ?thesis by simp
    qed
    then show ?thesis using u by (simp add: place_def word_less_nat_alt)
  qed
  have q: "unat (place P (va + of_nat k)) = unat (place P (va + of_nat k'))" using e by simp
  have b: "unat (mem_base P) \<le> unat va" "unat va + unat msz \<le> unat (mem_alt P)"
    using f by (simp_all add: seg_fits_def word_le_nat_alt)
  show ?thesis
    using q unfolding p [OF k(1)] p [OF k(2)] by (rule place_arith) (fact b k)+
qed

lemma filled_store:
  assumes "seg_fits P va msz" and "chunk P (va + of_nat k) n = (mem, m, alt)" and "0 < n"
    and "k + unat n \<le> unat msz" and "length bs = unat m"
  shows "filled P va k (k + unat m) (\<lambda>i. bs ! (i - k)) w (store mem bs w)"
proof -
  note pc = place_chunk [OF assms(1-4)]
  have len: "length bs \<le> 2 ^ 64" using assms(5) unat_u64 [of m] by simp
  have p: "place P (va + of_nat i) = mem + of_nat (i - k)" if "k \<le> i" "i < k + unat m" for i
    using pc [of "i - k"] that by simp
  have o: "(\<exists>i. k \<le> i \<and> i < k + unat m \<and> a = place P (va + of_nat i))" if "j < length bs" "a = mem + of_nat j" for a j
    using p [of "k + j"] that assms(5) by (intro exI [of _ "k + j"]) simp
  show ?thesis
    unfolding filled_def
  proof (intro conjI allI impI)
    fix i assume i: "k \<le> i \<and> i < k + unat m"
    show "store mem bs w (place P (va + of_nat i)) = bs ! (i - k)"
      using i assms(5) len by (simp only: p) (rule store_at, auto)
  next
    fix a assume "\<forall>i. k \<le> i \<and> i < k + unat m \<longrightarrow> a \<noteq> place P (va + of_nat i)"
    then show "store mem bs w a = w a" using o by (intro store_other) blast
  qed
qed

lemma filled_trans:
  assumes "seg_fits P va msz" and "filled P va lo mid g w w1" and "filled P va mid hi g w1 w2"
    and "lo \<le> mid" "mid \<le> hi" "hi \<le> unat msz"
  shows "filled P va lo hi g w w2"
  unfolding filled_def
proof (intro conjI allI impI)
  fix k assume k: "lo \<le> k \<and> k < hi"
  show "w2 (place P (va + of_nat k)) = g k"
  proof (cases "k < mid")
    case True
    have "place P (va + of_nat k) \<noteq> place P (va + of_nat i)" if "mid \<le> i \<and> i < hi" for i
      using place_inj [OF assms(1), of k i] True that k assms(6) by auto
    then have "w2 (place P (va + of_nat k)) = w1 (place P (va + of_nat k))"
      using assms(3) by (simp add: filled_def)
    then show ?thesis using assms(2) True k by (simp add: filled_def)
  qed (use assms(3) k in \<open>simp add: filled_def\<close>)
next
  fix a assume a: "\<forall>k. lo \<le> k \<and> k < hi \<longrightarrow> a \<noteq> place P (va + of_nat k)"
  then have "w2 a = w1 a" "w1 a = w a" using assms(2-5) by (auto simp: filled_def)
  then show "w2 a = w a" by simp
qed

lemma filled_cong: "(\<And>k. lo \<le> k \<Longrightarrow> k < hi \<Longrightarrow> g k = h k) \<Longrightarrow> filled P va lo hi g w w' \<Longrightarrow> filled P va lo hi h w w'"
  by (simp add: filled_def)

lemma filled_refl: "filled P va k k g w w"
  by (auto simp: filled_def)

lemma load_loop_fills:
  assumes F: "file_holds F c" and P: "seg_fits P va msz" and c: "unat off + unat fsz \<le> length c"
  shows "k \<le> min (unat fsz) (unat msz) \<Longrightarrow> ft_tell F (b_fs s) = off + of_nat k \<Longrightarrow>
    \<exists>s'. load_loop F P fsz msz (va + of_nat k) (of_nat k) s =
        (True, va + of_nat (min (unat fsz) (unat msz)), of_nat (min (unat fsz) (unat msz)), s') \<and>
      filled P va k (min (unat fsz) (unat msz)) (\<lambda>i. c ! (unat off + i)) (b_mem s) (b_mem s')"
proof (induction "unat msz - k" arbitrary: k s rule: less_induct)
  case less
  let ?L = "min (unat fsz) (unat msz)"
  have uk: "unat (of_nat k :: u64) = k"
    using less(2) unat_u64 [of fsz] by (simp add: unat_of_nat)
  show ?case
  proof (cases "k < ?L")
    case False
    then have "k = ?L" using less(2) by (auto simp: min_def split: if_splits)
    then show ?thesis
      using False uk by (subst load_loop.simps) (auto simp: word_less_nat_alt filled_refl)
  next
    case True
    then have lt: "of_nat k < fsz" "of_nat k < msz" by (simp_all add: word_less_nat_alt uk)
    define n where "n = clip_size (clip_size 0x10000 (fsz - of_nat k)) (msz - of_nat k)"
    note nb = request_bounds [OF lt n_def]
    have "unat n \<le> unat msz - k" "unat n \<le> unat fsz - k"
      using nb(2,3) lt uk by (simp_all add: word_le_nat_alt unat_sub word_less_nat_alt)
    with True have nk: "k + unat n \<le> ?L" by simp linarith
    obtain mem m alt where ch: "chunk P (va + of_nat k) n = (mem, m, alt)" by (metis prod_cases3)
    have m: "0 < m" "m \<le> n" using chunk_bounds [OF ch nb(1)] by simp_all
    have um: "0 < unat m" "unat m \<le> unat n" "unat m \<le> 0x10000"
      using m nb(4) by (simp_all add: word_le_nat_alt unat_gt_0 word_gt_0)
    have mu: "unat (ucast m :: u32) = unat m" using um by (simp add: unat_ucast_down)
    have tell: "unat (ft_tell F (b_fs s)) = unat off + k"
      using less(3) unat_offset [of off k] F c True by (simp add: file_holds_def)
    define bs where "bs = take (unat m) (drop (unat off + k) c)"
    have "k + unat m \<le> unat fsz" using nk um by simp
    then have "unat m \<le> length c - (unat off + k)" using c by linarith
    then have lbs: "length bs = unat m" by (simp add: bs_def)
    obtain f where f: "ft_read F (ucast m) (b_fs s) = ((0, bs), f)" "ft_tell F f = off + of_nat k + of_nat (unat m)"
      using F less(3) mu tell lbs unfolding file_holds_def Let_def bs_def [symmetric]
      by (metis bs_def)
    have rd: "unat (of_nat (length bs) :: u32) = unat m" using lbs mu by simp
    then have cl: "clip_size m (ucast (of_nat (length bs) :: u32)) = m" "(of_nat (length bs) :: u32) \<noteq> 0"
      using um by (auto simp: clip_size_def word_less_nat_alt unat_ucast_up)
    define s1 where "s1 = s\<lparr>b_alt_mem := b_alt_mem s \<or> alt, b_errno := 0, b_fs := f, b_mem := store mem bs (b_mem s)\<rparr>"
    have step: "load_loop F P fsz msz (va + of_nat k) (of_nat k) s =
        load_loop F P fsz msz (va + of_nat (k + unat m)) (of_nat (k + unat m)) s1"
      by (subst load_loop.simps)
        (simp add: lt n_def [symmetric] ch do_read_def f(1) cl s1_def Let_def algebra_simps)
    have "unat msz - (k + unat m) < unat msz - k" "k + unat m \<le> ?L" using um nk True by auto
    from less(1) [OF this, of s1] obtain s' where s':
      "load_loop F P fsz msz (va + of_nat (k + unat m)) (of_nat (k + unat m)) s1 = (True, va + of_nat ?L, of_nat ?L, s')"
      "filled P va (k + unat m) ?L (\<lambda>i. c ! (unat off + i)) (b_mem s1) (b_mem s')"
      using f(2) by (auto simp: s1_def)
    have "filled P va k (k + unat m) (\<lambda>i. bs ! (i - k)) (b_mem s) (b_mem s1)"
      using filled_store [OF P ch nb(1) _ lbs] nk by (simp add: s1_def)
    then have "filled P va k (k + unat m) (\<lambda>i. c ! (unat off + i)) (b_mem s) (b_mem s1)"
      by (rule filled_cong [rotated]) (use c nk um in \<open>simp add: bs_def\<close>)
    from filled_trans [OF P this s'(2)] nk um s'(1) step show ?thesis by auto
  qed
qed

lemma zero_loop_fills:
  assumes P: "seg_fits P va msz"
  shows "k \<le> unat msz \<Longrightarrow>
    filled P va k (unat msz) (\<lambda>i. 0) (b_mem s) (b_mem (zero_loop P msz (va + of_nat k) (of_nat k) s))"
proof (induction "unat msz - k" arbitrary: k s rule: less_induct)
  case less
  have uk: "unat (of_nat k :: u64) = k"
    using less(2) unat_u64 [of msz] by (simp add: unat_of_nat)
  show ?case
  proof (cases "k < unat msz")
    case False
    then show ?thesis
      using less(2) uk by (subst zero_loop.simps) (auto simp: word_less_nat_alt filled_refl)
  next
    case True
    then have lt: "of_nat k < msz" by (simp add: word_less_nat_alt uk)
    define n where "n = clip_size 0x10000 (msz - of_nat k)"
    have nb: "0 < n" "n \<le> msz - of_nat k"
      using clip_size_bounds [of "0x10000" "msz - of_nat k"] sub_pos [OF lt] by (simp_all add: n_def)
    have "unat n \<le> unat msz - k" using nb(2) lt uk by (simp add: word_le_nat_alt unat_sub word_less_nat_alt)
    with True have nk: "k + unat n \<le> unat msz" by linarith
    obtain mem m alt where ch: "chunk P (va + of_nat k) n = (mem, m, alt)" by (metis prod_cases3)
    have um: "0 < unat m" "unat m \<le> unat n"
      using chunk_bounds [OF ch nb(1)] by (simp_all add: word_le_nat_alt unat_gt_0 word_gt_0)
    define s1 where "s1 = s\<lparr>b_alt_mem := b_alt_mem s \<or> alt, b_mem := store mem (replicate (unat m) 0) (b_mem s)\<rparr>"
    have step: "zero_loop P msz (va + of_nat k) (of_nat k) s =
        zero_loop P msz (va + of_nat (k + unat m)) (of_nat (k + unat m)) s1"
      by (subst zero_loop.simps) (simp add: lt n_def [symmetric] ch s1_def algebra_simps)
    have "filled P va k (k + unat m) (\<lambda>i. replicate (unat m) 0 ! (i - k)) (b_mem s) (b_mem s1)"
      using filled_store [OF P ch nb(1) nk] by (simp add: s1_def)
    then have a: "filled P va k (k + unat m) (\<lambda>i. 0) (b_mem s) (b_mem s1)"
      by (rule filled_cong [rotated]) simp
    have "unat msz - (k + unat m) < unat msz - k" "k + unat m \<le> unat msz" using um nk True by auto
    from filled_trans [OF P a less(1) [OF this, of s1]] um nk step show ?thesis by simp
  qed
qed

lemma store_offset:
  assumes "i < 2 ^ 64" "k + length bs < 2 ^ 63"
  shows "store (base + of_nat k) bs m (base + of_nat i) =
    (if k \<le> i \<and> i < k + length bs then bs ! (i - k) else m (base + of_nat i))"
proof -
  have d: "base + of_nat i - (base + of_nat k) = (of_nat i - of_nat k :: u64)" by simp
  show ?thesis
  proof (cases "k \<le> i")
    case True
    then have "unat (of_nat i - of_nat k :: u64) = i - k"
      using assms by (simp add: of_nat_diff [symmetric] unat_of_nat del: of_nat_diff)
    with True show ?thesis by (auto simp: store_def d)
  next
    case False
    have "unat (of_nat i :: u64) = i" "unat (of_nat k :: u64) = k" using assms by (simp_all add: unat_of_nat)
    then have "unat (of_nat i - of_nat k :: u64) = 2 ^ 64 + i - k"
      using False assms by (simp add: unat_sub_if_size word_size word_le_nat_alt)
    then have "\<not> unat (of_nat i - of_nat k :: u64) < length bs"
      using False assms by (simp add: not_less le_diff_conv2)
    with False show ?thesis by (simp add: store_def d)
  qed
qed

lemma align_down:
  fixes x :: u64
  shows "(x AND NOT 0xFFF) AND 0xFFF = 0" "x AND NOT 0xFFF \<le> x"
  by (simp_all add: and.assoc word_and_le2)

text \<open>The memory after the tree has been placed, at and around \<open>dst\<close>.\<close>

lemma placed_mem:
  fixes dst :: u64
  assumes "8 \<le> length b" "length b < 2 ^ 31" "i < 2 ^ 64"
  shows "store (dst + 4) (be_bytes x) (store (dst + of_nat (length b)) (replicate 0x1000 0) (store dst b m)) (dst + of_nat i) =
    (if i < length b + 0x1000 then (with_total x b @ replicate 0x1000 0) ! i else m (dst + of_nat i))"
proof -
  have l: "length (be_bytes x) = 4" by (simp add: be_bytes_def)
  have z: "store dst b m (dst + of_nat i) = (if i < length b then b ! i else m (dst + of_nat i))"
    using store_offset [of i 0 b dst m] assms by simp
  have o: "store (dst + of_nat (length b)) (replicate 0x1000 0) w (dst + of_nat i) =
      (if length b \<le> i \<and> i < length b + 0x1000 then 0 else w (dst + of_nat i))" for w
    using store_offset [of i "length b" "replicate 0x1000 0" dst w] assms by auto
  have h: "store (dst + 4) (be_bytes x) w (dst + of_nat i) =
      (if 4 \<le> i \<and> i < 8 then be_bytes x ! (i - 4) else w (dst + of_nat i))" for w
    using store_offset [of i 4 "be_bytes x" dst w] assms l by simp
  have "(with_total x b @ replicate 0x1000 0) ! i =
      (if 4 \<le> i \<and> i < 8 then be_bytes x ! (i - 4) else if i < length b then b ! i else 0)"
    if "i < length b + 0x1000"
    using that assms l by (auto simp: with_total_def nth_append min_def)
  then show ?thesis using assms by (auto simp: h o z)
qed

lemma be_total_store:
  assumes "8 \<le> length b" "length b < 2 ^ 31"
  shows "be_total (store dst b m) (dst + 4) = dtb_total b"
proof -
  have "store dst b m (dst + of_nat i) = b ! i" if "i < 8" for i
    using store_offset [of i 0 b dst m] assms that by simp
  from this [of 4] this [of 5] this [of 6] this [of 7] show ?thesis
    by (simp add: be_total_def dtb_total_def add.assoc)
qed

section \<open>Properties\<close>

text \<open>
  C4. Loading a segment. With a readable file that contains the segment's bytes, and a segment that
  starts in RAM and ends below the scratch area, \<open>load_segment\<close> succeeds. Afterwards every byte of
  the segment holds the file's byte, or zero behind the file's part, at its address, or, for the
  part of RAM the boot ROM runs from, at its place in the scratch area; no other memory has changed.
  This holds however the copy is cut into chunks.
\<close>

theorem load_segment_loads:
  assumes "file_holds F c" and "seg_fits P (p_vaddr ph) (p_memsz ph)"
    and "unat (p_offset ph) + unat (p_filesz ph) \<le> length c"
  shows "\<exists>s'. load_segment F P ph s = (True, s') \<and>
    filled P (p_vaddr ph) 0 (unat (p_memsz ph))
      (\<lambda>k. if k < unat (p_filesz ph) then c ! (unat (p_offset ph) + k) else 0) (b_mem s) (b_mem s')"
proof -
  let ?L = "min (unat (p_filesz ph)) (unat (p_memsz ph))"
  let ?g = "\<lambda>k. if k < unat (p_filesz ph) then c ! (unat (p_offset ph) + k) else 0"
  obtain f where f: "ft_lseek F (p_offset ph) (b_fs s) = (0, f)" "ft_tell F f = p_offset ph"
    using assms(1,3) unfolding file_holds_def by (meson add_leD1)
  define s0 where "s0 = s\<lparr>b_errno := 0, b_fs := f\<rparr>"
  obtain s1 where s1: "load_loop F P (p_filesz ph) (p_memsz ph) (p_vaddr ph) 0 s0 =
      (True, p_vaddr ph + of_nat ?L, of_nat ?L, s1)"
    "filled P (p_vaddr ph) 0 ?L (\<lambda>k. c ! (unat (p_offset ph) + k)) (b_mem s) (b_mem s1)"
    using load_loop_fills [OF assms, of 0 s0] f(2) by (auto simp: s0_def)
  let ?s2 = "zero_loop P (p_memsz ph) (p_vaddr ph + of_nat ?L) (of_nat ?L) s1"
  have "filled P (p_vaddr ph) 0 ?L ?g (b_mem s) (b_mem s1)"
    by (rule filled_cong [OF _ s1(2)]) simp
  moreover have "filled P (p_vaddr ph) ?L (unat (p_memsz ph)) ?g (b_mem s1) (b_mem ?s2)"
    by (rule filled_cong [OF _ zero_loop_fills [OF assms(2)]]) auto
  ultimately have "filled P (p_vaddr ph) 0 (unat (p_memsz ph)) ?g (b_mem s) (b_mem ?s2)"
    by (rule filled_trans [OF assms(2)]) simp_all
  moreover have "load_segment F P ph s = (True, ?s2)"
    using f(1) s1(1) by (simp add: load_segment_def do_lseek_def s0_def)
  ultimately show ?thesis by blast
qed

theorem load_segment_loads_witness:
  "\<exists>s'. load_segment (list_file [1, 2, 3, 4, 5]) demo_plat
      \<lparr>p_offset = 2, p_vaddr = 0x80007FFF, p_filesz = 2, p_memsz = 4\<rparr> demo_boot = (True, s') \<and>
    b_mem s' 0x8FFFDFFF = 3 \<and> b_mem s' 0x80008000 = 4 \<and> b_mem s' 0x80008001 = 0 \<and> b_mem s' 0x80007FFF = 0xAA"
proof -
  let ?ph = "\<lparr>p_offset = 2, p_vaddr = 0x80007FFF, p_filesz = 2, p_memsz = 4\<rparr>"
  have h: "file_holds (list_file [1, 2, 3, 4, 5]) [1, 2, 3, 4, 5]"
    by (simp add: file_holds_def list_file_def Let_def)
  have f: "seg_fits demo_plat (p_vaddr ?ph) (p_memsz ?ph)"
    by (simp add: seg_fits_def demo_plat_def)
  obtain s' where s': "load_segment (list_file [1, 2, 3, 4, 5]) demo_plat ?ph demo_boot = (True, s')"
    and fl: "filled demo_plat 0x80007FFF 0 4 (\<lambda>k. if k < 2 then [1, 2, 3, 4, 5] ! (2 + k) else 0) (b_mem demo_boot) (b_mem s')"
    using load_segment_loads [OF h f, of demo_boot] by (auto cong: if_cong)
  have g: "b_mem s' (place demo_plat (0x80007FFF + of_nat k)) = (if k < 2 then [1, 2, 3, 4, 5] ! (2 + k) else 0)"
    if "k < 4" for k
    using fl that by (simp add: filled_def)
  have o: "b_mem s' 0x80007FFF = b_mem demo_boot 0x80007FFF"
  proof -
    have "0x80007FFF \<noteq> place demo_plat (0x80007FFF + of_nat k)" if "k < 4" for k
    proof -
      from that have "k = 0 \<or> k = 1 \<or> k = 2 \<or> k = 3" by arith
      then show ?thesis by (elim disjE) (simp_all add: place_def demo_plat_def)
    qed
    then show ?thesis using fl by (simp add: filled_def)
  qed
  from g [of 0] g [of 1] g [of 2] o s' show ?thesis
    by (simp add: place_def demo_plat_def demo_boot_def)
qed

text \<open>
  The device tree for the program. When \<open>place_dtb\<close> accepts the loaded image, the tree lies
  page-aligned above the image and, with its headroom of a page, below the scratch area; there it is
  the ROM's tree with its total size raised by the headroom, followed by zeros, and no other memory
  has changed.
\<close>

theorem dtb_placed:
  assumes "place_dtb P load_end s = (Some dst, s')"
    and "8 \<le> length (rom_dtb P)" "length (rom_dtb P) < 2 ^ 31" "unat (dtb_total (rom_dtb P)) = length (rom_dtb P)"
    and "length (rom_dtb P) + 0x1000 \<le> unat (mem_alt P)"
  shows "dst AND 0xFFF = 0 \<and> load_end \<le> dst \<and> unat dst + length (rom_dtb P) + 0x1000 \<le> unat (mem_alt P) \<and>
    buffer_at (b_mem s') dst (length (rom_dtb P) + 0x1000) =
      with_total (dtb_total (rom_dtb P) + 0x1000) (rom_dtb P) @ replicate 0x1000 0 \<and>
    (\<forall>i. length (rom_dtb P) + 0x1000 \<le> i \<and> i < 2 ^ 64 \<longrightarrow> b_mem s' (dst + of_nat i) = b_mem s (dst + of_nat i))"
proof -
  let ?b = "rom_dtb P" and ?x = "mem_alt P - of_nat (length (rom_dtb P)) - 0x1000"
  have d: "dst = ?x AND NOT 0xFFF" "load_end \<le> dst"
    using assms(1) by (auto simp: place_dtb_def dtb_dst_def Let_def split: if_splits)
  have tot: "ucast (dtb_total ?b) = (of_nat (length ?b) :: u64)"
    using assms(3,4) by (simp add: word_unat_eq_iff unat_ucast_up unat_of_nat)
  have m: "b_mem s' = store (dst + 4) (be_bytes (dtb_total ?b + 0x1000))
      (store (dst + of_nat (length ?b)) (replicate 0x1000 0) (store dst ?b (b_mem s)))"
    using assms(1) be_total_store [OF assms(2,3), of dst "b_mem s"] tot
    by (auto simp: place_dtb_def be_bytes_def Let_def dtb_dst_def d(1) [symmetric] split: if_splits)
  have "unat ?x = unat (mem_alt P) - length ?b - 0x1000"
    using assms(3,5) by (simp add: unat_sub_if_size word_size word_le_nat_alt unat_of_nat)
  moreover have "unat dst \<le> unat ?x" using align_down(2) [of ?x] d(1) by (simp add: word_le_nat_alt)
  ultimately have "unat dst + length ?b + 0x1000 \<le> unat (mem_alt P)" using assms(5) by linarith
  moreover have "buffer_at (b_mem s') dst (length ?b + 0x1000) =
      with_total (dtb_total ?b + 0x1000) ?b @ replicate 0x1000 0"
  proof (rule nth_equalityI)
    show "length (buffer_at (b_mem s') dst (length ?b + 0x1000)) =
        length (with_total (dtb_total ?b + 0x1000) ?b @ replicate 0x1000 0)"
      using assms(2) by (simp add: buffer_at_def with_total_def be_bytes_def)
  next
    fix i assume "i < length (buffer_at (b_mem s') dst (length ?b + 0x1000))"
    then show "buffer_at (b_mem s') dst (length ?b + 0x1000) ! i =
        (with_total (dtb_total ?b + 0x1000) ?b @ replicate 0x1000 0) ! i"
      using placed_mem [OF assms(2,3), of i dst] assms(3) by (simp add: buffer_at_def m)
  qed
  ultimately show ?thesis
    using d align_down(1) [of ?x] placed_mem [OF assms(2,3)] by (simp add: m)
qed

theorem dtb_placed_witness:
  "\<exists>dst s'. place_dtb demo_plat 0x80200000 demo_boot = (Some dst, s') \<and>
     dst = 0x8FFF4000 \<and> buffer_at (b_mem s') dst 11 = [0xD0, 0x0D, 0xFE, 0xED, 0, 0, 0x10, 0x0A, 7, 7, 0]"
proof -
  have l: "length (rom_dtb demo_plat) = 10" "mem_alt demo_plat = 0x8FFF6000" "mem_base demo_plat = 0x80000000"
    "rom_dtb demo_plat = [0xD0, 0x0D, 0xFE, 0xED, 0, 0, 0, 10, 7, 7]"
    by (simp_all add: demo_plat_def)
  have t: "dtb_total (rom_dtb demo_plat) = 10" by (simp add: l dtb_total_def)
  have dst: "dtb_dst demo_plat = 0x8FFF4000" by (simp add: dtb_dst_def l)
  obtain s' where s': "place_dtb demo_plat 0x80200000 demo_boot = (Some 0x8FFF4000, s')"
    by (simp add: place_dtb_def dst l(3) Let_def)
  have "buffer_at (b_mem s') 0x8FFF4000 (10 + 0x1000) =
      with_total (10 + 0x1000) (rom_dtb demo_plat) @ replicate 0x1000 0"
    using dtb_placed [OF s'] t by (simp add: l)
  then have "take 11 (buffer_at (b_mem s') 0x8FFF4000 (10 + 0x1000)) =
      take 11 (with_total (10 + 0x1000) (rom_dtb demo_plat) @ replicate 0x1000 0)" by (rule arg_cong)
  then have "buffer_at (b_mem s') 0x8FFF4000 11 = [0xD0, 0x0D, 0xFE, 0xED, 0, 0, 0x10, 0x0A, 7, 7, 0]"
    by (simp add: buffer_at_def take_map with_total_def be_bytes_def l(4))
  with s' show ?thesis by blast
qed

text \<open>
  C37. The address check of a segment. For a segment that does not wrap around the address space, and
  RAM that does not, the check accepts exactly the segments that lie in RAM. A segment that does
  wrap passes although it starts above RAM, so that the loader writes outside RAM.
\<close>

theorem segment_check:
  assumes "unat (mem_base P) + unat (ext_mem_size P) < 2 ^ 64" and "0x1000 \<le> ext_mem_size P"
    and "mem_base P + ext_mem_size P < - 0x1000"
  shows "(\<forall>ph. unat (p_vaddr ph) + unat (p_memsz ph) < 2 ^ 64 \<longrightarrow>
      (segment_ok P ph \<longleftrightarrow> unat (mem_base P) \<le> unat (p_vaddr ph) \<and>
         unat (p_vaddr ph) + unat (p_memsz ph) \<le> unat (mem_base P) + unat (ext_mem_size P))) \<and>
    segment_ok P \<lparr>p_offset = 0, p_vaddr = - 0x1000, p_filesz = 0x2000, p_memsz = 0x2000\<rparr> \<and>
    unat (mem_base P) + unat (ext_mem_size P) < unat (- 0x1000 :: u64)"
proof -
  have r: "unat (mem_base P + ext_mem_size P) = unat (mem_base P) + unat (ext_mem_size P)"
    using assms(1) unat_offset [of "mem_base P" "unat (ext_mem_size P)"] by simp
  have "segment_ok P ph \<longleftrightarrow> unat (mem_base P) \<le> unat (p_vaddr ph) \<and>
      unat (p_vaddr ph) + unat (p_memsz ph) \<le> unat (mem_base P) + unat (ext_mem_size P)"
    if "unat (p_vaddr ph) + unat (p_memsz ph) < 2 ^ 64" for ph
    using that unat_offset [of "p_vaddr ph" "unat (p_memsz ph)"] r
    by (auto simp: segment_ok_def word_less_nat_alt)
  moreover have lim: "unat (mem_base P) + unat (ext_mem_size P) < unat (- 0x1000 :: u64)"
    using assms(3) unfolding word_less_nat_alt r .
  moreover have "segment_ok P \<lparr>p_offset = 0, p_vaddr = - 0x1000, p_filesz = 0x2000, p_memsz = 0x2000\<rparr>"
  proof -
    have "unat (0x1000 :: u64) \<le> unat (mem_base P + ext_mem_size P)"
      using assms(2) unfolding r word_le_nat_alt by linarith
    moreover have "unat (mem_base P) \<le> unat (- 0x1000 :: u64)" using lim by linarith
    ultimately show ?thesis by (simp add: segment_ok_def word_less_nat_alt)
  qed
  ultimately show ?thesis by blast
qed

theorem segment_check_witness:
  "segment_ok demo_plat \<lparr>p_offset = 0, p_vaddr = 0x80000000, p_filesz = 0x100, p_memsz = 0x200\<rparr> \<and>
   segment_ok demo_plat \<lparr>p_offset = 0, p_vaddr = - 0x1000, p_filesz = 0x2000, p_memsz = 0x2000\<rparr>"
proof -
  have "unat (mem_base demo_plat) + unat (ext_mem_size demo_plat) < 2 ^ 64" "0x1000 \<le> ext_mem_size demo_plat"
    "mem_base demo_plat + ext_mem_size demo_plat < - 0x1000"
    by (simp_all add: demo_plat_def)
  from segment_check [OF this] show ?thesis by (simp add: demo_plat_def)
qed

end
