(* ===== verification/Clk_Wzrd.thy ===== *)
theory Clk_Wzrd
  imports Soct_Prelude
begin

text \<open>
  The clocking wizard of the Linux display driver, \<open>drivers/clk-wzrd/clk-wzrd.c\<close>: the search for the
  divider setting closest to a frequency, and the register writes that apply it. The reads of the
  status register until a poll ends are an argument of the retuning.
\<close>

section \<open>Data\<close>

record soct_clk_wzrd_limits =
  input_hz :: u32
  vco_min_hz :: u32
  vco_max_hz :: u32
  pfd_min_hz :: u32
  pfd_max_hz :: u32

record soct_clk_wzrd_setting =
  div_int :: u32
  mult_eighths :: u32
  odiv_eighths :: u32
  achieved_hz :: u32

datatype wzrd_result = Wzrd_OK | EDOM | EBUSY | ETIMEDOUT

section \<open>The search\<close>

text \<open>One multiplier: the windows, the frequency it gives and its distance from the target.\<close>

definition consider_mult :: "soct_clk_wzrd_limits \<Rightarrow> u32 \<Rightarrow> u32 \<Rightarrow> u32 \<Rightarrow> u64 \<Rightarrow>
    u32 \<times> soct_clk_wzrd_setting \<Rightarrow> u32 \<times> soct_clk_wzrd_setting" where
  "consider_mult lim target_hz dv o8 m8 st =
     (if m8 < 2 * 8 \<or> m8 > 128 * 8 then st
      else if ucast (input_hz lim) * m8 < ucast (vco_min_hz lim) * 8 * ucast dv \<or>
              ucast (input_hz lim) * m8 > ucast (vco_max_hz lim) * 8 * ucast dv then st
      else
        let achieved = (ucast (input_hz lim) * m8) div (ucast dv * ucast o8) :: u64;
            err = (if achieved > ucast target_hz then ucast (achieved - ucast target_hz)
                   else ucast (ucast target_hz - achieved)) :: u32
        in if err < fst st
           then (err, \<lparr>div_int = dv, mult_eighths = ucast m8, odiv_eighths = o8, achieved_hz = ucast achieved\<rparr>)
           else st)"

definition consider_odiv :: "soct_clk_wzrd_limits \<Rightarrow> u32 \<Rightarrow> u32 \<Rightarrow> u32 \<Rightarrow>
    u32 \<times> soct_clk_wzrd_setting \<Rightarrow> u32 \<times> soct_clk_wzrd_setting" where
  "consider_odiv lim target_hz dv o8 st =
     (if o8 < 16 \<and> o8 AND 7 \<noteq> 0 then st
      else
        let m8_floor = (ucast target_hz * ucast dv * ucast o8) div ucast (input_hz lim) :: u64
        in fold (\<lambda>i. consider_mult lim target_hz dv o8 (m8_floor + of_nat i)) [0..<2] st)"

definition consider_div :: "soct_clk_wzrd_limits \<Rightarrow> u32 \<Rightarrow> u32 \<Rightarrow>
    u32 \<times> soct_clk_wzrd_setting \<Rightarrow> u32 \<times> soct_clk_wzrd_setting" where
  "consider_div lim target_hz dv st =
     (if ucast (pfd_min_hz lim) * ucast dv > (ucast (input_hz lim) :: u64) \<or>
         ucast (pfd_max_hz lim) * ucast dv < (ucast (input_hz lim) :: u64) then st
      else fold (\<lambda>o8. consider_odiv lim target_hz dv (of_nat o8)) [8..<128 * 8 + 1] st)"

definition soct_clk_wzrd_solve :: "soct_clk_wzrd_limits \<Rightarrow> u32 \<Rightarrow> soct_clk_wzrd_setting \<Rightarrow>
    wzrd_result \<times> soct_clk_wzrd_setting" where
  "soct_clk_wzrd_solve lim target_hz out =
     (if input_hz lim = 0 \<or> target_hz = 0 then (EDOM, out)
      else
        let (best_err, out) = fold (\<lambda>dv. consider_div lim target_hz (of_nat dv)) [1..<107] (- 1, out)
        in if best_err = - 1 \<or> ucast best_err * 200 > (ucast target_hz :: u64) then (EDOM, out)
           else (Wzrd_OK, out))"

section \<open>Retuning\<close>

definition WZRD_STATUS_LOCKED :: u32 where "WZRD_STATUS_LOCKED = 1"
definition WZRD_CFG_MULT_DIV :: u32 where "WZRD_CFG_MULT_DIV = 0x200"
definition WZRD_CFG_CLKOUT0 :: u32 where "WZRD_CFG_CLKOUT0 = 0x208"
definition WZRD_CFG_CLKOUT0_PHASE :: u32 where "WZRD_CFG_CLKOUT0_PHASE = 0x20C"
definition WZRD_APPLY :: u32 where "WZRD_APPLY = 0x25C"
definition WZRD_APPLY_LOAD_SEN :: u32 where "WZRD_APPLY_LOAD_SEN = 3"

text \<open>A poll with a timeout, given the statuses it reads before the time is over.\<close>

definition locked :: "u32 list \<Rightarrow> bool" where
  "locked reads \<longleftrightarrow> poll (\<lambda>st. st AND WZRD_STATUS_LOCKED \<noteq> 0) reads \<noteq> None"

definition cfg_clkout0 :: "soct_clk_wzrd_setting \<Rightarrow> u32" where
  "cfg_clkout0 s = (odiv_eighths s div 8) OR push_bit 8 ((odiv_eighths s mod 8) * 125)"

definition cfg_mult_div :: "soct_clk_wzrd_setting \<Rightarrow> u32" where
  "cfg_mult_div s = div_int s OR push_bit 8 (mult_eighths s div 8) OR push_bit 16 ((mult_eighths s mod 8) * 125)"

definition soct_clk_wzrd_retune :: "u32 list \<Rightarrow> u32 list \<Rightarrow> soct_clk_wzrd_setting \<Rightarrow> wzrd_result \<times> (u32 \<times> u32) list" where
  "soct_clk_wzrd_retune before after s =
     (let cfg = [(WZRD_CFG_CLKOUT0, cfg_clkout0 s), (WZRD_CFG_MULT_DIV, cfg_mult_div s), (WZRD_CFG_CLKOUT0_PHASE, 0)]
      in if \<not> locked before then (EBUSY, cfg)
         else (if locked after then Wzrd_OK else ETIMEDOUT, cfg @ [(WZRD_APPLY, WZRD_APPLY_LOAD_SEN)]))"

section \<open>Specification\<close>

text \<open>The settings the hardware allows, over natural numbers.\<close>

definition legal :: "soct_clk_wzrd_limits \<Rightarrow> nat \<Rightarrow> nat \<Rightarrow> nat \<Rightarrow> bool" where
  "legal lim d m u \<longleftrightarrow> 1 \<le> d \<and> d \<le> 106 \<and> 16 \<le> m \<and> m \<le> 1024 \<and> 8 \<le> u \<and> u \<le> 1024 \<and> (u < 16 \<longrightarrow> u mod 8 = 0) \<and>
     unat (pfd_min_hz lim) * d \<le> unat (input_hz lim) \<and> unat (input_hz lim) \<le> unat (pfd_max_hz lim) * d \<and>
     unat (vco_min_hz lim) * 8 * d \<le> unat (input_hz lim) * m \<and> unat (input_hz lim) * m \<le> unat (vco_max_hz lim) * 8 * d"

definition freq :: "soct_clk_wzrd_limits \<Rightarrow> nat \<Rightarrow> nat \<Rightarrow> nat \<Rightarrow> nat" where
  "freq lim d m u = unat (input_hz lim) * m div (d * u)"

definition distance :: "nat \<Rightarrow> nat \<Rightarrow> nat" where
  "distance a b = (if a > b then a - b else b - a)"

definition bracket :: "soct_clk_wzrd_limits \<Rightarrow> nat \<Rightarrow> nat \<Rightarrow> nat \<Rightarrow> nat" where
  "bracket lim t d u = t * d * u div unat (input_hz lim)"

text \<open>The settings the search visits: the two multipliers around the target for every pair of dividers.\<close>

definition visited :: "soct_clk_wzrd_limits \<Rightarrow> nat \<Rightarrow> nat \<Rightarrow> nat \<Rightarrow> nat \<Rightarrow> bool" where
  "visited lim t d m u \<longleftrightarrow> legal lim d m u \<and> (m = bracket lim t d u \<or> m = Suc (bracket lim t d u))"

text \<open>The part of it that depends on the multiplier.\<close>

definition windows :: "soct_clk_wzrd_limits \<Rightarrow> nat \<Rightarrow> nat \<Rightarrow> bool" where
  "windows lim d m \<longleftrightarrow> 16 \<le> m \<and> m \<le> 1024 \<and>
     unat (vco_min_hz lim) * 8 * d \<le> unat (input_hz lim) * m \<and> unat (input_hz lim) * m \<le> unat (vco_max_hz lim) * 8 * d"

text \<open>
  What a state of the search knows of the settings in \<open>S\<close>: none is closer than the best distance,
  and the best distance is that of the stored setting, which is one of them.
\<close>

definition found :: "soct_clk_wzrd_limits \<Rightarrow> nat \<Rightarrow> nat \<Rightarrow> nat \<Rightarrow> nat \<Rightarrow> u32 \<times> soct_clk_wzrd_setting" where
  "found lim t d m u =
     (of_nat (distance (freq lim d m u) t),
      \<lparr>div_int = of_nat d, mult_eighths = of_nat m, odiv_eighths = of_nat u, achieved_hz = of_nat (freq lim d m u)\<rparr>)"

definition best_of :: "soct_clk_wzrd_limits \<Rightarrow> nat \<Rightarrow> soct_clk_wzrd_setting \<Rightarrow> (nat \<times> nat \<times> nat) set \<Rightarrow>
    u32 \<times> soct_clk_wzrd_setting \<Rightarrow> bool" where
  "best_of lim t out S st \<longleftrightarrow>
     (\<forall>(d, m, u) \<in> S. unat (fst st) \<le> distance (freq lim d m u) t) \<and>
     (st = (- 1, out) \<or> (\<exists>(d, m, u) \<in> S. st = found lim t d m u))"

definition pixel_lim :: soct_clk_wzrd_limits where
  "pixel_lim = \<lparr>input_hz = 100000000, vco_min_hz = 800000000, vco_max_hz = 1600000000,
     pfd_min_hz = 10000000, pfd_max_hz = 500000000\<rparr>"

section \<open>Lemmas\<close>

lemma best_fold:
  assumes "\<And>x st S. x \<in> set xs \<Longrightarrow> best_of lim t out S st \<Longrightarrow> best_of lim t out (S \<union> A x) (f x st)"
    and "best_of lim t out S st"
  shows "best_of lim t out (S \<union> (\<Union>x \<in> set xs. A x)) (fold f xs st)"
  using assms
proof (induction xs arbitrary: S st)
  case (Cons x xs)
  have "best_of lim t out ((S \<union> A x) \<union> (\<Union>y \<in> set xs. A y)) (fold f xs (f x st))"
    using Cons.prems by (intro Cons.IH) auto
  then show ?case by (simp add: Un_assoc)
qed simp

lemma bracket_bounds:
  assumes "0 < unat (input_hz lim)" "1 \<le> d" "d \<le> 106" "8 \<le> u" "u \<le> 1024" "t < 2 ^ 32"
    and "m = bracket lim t d u \<or> m = Suc (bracket lim t d u)"
  shows "m < 2 ^ 50" and "distance (freq lim d m u) t < 2 ^ 32"
    and "m = bracket lim t d u \<Longrightarrow> freq lim d m u \<le> t"
    and "m = Suc (bracket lim t d u) \<Longrightarrow> t \<le> freq lim d m u"
proof -
  let ?n = "unat (input_hz lim)"
  have du: "0 < d * u" using assms by simp
  have n: "?n < 2 ^ 32" using unsigned_less [of "input_hz lim"] by simp
  have "t * d * u \<le> 2 ^ 32 * 106 * 1024" using assms by (intro mult_mono) simp_all
  moreover have "bracket lim t d u \<le> t * d * u" by (simp add: bracket_def)
  ultimately have "m \<le> 2 ^ 32 * 106 * 1024 + 1" using assms(7) by linarith
  then show "m < 2 ^ 50" by simp
  have low: "?n * bracket lim t d u \<le> t * (d * u)"
    by (simp add: bracket_def mult.assoc)
  have high: "t * (d * u) < ?n * Suc (bracket lim t d u)"
    using dividend_less_times_div [OF assms(1), of "t * (d * u)"] by (simp add: bracket_def mult.assoc)
  have a: "freq lim d m u \<le> t" if "m = bracket lim t d u"
  proof -
    have "?n * m div (d * u) \<le> t * (d * u) div (d * u)" unfolding that by (rule div_le_mono [OF low])
    then show ?thesis using du by (simp add: freq_def)
  qed
  have b: "t \<le> freq lim d m u" if "m = Suc (bracket lim t d u)"
  proof -
    have "t * (d * u) div (d * u) \<le> ?n * m div (d * u)"
      unfolding that using high by (intro div_le_mono) simp
    then show ?thesis using du by (simp add: freq_def)
  qed
  have c: "freq lim d m u \<le> t + ?n" if "m = Suc (bracket lim t d u)"
  proof -
    have "?n * m \<le> t * (d * u) + ?n" unfolding that using low by simp
    also have "\<dots> \<le> (t + ?n) * (d * u)" using du by (simp add: algebra_simps)
    finally have "?n * m div (d * u) \<le> (t + ?n) * (d * u) div (d * u)" by (rule div_le_mono)
    then show ?thesis using du by (simp add: freq_def)
  qed
  show "distance (freq lim d m u) t < 2 ^ 32"
    using assms(6,7) a b c n by (auto simp: distance_def)
  show "m = bracket lim t d u \<Longrightarrow> freq lim d m u \<le> t" by (rule a)
  show "m = Suc (bracket lim t d u) \<Longrightarrow> t \<le> freq lim d m u" by (rule b)
qed

text \<open>The words of the search do not wrap around.\<close>

lemma ucast_small: "n \<le> 1024 \<Longrightarrow> (ucast (of_nat n :: u32) :: u64) = of_nat n"
  by (simp only: ucast_up_of_nat) (simp add: unat_of_nat_small)

lemma consider_mult_nat:
  assumes n: "0 < unat (input_hz lim)" and r: "1 \<le> d" "d \<le> 106" "8 \<le> u" "u \<le> 1024"
    and m: "m = bracket lim (unat t) d u \<or> m = Suc (bracket lim (unat t) d u)"
  shows "consider_mult lim t (of_nat d) (of_nat u) (of_nat m) st =
    (if windows lim d m \<and> distance (freq lim d m u) (unat t) < unat (fst st) then found lim (unat t) d m u else st)"
proof -
  have b: "unat (x :: u32) < 2 ^ 32" for x using unsigned_less [of x] by simp
  note B = bracket_bounds [OF n r b m]
  have small: "m < 2 ^ 64" using B(1) by simp
  have mw: "(of_nat m :: u64) < 2 * 8 \<longleftrightarrow> m < 16" "(of_nat m :: u64) > 128 * 8 \<longleftrightarrow> 1024 < m"
    using of_nat_word_less [where 'a = 64, of m 16] of_nat_word_less [where 'a = 64, of 1024 m] small by simp_all
  show ?thesis
  proof (cases "16 \<le> m \<and> m \<le> 1024")
    case False
    then show ?thesis unfolding consider_mult_def mw windows_def by auto
  next
    case True
    have p: "unat (input_hz lim) * m \<le> 2 ^ 32 * 1024" "d * u \<le> 106 * 1024"
      by (rule mult_le_mono [OF less_imp_le [OF b]] mult_le_mono; use True r in simp)+
    have q: "unat (x :: u32) * 8 * d \<le> 2 ^ 32 * 8 * 106" for x
      by (intro mult_le_mono less_imp_le [OF b]) (use r in simp_all)
    have dv: "(ucast (of_nat d :: u32) :: u64) = of_nat d" "(ucast (of_nat u :: u32) :: u64) = of_nat u"
      using r by (simp_all add: ucast_small)
    have e: "ucast (input_hz lim) * (of_nat m :: u64) = of_nat (unat (input_hz lim) * m)"
      "ucast (x :: u32) * 8 * (of_nat d :: u64) = of_nat (unat x * 8 * d)"
      "(of_nat d :: u64) * of_nat u = of_nat (d * u)" for x
      by (simp_all only: ucast_up_of_nat of_nat_mult of_nat_numeral)
    have quot: "(of_nat (unat (input_hz lim) * m) :: u64) div of_nat (d * u) = of_nat (freq lim d m u)"
      unfolding freq_def using p by (intro of_nat_word_div) simp_all
    have fb: "freq lim d m u \<le> unat (input_hz lim) * m" by (simp add: freq_def)
    let ?e = "if (of_nat (freq lim d m u) :: u64) > ucast t then ucast (of_nat (freq lim d m u) - (ucast t :: u64))
       else ucast (ucast t - (of_nat (freq lim d m u) :: u64)) :: u32"
    have err: "?e = of_nat (distance (freq lim d m u) (unat t))"
    proof -
      have c: "(ucast t :: u64) < of_nat (freq lim d m u) \<longleftrightarrow> unat t < freq lim d m u"
        using b [of t] p fb unfolding ucast_up_of_nat by (intro of_nat_word_less) simp_all
      have e: "unat t < freq lim d m u \<Longrightarrow> (of_nat (freq lim d m u) :: u64) - ucast t = of_nat (freq lim d m u - unat t)"
        "\<not> unat t < freq lim d m u \<Longrightarrow> (ucast t :: u64) - of_nat (freq lim d m u) = of_nat (unat t - freq lim d m u)"
        by (simp_all only: ucast_up_of_nat of_nat_diff [symmetric] less_imp_le not_less)
      show ?thesis
        by (cases "unat t < freq lim d m u") (simp_all only: c e distance_def ucast_down_of_nat if_True if_False not_False_eq_True)
    qed
    have lt: "(of_nat (distance (freq lim d m u) (unat t)) :: u32) < fst st \<longleftrightarrow>
        distance (freq lim d m u) (unat t) < unat (fst st)"
      using B(2) by (simp add: word_less_nat_alt unat_of_nat_small)
    have w: "(of_nat (unat (input_hz lim) * m) :: u64) < of_nat (unat (vco_min_hz lim) * 8 * d) \<longleftrightarrow>
        unat (input_hz lim) * m < unat (vco_min_hz lim) * 8 * d"
      "(of_nat (unat (input_hz lim) * m) :: u64) > of_nat (unat (vco_max_hz lim) * 8 * d) \<longleftrightarrow>
        unat (input_hz lim) * m > unat (vco_max_hz lim) * 8 * d"
      using p q [of "vco_min_hz lim"] q [of "vco_max_hz lim"] by (intro of_nat_word_less; simp)+
    show ?thesis
      unfolding consider_mult_def dv e quot Let_def err lt w mw
      using True by (simp add: windows_def found_def ucast_down_of_nat)
  qed
qed

lemma consider_mult_best:
  assumes n: "0 < unat (input_hz lim)" and r: "1 \<le> d" "d \<le> 106" "8 \<le> u" "u \<le> 1024"
    and m: "m = bracket lim (unat t) d u \<or> m = Suc (bracket lim (unat t) d u)"
    and st: "best_of lim (unat t) out S st"
  shows "best_of lim (unat t) out (S \<union> {c. c = (d, m, u) \<and> windows lim d m})
    (consider_mult lim t (of_nat d) (of_nat u) (of_nat m) st)"
proof -
  have "unat t < 2 ^ 32" using unsigned_less [of t] by simp
  from bracket_bounds(2) [OF n r this m] have "unat (fst (found lim (unat t) d m u)) = distance (freq lim d m u) (unat t)"
    by (simp add: found_def unat_of_nat_small)
  then show ?thesis
    unfolding consider_mult_nat [OF n r m] using st by (auto simp: best_of_def)
qed

lemma consider_odiv_best:
  assumes n: "0 < unat (input_hz lim)" and r: "1 \<le> d" "d \<le> 106" "8 \<le> u" "u \<le> 1024"
    and st: "best_of lim (unat t) out S st"
  shows "best_of lim (unat t) out
    (S \<union> {(d', m, u'). d' = d \<and> u' = u \<and> (u < 16 \<longrightarrow> u mod 8 = 0) \<and> windows lim d m \<and>
       (m = bracket lim (unat t) d u \<or> m = Suc (bracket lim (unat t) d u))})
    (consider_odiv lim t (of_nat d) (of_nat u) st)"
proof -
  let ?b = "bracket lim (unat t) d u"
  have b: "unat (x :: u32) < 2 ^ 32" for x using unsigned_less [of x] by simp
  have odd: "((of_nat u :: u32) < 16 \<and> of_nat u AND 7 \<noteq> (0 :: u32)) \<longleftrightarrow> \<not> (u < 16 \<longrightarrow> u mod 8 = 0)"
  proof -
    have "u AND 7 = u mod 8"
      using take_bit_eq_mask [of 3 u] by (simp add: take_bit_eq_mod mask_eq_exp_minus_1)
    then have "(of_nat u :: u32) AND 7 = of_nat (u mod 8)"
      using r by (simp add: word_unat_eq_iff unat_of_nat_small unsigned_and_eq)
    then show ?thesis
      using r of_nat_word_less [where 'a = 32, of u 16] by (simp add: word_unat_eq_iff unat_of_nat_small)
  qed
  have fl: "(ucast t * ucast (of_nat d :: u32) * ucast (of_nat u :: u32)) div ucast (input_hz lim) = (of_nat ?b :: u64)"
  proof -
    have "unat t * d * u \<le> 2 ^ 32 * 106 * 1024" using r b [of t] by (intro mult_mono) simp_all
    then have "(of_nat (unat t * d * u) :: u64) div of_nat (unat (input_hz lim)) = of_nat ?b"
      unfolding bracket_def using b [of "input_hz lim"] by (intro of_nat_word_div) simp_all
    moreover have "(ucast (of_nat d :: u32) :: u64) = of_nat d" "(ucast (of_nat u :: u32) :: u64) = of_nat u"
      using r by (simp_all add: ucast_small)
    ultimately show ?thesis by (simp only: ucast_up_of_nat of_nat_mult)
  qed
  have two: "[0..<2] = [0, Suc 0]" by (simp add: numeral_2_eq_2)
  have next_mult: "(of_nat ?b :: u64) + of_nat 0 = of_nat ?b" "(of_nat ?b :: u64) + of_nat (Suc 0) = of_nat (Suc ?b)"
    by simp_all
  note s1 = consider_mult_best [OF n r _ st, of ?b]
  note s2 = consider_mult_best [OF n r _ s1, of "Suc ?b"]
  show ?thesis
  proof (cases "u < 16 \<longrightarrow> u mod 8 = 0")
    case True
    have "consider_odiv lim t (of_nat d) (of_nat u) st =
        consider_mult lim t (of_nat d) (of_nat u) (of_nat (Suc ?b)) (consider_mult lim t (of_nat d) (of_nat u) (of_nat ?b) st)"
      unfolding consider_odiv_def odd fl two using True by (simp only: Let_def fold_simps next_mult) auto
    moreover have "S \<union> {c. c = (d, ?b, u) \<and> windows lim d ?b} \<union> {c. c = (d, Suc ?b, u) \<and> windows lim d (Suc ?b)} =
        S \<union> {(d', m, u'). d' = d \<and> u' = u \<and> (u < 16 \<longrightarrow> u mod 8 = 0) \<and> windows lim d m \<and> (m = ?b \<or> m = Suc ?b)}"
      using True by auto
    ultimately show ?thesis using s2 by simp
  next
    case False
    then have "consider_odiv lim t (of_nat d) (of_nat u) st = st"
      unfolding consider_odiv_def odd by simp
    moreover have "{(d', m, u'). d' = d \<and> u' = u \<and> (u < 16 \<longrightarrow> u mod 8 = 0) \<and> windows lim d m \<and> (m = ?b \<or> m = Suc ?b)} = {}"
      using False by auto
    ultimately show ?thesis using st by (simp only: Un_empty_right)
  qed
qed

lemma consider_div_best:
  assumes n: "0 < unat (input_hz lim)" and r: "1 \<le> d" "d \<le> 106" and st: "best_of lim (unat t) out S st"
  shows "best_of lim (unat t) out (S \<union> {(d', m, u). d' = d \<and> visited lim (unat t) d m u})
    (consider_div lim t (of_nat d) st)"
proof -
  let ?A = "\<lambda>u. {(d', m, u'). d' = d \<and> u' = u \<and> (u < 16 \<longrightarrow> u mod 8 = 0) \<and> windows lim d m \<and>
       (m = bracket lim (unat t) d u \<or> m = Suc (bracket lim (unat t) d u))}"
  let ?pfd = "unat (pfd_min_hz lim) * d \<le> unat (input_hz lim) \<and> unat (input_hz lim) \<le> unat (pfd_max_hz lim) * d"
  have b: "unat (x :: u32) < 2 ^ 32" for x using unsigned_less [of x] by simp
  have q: "unat (x :: u32) * d \<le> 2 ^ 32 * 106" for x
    by (intro mult_le_mono less_imp_le [OF b]) (use r in simp_all)
  have e: "ucast (x :: u32) * ucast (of_nat d :: u32) = (of_nat (unat x * d) :: u64)" for x
    using r by (simp only: ucast_small ucast_up_of_nat [of x] of_nat_mult)
  have pfd: "(ucast (pfd_min_hz lim) * ucast (of_nat d :: u32) > (ucast (input_hz lim) :: u64) \<or>
      ucast (pfd_max_hz lim) * ucast (of_nat d :: u32) < (ucast (input_hz lim) :: u64)) \<longleftrightarrow> \<not> ?pfd"
    unfolding e ucast_up_of_nat [of "input_hz lim"]
    using q [of "pfd_min_hz lim"] q [of "pfd_max_hz lim"] b [of "input_hz lim"]
    by (subst of_nat_word_less, simp, simp)+ auto
  show ?thesis
  proof (cases ?pfd)
    case False
    then have "{(d', m, u). d' = d \<and> visited lim (unat t) d m u} = {}" by (auto simp: visited_def legal_def)
    then show ?thesis unfolding consider_div_def pfd using False st by (simp only: if_True Un_empty_right not_False_eq_True)
  next
    case True
    have "best_of lim (unat t) out (S' \<union> ?A u) (consider_odiv lim t (of_nat d) (of_nat u) st')"
      if "u \<in> set [8..<128 * 8 + 1]" "best_of lim (unat t) out S' st'" for u S' st'
      by (rule consider_odiv_best [OF n r _ _ that(2)]) (use that(1) in \<open>simp_all only: set_upt atLeastLessThan_iff\<close>, simp)
    then have "best_of lim (unat t) out (S \<union> (\<Union>u \<in> set [8..<128 * 8 + 1]. ?A u))
        (fold (\<lambda>o8. consider_odiv lim t (of_nat d) (of_nat o8)) [8..<128 * 8 + 1] st)"
      by (rule best_fold [OF _ st])
    moreover have "(\<Union>u \<in> set [8..<128 * 8 + 1]. ?A u) = {(d', m, u). d' = d \<and> visited lim (unat t) d m u}"
      unfolding set_upt using True r by (auto simp: visited_def legal_def windows_def)
    ultimately show ?thesis unfolding consider_div_def pfd using True by (simp only: if_False not_True_eq_False simp_thms)
  qed
qed

lemma search_best:
  assumes "0 < unat (input_hz lim)"
  shows "best_of lim (unat t) out {(d, m, u). visited lim (unat t) d m u}
    (fold (\<lambda>dv. consider_div lim t (of_nat dv)) [1..<107] (- 1, out))"
proof -
  let ?A = "\<lambda>d. {(d', m, u). d' = d \<and> visited lim (unat t) d m u}"
  have "best_of lim (unat t) out (S \<union> ?A d) (consider_div lim t (of_nat d) st)"
    if "d \<in> set [1..<107]" "best_of lim (unat t) out S st" for d S st
    by (rule consider_div_best [OF assms _ _ that(2)]) (use that(1) in \<open>simp_all only: set_upt atLeastLessThan_iff\<close>, simp)
  then have "best_of lim (unat t) out ({} \<union> (\<Union>d \<in> set [1..<107]. ?A d))
      (fold (\<lambda>dv. consider_div lim t (of_nat dv)) [1..<107] (- 1, out))"
    by (rule best_fold) (auto simp: best_of_def)
  moreover have "(\<Union>d \<in> set [1..<107]. ?A d) = {(d, m, u). visited lim (unat t) d m u}"
    unfolding set_upt by (auto simp: visited_def legal_def)
  ultimately show ?thesis by (simp only: Un_empty_left)
qed

text \<open>The multipliers around the target are at least as close as any other.\<close>

lemma bracket_closest:
  assumes "0 < unat (input_hz lim)" "1 \<le> d" "d \<le> 106" "8 \<le> u" "u \<le> 1024" "t < 2 ^ 32"
  shows "m \<le> bracket lim t d u \<Longrightarrow> distance (freq lim d (bracket lim t d u) u) t \<le> distance (freq lim d m u) t"
    and "bracket lim t d u < m \<Longrightarrow> distance (freq lim d (Suc (bracket lim t d u)) u) t \<le> distance (freq lim d m u) t"
proof -
  have mono: "freq lim d a u \<le> freq lim d b u" if "a \<le> b" for a b
    unfolding freq_def using that by (intro div_le_mono) simp
  have "freq lim d (bracket lim t d u) u \<le> t" "t \<le> freq lim d (Suc (bracket lim t d u)) u"
    using bracket_bounds(3,4) [OF assms] by auto
  then show "m \<le> bracket lim t d u \<Longrightarrow> distance (freq lim d (bracket lim t d u) u) t \<le> distance (freq lim d m u) t"
    and "bracket lim t d u < m \<Longrightarrow> distance (freq lim d (Suc (bracket lim t d u)) u) t \<le> distance (freq lim d m u) t"
    using mono [of m "bracket lim t d u"] mono [of "Suc (bracket lim t d u)" m]
    by (auto simp: distance_def)
qed

lemma solve_cases:
  assumes n: "input_hz lim \<noteq> 0" "t \<noteq> 0" and s: "soct_clk_wzrd_solve lim t out = (r, s)"
  obtains (OK) d m u where "r = Wzrd_OK" "visited lim (unat t) d m u" "s = snd (found lim (unat t) d m u)"
      "distance (freq lim d m u) (unat t) * 200 \<le> unat t"
      "\<And>d' m' u'. visited lim (unat t) d' m' u' \<Longrightarrow> distance (freq lim d m u) (unat t) \<le> distance (freq lim d' m' u') (unat t)"
  | (EDOM) "r = EDOM" "\<And>d m u. visited lim (unat t) d m u \<Longrightarrow> unat t < distance (freq lim d m u) (unat t) * 200"
proof -
  define st where "st = fold (\<lambda>dv. consider_div lim t (of_nat dv)) [1..<107] (- 1, out)"
  have t: "unat t < 2 ^ 32" using unsigned_less [of t] by simp
  have pos: "0 < unat (input_hz lim)" using n by (simp add: unat_gt_0)
  have best: "best_of lim (unat t) out {(d, m, u). visited lim (unat t) d m u} st"
    unfolding st_def by (rule search_best [OF pos])
  have dist: "unat (fst (found lim (unat t) d m u)) = distance (freq lim d m u) (unat t)"
    if "visited lim (unat t) d m u" for d m u
    using that bracket_bounds(2) [OF pos _ _ _ _ t, of d u m]
    by (simp add: visited_def legal_def found_def unat_of_nat_small)
  have small: "(fst st = - 1 \<or> ucast (fst st) * 200 > (ucast t :: u64)) \<longleftrightarrow> unat t < unat (fst st) * 200"
  proof -
    have "unat (fst st) < 2 ^ 32" using unsigned_less [of "fst st"] by simp
    then have "(ucast t :: u64) < ucast (fst st) * 200 \<longleftrightarrow> unat t < unat (fst st) * 200"
      using t of_nat_word_less [where 'a = 64, of "unat t" "unat (fst st) * 200"]
      by (simp only: ucast_up_of_nat of_nat_mult of_nat_numeral) simp
    moreover have "unat (- 1 :: u32) = 2 ^ 32 - 1" by (simp add: unsigned_minus_1_eq_mask mask_eq_exp_minus_1)
    ultimately show ?thesis using t by auto
  qed
  have res: "(r, s) = (if unat t < unat (fst st) * 200 then EDOM else Wzrd_OK, snd st)"
    using s n unfolding soct_clk_wzrd_solve_def st_def [symmetric] Let_def case_prod_beta small by (auto split: if_splits)
  show thesis
  proof (cases "unat t < unat (fst st) * 200")
    case True
    have "unat t < distance (freq lim d m u) (unat t) * 200" if "visited lim (unat t) d m u" for d m u
    proof -
      have "unat (fst st) \<le> distance (freq lim d m u) (unat t)" using best that by (auto simp: best_of_def)
      with True show ?thesis by linarith
    qed
    then show thesis using res True by (intro EDOM) auto
  next
    case False
    have "fst st \<noteq> - 1" using False small by blast
    then obtain d m u where v: "visited lim (unat t) d m u" and f: "st = found lim (unat t) d m u"
      using best by (auto simp: best_of_def)
    then have d: "unat (fst st) = distance (freq lim d m u) (unat t)" using dist by simp
    show thesis
    proof (rule OK [OF _ v])
      show "r = Wzrd_OK" "s = snd (found lim (unat t) d m u)" using res False f by simp_all
      show "distance (freq lim d m u) (unat t) * 200 \<le> unat t" using False d by simp
      show "distance (freq lim d m u) (unat t) \<le> distance (freq lim d' m' u') (unat t)"
        if "visited lim (unat t) d' m' u'" for d' m' u'
        using best that by (auto simp: best_of_def d [symmetric])
    qed
  qed
qed

text \<open>The fields of the configuration registers.\<close>

lemma or_fields:
  fixes a b c :: u32
  assumes "take_bit 8 a = a" "take_bit 8 b = b" "take_bit 10 c = c"
  shows "take_bit 8 (a OR push_bit 8 b OR push_bit 16 c) = a"
    "take_bit 8 (drop_bit 8 (a OR push_bit 8 b OR push_bit 16 c)) = b"
    "take_bit 10 (drop_bit 16 (a OR push_bit 8 b OR push_bit 16 c)) = c"
proof -
  have A: "bit a n \<Longrightarrow> n < 8" for n using assms(1) bit_take_bit_iff [of 8 a n] by simp
  have B: "bit b n \<Longrightarrow> n < 8" for n using assms(2) bit_take_bit_iff [of 8 b n] by simp
  have C: "bit c n \<Longrightarrow> n < 10" for n using assms(3) bit_take_bit_iff [of 10 c n] by simp
  show "take_bit 8 (a OR push_bit 8 b OR push_bit 16 c) = a"
    by (rule bit_word_eqI) (auto simp: bit_simps dest: A)
  show "take_bit 8 (drop_bit 8 (a OR push_bit 8 b OR push_bit 16 c)) = b"
    by (rule bit_word_eqI) (auto simp: bit_simps dest: A B)
  show "take_bit 10 (drop_bit 16 (a OR push_bit 8 b OR push_bit 16 c)) = c"
    by (rule bit_word_eqI) (auto simp: bit_simps dest: A B C)
qed

lemma two_fields:
  fixes a c :: u32
  assumes "take_bit 8 a = a" "take_bit 10 c = c"
  shows "take_bit 8 (a OR push_bit 8 c) = a" "take_bit 10 (drop_bit 8 (a OR push_bit 8 c)) = c"
proof -
  have A: "bit a n \<Longrightarrow> n < 8" for n using assms(1) bit_take_bit_iff [of 8 a n] by simp
  have C: "bit c n \<Longrightarrow> n < 10" for n using assms(2) bit_take_bit_iff [of 10 c n] by simp
  show "take_bit 8 (a OR push_bit 8 c) = a" by (rule bit_word_eqI) (auto simp: bit_simps dest: A)
  show "take_bit 10 (drop_bit 8 (a OR push_bit 8 c)) = c" by (rule bit_word_eqI) (auto simp: bit_simps dest: A C)
qed

lemma take_bit_small: "unat (a :: u32) < 2 ^ n \<Longrightarrow> take_bit n a = a"
  by (simp add: word_unat_eq_iff unsigned_take_bit_eq take_bit_nat_eq_self)

lemma eighths:
  assumes "unat (x :: u32) \<le> 1024"
  shows "unat (x div 8) \<le> 128" "unat (x mod 8 * 125) \<le> 875"
    "1000 * unat (x div 8) + unat (x mod 8 * 125) = 125 * unat x"
proof -
  have "unat (x div 8) = unat x div 8" "unat (x mod 8) = unat x mod 8" by (simp_all add: unat_div unat_mod)
  moreover from this have "unat (x mod 8 * 125) = unat x mod 8 * 125" by (simp add: unat_word_ariths)
  moreover have "unat x mod 8 \<le> 7" "unat x div 8 \<le> 128" using assms by simp_all
  ultimately show "unat (x div 8) \<le> 128" "unat (x mod 8 * 125) \<le> 875"
    "1000 * unat (x div 8) + unat (x mod 8 * 125) = 125 * unat x"
    using div_mult_mod_eq [of "unat x" 8] by linarith+
qed

section \<open>Properties\<close>

text \<open>
  C8. The clock search. A result of 0 comes exactly when one of the visited settings (the two
  multipliers around the target, for every pair of dividers) is within half a percent of the target.
  The setting then respects every range and window of the hardware, its frequency is the one stored,
  and no setting whose neighbour on the same side of the target is allowed comes closer to the
  target; no intermediate product wraps around.
\<close>

theorem clk_wzrd_solve_closest:
  assumes "input_hz lim \<noteq> 0" "t \<noteq> 0" "soct_clk_wzrd_solve lim t out = (r, s)"
  shows "r \<in> {Wzrd_OK, EDOM} \<and>
    (r = Wzrd_OK \<longleftrightarrow> (\<exists>d m u. visited lim (unat t) d m u \<and> distance (freq lim d m u) (unat t) * 200 \<le> unat t)) \<and>
    (r = Wzrd_OK \<longrightarrow>
      (let d = unat (div_int s); m = unat (mult_eighths s); u = unat (odiv_eighths s) in
        legal lim d m u \<and> achieved_hz s = of_nat (freq lim d m u) \<and> distance (freq lim d m u) (unat t) * 200 \<le> unat t \<and>
        (\<forall>d' m' u'. legal lim d' m' u' \<and>
             legal lim d' (if m' \<le> bracket lim (unat t) d' u' then bracket lim (unat t) d' u' else Suc (bracket lim (unat t) d' u')) u' \<longrightarrow>
           distance (freq lim d m u) (unat t) \<le> distance (freq lim d' m' u') (unat t))))"
proof -
  have t: "unat t < 2 ^ 32" using unsigned_less [of t] by simp
  have pos: "0 < unat (input_hz lim)" using assms(1) by (simp add: unat_gt_0)
  from assms show ?thesis
  proof (cases rule: solve_cases)
    case EDOM
    then show ?thesis by (auto simp: not_le)
  next
    case (OK d m u)
    have s: "unat (div_int s) = d" "unat (mult_eighths s) = m" "unat (odiv_eighths s) = u"
      "achieved_hz s = of_nat (freq lim d m u)"
      using OK(2,3) by (simp_all add: visited_def legal_def found_def unat_of_nat_small)
    have "distance (freq lim d m u) (unat t) \<le> distance (freq lim d' m' u') (unat t)"
      if l: "legal lim d' m' u'"
        "legal lim d' (if m' \<le> bracket lim (unat t) d' u' then bracket lim (unat t) d' u' else Suc (bracket lim (unat t) d' u')) u'"
      for d' m' u'
      using l OK(5) [of d' "bracket lim (unat t) d' u'" u'] OK(5) [of d' "Suc (bracket lim (unat t) d' u')" u']
        bracket_closest [OF pos _ _ _ _ t, of d' u' m']
      by (fastforce simp: visited_def legal_def split: if_splits)
    then show ?thesis using OK(1,2,4) s by (auto simp: visited_def Let_def)
  qed
qed

theorem clk_wzrd_solve_closest_witness:
  "\<exists>s. soct_clk_wzrd_solve pixel_lim 148500000
      \<lparr>div_int = 0, mult_eighths = 0, odiv_eighths = 0, achieved_hz = 0\<rparr> = (Wzrd_OK, s) \<and> achieved_hz s = 148500000"
proof -
  obtain r s where rs: "soct_clk_wzrd_solve pixel_lim 148500000
      \<lparr>div_int = 0, mult_eighths = 0, odiv_eighths = 0, achieved_hz = 0\<rparr> = (r, s)" by fastforce
  have l: "legal pixel_lim 4 297 50" and b: "bracket pixel_lim 148500000 4 50 = 297" and f: "freq pixel_lim 4 297 50 = 148500000"
    by (simp_all add: legal_def pixel_lim_def bracket_def freq_def)
  have u: "unat (148500000 :: u32) = 148500000" by simp
  have nz: "input_hz pixel_lim \<noteq> 0" "(148500000 :: u32) \<noteq> 0" by (simp_all add: pixel_lim_def)
  note T = clk_wzrd_solve_closest [OF nz rs, unfolded u]
  have "visited pixel_lim 148500000 4 297 50 \<and> distance (freq pixel_lim 4 297 50) 148500000 * 200 \<le> 148500000"
    using l b f by (simp add: visited_def distance_def)
  then have ok: "r = Wzrd_OK" using T by blast
  let ?f = "freq pixel_lim (unat (div_int s)) (unat (mult_eighths s)) (unat (odiv_eighths s))"
  have "achieved_hz s = of_nat ?f" using T ok by (simp add: Let_def)
  moreover have "legal pixel_lim 4 297 50 \<and>
      legal pixel_lim 4 (if 297 \<le> bracket pixel_lim 148500000 4 50 then bracket pixel_lim 148500000 4 50
        else Suc (bracket pixel_lim 148500000 4 50)) 50 \<longrightarrow>
      distance ?f 148500000 \<le> distance (freq pixel_lim 4 297 50) 148500000"
    using T ok unfolding Let_def by blast
  then have "distance ?f 148500000 \<le> 0" using l b f by (simp add: distance_def)
  then have "?f = 148500000" by (simp add: distance_def split: if_splits)
  ultimately show ?thesis using rs ok by simp
qed

text \<open>
  The configuration registers. For a setting in the ranges of the search, the register fields hold
  the divider and, in thousandths, exactly the multiplier and the output divider; the load is
  requested after the configuration and only when the wizard is locked.
\<close>

theorem clk_wzrd_registers:
  assumes "unat (div_int s) \<le> 106" "unat (mult_eighths s) \<le> 1024" "unat (odiv_eighths s) \<le> 1024"
  shows "take_bit 8 (cfg_mult_div s) = div_int s \<and>
    1000 * unat (take_bit 8 (drop_bit 8 (cfg_mult_div s))) + unat (take_bit 10 (drop_bit 16 (cfg_mult_div s))) =
      125 * unat (mult_eighths s) \<and>
    1000 * unat (take_bit 8 (cfg_clkout0 s)) + unat (take_bit 10 (drop_bit 8 (cfg_clkout0 s))) = 125 * unat (odiv_eighths s) \<and>
    (\<exists>cfg. (WZRD_CFG_MULT_DIV, cfg_mult_div s) \<in> set cfg \<and> (WZRD_CFG_CLKOUT0, cfg_clkout0 s) \<in> set cfg \<and>
      WZRD_APPLY \<notin> fst ` set cfg \<and>
      snd (soct_clk_wzrd_retune before after s) = cfg @ (if locked before then [(WZRD_APPLY, WZRD_APPLY_LOAD_SEN)] else []))"
proof -
  note m = eighths [OF assms(2)] and d = eighths [OF assms(3)]
  have t: "take_bit 8 (div_int s) = div_int s" "take_bit 8 (mult_eighths s div 8) = mult_eighths s div 8"
    "take_bit 10 (mult_eighths s mod 8 * 125) = mult_eighths s mod 8 * 125"
    "take_bit 8 (odiv_eighths s div 8) = odiv_eighths s div 8"
    "take_bit 10 (odiv_eighths s mod 8 * 125) = odiv_eighths s mod 8 * 125"
    by (rule take_bit_small; use assms(1) m d in simp)+
  show ?thesis
    using m(3) d(3) or_fields [OF t(1-3)] two_fields [OF t(4,5)]
    by (auto simp: cfg_mult_div_def cfg_clkout0_def soct_clk_wzrd_retune_def Let_def WZRD_APPLY_def
        WZRD_CFG_MULT_DIV_def WZRD_CFG_CLKOUT0_def WZRD_CFG_CLKOUT0_PHASE_def)
qed

theorem clk_wzrd_registers_witness:
  "take_bit 8 (cfg_mult_div \<lparr>div_int = 4, mult_eighths = 297, odiv_eighths = 50, achieved_hz = 148500000\<rparr>) = 4"
  using clk_wzrd_registers [of "\<lparr>div_int = 4, mult_eighths = 297, odiv_eighths = 50, achieved_hz = 148500000\<rparr>"]
  by simp

end
