(* ===== verification/Soctfb.thy ===== *)
theory Soctfb
  imports Soct_Prelude
begin

text \<open>
  Drawing on the framebuffer, \<open>baremetal/soctfb/soctfb.c\<close> and its font: memory is a map from
  addresses to bytes, a pixel three bytes (blue, green, red). Coordinates are 32-bit, as in the
  code, and their sums wrap around.
\<close>

section \<open>Font\<close>

definition SOCTFB_GLYPH_W :: u32 where "SOCTFB_GLYPH_W = 8"
definition SOCTFB_GLYPH_H :: nat where "SOCTFB_GLYPH_H = 16"

definition soctfb_font_digits :: "u8 list list" where
  "soctfb_font_digits =
    [[0x3C, 0x66, 0x6E, 0x76, 0x66, 0x66, 0x3C, 0x00],
     [0x18, 0x38, 0x18, 0x18, 0x18, 0x18, 0x7E, 0x00],
     [0x3C, 0x66, 0x06, 0x0C, 0x18, 0x30, 0x7E, 0x00],
     [0x3C, 0x66, 0x06, 0x1C, 0x06, 0x66, 0x3C, 0x00],
     [0x0C, 0x1C, 0x3C, 0x6C, 0x7E, 0x0C, 0x0C, 0x00],
     [0x7E, 0x60, 0x7C, 0x06, 0x06, 0x66, 0x3C, 0x00],
     [0x1C, 0x30, 0x60, 0x7C, 0x66, 0x66, 0x3C, 0x00],
     [0x7E, 0x06, 0x0C, 0x18, 0x30, 0x30, 0x30, 0x00],
     [0x3C, 0x66, 0x66, 0x3C, 0x66, 0x66, 0x3C, 0x00],
     [0x3C, 0x66, 0x66, 0x3E, 0x06, 0x0C, 0x38, 0x00]]"

definition soctfb_font_upper :: "u8 list list" where
  "soctfb_font_upper =
    [[0x18, 0x3C, 0x66, 0x66, 0x7E, 0x66, 0x66, 0x00],
     [0x7C, 0x66, 0x66, 0x7C, 0x66, 0x66, 0x7C, 0x00],
     [0x3C, 0x66, 0x60, 0x60, 0x60, 0x66, 0x3C, 0x00],
     [0x78, 0x6C, 0x66, 0x66, 0x66, 0x6C, 0x78, 0x00],
     [0x7E, 0x60, 0x60, 0x7C, 0x60, 0x60, 0x7E, 0x00],
     [0x7E, 0x60, 0x60, 0x7C, 0x60, 0x60, 0x60, 0x00],
     [0x3C, 0x66, 0x60, 0x6E, 0x66, 0x66, 0x3E, 0x00],
     [0x66, 0x66, 0x66, 0x7E, 0x66, 0x66, 0x66, 0x00],
     [0x3C, 0x18, 0x18, 0x18, 0x18, 0x18, 0x3C, 0x00],
     [0x06, 0x06, 0x06, 0x06, 0x06, 0x66, 0x3C, 0x00],
     [0x66, 0x6C, 0x78, 0x70, 0x78, 0x6C, 0x66, 0x00],
     [0x60, 0x60, 0x60, 0x60, 0x60, 0x60, 0x7E, 0x00],
     [0x63, 0x77, 0x7F, 0x6B, 0x63, 0x63, 0x63, 0x00],
     [0x66, 0x76, 0x7E, 0x7E, 0x6E, 0x66, 0x66, 0x00],
     [0x3C, 0x66, 0x66, 0x66, 0x66, 0x66, 0x3C, 0x00],
     [0x7C, 0x66, 0x66, 0x7C, 0x60, 0x60, 0x60, 0x00],
     [0x3C, 0x66, 0x66, 0x66, 0x6A, 0x6C, 0x36, 0x00],
     [0x7C, 0x66, 0x66, 0x7C, 0x78, 0x6C, 0x66, 0x00],
     [0x3C, 0x66, 0x60, 0x3C, 0x06, 0x66, 0x3C, 0x00],
     [0x7E, 0x18, 0x18, 0x18, 0x18, 0x18, 0x18, 0x00],
     [0x66, 0x66, 0x66, 0x66, 0x66, 0x66, 0x3C, 0x00],
     [0x66, 0x66, 0x66, 0x66, 0x66, 0x3C, 0x18, 0x00],
     [0x63, 0x63, 0x63, 0x6B, 0x7F, 0x77, 0x63, 0x00],
     [0x66, 0x66, 0x3C, 0x18, 0x3C, 0x66, 0x66, 0x00],
     [0x66, 0x66, 0x66, 0x3C, 0x18, 0x18, 0x18, 0x00],
     [0x7E, 0x06, 0x0C, 0x18, 0x30, 0x60, 0x7E, 0x00]]"

definition soctfb_font_punct :: "u8 list list" where
  "soctfb_font_punct =
    [[0x00, 0x00, 0x00, 0x00, 0x00, 0x00, 0x00, 0x00],
     [0x00, 0x00, 0x00, 0x00, 0x00, 0x18, 0x18, 0x00],
     [0x62, 0x64, 0x08, 0x10, 0x26, 0x46, 0x00, 0x00],
     [0x00, 0x18, 0x18, 0x00, 0x18, 0x18, 0x00, 0x00],
     [0x00, 0x00, 0x00, 0x7E, 0x00, 0x00, 0x00, 0x00],
     [0x00, 0x00, 0x00, 0x00, 0x00, 0x18, 0x18, 0x30],
     [0x02, 0x04, 0x08, 0x10, 0x20, 0x40, 0x00, 0x00]]"

definition soctfb_font_box :: "u8 list" where
  "soctfb_font_box = [0x7E, 0x42, 0x42, 0x42, 0x42, 0x42, 0x7E, 0x00]"

definition soctfb_glyph :: "char \<Rightarrow> u8 list" where
  "soctfb_glyph c =
     (let k = of_char c :: nat
      in if 48 \<le> k \<and> k \<le> 57 then soctfb_font_digits ! (k - 48)
         else if 65 \<le> k \<and> k \<le> 90 then soctfb_font_upper ! (k - 65)
         else if 97 \<le> k \<and> k \<le> 122 then soctfb_font_upper ! (k - 97)
         else if c = CHR '' '' then soctfb_font_punct ! 0
         else if c = CHR ''.'' then soctfb_font_punct ! 1
         else if c = CHR ''%'' then soctfb_font_punct ! 2
         else if c = CHR '':'' then soctfb_font_punct ! 3
         else if c = CHR ''-'' then soctfb_font_punct ! 4
         else if c = CHR '','' then soctfb_font_punct ! 5
         else if c = CHR ''/'' then soctfb_font_punct ! 6
         else soctfb_font_box)"

section \<open>Pixels\<close>

record soctfb =
  width :: u32
  height :: u32
  pixels :: u64

type_synonym bytes = "u64 \<Rightarrow> u8"

definition px_at :: "soctfb \<Rightarrow> u32 \<Rightarrow> u32 \<Rightarrow> u64" where
  "px_at fb x y = pixels fb + (ucast y * ucast (width fb) + ucast x) * 3"

definition put3 :: "u64 \<Rightarrow> u8 \<Rightarrow> u8 \<Rightarrow> u8 \<Rightarrow> bytes \<Rightarrow> bytes" where
  "put3 p b g r m = m(p := b, p + 1 := g, p + 2 := r)"

definition px_set :: "u64 \<Rightarrow> u32 \<Rightarrow> bytes \<Rightarrow> bytes" where
  "px_set p rgb = put3 p (ucast rgb) (ucast (drop_bit 8 rgb)) (ucast (drop_bit 16 rgb))"

text \<open>The box clamped to the frame, \<open>None\<close> when nothing remains.\<close>

definition clip :: "soctfb \<Rightarrow> u32 \<Rightarrow> u32 \<Rightarrow> u32 \<Rightarrow> u32 \<Rightarrow> (u32 \<times> u32) option" where
  "clip fb x y w h =
     (if x \<ge> width fb \<or> y \<ge> height fb then None
      else
        let w = (if x + w > width fb then width fb - x else w);
            h = (if y + h > height fb then height fb - y else h)
        in if w \<noteq> 0 \<and> h \<noteq> 0 then Some (w, h) else None)"

definition soctfb_pixel :: "soctfb \<Rightarrow> u32 \<Rightarrow> u32 \<Rightarrow> u32 \<Rightarrow> bytes \<Rightarrow> bytes" where
  "soctfb_pixel fb x y rgb m = (if x < width fb \<and> y < height fb then px_set (px_at fb x y) rgb m else m)"

section \<open>Boxes\<close>

fun fill_row :: "nat \<Rightarrow> u64 \<Rightarrow> u32 \<Rightarrow> bytes \<Rightarrow> bytes" where
  "fill_row 0 p rgb m = m"
| "fill_row (Suc n) p rgb m = fill_row n (p + 3) rgb (px_set p rgb m)"

definition soctfb_fill :: "soctfb \<Rightarrow> u32 \<Rightarrow> u32 \<Rightarrow> u32 \<Rightarrow> u32 \<Rightarrow> u32 \<Rightarrow> bytes \<Rightarrow> bytes" where
  "soctfb_fill fb x y w h rgb m =
     (case clip fb x y w h of
        None \<Rightarrow> m
      | Some (w, h) \<Rightarrow> fold (\<lambda>r. fill_row (unat w) (px_at fb x (y + of_nat r)) rgb) [0..<unat h] m)"

definition soctfb_rect :: "soctfb \<Rightarrow> u32 \<Rightarrow> u32 \<Rightarrow> u32 \<Rightarrow> u32 \<Rightarrow> u32 \<Rightarrow> u32 \<Rightarrow> bytes \<Rightarrow> bytes" where
  "soctfb_rect fb x y w h thickness rgb m =
     (if thickness * 2 \<ge> w \<or> thickness * 2 \<ge> h then soctfb_fill fb x y w h rgb m
      else
        soctfb_fill fb (x + w - thickness) (y + thickness) thickness (h - 2 * thickness) rgb
          (soctfb_fill fb x (y + thickness) thickness (h - 2 * thickness) rgb
            (soctfb_fill fb x (y + h - thickness) w thickness rgb
              (soctfb_fill fb x y w thickness rgb m))))"

section \<open>Text\<close>

definition glyph_row :: "soctfb \<Rightarrow> u32 \<Rightarrow> u32 \<Rightarrow> u32 \<Rightarrow> u8 \<Rightarrow> bytes \<Rightarrow> bytes" where
  "glyph_row fb x y rgb bits m =
     fold (\<lambda>c m. if bits AND drop_bit c 0x80 \<noteq> 0 then soctfb_pixel fb (x + of_nat c) y rgb m else m)
       [0..<unat SOCTFB_GLYPH_W] m"

fun soctfb_text :: "soctfb \<Rightarrow> u32 \<Rightarrow> u32 \<Rightarrow> string \<Rightarrow> u32 \<Rightarrow> bytes \<Rightarrow> u32 \<times> bytes" where
  "soctfb_text fb x y [] rgb m = (x, m)"
| "soctfb_text fb x y (c # s) rgb m =
     soctfb_text fb (x + SOCTFB_GLYPH_W) y s rgb
       (fold (\<lambda>r. glyph_row fb x (y + of_nat r) rgb (soctfb_glyph c ! (r div 2))) [0..<SOCTFB_GLYPH_H] m)"

section \<open>Images\<close>

fun gray_row :: "nat \<Rightarrow> u64 \<Rightarrow> (nat \<Rightarrow> u64) \<Rightarrow> nat \<Rightarrow> bytes \<Rightarrow> bytes" where
  "gray_row 0 p src c m = m"
| "gray_row (Suc n) p src c m = gray_row n (p + 3) src (Suc c) (put3 p (m (src c)) (m (src c)) (m (src c)) m)"

definition soctfb_blit_gray :: "soctfb \<Rightarrow> u32 \<Rightarrow> u32 \<Rightarrow> u32 \<Rightarrow> u32 \<Rightarrow> u64 \<Rightarrow> bytes \<Rightarrow> bytes" where
  "soctfb_blit_gray fb x y w h gray m =
     (let src_w = w
      in case clip fb x y w h of
           None \<Rightarrow> m
         | Some (w, h) \<Rightarrow>
             fold (\<lambda>r. gray_row (unat w) (px_at fb x (y + of_nat r)) (\<lambda>c. gray + of_nat r * ucast src_w + of_nat c) 0)
               [0..<unat h] m)"

definition soctfb_blit_gray_scaled :: "soctfb \<Rightarrow> u32 \<Rightarrow> u32 \<Rightarrow> u32 \<Rightarrow> u32 \<Rightarrow> u64 \<Rightarrow> u32 \<Rightarrow> bytes \<Rightarrow> bytes" where
  "soctfb_blit_gray_scaled fb x y w h gray scale m =
     (if scale = 0 then m
      else case clip fb x y (w * scale) (h * scale) of
             None \<Rightarrow> m
           | Some (ow, oh) \<Rightarrow>
               fold (\<lambda>r. gray_row (unat ow) (px_at fb x (y + of_nat r))
                       (\<lambda>c. gray + of_nat (r div unat scale) * ucast w + of_nat (c div unat scale)) 0)
                 [0..<unat oh] m)"

section \<open>Specification\<close>

definition frame_bytes :: "soctfb \<Rightarrow> nat" where
  "frame_bytes fb = unat (height fb) * unat (width fb) * 3"

definition frame_ok :: "soctfb \<Rightarrow> bool" where
  "frame_ok fb \<longleftrightarrow> unat (pixels fb) + frame_bytes fb \<le> 2 ^ 64"

definition color :: "u32 \<Rightarrow> u8 list" where
  "color rgb = [ucast rgb, ucast (drop_bit 8 rgb), ucast (drop_bit 16 rgb)]"

definition pixel :: "soctfb \<Rightarrow> bytes \<Rightarrow> u32 \<Rightarrow> u32 \<Rightarrow> u8 list" where
  "pixel fb m x y = [m (px_at fb x y), m (px_at fb x y + 1), m (px_at fb x y + 2)]"

text \<open>Only bytes of the frame differ.\<close>

definition in_frame :: "soctfb \<Rightarrow> u64 \<Rightarrow> bool" where
  "in_frame fb a \<longleftrightarrow> unat (a - pixels fb) < frame_bytes fb"

definition frame_only :: "soctfb \<Rightarrow> bytes \<Rightarrow> bytes \<Rightarrow> bool" where
  "frame_only fb m m' \<longleftrightarrow> (\<forall>a. \<not> in_frame fb a \<longrightarrow> m' a = m a)"

text \<open>The pixels with an index in \<open>K\<close> have the bytes \<open>f\<close> gives, and all other memory is as before.\<close>

definition painted :: "soctfb \<Rightarrow> nat set \<Rightarrow> (nat \<Rightarrow> u8 list) \<Rightarrow> bytes \<Rightarrow> bytes \<Rightarrow> bool" where
  "painted fb K f m m' \<longleftrightarrow> (\<forall>i < 2 ^ 64. m' (pixels fb + of_nat i) =
     (if i < frame_bytes fb \<and> i div 3 \<in> K then f (i div 3) ! (i mod 3) else m (pixels fb + of_nat i)))"

text \<open>The indices of the pixels of a box.\<close>

definition box :: "soctfb \<Rightarrow> nat \<Rightarrow> nat \<Rightarrow> nat \<Rightarrow> nat \<Rightarrow> nat set" where
  "box fb x y w h = (\<Union>r<h. {(y + r) * unat (width fb) + x..<(y + r) * unat (width fb) + x + w})"

definition demo_fb :: soctfb where
  "demo_fb = \<lparr>width = 4, height = 3, pixels = 0x1000\<rparr>"

section \<open>Lemmas\<close>

lemma painted_refl: "painted fb {} f m m"
  by (simp add: painted_def)

lemma painted_trans:
  "painted fb K f m m' \<Longrightarrow> painted fb L f m' m'' \<Longrightarrow> painted fb (K \<union> L) f m m''"
  by (auto simp: painted_def)

lemma painted_cong: "painted fb K f m m' \<Longrightarrow> (\<And>k. k \<in> K \<Longrightarrow> f k = g k) \<Longrightarrow> painted fb K g m m'"
  by (simp add: painted_def)

lemma of_nat_u64_eq: "i < 2 ^ 64 \<Longrightarrow> j < 2 ^ 64 \<Longrightarrow> (of_nat i :: u64) = of_nat j \<longleftrightarrow> i = j"
  by (simp add: word_unat_eq_iff unat_of_nat_small)

lemma put3_painted:
  assumes "Suc k * 3 \<le> frame_bytes fb" "frame_ok fb"
  shows "painted fb {k} (\<lambda>_. [b, g, r]) m (put3 (pixels fb + of_nat (3 * k)) b g r m)"
  unfolding painted_def
proof (intro allI impI)
  fix i :: nat assume i: "i < 2 ^ 64"
  have k: "3 * k + 2 < 2 ^ 64" using assms by (simp add: frame_ok_def)
  have e: "pixels fb + of_nat i = pixels fb + of_nat (3 * k) + of_nat j \<longleftrightarrow> i = 3 * k + j" if "j \<le> 2" for j
    using of_nat_u64_eq [of i "3 * k + j"] i k that by (simp add: add.assoc)
  have v: "put3 (pixels fb + of_nat (3 * k)) b g r m (pixels fb + of_nat i) =
      (if i = 3 * k + 2 then r else if i = 3 * k + 1 then g else if i = 3 * k then b else m (pixels fb + of_nat i))"
    using e [of 0] e [of 1] e [of 2] by (simp add: put3_def)
  consider "i = 3 * k" | "i = 3 * k + 1" | "i = 3 * k + 2" | "i div 3 \<noteq> k" by linarith
  then show "put3 (pixels fb + of_nat (3 * k)) b g r m (pixels fb + of_nat i) =
      (if i < frame_bytes fb \<and> i div 3 \<in> {k} then [b, g, r] ! (i mod 3) else m (pixels fb + of_nat i))"
  proof cases
    case 1
    then have "i div 3 = k" "i mod 3 = 0" by presburger+
    moreover have "i < frame_bytes fb" using 1 assms(1) by simp
    ultimately show ?thesis unfolding v using 1 by simp
  next
    case 2
    then have "i div 3 = k" "i mod 3 = 1" by presburger+
    moreover have "i < frame_bytes fb" using 2 assms(1) by simp
    ultimately show ?thesis unfolding v using 2 by simp
  next
    case 3
    then have "i div 3 = k" "i mod 3 = 2" by presburger+
    moreover have "i < frame_bytes fb" using 3 assms(1) by simp
    ultimately show ?thesis unfolding v using 3 by simp
  next
    case 4
    then have "i \<noteq> 3 * k" "i \<noteq> 3 * k + 1" "i \<noteq> 3 * k + 2" by auto
    then show ?thesis unfolding v using 4 by simp
  qed
qed

lemma px_set_painted:
  assumes "Suc k * 3 \<le> frame_bytes fb" "frame_ok fb"
  shows "painted fb {k} (\<lambda>_. color rgb) m (px_set (pixels fb + of_nat (3 * k)) rgb m)"
  unfolding px_set_def color_def using assms by (rule put3_painted)

lemma next_pixel: "pixels fb + of_nat (3 * k) + 3 = pixels fb + of_nat (3 * Suc k)"
  by simp

lemma fill_row_painted:
  assumes "(k + n) * 3 \<le> frame_bytes fb" "frame_ok fb"
  shows "painted fb {k..<k + n} (\<lambda>_. color rgb) m (fill_row n (pixels fb + of_nat (3 * k)) rgb m)"
  using assms(1)
proof (induction n arbitrary: k m)
  case 0
  show ?case by (simp add: painted_refl)
next
  case (Suc n)
  have "painted fb {k} (\<lambda>_. color rgb) m (px_set (pixels fb + of_nat (3 * k)) rgb m)"
    using Suc.prems assms(2) by (intro px_set_painted) simp_all
  moreover have "painted fb {Suc k..<Suc k + n} (\<lambda>_. color rgb) (px_set (pixels fb + of_nat (3 * k)) rgb m)
      (fill_row n (pixels fb + of_nat (3 * Suc k)) rgb (px_set (pixels fb + of_nat (3 * k)) rgb m))"
    using Suc.prems by (intro Suc.IH) simp
  ultimately have "painted fb ({k} \<union> {Suc k..<Suc k + n}) (\<lambda>_. color rgb) m
      (fill_row (Suc n) (pixels fb + of_nat (3 * k)) rgb m)"
    unfolding fill_row.simps next_pixel by (rule painted_trans)
  moreover have "{k} \<union> {Suc k..<Suc k + n} = {k..<k + Suc n}" by auto
  ultimately show ?case by simp
qed

text \<open>Rows of a box that lies in the frame.\<close>

lemma frame_only_trans [trans]: "frame_only fb m m' \<Longrightarrow> frame_only fb m' m'' \<Longrightarrow> frame_only fb m m''"
  by (simp add: frame_only_def)

lemma painted_frame_only: "painted fb K f m m' \<Longrightarrow> frame_only fb m m'"
proof -
  assume p: "painted fb K f m m'"
  have "m' a = m a" if "\<not> in_frame fb a" for a
  proof -
    have "pixels fb + of_nat (unat (a - pixels fb)) = a" by simp
    moreover have "unat (a - pixels fb) < 2 ^ 64" using unsigned_less [of "a - pixels fb"] by simp
    ultimately show ?thesis using p that unfolding painted_def in_frame_def by metis
  qed
  then show ?thesis by (simp add: frame_only_def)
qed

lemma rows_painted:
  assumes "\<And>r m'. r < h \<Longrightarrow> frame_only fb m m' \<Longrightarrow> painted fb (K r) f m' (R r m')"
  shows "painted fb (\<Union>r<h. K r) f m (fold R [0..<h] m)"
  using assms
proof (induction h)
  case 0
  show ?case by (simp add: painted_refl)
next
  case (Suc h)
  have P: "painted fb (\<Union>r<h. K r) f m (fold R [0..<h] m)" using Suc by simp
  then have "painted fb ((\<Union>r<h. K r) \<union> K h) f m (R h (fold R [0..<h] m))"
    using Suc.prems [of h "fold R [0..<h] m"] painted_frame_only by (intro painted_trans [OF P]) auto
  then show ?case by (simp add: lessThan_Suc Un_commute)
qed

lemma px_at_index: "px_at fb x y = pixels fb + of_nat (3 * (unat y * unat (width fb) + unat x))"
  unfolding px_at_def ucast_up_of_nat by (simp only: of_nat_mult of_nat_add of_nat_numeral mult.commute)

lemma row_bound:
  fixes W H :: nat
  assumes "x + w \<le> W" "y < H"
  shows "y * W + x + w \<le> H * W"
proof -
  have "Suc y * W \<le> H * W" using assms(2) by (intro mult_le_mono1) simp
  then show ?thesis using assms(1) by simp
qed

lemma index_in_box:
  assumes "X < unat (width fb)" "x + w \<le> unat (width fb)"
  shows "Y * unat (width fb) + X \<in> box fb x y w h \<longleftrightarrow> x \<le> X \<and> X < x + w \<and> y \<le> Y \<and> Y < y + h"
proof
  let ?W = "unat (width fb)"
  assume "Y * ?W + X \<in> box fb x y w h"
  then obtain r where r: "r < h" "(y + r) * ?W + x \<le> Y * ?W + X" "Y * ?W + X < (y + r) * ?W + x + w"
    by (auto simp: box_def)
  have "Y = (Y * ?W + X) div ?W" using assms(1) by simp
  moreover have "(Y * ?W + X) div ?W = y + r"
  proof (rule div_nat_eqI)
    show "?W * (y + r) \<le> Y * ?W + X" "Y * ?W + X < ?W * Suc (y + r)"
      using r assms(2) by (simp_all add: algebra_simps)
  qed
  ultimately have "Y = y + r" by simp
  with r show "x \<le> X \<and> X < x + w \<and> y \<le> Y \<and> Y < y + h" by simp
next
  assume "x \<le> X \<and> X < x + w \<and> y \<le> Y \<and> Y < y + h"
  then show "Y * unat (width fb) + X \<in> box fb x y w h"
    unfolding box_def by (intro UN_I [of "Y - y"]) auto
qed

text \<open>Clipping, when the sums of coordinates do not wrap around.\<close>

lemma clip_cases:
  assumes "unat x + unat w < 2 ^ 32" "unat y + unat h < 2 ^ 32"
  obtains "clip fb x y w h = None" "\<And>X Y. X < width fb \<Longrightarrow> Y < height fb \<Longrightarrow> \<not> (x \<le> X \<and> X < x + w \<and> y \<le> Y \<and> Y < y + h)"
  | w' h' where "clip fb x y w h = Some (w', h')" "unat x + unat w' \<le> unat (width fb)" "unat y + unat h' \<le> unat (height fb)"
      "unat w' \<le> unat w" "unat h' \<le> unat h"
      "\<And>X Y. X < width fb \<Longrightarrow> Y < height fb \<Longrightarrow>
        (unat x \<le> unat X \<and> unat X < unat x + unat w' \<and> unat y \<le> unat Y \<and> unat Y < unat y + unat h') \<longleftrightarrow>
        (x \<le> X \<and> X < x + w \<and> y \<le> Y \<and> Y < y + h)"
proof -
  have s: "unat (x + w) = unat x + unat w" "unat (y + h) = unat y + unat h"
    using assms by (simp_all add: unat_add_no_wrap)
  let ?w = "if x + w > width fb then width fb - x else w" and ?h = "if y + h > height fb then height fb - y else h"
  have uw: "unat ?w = (if unat x + unat w > unat (width fb) then unat (width fb) - unat x else unat w)" if "x < width fb"
    using that s by (simp add: word_less_nat_alt unat_diff_le word_le_nat_alt)
  have uh: "unat ?h = (if unat y + unat h > unat (height fb) then unat (height fb) - unat y else unat h)" if "y < height fb"
    using that s by (simp add: word_less_nat_alt unat_diff_le word_le_nat_alt)
  note U = word_less_nat_alt word_le_nat_alt s
  show thesis
  proof (cases "x \<ge> width fb \<or> y \<ge> height fb")
    case True
    then show thesis by (intro that(1)) (auto simp: clip_def)
  next
    case False
    then have in_f: "x < width fb" "y < height fb" by (simp_all add: not_le)
    note uw = uw [OF in_f(1)] and uh = uh [OF in_f(2)]
    show thesis
    proof (cases "?w = 0 \<or> ?h = 0")
      case True
      then have z: "unat w = 0 \<or> unat h = 0" using uw uh in_f by (auto simp: U split: if_splits)
      show thesis using False True z by (intro that(1)) (auto simp: clip_def Let_def U)
    next
      case nz: False
      have c: "clip fb x y w h = Some (?w, ?h)" using False nz by (simp only: clip_def Let_def) auto
      show thesis
      proof (rule that(2) [OF c])
        show "unat x + unat ?w \<le> unat (width fb)" "unat y + unat ?h \<le> unat (height fb)" "unat ?w \<le> unat w" "unat ?h \<le> unat h"
          using uw uh in_f by (auto simp: U split: if_splits)
        show "(unat x \<le> unat X \<and> unat X < unat x + unat ?w \<and> unat y \<le> unat Y \<and> unat Y < unat y + unat ?h) \<longleftrightarrow>
            (x \<le> X \<and> X < x + w \<and> y \<le> Y \<and> Y < y + h)" if "X < width fb" "Y < height fb" for X Y
          using that uw uh in_f unfolding U by auto
      qed
    qed
  qed
qed

lemma index_less:
  fixes W :: nat
  assumes "X < W" "Y < H"
  shows "Suc (Y * W + X) * 3 \<le> H * W * 3"
  using row_bound [of X 1 W Y H] assms by simp

lemma byte_index: "(j :: nat) < 3 \<Longrightarrow> (3 * k + j) div 3 = k" "j < 3 \<Longrightarrow> (3 * k + j) mod 3 = j"
  by presburger+

lemma painted_pixel:
  assumes "painted fb K f m m'" "frame_ok fb" "X < width fb" "Y < height fb"
    and "\<And>k. k \<in> K \<Longrightarrow> length (f k) = 3"
  shows "pixel fb m' X Y =
    (if unat Y * unat (width fb) + unat X \<in> K then f (unat Y * unat (width fb) + unat X) else pixel fb m X Y)"
proof -
  let ?k = "unat Y * unat (width fb) + unat X"
  have k: "Suc ?k * 3 \<le> frame_bytes fb"
    using index_less [of "unat X" "unat (width fb)" "unat Y" "unat (height fb)"] assms(3,4)
    by (simp add: frame_bytes_def word_less_nat_alt)
  have "m' (px_at fb X Y + of_nat j) = (if ?k \<in> K then f ?k ! j else m (px_at fb X Y + of_nat j))" if "j < 3" for j
  proof -
    have "px_at fb X Y + of_nat j = pixels fb + of_nat (3 * ?k + j)" unfolding px_at_index by simp
    moreover have "3 * ?k + j < frame_bytes fb" using that k by simp
    moreover from this have "3 * ?k + j < 2 ^ 64" using assms(2) by (simp add: frame_ok_def)
    moreover note byte_index [OF that, of ?k]
    ultimately show ?thesis using assms(1) by (simp only: painted_def simp_thms)
  qed
  from this [of 0] this [of 1] this [of 2]
  have b: "m' (px_at fb X Y) = (if ?k \<in> K then f ?k ! 0 else m (px_at fb X Y))"
    "m' (px_at fb X Y + 1) = (if ?k \<in> K then f ?k ! 1 else m (px_at fb X Y + 1))"
    "m' (px_at fb X Y + 2) = (if ?k \<in> K then f ?k ! 2 else m (px_at fb X Y + 2))"
    by simp_all
  have "f ?k = [f ?k ! 0, f ?k ! 1, f ?k ! 2]" if "?k \<in> K"
    using assms(5) [OF that] by (cases "f ?k"; cases "tl (f ?k)"; cases "tl (tl (f ?k))") auto
  then show ?thesis unfolding pixel_def b by simp
qed

lemma row_start:
  assumes "r < unat h'" "unat y + unat h' \<le> unat (height fb)"
  shows "px_at fb x (y + of_nat r) = pixels fb + of_nat (3 * ((unat y + r) * unat (width fb) + unat x))"
proof -
  have "unat (height fb) < 2 ^ 32" using unsigned_less [of "height fb"] by simp
  then have "unat (y + of_nat r) = unat y + r"
    using assms by (simp add: unat_add_no_wrap unat_of_nat_small)
  then show ?thesis by (simp add: px_at_index)
qed

lemma row_in_frame:
  assumes "unat x + w' \<le> unat (width fb)" "r < h'" "unat y + h' \<le> unat (height fb)"
  shows "((unat y + r) * unat (width fb) + unat x + w') * 3 \<le> frame_bytes fb"
  using row_bound [of "unat x" w' "unat (width fb)" "unat y + r" "unat (height fb)"] assms
  by (simp add: frame_bytes_def)

lemma fill_painted:
  assumes "frame_ok fb" "clip fb x y w h = Some (w', h')"
    and "unat x + unat w' \<le> unat (width fb)" "unat y + unat h' \<le> unat (height fb)"
  shows "painted fb (box fb (unat x) (unat y) (unat w') (unat h')) (\<lambda>_. color rgb) m (soctfb_fill fb x y w h rgb m)"
  unfolding box_def soctfb_fill_def assms(2) option.case prod.case
proof (rule rows_painted)
  fix r m assume r: "r < unat h'"
  show "painted fb {(unat y + r) * unat (width fb) + unat x..<(unat y + r) * unat (width fb) + unat x + unat w'}
      (\<lambda>_. color rgb) m (fill_row (unat w') (px_at fb x (y + of_nat r)) rgb m)"
    unfolding row_start [OF r assms(4)]
    using row_in_frame [OF assms(3) r assms(4)] assms(1) by (rule fill_row_painted)
qed

text \<open>Images with their source outside the frame.\<close>

lemma gray_row_painted:
  assumes "(k + n) * 3 \<le> frame_bytes fb" "frame_ok fb" "\<And>j. j < n \<Longrightarrow> \<not> in_frame fb (src (c + j))"
  shows "painted fb {k..<k + n} (\<lambda>i. replicate 3 (m (src (c + (i - k))))) m (gray_row n (pixels fb + of_nat (3 * k)) src c m)"
  using assms(1,3)
proof (induction n arbitrary: k c m)
  case 0
  show ?case by (simp add: painted_refl)
next
  case (Suc n)
  let ?v = "m (src c)" and ?f = "\<lambda>i. replicate 3 (m (src (c + (i - k))))"
  let ?m = "put3 (pixels fb + of_nat (3 * k)) ?v ?v ?v m"
  have 1: "painted fb {k} (\<lambda>_. [?v, ?v, ?v]) m ?m"
    using Suc.prems(1) assms(2) by (intro put3_painted) simp_all
  have "frame_only fb m ?m" using 1 by (rule painted_frame_only)
  then have same: "?m (src (Suc c + j)) = m (src (Suc c + j))" if "j < n" for j
    using Suc.prems(2) [of "Suc j"] that by (simp add: frame_only_def)
  have "painted fb {Suc k..<Suc k + n} (\<lambda>i. replicate 3 (?m (src (Suc c + (i - Suc k))))) ?m
      (gray_row n (pixels fb + of_nat (3 * Suc k)) src (Suc c) ?m)"
    using Suc.prems(1) Suc.prems(2) [of "Suc _"] by (intro Suc.IH) simp_all
  then have "painted fb {Suc k..<Suc k + n} ?f ?m (gray_row n (pixels fb + of_nat (3 * Suc k)) src (Suc c) ?m)"
  proof (rule painted_cong)
    fix i assume i: "i \<in> {Suc k..<Suc k + n}"
    then have e: "Suc c + (i - Suc k) = c + (i - k)" and n: "i - Suc k < n" by auto
    show "replicate 3 (?m (src (Suc c + (i - Suc k)))) = ?f i" using same [OF n] unfolding e by simp
  qed
  moreover have "painted fb {k} ?f m ?m" using 1 by (rule painted_cong) (simp add: numeral_3_eq_3)
  ultimately have "painted fb ({k} \<union> {Suc k..<Suc k + n}) ?f m (gray_row (Suc n) (pixels fb + of_nat (3 * k)) src c m)"
    unfolding gray_row.simps next_pixel by (intro painted_trans)
  moreover have "{k} \<union> {Suc k..<Suc k + n} = {k..<k + Suc n}" by auto
  ultimately show ?case by simp
qed

lemma blit_painted:
  assumes "frame_ok fb" "unat x + w' \<le> unat (width fb)" "unat y + unat h' \<le> unat (height fb)"
    and src: "\<And>r c. r < unat h' \<Longrightarrow> c < w' \<Longrightarrow> \<not> in_frame fb (src r c)"
  shows "painted fb (box fb (unat x) (unat y) w' (unat h'))
    (\<lambda>i. replicate 3 (m (src (i div unat (width fb) - unat y) (i mod unat (width fb) - unat x)))) m
    (fold (\<lambda>r. gray_row w' (px_at fb x (y + of_nat r)) (src r) 0) [0..<unat h'] m)"
  unfolding box_def
proof (rule rows_painted)
  fix r m' assume r: "r < unat h'" and fo: "frame_only fb m m'"
  let ?W = "unat (width fb)" and ?k = "(unat y + r) * unat (width fb) + unat x"
  have "painted fb {?k..<?k + w'} (\<lambda>i. replicate 3 (m' (src r (0 + (i - ?k))))) m'
      (gray_row w' (px_at fb x (y + of_nat r)) (src r) 0 m')"
    unfolding row_start [OF r assms(3)]
    using row_in_frame [OF assms(2) r assms(3)] assms(1) by (rule gray_row_painted) (simp add: src r)
  then show "painted fb {?k..<?k + w'} (\<lambda>i. replicate 3 (m (src (i div ?W - unat y) (i mod ?W - unat x)))) m'
      (gray_row w' (px_at fb x (y + of_nat r)) (src r) 0 m')"
  proof (rule painted_cong)
    fix i assume i: "i \<in> {?k..<?k + w'}"
    then obtain c where c: "i = (unat x + c) + (unat y + r) * ?W" "c < w'"
      by (auto intro!: that [of "i - ?k"])
    have "i div ?W = unat y + r" "i mod ?W = unat x + c" using c assms(2) by simp_all
    moreover have "i - ?k = c" using c by simp
    ultimately show "replicate 3 (m' (src r (0 + (i - ?k)))) = replicate 3 (m (src (i div ?W - unat y) (i mod ?W - unat x)))"
      using fo src [OF r c(2)] by (simp add: frame_only_def)
  qed
qed

lemma scaled_index:
  fixes n scale :: u32
  assumes "0 < scale" "r < unat (n * scale)"
  shows "r div unat scale < unat n"
proof -
  have "unat (n * scale) \<le> unat n * unat scale" by (simp add: unat_word_ariths)
  then have "r < unat n * unat scale" using assms(2) by simp
  then show ?thesis by (simp add: less_mult_imp_div_less)
qed

text \<open>Drawing that stays in the frame.\<close>

lemma pixel_frame_only:
  assumes "frame_ok fb"
  shows "frame_only fb m (soctfb_pixel fb x y rgb m)"
proof (cases "x < width fb \<and> y < height fb")
  case True
  have "painted fb {unat y * unat (width fb) + unat x} (\<lambda>_. color rgb) m (px_set (px_at fb x y) rgb m)"
    unfolding px_at_index
    using index_less [of "unat x" "unat (width fb)" "unat y" "unat (height fb)"] True assms
    by (intro px_set_painted) (simp_all add: frame_bytes_def word_less_nat_alt)
  then show ?thesis using True by (simp add: soctfb_pixel_def painted_frame_only)
qed (auto simp: soctfb_pixel_def frame_only_def)

lemma fold_frame_only:
  assumes "\<And>x m. frame_only fb m (f x m)"
  shows "frame_only fb m (fold f xs m)"
proof (induction xs arbitrary: m)
  case (Cons x xs)
  then show ?case using assms frame_only_trans by (metis fold_simps(2))
qed (simp add: frame_only_def)

lemma text_frame_only:
  assumes "frame_ok fb"
  shows "frame_only fb m (snd (soctfb_text fb x y s rgb m))"
proof -
  have row: "frame_only fb m (glyph_row fb x y rgb bits m)" for x y bits m
    unfolding glyph_row_def by (rule fold_frame_only) (use pixel_frame_only [OF assms] in \<open>auto simp: frame_only_def\<close>)
  show ?thesis
  proof (induction s arbitrary: x m)
    case (Cons c s)
    show ?case unfolding soctfb_text.simps
      by (rule frame_only_trans [OF fold_frame_only Cons.IH]) (rule row)
  qed (simp add: frame_only_def)
qed

lemma fill_frame_only:
  assumes "frame_ok fb" "unat x + unat w < 2 ^ 32" "unat y + unat h < 2 ^ 32"
  shows "frame_only fb m (soctfb_fill fb x y w h rgb m)"
  using assms(2,3)
proof (cases rule: clip_cases [of x w y h fb])
  case 1
  then show ?thesis by (simp add: soctfb_fill_def frame_only_def)
next
  case (2 w' h')
  show ?thesis by (rule painted_frame_only [OF fill_painted [OF assms(1) 2(1-3)]])
qed

section \<open>Properties\<close>

text \<open>
  C9. Filling a box. For a box whose corner sums do not wrap around, \<open>soctfb_fill\<close> sets exactly the
  pixels of the frame inside the box to the colour and changes no byte outside the frame.
\<close>

theorem soctfb_fill_exact:
  assumes "frame_ok fb" "unat x + unat w < 2 ^ 32" "unat y + unat h < 2 ^ 32"
  shows "(\<forall>X Y. X < width fb \<and> Y < height fb \<longrightarrow>
      pixel fb (soctfb_fill fb x y w h rgb m) X Y =
        (if x \<le> X \<and> X < x + w \<and> y \<le> Y \<and> Y < y + h then color rgb else pixel fb m X Y)) \<and>
    frame_only fb m (soctfb_fill fb x y w h rgb m)"
  using assms(2,3)
proof (cases rule: clip_cases [of x w y h fb])
  case 1
  then show ?thesis by (auto simp: soctfb_fill_def frame_only_def)
next
  case (2 w' h')
  note P = fill_painted [OF assms(1) 2(1-3), of rgb m]
  have "pixel fb (soctfb_fill fb x y w h rgb m) X Y =
      (if x \<le> X \<and> X < x + w \<and> y \<le> Y \<and> Y < y + h then color rgb else pixel fb m X Y)"
    if XY: "X < width fb" "Y < height fb" for X Y
    using painted_pixel [OF P assms(1) XY] index_in_box [of "unat X" fb "unat x" "unat w'" "unat Y" "unat y" "unat h'"]
      XY(1) 2(2) 2(6) [OF XY] by (simp add: color_def word_less_nat_alt)
  then show ?thesis using painted_frame_only [OF P] by blast
qed

theorem soctfb_fill_exact_witness:
  "pixel demo_fb (soctfb_fill demo_fb 2 1 5 1 0x112233 (\<lambda>_. 0)) 3 1 = [0x33, 0x22, 0x11] \<and>
   pixel demo_fb (soctfb_fill demo_fb 2 1 5 1 0x112233 (\<lambda>_. 0)) 0 2 = [0, 0, 0]"
proof -
  have ok: "frame_ok demo_fb" by (simp add: frame_ok_def frame_bytes_def demo_fb_def)
  have "(3 :: u32) < width demo_fb \<and> (1 :: u32) < height demo_fb" "(0 :: u32) < width demo_fb \<and> (2 :: u32) < height demo_fb"
    by (simp_all add: demo_fb_def)
  then show ?thesis
    using soctfb_fill_exact [OF ok, of 2 5 1 1 "0x112233" "\<lambda>_. 0"]
    by (simp add: color_def pixel_def)
qed

text \<open>
  C21. Drawing an image. With its bytes outside the frame, \<open>soctfb_blit_gray_scaled\<close> gives every pixel of
  the frame inside the scaled image the grey of the source pixel it covers, and changes nothing else;
  at scale 1 this is \<open>soctfb_blit_gray\<close>.
\<close>

theorem soctfb_blit_exact:
  assumes "frame_ok fb" "0 < scale"
    and "unat x + unat (w * scale) < 2 ^ 32" "unat y + unat (h * scale) < 2 ^ 32"
    and src: "\<forall>r c. r < unat h \<and> c < unat w \<longrightarrow> \<not> in_frame fb (gray + of_nat r * ucast w + of_nat c)"
  shows "(\<forall>X Y. X < width fb \<and> Y < height fb \<longrightarrow>
      pixel fb (soctfb_blit_gray_scaled fb x y w h gray scale m) X Y =
        (if x \<le> X \<and> X < x + w * scale \<and> y \<le> Y \<and> Y < y + h * scale
         then replicate 3 (m (gray + of_nat ((unat Y - unat y) div unat scale) * ucast w + of_nat ((unat X - unat x) div unat scale)))
         else pixel fb m X Y)) \<and>
    frame_only fb m (soctfb_blit_gray_scaled fb x y w h gray scale m) \<and>
    soctfb_blit_gray_scaled fb x y w h gray 1 m = soctfb_blit_gray fb x y w h gray m"
proof (intro conjI)
  show "soctfb_blit_gray_scaled fb x y w h gray 1 m = soctfb_blit_gray fb x y w h gray m"
    by (cases "clip fb x y w h") (auto simp: soctfb_blit_gray_scaled_def soctfb_blit_gray_def Let_def)
  let ?m = "soctfb_blit_gray_scaled fb x y w h gray scale m" and ?W = "unat (width fb)"
  let ?src = "\<lambda>r c. gray + of_nat (r div unat scale) * ucast w + of_nat (c div unat scale)"
  have "(\<forall>X Y. X < width fb \<and> Y < height fb \<longrightarrow> pixel fb ?m X Y =
        (if x \<le> X \<and> X < x + w * scale \<and> y \<le> Y \<and> Y < y + h * scale
         then replicate 3 (m (?src (unat Y - unat y) (unat X - unat x))) else pixel fb m X Y)) \<and> frame_only fb m ?m"
    using assms(3,4)
  proof (cases rule: clip_cases [of x "w * scale" y "h * scale" fb])
    case 1
    then show ?thesis using assms(2) by (auto simp: soctfb_blit_gray_scaled_def frame_only_def)
  next
    case (2 w' h')
    have m: "?m = fold (\<lambda>r. gray_row (unat w') (px_at fb x (y + of_nat r)) (?src r) 0) [0..<unat h'] m"
      using assms(2) 2(1) by (simp add: soctfb_blit_gray_scaled_def)
    have P: "painted fb (box fb (unat x) (unat y) (unat w') (unat h'))
        (\<lambda>i. replicate 3 (m (?src (i div ?W - unat y) (i mod ?W - unat x)))) m ?m"
      unfolding m using assms(1) 2(2,3) by (rule blit_painted) (intro src [rule_format] conjI scaled_index [OF assms(2)]; use 2(4,5) in linarith)
    have "pixel fb ?m X Y =
        (if x \<le> X \<and> X < x + w * scale \<and> y \<le> Y \<and> Y < y + h * scale
         then replicate 3 (m (?src (unat Y - unat y) (unat X - unat x))) else pixel fb m X Y)"
      if XY: "X < width fb" "Y < height fb" for X Y
    proof -
      have "(unat Y * ?W + unat X) div ?W = unat Y" "(unat Y * ?W + unat X) mod ?W = unat X"
        using XY(1) by (simp_all add: word_less_nat_alt)
      then show ?thesis
        using painted_pixel [OF P assms(1) XY] index_in_box [of "unat X" fb "unat x" "unat w'" "unat Y" "unat y" "unat h'"]
          XY(1) 2(2) 2(6) [OF XY] by (simp add: word_less_nat_alt)
    qed
    then show ?thesis using painted_frame_only [OF P] by blast
  qed
  then show "\<forall>X Y. X < width fb \<and> Y < height fb \<longrightarrow> pixel fb ?m X Y =
        (if x \<le> X \<and> X < x + w * scale \<and> y \<le> Y \<and> Y < y + h * scale
         then replicate 3 (m (?src (unat Y - unat y) (unat X - unat x))) else pixel fb m X Y)" "frame_only fb m ?m"
    by blast+
qed

theorem soctfb_blit_exact_witness:
  "pixel demo_fb (soctfb_blit_gray_scaled demo_fb 1 1 1 1 0x2000 2 (\<lambda>a. if a = 0x2000 then 9 else 0)) 2 2 = [9, 9, 9]"
proof -
  have ok: "frame_ok demo_fb" by (simp add: frame_ok_def frame_bytes_def demo_fb_def)
  let ?m = "\<lambda>a. if a = 0x2000 then 9 else 0"
  have out: "\<forall>r c. r < unat (1 :: u32) \<and> c < unat (1 :: u32) \<longrightarrow>
      \<not> in_frame demo_fb (0x2000 + of_nat r * ucast (1 :: u32) + of_nat c)"
    by (simp add: in_frame_def frame_bytes_def demo_fb_def)
  have "(2 :: u32) < width demo_fb \<and> (2 :: u32) < height demo_fb" by (simp add: demo_fb_def)
  then have "pixel demo_fb (soctfb_blit_gray_scaled demo_fb 1 1 1 1 0x2000 2 ?m) 2 2 =
      replicate 3 (?m (0x2000 + of_nat ((unat (2 :: u32) - unat (1 :: u32)) div unat (2 :: u32)) * ucast (1 :: u32) +
        of_nat ((unat (2 :: u32) - unat (1 :: u32)) div unat (2 :: u32))))"
    using soctfb_blit_exact [OF ok _ _ _ out, where scale = 2 and x = 1 and y = 1 and m = ?m] by simp
  then show ?thesis by (simp add: numeral_3_eq_3)
qed

text \<open>
  Drawing stays in the frame: single pixels and text whatever their position, boxes and outlines
  when the sums of their corner and size do not wrap around.
\<close>

theorem drawing_stays_in_frame:
  assumes "frame_ok fb"
  shows "frame_only fb m (soctfb_pixel fb x y rgb m) \<and> frame_only fb m (snd (soctfb_text fb x y s rgb m)) \<and>
    (unat x + unat w < 2 ^ 32 \<and> unat y + unat h < 2 ^ 32 \<longrightarrow>
      frame_only fb m (soctfb_fill fb x y w h rgb m) \<and>
      (unat thickness < 2 ^ 31 \<longrightarrow> frame_only fb m (soctfb_rect fb x y w h thickness rgb m)))"
proof -
  have "frame_only fb m (soctfb_rect fb x y w h thickness rgb m)"
    if b: "unat x + unat w < 2 ^ 32" "unat y + unat h < 2 ^ 32" "unat thickness < 2 ^ 31"
  proof -
    have t: "unat (thickness * 2) = unat thickness * 2" "unat (2 * thickness) = 2 * unat thickness"
      using b(3) by (simp_all add: unat_word_ariths)
    have s: "unat (x + w) = unat x + unat w" "unat (y + h) = unat y + unat h"
      using b by (simp_all add: unat_add_no_wrap)
    show ?thesis
    proof (cases "thickness * 2 \<ge> w \<or> thickness * 2 \<ge> h")
      case True
      then show ?thesis using b assms by (auto simp: soctfb_rect_def fill_frame_only)
    next
      case False
      then have wh: "unat thickness * 2 < unat w" "unat thickness * 2 < unat h"
        by (simp_all add: word_le_nat_alt t)
      have "unat (x + w - thickness) = unat x + unat w - unat thickness" "unat (y + h - thickness) = unat y + unat h - unat thickness"
        "unat (h - 2 * thickness) = unat h - 2 * unat thickness" "unat (y + thickness) = unat y + unat thickness"
        using wh s t b by (simp_all add: unat_diff_le word_le_nat_alt unat_add_no_wrap)
      then have fills: "frame_only fb m' (soctfb_fill fb x y w thickness rgb m')"
        "frame_only fb m' (soctfb_fill fb x (y + h - thickness) w thickness rgb m')"
        "frame_only fb m' (soctfb_fill fb x (y + thickness) thickness (h - 2 * thickness) rgb m')"
        "frame_only fb m' (soctfb_fill fb (x + w - thickness) (y + thickness) thickness (h - 2 * thickness) rgb m')" for m'
        using wh b by (intro fill_frame_only assms; linarith)+
      show ?thesis
        unfolding soctfb_rect_def using False
        by (simp only: if_False) (rule frame_only_trans [OF frame_only_trans [OF frame_only_trans [OF fills(1) fills(2)] fills(3)] fills(4)])
    qed
  qed
  then show ?thesis using assms by (simp add: pixel_frame_only text_frame_only fill_frame_only)
qed

theorem drawing_stays_in_frame_witness:
  "frame_only demo_fb (\<lambda>_. 0) (snd (soctfb_text demo_fb 1 1 ''OK'' 0xFFFFFF (\<lambda>_. 0)))"
proof -
  have "frame_ok demo_fb" by (simp add: frame_ok_def frame_bytes_def demo_fb_def)
  from drawing_stays_in_frame [OF this] show ?thesis by blast
qed

text \<open>When the sum of the corner and the width wraps around, the width is not clamped.\<close>

lemma clip_wraps: "clip demo_fb 1 0 0xFFFFFFFF 1 = Some (0xFFFFFFFF, 1)"
  by (simp add: clip_def demo_fb_def word_le_nat_alt)

end
