(* ===== verification/Soctfb_Video.thy ===== *)
theory Soctfb_Video
  imports Soctfb Addr_Loop Smoldtb
begin

text \<open>
  The video pipeline of \<open>baremetal/soctfb/video.c\<close> with the operations of \<open>soctfb.c\<close> on it: the two
  frame stores, making pixels visible to a frame fetch that bypasses the caches, page flips, and the
  programming of the VDMA and the timing controller. Register writes, cache line flushes and fences
  are recorded in order; what the registers return is an argument.
\<close>

section \<open>State\<close>

datatype vev = Reg_write u64 u32 | Flush_line u64 | Fence | Wait_us nat

record video =
  fb_width :: u32
  fb_height :: u32
  fb_draw :: u64
  s_stores :: "u64 \<times> u64"
  s_front :: u32
  s_incoherent :: bool
  s_l2_flush :: u64
  v_events :: "vev list"

definition emit :: "vev \<Rightarrow> video \<Rightarrow> video" where
  "emit e v = v\<lparr>v_events := v_events v @ [e]\<rparr>"

definition fb_size :: "video \<Rightarrow> u64" where
  "fb_size v = ucast (fb_width v) * ucast (fb_height v) * 3"

text \<open>\<open>malloc\<close> is a parameter; a failed allocation aborts.\<close>

definition align64 :: "u64 \<Rightarrow> u64" where
  "align64 p = (p + 63) AND NOT 63"

definition fb_init :: "(u64 \<Rightarrow> 'h \<Rightarrow> u64 \<times> 'h) \<Rightarrow> u32 \<Rightarrow> u32 \<Rightarrow> 'h \<Rightarrow> video \<Rightarrow> (video \<times> 'h) option" where
  "fb_init malloc w h st v =
     (let v = v\<lparr>fb_width := w, fb_height := h\<rparr>;
          (p, st) = malloc (fb_size v + 64) st
      in if p = 0 then None
         else let (q, st) = malloc (fb_size v + 64) st
              in if q = 0 then None
                 else Some (v\<lparr>s_stores := (align64 p, align64 q), s_front := 0, fb_draw := align64 p\<rparr>, st))"

definition fb_store :: "video \<Rightarrow> u32 \<Rightarrow> u64" where
  "fb_store v i = (if i AND 1 = 0 then fst (s_stores v) else snd (s_stores v))"

definition fb_draw_into :: "u64 \<Rightarrow> video \<Rightarrow> video" where
  "fb_draw_into buf v = v\<lparr>fb_draw := buf\<rparr>"

definition fb_clear :: "video \<Rightarrow> bytes \<Rightarrow> bytes" where
  "fb_clear v m = (\<lambda>a. if unat (a - fb_draw v) < unat (fb_size v) then 0 else m a)"

section \<open>Device tree lookups\<close>

text \<open>The inner \<open>None\<close> is an abort; the outer one is a fault of the parser, as in \<open>Smoldtb\<close>.\<close>

definition dt_require_compatible :: "blob \<Rightarrow> 'h dtb_state \<Rightarrow> string \<Rightarrow> nat option option" where
  "dt_require_compatible b st name = dtb_find_compatible b st None (cstring name)"

definition dt_require_reg :: "blob \<Rightarrow> 'h dtb_state \<Rightarrow> nat \<Rightarrow> (u64 \<times> u64) option option" where
  "dt_require_reg b st n = do {
     reg \<leftarrow> dtb_find_prop b st (Some n) (cstring ''reg'');
     case reg of
       None \<Rightarrow> Some None
     | Some p \<Rightarrow> do {
         pr \<leftarrow> prop_at st p;
         ac \<leftarrow> dtb_get_addr_cells_for b st (Some n);
         sc \<leftarrow> dtb_get_size_cells_for b st (Some n);
         vals \<leftarrow> dtb_read_prop_2 b (Some pr) (ac, sc);
         (case vals of [] \<Rightarrow> Some None | [val] \<Rightarrow> Some (Some val) | _ \<Rightarrow> None) } }"

definition dt_require_u32 :: "blob \<Rightarrow> 'h dtb_state \<Rightarrow> nat \<Rightarrow> string \<Rightarrow> u64 option option" where
  "dt_require_u32 b st n name = do {
     prop \<leftarrow> dtb_find_prop b st (Some n) (cstring name);
     case prop of
       None \<Rightarrow> Some None
     | Some p \<Rightarrow> do {
         pr \<leftarrow> prop_at st p;
         vals \<leftarrow> dtb_read_prop_1 b (Some pr) 1;
         (case vals of [] \<Rightarrow> Some None | [val] \<Rightarrow> Some (Some val) | _ \<Rightarrow> None) } }"

definition L2_FLUSH64_OFFSET :: u64 where "L2_FLUSH64_OFFSET = 0x200"

definition fb_coherence_init :: "blob \<Rightarrow> 'h dtb_state \<Rightarrow> nat \<Rightarrow> video \<Rightarrow> video option option" where
  "fb_coherence_init b st vdma_node v = do {
     prop \<leftarrow> dtb_find_prop b st (Some vdma_node) (cstring ''soct,incoherent'');
     let v = v\<lparr>s_incoherent := (prop \<noteq> None)\<rparr>;
     if prop = None then Some (Some v)
     else do {
       l2 \<leftarrow> dtb_find_compatible b st None (cstring ''sifive,inclusivecache0'');
       case l2 of
         None \<Rightarrow> Some None
       | Some n \<Rightarrow> do {
           reg \<leftarrow> dt_require_reg b st n;
           Some (map_option (\<lambda>(l2_base, _). v\<lparr>s_l2_flush := l2_base + L2_FLUSH64_OFFSET\<rparr>) reg) } } }"

section \<open>Frame visibility\<close>

definition l2_flush_range :: "u64 \<Rightarrow> u64 \<Rightarrow> video \<Rightarrow> video option" where
  "l2_flush_range addr len v =
     (let start = addr AND NOT 63; e = (addr + len + 63) AND NOT 63
      in addr_loop 64 e (\<lambda>a. emit (Flush_line a)) start v)"

definition fb_flush :: "u64 \<Rightarrow> u64 \<Rightarrow> video \<Rightarrow> video option" where
  "fb_flush addr len v =
     (let v = emit Fence v
      in if \<not> s_incoherent v then Some v
         else map_option (emit Fence) (l2_flush_range addr len v))"

definition fb_flush_draw :: "video \<Rightarrow> video option" where
  "fb_flush_draw v = fb_flush (fb_draw v) (fb_size v) v"

fun flush_rows :: "u32 \<Rightarrow> u32 \<Rightarrow> u32 \<Rightarrow> nat list \<Rightarrow> video \<Rightarrow> video option" where
  "flush_rows x y w [] v = Some v"
| "flush_rows x y w (r # rs) v = do {
     v' \<leftarrow> l2_flush_range (fb_draw v + ucast (y + of_nat r) * (ucast (fb_width v) * 3) + ucast x * 3) (ucast w * 3) v;
     flush_rows x y w rs v' }"

definition fb_flush_rect :: "u32 \<Rightarrow> u32 \<Rightarrow> u32 \<Rightarrow> u32 \<Rightarrow> video \<Rightarrow> video option" where
  "fb_flush_rect x y w h v =
     (let v = emit Fence v
      in if \<not> s_incoherent v then Some v
         else map_option (emit Fence) (flush_rows x y w [0..<unat h] v))"

definition soctfb_flush :: "soctfb \<Rightarrow> u32 \<Rightarrow> u32 \<Rightarrow> u32 \<Rightarrow> u32 \<Rightarrow> video \<Rightarrow> video option" where
  "soctfb_flush fb x y w h v =
     (case clip fb x y w h of
        None \<Rightarrow> Some v
      | Some (w, h) \<Rightarrow> fb_flush_rect x y w h (fb_draw_into (pixels fb) v))"

definition soctfb_flush_all :: "soctfb \<Rightarrow> video \<Rightarrow> video option" where
  "soctfb_flush_all fb v = fb_flush (pixels fb) (fb_size v) v"

section \<open>VDMA\<close>

definition VDMA_MM2S_DMACR :: u64 where "VDMA_MM2S_DMACR = 0x00"
definition VDMA_MM2S_DMASR :: u64 where "VDMA_MM2S_DMASR = 0x04"
definition VDMA_PARK_PTR :: u64 where "VDMA_PARK_PTR = 0x28"
definition VDMA_MM2S_VSIZE :: u64 where "VDMA_MM2S_VSIZE = 0x50"
definition VDMA_MM2S_HSIZE :: u64 where "VDMA_MM2S_HSIZE = 0x54"
definition VDMA_MM2S_FRMDLY_STRIDE :: u64 where "VDMA_MM2S_FRMDLY_STRIDE = 0x58"
definition VDMA_MM2S_START_ADDR1 :: u64 where "VDMA_MM2S_START_ADDR1 = 0x5C"
definition VDMA_DMACR_RS :: u32 where "VDMA_DMACR_RS = 1"
definition VDMA_DMACR_CIRCULAR :: u32 where "VDMA_DMACR_CIRCULAR = 2"
definition VDMA_DMACR_RESET :: u32 where "VDMA_DMACR_RESET = 4"
definition VDMA_DMASR_HALTED :: u32 where "VDMA_DMASR_HALTED = 1"
definition VDMA_DMASR_FRMCNT_IRQ :: u32 where "VDMA_DMASR_FRMCNT_IRQ = 0x1000"
definition VDMA_PARK_PTR_RD_MASK :: u32 where "VDMA_PARK_PTR_RD_MASK = 0x1F"

definition vdma_reachable :: "u64 \<Rightarrow> u64 \<Rightarrow> bool" where
  "vdma_reachable buf len \<longleftrightarrow> buf + len \<le> 0x100000000"

definition vdma_clear_frame_done :: "u64 \<Rightarrow> video \<Rightarrow> video" where
  "vdma_clear_frame_done base v = emit (Reg_write (base + VDMA_MM2S_DMASR) VDMA_DMASR_FRMCNT_IRQ) v"

text \<open>\<open>sr\<close> is the status read.\<close>

definition vdma_take_frame_done :: "u64 \<Rightarrow> u32 \<Rightarrow> video \<Rightarrow> bool \<times> video" where
  "vdma_take_frame_done base sr v =
     (if sr AND VDMA_DMASR_FRMCNT_IRQ = 0 then (False, v) else (True, vdma_clear_frame_done base v))"

definition vdma_park :: "u64 \<Rightarrow> u32 \<Rightarrow> u32 \<Rightarrow> video \<Rightarrow> video" where
  "vdma_park base store pp v = emit (Reg_write (base + VDMA_PARK_PTR) ((pp AND NOT VDMA_PARK_PTR_RD_MASK) OR store)) v"

definition scanned :: "u32 \<Rightarrow> u32" where
  "scanned pp = drop_bit 16 pp AND VDMA_PARK_PTR_RD_MASK"

text \<open>The wait loop over the reads of \<open>PARK_PTR\<close>; no result when the store never comes up.\<close>

fun park_loop :: "u32 \<Rightarrow> nat \<Rightarrow> u32 list \<Rightarrow> video \<Rightarrow> video option" where
  "park_loop store i [] v = None"
| "park_loop store i (pp # pps) v =
     (if scanned pp = store then Some v
      else if i > 1000 then None
      else park_loop store (i + 1) pps (emit (Wait_us 100) v))"

definition vdma_park_wait :: "u64 \<Rightarrow> u32 \<Rightarrow> u32 list \<Rightarrow> video \<Rightarrow> video option" where
  "vdma_park_wait base store pps v =
     (case pps of [] \<Rightarrow> None | pp # pps \<Rightarrow> park_loop store 0 pps (vdma_park base store pp v))"

definition fb_flip :: "u64 \<Rightarrow> u32 list \<Rightarrow> video \<Rightarrow> video option" where
  "fb_flip base pps v =
     (let next = s_front v XOR 1
      in map_option (\<lambda>v. v\<lparr>s_front := next, fb_draw := fb_store v (next XOR 1)\<rparr>) (vdma_park_wait base next pps v))"

definition soctfb_backbuffer :: "soctfb \<Rightarrow> video \<Rightarrow> soctfb \<times> video" where
  "soctfb_backbuffer fb v =
     (let v = fb_draw_into (fb_store v (s_front v XOR 1)) v in (fb\<lparr>pixels := fb_draw v\<rparr>, v))"

definition soctfb_flip :: "u64 \<Rightarrow> u32 list \<Rightarrow> soctfb \<Rightarrow> video \<Rightarrow> (soctfb \<times> video) option" where
  "soctfb_flip base pps fb v = map_option (\<lambda>v. (fb\<lparr>pixels := fb_draw v\<rparr>, v)) (fb_flip base pps v)"

text \<open>\<open>crs\<close> are the reads of the control register, \<open>sr\<close> that of the status register.\<close>

definition vdma_start :: "u64 \<Rightarrow> u64 \<Rightarrow> u64 \<Rightarrow> u32 list \<Rightarrow> u32 \<Rightarrow> video \<Rightarrow> video option" where
  "vdma_start base fb0 fb1 crs sr v =
     (if \<not> vdma_reachable fb0 (fb_size v) \<or> \<not> vdma_reachable fb1 (fb_size v) then None
      else do {
        let v = emit (Reg_write (base + VDMA_MM2S_DMACR) VDMA_DMACR_RESET) v;
        (_, crs) \<leftarrow> poll (\<lambda>cr. cr AND VDMA_DMACR_RESET = 0) crs;
        cr \<leftarrow> (case crs of [] \<Rightarrow> None | cr # _ \<Rightarrow> Some cr);
        let v = fold emit
          [Reg_write (base + VDMA_MM2S_DMACR) ((cr OR VDMA_DMACR_RS) AND NOT VDMA_DMACR_CIRCULAR),
           Reg_write (base + VDMA_PARK_PTR) 0,
           Reg_write (base + VDMA_MM2S_START_ADDR1) (ucast fb0),
           Reg_write (base + VDMA_MM2S_START_ADDR1 + 4) (ucast fb1),
           Reg_write (base + VDMA_MM2S_START_ADDR1 + 8) (ucast fb0),
           Reg_write (base + VDMA_MM2S_HSIZE) (fb_width v * 3),
           Reg_write (base + VDMA_MM2S_FRMDLY_STRIDE) (fb_width v * 3),
           Reg_write (base + VDMA_MM2S_VSIZE) (fb_height v),
           Wait_us 1000] v;
        if sr AND VDMA_DMASR_HALTED \<noteq> 0 then None else Some v })"

section \<open>Timing controller\<close>

record XVidC_VideoTiming =
  HActive :: u16
  HFrontPorch :: u16
  HSyncWidth :: u16
  HTotal :: u16
  HSyncPolarity :: bool
  VActive :: u16
  F0PVFrontPorch :: u16
  F0PVSyncWidth :: u16
  F0PVTotal :: u16
  VSyncPolarity :: bool

definition vtc_words :: "XVidC_VideoTiming \<Rightarrow> (u64 \<times> u32) list" where
  "vtc_words t =
     (let hss = ucast (HActive t) + ucast (HFrontPorch t) :: u32;
          hbs = hss + ucast (HSyncWidth t);
          vss = ucast (VActive t) + ucast (F0PVFrontPorch t) :: u32;
          vbs = vss + ucast (F0PVSyncWidth t);
          twice = \<lambda>a :: u32. a OR push_bit 16 a
      in [(0x070, ucast (HTotal t)),
          (0x074, twice (ucast (F0PVTotal t))),
          (0x060, ucast (HActive t) OR push_bit 16 (ucast (VActive t))),
          (0x094, push_bit 16 (ucast (VActive t))),
          (0x078, hss OR push_bit 16 hbs),
          (0x080, vss OR push_bit 16 vbs),
          (0x08C, vss OR push_bit 16 vbs),
          (0x068, 0),
          (0x07C, twice (ucast (HActive t))),
          (0x084, twice hss),
          (0x088, twice (ucast (HActive t))),
          (0x090, twice hss),
          (0x06C, 0x73 OR (if HSyncPolarity t then 0x08 else 0) OR (if VSyncPolarity t then 0x04 else 0)),
          (0x000, 0x03FDEF00 OR 0x2 OR 0x4 OR 0x1)])"

definition vtc_start :: "u64 \<Rightarrow> XVidC_VideoTiming \<Rightarrow> video \<Rightarrow> video" where
  "vtc_start base t v = fold (\<lambda>(off, x). emit (Reg_write (base + off) x)) (vtc_words t) v"

definition vtc_clear_status :: "u64 \<Rightarrow> video \<Rightarrow> video" where
  "vtc_clear_status base v = emit (Reg_write (base + 0x004) 0xFFFFFFFF) v"

definition vtc_saw_vblank :: "u32 \<Rightarrow> bool" where
  "vtc_saw_vblank isr \<longleftrightarrow> isr AND 0x1000 \<noteq> 0"

section \<open>Specification\<close>

text \<open>The cache line of an address has been written back.\<close>

definition visible :: "video \<Rightarrow> u64 \<Rightarrow> bool" where
  "visible v a \<longleftrightarrow> Flush_line (a AND NOT 63) \<in> set (v_events v)"

fun run_flips :: "u64 \<Rightarrow> u32 list list \<Rightarrow> video \<Rightarrow> video option" where
  "run_flips base [] v = Some v"
| "run_flips base (pps # ppss) v = do { v \<leftarrow> fb_flip base pps v; run_flips base ppss v }"

definition demo_video :: video where
  "demo_video = \<lparr>fb_width = 100, fb_height = 4, fb_draw = 0x10000, s_stores = (0x10000, 0x20000), s_front = 0,
     s_incoherent = True, s_l2_flush = 0x2010200, v_events = []\<rparr>"

section \<open>Lemmas\<close>

lemma sixty_three: "(63 :: u64) = mask 6"
  by (simp add: mask_eq_exp_minus_1)

lemma unat_line: "unat (a AND NOT 63 :: u64) = unat a div 64 * 64"
  using unat_and_not_mask [of a 6] by (simp add: sixty_three)

lemma emit_lines: "fold (\<lambda>a. emit (Flush_line a)) as v = v\<lparr>v_events := v_events v @ map Flush_line as\<rparr>"
  by (induction as arbitrary: v) (simp_all add: emit_def)

lemma l2_flush_range_lines:
  assumes "unat addr + unat len + 128 \<le> 2 ^ 64"
  shows "\<exists>ls. l2_flush_range addr len v = Some (v\<lparr>v_events := v_events v @ map Flush_line ls\<rparr>) \<and>
    (\<forall>j < unat len. (addr + of_nat j) AND NOT 63 \<in> set ls)"
proof -
  let ?s = "addr AND NOT 63" and ?x = "addr + len + 63" let ?e = "?x AND NOT 63"
  have x: "unat (addr + len) = unat addr + unat len" "unat ?x = unat addr + unat len + 63"
    using assms by (simp_all add: unat_word_ariths)
  have e: "unat ?e = (unat addr + unat len + 63) div 64 * 64" unfolding unat_line x ..
  have ends: "loop_ends 64 ?e"
  proof -
    have "unat ?e \<le> unat addr + unat len + 63" unfolding e by (rule div_times_less_eq_dividend)
    then show ?thesis using assms by (simp add: loop_ends_def)
  qed
  have "(addr + of_nat j) AND NOT 63 \<in> set (addrs 64 ?s ?e)" if j: "j < unat len" for j
  proof -
    have b: "unat (addr + of_nat j) = unat addr + j"
    proof -
      have "unat (of_nat j :: u64) = j" using j assms by (intro unat_of_nat_small) simp
      then show ?thesis using j assms by (subst unat_add_no_wrap) simp_all
    qed
    let ?l = "(addr + of_nat j) AND NOT 63"
    have l: "unat ?l = (unat addr + j) div 64 * 64" unfolding unat_line b ..
    have s: "unat ?s = unat addr div 64 * 64" by (rule unat_line)
    have le: "unat ?s \<le> unat ?l" unfolding l s by (intro mult_le_mono1 div_le_mono) simp
    have "(unat addr + j) div 64 * 64 \<le> unat addr + j" by (rule div_times_less_eq_dividend)
    moreover have "unat addr + unat len < (unat addr + unat len + 63) div 64 * 64 + 1"
      using div_mult_mod_eq [of "unat addr + unat len + 63" 64] mod_less_divisor [of 64 "unat addr + unat len + 63"] by linarith
    ultimately have lt: "unat ?l < unat ?e" unfolding l e using j by linarith
    have "unat (?l - ?s) = unat ?l - unat ?s" using le by (simp add: unat_diff_le word_le_nat_alt)
    also have "\<dots> = ((unat addr + j) div 64 - unat addr div 64) * 64" unfolding l s by (simp add: diff_mult_distrib)
    finally have "unat (?l - ?s) mod 64 = 0" by simp
    with le lt show ?thesis unfolding addrs_grid(1) [OF ends] by (simp add: grid_def word_le_nat_alt word_less_nat_alt)
  qed
  then show ?thesis
    unfolding l2_flush_range_def Let_def addr_loop_fold [OF ends] emit_lines by blast
qed

text \<open>A row of the rectangle, as a range of addresses.\<close>

lemma row_address:
  assumes "unat (fb_draw v) + unat (fb_width v) * unat (fb_height v) * 3 + 128 \<le> 2 ^ 64"
    and "x + w \<le> unat (fb_width v)" "Y < unat (fb_height v)"
  shows "unat (fb_draw v) + (Y * (unat (fb_width v) * 3) + x * 3) + w * 3 + 128 \<le> 2 ^ 64"
  using row_bound [OF assms(2,3)] assms(1) by (simp add: algebra_simps)

lemma flush_rows_lines:
  assumes fit: "unat (fb_draw v) + unat (fb_width v) * unat (fb_height v) * 3 + 128 \<le> 2 ^ 64"
    and x: "unat x + unat w \<le> unat (fb_width v)" and y: "\<forall>r\<in>set rs. unat y + r < unat (fb_height v)"
  shows "\<exists>ls. flush_rows x y w rs v = Some (v\<lparr>v_events := v_events v @ map Flush_line ls\<rparr>) \<and>
    (\<forall>r\<in>set rs. \<forall>j < unat w * 3.
       (fb_draw v + of_nat ((unat y + r) * (unat (fb_width v) * 3) + unat x * 3 + j)) AND NOT 63 \<in> set ls)"
  using assms
proof (induction rs arbitrary: v)
  case (Cons r rs)
  have r: "unat y + r < unat (fb_height v)" using Cons.prems(3) by simp
  have "unat (fb_height v) < 2 ^ 32" "unat (fb_width v) < 2 ^ 32"
    using unsigned_less [of "fb_height v"] unsigned_less [of "fb_width v"] by simp_all
  then have yr: "unat (y + of_nat r) = unat y + r" using r by (simp add: unat_add_no_wrap unat_of_nat_small)
  let ?n = "(unat y + r) * (unat (fb_width v) * 3) + unat x * 3"
  let ?a = "fb_draw v + of_nat ?n"
  have a: "fb_draw v + ucast (y + of_nat r) * (ucast (fb_width v) * 3) + ucast x * 3 = ?a"
    unfolding ucast_up_of_nat yr by (simp only: of_nat_add of_nat_mult of_nat_numeral add.assoc)
  have len: "(ucast w * 3 :: u64) = of_nat (unat w * 3)" by (simp only: ucast_up_of_nat of_nat_mult of_nat_numeral)
  note bound = row_address [OF Cons.prems(1) Cons.prems(2) r]
  have ul: "unat (of_nat (unat w * 3) :: u64) = unat w * 3" using bound by (intro unat_of_nat_small) simp
  have "unat (of_nat ?n :: u64) = ?n" using bound by (intro unat_of_nat_small) simp
  then have ua: "unat ?a = unat (fb_draw v) + ?n" using bound by (subst unat_add_no_wrap) simp_all
  obtain ls where ls: "l2_flush_range ?a (of_nat (unat w * 3)) v = Some (v\<lparr>v_events := v_events v @ map Flush_line ls\<rparr>)"
    "\<forall>j < unat w * 3. (?a + of_nat j) AND NOT 63 \<in> set ls"
    using l2_flush_range_lines [of ?a "of_nat (unat w * 3)" v] bound unfolding ul ua by auto
  let ?v = "v\<lparr>v_events := v_events v @ map Flush_line ls\<rparr>"
  obtain ks where ks: "flush_rows x y w rs ?v = Some (?v\<lparr>v_events := v_events ?v @ map Flush_line ks\<rparr>)"
    "\<forall>r\<in>set rs. \<forall>j < unat w * 3. (fb_draw v + of_nat ((unat y + r) * (unat (fb_width v) * 3) + unat x * 3 + j)) AND NOT 63 \<in> set ks"
    using Cons.IH [of ?v] Cons.prems by auto
  have "flush_rows x y w (r # rs) v = Some (v\<lparr>v_events := v_events v @ map Flush_line (ls @ ks)\<rparr>)"
    using ks(1) by (simp only: flush_rows.simps a len ls(1)) simp
  moreover have "\<forall>j < unat w * 3. (fb_draw v + of_nat (?n + j)) AND NOT 63 \<in> set ls"
    using ls(2) unfolding of_nat_add add.assoc .
  then have "\<forall>q\<in>set (r # rs). \<forall>j < unat w * 3.
      (fb_draw v + of_nat ((unat y + q) * (unat (fb_width v) * 3) + unat x * 3 + j)) AND NOT 63 \<in> set (ls @ ks)"
    using ks(2) unfolding list.set set_append by blast
  ultimately show ?case by blast
next
  case (Nil v)
  show ?case by (rule exI [of _ "[]"]) simp
qed

text \<open>One flip.\<close>

lemma park_loop_keeps:
  assumes "park_loop store i pps v = Some v'"
  shows "store \<in> scanned ` set pps \<and> s_front v' = s_front v \<and> s_stores v' = s_stores v"
  using assms by (induction store i pps v rule: park_loop.induct) (auto simp: emit_def split: if_splits)

lemma fb_flip_result:
  assumes "fb_flip base pps v = Some v'"
  shows "s_front v' = s_front v XOR 1 \<and> s_stores v' = s_stores v \<and> fb_draw v' = fb_store v' (s_front v' XOR 1) \<and>
    s_front v' \<in> scanned ` set pps"
proof -
  obtain pp pps' u where u: "pps = pp # pps'" "park_loop (s_front v XOR 1) 0 pps' (vdma_park base (s_front v XOR 1) pp v) = Some u"
    and v': "v' = u\<lparr>s_front := s_front v XOR 1, fb_draw := fb_store u ((s_front v XOR 1) XOR 1)\<rparr>"
    using assms by (auto simp: fb_flip_def vdma_park_wait_def Let_def split: list.splits)
  from park_loop_keeps [OF u(2)] show ?thesis
    unfolding v' by (auto simp: u(1) vdma_park_def emit_def fb_store_def)
qed

section \<open>Properties\<close>

text \<open>
  Frame visibility. When the frame fetch bypasses the caches, flushing a rectangle of the frame ends,
  starts and ends with a fence, and writes back the cache line of every byte of every pixel in the
  rectangle.
\<close>

theorem flush_rect_visible:
  assumes "s_incoherent v" "unat (fb_draw v) + unat (fb_width v) * unat (fb_height v) * 3 + 128 \<le> 2 ^ 64"
    and "unat x + unat w \<le> unat (fb_width v)" "unat y + unat h \<le> unat (fb_height v)"
  shows "\<exists>ls. fb_flush_rect x y w h v = Some (v\<lparr>v_events := v_events v @ Fence # map Flush_line ls @ [Fence]\<rparr>) \<and>
    (\<forall>r < unat h. \<forall>j < unat w * 3.
       (fb_draw v + of_nat ((unat y + r) * (unat (fb_width v) * 3) + unat x * 3 + j)) AND NOT 63 \<in> set ls)"
proof -
  let ?v = "emit Fence v"
  obtain ls where "flush_rows x y w [0..<unat h] ?v = Some (?v\<lparr>v_events := v_events ?v @ map Flush_line ls\<rparr>)"
    "\<forall>r\<in>set [0..<unat h]. \<forall>j < unat w * 3.
       (fb_draw ?v + of_nat ((unat y + r) * (unat (fb_width ?v) * 3) + unat x * 3 + j)) AND NOT 63 \<in> set ls"
    using flush_rows_lines [of ?v x w "[0..<unat h]" y] assms by (auto simp: emit_def)
  then show ?thesis
    using assms(1) by (intro exI [of _ ls]) (simp add: fb_flush_rect_def emit_def)
qed

theorem flush_rect_visible_witness:
  "\<exists>ls. fb_flush_rect 90 1 4 2 demo_video = Some (demo_video\<lparr>v_events := Fence # map Flush_line ls @ [Fence]\<rparr>) \<and>
    0x10240 \<in> set ls"
proof -
  obtain ls where ls: "fb_flush_rect 90 1 4 2 demo_video =
      Some (demo_video\<lparr>v_events := v_events demo_video @ Fence # map Flush_line ls @ [Fence]\<rparr>)"
    "\<forall>r < unat (2 :: u32). \<forall>j < unat (4 :: u32) * 3.
       (fb_draw demo_video + of_nat ((unat (1 :: u32) + r) * (unat (fb_width demo_video) * 3) + unat (90 :: u32) * 3 + j))
         AND NOT 63 \<in> set ls"
    using flush_rect_visible [of demo_video 90 4 1 2] by (auto simp: demo_video_def)
  have "(fb_draw demo_video + of_nat ((unat (1 :: u32) + 0) * (unat (fb_width demo_video) * 3) + unat (90 :: u32) * 3 + 6))
      AND NOT 63 \<in> set ls" by (rule ls(2) [rule_format]) simp_all
  then have "0x10240 \<in> set ls" by (simp add: demo_video_def)
  with ls(1) show ?thesis by (auto simp: demo_video_def)
qed

text \<open>
  Double buffering. Over any sequence of page flips that end, drawing moves to a store only after
  the VDMA has reported the other one as scanned out, so that the store drawn to is never the one on
  the screen; the stores alternate.
\<close>

theorem flips_double_buffered:
  assumes "run_flips base (ppss @ [pps]) v = Some v'" "s_front v = 0 \<or> s_front v = 1"
    and "fst (s_stores v) \<noteq> snd (s_stores v)"
  shows "fb_draw v' \<noteq> fb_store v' (s_front v') \<and> fb_draw v' = fb_store v' (s_front v' XOR 1) \<and>
    s_front v' \<in> scanned ` set pps \<and> s_stores v' = s_stores v \<and>
    s_front v' = (if even (length ppss) then s_front v XOR 1 else s_front v)"
proof -
  have bit: "f XOR 1 = 0 \<or> f XOR 1 = 1" "(f XOR 1) XOR 1 = f" if "f = 0 \<or> f = (1 :: u32)" for f using that by auto
  have "\<exists>u. run_flips base ppss v = Some u \<and> fb_flip base pps u = Some v'"
    using assms(1) by (induction ppss arbitrary: v) (auto split: bind_splits)
  then obtain u where u: "run_flips base ppss v = Some u" "fb_flip base pps u = Some v'" by blast
  have "s_stores u = s_stores v \<and> s_front u = (if even (length ppss) then s_front v else s_front v XOR 1)"
    using u(1) assms(2)
  proof (induction ppss arbitrary: v)
    case (Cons p ppss)
    then obtain x where x: "fb_flip base p v = Some x" "run_flips base ppss x = Some u" by (auto split: bind_splits)
    note F = fb_flip_result [OF x(1)]
    have "s_front x = 0 \<or> s_front x = 1" using F bit(1) [OF Cons.prems(2)] by simp
    with Cons.IH [OF x(2)] F bit(2) [OF Cons.prems(2)] show ?case by auto
  qed simp
  moreover note F = fb_flip_result [OF u(2)]
  ultimately have s: "s_stores v' = s_stores v" "s_front v' = (if even (length ppss) then s_front v XOR 1 else s_front v)"
    using bit(2) [OF assms(2)] by auto
  have f: "s_front v' = 0 \<or> s_front v' = 1" using s(2) assms(2) bit(1) [OF assms(2)] by auto
  then have "fb_store v' (s_front v' XOR 1) \<noteq> fb_store v' (s_front v')"
    using assms(3) s(1) by (auto simp: fb_store_def)
  moreover have "fb_draw v' = fb_store v' (s_front v' XOR 1)" "s_front v' \<in> scanned ` set pps" using F by blast+
  ultimately show ?thesis using s by metis
qed

theorem flips_double_buffered_witness:
  "\<exists>v'. run_flips 0x60000000 [[0, 0, 0x10000], [0x10001, 0]] demo_video = Some v' \<and> fb_draw v' \<noteq> fb_store v' (s_front v')"
proof -
  have "\<exists>v'. run_flips 0x60000000 ([[0, 0, 0x10000]] @ [[0x10001, 0]]) demo_video = Some v'"
    by (simp add: demo_video_def fb_flip_def vdma_park_wait_def vdma_park_def scanned_def VDMA_PARK_PTR_RD_MASK_def emit_def)
  then obtain v' where v': "run_flips 0x60000000 ([[0, 0, 0x10000]] @ [[0x10001, 0]]) demo_video = Some v'" by blast
  have "s_front demo_video = 0 \<or> s_front demo_video = 1" "fst (s_stores demo_video) \<noteq> snd (s_stores demo_video)"
    by (simp_all add: demo_video_def)
  from flips_double_buffered [OF v' this] have "fb_draw v' \<noteq> fb_store v' (s_front v')" by (rule conjunct1)
  with v' show ?thesis by simp
qed

end
