(* ===== verification/Linux_Sdc.thy ===== *)
theory Linux_Sdc
  imports Sdc "HOL-Library.Stream"
begin

text \<open>
  The Linux driver of the SD card controller, \<open>linux/drivers/sdc/fpga-axi-sdc.c\<close>: requests of the
  MMC core, the interrupt that ends a data transfer, the controller reset, and probing. Every
  operation runs under the host lock with interrupts off, so it is one step. What the registers
  return, what \<open>dma_map_sg\<close> answers and whether a deadline has passed are infinite streams; the calls
  into the kernel are logged. An operation has no result when it does not return, or where C leaves
  its value undefined (a division by zero, a shift by 64 or more).
\<close>

section \<open>Data\<close>

datatype mmc_error = No_error | E_IO | E_INVAL | E_TIME | E_TIMEDOUT
datatype mmc_rsp = MMC_RSP_PRESENT | MMC_RSP_136 | MMC_RSP_CRC | MMC_RSP_BUSY | MMC_RSP_OPCODE
datatype mmc_dir = MMC_DATA_READ | MMC_DATA_WRITE
datatype mmc_power = MMC_POWER_OFF | MMC_POWER_UP | MMC_POWER_ON
datatype mmc_bus = MMC_BUS_WIDTH_1 | MMC_BUS_WIDTH_4 | MMC_BUS_WIDTH_8

record mmc_command =
  opcode :: u32
  cmd_arg :: u32
  cmd_flags :: "mmc_rsp set"
  cmd_resp :: "u32 list"
  cmd_error :: mmc_error

record mmc_data =
  blksz :: u32
  blocks :: u32
  data_dirs :: "mmc_dir set"
  sg_length :: u32
  bytes_xfered :: u32
  data_error :: mmc_error

record mmc_request =
  rq_sbc :: "mmc_command option"
  rq_cmd :: mmc_command
  rq_data :: "mmc_data option"
  rq_stop :: "mmc_command option"

record mmc_ios =
  ios_clock :: u32
  ios_bus_width :: mmc_bus
  ios_power_mode :: mmc_power

datatype lx_event = Lx_write sdc_reg u64 | Lx_delay u32 | Dma_map u32 | Dma_unmap
  | Request_done mmc_request | Detect_change

text \<open>
  \<open>mrq\<close> is the request the host works on; \<open>data\<close>, when set, is always the data of that request, so
  only whether it is set is kept (\<open>h_data\<close>).
\<close>

record sdc_host =
  clk_freq :: u32
  h_mrq :: "mmc_request option"
  h_data :: bool
  dma_addr_bits :: u32
  dma_count :: u32
  dma_addr :: u64
  dma_size :: u32
  lx_reads :: "sdc_reg \<Rightarrow> u32 stream"
  lx_late :: "bool stream"
  lx_maps :: "(u32 \<times> u64 \<times> u32) stream"
  lx_log :: "lx_event list"

definition lx_rd :: "sdc_reg \<Rightarrow> sdc_host \<Rightarrow> u32 \<times> sdc_host" where
  "lx_rd r h = (shd (lx_reads h r), h\<lparr>lx_reads := (lx_reads h)(r := stl (lx_reads h r))\<rparr>)"

definition lx_emit :: "lx_event \<Rightarrow> sdc_host \<Rightarrow> sdc_host" where
  "lx_emit e h = h\<lparr>lx_log := lx_log h @ [e]\<rparr>"

abbreviation lx_wr :: "sdc_reg \<Rightarrow> u64 \<Rightarrow> sdc_host \<Rightarrow> sdc_host" where
  "lx_wr r v \<equiv> lx_emit (Lx_write r v)"

text \<open>\<open>ktime_after(ktime_get(), deadline)\<close>\<close>

definition past_deadline :: "sdc_host \<Rightarrow> bool \<times> sdc_host" where
  "past_deadline h = (shd (lx_late h), h\<lparr>lx_late := stl (lx_late h)\<rparr>)"

section \<open>Waiting and clocks\<close>

partial_function (option) lx_wait_sw_reset :: "bool \<Rightarrow> sdc_host \<Rightarrow> sdc_host option" where
  "lx_wait_sw_reset on h =
     (case lx_rd R_software_reset h of
        (reg, h) \<Rightarrow>
          if (if on then reg AND 1 \<noteq> 0 else reg = 0) then Some h
          else case past_deadline h of
                 (late, h) \<Rightarrow> if late then Some h else lx_wait_sw_reset on h)"

declare lx_wait_sw_reset.simps [code]

definition clock_div :: "u32 \<Rightarrow> u32 \<Rightarrow> u32" where
  "clock_div freq clock =
     (let clock = (if clock < 400000 then 400000 else clock);
          d = freq div (2 * clock);
          d = (if d > 0x100 then 0x100 else d)
      in if d < 1 then 1 else d)"

definition lx_set_clock :: "u32 \<Rightarrow> sdc_host \<Rightarrow> sdc_host option" where
  "lx_set_clock clock h =
     (if 400000 \<le> clock \<and> 2 * clock = 0 then None
      else
        let d = clock_div (clk_freq h) clock
        in case lx_rd R_clock_divider h of
             (v, h) \<Rightarrow>
               Some (if v \<noteq> d - 1 then lx_emit (Lx_delay 10000) (lx_wr R_clock_divider (ucast (d - 1)) h) else h))"

section \<open>Commands\<close>

definition lx_response :: "mmc_command \<Rightarrow> sdc_host \<Rightarrow> mmc_command \<times> sdc_host" where
  "lx_response cmd h =
     (case lx_rd R_response1 h of
        (r1, h) \<Rightarrow>
          if MMC_RSP_136 \<in> cmd_flags cmd
          then case lx_rd R_response2 h of
                 (r2, h) \<Rightarrow> case lx_rd R_response3 h of
                   (r3, h) \<Rightarrow> case lx_rd R_response4 h of
                     (r4, h) \<Rightarrow> (cmd\<lparr>cmd_resp := [r1, r2, r3, r4]\<rparr>, h)
          else (cmd\<lparr>cmd_resp := r1 # drop 1 (cmd_resp cmd)\<rparr>, h))"

partial_function (option) lx_cmd_finish :: "mmc_command \<Rightarrow> sdc_host \<Rightarrow> (mmc_command \<times> sdc_host) option" where
  "lx_cmd_finish cmd h =
     (case lx_rd R_cmd_int_status h of
        (status, h) \<Rightarrow>
          if status = 0
          then case past_deadline h of
                 (late, h) \<Rightarrow> if late then Some (cmd\<lparr>cmd_error := E_TIMEDOUT\<rparr>, h) else lx_cmd_finish cmd h
          else do {
            h \<leftarrow> lx_wait_sw_reset False (lx_wr R_cmd_int_status 0 h);
            Some (if status = SDC_CMD_INT_STATUS_CC then lx_response cmd h
                  else (cmd\<lparr>cmd_error := (if status AND SDC_CMD_INT_STATUS_CTE \<noteq> 0 then E_TIME else E_IO)\<rparr>, h)) })"

declare lx_cmd_finish.simps [code]

text \<open>The enumerators of the kernel's bus widths are the logarithm of the number of data lines.\<close>

fun bus_log :: "mmc_bus \<Rightarrow> nat" where
  "bus_log MMC_BUS_WIDTH_1 = 0"
| "bus_log MMC_BUS_WIDTH_4 = 2"
| "bus_log MMC_BUS_WIDTH_8 = 3"

definition data_ticks :: "mmc_ios \<Rightarrow> mmc_data \<Rightarrow> u64" where
  "data_ticks ios d =
     ucast ((blocks d * blksz d * 8) div push_bit (bus_log (ios_bus_width ios)) 1) +
     ucast (ios_clock ios) * 500 div 1000 * ucast (blocks d)"

text \<open>A time-out register is narrower than the value written: a value that does not read back is clamped.\<close>

definition set_timeout :: "sdc_reg \<Rightarrow> u64 \<Rightarrow> sdc_host \<Rightarrow> sdc_host" where
  "set_timeout r ticks h =
     (case lx_rd r (lx_wr r (ucast (ucast ticks :: u32)) h) of
        (v, h) \<Rightarrow> if ucast v \<noteq> ticks then lx_wr r 0xFFFFFFFF h else h)"

definition lx_setup_data_xfer :: "mmc_ios \<Rightarrow> mmc_data \<Rightarrow> sdc_host \<Rightarrow> (mmc_error \<times> mmc_data \<times> sdc_host) option" where
  "lx_setup_data_xfer ios d h =
     (let d = d\<lparr>bytes_xfered := 0\<rparr>
      in if dma_addr h AND 3 \<noteq> 0 \<or> blksz d AND 3 \<noteq> 0 \<or> blksz d < 4 \<or> blksz d > 0x1000 \<or> blocks d > 0x10000
         then Some (E_INVAL, d, h)
         else if dma_addr_bits h \<ge> 64 then None
         else if dma_addr h + ucast (blksz d * blocks d) > push_bit (unat (dma_addr_bits h)) 1
         then Some (E_INVAL, d, h)
         else if sg_length d < blksz d * blocks d then Some (E_INVAL, d, h)
         else
           let h = lx_wr R_block_count (ucast (blocks d - 1))
                     (lx_wr R_block_size (ucast (blksz d - 1)) (lx_wr R_dma_addres (dma_addr h) h))
           in Some (No_error, d, set_timeout R_data_timeout (data_ticks ios d) h))"

definition rsp_bits :: "mmc_rsp set \<Rightarrow> u32" where
  "rsp_bits fs =
     (if MMC_RSP_PRESENT \<in> fs then if MMC_RSP_136 \<in> fs then 2 else 1 else 0) OR
     (if MMC_RSP_BUSY \<in> fs then push_bit 2 1 else 0) OR
     (if MMC_RSP_CRC \<in> fs then push_bit 3 1 else 0) OR
     (if MMC_RSP_OPCODE \<in> fs then push_bit 4 1 else 0)"

definition dir_bits :: "mmc_dir set \<Rightarrow> u32" where
  "dir_bits ds = (if MMC_DATA_READ \<in> ds then push_bit 5 1 else 0) OR (if MMC_DATA_WRITE \<in> ds then push_bit 6 1 else 0)"

text \<open>The number of segments mapped is the result of the call, 0 when the mapping failed; it is logged with it.\<close>

definition dma_map_sg :: "sdc_host \<Rightarrow> sdc_host" where
  "dma_map_sg h =
     (case shd (lx_maps h) of
        (n, a, l) \<Rightarrow> lx_emit (Dma_map n) (h\<lparr>lx_maps := stl (lx_maps h), dma_count := n\<rparr>))"

definition sg_dma :: "u64 \<times> u32 \<Rightarrow> sdc_host \<Rightarrow> sdc_host" where
  "sg_dma al h = h\<lparr>dma_addr := fst al, dma_size := snd al\<rparr>"

text \<open>The part of \<open>sdc_send_cmd\<close> behind the data setup; \<open>xfer\<close> says whether a mapping is to be kept.\<close>

definition lx_issue :: "mmc_ios \<Rightarrow> u32 \<Rightarrow> bool \<Rightarrow> mmc_command \<Rightarrow> sdc_host \<Rightarrow>
    (mmc_error \<times> mmc_command \<times> sdc_host) option" where
  "lx_issue ios command xfer cmd h = do {
     let timeout = (ucast (ios_clock ios) * 1000 div 1000 :: u64);
     let h = set_timeout R_cmd_timeout timeout (lx_wr R_command (ucast command) h);
     (cmd, h) \<leftarrow> lx_cmd_finish cmd (lx_wr R_argument (ucast (cmd_arg cmd)) h);
     if cmd_error cmd \<noteq> No_error
     then Some (cmd_error cmd, cmd, if xfer then lx_emit Dma_unmap h else h)
     else Some (No_error, cmd, if xfer then h\<lparr>h_data := True\<rparr> else h) }"

definition wants_data :: "mmc_data option \<Rightarrow> bool" where
  "wants_data od \<longleftrightarrow> (case od of None \<Rightarrow> False | Some d \<Rightarrow> data_dirs d \<noteq> {} \<and> blocks d \<noteq> 0)"

definition lx_send_cmd :: "mmc_ios \<Rightarrow> mmc_command \<Rightarrow> mmc_data option \<Rightarrow> sdc_host \<Rightarrow>
    (mmc_error \<times> mmc_command \<times> mmc_data option \<times> sdc_host) option" where
  "lx_send_cmd ios cmd od h =
     (let command = push_bit 8 (opcode cmd) OR rsp_bits (cmd_flags cmd)
      in if \<not> wants_data od
         then do { (e, cmd, h) \<leftarrow> lx_issue ios command False cmd h; Some (e, cmd, od, h) }
         else
           let d = the od; al = snd (shd (lx_maps h)); h = dma_map_sg h
           in if dma_count h \<noteq> 1
              then Some (E_IO, cmd, Some (d\<lparr>data_error := E_IO\<rparr>), lx_emit Dma_unmap h)
              else do {
                (e, d, h) \<leftarrow> lx_setup_data_xfer ios d (sg_dma al h);
                let d = d\<lparr>data_error := e\<rparr>;
                if e \<noteq> No_error then Some (e, cmd, Some d, lx_emit Dma_unmap h)
                else do {
                  (e, cmd, h) \<leftarrow> lx_issue ios (command OR dir_bits (data_dirs d)) True cmd h;
                  Some (e, cmd, Some d, h) } })"

section \<open>Requests\<close>

definition clear_errors :: "mmc_request \<Rightarrow> mmc_request" where
  "clear_errors m =
     m\<lparr>rq_sbc := map_option (\<lambda>c. c\<lparr>cmd_error := No_error\<rparr>) (rq_sbc m),
       rq_cmd := (rq_cmd m)\<lparr>cmd_error := No_error\<rparr>,
       rq_data := map_option (\<lambda>d. d\<lparr>data_error := No_error\<rparr>) (rq_data m),
       rq_stop := map_option (\<lambda>c. c\<lparr>cmd_error := No_error\<rparr>) (rq_stop m)\<rparr>"

definition send_sbc :: "mmc_ios \<Rightarrow> mmc_request \<Rightarrow> sdc_host \<Rightarrow> (bool \<times> mmc_request \<times> sdc_host) option" where
  "send_sbc ios m h =
     (case rq_sbc m of
        None \<Rightarrow> Some (True, m, h)
      | Some c \<Rightarrow> do {
          (e, c, _, h) \<leftarrow> lx_send_cmd ios c None h;
          Some (e = No_error, m\<lparr>rq_sbc := Some c\<rparr>, h) })"

definition send_main :: "mmc_ios \<Rightarrow> mmc_request \<Rightarrow> sdc_host \<Rightarrow> (mmc_request \<times> sdc_host) option" where
  "send_main ios m h = do {
     (_, c, od, h) \<leftarrow> lx_send_cmd ios (rq_cmd m) (rq_data m) h;
     Some (m\<lparr>rq_cmd := c, rq_data := od\<rparr>, h) }"

definition lx_request :: "mmc_ios \<Rightarrow> mmc_request \<Rightarrow> sdc_host \<Rightarrow> sdc_host option" where
  "lx_request ios m h = do {
     let m = clear_errors m;
     let h = h\<lparr>h_data := False, h_mrq := Some m\<rparr>;
     (go, m, h) \<leftarrow> send_sbc ios m h;
     (m, h) \<leftarrow> (if go then send_main ios m h else Some (m, h));
     if \<not> h_data h then Some ((lx_emit (Request_done m) h)\<lparr>h_mrq := None\<rparr>)
     else Some (lx_wr R_dat_int_enable 3 (h\<lparr>h_mrq := Some m\<rparr>)) }"

section \<open>Reset, bus settings and card detection\<close>

definition lx_reset_locked :: "sdc_host \<Rightarrow> sdc_host option" where
  "lx_reset_locked h = do {
     h \<leftarrow> lx_set_clock 400000 h;
     h \<leftarrow> lx_wait_sw_reset True (lx_wr R_software_reset 1 h);
     h \<leftarrow> lx_wait_sw_reset False (lx_wr R_software_reset 0 h);
     let h = lx_wr R_dat_int_status 0 (lx_wr R_cmd_int_status 0 (lx_wr R_dat_int_enable 0
               (lx_wr R_cmd_int_enable 0 (lx_wr R_control 0 (lx_emit (Lx_delay 10000) h)))));
     case lx_rd R_card_detect h of
       (cd, h) \<Rightarrow>
         lx_wait_sw_reset False
           (if cd AND 2 \<noteq> 0 then lx_wr R_card_detect 4 h
            else if cd AND 8 \<noteq> 0 then lx_wr R_card_detect 1 h else h) }"

definition lx_set_ios :: "mmc_ios \<Rightarrow> sdc_host \<Rightarrow> sdc_host option" where
  "lx_set_ios ios h = do {
     h \<leftarrow> (if ios_power_mode ios = MMC_POWER_UP then lx_reset_locked h else Some h);
     h \<leftarrow> lx_set_clock (ios_clock ios) h;
     Some (lx_wr R_control (if ios_bus_width ios = MMC_BUS_WIDTH_4 then 1 else 0) h) }"

definition lx_card_reset :: "sdc_host \<Rightarrow> sdc_host" where
  "lx_card_reset h =
     (case lx_rd R_control h of
        (c, h) \<Rightarrow>
          lx_emit (Lx_delay 10) (lx_wr R_control (ucast (c AND NOT SDC_CONTROL_SD_RESET))
            (lx_emit (Lx_delay 10) (lx_wr R_control (ucast (c OR SDC_CONTROL_SD_RESET)) h))))"

definition lx_get_cd :: "bool \<Rightarrow> sdc_host \<Rightarrow> bool \<times> sdc_host" where
  "lx_get_cd active_high h =
     (case lx_rd R_card_detect h of
        (cd, h) \<Rightarrow> (if cd = 0 then True else if active_high then cd AND 8 \<noteq> 0 else cd AND 2 \<noteq> 0, h))"

section \<open>The interrupt handler\<close>

definition isr_detect :: "sdc_host \<Rightarrow> sdc_host" where
  "isr_detect h =
     (case lx_rd R_card_detect h of
        (cd, h) \<Rightarrow>
          if cd AND 2 \<noteq> 0
          then if cd AND 1 \<noteq> 0 then lx_emit Detect_change (lx_wr R_card_detect 4 h) else h
          else if cd AND 8 \<noteq> 0
          then if cd AND 4 \<noteq> 0 then lx_emit Detect_change (lx_wr R_card_detect 1 h) else h
          else h)"

definition data_outcome :: "u32 \<Rightarrow> mmc_data \<Rightarrow> mmc_data" where
  "data_outcome status d =
     (if status = SDC_DAT_INT_STATUS_TRS then d\<lparr>bytes_xfered := blksz d * blocks d\<rparr>
      else d\<lparr>data_error := (if status AND SDC_DAT_INT_STATUS_CTE \<noteq> 0 then E_TIME else E_IO)\<rparr>)"

definition send_stop :: "mmc_ios \<Rightarrow> mmc_request \<Rightarrow> sdc_host \<Rightarrow> (mmc_request \<times> sdc_host) option" where
  "send_stop ios m h =
     (case rq_stop m of
        None \<Rightarrow> Some (m, h)
      | Some c \<Rightarrow> do { (_, c, _, h) \<leftarrow> lx_send_cmd ios c None h; Some (m\<lparr>rq_stop := Some c\<rparr>, h) })"

definition isr_complete :: "mmc_ios \<Rightarrow> u32 \<Rightarrow> sdc_host \<Rightarrow> sdc_host option" where
  "isr_complete ios status h =
     (if \<not> h_data h then Some h
      else do {
        m \<leftarrow> h_mrq h;
        d \<leftarrow> rq_data m;
        (m, h) \<leftarrow> send_stop ios (m\<lparr>rq_data := Some (data_outcome status d)\<rparr>) h;
        Some (lx_emit (Request_done m) ((lx_emit Dma_unmap h)\<lparr>h_data := False, h_mrq := None\<rparr>)) })"

definition lx_isr :: "mmc_ios \<Rightarrow> sdc_host \<Rightarrow> sdc_host option" where
  "lx_isr ios h =
     (case lx_rd R_dat_int_status (isr_detect h) of
        (status, h) \<Rightarrow>
          if status = 0 then Some h
          else do {
            h \<leftarrow> lx_wait_sw_reset False (lx_wr R_dat_int_status 0 (lx_wr R_dat_int_enable 0 h));
            isr_complete ios status h })"

section \<open>Probing\<close>

datatype mmc_cap = MMC_CAP_SD_HIGHSPEED | MMC_CAP_MMC_HIGHSPEED | MMC_CAP2_NO_SDIO | MMC_CAP2_CD_ACTIVE_HIGH
datatype mmc_vdd = MMC_VDD_32_33 | MMC_VDD_33_34

record mmc_host =
  f_min :: u32
  f_max :: u32
  mmc_caps :: "mmc_cap set"
  ocr_avail :: "mmc_vdd set"
  max_segs :: nat
  max_req_size :: nat
  max_seg_size :: nat
  max_blk_size :: nat
  max_blk_count :: nat

text \<open>
  What the kernel answers: \<open>pe_ioremap\<close> is the error of the mapping if there is one, \<open>pe_clock\<close> the
  clock property of the node, \<open>pe_of_parse\<close> the result and the host as \<open>mmc_of_parse\<close> leaves it.
\<close>

record probe_env =
  pe_ioremap :: "int option"
  pe_irq :: int
  pe_alloc :: bool
  pe_clock :: "u32 option"
  pe_of_parse :: "int \<times> mmc_host"
  pe_request_irq :: int
  pe_dma_mask :: int
  pe_add_host :: int

datatype probe_event = Host_alloc | Host_free | Irq_request | Irq_free | Host_add | Host_remove

definition probe_limits :: "u32 \<Rightarrow> mmc_host \<Rightarrow> mmc_host" where
  "probe_limits freq m =
     (let m = (if f_min m = 0 then m\<lparr>f_min := freq div 0x200\<rparr> else m);
          m = (if f_max m = 0 then m\<lparr>f_max := freq div 2\<rparr> else m);
          m = (if MMC_CAP2_NO_SDIO \<notin> mmc_caps m
               then m\<lparr>mmc_caps := mmc_caps m \<union> {MMC_CAP_SD_HIGHSPEED, MMC_CAP_MMC_HIGHSPEED, MMC_CAP2_NO_SDIO}\<rparr>
               else m)
      in m\<lparr>ocr_avail := {MMC_VDD_32_33, MMC_VDD_33_34}, max_segs := 1, max_req_size := 0x2000000,
           max_seg_size := 0x2000000, max_blk_size := 0x1000, max_blk_count := 0x10000\<rparr>)"

definition dma_bits_of :: "u32 \<Rightarrow> u32" where
  "dma_bits_of capability = (if capability AND 0xFF00 \<noteq> 0 then drop_bit 8 (capability AND 0xFF00) else 32)"

text \<open>From the registered interrupt on: the address width, the reset and the registration of the host.\<close>

definition probe_start :: "probe_env \<Rightarrow> sdc_host \<Rightarrow> (int \<times> probe_event list \<times> sdc_host) option" where
  "probe_start E h =
     (case lx_rd R_capability h of
        (capability, h) \<Rightarrow>
          let h = h\<lparr>dma_addr_bits := dma_bits_of capability\<rparr>
          in if capability AND 0xFF00 \<noteq> 0 \<and> pe_dma_mask E \<noteq> 0
             then Some (pe_dma_mask E, [Irq_free, Host_free], h)
             else do {
               h \<leftarrow> lx_reset_locked h;
               Some (if pe_add_host E \<noteq> 0 then (pe_add_host E, [Irq_free, Host_free], h) else (0, [Host_add], h)) })"

definition axi_sdc_probe :: "probe_env \<Rightarrow> sdc_host \<Rightarrow> (int \<times> probe_event list \<times> mmc_host option \<times> sdc_host) option" where
  "axi_sdc_probe E h =
     (case pe_ioremap E of
        Some e \<Rightarrow> Some (e, [], None, h)
      | None \<Rightarrow>
          if pe_irq E \<le> 0 then Some (- 6, [], None, h)
          else if \<not> pe_alloc E then Some (- 12, [], None, h)
          else
            let h = h\<lparr>clk_freq := (case pe_clock E of None \<Rightarrow> 100000000 | Some c \<Rightarrow> c)\<rparr>;
                (r, m) = pe_of_parse E
            in if r \<noteq> 0 then Some (r, [Host_alloc, Host_free], None, h)
               else
                 let m = probe_limits (clk_freq h) m
                 in if pe_request_irq E \<noteq> 0 then Some (pe_request_irq E, [Host_alloc, Host_free], Some m, h)
                    else do {
                      (r, evs, h) \<leftarrow> probe_start E h;
                      Some (r, [Host_alloc, Irq_request] @ evs, Some m, h) })"

definition axi_sdc_remove :: "probe_event list" where
  "axi_sdc_remove = [Irq_free, Host_remove, Host_free]"

section \<open>Specification\<close>

text \<open>Neither an end of a request nor a change of a mapping.\<close>

fun quiet_event :: "lx_event \<Rightarrow> bool" where
  "quiet_event (Lx_write r v) \<longleftrightarrow> True"
| "quiet_event (Lx_delay us) \<longleftrightarrow> True"
| "quiet_event Detect_change \<longleftrightarrow> True"
| "quiet_event _ \<longleftrightarrow> False"

text \<open>
  Reading a log for mappings: whether one is live at the end, and no value when a second one is made,
  one is undone that is not live (undone twice, or never made because the call failed), or a request is
  handed back while the device may still write to its buffer.
\<close>

fun dma_track :: "bool \<Rightarrow> lx_event list \<Rightarrow> bool option" where
  "dma_track m [] = Some m"
| "dma_track m (Dma_map n # es) = (if n = 0 then dma_track m es else if m then None else dma_track True es)"
| "dma_track m (Dma_unmap # es) = (if m then dma_track False es else None)"
| "dma_track m (Request_done q # es) = (if m then None else dma_track m es)"
| "dma_track m (Lx_write r v # es) = dma_track m es"
| "dma_track m (Lx_delay us # es) = dma_track m es"
| "dma_track m (Detect_change # es) = dma_track m es"

text \<open>
  What the driver's log reads as when a mapping is live or not: sound as long as no call of \<open>dma_map_sg\<close>
  has failed, since a failed one is undone all the same.
\<close>

definition dma_expect :: "bool \<Rightarrow> lx_event list \<Rightarrow> bool option" where
  "dma_expect m es = (if Dma_map 0 \<in> set es then None else Some m)"

fun is_done :: "lx_event \<Rightarrow> bool" where
  "is_done (Request_done q) \<longleftrightarrow> True"
| "is_done _ \<longleftrightarrow> False"

definition dones :: "sdc_host \<Rightarrow> nat" where
  "dones h = length (filter is_done (lx_log h))"

text \<open>
  The states after a number of requests: the core makes a request only when the last one was handed
  back; interrupts, bus settings and card resets come at any time.
\<close>

inductive lx_reach :: "sdc_host \<Rightarrow> nat \<Rightarrow> sdc_host \<Rightarrow> bool" for h0 :: sdc_host where
  start: "lx_reach h0 0 h0"
| request: "lx_reach h0 n h \<Longrightarrow> h_mrq h = None \<Longrightarrow> lx_request ios m h = Some h' \<Longrightarrow> lx_reach h0 (Suc n) h'"
| interrupt: "lx_reach h0 n h \<Longrightarrow> lx_isr ios h = Some h' \<Longrightarrow> lx_reach h0 n h'"
| settings: "lx_reach h0 n h \<Longrightarrow> lx_set_ios ios h = Some h' \<Longrightarrow> lx_reach h0 n h'"
| card_reset: "lx_reach h0 n h \<Longrightarrow> lx_reach h0 n (lx_card_reset h)"

definition lx_idle :: "sdc_host \<Rightarrow> bool" where
  "lx_idle h \<longleftrightarrow> lx_log h = [] \<and> \<not> h_data h \<and> h_mrq h = None"

definition lx_inv :: "nat \<Rightarrow> sdc_host \<Rightarrow> bool" where
  "lx_inv n h \<longleftrightarrow>
     dma_track False (lx_log h) = dma_expect (h_data h) (lx_log h) \<and> dones h + (if h_data h then 1 else 0) = n \<and>
     (if h_data h then \<exists>m d. h_mrq h = Some m \<and> rq_data m = Some d else h_mrq h = None)"

text \<open>Every deadline passes at last.\<close>

definition clock_runs :: "sdc_host \<Rightarrow> bool" where
  "clock_runs h \<longleftrightarrow> (\<forall>n. \<exists>m\<ge>n. lx_late h !! m)"

definition lx_alive :: "sdc_host \<Rightarrow> bool" where
  "lx_alive h \<longleftrightarrow> clock_runs h \<and> dma_addr_bits h < 64"

text \<open>An operation that only reads registers and emits quiet events.\<close>

definition lx_ext :: "sdc_host \<Rightarrow> sdc_host \<Rightarrow> bool" where
  "lx_ext h h' \<longleftrightarrow>
     (\<exists>es. lx_log h' = lx_log h @ es \<and> list_all quiet_event es) \<and>
     (\<exists>k. lx_late h' = sdrop k (lx_late h)) \<and> (\<forall>r. sset (lx_reads h' r) \<subseteq> sset (lx_reads h r)) \<and>
     h_data h' = h_data h \<and> h_mrq h' = h_mrq h \<and> dma_addr_bits h' = dma_addr_bits h \<and> clk_freq h' = clk_freq h"

text \<open>What every command leaves alone, also when it maps or unmaps a buffer.\<close>

definition lx_moves :: "sdc_host \<Rightarrow> sdc_host \<Rightarrow> bool" where
  "lx_moves h h' \<longleftrightarrow>
     (\<exists>k. lx_late h' = sdrop k (lx_late h)) \<and> (\<forall>r. sset (lx_reads h' r) \<subseteq> sset (lx_reads h r)) \<and>
     dones h' = dones h \<and> h_mrq h' = h_mrq h \<and> dma_addr_bits h' = dma_addr_bits h \<and> clk_freq h' = clk_freq h"

text \<open>A card that is gone: no command ever completes. The request comes back with an error in one of its parts.\<close>

definition card_gone :: "sdc_host \<Rightarrow> bool" where
  "card_gone h \<longleftrightarrow> sset (lx_reads h R_cmd_int_status) \<subseteq> {0}"

definition failed :: "mmc_request \<Rightarrow> bool" where
  "failed m \<longleftrightarrow> (\<exists>c. rq_sbc m = Some c \<and> cmd_error c = E_TIMEDOUT) \<or> cmd_error (rq_cmd m) = E_TIMEDOUT \<or>
     (\<exists>d. rq_data m = Some d \<and> data_error d \<noteq> No_error)"

text \<open>What a probe holds: the host, and the interrupt, whose handler uses the host.\<close>

fun held :: "bool \<times> bool \<Rightarrow> probe_event list \<Rightarrow> (bool \<times> bool) option" where
  "held s [] = Some s"
| "held s (e # es) =
     (case (e, s) of
        (Host_alloc, (False, False)) \<Rightarrow> held (True, False) es
      | (Host_free, (True, False)) \<Rightarrow> held (False, False) es
      | (Irq_request, (True, False)) \<Rightarrow> held (True, True) es
      | (Irq_free, (True, True)) \<Rightarrow> held (True, False) es
      | (Host_add, (True, i)) \<Rightarrow> held s es
      | (Host_remove, (True, i)) \<Rightarrow> held s es
      | _ \<Rightarrow> None)"

text \<open>Hosts for concrete runs: every command and transfer completes, or none does.\<close>

definition demo_host :: sdc_host where
  "demo_host = \<lparr>clk_freq = 100000000, h_mrq = None, h_data = False, dma_addr_bits = 32, dma_count = 0,
     dma_addr = 0, dma_size = 0, lx_reads = (\<lambda>r. sconst (if r = R_software_reset then 0 else 1)),
     lx_late = sconst True, lx_maps = sconst (1, 0x80001000, 512), lx_log = []\<rparr>"

definition gone_host :: sdc_host where
  "gone_host = demo_host\<lparr>lx_reads := (\<lambda>r. sconst 0)\<rparr>"

definition read_one :: mmc_request where
  "read_one = \<lparr>rq_sbc = None,
     rq_cmd = \<lparr>opcode = 17, cmd_arg = 5, cmd_flags = {MMC_RSP_PRESENT, MMC_RSP_CRC, MMC_RSP_OPCODE},
       cmd_resp = [0, 0, 0, 0], cmd_error = No_error\<rparr>,
     rq_data = Some \<lparr>blksz = 512, blocks = 1, data_dirs = {MMC_DATA_READ}, sg_length = 512,
       bytes_xfered = 0, data_error = No_error\<rparr>,
     rq_stop = None\<rparr>"

definition demo_ios :: mmc_ios where
  "demo_ios = \<lparr>ios_clock = 25000000, ios_bus_width = MMC_BUS_WIDTH_4, ios_power_mode = MMC_POWER_ON\<rparr>"

definition demo_probe :: probe_env where
  "demo_probe = \<lparr>pe_ioremap = None, pe_irq = 5, pe_alloc = True, pe_clock = None,
     pe_of_parse = (0, \<lparr>f_min = 0, f_max = 0, mmc_caps = {}, ocr_avail = {}, max_segs = 0, max_req_size = 0,
       max_seg_size = 0, max_blk_size = 0, max_blk_count = 0\<rparr>),
     pe_request_irq = 0, pe_dma_mask = 0, pe_add_host = - 12\<rparr>"

section \<open>Lemmas\<close>

lemma lx_ext_refl [simp]: "lx_ext h h"
  by (auto simp: lx_ext_def intro: exI [of _ 0])

lemma lx_ext_trans [trans]:
  assumes "lx_ext h h'" and "lx_ext h' h''"
  shows "lx_ext h h''"
proof -
  obtain es k es' k' where "lx_log h' = lx_log h @ es" "list_all quiet_event es" "lx_late h' = sdrop k (lx_late h)"
    "lx_log h'' = lx_log h' @ es'" "list_all quiet_event es'" "lx_late h'' = sdrop k' (lx_late h')"
    using assms by (auto simp: lx_ext_def)
  then have "lx_log h'' = lx_log h @ (es @ es')" "list_all quiet_event (es @ es')"
    "lx_late h'' = sdrop (k + k') (lx_late h)" by simp_all
  moreover have "\<forall>r. sset (lx_reads h'' r) \<subseteq> sset (lx_reads h r)"
    using assms unfolding lx_ext_def by blast
  moreover have "h_data h'' = h_data h" "h_mrq h'' = h_mrq h" "dma_addr_bits h'' = dma_addr_bits h" "clk_freq h'' = clk_freq h"
    using assms unfolding lx_ext_def by simp_all
  ultimately show ?thesis unfolding lx_ext_def by blast
qed

lemma lx_rd_ext: "lx_rd r h = (v, h') \<Longrightarrow> lx_ext h h'"
  by (auto simp: lx_rd_def lx_ext_def fun_upd_def dest: stl_sset split: if_splits intro: exI [of _ 0])

lemma past_deadline_ext: "past_deadline h = (v, h') \<Longrightarrow> lx_ext h h'"
  by (auto simp: past_deadline_def lx_ext_def intro: exI [of _ "Suc 0"])

lemma lx_emit_ext: "quiet_event e \<Longrightarrow> lx_ext h (lx_emit e h)"
  by (auto simp: lx_emit_def lx_ext_def intro: exI [of _ 0])

text \<open>The same facts for the end of a run, to be applied forward.\<close>

lemmas ext_forward = lx_ext_trans [OF _ lx_rd_ext] lx_ext_trans [OF _ past_deadline_ext]

lemma ext_emit [simp]: "lx_ext h h' \<Longrightarrow> quiet_event e \<Longrightarrow> lx_ext h (lx_emit e h')"
  using lx_ext_trans lx_emit_ext by blast

lemma lx_wait_ext:
  assumes "lx_wait_sw_reset on h = Some h'"
  shows "lx_ext h h'"
  using assms
proof (rule lx_wait_sw_reset.raw_induct [where P = "\<lambda>on h h'. lx_ext h h'", rotated], goal_cases)
  case (1 wait on h h')
  obtain reg h1 where r: "lx_rd R_software_reset h = (reg, h1)" by (cases "lx_rd R_software_reset h")
  obtain late h2 where l: "past_deadline h1 = (late, h2)" by (cases "past_deadline h1")
  have h1: "lx_ext h h1" using r by (rule lx_rd_ext)
  have h2: "lx_ext h h2" using h1 l by (rule ext_forward)
  have "h' = h1 \<or> h' = h2 \<or> wait on h2 = Some h'" using 1(2) by (auto simp: r l split: if_splits)
  then show ?case using h1 h2 1(1) lx_ext_trans by blast
qed

lemma lx_set_clock_ext:
  assumes "lx_set_clock clock h = Some h'"
  shows "lx_ext h h'"
proof -
  obtain v h1 where r: "lx_rd R_clock_divider h = (v, h1)" by (cases "lx_rd R_clock_divider h")
  then have "lx_ext h h1" by (rule lx_rd_ext)
  with assms show ?thesis by (auto simp: lx_set_clock_def r Let_def split: if_splits)
qed

lemma lx_response_ext:
  "lx_response cmd h = (cmd', h') \<Longrightarrow> lx_ext h h' \<and> cmd_error cmd' = cmd_error cmd"
  using lx_ext_refl [of h]
  by (auto simp: lx_response_def split: prod.splits if_splits dest!: lx_rd_ext elim!: lx_ext_trans)

lemma lx_cmd_finish_ext:
  assumes "lx_cmd_finish cmd h = Some r"
  shows "lx_ext h (snd r)"
  using assms
proof (rule lx_cmd_finish.raw_induct [where P = "\<lambda>cmd h r. lx_ext h (snd r)", rotated], goal_cases)
  case (1 finish cmd h r)
  obtain status h1 where s: "lx_rd R_cmd_int_status h = (status, h1)" by (cases "lx_rd R_cmd_int_status h")
  obtain late h2 where l: "past_deadline h1 = (late, h2)" by (cases "past_deadline h1")
  have h1: "lx_ext h h1" using s by (rule lx_rd_ext)
  have h2: "lx_ext h h2" using h1 l by (rule ext_forward)
  show ?case
  proof (cases "status = 0")
    case True
    then have "snd r = h2 \<or> finish cmd h2 = Some r" using 1(2) by (auto simp: s l split: if_splits)
    then show ?thesis using h2 1(1) lx_ext_trans by blast
  next
    case False
    then obtain h3 where h3: "lx_wait_sw_reset False (lx_wr R_cmd_int_status 0 h1) = Some h3"
      "snd r = h3 \<or> snd r = snd (lx_response cmd h3)"
      using 1(2) by (auto simp: s split: if_splits Option.bind_splits)
    have "lx_ext h (lx_wr R_cmd_int_status 0 h1)" using h1 by simp
    then have "lx_ext h h3" using lx_wait_ext [OF h3(1)] by (rule lx_ext_trans)
    moreover have "lx_ext h3 (snd (lx_response cmd h3))"
      using lx_response_ext [of cmd h3] by (cases "lx_response cmd h3") simp
    ultimately show ?thesis using h3(2) lx_ext_trans by metis
  qed
qed

lemma set_timeout_ext: "lx_ext h (set_timeout r ticks h)"
proof -
  obtain v h1 where v: "lx_rd r (lx_wr r (ucast (ucast ticks :: u32)) h) = (v, h1)"
    by (cases "lx_rd r (lx_wr r (ucast (ucast ticks :: u32)) h)")
  have "lx_ext h h1" using lx_ext_trans [OF lx_emit_ext lx_rd_ext [OF v]] by simp
  then show ?thesis by (simp add: set_timeout_def v)
qed

lemma lx_setup_ext:
  assumes "lx_setup_data_xfer ios d h = Some (e, d', h')"
  shows "lx_ext h h'"
  using assms lx_ext_trans [OF _ set_timeout_ext]
  by (auto simp: lx_setup_data_xfer_def Let_def split: if_splits)

lemma lx_issue_cases:
  assumes "lx_issue ios command xfer cmd h = Some (e, cmd', h')"
  obtains h1 where "lx_ext h h1" "e = cmd_error cmd'"
    "h' = (if \<not> xfer then h1 else if e = No_error then h1\<lparr>h_data := True\<rparr> else lx_emit Dma_unmap h1)"
proof -
  let ?h = "lx_wr R_argument (ucast (cmd_arg cmd))
    (set_timeout R_cmd_timeout (ucast (ios_clock ios) * 1000 div 1000) (lx_wr R_command (ucast command) h))"
  obtain h1 where h1: "lx_cmd_finish cmd ?h = Some (cmd', h1)" "e = cmd_error cmd'"
    "h' = (if \<not> xfer then h1 else if e = No_error then h1\<lparr>h_data := True\<rparr> else lx_emit Dma_unmap h1)"
    using assms by (auto simp: lx_issue_def split: Option.bind_splits if_splits)
  have "lx_ext h ?h" using lx_ext_trans [OF lx_emit_ext set_timeout_ext] by simp
  then have "lx_ext h h1" using lx_cmd_finish_ext [OF h1(1)] lx_ext_trans by simp
  with h1(2,3) show thesis by (rule that [rotated])
qed

text \<open>Following the mappings of a log.\<close>

lemma dma_track_append: "dma_track m (xs @ ys) = Option.bind (dma_track m xs) (\<lambda>m. dma_track m ys)"
  by (induction m xs rule: dma_track.induct) auto

lemma quiet_track: "list_all quiet_event es \<Longrightarrow> dma_track m es = Some m \<and> filter is_done es = [] \<and> Dma_map 0 \<notin> set es"
proof (induction es)
  case (Cons e es)
  then show ?case by (cases e) auto
qed simp

lemma dma_track_emit [simp]:
  "dma_track m (lx_log (lx_emit e h)) = Option.bind (dma_track m (lx_log h)) (\<lambda>m. dma_track m [e])"
  by (simp add: lx_emit_def dma_track_append)

lemma dma_expect_emit [simp]:
  "dma_expect m (lx_log (lx_emit e h)) = (if e = Dma_map 0 then None else dma_expect m (lx_log h))"
  by (simp add: lx_emit_def dma_expect_def)

lemma dma_step:
  assumes "dma_track False (lx_log h) = dma_expect a (lx_log h)" and "dma_track a [e] = Some b" and "e \<noteq> Dma_map 0"
  shows "dma_track False (lx_log (lx_emit e h)) = dma_expect b (lx_log (lx_emit e h))"
proof (cases "Dma_map 0 \<in> set (lx_log h)")
  case True
  with assms show ?thesis by (simp add: lx_emit_def dma_track_append dma_expect_def)
next
  case False
  with assms(1) have "dma_track False (lx_log h) = Some a" by (simp add: dma_expect_def)
  with assms(2,3) False show ?thesis by (simp add: lx_emit_def dma_track_append dma_expect_def)
qed

lemma dones_emit [simp]: "dones (lx_emit e h) = (if is_done e then Suc (dones h) else dones h)"
  by (simp add: dones_def lx_emit_def)

lemma lx_ext_track:
  assumes "lx_ext h h'"
  shows "dma_track m (lx_log h') = dma_track m (lx_log h)" "dones h' = dones h"
    "dma_expect b (lx_log h') = dma_expect b (lx_log h)"
proof -
  obtain es where es: "lx_log h' = lx_log h @ es" "list_all quiet_event es" using assms by (auto simp: lx_ext_def)
  then show "dones h' = dones h" using quiet_track by (simp add: dones_def)
  show "dma_expect b (lx_log h') = dma_expect b (lx_log h)"
    using es quiet_track by (simp add: dma_expect_def)
  show "dma_track m (lx_log h') = dma_track m (lx_log h)"
    by (cases "dma_track m (lx_log h)") (simp_all add: es(1) dma_track_append quiet_track [OF es(2)])
qed

lemma lx_emit_simps [simp]:
  "h_data (lx_emit e h) = h_data h" "h_mrq (lx_emit e h) = h_mrq h" "lx_late (lx_emit e h) = lx_late h"
  "lx_reads (lx_emit e h) = lx_reads h" "dma_addr_bits (lx_emit e h) = dma_addr_bits h"
  "clk_freq (lx_emit e h) = clk_freq h"
  by (simp_all add: lx_emit_def)

lemma lx_log_updates [simp]:
  "dones (h\<lparr>h_data := b\<rparr>) = dones h" "dones (h\<lparr>h_mrq := q\<rparr>) = dones h"
  by (simp_all add: dones_def)

lemma lx_ext_moves: "lx_ext h h' \<Longrightarrow> lx_moves h h'"
  using lx_ext_track(2) [of h h'] by (simp add: lx_ext_def lx_moves_def)

lemma lx_moves_refl [simp]: "lx_moves h h"
  by (simp add: lx_ext_moves)

lemma lx_moves_trans [trans]:
  assumes "lx_moves h h'" and "lx_moves h' h''"
  shows "lx_moves h h''"
proof -
  obtain k k' where "lx_late h' = sdrop k (lx_late h)" "lx_late h'' = sdrop k' (lx_late h')"
    using assms by (auto simp: lx_moves_def)
  then have "lx_late h'' = sdrop (k + k') (lx_late h)" by simp
  then show ?thesis using assms unfolding lx_moves_def by (metis subset_trans)
qed

lemma lx_ext_data: "lx_ext h h' \<Longrightarrow> h_data h' = h_data h"
  by (simp add: lx_ext_def)

text \<open>A command without data is quiet; one with data keeps its mapping exactly when it succeeds.\<close>

lemma send_cmd_quiet:
  assumes "lx_send_cmd ios cmd None h = Some (e, cmd', od', h')"
  shows "lx_ext h h'"
  using assms
  by (auto simp: lx_send_cmd_def wants_data_def Let_def split: Option.bind_splits elim!: lx_issue_cases)

lemma sg_map_simps [simp]:
  "h_data (sg_dma al (dma_map_sg h)) = h_data h" "h_data (dma_map_sg h) = h_data h"
  "lx_log (sg_dma al (dma_map_sg h)) = lx_log h @ [Dma_map (fst (shd (lx_maps h)))]"
  "lx_log (dma_map_sg h) = lx_log h @ [Dma_map (fst (shd (lx_maps h)))]"
  "dma_count (dma_map_sg h) = fst (shd (lx_maps h))"
  "lx_moves h (sg_dma al (dma_map_sg h))" "lx_moves h (dma_map_sg h)"
  "dma_addr_bits (sg_dma al (dma_map_sg h)) = dma_addr_bits h" "lx_late (sg_dma al (dma_map_sg h)) = lx_late h"
  by (simp_all add: sg_dma_def dma_map_sg_def lx_emit_def lx_moves_def dones_def split: prod.splits)
    (auto intro: exI [of _ 0])

lemma lx_moves_updates:
  "lx_moves h h' \<Longrightarrow> lx_moves h (h'\<lparr>h_data := b\<rparr>)"
  "lx_moves h h' \<Longrightarrow> \<not> is_done e \<Longrightarrow> lx_moves h (lx_emit e h')"
  by (simp_all add: lx_moves_def)

lemma send_cmd_data:
  assumes "lx_send_cmd ios cmd od h = Some (e, cmd', od', h')" and "wants_data od"
    and "\<not> h_data h" and "dma_track False (lx_log h) = dma_expect False (lx_log h)"
  shows "lx_moves h h' \<and> dma_track False (lx_log h') = dma_expect (h_data h') (lx_log h') \<and> od' \<noteq> None"
proof -
  let ?n = "fst (shd (lx_maps h))" and ?al = "snd (shd (lx_maps h))"
  let ?h1 = "sg_dma ?al (dma_map_sg h)"
  have t1: "dma_track False (lx_log ?h1) = dma_expect True (lx_log ?h1)" if "?n = 1"
    using assms(4) that by (auto simp: dma_track_append dma_expect_def)
  have unmap: "dma_track False (lx_log (lx_emit Dma_unmap h2)) = dma_expect False (lx_log (lx_emit Dma_unmap h2))"
    if "lx_ext ?h1 h2" "?n = 1" for h2
    by (rule dma_step [of _ True]) (use t1 [OF that(2)] lx_ext_track(1,3) [OF that(1)] in simp_all)
  consider (unmapped) "h' = lx_emit Dma_unmap (dma_map_sg h)" "od' \<noteq> None"
    | (refused) d2 h2 where "?n = 1" "lx_setup_data_xfer ios (the od) ?h1 = Some (e, d2, h2)"
        "h' = lx_emit Dma_unmap h2" "od' \<noteq> None"
    | (sent) d2 h2 command where "?n = 1" "lx_setup_data_xfer ios (the od) ?h1 = Some (No_error, d2, h2)"
        "lx_issue ios command True cmd h2 = Some (e, cmd', h')" "od' \<noteq> None"
    using assms(1,2)
    by (auto simp: lx_send_cmd_def Let_def split: if_splits Option.bind_splits)
  then show ?thesis
  proof cases
    case unmapped
    have "lx_log h' = lx_log h @ [Dma_map ?n, Dma_unmap]" by (simp add: unmapped(1) lx_emit_def [of Dma_unmap])
    moreover have "lx_moves h h'" "\<not> h_data h'" using assms(3) by (simp_all add: unmapped(1) lx_moves_updates)
    ultimately show ?thesis using assms(4) unmapped(2) by (auto simp: dma_track_append dma_expect_def)
  next
    case refused
    have x: "lx_ext ?h1 h2" using refused(2) by (rule lx_setup_ext)
    have "lx_moves h h2" using lx_moves_trans [OF _ lx_ext_moves [OF x], of h] by simp
    then show ?thesis
      using refused(3,4) unmap [OF x refused(1)] lx_ext_data [OF x] assms(3) by (simp add: lx_moves_updates)
  next
    case sent
    have x: "lx_ext ?h1 h2" using sent(2) by (rule lx_setup_ext)
    obtain h3 where h3: "lx_ext h2 h3" "h' = (if e = No_error then h3\<lparr>h_data := True\<rparr> else lx_emit Dma_unmap h3)"
      using sent(3) by (rule lx_issue_cases) auto
    have y: "lx_ext ?h1 h3" using x h3(1) by (rule lx_ext_trans)
    have m: "lx_moves h h3" using lx_moves_trans [OF _ lx_ext_moves [OF y], of h] by simp
    have k: "dma_track False (lx_log h3) = dma_expect True (lx_log h3)"
      using lx_ext_track(1,3) [OF y] t1 [OF sent(1)] by simp
    show ?thesis
    proof (cases "e = No_error")
      case True
      with h3(2) m k sent(4) show ?thesis by (simp add: lx_moves_updates)
    next
      case False
      with h3(2) m sent(4) unmap [OF y sent(1)] lx_ext_data [OF y] assms(3) show ?thesis
        by (simp add: lx_moves_updates)
    qed
  qed
qed

lemma send_cmd_outcome:
  assumes "lx_send_cmd ios cmd od h = Some (e, cmd', od', h')"
    and "\<not> h_data h" and "dma_track False (lx_log h) = dma_expect False (lx_log h)"
  shows "lx_moves h h' \<and> dma_track False (lx_log h') = dma_expect (h_data h') (lx_log h') \<and> (h_data h' \<longrightarrow> od' \<noteq> None)"
proof (cases "wants_data od")
  case True
  then show ?thesis using send_cmd_data [OF assms(1) True assms(2,3)] by blast
next
  case False
  then obtain c where "lx_issue ios c False cmd h = Some (e, cmd', h')"
    using assms(1) by (auto simp: lx_send_cmd_def Let_def split: Option.bind_splits)
  then have x: "lx_ext h h'" by (auto elim: lx_issue_cases)
  then show ?thesis
    using assms(2,3) lx_ext_moves [OF x] lx_ext_track(1,3) [OF x] lx_ext_data [OF x] by simp
qed

lemma clock_runs_moves: "lx_moves h h' \<Longrightarrow> clock_runs h \<Longrightarrow> clock_runs h'"
proof -
  assume "lx_moves h h'" and run: "clock_runs h"
  then obtain k where k: "lx_late h' = sdrop k (lx_late h)" by (auto simp: lx_moves_def)
  have "\<exists>m\<ge>n. lx_late h' !! m" for n
  proof -
    obtain m where "k + n \<le> m" "lx_late h !! m" using run by (auto simp: clock_runs_def)
    then show ?thesis by (intro exI [of _ "m - k"]) (simp add: k sdrop_snth)
  qed
  then show ?thesis by (simp add: clock_runs_def)
qed

lemmas clock_runs_ext = clock_runs_moves [OF lx_ext_moves]

lemma lx_alive_moves: "lx_moves h h' \<Longrightarrow> lx_alive h \<Longrightarrow> lx_alive h'"
  using clock_runs_moves [of h h'] by (simp add: lx_alive_def) (simp add: lx_moves_def)

lemmas lx_alive_ext = lx_alive_moves [OF lx_ext_moves]

lemma lx_alive_simps [simp]:
  "lx_alive (h\<lparr>h_data := b\<rparr>) = lx_alive h" "lx_alive (h\<lparr>h_mrq := q\<rparr>) = lx_alive h" "lx_alive (lx_emit e h) = lx_alive h"
  by (simp_all add: lx_alive_def clock_runs_def)

lemma send_sbc_ext: "send_sbc ios m h = Some (go, m', h') \<Longrightarrow> lx_ext h h'"
  by (auto simp: send_sbc_def split: option.splits Option.bind_splits dest!: send_cmd_quiet)

lemma send_stop_ext: "send_stop ios m h = Some (m', h') \<Longrightarrow> lx_ext h h' \<and> rq_data m' = rq_data m"
  by (auto simp: send_stop_def split: option.splits Option.bind_splits dest!: send_cmd_quiet)

lemma lx_request_inv:
  assumes "lx_inv n h" and "h_mrq h = None" and "lx_request ios m h = Some h'"
  shows "lx_inv (Suc n) h'" and "lx_alive h \<Longrightarrow> lx_alive h'"
proof -
  let ?h0 = "h\<lparr>h_data := False, h_mrq := Some (clear_errors m)\<rparr>"
  have h: "\<not> h_data h" "dma_track False (lx_log h) = dma_expect False (lx_log h)" "dones h = n"
    using assms(1,2) by (auto simp: lx_inv_def split: if_splits)
  obtain go m1 h1 where s: "send_sbc ios (clear_errors m) ?h0 = Some (go, m1, h1)"
    using assms(3) by (auto simp: lx_request_def Let_def split: Option.bind_splits)
  then obtain m2 h2 where s2: "(if go then send_main ios m1 h1 else Some (m1, h1)) = Some (m2, h2)"
    and h': "h' = (if \<not> h_data h2 then (lx_emit (Request_done m2) h2)\<lparr>h_mrq := None\<rparr>
                   else lx_wr R_dat_int_enable 3 (h2\<lparr>h_mrq := Some m2\<rparr>))"
    using assms(3) by (auto simp: lx_request_def Let_def split: Option.bind_splits if_splits)
  have x: "lx_ext ?h0 h1" using s by (rule send_sbc_ext)
  have h1: "\<not> h_data h1" "dma_track False (lx_log h1) = dma_expect False (lx_log h1)" "dones h1 = n"
    using lx_ext_data [OF x] lx_ext_track [OF x] h by (simp_all add: dones_def)
  have o: "lx_moves h1 h2 \<and> dma_track False (lx_log h2) = dma_expect (h_data h2) (lx_log h2) \<and> (h_data h2 \<longrightarrow> rq_data m2 \<noteq> None)"
  proof (cases go)
    case True
    then obtain e c od where "lx_send_cmd ios (rq_cmd m1) (rq_data m1) h1 = Some (e, c, od, h2)" "rq_data m2 = od"
      using s2 by (auto simp: send_main_def split: Option.bind_splits)
    then show ?thesis using send_cmd_outcome [OF _ h1(1,2)] by blast
  next
    case False
    then show ?thesis using s2 h1 by simp
  qed
  show "lx_inv (Suc n) h'"
  proof (cases "h_data h2")
    case True
    then have "dma_track False (lx_log h') = dma_expect True (lx_log h')"
      using o h' dma_step [of "h2\<lparr>h_mrq := Some m2\<rparr>" True "Lx_write R_dat_int_enable 3"] by simp
    with True o h' h1(3) show ?thesis by (auto simp: lx_inv_def lx_moves_def)
  next
    case False
    then have "dma_track False (lx_log h') = dma_expect False (lx_log h')"
      using o h' dma_step [of h2 False "Request_done m2"] by simp
    with False o h' h1(3) show ?thesis by (auto simp: lx_inv_def lx_moves_def)
  qed
  show "lx_alive h'" if "lx_alive h"
    using that o h' lx_alive_ext [OF x] lx_alive_moves [of h1 h2] by (simp split: if_splits)
qed

lemma isr_detect_ext: "lx_ext h (isr_detect h)"
proof -
  obtain cd h1 where r: "lx_rd R_card_detect h = (cd, h1)" by (cases "lx_rd R_card_detect h")
  then have "lx_ext h h1" by (rule lx_rd_ext)
  then show ?thesis by (simp add: isr_detect_def r)
qed

lemma lx_inv_ext:
  assumes "lx_inv n h" and "lx_ext h h'"
  shows "lx_inv n h'"
  using assms(1) lx_ext_track [OF assms(2)] assms(2) unfolding lx_inv_def lx_ext_def by presburger

lemma isr_complete_inv:
  assumes "lx_inv n h" and "isr_complete ios status h = Some h'"
  shows "lx_inv n h' \<and> (lx_alive h \<longrightarrow> lx_alive h')"
proof (cases "h_data h")
  case True
  then obtain m m' h1 where s: "send_stop ios m h = Some (m', h1)"
    "h' = lx_emit (Request_done m') ((lx_emit Dma_unmap h1)\<lparr>h_data := False, h_mrq := None\<rparr>)"
    using assms(2) by (auto simp: isr_complete_def split: Option.bind_splits)
  have x: "lx_ext h h1" using send_stop_ext [OF s(1)] by blast
  let ?h2 = "(lx_emit Dma_unmap h1)\<lparr>h_data := False, h_mrq := None\<rparr>"
  have "dma_track False (lx_log h1) = dma_expect True (lx_log h1)"
    using assms(1) True lx_ext_track(1,3) [OF x] by (simp add: lx_inv_def)
  then have "dma_track False (lx_log (lx_emit Dma_unmap h1)) = dma_expect False (lx_log (lx_emit Dma_unmap h1))"
    by (rule dma_step) simp_all
  then have "dma_track False (lx_log h') = dma_expect False (lx_log h')"
    unfolding s(2) by (intro dma_step [of ?h2 False]) simp_all
  then show ?thesis
    using assms(1) True lx_ext_track(2) [OF x] lx_alive_ext [OF x] s(2) by (auto simp: lx_inv_def)
qed (use assms in \<open>simp add: isr_complete_def\<close>)

lemma lx_isr_inv:
  assumes "lx_inv n h" and "lx_isr ios h = Some h'"
  shows "lx_inv n h' \<and> (lx_alive h \<longrightarrow> lx_alive h')"
proof -
  obtain status h1 where r: "lx_rd R_dat_int_status (isr_detect h) = (status, h1)"
    by (cases "lx_rd R_dat_int_status (isr_detect h)")
  have x: "lx_ext h h1" using lx_ext_trans [OF isr_detect_ext lx_rd_ext [OF r]] .
  show ?thesis
  proof (cases "status = 0")
    case True
    with assms(2) r lx_inv_ext [OF assms(1) x] lx_alive_ext [OF x] show ?thesis by (simp add: lx_isr_def)
  next
    case False
    then obtain h2 where h2: "lx_wait_sw_reset False (lx_wr R_dat_int_status 0 (lx_wr R_dat_int_enable 0 h1)) = Some h2"
      "isr_complete ios status h2 = Some h'"
      using assms(2) by (auto simp: lx_isr_def r split: Option.bind_splits)
    have "lx_ext h h2" using lx_ext_trans [OF _ lx_wait_ext [OF h2(1)], of h] x by simp
    then show ?thesis using isr_complete_inv [OF lx_inv_ext [OF assms(1)] h2(2)] lx_alive_ext by blast
  qed
qed

lemma lx_reset_ext:
  assumes "lx_reset_locked h = Some h'"
  shows "lx_ext h h'"
proof -
  let ?clear = "\<lambda>h. lx_wr R_dat_int_status 0 (lx_wr R_cmd_int_status 0 (lx_wr R_dat_int_enable 0
    (lx_wr R_cmd_int_enable 0 (lx_wr R_control 0 (lx_emit (Lx_delay 10000) h)))))"
  obtain h1 h2 h3 where h: "lx_set_clock 400000 h = Some h1"
    "lx_wait_sw_reset True (lx_wr R_software_reset 1 h1) = Some h2"
    "lx_wait_sw_reset False (lx_wr R_software_reset 0 h2) = Some h3"
    using assms by (auto simp: lx_reset_locked_def split: Option.bind_splits)
  obtain cd h4 where r: "lx_rd R_card_detect (?clear h3) = (cd, h4)" by (cases "lx_rd R_card_detect (?clear h3)")
  have "lx_ext h h1" using h(1) by (rule lx_set_clock_ext)
  then have "lx_ext h h2" using lx_wait_ext [OF h(2)] lx_ext_trans ext_emit by (metis quiet_event.simps(1))
  then have "lx_ext h h3" using lx_wait_ext [OF h(3)] lx_ext_trans ext_emit by (metis quiet_event.simps(1))
  then have "lx_ext h (?clear h3)" by simp
  then have h4: "lx_ext h h4" using lx_rd_ext [OF r] by (rule lx_ext_trans)
  let ?h5 = "if cd AND 2 \<noteq> 0 then lx_wr R_card_detect 4 h4 else if cd AND 8 \<noteq> 0 then lx_wr R_card_detect 1 h4 else h4"
  have "lx_wait_sw_reset False ?h5 = Some h'"
    using assms r by (simp add: lx_reset_locked_def h)
  moreover have "lx_ext h ?h5" using h4 by simp
  ultimately show ?thesis using lx_wait_ext lx_ext_trans by blast
qed

lemma lx_set_ios_ext:
  assumes "lx_set_ios ios h = Some h'"
  shows "lx_ext h h'"
proof -
  obtain h1 h2 where h: "(if ios_power_mode ios = MMC_POWER_UP then lx_reset_locked h else Some h) = Some h1"
    "lx_set_clock (ios_clock ios) h1 = Some h2"
    "h' = lx_wr R_control (if ios_bus_width ios = MMC_BUS_WIDTH_4 then 1 else 0) h2"
    using assms unfolding lx_set_ios_def by (auto split: Option.bind_splits)
  have "lx_ext h h1" using h(1) lx_reset_ext by (auto split: if_splits)
  then show ?thesis using lx_ext_trans [OF _ lx_set_clock_ext [OF h(2)]] h(3) by simp
qed

lemma lx_card_reset_ext: "lx_ext h (lx_card_reset h)"
proof -
  obtain c h1 where r: "lx_rd R_control h = (c, h1)" by (cases "lx_rd R_control h")
  then have "lx_ext h h1" by (rule lx_rd_ext)
  then show ?thesis by (simp add: lx_card_reset_def r)
qed

lemma lx_reach_inv: "lx_reach h0 n h \<Longrightarrow> lx_idle h0 \<Longrightarrow> lx_inv n h \<and> (lx_alive h0 \<longrightarrow> lx_alive h)"
proof (induction rule: lx_reach.induct)
  case start
  then show ?case by (simp add: lx_idle_def lx_inv_def dones_def dma_expect_def)
next
  case (settings n h ios h')
  then show ?case using lx_inv_ext lx_alive_ext lx_set_ios_ext by blast
next
  case (card_reset n h)
  then show ?case using lx_inv_ext lx_alive_ext lx_card_reset_ext by blast
qed (use lx_request_inv lx_isr_inv in blast)+

section \<open>Bounded waits\<close>

lemma clock_runs_late: "clock_runs h \<Longrightarrow> \<exists>n. lx_late h !! n"
  by (auto simp: clock_runs_def)

lemma lx_wait_late: "lx_late h !! n \<Longrightarrow> lx_wait_sw_reset on h \<noteq> None"
proof (induction n arbitrary: h)
  case 0
  then show ?case by (subst lx_wait_sw_reset.simps) (simp add: lx_rd_def past_deadline_def)
next
  case (Suc n)
  then show ?case by (subst lx_wait_sw_reset.simps) (cases on; simp add: lx_rd_def past_deadline_def)
qed

lemma lx_wait_returns: "clock_runs h \<Longrightarrow> \<exists>h'. lx_wait_sw_reset on h = Some h'"
  using clock_runs_late lx_wait_late by blast

lemma lx_wait_emit: "clock_runs h \<Longrightarrow> \<exists>h'. lx_wait_sw_reset on (lx_emit e h) = Some h'"
  using lx_wait_returns [of "lx_emit e h" on] by (simp add: clock_runs_def)

lemma lx_cmd_finish_late: "lx_late h !! n \<Longrightarrow> clock_runs h \<Longrightarrow> lx_cmd_finish cmd h \<noteq> None"
proof (induction n arbitrary: h)
  case (Suc n)
  obtain status h1 where s: "lx_rd R_cmd_int_status h = (status, h1)" by (cases "lx_rd R_cmd_int_status h")
  have h1: "lx_late h1 = lx_late h" "clock_runs h1"
    using s clock_runs_ext [OF lx_rd_ext [OF s] Suc.prems(2)] by (auto simp: lx_rd_def)
  obtain late h2 where l: "past_deadline h1 = (late, h2)" by (cases "past_deadline h1")
  then have "lx_late h2 !! n" "clock_runs h2"
    using Suc.prems(1) h1 clock_runs_ext [OF past_deadline_ext [OF l]] by (auto simp: past_deadline_def)
  then have "lx_cmd_finish cmd h2 \<noteq> None" by (rule Suc.IH)
  moreover obtain h3 where "lx_wait_sw_reset False (lx_wr R_cmd_int_status 0 h1) = Some h3"
    using lx_wait_emit [OF h1(2)] by blast
  ultimately show ?case by (subst lx_cmd_finish.simps) (simp add: s l)
next
  case 0
  obtain status h1 where s: "lx_rd R_cmd_int_status h = (status, h1)" by (cases "lx_rd R_cmd_int_status h")
  have "clock_runs h1" using clock_runs_ext [OF lx_rd_ext [OF s] 0(2)] .
  then obtain h3 where "lx_wait_sw_reset False (lx_wr R_cmd_int_status 0 h1) = Some h3"
    using lx_wait_emit by blast
  moreover have "fst (past_deadline h1)" using s 0(1) by (auto simp: lx_rd_def past_deadline_def)
  ultimately show ?case by (subst lx_cmd_finish.simps) (simp add: s case_prod_beta)
qed

lemma lx_cmd_finish_returns: "clock_runs h \<Longrightarrow> \<exists>cmd' h'. lx_cmd_finish cmd h = Some (cmd', h')"
  using clock_runs_late lx_cmd_finish_late by fastforce

lemma lx_issue_returns:
  assumes "clock_runs h"
  shows "\<exists>r. lx_issue ios command xfer cmd h = Some r"
proof -
  let ?h = "lx_wr R_argument (ucast (cmd_arg cmd))
    (set_timeout R_cmd_timeout (ucast (ios_clock ios) * 1000 div 1000) (lx_wr R_command (ucast command) h))"
  have "lx_ext h ?h" using lx_ext_trans [OF lx_emit_ext set_timeout_ext] by simp
  then obtain cmd' h' where "lx_cmd_finish cmd ?h = Some (cmd', h')"
    using lx_cmd_finish_returns clock_runs_ext assms by blast
  then show ?thesis by (simp add: lx_issue_def)
qed

lemma lx_setup_returns:
  assumes "dma_addr_bits h < 64"
  shows "\<exists>r. lx_setup_data_xfer ios d h = Some r"
proof -
  have "\<not> 64 \<le> dma_addr_bits h" using assms by simp
  then show ?thesis by (simp add: lx_setup_data_xfer_def Let_def)
qed

lemma send_cmd_returns:
  assumes "clock_runs h" and "dma_addr_bits h < 64"
  shows "\<exists>e c od' h'. lx_send_cmd ios cmd od h = Some (e, c, od', h')"
proof (cases "wants_data od")
  case False
  obtain r where "lx_issue ios (push_bit 8 (opcode cmd) OR rsp_bits (cmd_flags cmd)) False cmd h = Some r"
    using lx_issue_returns [OF assms(1)] by blast
  with False show ?thesis by (cases r) (simp add: lx_send_cmd_def)
next
  case True
  let ?h1 = "sg_dma (snd (shd (lx_maps h))) (dma_map_sg h)"
  obtain e d h2 where s: "lx_setup_data_xfer ios (the od) ?h1 = Some (e, d, h2)"
    using lx_setup_returns [of ?h1 ios "the od"] assms(2) by auto
  have "clock_runs ?h1" using clock_runs_moves [OF _ assms(1), of ?h1] by simp
  then have "clock_runs h2" using clock_runs_ext lx_setup_ext [OF s] by blast
  then obtain r where "lx_issue ios (push_bit 8 (opcode cmd) OR rsp_bits (cmd_flags cmd) OR dir_bits (data_dirs d)) True cmd h2 = Some r"
    using lx_issue_returns by blast
  then show ?thesis using True s by (auto simp: lx_send_cmd_def Let_def or.assoc split: prod.splits)
qed

lemma send_cmd_alive:
  assumes "lx_alive h"
  obtains e c od' h' where "lx_send_cmd ios cmd od h = Some (e, c, od', h')"
  using send_cmd_returns [of h ios cmd od] assms by (auto simp: lx_alive_def)

lemma send_sbc_returns:
  assumes "lx_alive h"
  obtains go m' h' where "send_sbc ios m h = Some (go, m', h')"
proof (cases "rq_sbc m")
  case (Some c)
  obtain e c' od' h' where "lx_send_cmd ios c None h = Some (e, c', od', h')" using assms by (rule send_cmd_alive)
  with Some that show thesis by (simp add: send_sbc_def)
qed (use that in \<open>simp add: send_sbc_def\<close>)


lemma lx_request_returns:
  assumes "lx_alive h"
  shows "\<exists>h'. lx_request ios m h = Some h'"
proof -
  let ?h0 = "h\<lparr>h_data := False, h_mrq := Some (clear_errors m)\<rparr>"
  obtain go m1 h1 where s: "send_sbc ios (clear_errors m) ?h0 = Some (go, m1, h1)"
    by (rule send_sbc_returns [of ?h0]) (simp add: assms)
  have "lx_alive h1" using lx_alive_ext [OF send_sbc_ext [OF s]] assms by simp
  then obtain e c od h2 where "lx_send_cmd ios (rq_cmd m1) (rq_data m1) h1 = Some (e, c, od, h2)"
    by (rule send_cmd_alive)
  then show ?thesis by (simp add: lx_request_def s send_main_def Let_def)
qed


lemma lx_set_clock_returns: "clock < 2 ^ 31 \<Longrightarrow> \<exists>h'. lx_set_clock clock h = Some h'"
proof -
  assume c: "clock < 2 ^ 31"
  have "2 * clock \<noteq> 0" if "400000 \<le> clock"
  proof
    assume "2 * clock = 0"
    then have "unat (2 * clock) = 0" by simp
    moreover have "unat clock < 2 ^ 31" using c by (simp add: word_less_nat_alt)
    ultimately have "unat clock = 0" by (simp add: unat_word_ariths)
    with that show False by (simp add: word_le_nat_alt)
  qed
  then show ?thesis by (simp add: lx_set_clock_def Let_def case_prod_beta)
qed

lemma lx_reset_returns:
  assumes "clock_runs h"
  shows "\<exists>h'. lx_reset_locked h = Some h'"
proof -
  let ?clear = "\<lambda>h. lx_wr R_dat_int_status 0 (lx_wr R_cmd_int_status 0 (lx_wr R_dat_int_enable 0
    (lx_wr R_cmd_int_enable 0 (lx_wr R_control 0 (lx_emit (Lx_delay 10000) h)))))"
  obtain h1 where h1: "lx_set_clock 400000 h = Some h1" using lx_set_clock_returns [of 400000 h] by auto
  have r1: "clock_runs h1" using clock_runs_ext [OF lx_set_clock_ext [OF h1] assms] .
  obtain h2 where h2: "lx_wait_sw_reset True (lx_wr R_software_reset 1 h1) = Some h2" using lx_wait_emit [OF r1] by blast
  have r2: "clock_runs h2"
    using clock_runs_ext [OF lx_ext_trans [OF lx_emit_ext lx_wait_ext [OF h2]] r1] by simp
  obtain h3 where h3: "lx_wait_sw_reset False (lx_wr R_software_reset 0 h2) = Some h3" using lx_wait_emit [OF r2] by blast
  have r3: "clock_runs h3"
    using clock_runs_ext [OF lx_ext_trans [OF lx_emit_ext lx_wait_ext [OF h3]] r2] by simp
  obtain cd h4 where r: "lx_rd R_card_detect (?clear h3) = (cd, h4)" by (cases "lx_rd R_card_detect (?clear h3)")
  have "lx_ext h3 h4" using lx_ext_trans [OF _ lx_rd_ext [OF r], of h3] by simp
  then have r4: "clock_runs h4" using clock_runs_ext r3 by blast
  show ?thesis
    using lx_wait_emit [OF r4] lx_wait_returns [OF r4] by (simp add: lx_reset_locked_def h1 h2 h3 r)
qed

lemma card_gone_ext: "lx_ext h h' \<Longrightarrow> card_gone h \<Longrightarrow> card_gone h'"
  unfolding card_gone_def lx_ext_def by blast

lemma gone_cmd_finish:
  assumes "lx_cmd_finish cmd h = Some r" and "card_gone h"
  shows "cmd_error (fst r) = E_TIMEDOUT"
proof -
  have "card_gone h \<longrightarrow> cmd_error (fst r) = E_TIMEDOUT"
    using assms(1)
  proof (rule lx_cmd_finish.raw_induct [where P = "\<lambda>cmd h r. card_gone h \<longrightarrow> cmd_error (fst r) = E_TIMEDOUT", rotated],
      goal_cases)
    case (1 finish cmd h r)
    obtain status h1 where s: "lx_rd R_cmd_int_status h = (status, h1)" by (cases "lx_rd R_cmd_int_status h")
    obtain late h2 where l: "past_deadline h1 = (late, h2)" by (cases "past_deadline h1")
    have "card_gone h2" and "status = 0" if "card_gone h"
      using card_gone_ext [OF ext_forward(2) [OF lx_rd_ext [OF s] l] that] s that stream.set_sel(1)
      by (auto simp: lx_rd_def card_gone_def)
    then show ?case using 1(2) 1(1) [of cmd h2 r] by (auto simp: s l split: if_splits)
  qed
  with assms(2) show ?thesis by blast
qed

lemma gone_issue:
  assumes "lx_issue ios command xfer cmd h = Some (e, cmd', h')" and "card_gone h"
  shows "e = E_TIMEDOUT" "cmd_error cmd' = E_TIMEDOUT"
proof -
  let ?h = "lx_wr R_argument (ucast (cmd_arg cmd))
    (set_timeout R_cmd_timeout (ucast (ios_clock ios) * 1000 div 1000) (lx_wr R_command (ucast command) h))"
  have "lx_ext h ?h" using lx_ext_trans [OF lx_emit_ext set_timeout_ext] by simp
  then have "card_gone ?h" using card_gone_ext assms(2) by blast
  then have "cmd_error (fst r) = E_TIMEDOUT" if "lx_cmd_finish cmd ?h = Some r" for r
    using gone_cmd_finish that by blast
  then show "e = E_TIMEDOUT" "cmd_error cmd' = E_TIMEDOUT"
    using assms(1) by (auto simp: lx_issue_def split: Option.bind_splits if_splits)
qed

lemma gone_send_cmd:
  assumes "lx_send_cmd ios cmd od h = Some (e, cmd', od', h')" and "card_gone h" and "\<not> h_data h"
  shows "e \<noteq> No_error \<and> \<not> h_data h' \<and>
    (cmd_error cmd' = E_TIMEDOUT \<or> (\<exists>d. od' = Some d \<and> data_error d \<noteq> No_error))"
proof (cases "wants_data od")
  case False
  then obtain c where i: "lx_issue ios c False cmd h = Some (e, cmd', h')"
    using assms(1) by (auto simp: lx_send_cmd_def Let_def split: Option.bind_splits)
  then have "lx_ext h h'" by (auto elim: lx_issue_cases)
  then show ?thesis using gone_issue [OF i assms(2)] assms(3) lx_ext_data by simp
next
  case True
  let ?h1 = "sg_dma (snd (shd (lx_maps h))) (dma_map_sg h)"
  have g: "card_gone ?h1"
    using assms(2) by (simp add: card_gone_def sg_dma_def dma_map_sg_def split: prod.splits)
  show ?thesis
  proof (cases "dma_count (dma_map_sg h) = 1")
    case False
    with True assms(1,3) show ?thesis by (auto simp: lx_send_cmd_def Let_def)
  next
    case one: True
    obtain e1 d2 h2 where s: "lx_setup_data_xfer ios (the od) ?h1 = Some (e1, d2, h2)"
      using assms(1) True one by (auto simp: lx_send_cmd_def Let_def split: Option.bind_splits)
    have x: "lx_ext ?h1 h2" using s by (rule lx_setup_ext)
    have g2: "card_gone h2" "\<not> h_data h2" using card_gone_ext [OF x g] lx_ext_data [OF x] assms(3) by simp_all
    have issue: "e' = E_TIMEDOUT \<and> cmd_error c' = E_TIMEDOUT \<and> \<not> h_data h3"
      if "lx_issue ios command True cmd h2 = Some (e', c', h3)" for command e' c' h3
      using that
    proof (rule lx_issue_cases)
      fix h1 assume "lx_ext h2 h1"
        "h3 = (if \<not> True then h1 else if e' = No_error then h1\<lparr>h_data := True\<rparr> else lx_emit Dma_unmap h1)"
      then show ?thesis using gone_issue [OF that g2(1)] g2(2) lx_ext_data by simp
    qed
    then show ?thesis using assms(1) True one s g2(2)
      by (auto simp: lx_send_cmd_def Let_def split: if_splits Option.bind_splits)
  qed
qed

lemma gone_request:
  assumes "lx_request ios m h = Some h'" and "card_gone h"
  obtains m' where "h_mrq h' = None" "\<not> h_data h'" "last (lx_log h') = Request_done m'" "failed m'"
proof -
  let ?h0 = "h\<lparr>h_data := False, h_mrq := Some (clear_errors m)\<rparr>"
  obtain go m1 h1 where s: "send_sbc ios (clear_errors m) ?h0 = Some (go, m1, h1)"
    using assms(1) by (auto simp: lx_request_def Let_def split: Option.bind_splits)
  then obtain m2 h2 where s2: "(if go then send_main ios m1 h1 else Some (m1, h1)) = Some (m2, h2)"
    and h': "h' = (if \<not> h_data h2 then (lx_emit (Request_done m2) h2)\<lparr>h_mrq := None\<rparr>
                   else lx_wr R_dat_int_enable 3 (h2\<lparr>h_mrq := Some m2\<rparr>))"
    using assms(1) by (auto simp: lx_request_def Let_def split: Option.bind_splits if_splits)
  have x: "lx_ext ?h0 h1" using s by (rule send_sbc_ext)
  have g: "card_gone h1" "\<not> h_data h1"
    using card_gone_ext [OF x] assms(2) lx_ext_data [OF x] by (simp_all add: card_gone_def)
  have "\<not> h_data h2 \<and> failed m2"
  proof (cases go)
    case True
    with s2 obtain e c od where c: "lx_send_cmd ios (rq_cmd m1) (rq_data m1) h1 = Some (e, c, od, h2)"
      and m2: "m2 = m1\<lparr>rq_cmd := c, rq_data := od\<rparr>"
      by (auto simp: send_main_def split: Option.bind_splits)
    show ?thesis using gone_send_cmd [OF c g] m2 by (auto simp: failed_def)
  next
    case False
    obtain b e b' od where "lx_send_cmd ios b None ?h0 = Some (e, b', od, h1)" "m1 = (clear_errors m)\<lparr>rq_sbc := Some b'\<rparr>"
      using s False by (auto simp: send_sbc_def split: option.splits Option.bind_splits)
    moreover have "card_gone ?h0" using assms(2) by (simp add: card_gone_def)
    ultimately have "failed m1"
      using gone_send_cmd [of ios b None ?h0 e b' od h1]
      by (auto simp: failed_def lx_send_cmd_def wants_data_def split: Option.bind_splits)
    with False s2 g show ?thesis by simp
  qed
  with h' that [of m2] show thesis by (simp add: lx_emit_def)
qed


lemma probe_start_outcome:
  assumes "clock_runs h"
  obtains r evs h' where "probe_start E h = Some (r, evs, h')" "evs = (if r = 0 then [Host_add] else [Irq_free, Host_free])"
proof -
  obtain cap h1 where c: "lx_rd R_capability h = (cap, h1)" by (cases "lx_rd R_capability h")
  have "clock_runs (h1\<lparr>dma_addr_bits := dma_bits_of cap\<rparr>)"
    using clock_runs_ext [OF lx_rd_ext [OF c] assms] by (simp add: clock_runs_def)
  then obtain h2 where h2: "lx_reset_locked (h1\<lparr>dma_addr_bits := dma_bits_of cap\<rparr>) = Some h2"
    using lx_reset_returns by blast
  show thesis
  proof (cases "cap AND 0xFF00 \<noteq> 0 \<and> pe_dma_mask E \<noteq> 0")
    case True
    show ?thesis by (rule that [of "pe_dma_mask E"]) (use True in \<open>simp_all add: probe_start_def c\<close>)
  next
    case False
    show ?thesis by (rule that [of "pe_add_host E"]) (use False h2 in \<open>auto simp: probe_start_def c Let_def\<close>)
  qed
qed

lemma demo_host_alive: "lx_alive demo_host" "lx_idle demo_host" "lx_alive gone_host" "lx_idle gone_host" "card_gone gone_host"
  by (auto simp: lx_alive_def lx_idle_def clock_runs_def demo_host_def gone_host_def card_gone_def sset_siterate)

lemma demo_request:
  "\<exists>h. lx_request demo_ios read_one demo_host = Some h \<and> h_data h \<and> Dma_map 0 \<notin> set (lx_log h)"
  by (simp add: lx_request_def clear_errors_def send_sbc_def send_main_def read_one_def lx_send_cmd_def wants_data_def
      dma_map_sg_def sg_dma_def lx_setup_data_xfer_def demo_host_def Let_def set_timeout_def lx_rd_def lx_issue_def
      lx_cmd_finish.simps lx_wait_sw_reset.simps lx_response_def lx_emit_def SDC_CMD_INT_STATUS_CC_def)

text \<open>The divider is in the range of its register, and rounding it down can exceed the clock asked for.\<close>

lemma clock_div_range: "1 \<le> clock_div freq clock" "clock_div freq clock \<le> 0x100"
proof -
  have "1 \<le> x" if "x \<noteq> 0" for x :: u32 using that by (simp add: word_le_nat_alt Suc_le_eq unat_gt_0)
  then show "1 \<le> clock_div freq clock" by (simp add: clock_div_def Let_def)
qed (auto simp: clock_div_def Let_def)

lemma clock_div_exceeds: "clock_div 100000000 26000000 = 1 \<and> 26000000 < 100000000 div (2 * (1 :: nat))"
  by (simp add: clock_div_def)

section \<open>Properties\<close>

text \<open>
  C24. The life of a request. After any sequence of requests, interrupts, bus settings and card resets,
  every request the core made has been handed back exactly once, except the one that waits for its
  data, and a request is pending exactly when it does. As long as no call of \<open>dma_map_sg\<close> has failed (returned 0),
  the pending request has its buffer mapped and no other mapping is live: a buffer is mapped once and
  unmapped once, and always before its request is handed back. After a failed call the discipline is
  always broken: the driver unmaps what was never mapped.
\<close>

theorem lx_request_lifecycle:
  assumes "lx_idle h0" and "lx_reach h0 n h"
  shows "dones h + (if h_data h then 1 else 0) = n \<and> (h_data h \<longleftrightarrow> h_mrq h \<noteq> None) \<and>
    dma_track False (lx_log h) = (if Dma_map 0 \<in> set (lx_log h) then None else Some (h_data h))"
  using lx_reach_inv [OF assms(2,1)] by (auto simp: lx_inv_def dma_expect_def split: if_splits)

theorem lx_request_lifecycle_witness:
  "\<exists>h. lx_reach demo_host 1 h \<and> h_data h \<and> h_mrq h \<noteq> None \<and> dones h = 0 \<and> dma_track False (lx_log h) = Some True"
proof -
  obtain h where h: "lx_request demo_ios read_one demo_host = Some h" "h_data h" "Dma_map 0 \<notin> set (lx_log h)"
    using demo_request by blast
  have "lx_reach demo_host 1 h"
    using lx_reach.request [OF lx_reach.start _ h(1)] by (simp add: demo_host_def)
  with lx_request_lifecycle [OF demo_host_alive(2) this] h(2,3) show ?thesis by auto
qed



text \<open>
  A card that is gone. When no command completes any more, a request made in any reachable state
  with no request pending comes back at once with an error, and leaves no mapping behind.
\<close>

theorem lx_card_gone_fails:
  assumes "lx_idle h0" and "lx_alive h0" and "lx_reach h0 n h" and "h_mrq h = None" and "card_gone h"
  shows "\<exists>h' m'. lx_request ios m h = Some h' \<and> h_mrq h' = None \<and> last (lx_log h') = Request_done m' \<and>
    failed m' \<and> dma_track False (lx_log h') = dma_expect False (lx_log h')"
proof -
  obtain h' where h': "lx_request ios m h = Some h'"
    using lx_request_returns lx_reach_inv [OF assms(3,1)] assms(2) by blast
  obtain m' where m': "h_mrq h' = None" "\<not> h_data h'" "last (lx_log h') = Request_done m'" "failed m'"
    using h' assms(5) by (rule gone_request)
  have "lx_inv (Suc n) h'" using lx_request_inv [OF _ assms(4) h'] lx_reach_inv [OF assms(3,1)] by blast
  with h' m' show ?thesis by (auto simp: lx_inv_def)
qed

theorem lx_card_gone_fails_witness:
  "\<exists>h' m'. lx_request demo_ios read_one gone_host = Some h' \<and> last (lx_log h') = Request_done m' \<and> failed m'"
  using lx_card_gone_fails [OF demo_host_alive(4,3) lx_reach.start _ demo_host_alive(5), of demo_ios read_one]
  by (auto simp: gone_host_def demo_host_def)

text \<open>
  Probing cleans up after itself. On every path a probe holds the host and its interrupt at the
  end exactly when it returns 0, the interrupt is never left connected to a host that was freed, and
  removing the driver releases both.
\<close>

theorem probe_cleans_up:
  assumes "clock_runs h" and "pe_ioremap E \<noteq> Some 0"
  shows "\<exists>r evs m h'. axi_sdc_probe E h = Some (r, evs, m, h') \<and> held (False, False) evs = Some (r = 0, r = 0) \<and>
    (r = 0 \<longrightarrow> held (False, False) (evs @ axi_sdc_remove) = Some (False, False))"
proof -
  obtain r m where p: "pe_of_parse E = (r, m)" by (cases "pe_of_parse E")
  let ?h = "h\<lparr>clk_freq := (case pe_clock E of None \<Rightarrow> 100000000 | Some c \<Rightarrow> c)\<rparr>"
  have "clock_runs ?h" using assms(1) by (simp add: clock_runs_def)
  then obtain r' evs h' where "probe_start E ?h = Some (r', evs, h')"
    "evs = (if r' = 0 then [Host_add] else [Irq_free, Host_free])"
    by (rule probe_start_outcome)
  then show ?thesis
    using assms(2)
    by (cases "pe_ioremap E") (auto simp: axi_sdc_probe_def p Let_def axi_sdc_remove_def)
qed

theorem probe_cleans_up_witness:
  "\<exists>r evs m h'. axi_sdc_probe demo_probe demo_host = Some (r, evs, m, h') \<and>
     held (False, False) evs = Some (r = 0, r = 0)"
proof -
  have "clock_runs demo_host" using demo_host_alive(1) by (simp add: lx_alive_def)
  from probe_cleans_up [OF this, of demo_probe] show ?thesis by (auto simp: demo_probe_def)
qed

end
