(* ===== verification/Linux_Dp.thy ===== *)
theory Linux_Dp
  imports Clk_Wzrd
begin

text \<open>
  Video modes of the Linux display driver, \<open>linux/drivers/dp/dp-main.c\<close>: the mode of the device
  tree, the check of a mode against the budget of the pixel clock, and the switch of the whole
  pipeline to another mode. Register writes and the calls into the link code are logged in order; what
  a register reads while it is polled is an argument. The bring-up worker is not modelled.
\<close>

section \<open>Data\<close>

record soct_dp_mode =
  hactive :: u32
  hfront_porch :: u32
  hsync_len :: u32
  hback_porch :: u32
  vactive :: u32
  vfront_porch :: u32
  vsync_len :: u32
  vback_porch :: u32
  hsync_active :: u32
  vsync_active :: u32
  fps :: u32
  pixel_clock_hz :: u32

text \<open>The mode after \<open>memset(&s.cur, 0, sizeof(s.cur))\<close>.\<close>

definition no_mode :: soct_dp_mode where
  "no_mode = \<lparr>hactive = 0, hfront_porch = 0, hsync_len = 0, hback_porch = 0, vactive = 0, vfront_porch = 0,
     vsync_len = 0, vback_porch = 0, hsync_active = 0, vsync_active = 0, fps = 0, pixel_clock_hz = 0\<rparr>"

datatype dp_result = Dp_OK | Dp_EINVAL | Dp_EOPNOTSUPP | Dp_EIO | Dp_clock wzrd_result

datatype dp_event = Vdma_write u32 u32 | Vtc_write u32 u32 | Clk_write u32 u32
  | Relocked soct_clk_wzrd_setting | Dp_stream soct_dp_mode

record dp_state =
  dp_cur :: soct_dp_mode
  dp_retunable :: bool
  dp_lim :: soct_clk_wzrd_limits
  dp_max_hz :: u32
  dp_fb :: u64
  dp_fb_size :: u64
  dp_log :: "dp_event list"

definition dp_emit :: "dp_event list \<Rightarrow> dp_state \<Rightarrow> dp_state" where
  "dp_emit es s = s\<lparr>dp_log := dp_log s @ es\<rparr>"

section \<open>Modes\<close>

definition mode_htotal :: "soct_dp_mode \<Rightarrow> u32" where
  "mode_htotal m = hactive m + hfront_porch m + hsync_len m + hback_porch m"

definition mode_vtotal :: "soct_dp_mode \<Rightarrow> u32" where
  "mode_vtotal m = vactive m + vfront_porch m + vsync_len m + vback_porch m"

text \<open>\<open>of_property_read_u32\<close> is a parameter.\<close>

definition mode_prop :: "(string \<Rightarrow> u32 option) \<Rightarrow> string \<Rightarrow> string option \<Rightarrow> u32 option" where
  "mode_prop np name alt =
     (case np name of Some v \<Rightarrow> Some v | None \<Rightarrow> (case alt of None \<Rightarrow> None | Some a \<Rightarrow> np a))"

definition of_read_mode :: "(string \<Rightarrow> u32 option) \<Rightarrow> soct_dp_mode option" where
  "of_read_mode np = do {
     ha \<leftarrow> mode_prop np ''hactive'' (Some ''soct,hactive'');
     hf \<leftarrow> mode_prop np ''hfront-porch'' None;
     hs \<leftarrow> mode_prop np ''hsync-len'' None;
     hb \<leftarrow> mode_prop np ''hback-porch'' None;
     va \<leftarrow> mode_prop np ''vactive'' (Some ''soct,vactive'');
     vf \<leftarrow> mode_prop np ''vfront-porch'' None;
     vs \<leftarrow> mode_prop np ''vsync-len'' None;
     vb \<leftarrow> mode_prop np ''vback-porch'' None;
     hp \<leftarrow> mode_prop np ''hsync-active'' None;
     vp \<leftarrow> mode_prop np ''vsync-active'' None;
     f \<leftarrow> mode_prop np ''fps'' (Some ''soct,fps'');
     c \<leftarrow> mode_prop np ''clock-frequency'' None;
     Some \<lparr>hactive = ha, hfront_porch = hf, hsync_len = hs, hback_porch = hb, vactive = va, vfront_porch = vf,
       vsync_len = vs, vback_porch = vb, hsync_active = hp, vsync_active = vp, fps = f, pixel_clock_hz = c\<rparr> }"

text \<open>
  The node of the retunable clock, if there is one, and whether its registers can be mapped. The part
  of a budget that was read before a property was missing is never used and not kept.
\<close>

definition parse_pixclk :: "(string \<Rightarrow> u32 option) option \<Rightarrow> bool \<Rightarrow> dp_state \<Rightarrow> dp_state" where
  "parse_pixclk node mapped s =
     (case node of
        None \<Rightarrow> s
      | Some np \<Rightarrow>
          (case do {
             i \<leftarrow> np ''soct,input-frequency'';
             mx \<leftarrow> np ''soct,max-frequency'';
             v0 \<leftarrow> np ''soct,vco-min'';
             v1 \<leftarrow> np ''soct,vco-max'';
             p0 \<leftarrow> np ''soct,pfd-min'';
             p1 \<leftarrow> np ''soct,pfd-max'';
             Some (\<lparr>input_hz = i, vco_min_hz = v0, vco_max_hz = v1, pfd_min_hz = p0, pfd_max_hz = p1\<rparr>, mx) } of
             None \<Rightarrow> s
           | Some (l, mx) \<Rightarrow> s\<lparr>dp_lim := l, dp_max_hz := mx, dp_retunable := mapped \<or> dp_retunable s\<rparr>))"

section \<open>The scanout\<close>

text \<open>
  The status reads of \<open>read_poll_timeout\<close> before its time is over; \<open>False\<close> is the error.
\<close>

definition lx_vdma_halt :: "u32 list \<Rightarrow> dp_state \<Rightarrow> bool \<times> dp_state" where
  "lx_vdma_halt reads s = (poll (\<lambda>sr. sr AND 4 = 0) reads \<noteq> None, dp_emit [Vdma_write 0 4] s)"

definition frame_store :: "dp_state \<Rightarrow> u64 \<Rightarrow> u32 \<Rightarrow> u32 \<Rightarrow> nat \<Rightarrow> u64" where
  "frame_store s fb w h i =
     (let frame = ucast w * 3 * ucast h in if i = 1 \<and> 2 * frame \<le> dp_fb_size s then fb + frame else fb)"

definition lx_vdma_start :: "u32 list \<Rightarrow> u32 \<Rightarrow> u32 \<Rightarrow> u64 \<Rightarrow> u32 \<Rightarrow> u32 \<Rightarrow> dp_state \<Rightarrow> bool \<times> dp_state" where
  "lx_vdma_start reads dmacr dmasr fb w h s =
     (case lx_vdma_halt reads s of
        (ok, s) \<Rightarrow>
          if \<not> ok then (False, s)
          else
            let s = dp_emit
              ([Vdma_write 0 ((dmacr OR 1) AND NOT 2), Vdma_write 0x28 0] @
               map (\<lambda>i. Vdma_write (0x5C + 4 * of_nat i) (ucast (frame_store s fb w h i))) [0..<3] @
               [Vdma_write 0x54 (w * 3), Vdma_write 0x58 (w * 3), Vdma_write 0x50 h]) s
            in (dmasr AND 1 = 0, s))"

definition soct_dp_set_scanout_frame :: "u32 \<Rightarrow> dp_state \<Rightarrow> dp_state" where
  "soct_dp_set_scanout_frame frame s = dp_emit [Vdma_write 0x28 (frame AND 0x1F)] s"

definition vtc_writes :: "soct_dp_mode \<Rightarrow> (u32 \<times> u32) list" where
  "vtc_writes m =
     (let hss = hactive m + hfront_porch m; hbs = hss + hsync_len m;
          vss = vactive m + vfront_porch m; vbs = vss + vsync_len m;
          pair = (\<lambda>lo hi. lo OR push_bit 16 hi)
      in [(0x070, mode_htotal m), (0x074, pair (mode_vtotal m) (mode_vtotal m)), (0x060, pair (hactive m) (vactive m)),
         (0x094, push_bit 16 (vactive m)), (0x078, pair hss hbs), (0x080, pair vss vbs), (0x08C, pair vss vbs), (0x068, 0),
         (0x07C, pair (hactive m) (hactive m)), (0x084, pair hss hss), (0x088, pair (hactive m) (hactive m)),
         (0x090, pair hss hss),
         (0x06C, 0x73 OR (if hsync_active m \<noteq> 0 then 8 else 0) OR (if vsync_active m \<noteq> 0 then 4 else 0)),
         (0x000, 0x03FDEF00 OR 2 OR 4 OR 1)])"

definition lx_vtc_start :: "soct_dp_mode \<Rightarrow> dp_state \<Rightarrow> dp_state" where
  "lx_vtc_start m s = dp_emit (map (\<lambda>(r, v). Vtc_write r v) (vtc_writes m)) s"

definition pixclk_retune :: "u32 list \<Rightarrow> u32 list \<Rightarrow> soct_clk_wzrd_setting \<Rightarrow> dp_state \<Rightarrow> wzrd_result \<times> dp_state" where
  "pixclk_retune before after st s =
     (case soct_clk_wzrd_retune before after st of
        (r, ws) \<Rightarrow> (r, dp_emit (map (\<lambda>(a, v). Clk_write a v) ws @ (if r = Wzrd_OK then [Relocked st] else [])) s))"

section \<open>Switching modes\<close>

definition abs_diff :: "u32 \<Rightarrow> u32 \<Rightarrow> u32" where
  "abs_diff a b = (if a > b then a - b else b - a)"

definition empty_setting :: soct_clk_wzrd_setting where
  "empty_setting = \<lparr>div_int = 0, mult_eighths = 0, odiv_eighths = 0, achieved_hz = 0\<rparr>"

text \<open>The result and the mode with the clock rewritten.\<close>

definition soct_dp_validate_mode :: "dp_state \<Rightarrow> soct_dp_mode \<Rightarrow> dp_result \<times> soct_dp_mode" where
  "soct_dp_validate_mode s m =
     (if hactive m = 0 \<or> vactive m = 0 \<or> fps m = 0 \<or> pixel_clock_hz m = 0 then (Dp_EINVAL, m)
      else if \<not> dp_retunable s then
        if ucast (abs_diff (pixel_clock_hz m) (pixel_clock_hz (dp_cur s))) * 200 > (ucast (pixel_clock_hz (dp_cur s)) :: u64) \<or>
           m\<lparr>pixel_clock_hz := pixel_clock_hz (dp_cur s)\<rparr> \<noteq> dp_cur s
        then (Dp_EOPNOTSUPP, m)
        else (Dp_OK, m\<lparr>pixel_clock_hz := pixel_clock_hz (dp_cur s)\<rparr>)
      else if pixel_clock_hz m > dp_max_hz s + dp_max_hz s div 200 then (Dp_clock EDOM, m)
      else
        let m = (if pixel_clock_hz m > dp_max_hz s then m\<lparr>pixel_clock_hz := dp_max_hz s\<rparr> else m)
        in case soct_clk_wzrd_solve (dp_lim s) (pixel_clock_hz m) empty_setting of
             (r, st) \<Rightarrow>
               if r \<noteq> Wzrd_OK then (Dp_clock r, m)
               else if achieved_hz st > dp_max_hz s then (Dp_clock EDOM, m)
               else (Dp_OK, m\<lparr>pixel_clock_hz := achieved_hz st\<rparr>))"

text \<open>What the polled registers read during a switch.\<close>

record switch_env =
  se_halt :: "u32 list"
  se_before :: "u32 list"
  se_after :: "u32 list"
  se_restart :: "u32 list"
  se_dmacr :: u32
  se_dmasr :: u32

definition dp_halted :: "dp_result \<Rightarrow> dp_state \<Rightarrow> dp_result \<times> dp_state" where
  "dp_halted e s = (e, s\<lparr>dp_cur := no_mode\<rparr>)"

text \<open>From the halt on, with the setting to retune to if there is one.\<close>

definition run_switch :: "switch_env \<Rightarrow> soct_clk_wzrd_setting option \<Rightarrow> soct_dp_mode \<Rightarrow> dp_state \<Rightarrow> dp_result \<times> dp_state" where
  "run_switch E ost want s =
     (case lx_vdma_halt (se_halt E) s of
        (ok, s) \<Rightarrow>
          if \<not> ok then dp_halted Dp_EIO s
          else
            case (case ost of None \<Rightarrow> (Wzrd_OK, s) | Some st \<Rightarrow> pixclk_retune (se_before E) (se_after E) st s) of
              (r, s) \<Rightarrow>
                if r \<noteq> Wzrd_OK then dp_halted (Dp_clock r) s
                else
                  case lx_vdma_start (se_restart E) (se_dmacr E) (se_dmasr E) (dp_fb s) (hactive want) (vactive want) s of
                    (ok, s) \<Rightarrow>
                      if \<not> ok then dp_halted Dp_EIO s
                      else (Dp_OK, (dp_emit [Dp_stream want] (lx_vtc_start want s))\<lparr>dp_cur := want\<rparr>))"

definition soct_dp_switch_mode :: "switch_env \<Rightarrow> soct_dp_mode \<Rightarrow> dp_state \<Rightarrow> dp_result \<times> dp_state" where
  "soct_dp_switch_mode E m s =
     (case soct_dp_validate_mode s m of
        (e, want) \<Rightarrow>
          if e \<noteq> Dp_OK then (e, s)
          else if want = dp_cur s then (Dp_OK, s)
          else if pixel_clock_hz want \<noteq> pixel_clock_hz (dp_cur s)
          then (case soct_clk_wzrd_solve (dp_lim s) (pixel_clock_hz want) empty_setting of
                  (r, st) \<Rightarrow> if r \<noteq> Wzrd_OK then (Dp_clock r, s) else run_switch E (Some st) want s)
          else run_switch E None want s)"

section \<open>Specification\<close>

text \<open>
  What the hardware does after a log: whether the frame fetch runs and with which geometry, the timing
  registers, the stream attributes, and the pixel clock when the clocking wizard has locked on one.
\<close>

record scan_hw =
  hw_running :: bool
  hw_hsize :: u32
  hw_vsize :: u32
  hw_vtc :: "u32 \<Rightarrow> u32"
  hw_stream :: "soct_dp_mode option"
  hw_clock :: "u32 option"

fun hw_step :: "dp_event \<Rightarrow> scan_hw \<Rightarrow> scan_hw" where
  "hw_step (Vdma_write r v) h =
     (if r = 0 then (if v AND 4 \<noteq> 0 then h\<lparr>hw_running := False\<rparr> else h)
      else if r = 0x54 then h\<lparr>hw_hsize := v\<rparr>
      else if r = 0x50 then h\<lparr>hw_vsize := v, hw_running := True\<rparr> else h)"
| "hw_step (Vtc_write r v) h = h\<lparr>hw_vtc := (hw_vtc h)(r := v)\<rparr>"
| "hw_step (Clk_write r v) h = (if r = WZRD_APPLY then h\<lparr>hw_clock := None\<rparr> else h)"
| "hw_step (Relocked st) h = h\<lparr>hw_clock := Some (achieved_hz st)\<rparr>"
| "hw_step (Dp_stream m) h = h\<lparr>hw_stream := Some m\<rparr>"

text \<open>
  The timing the registers of the generator ask for, read as the fields they have: totals, active area,
  start and end of the sync pulses, their polarity, a progressive picture and the generator enabled.
  The fields have 16 bits.
\<close>

definition fields_fit :: "soct_dp_mode \<Rightarrow> bool" where
  "fields_fit m \<longleftrightarrow> unat (hactive m) + unat (hfront_porch m) + unat (hsync_len m) + unat (hback_porch m) < 2 ^ 16 \<and>
     unat (vactive m) + unat (vfront_porch m) + unat (vsync_len m) + unat (vback_porch m) < 2 ^ 16"

definition low_field :: "u32 \<Rightarrow> nat" where
  "low_field v = unat v mod 2 ^ 16"

definition high_field :: "u32 \<Rightarrow> nat" where
  "high_field v = unat v div 2 ^ 16"

definition generates :: "soct_dp_mode \<Rightarrow> (u32 \<Rightarrow> u32) \<Rightarrow> bool" where
  "generates m f \<longleftrightarrow>
     low_field (f 0x70) = unat (hactive m) + unat (hfront_porch m) + unat (hsync_len m) + unat (hback_porch m) \<and>
     low_field (f 0x74) = unat (vactive m) + unat (vfront_porch m) + unat (vsync_len m) + unat (vback_porch m) \<and>
     low_field (f 0x60) = unat (hactive m) \<and> high_field (f 0x60) = unat (vactive m) \<and>
     low_field (f 0x78) = unat (hactive m) + unat (hfront_porch m) \<and>
     high_field (f 0x78) = unat (hactive m) + unat (hfront_porch m) + unat (hsync_len m) \<and>
     low_field (f 0x80) = unat (vactive m) + unat (vfront_porch m) \<and>
     high_field (f 0x80) = unat (vactive m) + unat (vfront_porch m) + unat (vsync_len m) \<and>
     (bit (f 0x6C) 3 \<longleftrightarrow> hsync_active m \<noteq> 0) \<and> (bit (f 0x6C) 2 \<longleftrightarrow> vsync_active m \<noteq> 0) \<and> f 0x68 = 0 \<and> bit (f 0) 2"

definition shows_mode :: "soct_dp_mode \<Rightarrow> scan_hw \<Rightarrow> bool" where
  "shows_mode m h \<longleftrightarrow> hw_running h \<and> hw_hsize h = hactive m * 3 \<and> hw_vsize h = vactive m \<and>
     (\<forall>(r, v)\<in>set (vtc_writes m). hw_vtc h r = v) \<and> (fields_fit m \<longrightarrow> generates m (hw_vtc h)) \<and>
     hw_stream h = Some m \<and> hw_clock h = Some (pixel_clock_hz m)"

text \<open>The cached mode is either none or the one on the screen.\<close>

definition cur_honest :: "scan_hw \<Rightarrow> dp_state \<Rightarrow> bool" where
  "cur_honest h0 s \<longleftrightarrow> dp_cur s = no_mode \<or> shows_mode (dp_cur s) (fold hw_step (dp_log s) h0)"

text \<open>
  An input clock above the product of the largest dividers (108.5 kHz; designs have tens of MHz), and
  a ceiling below 2 GHz.
\<close>

definition budget_ok :: "dp_state \<Rightarrow> bool" where
  "budget_ok s \<longleftrightarrow> (dp_retunable s \<longrightarrow> 106 * 1024 \<le> unat (input_hz (dp_lim s)) \<and> unat (dp_max_hz s) < 2 ^ 31)"

definition mode_1080p :: soct_dp_mode where
  "mode_1080p = \<lparr>hactive = 1920, hfront_porch = 88, hsync_len = 44, hback_porch = 148, vactive = 1080, vfront_porch = 4,
     vsync_len = 5, vback_porch = 36, hsync_active = 1, vsync_active = 1, fps = 60, pixel_clock_hz = 148500000\<rparr>"

definition demo_dp :: dp_state where
  "demo_dp = \<lparr>dp_cur = no_mode, dp_retunable = True, dp_lim = pixel_lim, dp_max_hz = 148500000, dp_fb = 0x80000000,
     dp_fb_size = 0x1000000, dp_log = []\<rparr>"

definition demo_switch :: switch_env where
  "demo_switch = \<lparr>se_halt = [0], se_before = [1], se_after = [1], se_restart = [0], se_dmacr = 2, se_dmasr = 0\<rparr>"

section \<open>Lemmas\<close>

text \<open>Solving for a frequency a setting achieves finds a setting that achieves it exactly.\<close>

lemma freq_visited:
  assumes "legal lim d m u" and "106 * 1024 \<le> unat (input_hz lim)"
  shows "visited lim (freq lim d m u) d m u"
proof -
  let ?i = "unat (input_hz lim)" and ?f = "freq lim d m u"
  have du: "0 < d * u" "d * u \<le> 106 * 1024"
    using assms(1) mult_le_mono [of d 106 u 1024] by (simp_all add: legal_def)
  have lo: "?f * (d * u) \<le> ?i * m" by (simp add: freq_def)
  have "?i * m mod (d * u) < d * u" using du(1) by simp
  then have hi: "?i * m < ?f * (d * u) + ?i"
    using div_mult_mod_eq [of "?i * m" "d * u"] du(2) assms(2) by (simp add: freq_def)
  have b: "bracket lim ?f d u = ?f * (d * u) div ?i" by (simp add: bracket_def mult.assoc)
  have "bracket lim ?f d u \<le> m"
    unfolding b using lo div_le_mono [OF lo, of ?i] assms(2) by simp
  moreover have "m \<le> Suc (bracket lim ?f d u)"
  proof -
    have "m = ?i * m div ?i" using assms(2) by simp
    also have "\<dots> \<le> (?f * (d * u) + ?i) div ?i" using hi by (intro div_le_mono) simp
    also have "\<dots> = Suc (bracket lim ?f d u)" unfolding b using assms(2) by (subst div_add_self2) auto
    finally show ?thesis .
  qed
  ultimately show ?thesis using assms(1) by (auto simp: visited_def)
qed

lemma solve_again:
  assumes "soct_clk_wzrd_solve lim t out = (Wzrd_OK, st)" and "106 * 1024 \<le> unat (input_hz lim)" and "unat t < 2 ^ 31"
  shows "achieved_hz st \<noteq> 0 \<and>
    (\<exists>st'. soct_clk_wzrd_solve lim (achieved_hz st) out' = (Wzrd_OK, st') \<and> achieved_hz st' = achieved_hz st)"
proof -
  have i: "input_hz lim \<noteq> 0" using assms(2) by auto
  have t: "t \<noteq> 0" using assms(1) by (auto simp: soct_clk_wzrd_solve_def)
  obtain d m u where v: "visited lim (unat t) d m u" and st: "st = snd (found lim (unat t) d m u)"
    and near: "distance (freq lim d m u) (unat t) * 200 \<le> unat t"
    using i t assms(1) by (cases rule: solve_cases) auto
  let ?f = "freq lim d m u"
  have f: "0 < ?f" "?f < 2 ^ 32"
    using near assms(3) t unat_gt_0 [of t] by (auto simp: distance_def split: if_splits)
  have a: "achieved_hz st = of_nat ?f" "unat (achieved_hz st) = ?f"
    using f(2) by (simp_all add: st found_def unat_of_nat_small)
  have nz: "achieved_hz st \<noteq> 0" using a(2) f(1) by auto
  have v': "visited lim (unat (achieved_hz st)) d m u"
    using freq_visited [OF _ assms(2), of d m u] v by (simp add: a(2) visited_def)
  obtain r st' where s': "soct_clk_wzrd_solve lim (achieved_hz st) out' = (r, st')" by fastforce
  from i nz s' have "r = Wzrd_OK \<and> achieved_hz st' = achieved_hz st"
  proof (cases rule: solve_cases)
    case (OK d' m' u')
    have "distance (freq lim d' m' u') ?f \<le> 0" using OK(5) [OF v'] by (simp add: a(2) distance_def)
    then have "freq lim d' m' u' = ?f" by (simp add: distance_def split: if_splits)
    with OK show ?thesis by (simp add: a(1) found_def)
  next
    case EDOM
    with v' show ?thesis by (fastforce simp: a(2) distance_def)
  qed
  with s' nz show ?thesis by simp
qed

lemma validate_OK:
  assumes "soct_dp_validate_mode s m = (Dp_OK, w)" and "budget_ok s"
  shows "pixel_clock_hz w \<noteq> 0" and "w = m\<lparr>pixel_clock_hz := pixel_clock_hz w\<rparr>"
    and "soct_dp_validate_mode s w = (Dp_OK, w)" and "\<not> dp_retunable s \<Longrightarrow> w = dp_cur s"
    and "dp_retunable s \<Longrightarrow> \<exists>st. soct_clk_wzrd_solve (dp_lim s) (pixel_clock_hz w) empty_setting = (Wzrd_OK, st) \<and>
           achieved_hz st = pixel_clock_hz w"
proof -
  have m: "hactive m \<noteq> 0" "vactive m \<noteq> 0" "fps m \<noteq> 0" "pixel_clock_hz m \<noteq> 0"
    using assms(1) by (auto simp: soct_dp_validate_mode_def split: if_splits)
  have "pixel_clock_hz w \<noteq> 0 \<and> w = m\<lparr>pixel_clock_hz := pixel_clock_hz w\<rparr> \<and>
    soct_dp_validate_mode s w = (Dp_OK, w) \<and> (\<not> dp_retunable s \<longrightarrow> w = dp_cur s) \<and>
    (dp_retunable s \<longrightarrow> (\<exists>st. soct_clk_wzrd_solve (dp_lim s) (pixel_clock_hz w) empty_setting = (Wzrd_OK, st) \<and>
       achieved_hz st = pixel_clock_hz w))"
  proof (cases "dp_retunable s")
    case False
    then have w: "w = m\<lparr>pixel_clock_hz := pixel_clock_hz (dp_cur s)\<rparr>" "w = dp_cur s"
      and near: "\<not> ucast (abs_diff (pixel_clock_hz m) (pixel_clock_hz (dp_cur s))) * 200 > (ucast (pixel_clock_hz (dp_cur s)) :: u64)"
      using assms(1) m by (auto simp: soct_dp_validate_mode_def split: if_splits)
    have c: "pixel_clock_hz w \<noteq> 0"
    proof
      assume 0: "pixel_clock_hz w = 0"
      then have "\<not> 0 < (ucast (pixel_clock_hz m) * 200 :: u64)"
        using near w(2) m(4) by (simp add: abs_diff_def word_neq_0_conv split: if_splits)
      moreover have "unat (ucast (pixel_clock_hz m) * 200 :: u64) = unat (pixel_clock_hz m) * 200"
        using unsigned_less [of "pixel_clock_hz m", where 'a = nat]
        by (simp add: unat_word_ariths unat_ucast_up)
      ultimately have "unat (pixel_clock_hz m) = 0" by (simp add: word_less_nat_alt)
      with m(4) show False by (simp add: unat_eq_zero)
    qed
    have "soct_dp_validate_mode s w = (Dp_OK, w)"
    proof -
      have "hactive (dp_cur s) = hactive m" "vactive (dp_cur s) = vactive m" "fps (dp_cur s) = fps m"
        using arg_cong [OF w(1), of hactive] arg_cong [OF w(1), of vactive] arg_cong [OF w(1), of fps] w(2) by simp_all
      then show ?thesis using False m c w(2) by (simp add: soct_dp_validate_mode_def abs_diff_def)
    qed
    with c w False show ?thesis by simp
  next
    case True
    note lim = assms(2) [unfolded budget_ok_def, rule_format, OF True]
    define t where "t = (if pixel_clock_hz m > dp_max_hz s then dp_max_hz s else pixel_clock_hz m)"
    obtain st where st: "soct_clk_wzrd_solve (dp_lim s) t empty_setting = (Wzrd_OK, st)"
      "\<not> achieved_hz st > dp_max_hz s" "w = m\<lparr>pixel_clock_hz := achieved_hz st\<rparr>"
      using assms(1) m True by (auto simp: soct_dp_validate_mode_def Let_def t_def split: if_splits prod.splits)
    have "unat t < 2 ^ 31" using lim by (auto simp: t_def word_less_nat_alt)
    from solve_again [OF st(1) conjunct1 [OF lim] this, of empty_setting] obtain st' where
      again: "achieved_hz st \<noteq> 0" "soct_clk_wzrd_solve (dp_lim s) (achieved_hz st) empty_setting = (Wzrd_OK, st')"
        "achieved_hz st' = achieved_hz st" by blast
    have "\<not> achieved_hz st > dp_max_hz s + dp_max_hz s div 200"
    proof -
      have "dp_max_hz s \<le> dp_max_hz s + dp_max_hz s div 200"
      proof -
        have "unat (dp_max_hz s div 200) \<le> unat (dp_max_hz s)" by (simp add: unat_div)
        then show ?thesis using lim by (subst word_le_add_iff) simp
      qed
      then show ?thesis using st(2) by simp
    qed
    then have "soct_dp_validate_mode s w = (Dp_OK, w)"
      using True m again st(2) by (simp add: soct_dp_validate_mode_def st(3) Let_def)
    with True again st(3) show ?thesis by auto
  qed
  then show "pixel_clock_hz w \<noteq> 0" "w = m\<lparr>pixel_clock_hz := pixel_clock_hz w\<rparr>"
    "soct_dp_validate_mode s w = (Dp_OK, w)" "\<not> dp_retunable s \<Longrightarrow> w = dp_cur s"
    "dp_retunable s \<Longrightarrow> \<exists>st. soct_clk_wzrd_solve (dp_lim s) (pixel_clock_hz w) empty_setting = (Wzrd_OK, st) \<and>
           achieved_hz st = pixel_clock_hz w"
    by blast+
qed

lemma dp_emit_simps [simp]:
  "dp_log (dp_emit es s) = dp_log s @ es" "dp_cur (dp_emit es s) = dp_cur s" "dp_retunable (dp_emit es s) = dp_retunable s"
  "dp_lim (dp_emit es s) = dp_lim s" "dp_max_hz (dp_emit es s) = dp_max_hz s" "dp_fb (dp_emit es s) = dp_fb s"
  "dp_fb_size (dp_emit es s) = dp_fb_size s"
  by (simp_all add: dp_emit_def)

text \<open>The timing registers after \<open>lx_vtc_start\<close>, all different, and what the other steps leave alone.\<close>

lemma fold_vtc:
  "fold hw_step (map (\<lambda>(r, v). Vtc_write r v) ws) h = h\<lparr>hw_vtc := fold (\<lambda>(r, v) f. f(r := v)) ws (hw_vtc h)\<rparr>"
  by (induction ws arbitrary: h) auto

lemma fold_upd_distinct:
  "distinct (map fst ws) \<Longrightarrow> (r, v) \<in> set ws \<Longrightarrow> fold (\<lambda>(r, v) f. f(r := v)) ws f r = v"
proof (induction ws arbitrary: f)
  case (Cons w ws)
  have keep: "r \<notin> fst ` set ws \<Longrightarrow> fold (\<lambda>(r, v) f. f(r := v)) ws g r = g r" for g :: "'a \<Rightarrow> 'b"
    by (induction ws arbitrary: g) auto
  show ?case
  proof (cases "(r, v) = w")
    case True
    then have "r \<notin> fst ` set ws" using Cons.prems(1) by (cases w) simp
    then have "fold (\<lambda>(r, v) f. f(r := v)) ws (f(r := v)) r = v" using keep [of "f(r := v)"] by simp
    with True show ?thesis by (auto simp del: fun_upd_apply)
  next
    case False
    then have "(r, v) \<in> set ws" using Cons.prems(2) by auto
    then show ?thesis
      using Cons.IH [of "f(fst w := snd w)"] Cons.prems(1) by (cases w) (simp del: fun_upd_apply)
  qed
qed simp

lemma vtc_writes_distinct: "distinct (map fst (vtc_writes m))"
  by (simp add: vtc_writes_def Let_def)

lemma pair_fields:
  assumes "unat lo < 2 ^ 16" "unat hi < 2 ^ 16"
  shows "low_field (lo OR push_bit 16 hi) = unat lo" "high_field (lo OR push_bit 16 hi) = unat hi"
proof -
  have z: "\<not> bit lo n" if "16 \<le> n" for n
  proof -
    have "lo = take_bit 16 lo" using assms(1) by (simp add: word_unat_eq_iff take_bit_eq_mod unat_mod)
    then have "bit lo n = bit (take_bit 16 lo) n" by simp
    then show ?thesis using that by (simp add: bit_take_bit_iff)
  qed
  have "lo AND push_bit 16 hi = 0" using z by (auto intro!: bit_word_eqI simp: bit_simps)
  then have "lo OR push_bit 16 hi = lo + push_bit 16 hi" by (rule disjunctive_add_eq_or [symmetric])
  moreover have "unat (push_bit 16 hi) = unat hi * 2 ^ 16"
    unfolding unsigned_push_bit_eq using assms(2) by (simp add: push_bit_eq_mult take_bit_eq_mod)
  ultimately have "unat (lo OR push_bit 16 hi) = unat lo + unat hi * 2 ^ 16" using assms by (simp add: unat_word_ariths)
  then show "low_field (lo OR push_bit 16 hi) = unat lo" "high_field (lo OR push_bit 16 hi) = unat hi"
    using assms by (simp_all add: low_field_def high_field_def)
qed

text \<open>The values written are the timing of the mode.\<close>

lemma vtc_generates:
  assumes w: "\<forall>(r, v)\<in>set (vtc_writes m). f r = v" and fit: "fields_fit m"
  shows "generates m f"
proof -
  let ?hs = "hactive m + hfront_porch m" and ?vs = "vactive m + vfront_porch m"
  have h: "unat (hactive m) + unat (hfront_porch m) + unat (hsync_len m) + unat (hback_porch m) < 2 ^ 16"
    and v: "unat (vactive m) + unat (vfront_porch m) + unat (vsync_len m) + unat (vback_porch m) < 2 ^ 16"
    using fit by (simp_all add: fields_fit_def)
  have u: "unat ?hs = unat (hactive m) + unat (hfront_porch m)"
      "unat (?hs + hsync_len m) = unat (hactive m) + unat (hfront_porch m) + unat (hsync_len m)"
      "unat (mode_htotal m) = unat (hactive m) + unat (hfront_porch m) + unat (hsync_len m) + unat (hback_porch m)"
      "unat ?vs = unat (vactive m) + unat (vfront_porch m)"
      "unat (?vs + vsync_len m) = unat (vactive m) + unat (vfront_porch m) + unat (vsync_len m)"
      "unat (mode_vtotal m) = unat (vactive m) + unat (vfront_porch m) + unat (vsync_len m) + unat (vback_porch m)"
    using h v by (simp_all add: mode_htotal_def mode_vtotal_def unat_word_ariths)
  have f: "f 0x70 = mode_htotal m" "f 0x74 = mode_vtotal m OR push_bit 16 (mode_vtotal m)" "f 0x60 = hactive m OR push_bit 16 (vactive m)"
      "f 0x78 = ?hs OR push_bit 16 (?hs + hsync_len m)" "f 0x80 = ?vs OR push_bit 16 (?vs + vsync_len m)" "f 0x68 = 0"
      "f 0x6C = 0x73 OR (if hsync_active m \<noteq> 0 then 8 else 0) OR (if vsync_active m \<noteq> 0 then 4 else 0)"
      "f 0 = 0x03FDEF00 OR 2 OR 4 OR 1"
    using w by (simp_all add: vtc_writes_def Let_def)
  have "low_field (f 0x70) = unat (mode_htotal m)" using u(3) h by (simp add: f(1) low_field_def)
  moreover have "low_field (f 0x74) = unat (mode_vtotal m)" using u(6) v unfolding f by (intro pair_fields) simp_all
  moreover have "low_field (f 0x60) = unat (hactive m)" "high_field (f 0x60) = unat (vactive m)"
    using h v unfolding f by (intro pair_fields; simp)+
  moreover have "low_field (f 0x78) = unat ?hs" "high_field (f 0x78) = unat (?hs + hsync_len m)"
    using h u unfolding f by (intro pair_fields; simp)+
  moreover have "low_field (f 0x80) = unat ?vs" "high_field (f 0x80) = unat (?vs + vsync_len m)"
    using v u unfolding f by (intro pair_fields; simp)+
  moreover have "bit (f 0x6C) 3 \<longleftrightarrow> hsync_active m \<noteq> 0" "bit (f 0x6C) 2 \<longleftrightarrow> vsync_active m \<noteq> 0" "f 0x68 = 0" "bit (f 0) 2"
    unfolding f by (simp_all add: bit_simps)
  ultimately show ?thesis unfolding generates_def u by blast
qed

lemma clk_retune_log:
  assumes "pixclk_retune before after st s = (Wzrd_OK, s')"
  shows "\<exists>es. s' = dp_emit es s \<and> hw_clock (fold hw_step es h) = Some (achieved_hz st)"
proof -
  obtain ws where ws: "soct_clk_wzrd_retune before after st = (Wzrd_OK, ws)" "s' = dp_emit (map (\<lambda>(a, v). Clk_write a v) ws @ [Relocked st]) s"
    using assms by (auto simp: pixclk_retune_def split: prod.splits)
  then show ?thesis by (intro exI conjI) auto
qed

lemma clk_retune_keeps:
  "pixclk_retune before after st s = (r, s') \<Longrightarrow> \<exists>es. s' = dp_emit es s"
  by (auto simp: pixclk_retune_def split: prod.splits)

lemma switch_shows:
  assumes "lx_vdma_start reads dmacr dmasr fb (hactive w) (vactive w) s = (True, s1)"
    and "hw_clock (fold hw_step (dp_log s) h0) = Some (pixel_clock_hz w)"
  shows "shows_mode w (fold hw_step (dp_log (dp_emit [Dp_stream w] (lx_vtc_start w s1))) h0)"
proof -
  let ?h = "fold hw_step (dp_log s) h0"
  have l: "dp_log s1 = dp_log s @ [Vdma_write 0 4, Vdma_write 0 ((dmacr OR 1) AND NOT 2), Vdma_write 0x28 0] @
      map (\<lambda>i. Vdma_write (0x5C + 4 * of_nat i) (ucast (frame_store s fb (hactive w) (vactive w) i))) [0..<3] @
      [Vdma_write 0x54 (hactive w * 3), Vdma_write 0x58 (hactive w * 3), Vdma_write 0x50 (vactive w)]"
    using assms(1) by (auto simp: lx_vdma_start_def lx_vdma_halt_def Let_def frame_store_def upt_rec split: if_splits)
  let ?h1 = "fold hw_step (dp_log s1) h0"
  have "hw_running ?h1" "hw_hsize ?h1 = hactive w * 3" "hw_vsize ?h1 = vactive w" "hw_clock ?h1 = hw_clock ?h"
    by (simp_all add: l upt_rec)
  moreover have "\<forall>(r, v)\<in>set (vtc_writes w). fold (\<lambda>(r, v) f. f(r := v)) (vtc_writes w) (hw_vtc ?h1) r = v"
    using fold_upd_distinct [OF vtc_writes_distinct, of _ _ w "hw_vtc ?h1"] by auto
  ultimately show ?thesis
    using assms(2) vtc_generates [of w] by (auto simp: shows_mode_def lx_vtc_start_def fold_vtc)
qed

lemma run_switch_cases:
  assumes "run_switch E ost w s = (r, s')"
    and "ost = None \<Longrightarrow> hw_clock (fold hw_step (dp_log s) h0) = Some (pixel_clock_hz w)"
    and "\<And>st. ost = Some st \<Longrightarrow> achieved_hz st = pixel_clock_hz w"
  shows "(r = Dp_OK \<and> dp_cur s' = w \<and> shows_mode w (fold hw_step (dp_log s') h0)) \<or> (r \<noteq> Dp_OK \<and> dp_cur s' = no_mode)"
proof -
  let ?s = "dp_emit [Vdma_write 0 4] s"
  show ?thesis
  proof (cases "poll (\<lambda>sr. sr AND 4 = 0) (se_halt E) = None")
    case True
    then show ?thesis using assms(1) by (auto simp: run_switch_def lx_vdma_halt_def dp_halted_def)
  next
    case False
    obtain q s1 where q: "(case ost of None \<Rightarrow> (Wzrd_OK, ?s) | Some st \<Rightarrow> pixclk_retune (se_before E) (se_after E) st ?s) = (q, s1)"
      by fastforce
    obtain ok s2 where v: "lx_vdma_start (se_restart E) (se_dmacr E) (se_dmasr E) (dp_fb s1) (hactive w) (vactive w) s1 = (ok, s2)"
      by fastforce
    have c: "hw_clock (fold hw_step (dp_log s1) h0) = Some (pixel_clock_hz w)" if qok: "q = Wzrd_OK"
    proof (cases ost)
      case None
      then have "s1 = ?s" using q by simp
      then show ?thesis using assms(2) [OF None] by simp
    next
      case (Some st)
      then obtain es where "s1 = dp_emit es ?s" "hw_clock (fold hw_step es (fold hw_step (dp_log ?s) h0)) = Some (achieved_hz st)"
        using clk_retune_log [of "se_before E" "se_after E" st ?s s1 "fold hw_step (dp_log ?s) h0"] q qok by auto
      then show ?thesis using assms(3) [OF Some] by simp
    qed
    show ?thesis
    proof (cases "q = Wzrd_OK \<and> ok")
      case True
      then have "r = Dp_OK" "s' = (dp_emit [Dp_stream w] (lx_vtc_start w s2))\<lparr>dp_cur := w\<rparr>"
        using assms(1) False q v by (simp_all add: run_switch_def lx_vdma_halt_def)
      moreover have "shows_mode w (fold hw_step (dp_log (dp_emit [Dp_stream w] (lx_vtc_start w s2))) h0)"
        using v True switch_shows [OF _ c] by (metis (full_types))
      ultimately show ?thesis by simp
    next
      case bad: False
      then show ?thesis
        using assms(1) False q v by (auto simp: run_switch_def lx_vdma_halt_def dp_halted_def split: if_splits)
    qed
  qed
qed

text \<open>What a switch to a mode that passed the check does to the cached mode and the budget.\<close>

lemma vdma_emits:
  "lx_vdma_halt reads s = (ok, s') \<Longrightarrow> \<exists>es. s' = dp_emit es s"
  "lx_vdma_start reads dmacr dmasr fb w h s = (ok, s') \<Longrightarrow> \<exists>es. s' = dp_emit es s"
proof -
  show h: "lx_vdma_halt reads s = (ok, s') \<Longrightarrow> \<exists>es. s' = dp_emit es s" for s ok s' by (auto simp: lx_vdma_halt_def)
  have twice: "dp_emit es (dp_emit fs s) = dp_emit (fs @ es) s" for es fs s by (simp add: dp_emit_def)
  assume a: "lx_vdma_start reads dmacr dmasr fb w h s = (ok, s')"
  obtain ok1 es where "lx_vdma_halt reads s = (ok1, dp_emit es s)" by (simp add: lx_vdma_halt_def)
  then show "\<exists>es. s' = dp_emit es s"
    using a by (cases ok1) (auto simp: lx_vdma_start_def Let_def twice simp del: upt_Suc intro: exI)
qed

definition same_budget :: "dp_state \<Rightarrow> dp_state \<Rightarrow> bool" where
  "same_budget s s' \<longleftrightarrow> dp_retunable s' = dp_retunable s \<and> dp_lim s' = dp_lim s \<and> dp_max_hz s' = dp_max_hz s"

lemma same_budget_emit [simp]: "same_budget s (dp_emit es s') = same_budget s s'"
  by (simp add: same_budget_def)

lemma same_budget_ok: "same_budget s s' \<Longrightarrow> budget_ok s' = budget_ok s"
  by (simp add: same_budget_def budget_ok_def)

lemma run_switch_cur:
  assumes "run_switch E ost w s = (r, s')"
  shows "dp_cur s' = (if r = Dp_OK then w else no_mode) \<and> same_budget s s'"
proof -
  obtain ok1 s1 where h: "lx_vdma_halt (se_halt E) s = (ok1, s1)" by fastforce
  obtain q s2 where q: "(case ost of None \<Rightarrow> (Wzrd_OK, s1) | Some st \<Rightarrow> pixclk_retune (se_before E) (se_after E) st s1) = (q, s2)"
    by fastforce
  obtain ok3 s3 where v: "lx_vdma_start (se_restart E) (se_dmacr E) (se_dmasr E) (dp_fb s2) (hactive w) (vactive w) s2 = (ok3, s3)"
    by fastforce
  have b: "same_budget s s" by (simp add: same_budget_def)
  obtain es where s1: "s1 = dp_emit es s" using vdma_emits(1) [OF h] by blast
  have s2: "\<exists>es. s2 = dp_emit es s1"
    using q clk_retune_keeps by (cases ost) (auto simp: dp_emit_def intro: exI [of _ "[]"])
  obtain fs where s3: "s3 = dp_emit fs s2" using vdma_emits(2) [OF v] by blast
  have bud: "same_budget s s1" "same_budget s s2" "same_budget s s3" using b s1 s2 s3 by auto
  then have cur: "same_budget s (x\<lparr>dp_cur := c\<rparr>) = same_budget s x" for x c by (simp add: same_budget_def)
  show ?thesis
    using assms h q v bud
    by (auto simp: run_switch_def dp_halted_def lx_vtc_start_def cur split: if_splits)
qed

lemma switch_mode_cur:
  assumes "budget_ok s" "soct_dp_validate_mode s w = (Dp_OK, w)" "w \<noteq> dp_cur s" "soct_dp_switch_mode E w s = (r, s')"
  shows "dp_cur s' = (if r = Dp_OK then w else no_mode) \<and> same_budget s s'"
proof -
  note v = validate_OK [OF assms(2,1)]
  have "dp_retunable s" using v(4) assms(3) by blast
  then obtain st where st: "soct_clk_wzrd_solve (dp_lim s) (pixel_clock_hz w) empty_setting = (Wzrd_OK, st)" using v(5) by blast
  have "\<exists>ost. run_switch E ost w s = (r, s')"
    using assms(2,3,4) st by (auto simp: soct_dp_switch_mode_def split: if_splits)
  then show ?thesis using run_switch_cur by blast
qed

section \<open>Properties\<close>

text \<open>
  Validation converges. A mode that passed the check, with the clock the check gave it, passes it
  again unchanged: the divider search finds the frequencies it achieves exactly.
\<close>

theorem validate_mode_idempotent:
  assumes "budget_ok s" and "soct_dp_validate_mode s m = (Dp_OK, w)"
  shows "soct_dp_validate_mode s w = (Dp_OK, w) \<and> w = m\<lparr>pixel_clock_hz := pixel_clock_hz w\<rparr> \<and>
    (dp_retunable s \<longrightarrow> pixel_clock_hz w \<le> dp_max_hz s)"
proof -
  have "pixel_clock_hz w \<le> dp_max_hz s" if "dp_retunable s"
    using assms(2) that by (auto simp: soct_dp_validate_mode_def Let_def split: if_splits prod.splits)
  then show ?thesis using validate_OK(2,3) [OF assms(2,1)] by blast
qed

theorem validate_mode_idempotent_witness:
  "let s = demo_dp\<lparr>dp_retunable := False, dp_cur := mode_1080p\<rparr>; m = mode_1080p\<lparr>pixel_clock_hz := 148499999\<rparr>
   in soct_dp_validate_mode s m = (Dp_OK, mode_1080p) \<and> soct_dp_validate_mode s mode_1080p = (Dp_OK, mode_1080p)"
proof -
  let ?s = "demo_dp\<lparr>dp_retunable := False, dp_cur := mode_1080p\<rparr>"
  have "soct_dp_validate_mode ?s (mode_1080p\<lparr>pixel_clock_hz := 148499999\<rparr>) = (Dp_OK, mode_1080p)"
    by (simp add: soct_dp_validate_mode_def mode_1080p_def abs_diff_def)
  with validate_mode_idempotent [OF _ this] show ?thesis by (simp add: budget_ok_def)
qed

text \<open>
  C23. The cached mode never lies. If the mode the driver has cached is the one on the screen or none
  before a switch, so it is afterwards, on every path. A switch that succeeds leaves the checked mode
  in the cache, on the screen and in the timing registers, whose fields ask for that timing when it fits
  in them, with the pixel clock locked at its frequency; one that fails keeps the old mode untouched or forgets it.
\<close>

theorem switch_mode_honest:
  assumes "budget_ok s" and "cur_honest h0 s" and "soct_dp_switch_mode E m s = (r, s')"
  shows "cur_honest h0 s' \<and>
    (if r = Dp_OK then soct_dp_validate_mode s m = (Dp_OK, dp_cur s') \<and> shows_mode (dp_cur s') (fold hw_step (dp_log s') h0)
     else s' = s \<or> dp_cur s' = no_mode)"
proof -
  obtain e w where v: "soct_dp_validate_mode s m = (e, w)" by fastforce
  show ?thesis
  proof (cases "e = Dp_OK")
    case False
    then show ?thesis using assms(2,3) v by (auto simp: soct_dp_switch_mode_def)
  next
    case True
    note w = validate_OK [OF v [unfolded True] assms(1)]
    have nw: "w \<noteq> no_mode" using w(1) by (auto simp: no_mode_def)
    show ?thesis
    proof (cases "w = dp_cur s")
      case same: True
      then show ?thesis
        using assms(2,3) v True nw by (auto simp: soct_dp_switch_mode_def cur_honest_def)
    next
      case other: False
      then obtain st where st: "soct_clk_wzrd_solve (dp_lim s) (pixel_clock_hz w) empty_setting = (Wzrd_OK, st)"
        "achieved_hz st = pixel_clock_hz w" using w(4,5) by blast
      let ?ost = "if pixel_clock_hz w \<noteq> pixel_clock_hz (dp_cur s) then Some st else None"
      have run: "run_switch E ?ost w s = (r, s')"
        using assms(3) v True other st(1) by (simp add: soct_dp_switch_mode_def split: if_splits)
      have A: "hw_clock (fold hw_step (dp_log s) h0) = Some (pixel_clock_hz w)" if "?ost = None"
        using that assms(2) w(1) by (auto simp: cur_honest_def shows_mode_def no_mode_def split: if_splits)
      have B: "achieved_hz st' = pixel_clock_hz w" if "?ost = Some st'" for st'
        using that st(2) by (auto split: if_splits)
      have "(r = Dp_OK \<and> dp_cur s' = w \<and> shows_mode w (fold hw_step (dp_log s') h0)) \<or>
          (r \<noteq> Dp_OK \<and> dp_cur s' = no_mode)"
        using run A B by (rule run_switch_cases)
      then show ?thesis using v True by (auto simp: cur_honest_def)
    qed
  qed
qed

theorem switch_mode_honest_witness:
  "\<exists>r s'. soct_dp_switch_mode demo_switch mode_1080p demo_dp = (r, s') \<and>
     cur_honest \<lparr>hw_running = False, hw_hsize = 0, hw_vsize = 0, hw_vtc = (\<lambda>_. 0), hw_stream = None, hw_clock = None\<rparr> s'"
proof -
  let ?h = "\<lparr>hw_running = False, hw_hsize = 0, hw_vsize = 0, hw_vtc = (\<lambda>_. 0), hw_stream = None, hw_clock = None\<rparr>"
  obtain r s' where rs: "soct_dp_switch_mode demo_switch mode_1080p demo_dp = (r, s')" by fastforce
  have "budget_ok demo_dp" "cur_honest ?h demo_dp"
    by (simp_all add: budget_ok_def cur_honest_def demo_dp_def pixel_lim_def)
  from switch_mode_honest [OF this rs] rs show ?thesis by blast
qed

end
