(* ===== verification/Linux_Fb.thy ===== *)
theory Linux_Fb
  imports Linux_Dp Addr_Loop
begin

text \<open>
  The framebuffer device of designs whose frame fetch bypasses the caches,
  \<open>linux/drivers/dp/fb.c\<close>. The CPU draws into its caches (\<open>fbs_cpu\<close>), the monitor shows the memory
  behind them (\<open>fbs_dram\<close>), and the driver records what it has drawn and writes those cache lines
  back. Both memories are maps from physical addresses to bytes, so that the mapping of the carve-out
  is the identity. The delayed worker is a queued flag and, while it runs, the job it took; a loop of
  flushes whose end wraps around the address space does not return (\<open>None\<close>).
\<close>

section \<open>Data\<close>

record fb_bitfield =
  bf_offset :: u32
  bf_length :: u32
  bf_msb_right :: u32

record fb_var_screeninfo =
  xres :: u32
  yres :: u32
  xres_virtual :: u32
  yres_virtual :: u32
  xoffset :: u32
  yoffset :: u32
  bits_per_pixel :: u32
  grayscale :: u32
  v_red :: fb_bitfield
  v_green :: fb_bitfield
  v_blue :: fb_bitfield
  v_transp :: fb_bitfield
  nonstd :: u32
  v_activate :: u32
  v_height :: u32
  v_width :: u32
  pixclock :: u32
  left_margin :: u32
  right_margin :: u32
  upper_margin :: u32
  lower_margin :: u32
  v_hsync_len :: u32
  v_vsync_len :: u32
  v_sync :: u32
  v_vmode :: u32

record fb_fillrect =
  fr_dx :: u32
  fr_dy :: u32
  fr_width :: u32
  fr_height :: u32
  fr_color :: u32
  fr_rop :: u32

record fb_image =
  im_dx :: u32
  im_dy :: u32
  im_width :: u32
  im_height :: u32
  im_fg :: u32
  im_bg :: u32
  im_depth :: u8
  im_data :: "u8 list"

record glyph_cache =
  gl_fg :: u32
  gl_bg :: u32
  gl_valid :: bool
  gl_pat :: "u8 list list"

text \<open>\<open>Fb_undefined\<close> stands for a division by zero, which the C source leaves undefined.\<close>

datatype fb_err = Fb_EINVAL | Fb_EFBIG | Fb_ENOSPC | Fb_EFAULT | Fb_ENODEV | Fb_ENOMEM | Fb_core | Fb_dp dp_result | Fb_undefined

record fb_state =
  fbs_info :: bool
  fbs_l2 :: bool
  fbs_virt :: bool
  fbs_phys :: u64
  fbs_carveout :: u64
  fbs_mode :: soct_dp_mode
  fbs_width :: u32
  fbs_height :: u32
  fbs_stride :: u32
  fbs_frames :: u32
  fbs_mmap_ok :: bool
  fbs_defio_size :: u32
  fbs_dirty :: bool
  fbs_x0 :: u32
  fbs_y0 :: u32
  fbs_x1 :: u32
  fbs_y1 :: u32
  fbs_park_req :: bool
  fbs_park_frame :: u32
  fbs_queued :: bool
  fbs_palette :: "u32 list"
  fbs_glyph :: glyph_cache
  fbs_var :: fb_var_screeninfo
  fbs_line_length :: u32
  fbs_smem_len :: u32
  fbs_ypanstep :: u32
  fbs_cpu :: "u64 \<Rightarrow> u8"
  fbs_dram :: "u64 \<Rightarrow> u8"
  fbs_dp :: dp_state

text \<open>Byte stores: \<open>memcpy\<close> and \<open>memset\<close> at an address.\<close>

definition store_bytes :: "u64 \<Rightarrow> u8 list \<Rightarrow> (u64 \<Rightarrow> u8) \<Rightarrow> u64 \<Rightarrow> u8" where
  "store_bytes a bs m = (\<lambda>b. if unat (b - a) < length bs then bs ! unat (b - a) else m b)"

section \<open>Flushing\<close>

definition nframes :: "u64 \<Rightarrow> u32 \<Rightarrow> u32 \<Rightarrow> u32" where
  "nframes carveout stride height = (if 2 * ucast stride * ucast height \<le> carveout then 2 else 1)"

definition flush_line :: "u64 \<Rightarrow> fb_state \<Rightarrow> fb_state" where
  "flush_line a s = s\<lparr>fbs_dram := \<lambda>b. if b AND NOT 63 = a AND NOT 63 then fbs_cpu s b else fbs_dram s b\<rparr>"

definition flush_range :: "u64 \<Rightarrow> u64 \<Rightarrow> fb_state \<Rightarrow> fb_state option" where
  "flush_range start len s = addr_loop 64 (start + len) flush_line (start AND NOT 63) s"

text \<open>What the worker takes under the lock.\<close>

record flush_job =
  fj_dirty :: bool
  fj_x0 :: u32
  fj_y :: u32
  fj_x1 :: u32
  fj_y1 :: u32
  fj_park :: "u32 option"

definition flush_take :: "fb_state \<Rightarrow> flush_job \<times> fb_state" where
  "flush_take s =
     (\<lparr>fj_dirty = fbs_dirty s, fj_x0 = fbs_x0 s, fj_y = fbs_y0 s, fj_x1 = fbs_x1 s, fj_y1 = fbs_y1 s,
       fj_park = (if fbs_park_req s then Some (fbs_park_frame s) else None)\<rparr>,
      s\<lparr>fbs_dirty := False, fbs_park_req := False\<rparr>)"

definition work_row :: "flush_job \<Rightarrow> fb_state \<Rightarrow> fb_state option" where
  "work_row j s =
     flush_range (fbs_phys s + ucast (fj_y j) * ucast (fbs_stride s) + ucast (fj_x0 j * 3))
       (ucast (fj_x1 j - fj_x0 j + 1) * 3) s"

definition park_scanout :: "flush_job \<Rightarrow> fb_state \<Rightarrow> fb_state" where
  "park_scanout j s =
     (case fj_park j of None \<Rightarrow> s | Some f \<Rightarrow> s\<lparr>fbs_dp := soct_dp_set_scanout_frame f (fbs_dp s)\<rparr>)"

text \<open>
  The worker behind the lock, one step at a time: the next row of the damage, and when there is none
  left the flip, if one was asked for, and the end (no job). The delayed worker takes these steps
  interleaved with everything else; the inline flush of a dying kernel takes them all at once.
\<close>

definition flush_work_step :: "flush_job \<Rightarrow> fb_state \<Rightarrow> (flush_job option \<times> fb_state) option" where
  "flush_work_step j s =
     (if fj_dirty j \<and> fj_y j \<le> fj_y1 j then map_option (\<lambda>s. (Some (j\<lparr>fj_y := fj_y j + 1\<rparr>), s)) (work_row j s)
      else Some (None, park_scanout j s))"

partial_function (option) flush_work_run :: "flush_job \<Rightarrow> fb_state \<Rightarrow> fb_state option" where
  "flush_work_run j s =
     Option.bind (flush_work_step j s) (\<lambda>(oj, s). case oj of None \<Rightarrow> Some s | Some j \<Rightarrow> flush_work_run j s)"

declare flush_work_run.simps [code]

definition soct_dp_fb_flush_work :: "fb_state \<Rightarrow> fb_state option" where
  "soct_dp_fb_flush_work s = (case flush_take s of (j, s) \<Rightarrow> flush_work_run j s)"

section \<open>Damage\<close>

definition record_damage :: "u32 \<Rightarrow> u32 \<Rightarrow> u32 \<Rightarrow> u32 \<Rightarrow> fb_state \<Rightarrow> fb_state" where
  "record_damage x y x1 y1 s =
     (if fbs_dirty s
      then s\<lparr>fbs_x0 := min (fbs_x0 s) x, fbs_y0 := min (fbs_y0 s) y,
             fbs_x1 := max (fbs_x1 s) x1, fbs_y1 := max (fbs_y1 s) y1\<rparr>
      else s\<lparr>fbs_x0 := x, fbs_y0 := y, fbs_x1 := x1, fbs_y1 := y1, fbs_dirty := True\<rparr>)"

text \<open>The flag is \<open>oops_in_progress\<close>.\<close>

definition soct_dp_fb_damage_area :: "bool \<Rightarrow> u32 \<Rightarrow> u32 \<Rightarrow> u32 \<Rightarrow> u32 \<Rightarrow> fb_state \<Rightarrow> fb_state option" where
  "soct_dp_fb_damage_area dying x y w h s =
     (let vh = fbs_height s * fbs_frames s
      in if w = 0 \<or> h = 0 \<or> fbs_width s \<le> x \<or> vh \<le> y then Some s
         else
           let x1 = min (x + w - 1) (fbs_width s - 1); y1 = min (y + h - 1) (vh - 1);
               s = record_damage x y x1 y1 s
           in if dying then soct_dp_fb_flush_work s else Some (s\<lparr>fbs_queued := True\<rparr>))"

definition soct_dp_fb_damage_range :: "bool \<Rightarrow> u64 \<Rightarrow> u64 \<Rightarrow> fb_state \<Rightarrow> fb_state option" where
  "soct_dp_fb_damage_range dying off len s =
     (let y0 = ucast (off div ucast (fbs_stride s)); y1 = ucast ((off + len - 1) div ucast (fbs_stride s))
      in soct_dp_fb_damage_area dying 0 y0 (fbs_width s) (y1 - y0 + 1) s)"

section \<open>Reading, writing and drawing\<close>

text \<open>
  \<open>None\<close> for the user's buffer stands for one the kernel cannot write to. The result is the new
  position and the bytes copied.
\<close>

definition soct_dp_fb_read :: "bool \<Rightarrow> u64 \<Rightarrow> u64 \<Rightarrow> fb_state \<Rightarrow> fb_err + u64 \<times> u8 list" where
  "soct_dp_fb_read writable count pos s =
     (let total = ucast (fbs_smem_len s)
      in if sint pos < 0 then Inl Fb_EFBIG
         else if total \<le> pos \<or> count = 0 then Inr (pos, [])
         else
           let count = (if count > total - pos then total - pos else count)
           in if \<not> writable then Inl Fb_EFAULT
              else Inr (pos + count, map (\<lambda>i. fbs_cpu s (fbs_phys s + pos + of_nat i)) [0..<unat count]))"

text \<open>
  \<open>data\<close> holds the bytes that can be read from the user's buffer: \<open>copy_from_user\<close> stores them up to
  the one that faults. The result is the error or the number of bytes, and the new position.
\<close>

definition soct_dp_fb_write ::
  "bool \<Rightarrow> u8 list \<Rightarrow> u64 \<Rightarrow> u64 \<Rightarrow> fb_state \<Rightarrow> ((fb_err + u64) \<times> u64 \<times> fb_state) option" where
  "soct_dp_fb_write dying data count pos s =
     (let total = ucast (fbs_smem_len s)
      in if sint pos < 0 \<or> total < pos then Some (Inl Fb_EFBIG, pos, s)
         else
           let count = (if count > total - pos then total - pos else count)
           in if count = 0 then Some (Inl Fb_ENOSPC, pos, s)
              else
                let s = s\<lparr>fbs_cpu := store_bytes (fbs_phys s + pos) (take (unat count) data) (fbs_cpu s)\<rparr>
                in if length data < unat count then Some (Inl Fb_EFAULT, pos, s)
                   else map_option (\<lambda>s. (Inr count, pos + count, s)) (soct_dp_fb_damage_range dying pos count s))"

text \<open>
  The slow paths: what the kernel's \<open>cfb_fillrect\<close>, \<open>cfb_copyarea\<close> and \<open>cfb_imageblit\<close> draw is a
  parameter, a function from the memory before to the memory after.
\<close>

definition soct_dp_fb_defio ::
  "((u64 \<Rightarrow> u8) \<Rightarrow> u64 \<Rightarrow> u8) \<Rightarrow> bool \<Rightarrow> u32 \<Rightarrow> u32 \<Rightarrow> u32 \<Rightarrow> u32 \<Rightarrow> fb_state \<Rightarrow> fb_state option" where
  "soct_dp_fb_defio cfb dying x y w h s = soct_dp_fb_damage_area dying x y w h (s\<lparr>fbs_cpu := cfb (fbs_cpu s)\<rparr>)"

definition color_bytes :: "u32 \<Rightarrow> u8 list" where
  "color_bytes c = [ucast (c AND 0xFF), ucast (drop_bit 8 c AND 0xFF), ucast (drop_bit 16 c AND 0xFF)]"

definition glyph_pattern :: "u32 \<Rightarrow> u32 \<Rightarrow> nat \<Rightarrow> u8 list" where
  "glyph_pattern fg bg b =
     concat (map (\<lambda>k. color_bytes (if of_nat b AND drop_bit k (0x80 :: u32) \<noteq> 0 then fg else bg)) [0..<8])"

definition glyph_fill :: "u32 \<Rightarrow> u32 \<Rightarrow> glyph_cache \<Rightarrow> glyph_cache" where
  "glyph_fill fg bg g =
     (if \<not> gl_valid g \<or> gl_fg g \<noteq> fg \<or> gl_bg g \<noteq> bg
      then \<lparr>gl_fg = fg, gl_bg = bg, gl_valid = True, gl_pat = map (glyph_pattern fg bg) [0..<256]\<rparr> else g)"

fun blit_row :: "u8 list list \<Rightarrow> u8 list \<Rightarrow> u32 \<Rightarrow> u64 \<Rightarrow> (u64 \<Rightarrow> u8) \<Rightarrow> u64 \<Rightarrow> u8" where
  "blit_row pat [] rem dst m = m"
| "blit_row pat (b # bs) rem dst m =
     (let px = min rem 8
      in blit_row pat bs (rem - px) (dst + ucast (px * 3))
           (store_bytes dst (take (unat (ucast px * 3 :: u64)) (pat ! unat b)) m))"

definition blit_dst :: "fb_state \<Rightarrow> fb_image \<Rightarrow> nat \<Rightarrow> u64" where
  "blit_dst s im r = fbs_phys s + ucast (im_dy im + of_nat r) * ucast (fbs_stride s) + ucast (im_dx im) * 3"

definition soct_dp_fb_imageblit ::
  "((u64 \<Rightarrow> u8) \<Rightarrow> u64 \<Rightarrow> u8) \<Rightarrow> bool \<Rightarrow> fb_image \<Rightarrow> fb_state \<Rightarrow> fb_state option" where
  "soct_dp_fb_imageblit cfb dying im s =
     (let spitch = (im_width im + 7) div 8
      in if im_depth im \<noteq> 1 then soct_dp_fb_defio cfb dying (im_dx im) (im_dy im) (im_width im) (im_height im) s
         else
           let g = glyph_fill (fbs_palette s ! unat (im_fg im)) (fbs_palette s ! unat (im_bg im)) (fbs_glyph s);
               m = fold (\<lambda>r. blit_row (gl_pat g) (take (unat spitch) (drop (r * unat spitch) (im_data im)))
                              (im_width im) (blit_dst s im r)) [0..<unat (im_height im)] (fbs_cpu s)
           in soct_dp_fb_damage_area dying (im_dx im) (im_dy im) (im_width im) (im_height im)
                (s\<lparr>fbs_glyph := g, fbs_cpu := m\<rparr>))"

definition soct_dp_fb_fillrect ::
  "((u64 \<Rightarrow> u8) \<Rightarrow> u64 \<Rightarrow> u8) \<Rightarrow> bool \<Rightarrow> fb_fillrect \<Rightarrow> fb_state \<Rightarrow> fb_state option" where
  "soct_dp_fb_fillrect cfb dying rect s =
     (let c = fbs_palette s ! unat (fr_color rect); b = (ucast (c AND 0xFF) :: u8)
      in if fr_rop rect \<noteq> 0 \<or> ucast b \<noteq> drop_bit 8 c AND 0xFF \<or> ucast b \<noteq> drop_bit 16 c AND 0xFF
         then soct_dp_fb_defio cfb dying (fr_dx rect) (fr_dy rect) (fr_width rect) (fr_height rect) s
         else
           let m = fold (\<lambda>r. store_bytes (fbs_phys s + ucast (fr_dy rect + of_nat r) * ucast (fbs_stride s) + ucast (fr_dx rect) * 3)
                              (replicate (unat (ucast (fr_width rect) * 3 :: u64)) b)) [0..<unat (fr_height rect)] (fbs_cpu s)
           in soct_dp_fb_damage_area dying (fr_dx rect) (fr_dy rect) (fr_width rect) (fr_height rect) (s\<lparr>fbs_cpu := m\<rparr>))"

definition soct_dp_fb_setcolreg :: "u32 \<Rightarrow> u32 \<Rightarrow> u32 \<Rightarrow> u32 \<Rightarrow> fb_state \<Rightarrow> fb_err option \<times> fb_state" where
  "soct_dp_fb_setcolreg regno r g b s =
     (if 16 \<le> regno then (Some Fb_EINVAL, s)
      else
        let v = fbs_var s;
            c = push_bit (unat (bf_offset (v_red v))) (drop_bit 8 r) OR push_bit (unat (bf_offset (v_green v))) (drop_bit 8 g) OR
                push_bit (unat (bf_offset (v_blue v))) (drop_bit 8 b)
        in (None, s\<lparr>fbs_palette := (fbs_palette s)[unat regno := c]\<rparr>))"

section \<open>Deferred I/O and panning\<close>

text \<open>The offsets of the pages stored to through a mapping, in the order of the list.\<close>

fun defio_loop :: "u64 list \<Rightarrow> u64 \<Rightarrow> u64 \<Rightarrow> fb_state \<Rightarrow> fb_state option" where
  "defio_loop [] start len s = (if len \<noteq> 0 then flush_range start len s else Some s)"
| "defio_loop (off # offs) start len s =
     (let phys = fbs_phys s + off
      in if len \<noteq> 0 \<and> phys = start + len then defio_loop offs start (len + 4096) s
         else do {
           s \<leftarrow> if len \<noteq> 0 then flush_range start len s else Some s;
           defio_loop offs phys 4096 s })"

definition soct_dp_fb_deferred_io :: "u64 list \<Rightarrow> fb_state \<Rightarrow> fb_state option" where
  "soct_dp_fb_deferred_io pagelist s = defio_loop pagelist 0 0 s"

definition soct_dp_fb_pan_display :: "fb_var_screeninfo \<Rightarrow> fb_state \<Rightarrow> fb_err option \<times> fb_state" where
  "soct_dp_fb_pan_display var s =
     (if xoffset var \<noteq> 0 \<or> yoffset var mod fbs_height s \<noteq> 0 then (Some Fb_EINVAL, s)
      else if fbs_frames s \<le> yoffset var div fbs_height s then (Some Fb_EINVAL, s)
      else (None, s\<lparr>fbs_park_frame := yoffset var div fbs_height s, fbs_park_req := True, fbs_queued := True\<rparr>))"

section \<open>Mode changes\<close>

definition rgb_field :: "u32 \<Rightarrow> fb_bitfield" where
  "rgb_field off = \<lparr>bf_offset = off, bf_length = 8, bf_msb_right = 0\<rparr>"

text \<open>\<open>DIV_ROUND_CLOSEST_ULL(1000000000000, d)\<close> and the 64-bit division of the frame time.\<close>

definition div_round_closest :: "u64 \<Rightarrow> u64" where
  "div_round_closest d = (1000000000000 + d div 2) div d"

definition soct_dp_fb_fill_var :: "u64 \<Rightarrow> soct_dp_mode \<Rightarrow> fb_var_screeninfo \<Rightarrow> fb_var_screeninfo option" where
  "soct_dp_fb_fill_var carveout m var =
     (if pixel_clock_hz m = 0 then None
      else Some (var\<lparr>xres := hactive m, yres := vactive m, xres_virtual := hactive m,
        yres_virtual := vactive m * nframes carveout (hactive m * 3) (vactive m),
        xoffset := 0, yoffset := 0, bits_per_pixel := 24, grayscale := 0,
        v_red := rgb_field 16, v_green := rgb_field 8, v_blue := rgb_field 0,
        v_transp := \<lparr>bf_offset = 0, bf_length = 0, bf_msb_right = 0\<rparr>, nonstd := 0, v_height := - 1, v_width := - 1,
        pixclock := ucast (div_round_closest (ucast (pixel_clock_hz m))),
        left_margin := hback_porch m, right_margin := hfront_porch m, upper_margin := vback_porch m,
        lower_margin := vfront_porch m, v_hsync_len := hsync_len m, v_vsync_len := vsync_len m,
        v_sync := (if hsync_active m \<noteq> 0 then 1 else 0) OR (if vsync_active m \<noteq> 0 then 2 else 0), v_vmode := 0\<rparr>))"

definition soct_dp_fb_var_to_mode :: "fb_var_screeninfo \<Rightarrow> fb_err + soct_dp_mode" where
  "soct_dp_fb_var_to_mode var =
     (if pixclock var = 0 \<or> v_vmode var AND 255 \<noteq> 0 then Inl Fb_EINVAL
      else
        let m = \<lparr>hactive = xres var, hfront_porch = right_margin var, hsync_len = v_hsync_len var, hback_porch = left_margin var,
                 vactive = yres var, vfront_porch = lower_margin var, vsync_len = v_vsync_len var, vback_porch = upper_margin var,
                 hsync_active = (if v_sync var AND 1 \<noteq> 0 then 1 else 0), vsync_active = (if v_sync var AND 2 \<noteq> 0 then 1 else 0),
                 fps = 0, pixel_clock_hz = ucast (div_round_closest (ucast (pixclock var)))\<rparr>;
            dots = ucast (pixclock var) * ucast (mode_htotal m) * ucast (mode_vtotal m)
        in if dots = 0 then Inl Fb_undefined
           else
             let m = m\<lparr>fps := ucast (div_round_closest dots)\<rparr>
             in if fps m = 0 then Inl Fb_EINVAL else Inr m)"

definition soct_dp_fb_check_var :: "fb_state \<Rightarrow> fb_var_screeninfo \<Rightarrow> fb_err + fb_var_screeninfo" where
  "soct_dp_fb_check_var s var =
     (case soct_dp_fb_var_to_mode var of
        Inl e \<Rightarrow> Inl (if e = Fb_undefined then e else Fb_EINVAL)
      | Inr m \<Rightarrow>
          let frame_size = ucast (hactive m) * ucast (vactive m) * 3
          in if fbs_carveout s < frame_size then Inl Fb_EINVAL
             else if fbs_mmap_ok s \<and>
                ucast (fbs_defio_size s) < frame_size * ucast (nframes (fbs_carveout s) (hactive m * 3) (vactive m))
             then Inl Fb_EINVAL
             else
               case soct_dp_validate_mode (fbs_dp s) m of
                 (r, m) \<Rightarrow>
                   if r \<noteq> Dp_OK then Inl Fb_EINVAL
                   else (case soct_dp_fb_fill_var (fbs_carveout s) m var of None \<Rightarrow> Inl Fb_undefined | Some v \<Rightarrow> Inr v))"

text \<open>The geometry of a mode, which \<open>set_par\<close> and \<open>prepare\<close> set the same way.\<close>

definition set_geometry :: "soct_dp_mode \<Rightarrow> fb_state \<Rightarrow> fb_state" where
  "set_geometry m s = s\<lparr>fbs_mode := m, fbs_width := hactive m, fbs_height := vactive m, fbs_stride := hactive m * 3,
     fbs_frames := nframes (fbs_carveout s) (hactive m * 3) (vactive m)\<rparr>"

definition clear_screen :: "u64 \<Rightarrow> fb_state \<Rightarrow> fb_state option" where
  "clear_screen len s =
     flush_range (fbs_phys s) len (s\<lparr>fbs_cpu := store_bytes (fbs_phys s) (replicate (unat len) 0) (fbs_cpu s)\<rparr>)"

text \<open>A queued worker is cancelled; one that runs is waited for, so no job is open here.\<close>

definition soct_dp_fb_set_par :: "switch_env \<Rightarrow> fb_state \<Rightarrow> (fb_err option \<times> fb_state) option" where
  "soct_dp_fb_set_par E s =
     (case soct_dp_fb_var_to_mode (fbs_var s) of
        Inl e \<Rightarrow> Some (Some (if e = Fb_undefined then e else Fb_EINVAL), s)
      | Inr m \<Rightarrow>
          (case soct_dp_validate_mode (fbs_dp s) m of
             (r, m) \<Rightarrow>
               if r \<noteq> Dp_OK then Some (Some Fb_EINVAL, s)
               else if m = fbs_mode s then Some (None, s)
               else
                 let s = s\<lparr>fbs_queued := False, fbs_dirty := False, fbs_park_req := False\<rparr>
                 in case soct_dp_switch_mode E m (fbs_dp s) of
                      (r, dp) \<Rightarrow>
                        let s = s\<lparr>fbs_dp := dp\<rparr>
                        in if r \<noteq> Dp_OK then Some (Some (Fb_dp r), s\<lparr>fbs_mode := no_mode\<rparr>)
                           else
                             let s = set_geometry m s;
                                 size = ucast (fbs_stride s) * ucast (fbs_height s) * ucast (fbs_frames s)
                             in map_option (\<lambda>s. (None, s))
                                  (clear_screen size
                                     (s\<lparr>fbs_line_length := fbs_stride s, fbs_smem_len := ucast size,
                                        fbs_ypanstep := (if fbs_frames s = 2 then fbs_height s else 0)\<rparr>))))"

section \<open>Setting up and tearing down\<close>

text \<open>
  The outcomes of the kernel calls: the cache controller's node, its mapping, the mapping of the
  carve-out, and whether both of its ends have a \<open>struct page\<close>.
\<close>

definition soct_dp_fb_prepare ::
  "bool \<Rightarrow> bool \<Rightarrow> bool \<Rightarrow> bool \<Rightarrow> u64 \<Rightarrow> u64 \<Rightarrow> soct_dp_mode \<Rightarrow> fb_state \<Rightarrow> (fb_err option \<times> fb_state) option" where
  "soct_dp_fb_prepare l2 mapped remapped pages fb fb_size m s =
     (let size = ucast (hactive m) * 3 * ucast (vactive m)
      in if \<not> l2 then Some (Some Fb_ENODEV, s)
         else if \<not> mapped then Some (Some Fb_ENOMEM, s\<lparr>fbs_l2 := False\<rparr>)
         else if fb_size < size then Some (Some Fb_EINVAL, s\<lparr>fbs_l2 := False\<rparr>)
         else if \<not> remapped then Some (Some Fb_EINVAL, s\<lparr>fbs_virt := False, fbs_l2 := False\<rparr>)
         else
           let s = set_geometry m (s\<lparr>fbs_l2 := True, fbs_virt := True, fbs_phys := fb, fbs_carveout := fb_size, fbs_mmap_ok := pages\<rparr>)
           in map_option (\<lambda>s. (None, s)) (clear_screen (size * ucast (fbs_frames s)) s))"

definition soct_dp_fb_register :: "bool \<Rightarrow> bool \<Rightarrow> bool \<Rightarrow> fb_var_screeninfo \<Rightarrow> fb_state \<Rightarrow> fb_err option \<times> fb_state" where
  "soct_dp_fb_register alloc defio_ok registered zeroed s =
     (if \<not> alloc then (Some Fb_ENOMEM, s)
      else
        case soct_dp_fb_fill_var (fbs_carveout s) (fbs_mode s) zeroed of
          None \<Rightarrow> (Some Fb_undefined, s)
        | Some v \<Rightarrow>
            let s' = s\<lparr>fbs_line_length := fbs_stride s, fbs_smem_len := fbs_stride s * fbs_height s * fbs_frames s,
                      fbs_ypanstep := (if fbs_frames s = 2 then fbs_height s else 0), fbs_var := v\<lparr>v_activate := 0\<rparr>\<rparr>
            in if fbs_mmap_ok s \<and> \<not> defio_ok then (Some Fb_core, s)
               else
                 let s' = (if fbs_mmap_ok s then s'\<lparr>fbs_defio_size := fbs_smem_len s'\<rparr> else s')
                 in if \<not> registered then (Some Fb_core, s\<lparr>fbs_defio_size := fbs_defio_size s'\<rparr>)
                    else (None, s'\<lparr>fbs_info := True\<rparr>))"

definition soct_dp_fb_destroy :: "fb_state \<Rightarrow> fb_state" where
  "soct_dp_fb_destroy s = s\<lparr>fbs_queued := False, fbs_virt := False, fbs_l2 := False\<rparr>"

text \<open>When the last reference drops with the unregistration, the core calls \<open>fb_destroy\<close>.\<close>

definition soct_dp_fb_teardown :: "bool \<Rightarrow> fb_state \<Rightarrow> fb_state" where
  "soct_dp_fb_teardown last_ref s =
     (if fbs_info s then (if last_ref then soct_dp_fb_destroy s else s)\<lparr>fbs_info := False\<rparr>
      else
        let s = (if fbs_virt s then s\<lparr>fbs_queued := False, fbs_virt := False\<rparr> else s)
        in if fbs_l2 s then s\<lparr>fbs_l2 := False\<rparr> else s)"

section \<open>Specification\<close>

text \<open>Offsets into the screen; a rectangle of pixels, its last column and row included.\<close>

definition vis_len :: "fb_state \<Rightarrow> nat" where
  "vis_len s = unat (fbs_stride s) * unat (fbs_height s) * unat (fbs_frames s)"

definition in_rows :: "nat \<Rightarrow> nat \<Rightarrow> nat \<Rightarrow> nat \<Rightarrow> nat \<Rightarrow> nat \<Rightarrow> bool" where
  "in_rows S x0 x1 y0 y1 n \<longleftrightarrow> y0 \<le> n div S \<and> n div S \<le> y1 \<and> 3 * x0 \<le> n mod S \<and> n mod S < 3 * Suc x1"

definition in_dirty :: "fb_state \<Rightarrow> nat \<Rightarrow> bool" where
  "in_dirty s n \<longleftrightarrow> fbs_dirty s \<and>
     in_rows (unat (fbs_stride s)) (unat (fbs_x0 s)) (unat (fbs_x1 s)) (unat (fbs_y0 s)) (unat (fbs_y1 s)) n"

fun in_job :: "fb_state \<Rightarrow> flush_job option \<Rightarrow> nat \<Rightarrow> bool" where
  "in_job s None n \<longleftrightarrow> False"
| "in_job s (Some j) n \<longleftrightarrow> fj_dirty j \<and>
     in_rows (unat (fbs_stride s)) (unat (fj_x0 j)) (unat (fj_x1 j)) (unat (fj_y j)) (unat (fj_y1 j)) n"

text \<open>A byte the monitor would show differently from what was drawn.\<close>

definition stale :: "fb_state \<Rightarrow> nat \<Rightarrow> bool" where
  "stale s n \<longleftrightarrow> fbs_dram s (fbs_phys s + of_nat n) \<noteq> fbs_cpu s (fbs_phys s + of_nat n)"

definition writeback :: "u64 set \<Rightarrow> fb_state \<Rightarrow> fb_state" where
  "writeback D s = s\<lparr>fbs_dram := \<lambda>b. if b \<in> D then fbs_cpu s b else fbs_dram s b\<rparr>"

definition addr_span :: "u64 \<Rightarrow> nat \<Rightarrow> u64 set" where
  "addr_span a n = {b. unat a \<le> unat b \<and> unat b < unat a + n}"

definition glyph_ok :: "glyph_cache \<Rightarrow> bool" where
  "glyph_ok g \<longleftrightarrow> (gl_valid g \<longrightarrow> gl_pat g = map (glyph_pattern (gl_fg g) (gl_bg g)) [0..<256])"

text \<open>A carve-out below 4 GiB in size and away from the end of the address space, and a frame that fits in it.\<close>

definition geometry_ok :: "fb_state \<Rightarrow> bool" where
  "geometry_ok s \<longleftrightarrow> 0 < unat (fbs_width s) \<and> 0 < unat (fbs_height s) \<and> unat (fbs_stride s) = 3 * unat (fbs_width s) \<and>
     fbs_frames s = nframes (fbs_carveout s) (fbs_stride s) (fbs_height s) \<and>
     unat (fbs_stride s) * unat (fbs_height s) \<le> unat (fbs_carveout s) \<and>
     unat (fbs_carveout s) < 2 ^ 32 \<and> unat (fbs_phys s) + unat (fbs_carveout s) + 8192 \<le> 2 ^ 64"

definition rect_ok :: "fb_state \<Rightarrow> bool" where
  "rect_ok s \<longleftrightarrow> (fbs_dirty s \<longrightarrow> fbs_x0 s \<le> fbs_x1 s \<and> fbs_x1 s < fbs_width s \<and> fbs_y0 s \<le> fbs_y1 s \<and>
     fbs_y1 s < fbs_height s * fbs_frames s)"

fun job_ok :: "fb_state \<Rightarrow> flush_job option \<Rightarrow> bool" where
  "job_ok s None \<longleftrightarrow> True"
| "job_ok s (Some j) \<longleftrightarrow>
     (fj_dirty j \<longrightarrow> fj_x0 j \<le> fj_x1 j \<and> fj_x1 j < fbs_width s \<and> fj_y1 j < fbs_height s * fbs_frames s) \<and>
     (\<forall>f. fj_park j = Some f \<longrightarrow> f < fbs_frames s)"

text \<open>
  The invariant of the device, with the job of the running worker, the pages stored to through a
  mapping, and the bytes stored by writes that then faulted: a visible byte the memory lacks is in the
  recorded damage, in the rest of the job, in one of those pages, or one of those bytes, which the
  driver does not record. After a failed mode change nothing is scanned, and nothing is promised.
\<close>

type_synonym fb_track = "u64 list \<times> nat set"

definition in_pages :: "fb_track \<Rightarrow> nat \<Rightarrow> bool" where
  "in_pages P n \<longleftrightarrow> of_nat (n div 4096 * 4096) \<in> set (fst P)"

definition covered :: "fb_state \<Rightarrow> flush_job option \<Rightarrow> fb_track \<Rightarrow> nat \<Rightarrow> bool" where
  "covered s oj P n \<longleftrightarrow> in_dirty s n \<or> in_job s oj n \<or> in_pages P n \<or> n \<in> snd P"

definition all_covered :: "fb_state \<Rightarrow> flush_job option \<Rightarrow> fb_track \<Rightarrow> bool" where
  "all_covered s oj P \<longleftrightarrow> (\<forall>n < vis_len s. stale s n \<longrightarrow> covered s oj P n)"

definition fb_inv :: "fb_state \<Rightarrow> flush_job option \<Rightarrow> fb_track \<Rightarrow> bool" where
  "fb_inv s oj P \<longleftrightarrow> geometry_ok s \<and> rect_ok s \<and> job_ok s oj \<and> glyph_ok (fbs_glyph s) \<and>
     unat (fbs_smem_len s) = vis_len s \<and> (\<forall>p\<in>set (fst P). p \<le> fbs_carveout s) \<and>
     (fbs_dirty s \<or> fbs_park_req s \<longrightarrow> fbs_queued s) \<and> (fbs_park_req s \<longrightarrow> fbs_park_frame s < fbs_frames s) \<and>
     budget_ok (fbs_dp s) \<and> fbs_mode s = dp_cur (fbs_dp s) \<and> (fbs_mode s \<noteq> no_mode \<longrightarrow> all_covered s oj P)"

text \<open>What an image of one bit per pixel looks like on the screen, by row and column.\<close>

definition image_pitch :: "fb_image \<Rightarrow> nat" where
  "image_pitch im = (unat (im_width im) + 7) div 8"

definition image_pixel :: "u32 list \<Rightarrow> fb_image \<Rightarrow> nat \<Rightarrow> nat \<Rightarrow> u32" where
  "image_pixel pal im r c =
     (if bit (im_data im ! (r * image_pitch im + c div 8)) (7 - c mod 8) then pal ! unat (im_fg im) else pal ! unat (im_bg im))"

text \<open>The bytes of an area of the screen.\<close>

definition area :: "nat \<Rightarrow> nat \<Rightarrow> nat \<Rightarrow> nat \<Rightarrow> nat \<Rightarrow> nat \<Rightarrow> bool" where
  "area S x y w h n \<longleftrightarrow> y \<le> n div S \<and> n div S < y + h \<and> 3 * x \<le> n mod S \<and> n mod S < 3 * (x + w)"

definition inside :: "fb_state \<Rightarrow> u32 \<Rightarrow> u32 \<Rightarrow> u32 \<Rightarrow> u32 \<Rightarrow> bool" where
  "inside s x y w h \<longleftrightarrow> unat x + unat w \<le> unat (fbs_width s) \<and> unat y + unat h \<le> unat (fbs_height s * fbs_frames s)"

section \<open>Lemmas\<close>

subsection \<open>Writing back\<close>

lemma writeback_simps [simp]:
  "fbs_cpu (writeback D s) = fbs_cpu s" "fbs_phys (writeback D s) = fbs_phys s" "fbs_stride (writeback D s) = fbs_stride s"
  "fbs_dram (writeback D s) b = (if b \<in> D then fbs_cpu s b else fbs_dram s b)"
  "writeback D (writeback D' s) = writeback (D \<union> D') s"
  by (auto simp: writeback_def fun_eq_iff)

lemma writeback_keeps [simp]:
  "geometry_ok (writeback D s) = geometry_ok s" "fbs_width (writeback D s) = fbs_width s"
  "fbs_height (writeback D s) = fbs_height s" "fbs_frames (writeback D s) = fbs_frames s"
  by (simp_all add: writeback_def geometry_ok_def)

lemma writeback_empty [simp]: "writeback {} s = s"
  by (simp add: writeback_def)

lemma fold_flush_line:
  "fold flush_line ls s = writeback {b. \<exists>a\<in>set ls. b AND NOT 63 = a AND NOT 63} s"
proof (induction ls arbitrary: s)
  case (Cons a ls)
  have "flush_line a s = writeback {b. b AND NOT 63 = a AND NOT 63} s" by (simp add: flush_line_def writeback_def)
  then show ?case by (simp add: Cons.IH) (rule arg_cong [of _ _ "\<lambda>D. writeback D s"], auto)
qed simp

lemma unat_and_not63: "unat (a AND NOT 63 :: u64) = unat a div 64 * 64"
  using unat_and_not_mask [of a 6] by (simp add: mask_eq_exp_minus_1)

lemma and_not63_idem: "(a AND NOT 63) AND NOT 63 = (a AND NOT 63 :: u64)"
  by (simp add: word_unat_eq_iff unat_and_not63)

lemma flush_range_writeback:
  assumes "unat start + unat len + 64 \<le> 2 ^ 64"
  shows "\<exists>D. flush_range start len s = Some (writeback D s) \<and> addr_span start (unat len) \<subseteq> D"
proof -
  let ?s = "start AND NOT 63" and ?e = "start + len"
  have e: "unat ?e = unat start + unat len" using assms by (intro unat_add_no_wrap) simp
  have ends: "loop_ends 64 ?e" using assms by (simp add: loop_ends_def e)
  have "b AND NOT 63 \<in> set (addrs 64 ?s ?e)" if b: "b \<in> addr_span start (unat len)" for b
  proof -
    let ?l = "b AND NOT 63"
    have le: "?s \<le> ?l"
      unfolding word_le_nat_alt unat_and_not63 using b by (intro mult_le_mono1 div_le_mono) (simp add: addr_span_def)
    have "unat ?l \<le> unat b" unfolding unat_and_not63 by (rule div_times_less_eq_dividend)
    then have "?l < ?e" using b unfolding word_less_nat_alt e by (simp add: addr_span_def)
    moreover have "unat (?l - ?s) mod 64 = 0"
      unfolding unat_diff_le [OF le] unat_and_not63 by (simp flip: diff_mult_distrib)
    ultimately show ?thesis using le unfolding addrs_grid(1) [OF ends] by (simp add: grid_def)
  qed
  then have "addr_span start (unat len) \<subseteq> {b. \<exists>a\<in>set (addrs 64 ?s ?e). b AND NOT 63 = a AND NOT 63}"
    by (intro subsetI CollectI bexI [rotated]) (assumption | simp only: and_not63_idem)+
  then show ?thesis unfolding flush_range_def addr_loop_fold [OF ends] fold_flush_line by blast
qed

lemma row_in_screen:
  fixes S H y :: nat
  assumes "y < H" "c \<le> S"
  shows "y * S + c \<le> S * H"
proof -
  have "y * S + c \<le> y * S + S" using assms(2) by simp
  also have "\<dots> = Suc y * S" by simp
  also have "\<dots> \<le> H * S" using assms(1) by (intro mult_le_mono1) simp
  finally show ?thesis by (simp add: mult.commute)
qed

text \<open>The facts the address arithmetic needs of a geometry.\<close>

lemma geometry_facts:
  assumes "geometry_ok s"
  shows "vis_len s \<le> unat (fbs_carveout s)" "unat (fbs_height s * fbs_frames s) = unat (fbs_height s) * unat (fbs_frames s)"
    "vis_len s = unat (fbs_stride s) * unat (fbs_height s * fbs_frames s)" "fbs_frames s = 1 \<or> fbs_frames s = 2"
    "0 < unat (fbs_stride s)" "0 < unat (fbs_height s * fbs_frames s)"
proof -
  let ?S = "unat (fbs_stride s)" and ?H = "unat (fbs_height s)"
  have g: "?S = 3 * unat (fbs_width s)" "0 < unat (fbs_width s)" "0 < ?H" "?S * ?H \<le> unat (fbs_carveout s)"
      "unat (fbs_carveout s) < 2 ^ 32" "fbs_frames s = nframes (fbs_carveout s) (fbs_stride s) (fbs_height s)"
    using assms unfolding geometry_ok_def by blast+
  show S: "0 < ?S" using g by simp
  have p: "?S * ?H < 2 ^ 32" using g by linarith
  have "unat (2 * ucast (fbs_stride s) * ucast (fbs_height s) :: u64) = 2 * ?S * ?H"
  proof -
    have "(2 * ucast (fbs_stride s) * ucast (fbs_height s) :: u64) = of_nat (2 * ?S * ?H)"
      unfolding ucast_up_of_nat by simp
    moreover have "unat (of_nat (2 * ?S * ?H) :: u64) = 2 * ?S * ?H"
    proof (rule unat_of_nat_small)
      from p have "2 * (?S * ?H) < 2 * 2 ^ 32" by (rule mult_strict_left_mono) simp
      also have "\<dots> < 2 ^ LENGTH(64)" by simp
      finally show "2 * ?S * ?H < 2 ^ LENGTH(64)" unfolding mult.assoc .
    qed
    ultimately show ?thesis by simp
  qed
  then have f: "fbs_frames s = (if 2 * ?S * ?H \<le> unat (fbs_carveout s) then 2 else 1)"
    unfolding g(6) nframes_def word_le_nat_alt by simp
  then show "fbs_frames s = 1 \<or> fbs_frames s = 2" by simp
  show v: "vis_len s \<le> unat (fbs_carveout s)" using f g(4) by (auto simp: vis_len_def)
  have "1 * (?H * unat (fbs_frames s)) \<le> ?S * (?H * unat (fbs_frames s))" using S by (intro mult_le_mono1) simp
  then have "?H * unat (fbs_frames s) \<le> vis_len s" by (simp add: vis_len_def mult.assoc)
  then have "?H * unat (fbs_frames s) < 2 ^ 32" using v g(5) by linarith
  then show h: "unat (fbs_height s * fbs_frames s) = ?H * unat (fbs_frames s)" by (simp add: unat_word_ariths)
  show "vis_len s = ?S * unat (fbs_height s * fbs_frames s)" by (simp add: h vis_len_def)
  show "0 < unat (fbs_height s * fbs_frames s)" unfolding h using f g(3) by simp
qed

text \<open>The address of an offset inside the carve-out.\<close>

lemma unat_fb_offset:
  assumes "geometry_ok s" "n \<le> unat (fbs_carveout s)"
  shows "unat (fbs_phys s + of_nat n) = unat (fbs_phys s) + n"
proof -
  have "unat (fbs_phys s) + n < 2 ^ 64" using assms by (simp add: geometry_ok_def)
  moreover from this have "unat (of_nat n :: u64) = n" by (intro unat_of_nat_small) simp
  ultimately show ?thesis by (simp add: unat_add_no_wrap)
qed

lemma span_offset:
  assumes "geometry_ok s" "o1 + c \<le> unat (fbs_carveout s)" "o1 \<le> n" "n < o1 + c"
  shows "fbs_phys s + of_nat n \<in> addr_span (fbs_phys s + of_nat o1) c"
  using assms by (simp add: addr_span_def unat_fb_offset)

lemma flush_row_writeback:
  assumes g: "geometry_ok s" and x: "fj_x0 j \<le> fj_x1 j" "fj_x1 j < fbs_width s" and y: "fj_y j < fbs_height s * fbs_frames s"
  shows "\<exists>D. work_row j s = Some (writeback D s) \<and>
    (\<forall>n. in_rows (unat (fbs_stride s)) (unat (fj_x0 j)) (unat (fj_x1 j)) (unat (fj_y j)) (unat (fj_y j)) n \<longrightarrow>
       fbs_phys s + of_nat n \<in> D)"
proof -
  let ?S = "unat (fbs_stride s)" and ?a = "unat (fj_x0 j)" and ?b = "unat (fj_x1 j)" and ?y = "unat (fj_y j)"
  note gf = geometry_facts [OF g]
  have S: "?S = 3 * unat (fbs_width s)" "unat (fbs_phys s) + unat (fbs_carveout s) + 8192 \<le> 2 ^ 64"
    "?S < 2 ^ 32" using g unsigned_less [of "fbs_stride s", where 'a = nat] by (simp_all add: geometry_ok_def)
  have b: "?a \<le> ?b" "?b < unat (fbs_width s)" "?y < unat (fbs_height s * fbs_frames s)"
    using x y by (simp_all add: word_le_nat_alt word_less_nat_alt)
  let ?w = "?b - ?a + 1"
  have "unat (fj_x1 j - fj_x0 j) = ?b - ?a" using x(1) by (rule unat_diff_le)
  then have w: "unat (fj_x1 j - fj_x0 j + 1) = ?w" using b S by (subst unat_add_no_wrap) simp_all
  have xx: "unat (fj_x0 j * 3) = ?a * 3" using b S by (simp add: unat_word_ariths)
  let ?o = "?y * ?S + ?a * 3"
  have start: "fbs_phys s + ucast (fj_y j) * ucast (fbs_stride s) + ucast (fj_x0 j * 3) = fbs_phys s + of_nat ?o"
    unfolding ucast_up_of_nat xx by simp
  have len: "(ucast (fj_x1 j - fj_x0 j + 1) * 3 :: u64) = of_nat (?w * 3)" unfolding ucast_up_of_nat w by simp
  have row: "?y * ?S + (?a * 3 + ?w * 3) \<le> vis_len s"
    unfolding gf(3) using b S by (intro row_in_screen) simp_all
  then have fit: "?o + ?w * 3 \<le> unat (fbs_carveout s)" using gf(1) by simp
  have ul: "unat (of_nat (?w * 3) :: u64) = ?w * 3" using fit S by (intro unat_of_nat_small) simp
  have us: "unat (fbs_phys s + of_nat ?o) = unat (fbs_phys s) + ?o" using fit by (intro unat_fb_offset [OF g]) simp
  obtain D where D: "flush_range (fbs_phys s + of_nat ?o) (of_nat (?w * 3)) s = Some (writeback D s)"
    "addr_span (fbs_phys s + of_nat ?o) (?w * 3) \<subseteq> D"
    using flush_range_writeback [of "fbs_phys s + of_nat ?o" "of_nat (?w * 3)" s] fit S unfolding ul us by auto
  have "fbs_phys s + of_nat n \<in> D" if n: "in_rows ?S ?a ?b ?y ?y n" for n
  proof -
    have "n div ?S = ?y" using n by (simp add: in_rows_def)
    then have "n = ?y * ?S + n mod ?S" using div_mult_mod_eq [of n ?S] by simp
    moreover have "3 * ?a \<le> n mod ?S" "n mod ?S < 3 * Suc ?b" using n by (simp_all add: in_rows_def)
    moreover have "?a * 3 + ?w * 3 = 3 * Suc ?b" using b(1) by simp
    ultimately have "?o \<le> n" "n < ?o + ?w * 3" by linarith+
    then show ?thesis using span_offset [OF g fit] D(2) by blast
  qed
  then show ?thesis using D(1) unfolding work_row_def start len by blast
qed

lemma in_rows_split:
  "in_rows S a b y y1 n \<Longrightarrow> in_rows S a b y y n \<or> in_rows S a b (Suc y) y1 n"
  by (auto simp: in_rows_def)

lemma park_scanout_row [simp]: "park_scanout (j\<lparr>fj_y := y\<rparr>) s = park_scanout j s"
  by (simp add: park_scanout_def)

lemma flush_run_writeback:
  assumes "geometry_ok s" and "fj_dirty j \<Longrightarrow> fj_x0 j \<le> fj_x1 j \<and> fj_x1 j < fbs_width s \<and> fj_y1 j < fbs_height s * fbs_frames s"
  shows "\<exists>D. flush_work_run j s = Some (park_scanout j (writeback D s)) \<and> (\<forall>n. in_job s (Some j) n \<longrightarrow> fbs_phys s + of_nat n \<in> D)"
  using assms
proof (induction "Suc (unat (fj_y1 j)) - unat (fj_y j)" arbitrary: j s rule: less_induct)
  case less
  show ?case
  proof (cases "fj_dirty j \<and> fj_y j \<le> fj_y1 j")
    case False
    then have "\<not> in_job s (Some j) n" for n by (auto simp: in_rows_def word_le_nat_alt)
    moreover have "flush_work_run j s = Some (park_scanout j s)"
      using False by (subst flush_work_run.simps) (auto simp: flush_work_step_def)
    ultimately show ?thesis by (intro exI [of _ "{}"]) simp
  next
    case True
    let ?j = "j\<lparr>fj_y := fj_y j + 1\<rparr>"
    have ok: "fj_x0 j \<le> fj_x1 j" "fj_x1 j < fbs_width s" "fj_y1 j < fbs_height s * fbs_frames s" using less.prems(2) True by blast+
    have "unat (fj_y j) + 1 < 2 ^ 32"
      using True ok(3) unsigned_less [of "fbs_height s * fbs_frames s", where 'a = nat]
      by (simp add: word_le_nat_alt word_less_nat_alt)
    then have y: "unat (fj_y j + 1) = Suc (unat (fj_y j))" by (subst unat_add_no_wrap) simp_all
    from flush_row_writeback [OF less.prems(1) ok(1,2)] obtain D where D: "work_row j s = Some (writeback D s)"
      "\<And>n. in_rows (unat (fbs_stride s)) (unat (fj_x0 j)) (unat (fj_x1 j)) (unat (fj_y j)) (unat (fj_y j)) n \<Longrightarrow>
        fbs_phys s + of_nat n \<in> D" using True ok(3) by fastforce
    have "\<exists>D'. flush_work_run ?j (writeback D s) = Some (park_scanout ?j (writeback D' (writeback D s))) \<and>
      (\<forall>n. in_job (writeback D s) (Some ?j) n \<longrightarrow> fbs_phys (writeback D s) + of_nat n \<in> D')"
      using less.prems(1) ok True [THEN conjunct1] True [THEN conjunct2] y by (intro less.hyps) (simp_all add: word_le_nat_alt)
    then obtain D' where D': "flush_work_run ?j (writeback D s) = Some (park_scanout j (writeback (D' \<union> D) s))"
      "\<And>n. in_rows (unat (fbs_stride s)) (unat (fj_x0 j)) (unat (fj_x1 j)) (Suc (unat (fj_y j))) (unat (fj_y1 j)) n \<Longrightarrow>
        fbs_phys s + of_nat n \<in> D'" using True by (auto simp: y)
    have "flush_work_run j s = Some (park_scanout j (writeback (D' \<union> D) s))"
      using True D(1) D'(1) by (subst flush_work_run.simps) (simp add: flush_work_step_def)
    moreover have "fbs_phys s + of_nat n \<in> D' \<union> D" if "in_job s (Some j) n" for n
      using that D(2) [of n] D'(2) [of n] in_rows_split [of "unat (fbs_stride s)" "unat (fj_x0 j)" "unat (fj_x1 j)" "unat (fj_y j)" "unat (fj_y1 j)" n]
      by auto
    ultimately show ?thesis by blast
  qed
qed

subsection \<open>The worker and the damage\<close>

lemma flush_work_result:
  assumes "geometry_ok s" "rect_ok s"
  shows "\<exists>D. soct_dp_fb_flush_work s =
      Some (park_scanout (fst (flush_take s)) (writeback D (s\<lparr>fbs_dirty := False, fbs_park_req := False\<rparr>))) \<and>
    (\<forall>n. in_dirty s n \<longrightarrow> fbs_phys s + of_nat n \<in> D)"
proof -
  let ?j = "fst (flush_take s)" and ?s = "s\<lparr>fbs_dirty := False, fbs_park_req := False\<rparr>"
  have j: "fj_dirty ?j = fbs_dirty s" "fj_x0 ?j = fbs_x0 s" "fj_x1 ?j = fbs_x1 s" "fj_y ?j = fbs_y0 s" "fj_y1 ?j = fbs_y1 s"
    by (simp_all add: flush_take_def)
  have "geometry_ok ?s = geometry_ok s" by (simp add: geometry_ok_def)
  then have g: "geometry_ok ?s" using assms(1) by simp
  from flush_run_writeback [OF g, of ?j] obtain D where D: "flush_work_run ?j ?s = Some (park_scanout ?j (writeback D ?s))"
    "\<forall>n. in_job ?s (Some ?j) n \<longrightarrow> fbs_phys ?s + of_nat n \<in> D" using assms(2) unfolding j rect_ok_def by auto
  have "in_job ?s (Some ?j) n = in_dirty s n" for n by (simp add: j in_dirty_def)
  then show ?thesis using D by (intro exI [of _ D]) (simp add: soct_dp_fb_flush_work_def flush_take_def)
qed

text \<open>Widening the rectangle.\<close>

lemma in_rows_mono:
  "in_rows S x0 x1 y0 y1 n \<Longrightarrow> x0' \<le> x0 \<Longrightarrow> x1 \<le> x1' \<Longrightarrow> y0' \<le> y0 \<Longrightarrow> y1 \<le> y1' \<Longrightarrow> in_rows S x0' x1' y0' y1' n"
  by (auto simp: in_rows_def)

lemma unat_min_max:
  "unat (min a b) = min (unat a) (unat b)" "unat (max a b) = max (unat a) (unat b)"
  by (simp_all add: min_def max_def word_le_nat_alt)

lemma record_damage_keeps [simp]:
  "geometry_ok (record_damage x y x1 y1 s) = geometry_ok s" "vis_len (record_damage x y x1 y1 s) = vis_len s"
  "stale (record_damage x y x1 y1 s) n = stale s n" "in_job (record_damage x y x1 y1 s) oj n = in_job s oj n"
  "job_ok (record_damage x y x1 y1 s) oj = job_ok s oj" "fbs_dirty (record_damage x y x1 y1 s)"
  "fbs_glyph (record_damage x y x1 y1 s) = fbs_glyph s" "fbs_smem_len (record_damage x y x1 y1 s) = fbs_smem_len s"
  "fbs_carveout (record_damage x y x1 y1 s) = fbs_carveout s" "fbs_queued (record_damage x y x1 y1 s) = fbs_queued s"
  "fbs_park_req (record_damage x y x1 y1 s) = fbs_park_req s" "fbs_park_frame (record_damage x y x1 y1 s) = fbs_park_frame s"
  "fbs_frames (record_damage x y x1 y1 s) = fbs_frames s" "fbs_dp (record_damage x y x1 y1 s) = fbs_dp s"
  "fbs_mode (record_damage x y x1 y1 s) = fbs_mode s" "fbs_cpu (record_damage x y x1 y1 s) = fbs_cpu s" "fbs_phys (record_damage x y x1 y1 s) = fbs_phys s"
  by (cases oj; simp add: record_damage_def geometry_ok_def vis_len_def stale_def)+

lemma record_damage_covers:
  assumes "in_dirty s n \<or> in_rows (unat (fbs_stride s)) (unat x) (unat x1) (unat y) (unat y1) n"
  shows "in_dirty (record_damage x y x1 y1 s) n"
  using assms
  by (auto simp: in_dirty_def record_damage_def unat_min_max elim!: in_rows_mono)

lemma record_damage_rect:
  assumes "rect_ok s" "x \<le> x1" "x1 < fbs_width s" "y \<le> y1" "y1 < fbs_height s * fbs_frames s"
  shows "rect_ok (record_damage x y x1 y1 s)"
  using assms by (auto simp: rect_ok_def record_damage_def min_le_iff_disj le_max_iff_disj)

text \<open>A full flush in an invariant state with its damage recorded.\<close>

lemma park_scanout_keeps [simp]:
  "geometry_ok (park_scanout j s) = geometry_ok s" "vis_len (park_scanout j s) = vis_len s"
  "stale (park_scanout j s) n = stale s n" "in_job (park_scanout j s) oj n = in_job s oj n" "in_dirty (park_scanout j s) n = in_dirty s n"
  "job_ok (park_scanout j s) oj = job_ok s oj" "rect_ok (park_scanout j s) = rect_ok s"
  "fbs_glyph (park_scanout j s) = fbs_glyph s" "fbs_smem_len (park_scanout j s) = fbs_smem_len s"
  "fbs_carveout (park_scanout j s) = fbs_carveout s" "fbs_queued (park_scanout j s) = fbs_queued s"
  "fbs_park_req (park_scanout j s) = fbs_park_req s" "fbs_park_frame (park_scanout j s) = fbs_park_frame s"
  "fbs_dirty (park_scanout j s) = fbs_dirty s" "fbs_frames (park_scanout j s) = fbs_frames s"
  "fbs_mode (park_scanout j s) = fbs_mode s" "fbs_cpu (park_scanout j s) = fbs_cpu s" "fbs_phys (park_scanout j s) = fbs_phys s"
  "dp_cur (fbs_dp (park_scanout j s)) = dp_cur (fbs_dp s)" "budget_ok (fbs_dp (park_scanout j s)) = budget_ok (fbs_dp s)"
  by (cases oj; simp add: park_scanout_def geometry_ok_def vis_len_def stale_def in_dirty_def rect_ok_def
        soct_dp_set_scanout_frame_def budget_ok_def dp_emit_def split: option.split)+

lemma writeback_keeps_inv [simp]:
  "vis_len (writeback D s) = vis_len s" "in_job (writeback D s) oj n = in_job s oj n" "in_dirty (writeback D s) n = in_dirty s n"
  "job_ok (writeback D s) oj = job_ok s oj" "rect_ok (writeback D s) = rect_ok s"
  "fbs_glyph (writeback D s) = fbs_glyph s" "fbs_smem_len (writeback D s) = fbs_smem_len s"
  "fbs_carveout (writeback D s) = fbs_carveout s" "fbs_queued (writeback D s) = fbs_queued s"
  "fbs_park_req (writeback D s) = fbs_park_req s" "fbs_park_frame (writeback D s) = fbs_park_frame s"
  "fbs_dirty (writeback D s) = fbs_dirty s" "fbs_mode (writeback D s) = fbs_mode s" "fbs_dp (writeback D s) = fbs_dp s"
  "stale (writeback D s) n \<longleftrightarrow> stale s n \<and> fbs_phys s + of_nat n \<notin> D"
  by (cases oj; simp add: writeback_def vis_len_def stale_def in_dirty_def rect_ok_def)+

lemma writeback_inv [soct_inv]: "fb_inv s oj P \<Longrightarrow> fb_inv (writeback D s) oj P"
  by (simp add: fb_inv_def all_covered_def covered_def)

lemma unlocked_keeps [simp]:
  "geometry_ok (s\<lparr>fbs_dirty := d, fbs_park_req := r\<rparr>) = geometry_ok s" "vis_len (s\<lparr>fbs_dirty := d, fbs_park_req := r\<rparr>) = vis_len s"
  "in_job (s\<lparr>fbs_dirty := d, fbs_park_req := r\<rparr>) oj n = in_job s oj n" "job_ok (s\<lparr>fbs_dirty := d, fbs_park_req := r\<rparr>) oj = job_ok s oj"
  "stale (s\<lparr>fbs_dirty := d, fbs_park_req := r\<rparr>) n = stale s n"
  by (cases oj; simp add: geometry_ok_def vis_len_def stale_def)+

lemma flush_work_inv [soct_inv]:
  assumes "fb_inv s oj P"
  shows "\<exists>s'. soct_dp_fb_flush_work s = Some s' \<and> fb_inv s' oj P"
proof -
  obtain D where D: "soct_dp_fb_flush_work s =
      Some (park_scanout (fst (flush_take s)) (writeback D (s\<lparr>fbs_dirty := False, fbs_park_req := False\<rparr>)))"
    "\<forall>n. in_dirty s n \<longrightarrow> fbs_phys s + of_nat n \<in> D"
    using flush_work_result [of s] assms by (auto simp: fb_inv_def)
  have "fb_inv (park_scanout (fst (flush_take s)) (writeback D (s\<lparr>fbs_dirty := False, fbs_park_req := False\<rparr>))) oj P"
    using assms D(2) by (auto simp: fb_inv_def all_covered_def covered_def rect_ok_def)
  then show ?thesis using D(1) by blast
qed

lemma damage_inv:
  assumes inv: "geometry_ok s" "rect_ok s" "job_ok s oj" "glyph_ok (fbs_glyph s)" "unat (fbs_smem_len s) = vis_len s"
      "\<forall>p\<in>set (fst P). p \<le> fbs_carveout s" "fbs_dirty s \<or> fbs_park_req s \<longrightarrow> fbs_queued s"
      "fbs_park_req s \<longrightarrow> fbs_park_frame s < fbs_frames s" "budget_ok (fbs_dp s)" "fbs_mode s = dp_cur (fbs_dp s)"
    and cov: "\<And>n. fbs_mode s \<noteq> no_mode \<Longrightarrow> n < vis_len s \<Longrightarrow> stale s n \<Longrightarrow>
      covered s oj P n \<or> area (unat (fbs_stride s)) (unat x) (unat y) (unat w) (unat h) n"
    and ins: "inside s x y w h"
  shows "\<exists>s'. soct_dp_fb_damage_area dying x y w h s = Some s' \<and> fb_inv s' oj P \<and> fbs_cpu s' = fbs_cpu s"
proof -
  have g: "unat x + unat w \<le> unat (fbs_width s)" "unat y + unat h \<le> unat (fbs_height s * fbs_frames s)"
    using ins by (simp_all add: inside_def)
  show ?thesis
  proof (cases "w = 0 \<or> h = 0")
    case True
    then have "\<not> area (unat (fbs_stride s)) (unat x) (unat y) (unat w) (unat h) n" for n by (auto simp: area_def)
    then have "fb_inv s oj P" using inv cov by (auto simp: fb_inv_def all_covered_def)
    then show ?thesis using True by (auto simp: soct_dp_fb_damage_area_def Let_def)
  next
    case False
    then have pos: "0 < unat w" "0 < unat h" by (simp_all add: unat_gt_0)
    let ?vh = "fbs_height s * fbs_frames s"
    have lt: "x < fbs_width s" "y < ?vh" using g pos by (simp_all add: word_less_nat_alt)
    have last: "unat (a + b - 1) = unat a + unat b - 1" if "unat a + unat b \<le> unat c" "0 < unat b" for a b c :: u32
    proof -
      have "unat a + unat b < 2 ^ 32" using that(1) unsigned_less [of c, where 'a = nat] by simp
      then have s: "unat (a + b) = unat a + unat b" by (intro unat_add_no_wrap) simp
      then have "1 \<le> a + b" using that(2) by (simp add: word_le_nat_alt)
      from unat_diff_le [OF this] show ?thesis by (simp add: s)
    qed
    define x1 where "x1 = min (x + w - 1) (fbs_width s - 1)"
    define y1 where "y1 = min (y + h - 1) (?vh - 1)"
    have m1: "unat (c - 1) = unat c - 1" if "(a :: u32) < c" for a c
    proof -
      have "1 \<le> c" using that by (simp add: word_le_nat_alt word_less_nat_alt)
      from unat_diff_le [OF this] show ?thesis by simp
    qed
    have ux: "unat x1 = unat x + unat w - 1" and uy: "unat y1 = unat y + unat h - 1"
      using g pos last [OF g(1)] last [OF g(2)] m1 [OF lt(1)] m1 [OF lt(2)]
      by (simp_all add: x1_def y1_def unat_min_max)
    let ?s = "record_damage x y x1 y1 s"
    have r: "rect_ok ?s"
      using inv(2) g pos ux uy by (intro record_damage_rect) (simp_all add: word_le_nat_alt word_less_nat_alt)
    have "area S (unat x) (unat y) (unat w) (unat h) n \<Longrightarrow> in_rows S (unat x) (unat x1) (unat y) (unat y1) n" for S n
      using pos by (auto simp: area_def in_rows_def ux uy)
    then have c: "covered ?s oj P n" if "fbs_mode s \<noteq> no_mode" "n < vis_len s" "stale s n" for n
      using cov [OF that] record_damage_covers [of s n x x1 y y1] by (auto simp: covered_def)
    have queued: "fb_inv (?s\<lparr>fbs_queued := True\<rparr>) oj P"
    proof -
      let ?q = "?s\<lparr>fbs_queued := True\<rparr>"
      have "geometry_ok ?q = geometry_ok ?s" "rect_ok ?q = rect_ok ?s" "job_ok ?q oj = job_ok ?s oj" "vis_len ?q = vis_len ?s"
        "\<And>n. stale ?q n = stale ?s n" "\<And>n. covered ?q oj P n = covered ?s oj P n"
        by (cases oj; simp add: geometry_ok_def rect_ok_def vis_len_def stale_def covered_def in_dirty_def)+
      then show ?thesis using inv r c by (simp add: fb_inv_def all_covered_def)
    qed
    have damage: "soct_dp_fb_damage_area dying x y w h s =
        (if dying then soct_dp_fb_flush_work ?s else Some (?s\<lparr>fbs_queued := True\<rparr>))"
      using False lt [folded not_le] by (simp add: soct_dp_fb_damage_area_def Let_def x1_def y1_def)
    show ?thesis
    proof (cases dying)
      case False
      then show ?thesis using damage queued by simp
    next
      case True
      obtain D where D: "soct_dp_fb_flush_work ?s =
          Some (park_scanout (fst (flush_take ?s)) (writeback D (?s\<lparr>fbs_dirty := False, fbs_park_req := False\<rparr>)))"
        "\<forall>n. in_dirty ?s n \<longrightarrow> fbs_phys s + of_nat n \<in> D"
        using flush_work_result [of ?s] inv(1) r by auto
      have "fb_inv (park_scanout (fst (flush_take ?s)) (writeback D (?s\<lparr>fbs_dirty := False, fbs_park_req := False\<rparr>))) oj P"
        using inv c D(2) by (auto simp: fb_inv_def all_covered_def covered_def rect_ok_def)
      then show ?thesis using True damage D(1) by auto
    qed
  qed
qed

subsection \<open>Drawing\<close>

lemma unat_word_diff:
  fixes a b :: u64
  shows "unat (b - a) = (if unat a \<le> unat b then unat b - unat a else unat b + 2 ^ 64 - unat a)"
  by (simp add: unat_sub_if_size word_size)

lemma store_bytes_at:
  assumes "unat a + length bs \<le> 2 ^ 64"
  shows "store_bytes a bs m b =
    (if unat a \<le> unat b \<and> unat b < unat a + length bs then bs ! (unat b - unat a) else m b)"
proof (cases "unat a \<le> unat b")
  case True
  then have "unat (b - a) = unat b - unat a" by (simp only: unat_word_diff if_True)
  then show ?thesis using True by (auto simp: store_bytes_def)
next
  case False
  then have d: "unat (b - a) = unat b + 2 ^ 64 - unat a" by (simp only: unat_word_diff if_False)
  have "\<not> unat (b - a) < length bs" unfolding d using assms by linarith
  then show ?thesis using False by (simp only: store_bytes_def if_False simp_thms)
qed

lemma store_bytes_Nil [simp]: "store_bytes a [] m = m"
  by (simp add: store_bytes_def)

lemma store_bytes_append:
  assumes "unat a + length xs + length ys < 2 ^ 64"
  shows "store_bytes (a + of_nat (length xs)) ys (store_bytes a xs m) = store_bytes a (xs @ ys) m"
proof
  fix b
  have l: "unat (of_nat (length xs) :: u64) = length xs" using assms by (intro unat_of_nat_small) simp
  then have u: "unat (a + of_nat (length xs)) = unat a + length xs" using assms by (subst unat_add_no_wrap) simp_all
  have "store_bytes (a + of_nat (length xs)) ys (store_bytes a xs m) b =
      (if unat a + length xs \<le> unat b \<and> unat b < unat a + length xs + length ys then ys ! (unat b - (unat a + length xs))
       else if unat a \<le> unat b \<and> unat b < unat a + length xs then xs ! (unat b - unat a) else m b)"
    using assms by (simp add: store_bytes_at u)
  also have "\<dots> = store_bytes a (xs @ ys) m b"
    using assms by (auto simp: store_bytes_at nth_append)
  finally show "store_bytes (a + of_nat (length xs)) ys (store_bytes a xs m) b = store_bytes a (xs @ ys) m b" .
qed

text \<open>One row of bytes after another.\<close>

lemma row_offset:
  fixes S :: nat
  assumes "0 < S" "a + c \<le> S"
  shows "k * S + a \<le> n \<and> n < k * S + a + c \<longleftrightarrow> n div S = k \<and> a \<le> n mod S \<and> n mod S < a + c"
proof
  assume l: "k * S + a \<le> n \<and> n < k * S + a + c"
  then obtain d where d: "n = k * S + d" "a \<le> d" "d < a + c" by (metis add_less_cancel_left add_le_cancel_left le_add1 le_trans nat_le_iff_add add.assoc)
  then have "d < S" using assms(2) by simp
  with d show "n div S = k \<and> a \<le> n mod S \<and> n mod S < a + c" by simp
next
  assume r: "n div S = k \<and> a \<le> n mod S \<and> n mod S < a + c"
  then have "n = k * S + n mod S" using div_mult_mod_eq [of n S] by simp
  then show "k * S + a \<le> n \<and> n < k * S + a + c" using r by linarith
qed

lemma fold_rows:
  assumes g: "geometry_ok s" and x: "x + w \<le> unat (fbs_width s)" and y: "y + h \<le> unat (fbs_height s * fbs_frames s)"
    and len: "\<And>r. r < h \<Longrightarrow> length (row r) = 3 * w"
  shows "n < vis_len s \<Longrightarrow>
      fold (\<lambda>r. store_bytes (fbs_phys s + of_nat ((y + r) * unat (fbs_stride s) + 3 * x)) (row r)) [0..<h] m (fbs_phys s + of_nat n) =
      (if area (unat (fbs_stride s)) x y w h n then row (n div unat (fbs_stride s) - y) ! (n mod unat (fbs_stride s) - 3 * x)
       else m (fbs_phys s + of_nat n))"
    and "b \<notin> addr_span (fbs_phys s) (vis_len s) \<Longrightarrow>
      fold (\<lambda>r. store_bytes (fbs_phys s + of_nat ((y + r) * unat (fbs_stride s) + 3 * x)) (row r)) [0..<h] m b = m b"
proof -
  let ?S = "unat (fbs_stride s)" and ?p = "fbs_phys s"
  define B where "B r = ?p + of_nat ((y + r) * ?S + 3 * x)" for r
  note gf = geometry_facts [OF g]
  have S: "?S = 3 * unat (fbs_width s)" "unat ?p + unat (fbs_carveout s) + 8192 \<le> 2 ^ 64" using g by (simp_all add: geometry_ok_def)
  have fit: "(y + r) * ?S + 3 * x + 3 * w \<le> vis_len s" if "r < h" for r
  proof -
    have "(y + r) * ?S + (3 * x + 3 * w) \<le> vis_len s"
      unfolding gf(3) using that x y S by (intro row_in_screen) simp_all
    then show ?thesis by simp
  qed
  have base: "unat (B r) = unat ?p + ((y + r) * ?S + 3 * x)" if "r < h" for r
    unfolding B_def using fit [OF that] gf(1) by (intro unat_fb_offset [OF g]) simp
  have at: "store_bytes (B r) (row r) f b =
      (if unat (B r) \<le> unat b \<and> unat b < unat (B r) + 3 * w then row r ! (unat b - unat (B r)) else f b)"
    if "r < h" for r f b
  proof -
    have "unat (B r) + length (row r) \<le> 2 ^ 64"
      unfolding base [OF that] len [OF that] using fit [OF that] gf(1) S(2) by simp
    from store_bytes_at [OF this] show ?thesis unfolding len [OF that] .
  qed
  { fix n assume n: "n < vis_len s"
    have un: "unat (?p + of_nat n) = unat ?p + n" using n gf(1) by (intro unat_fb_offset [OF g]) simp
    have "k \<le> h \<Longrightarrow> fold (\<lambda>r. store_bytes (B r) (row r)) [0..<k] m (?p + of_nat n) =
        (if area ?S x y w k n then row (n div ?S - y) ! (n mod ?S - 3 * x) else m (?p + of_nat n))" for k
    proof (induction k)
      case 0
      have "\<not> area ?S x y w 0 n" by (auto simp: area_def)
      then show ?case by simp
    next
      case (Suc k)
      then have k: "k < h" by simp
      have hit: "unat (B k) \<le> unat ?p + n \<and> unat ?p + n < unat (B k) + 3 * w \<longleftrightarrow>
          n div ?S = y + k \<and> 3 * x \<le> n mod ?S \<and> n mod ?S < 3 * x + 3 * w"
        unfolding base [OF k] using row_offset [of ?S "3 * x" "3 * w" "y + k" n] gf(5) x S by auto
      show ?case
      proof (cases "n div ?S = y + k \<and> 3 * x \<le> n mod ?S \<and> n mod ?S < 3 * x + 3 * w")
        case True
        then have e: "n = (y + k) * ?S + n mod ?S" using div_mult_mod_eq [of n ?S] by simp
        have "unat ?p + n - unat (B k) = n mod ?S - 3 * x" unfolding base [OF k] using e by linarith
        moreover have "area ?S x y w (Suc k) n" using True by (simp add: area_def)
        ultimately show ?thesis using True hit by (simp add: at [OF k] un)
      next
        case False
        then have "area ?S x y w (Suc k) n = area ?S x y w k n" by (auto simp: area_def)
        moreover have "fold (\<lambda>r. store_bytes (B r) (row r)) [0..<Suc k] m (?p + of_nat n) =
            fold (\<lambda>r. store_bytes (B r) (row r)) [0..<k] m (?p + of_nat n)"
          using False unfolding hit [symmetric] by (simp only: upt_Suc_append le0 fold_append comp_apply fold_simps at [OF k] un if_False)
        ultimately show ?thesis using Suc by simp
      qed
    qed
    from this [of h] show "fold (\<lambda>r. store_bytes (?p + of_nat ((y + r) * ?S + 3 * x)) (row r)) [0..<h] m (?p + of_nat n) =
        (if area ?S x y w h n then row (n div ?S - y) ! (n mod ?S - 3 * x) else m (?p + of_nat n))" unfolding B_def by simp }
  assume b: "b \<notin> addr_span ?p (vis_len s)"
  have "k \<le> h \<Longrightarrow> fold (\<lambda>r. store_bytes (B r) (row r)) [0..<k] m b = m b" for k
  proof (induction k)
    case (Suc k)
    then have k: "k < h" by simp
    have "\<not> (unat (B k) \<le> unat b \<and> unat b < unat (B k) + 3 * w)"
    proof
      assume "unat (B k) \<le> unat b \<and> unat b < unat (B k) + 3 * w"
      then have "unat ?p \<le> unat b" "unat b < unat ?p + vis_len s" using fit [OF k] unfolding base [OF k] by linarith+
      with b show False by (simp add: addr_span_def)
    qed
    then show ?case using Suc by (auto simp: at [OF k])
  qed simp
  from this [of h] show "fold (\<lambda>r. store_bytes (?p + of_nat ((y + r) * ?S + 3 * x)) (row r)) [0..<h] m b = m b"
    unfolding B_def by simp
qed

text \<open>Rows of a glyph.\<close>

lemma concat_nth:
  "\<forall>xs\<in>set xss. length xs = L \<Longrightarrow> k < L * length xss \<Longrightarrow> concat xss ! k = xss ! (k div L) ! (k mod L)"
proof (induction xss arbitrary: k)
  case (Cons xs xss)
  have L: "length xs = L" "0 < L" using Cons.prems by (cases L; simp)+
  show ?case
  proof (cases "k < L")
    case True
    then show ?thesis using L by (simp add: nth_append)
  next
    case False
    then have "concat xss ! (k - L) = xss ! ((k - L) div L) ! ((k - L) mod L)"
      using Cons.prems by (intro Cons.IH) auto
    moreover have "k div L = Suc ((k - L) div L)" "(k - L) mod L = k mod L"
      using False L by (simp_all add: le_div_geq le_mod_geq)
    ultimately show ?thesis using False L by (simp add: nth_append)
  qed
qed simp

lemma length_glyph_pattern [simp]: "length (glyph_pattern fg bg b) = 24"
  by (simp add: glyph_pattern_def length_concat color_bytes_def comp_def sum_list_triv)

lemma glyph_bit: "k < 8 \<Longrightarrow> (of_nat (unat v) AND drop_bit k (0x80 :: u32) \<noteq> 0) = bit (v :: u8) (7 - k)"
proof -
  assume k: "k < 8"
  then have "k \<in> {0, 1, 2, 3, 4, 5, 6, 7}" by auto
  then have d: "drop_bit k (0x80 :: u32) = 2 ^ (7 - k)" by auto
  have "(of_nat (unat v) :: u32) = ucast v" by simp
  moreover have "7 - k < 32" by simp
  ultimately show ?thesis unfolding d by (simp add: and_exp_eq_0_iff_not_bit bit_ucast_iff)
qed

lemma glyph_pattern_nth:
  fixes v :: u8
  assumes "k < 24"
  shows "glyph_pattern fg bg (unat v) ! k = color_bytes (if bit v (7 - k div 3) then fg else bg) ! (k mod 3)"
proof -
  have "glyph_pattern fg bg (unat v) ! k =
      map (\<lambda>k. color_bytes (if of_nat (unat v) AND drop_bit k (0x80 :: u32) \<noteq> 0 then fg else bg)) [0..<8] ! (k div 3) ! (k mod 3)"
    unfolding glyph_pattern_def using assms by (intro concat_nth) (auto simp: color_bytes_def)
  moreover have "k div 3 < 8" using assms by simp
  ultimately show ?thesis using glyph_bit [of "k div 3" v] by simp
qed

lemma blit_row_store:
  assumes "\<forall>b\<in>set bs. length (pat ! unat b) = 24" "3 * unat rem < 2 ^ 32" "unat dst + 3 * unat rem < 2 ^ 64"
    "unat rem \<le> 8 * length bs"
  shows "blit_row pat bs rem dst m = store_bytes dst (take (3 * unat rem) (concat (map (\<lambda>b. pat ! unat b) bs))) m"
  using assms
proof (induction bs arbitrary: rem dst m)
  case (Cons b bs)
  let ?px = "min rem 8" and ?p = "pat ! unat b"
  have px: "unat ?px = min (unat rem) 8" by (simp add: unat_min_max)
  have l: "length ?p = 24" using Cons.prems(1) by simp
  have n3: "unat (ucast ?px * 3 :: u64) = 3 * unat ?px"
  proof -
    have "(ucast ?px * 3 :: u64) = of_nat (3 * unat ?px)" unfolding ucast_up_of_nat by simp
    moreover have "unat (of_nat (3 * unat ?px) :: u64) = 3 * unat ?px" unfolding px by (intro unat_of_nat_small) simp
    ultimately show ?thesis by (rule trans [OF arg_cong])
  qed
  have d: "(ucast (?px * 3) :: u64) = of_nat (3 * unat ?px)"
  proof -
    have "unat (?px * 3) = 3 * unat ?px" using px by (simp add: unat_word_ariths)
    then show ?thesis unfolding ucast_up_of_nat by simp
  qed
  have rest: "unat (rem - ?px) = unat rem - unat ?px" by (intro unat_diff_le) simp
  have sum: "3 * unat ?px + 3 * unat (rem - ?px) = 3 * unat rem" unfolding rest px by simp
  let ?hd = "take (3 * unat ?px) ?p" and ?tl = "take (3 * unat (rem - ?px)) (concat (map (\<lambda>b. pat ! unat b) bs))"
  have hd: "length ?hd = 3 * unat ?px" using l px by simp
  have "unat (of_nat (3 * unat ?px) :: u64) = 3 * unat ?px" using px by (intro unat_of_nat_small) simp
  then have ud: "unat (dst + of_nat (3 * unat ?px)) = unat dst + 3 * unat ?px"
    using Cons.prems(3) px by (subst unat_add_no_wrap) simp_all
  have "blit_row pat (b # bs) rem dst m = blit_row pat bs (rem - ?px) (dst + of_nat (3 * unat ?px)) (store_bytes dst ?hd m)"
    by (simp only: blit_row.simps Let_def d n3)
  also have "\<dots> = store_bytes (dst + of_nat (3 * unat ?px)) ?tl (store_bytes dst ?hd m)"
  proof (rule Cons.IH)
    show "unat (dst + of_nat (3 * unat ?px)) + 3 * unat (rem - ?px) < 2 ^ 64"
      unfolding ud using sum Cons.prems(3) by linarith
    show "unat (rem - ?px) \<le> 8 * length bs" using Cons.prems(4) px rest by (auto simp: min_def split: if_splits)
  qed (use Cons.prems(1,2) sum in auto)
  also have "\<dots> = store_bytes dst (?hd @ ?tl) m"
    using Cons.prems(3) sum store_bytes_append [of dst ?hd ?tl m] unfolding hd by simp
  also have "?hd @ ?tl = take (3 * unat rem) (concat (map (\<lambda>b. pat ! unat b) (b # bs)))"
    using l px rest by (cases "unat rem \<le> 8") (simp_all add: diff_mult_distrib2)
  finally show ?case .
qed simp

text \<open>The two fast paths.\<close>

lemma fb_row_address:
  assumes "geometry_ok s" "unat y + unat h \<le> unat (fbs_height s * fbs_frames s)" "r < unat h"
  shows "fbs_phys s + ucast (y + of_nat r :: u32) * ucast (fbs_stride s) + ucast (x :: u32) * 3 =
    fbs_phys s + of_nat ((unat y + r) * unat (fbs_stride s) + 3 * unat x)"
proof -
  have "unat y + unat h < 2 ^ 32" using assms(2) unsigned_less [of "fbs_height s * fbs_frames s", where 'a = nat] by simp
  then have "unat (y + of_nat r) = unat y + r"
    using assms(3) unat_of_nat_small [of r, where 'a = 32] by (subst unat_add_no_wrap) simp_all
  then show ?thesis unfolding ucast_up_of_nat by (simp add: mult.commute)
qed

lemma inside_draw: "inside (s\<lparr>fbs_glyph := g, fbs_cpu := m\<rparr>) x y w h = inside s x y w h"
  by (simp add: inside_def)

lemma draw_inv:
  assumes inv: "fb_inv s oj P" and g: "glyph_ok g" and ins: "inside s x y w h"
    and m: "\<And>n. n < vis_len s \<Longrightarrow> \<not> area (unat (fbs_stride s)) (unat x) (unat y) (unat w) (unat h) n \<Longrightarrow>
      m (fbs_phys s + of_nat n) = fbs_cpu s (fbs_phys s + of_nat n)"
  shows "\<exists>s'. soct_dp_fb_damage_area dying x y w h (s\<lparr>fbs_glyph := g, fbs_cpu := m\<rparr>) = Some s' \<and> fb_inv s' oj P \<and> fbs_cpu s' = m"
proof -
  let ?s = "s\<lparr>fbs_glyph := g, fbs_cpu := m\<rparr>"
  have k: "geometry_ok ?s = geometry_ok s" "rect_ok ?s = rect_ok s" "job_ok ?s oj = job_ok s oj" "vis_len ?s = vis_len s"
    "\<And>n. covered ?s oj P n = covered s oj P n"
    by (cases oj; simp add: geometry_ok_def rect_ok_def vis_len_def covered_def in_dirty_def)+
  have "stale s n" if "n < vis_len s" "stale ?s n"
      "\<not> area (unat (fbs_stride s)) (unat x) (unat y) (unat w) (unat h) n" for n
    using that m [OF that(1,3)] by (simp add: stale_def)
  then have "covered ?s oj P n \<or> area (unat (fbs_stride s)) (unat x) (unat y) (unat w) (unat h) n"
    if "fbs_mode s \<noteq> no_mode" "n < vis_len s" "stale ?s n" for n
    using inv that by (auto simp: k fb_inv_def all_covered_def)
  then have "\<exists>s'. soct_dp_fb_damage_area dying x y w h ?s = Some s' \<and> fb_inv s' oj P \<and> fbs_cpu s' = fbs_cpu ?s"
    using inv g ins by (intro damage_inv) (auto simp: fb_inv_def k inside_draw)
  then show ?thesis by simp
qed

lemma glyph_fill_ok:
  assumes "glyph_ok g"
  shows "glyph_ok (glyph_fill fg bg g)" and "gl_pat (glyph_fill fg bg g) = map (glyph_pattern fg bg) [0..<256]"
  using assms by (auto simp: glyph_fill_def glyph_ok_def)

definition image_row :: "u32 \<Rightarrow> u32 \<Rightarrow> fb_image \<Rightarrow> nat \<Rightarrow> u8 list" where
  "image_row fg bg im r = take (3 * unat (im_width im))
     (concat (map (\<lambda>b. glyph_pattern fg bg (unat b)) (take (image_pitch im) (drop (r * image_pitch im) (im_data im)))))"

lemma image_row_nth:
  assumes data: "image_pitch im * unat (im_height im) \<le> length (im_data im)" and r: "r < unat (im_height im)"
  shows "length (image_row fg bg im r) = 3 * unat (im_width im)"
    and "k < 3 * unat (im_width im) \<Longrightarrow> image_row fg bg im r ! k =
      color_bytes (if bit (im_data im ! (r * image_pitch im + k div 3 div 8)) (7 - k div 3 mod 8) then fg else bg) ! (k mod 3)"
proof -
  let ?sp = "image_pitch im" let ?src = "take ?sp (drop (r * ?sp) (im_data im))"
  have "Suc r * ?sp \<le> unat (im_height im) * ?sp" using r by (intro mult_le_mono1) simp
  then have e: "r * ?sp + ?sp \<le> length (im_data im)" using data by (simp add: mult.commute)
  then have "?sp \<le> length (im_data im) - r * ?sp" by linarith
  then have l: "length ?src = ?sp" unfolding length_take length_drop by (rule min_absorb2)
  have w: "3 * unat (im_width im) \<le> 24 * ?sp" unfolding image_pitch_def by linarith
  have c: "length (concat (map (\<lambda>b. glyph_pattern fg bg (unat b)) ?src)) = 24 * ?sp"
    by (simp add: length_concat comp_def sum_list_triv l [unfolded length_take length_drop])
  then show "length (image_row fg bg im r) = 3 * unat (im_width im)" using w by (simp add: image_row_def)
  assume k: "k < 3 * unat (im_width im)"
  then have kk: "k < 24 * ?sp" using w by simp
  then have i: "k div 24 < ?sp" by (simp add: less_mult_imp_div_less mult.commute)
  have "image_row fg bg im r ! k = concat (map (\<lambda>b. glyph_pattern fg bg (unat b)) ?src) ! k"
    using k by (simp add: image_row_def)
  also have "\<dots> = map (\<lambda>b. glyph_pattern fg bg (unat b)) ?src ! (k div 24) ! (k mod 24)"
    using kk l by (intro concat_nth) auto
  also have "\<dots> = glyph_pattern fg bg (unat (im_data im ! (r * ?sp + k div 24))) ! (k mod 24)"
    using i e by simp
  also have "\<dots> = color_bytes (if bit (im_data im ! (r * ?sp + k div 24)) (7 - k mod 24 div 3) then fg else bg) ! (k mod 24 mod 3)"
    by (intro glyph_pattern_nth) simp
  also have "k div 24 = k div 3 div 8" by (simp add: div_mult2_eq [symmetric])
  also have "k mod 24 div 3 = k div 3 mod 8" using mod_mult2_eq [of k 3 8] by simp
  also have "k mod 24 mod 3 = k mod 3" by (simp add: mod_mod_cancel)
  finally show "image_row fg bg im r ! k =
      color_bytes (if bit (im_data im ! (r * ?sp + k div 3 div 8)) (7 - k div 3 mod 8) then fg else bg) ! (k mod 3)" .
qed

lemma imageblit_result:
  assumes inv: "fb_inv s oj P" and d: "im_depth im = 1" and ins: "inside s (im_dx im) (im_dy im) (im_width im) (im_height im)"
    and data: "image_pitch im * unat (im_height im) \<le> length (im_data im)"
  shows "\<exists>s'. soct_dp_fb_imageblit cfb dying im s = Some s' \<and> fb_inv s' oj P \<and>
    fbs_cpu s' = fold (\<lambda>r. store_bytes (fbs_phys s + of_nat ((unat (im_dy im) + r) * unat (fbs_stride s) + 3 * unat (im_dx im)))
      (image_row (fbs_palette s ! unat (im_fg im)) (fbs_palette s ! unat (im_bg im)) im r)) [0..<unat (im_height im)] (fbs_cpu s)"
proof -
  let ?fg = "fbs_palette s ! unat (im_fg im)" and ?bg = "fbs_palette s ! unat (im_bg im)"
  let ?g = "glyph_fill ?fg ?bg (fbs_glyph s)" and ?sp = "(im_width im + 7) div 8"
  let ?base = "\<lambda>r. fbs_phys s + of_nat ((unat (im_dy im) + r) * unat (fbs_stride s) + 3 * unat (im_dx im))"
  have g: "geometry_ok s" and gl: "glyph_ok (fbs_glyph s)" using inv by (simp_all add: fb_inv_def)
  note gf = geometry_facts [OF g]
  have S: "unat (fbs_stride s) = 3 * unat (fbs_width s)" "unat (fbs_stride s) < 2 ^ 32"
      "unat (fbs_phys s) + unat (fbs_carveout s) + 8192 \<le> 2 ^ 64"
    using g unsigned_less [of "fbs_stride s", where 'a = nat] by (simp_all add: geometry_ok_def)
  have x: "unat (im_dx im) + unat (im_width im) \<le> unat (fbs_width s)"
    and y: "unat (im_dy im) + unat (im_height im) \<le> unat (fbs_height s * fbs_frames s)"
    using ins by (simp_all add: inside_def)
  have "unat (im_width im + 7) = unat (im_width im) + 7" using x S by (subst unat_add_no_wrap) simp_all
  then have sp: "unat ?sp = image_pitch im" by (simp add: unat_div image_pitch_def)
  note pat = glyph_fill_ok [OF gl, of ?fg ?bg]
  have row: "blit_row (gl_pat ?g) (take (unat ?sp) (drop (r * unat ?sp) (im_data im))) (im_width im) (blit_dst s im r) =
      store_bytes (?base r) (image_row ?fg ?bg im r)" if r: "r < unat (im_height im)" for r
  proof
    fix f
    let ?src = "take (image_pitch im) (drop (r * image_pitch im) (im_data im))"
    have b: "unat b < 256" for b :: u8 using unsigned_less [of b, where 'a = nat] by simp
    have dst: "blit_dst s im r = ?base r" unfolding blit_dst_def by (rule fb_row_address [OF g y r])
    have "(unat (im_dy im) + r) * unat (fbs_stride s) + (3 * unat (im_dx im) + 3 * unat (im_width im)) \<le> vis_len s"
      unfolding gf(3) using r x y S by (intro row_in_screen) simp_all
    then have fit: "(unat (im_dy im) + r) * unat (fbs_stride s) + 3 * unat (im_dx im) + 3 * unat (im_width im) \<le> unat (fbs_carveout s)"
      using gf(1) by simp
    have ub: "unat (?base r) = unat (fbs_phys s) + ((unat (im_dy im) + r) * unat (fbs_stride s) + 3 * unat (im_dx im))"
      using fit by (intro unat_fb_offset [OF g]) simp
    have "Suc r * image_pitch im \<le> unat (im_height im) * image_pitch im" using r by (intro mult_le_mono1) simp
    then have l: "length ?src = image_pitch im" using data by (simp add: mult.commute)
    have "blit_row (gl_pat ?g) ?src (im_width im) (?base r) f =
        store_bytes (?base r) (take (3 * unat (im_width im)) (concat (map (\<lambda>b. gl_pat ?g ! unat b) ?src))) f"
    proof (rule blit_row_store)
      show "unat (?base r) + 3 * unat (im_width im) < 2 ^ 64" unfolding ub using fit S(3) by linarith
      show "3 * unat (im_width im) < 2 ^ 32" using x S by linarith
      have "unat (im_width im) \<le> 8 * image_pitch im" unfolding image_pitch_def by linarith
      then show "unat (im_width im) \<le> 8 * length ?src" by (simp only: l)
    qed (simp add: pat(2) b)
    then show "blit_row (gl_pat ?g) (take (unat ?sp) (drop (r * unat ?sp) (im_data im))) (im_width im) (blit_dst s im r) f =
        store_bytes (?base r) (image_row ?fg ?bg im r) f"
      unfolding dst sp image_row_def by (simp add: pat(2) b)
  qed
  let ?m = "fold (\<lambda>r. store_bytes (?base r) (image_row ?fg ?bg im r)) [0..<unat (im_height im)] (fbs_cpu s)"
  have "fold (\<lambda>r. blit_row (gl_pat ?g) (take (unat ?sp) (drop (r * unat ?sp) (im_data im))) (im_width im) (blit_dst s im r))
      [0..<unat (im_height im)] (fbs_cpu s) = ?m"
    by (intro fold_cong refl row) simp
  then have e: "soct_dp_fb_imageblit cfb dying im s =
      soct_dp_fb_damage_area dying (im_dx im) (im_dy im) (im_width im) (im_height im) (s\<lparr>fbs_glyph := ?g, fbs_cpu := ?m\<rparr>)"
    using d by (simp add: soct_dp_fb_imageblit_def Let_def)
  have m: "?m (fbs_phys s + of_nat n) = fbs_cpu s (fbs_phys s + of_nat n)"
    if "n < vis_len s" "\<not> area (unat (fbs_stride s)) (unat (im_dx im)) (unat (im_dy im)) (unat (im_width im)) (unat (im_height im)) n" for n
    using fold_rows(1) [OF g x y image_row_nth(1) [OF data] that(1)] that(2) by simp
  from draw_inv [OF inv pat(1) ins m] show ?thesis unfolding e by simp
qed

end
