(* ===== verification/Linux_Fb_Inv.thy ===== *)
theory Linux_Fb_Inv
  imports Linux_Fb
begin

text \<open>
  The framebuffer device at work: its operations, the delayed worker row by row, cache evictions,
  stores through user mappings and mode changes, interleaved, and what the monitor shows meanwhile.
  The handlers themselves run one at a time, as the locks of the framebuffer core and of the console
  make them, and each is one step for the worker, which goes row by row.
\<close>

section \<open>Definitions\<close>

text \<open>What the kernel's drawing helpers promise: they touch only the area they were given.\<close>

definition cfb_draws :: "fb_state \<Rightarrow> u32 \<Rightarrow> u32 \<Rightarrow> u32 \<Rightarrow> u32 \<Rightarrow> ((u64 \<Rightarrow> u8) \<Rightarrow> u64 \<Rightarrow> u8) \<Rightarrow> bool" where
  "cfb_draws s x y w h cfb \<longleftrightarrow>
     (\<forall>m. \<forall>n < vis_len s. \<not> area (unat (fbs_stride s)) (unat x) (unat y) (unat w) (unat h) n \<longrightarrow>
        cfb m (fbs_phys s + of_nat n) = m (fbs_phys s + of_nat n))"

text \<open>What \<open>fb_set_var\<close> of the framebuffer core checks before it calls the driver.\<close>

definition var_sane :: "fb_var_screeninfo \<Rightarrow> bool" where
  "var_sane v \<longleftrightarrow> 8 \<le> unat (xres v) \<and> 8 \<le> unat (yres v) \<and> unat (xres v) * unat (yres v) < 2 ^ 32"

definition image_ok :: "fb_state \<Rightarrow> fb_image \<Rightarrow> bool" where
  "image_ok s im \<longleftrightarrow> inside s (im_dx im) (im_dy im) (im_width im) (im_height im) \<and>
     image_pitch im * unat (im_height im) \<le> length (im_data im)"

text \<open>
  A configuration is the device, the job of the running worker, the pages deferred I/O tracks, and the
  bytes that writes have stored which then faulted: \<open>soct_dp_fb_write\<close> returns without recording those.
\<close>

type_synonym fb_conf = "fb_state \<times> flush_job option \<times> fb_track"

inductive fb_step :: "fb_conf \<Rightarrow> fb_conf \<Rightarrow> bool" where
  Write: "soct_dp_fb_write dying data count pos s = Some (r, pos', s') \<Longrightarrow> r \<noteq> Inl Fb_EFAULT \<Longrightarrow>
    fb_step (s, oj, P) (s', oj, P)"
| Write_fault: "soct_dp_fb_write dying data count pos s = Some (Inl Fb_EFAULT, pos', s') \<Longrightarrow>
    fb_step (s, oj, P, L) (s', oj, P, L \<union> {n. unat pos \<le> n \<and> n < unat pos + length data})"
| Copyarea: "inside s x y w h \<Longrightarrow> cfb_draws s x y w h cfb \<Longrightarrow> soct_dp_fb_defio cfb dying x y w h s = Some s' \<Longrightarrow>
    fb_step (s, oj, P) (s', oj, P)"
| Imageblit: "image_ok s im \<Longrightarrow> cfb_draws s (im_dx im) (im_dy im) (im_width im) (im_height im) cfb \<Longrightarrow>
    soct_dp_fb_imageblit cfb dying im s = Some s' \<Longrightarrow> fb_step (s, oj, P) (s', oj, P)"
| Fillrect: "inside s (fr_dx f) (fr_dy f) (fr_width f) (fr_height f) \<Longrightarrow>
    cfb_draws s (fr_dx f) (fr_dy f) (fr_width f) (fr_height f) cfb \<Longrightarrow>
    soct_dp_fb_fillrect cfb dying f s = Some s' \<Longrightarrow> fb_step (s, oj, P) (s', oj, P)"
| Setcolreg: "fb_step (s, oj, P) (snd (soct_dp_fb_setcolreg regno r g b s), oj, P)"
| Pan: "fb_step (s, oj, P) (snd (soct_dp_fb_pan_display v s), oj, P)"
| Work_take: "fbs_queued s \<Longrightarrow> flush_take (s\<lparr>fbs_queued := False\<rparr>) = (j, s') \<Longrightarrow> fb_step (s, None, P) (s', Some j, P)"
| Work: "flush_work_step j s = Some (oj', s') \<Longrightarrow> fb_step (s, Some j, P) (s', oj', P)"
| Evict: "fb_step (s, oj, P) (flush_line a s, oj, P)"
| User_store: "fbs_mmap_ok s \<Longrightarrow> off < ucast (fbs_smem_len s) \<Longrightarrow>
    fb_step (s, oj, P, L) (s\<lparr>fbs_cpu := (fbs_cpu s)(fbs_phys s + off := v)\<rparr>, oj, (off AND NOT 4095) # P, L)"
| Deferred_io: "set Q = set P \<Longrightarrow> soct_dp_fb_deferred_io Q s = Some s' \<Longrightarrow> fb_step (s, oj, P, L) (s', oj, [], L)"
| Set_var: "var_sane v \<Longrightarrow> soct_dp_fb_check_var s v = Inr v' \<Longrightarrow>
    soct_dp_fb_set_par E (s\<lparr>fbs_var := v'\<rparr>) = Some (r, s') \<Longrightarrow>
    fb_step (s, None, P) (if r = None then s' else s'\<lparr>fbs_var := fbs_var s\<rparr>, None, P)"

text \<open>
  A device that was just prepared and registered, on a carve-out below 4 GiB in size, from the zeroed
  state of the module and the mode the pipeline has.
\<close>

definition fresh_module :: "fb_state \<Rightarrow> bool" where
  "fresh_module z \<longleftrightarrow> \<not> fbs_dirty z \<and> \<not> fbs_park_req z \<and> \<not> gl_valid (fbs_glyph z)"

definition carveout_ok :: "u64 \<Rightarrow> u64 \<Rightarrow> soct_dp_mode \<Rightarrow> bool" where
  "carveout_ok fb fb_size m \<longleftrightarrow> unat fb_size < 2 ^ 32 \<and> unat fb + unat fb_size + 8192 \<le> 2 ^ 64 \<and>
     hactive m \<noteq> 0 \<and> vactive m \<noteq> 0 \<and> unat (hactive m) * unat (vactive m) < 2 ^ 30"

inductive fb_reach :: "fb_conf \<Rightarrow> bool" where
  Init: "fresh_module z \<Longrightarrow> budget_ok (fbs_dp z) \<Longrightarrow> carveout_ok fb fb_size (dp_cur (fbs_dp z)) \<Longrightarrow>
    soct_dp_fb_prepare True True True pages fb fb_size (dp_cur (fbs_dp z)) z = Some (None, s1) \<Longrightarrow>
    soct_dp_fb_register True defio_ok True v0 s1 = (None, s) \<Longrightarrow> fb_reach (s, None, [], {})"
| Step: "fb_reach c \<Longrightarrow> fb_step c c' \<Longrightarrow> fb_reach c'"

text \<open>
  A running worker, with the offsets of the bytes whose drawn value has changed since it took the
  damage.
\<close>

inductive fb_running :: "fb_conf \<Rightarrow> nat set \<Rightarrow> bool" where
  Took: "fb_reach (s, None, P) \<Longrightarrow> fbs_queued s \<Longrightarrow> flush_take (s\<lparr>fbs_queued := False\<rparr>) = (j, s') \<Longrightarrow>
    fb_running (s', Some j, P) {}"
| Goes_on: "fb_running (s, Some j, P) R \<Longrightarrow> fb_step (s, Some j, P) (s', Some j', P') \<Longrightarrow>
    fb_running (s', Some j', P') (R \<union> {n. fbs_cpu s' (fbs_phys s + of_nat n) \<noteq> fbs_cpu s (fbs_phys s + of_nat n)})"

text \<open>Memory changes only by write-backs of what was drawn, and the screen stays where it is.\<close>

definition settles :: "fb_state \<Rightarrow> fb_state \<Rightarrow> bool" where
  "settles s s' \<longleftrightarrow> fbs_phys s' = fbs_phys s \<and> fbs_stride s' = fbs_stride s \<and> vis_len s' = vis_len s \<and> fbs_mode s' = fbs_mode s \<and>
     (\<forall>b. fbs_dram s' b = fbs_dram s b \<or> fbs_dram s' b = fbs_cpu s' b)"

text \<open>A 1080p console on a carve-out that holds two frames.\<close>

definition demo_var :: fb_var_screeninfo where
  "demo_var = \<lparr>xres = 0, yres = 0, xres_virtual = 0, yres_virtual = 0, xoffset = 0, yoffset = 1080, bits_per_pixel = 0,
     grayscale = 0, v_red = rgb_field 0, v_green = rgb_field 0, v_blue = rgb_field 0, v_transp = rgb_field 0, nonstd = 0,
     v_activate = 0, v_height = 0, v_width = 0, pixclock = 0, left_margin = 0, right_margin = 0, upper_margin = 0,
     lower_margin = 0, v_hsync_len = 0, v_vsync_len = 0, v_sync = 0, v_vmode = 0\<rparr>"

definition demo_fbdev :: fb_state where
  "demo_fbdev = \<lparr>fbs_info = False, fbs_l2 = False, fbs_virt = False, fbs_phys = 0, fbs_carveout = 0, fbs_mode = no_mode,
     fbs_width = 0, fbs_height = 0, fbs_stride = 0, fbs_frames = 0, fbs_mmap_ok = False, fbs_defio_size = 0,
     fbs_dirty = False, fbs_x0 = 0, fbs_y0 = 0, fbs_x1 = 0, fbs_y1 = 0, fbs_park_req = False, fbs_park_frame = 0,
     fbs_queued = False, fbs_palette = [0, 0xABCDEF] @ replicate 14 0,
     fbs_glyph = \<lparr>gl_fg = 0, gl_bg = 0, gl_valid = False, gl_pat = []\<rparr>, fbs_var = demo_var, fbs_line_length = 0,
     fbs_smem_len = 0, fbs_ypanstep = 0, fbs_cpu = (\<lambda>_. 1), fbs_dram = (\<lambda>_. 2), fbs_dp = demo_dp\<lparr>dp_cur := mode_1080p\<rparr>\<rparr>"

definition demo_glyph :: fb_image where
  "demo_glyph = \<lparr>im_dx = 16, im_dy = 1, im_width = 8, im_height = 1, im_fg = 1, im_bg = 0, im_depth = 1, im_data = [0x40]\<rparr>"

section \<open>Lemmas\<close>

subsection \<open>Drawing operations\<close>

lemma defio_inv:
  assumes "fb_inv s oj P" "inside s x y w h" "cfb_draws s x y w h cfb"
  shows "\<exists>s'. soct_dp_fb_defio cfb dying x y w h s = Some s' \<and> fb_inv s' oj P"
proof -
  have "glyph_ok (fbs_glyph s)" using assms(1) by (simp add: fb_inv_def)
  from draw_inv [OF assms(1) this assms(2), where m = "cfb (fbs_cpu s)" and dying = dying] show ?thesis
    using assms(3) by (auto simp: soct_dp_fb_defio_def cfb_draws_def)
qed

lemma imageblit_inv:
  assumes "fb_inv s oj P" "image_ok s im" "cfb_draws s (im_dx im) (im_dy im) (im_width im) (im_height im) cfb"
  shows "\<exists>s'. soct_dp_fb_imageblit cfb dying im s = Some s' \<and> fb_inv s' oj P"
proof (cases "im_depth im = 1")
  case True
  then show ?thesis using imageblit_result [OF assms(1) True, of cfb dying] assms(2) by (auto simp: image_ok_def)
next
  case False
  then have "soct_dp_fb_imageblit cfb dying im s = soct_dp_fb_defio cfb dying (im_dx im) (im_dy im) (im_width im) (im_height im) s"
    by (simp add: soct_dp_fb_imageblit_def Let_def)
  then show ?thesis using defio_inv [OF assms(1) _ assms(3)] assms(2) by (simp add: image_ok_def)
qed

definition solid :: "u32 \<Rightarrow> bool" where
  "solid c \<longleftrightarrow> drop_bit 8 c AND 0xFF = c AND 0xFF \<and> drop_bit 16 c AND 0xFF = c AND 0xFF"

lemma low_byte: "(ucast (ucast (c AND 0xFF) :: u8) :: u32) = c AND 0xFF"
proof -
  have e: "(0xFF :: u32) = mask 8" by (simp add: mask_eq_exp_minus_1)
  show ?thesis unfolding e by (intro bit_word_eqI) (auto simp: bit_simps)
qed

lemma fillrect_result:
  assumes inv: "fb_inv s oj P" and ins: "inside s (fr_dx f) (fr_dy f) (fr_width f) (fr_height f)"
    and fast: "fr_rop f = 0" "solid (fbs_palette s ! unat (fr_color f))"
  shows "\<exists>s'. soct_dp_fb_fillrect cfb dying f s = Some s' \<and> fb_inv s' oj P \<and>
    fbs_cpu s' = fold (\<lambda>r. store_bytes (fbs_phys s + of_nat ((unat (fr_dy f) + r) * unat (fbs_stride s) + 3 * unat (fr_dx f)))
      (replicate (3 * unat (fr_width f)) (ucast (fbs_palette s ! unat (fr_color f) AND 0xFF)))) [0..<unat (fr_height f)] (fbs_cpu s)"
proof -
  let ?c = "fbs_palette s ! unat (fr_color f)" let ?b = "ucast (?c AND 0xFF) :: u8"
  let ?base = "\<lambda>r. fbs_phys s + of_nat ((unat (fr_dy f) + r) * unat (fbs_stride s) + 3 * unat (fr_dx f))"
  have g: "geometry_ok s" and gl: "glyph_ok (fbs_glyph s)" using inv by (simp_all add: fb_inv_def)
  have x: "unat (fr_dx f) + unat (fr_width f) \<le> unat (fbs_width s)"
    and y: "unat (fr_dy f) + unat (fr_height f) \<le> unat (fbs_height s * fbs_frames s)"
    using ins by (simp_all add: inside_def)
  have len: "unat (ucast (fr_width f) * 3 :: u64) = 3 * unat (fr_width f)"
  proof -
    have "(ucast (fr_width f) * 3 :: u64) = of_nat (3 * unat (fr_width f))" unfolding ucast_up_of_nat by simp
    moreover have "unat (of_nat (3 * unat (fr_width f)) :: u64) = 3 * unat (fr_width f)"
      using unsigned_less [of "fr_width f", where 'a = nat] by (intro unat_of_nat_small) simp
    ultimately show ?thesis by (rule trans [OF arg_cong])
  qed
  let ?m = "fold (\<lambda>r. store_bytes (?base r) (replicate (3 * unat (fr_width f)) ?b)) [0..<unat (fr_height f)] (fbs_cpu s)"
  have "fold (\<lambda>r. store_bytes (fbs_phys s + ucast (fr_dy f + of_nat r) * ucast (fbs_stride s) + ucast (fr_dx f) * 3)
      (replicate (unat (ucast (fr_width f) * 3 :: u64)) ?b)) [0..<unat (fr_height f)] (fbs_cpu s) = ?m"
    unfolding len by (intro fold_cong refl arg_cong2 [where f = store_bytes] fb_row_address [OF g y]) simp
  then have e: "soct_dp_fb_fillrect cfb dying f s =
      soct_dp_fb_damage_area dying (fr_dx f) (fr_dy f) (fr_width f) (fr_height f) (s\<lparr>fbs_cpu := ?m\<rparr>)"
    using fast by (simp add: soct_dp_fb_fillrect_def Let_def solid_def low_byte)
  have m: "?m (fbs_phys s + of_nat n) = fbs_cpu s (fbs_phys s + of_nat n)"
    if "n < vis_len s" "\<not> area (unat (fbs_stride s)) (unat (fr_dx f)) (unat (fr_dy f)) (unat (fr_width f)) (unat (fr_height f)) n" for n
    using fold_rows(1) [OF g x y _ that(1), of "\<lambda>_. replicate (3 * unat (fr_width f)) ?b"] that(2) by simp
  from draw_inv [OF inv gl ins m] show ?thesis unfolding e by simp
qed

lemma fillrect_inv:
  assumes "fb_inv s oj P" "inside s (fr_dx f) (fr_dy f) (fr_width f) (fr_height f)"
    "cfb_draws s (fr_dx f) (fr_dy f) (fr_width f) (fr_height f) cfb"
  shows "\<exists>s'. soct_dp_fb_fillrect cfb dying f s = Some s' \<and> fb_inv s' oj P"
proof (cases "fr_rop f = 0 \<and> solid (fbs_palette s ! unat (fr_color f))")
  case True
  then show ?thesis using fillrect_result [OF assms(1,2), of cfb dying] by blast
next
  case False
  then have "soct_dp_fb_fillrect cfb dying f s = soct_dp_fb_defio cfb dying (fr_dx f) (fr_dy f) (fr_width f) (fr_height f) s"
    unfolding soct_dp_fb_fillrect_def Let_def solid_def low_byte by (subst if_P) auto
  then show ?thesis using defio_inv [OF assms] by simp
qed

lemma write_inv:
  assumes inv: "fb_inv s oj P" and w: "soct_dp_fb_write dying data count pos s = Some (r, pos', s')" "r \<noteq> Inl Fb_EFAULT"
  shows "fb_inv s' oj P"
proof -
  let ?t = "ucast (fbs_smem_len s) :: u64"
  have g: "geometry_ok s" and gl: "glyph_ok (fbs_glyph s)" and sm: "unat (fbs_smem_len s) = vis_len s"
    using inv by (simp_all add: fb_inv_def)
  note gf = geometry_facts [OF g]
  let ?S = "unat (fbs_stride s)"
  define c where "c = (if count > ?t - pos then ?t - pos else count)"
  have e: "soct_dp_fb_write dying data count pos s =
      (if sint pos < 0 \<or> ?t < pos then Some (Inl Fb_EFBIG, pos, s)
       else if c = 0 then Some (Inl Fb_ENOSPC, pos, s)
       else let s = s\<lparr>fbs_cpu := store_bytes (fbs_phys s + pos) (take (unat c) data) (fbs_cpu s)\<rparr>
         in if length data < unat c then Some (Inl Fb_EFAULT, pos, s)
            else map_option (\<lambda>s. (Inr c, pos + c, s)) (soct_dp_fb_damage_range dying pos c s))"
    unfolding soct_dp_fb_write_def Let_def c_def ..
  show ?thesis
  proof (cases "sint pos < 0 \<or> ?t < pos \<or> c = 0")
    case True
    then show ?thesis using w inv by (auto simp: e split: if_splits)
  next
    case False
    then have pos: "pos \<le> ?t" "c \<noteq> 0" by auto
    have t: "unat ?t = vis_len s" unfolding sm [symmetric] by (simp add: unat_ucast_up)
    have "c \<le> ?t - pos" by (auto simp: c_def not_less)
    then have pc: "unat pos + unat c \<le> vis_len s" "0 < unat c"
      using pos by (simp_all add: word_le_nat_alt unat_diff_le t unat_gt_0)
    let ?m = "store_bytes (fbs_phys s + pos) (take (unat c) data) (fbs_cpu s)"
    have full: "\<not> length data < unat c" and dam: "\<exists>s0. soct_dp_fb_damage_range dying pos c (s\<lparr>fbs_cpu := ?m\<rparr>) = Some s0 \<and> s' = s0"
      using False w by (auto simp: e Let_def split: if_splits)
    have bound: "vis_len s < 2 ^ 32" "unat (fbs_phys s) + vis_len s < 2 ^ 64" using gf(1) g by (simp_all add: geometry_ok_def)
    have un: "unat (pos + c) = unat pos + unat c" using pc bound by (intro unat_add_no_wrap) simp
    have "1 \<le> pos + c" using pc un by (simp add: word_le_nat_alt)
    from unat_diff_le [OF this] have ul: "unat (pos + c - 1) = unat pos + unat c - 1" by (simp add: un)
    let ?y0 = "unat pos div ?S" and ?y1 = "(unat pos + unat c - 1) div ?S"
    have S64: "unat (ucast (fbs_stride s) :: u64) = ?S" by (simp add: unat_ucast_up)
    have row: "unat (ucast (a div ucast (fbs_stride s) :: u64) :: u32) = unat a div ?S" if "unat a < 2 ^ 32" for a :: u64
    proof -
      have "unat a div ?S < 2 ^ 32" using that by (rule le_less_trans [OF div_le_dividend])
      then show ?thesis unfolding unat_ucast_down unat_div S64 by simp
    qed
    have y: "unat (ucast (pos div ucast (fbs_stride s)) :: u32) = ?y0"
        "unat (ucast ((pos + c - 1) div ucast (fbs_stride s)) :: u32) = ?y1"
      using row [of pos] row [of "pos + c - 1"] pc bound unfolding ul by auto
    let ?a = "ucast (pos div ucast (fbs_stride s)) :: u32" and ?b = "ucast ((pos + c - 1) div ucast (fbs_stride s)) :: u32"
    have le: "?y0 \<le> ?y1" using pc by (intro div_le_mono) simp
    then have ab: "?a \<le> ?b" unfolding word_le_nat_alt y .
    have y1: "?y1 < unat (fbs_height s * fbs_frames s)"
    proof -
      have "unat pos + unat c - 1 < unat (fbs_height s * fbs_frames s) * ?S" using pc gf(3) by (simp add: mult.commute)
      then show ?thesis by (rule less_mult_imp_div_less)
    qed
    have h: "unat (?b - ?a + 1) = ?y1 - ?y0 + 1"
      using unat_diff_le [OF ab] y1 unsigned_less [of "fbs_height s * fbs_frames s", where 'a = nat] unfolding y
      by (subst unat_add_no_wrap) simp_all
    have ins: "inside s 0 ?a (fbs_width s) (?b - ?a + 1)" unfolding inside_def h y using le y1 by simp
    have m: "?m (fbs_phys s + of_nat n) = fbs_cpu s (fbs_phys s + of_nat n)"
      if n: "n < vis_len s" "\<not> area ?S (unat (0 :: u32)) (unat ?a) (unat (fbs_width s)) (unat (?b - ?a + 1)) n" for n
    proof -
      have "?S = 3 * unat (fbs_width s)" using g by (simp add: geometry_ok_def)
      then have "n mod ?S < 3 * unat (fbs_width s)" using gf(5) by (metis mod_less_divisor)
      then have out: "\<not> (?y0 \<le> n div ?S \<and> n div ?S \<le> ?y1)" using n(2) le unfolding area_def h y by auto
      have "\<not> (unat pos \<le> n \<and> n < unat pos + unat c)"
      proof
        assume a: "unat pos \<le> n \<and> n < unat pos + unat c"
        then have "?y0 \<le> n div ?S" "n div ?S \<le> ?y1" by (auto intro: div_le_mono)
        with out show False by blast
      qed
      moreover have "unat (fbs_phys s + pos) = unat (fbs_phys s) + unat pos" using pc bound by (intro unat_add_no_wrap) simp
      moreover have "unat (fbs_phys s + of_nat n) = unat (fbs_phys s) + n" using n(1) gf(1) by (intro unat_fb_offset [OF g]) simp
      ultimately show ?thesis
        using pc bound full by (subst store_bytes_at) (auto simp: min_absorb2)
    qed
    from draw_inv [OF inv gl ins m, where dying = dying] dam show ?thesis
      by (simp add: soct_dp_fb_damage_range_def Let_def)
  qed
qed

lemma write_fault_inv:
  assumes inv: "fb_inv s oj (P, L)" and w: "soct_dp_fb_write dying data count pos s = Some (Inl Fb_EFAULT, pos', s')"
  shows "fb_inv s' oj (P, L \<union> {n. unat pos \<le> n \<and> n < unat pos + length data})"
proof -
  let ?t = "ucast (fbs_smem_len s) :: u64" and ?L = "L \<union> {n. unat pos \<le> n \<and> n < unat pos + length data}"
  define c where "c = (if count > ?t - pos then ?t - pos else count)"
  have g: "geometry_ok s" and sm: "unat (fbs_smem_len s) = vis_len s" using inv by (simp_all add: fb_inv_def)
  note gf = geometry_facts [OF g]
  have pos: "pos \<le> ?t" and short: "length data < unat c"
    and s': "s' = s\<lparr>fbs_cpu := store_bytes (fbs_phys s + pos) data (fbs_cpu s)\<rparr>"
    using w unfolding soct_dp_fb_write_def Let_def c_def [symmetric] by (auto split: if_splits)
  have t: "unat ?t = vis_len s" unfolding sm [symmetric] by (simp add: unat_ucast_up)
  have "c \<le> ?t - pos" by (auto simp: c_def not_less)
  then have fits: "unat pos + length data \<le> vis_len s"
    using pos short by (simp add: word_le_nat_alt unat_diff_le t)
  have bound: "unat (fbs_phys s) + vis_len s < 2 ^ 64" using gf(1) g by (simp add: geometry_ok_def)
  have base: "unat (fbs_phys s + pos) = unat (fbs_phys s) + unat pos" using fits bound by (intro unat_add_no_wrap) simp
  have k: "geometry_ok s' = geometry_ok s" "rect_ok s' = rect_ok s" "job_ok s' oj = job_ok s oj" "vis_len s' = vis_len s"
    "\<And>n. in_dirty s' n = in_dirty s n" "\<And>n. in_job s' oj n = in_job s oj n"
    by (cases oj; simp add: s' geometry_ok_def rect_ok_def vis_len_def in_dirty_def)+
  have "covered s' oj (P, ?L) n" if n: "n < vis_len s" "stale s' n" and c: "stale s n \<Longrightarrow> covered s oj (P, L) n" for n
  proof (cases "unat pos \<le> n \<and> n < unat pos + length data")
    case True
    then show ?thesis by (simp add: covered_def)
  next
    case False
    have "unat (fbs_phys s + of_nat n) = unat (fbs_phys s) + n" using n(1) gf(1) by (intro unat_fb_offset [OF g]) simp
    then have "store_bytes (fbs_phys s + pos) data (fbs_cpu s) (fbs_phys s + of_nat n) = fbs_cpu s (fbs_phys s + of_nat n)"
      using False fits bound base by (subst store_bytes_at) auto
    then have "stale s n" using n(2) by (simp add: stale_def s')
    then show ?thesis using c by (auto simp: covered_def in_pages_def k)
  qed
  moreover have "fbs_glyph s' = fbs_glyph s" "fbs_smem_len s' = fbs_smem_len s" "fbs_carveout s' = fbs_carveout s"
    "fbs_dirty s' = fbs_dirty s" "fbs_park_req s' = fbs_park_req s" "fbs_queued s' = fbs_queued s"
    "fbs_park_frame s' = fbs_park_frame s" "fbs_frames s' = fbs_frames s" "fbs_dp s' = fbs_dp s" "fbs_mode s' = fbs_mode s"
    by (simp_all add: s')
  ultimately show ?thesis using inv by (simp add: fb_inv_def all_covered_def k)
qed

subsection \<open>The other steps\<close>

lemma setcolreg_inv: "fb_inv s oj P \<Longrightarrow> fb_inv (snd (soct_dp_fb_setcolreg regno r g b s)) oj P"
proof -
  have "fb_inv (s\<lparr>fbs_palette := p\<rparr>) oj P = fb_inv s oj P" for p
    by (cases oj) (simp_all add: fb_inv_def geometry_ok_def rect_ok_def vis_len_def all_covered_def covered_def in_dirty_def stale_def)
  then show "fb_inv s oj P \<Longrightarrow> fb_inv (snd (soct_dp_fb_setcolreg regno r g b s)) oj P"
    by (simp add: soct_dp_fb_setcolreg_def Let_def)
qed

lemma pan_inv: "fb_inv s oj P \<Longrightarrow> fb_inv (snd (soct_dp_fb_pan_display v s)) oj P"
proof -
  have "fb_inv (s\<lparr>fbs_park_frame := f, fbs_park_req := True, fbs_queued := True\<rparr>) oj P"
    if "fb_inv s oj P" "f < fbs_frames s" for f
  proof -
    let ?s = "s\<lparr>fbs_park_frame := f, fbs_park_req := True, fbs_queued := True\<rparr>"
    have "geometry_ok ?s = geometry_ok s" "rect_ok ?s = rect_ok s" "job_ok ?s oj = job_ok s oj" "vis_len ?s = vis_len s"
      "all_covered ?s oj P = all_covered s oj P"
      by (cases oj; simp add: geometry_ok_def rect_ok_def vis_len_def all_covered_def covered_def in_dirty_def stale_def)+
    then show ?thesis using that by (simp add: fb_inv_def)
  qed
  then show "fb_inv s oj P \<Longrightarrow> fb_inv (snd (soct_dp_fb_pan_display v s)) oj P"
    by (simp add: soct_dp_fb_pan_display_def not_le)
qed

lemma take_inv:
  assumes "fb_inv s None P" "flush_take (s\<lparr>fbs_queued := False\<rparr>) = (j, s')"
  shows "fb_inv s' (Some j) P"
proof -
  have j: "fj_dirty j = fbs_dirty s" "fj_x0 j = fbs_x0 s" "fj_x1 j = fbs_x1 s" "fj_y j = fbs_y0 s" "fj_y1 j = fbs_y1 s"
      "fj_park j = (if fbs_park_req s then Some (fbs_park_frame s) else None)"
    and s': "s' = s\<lparr>fbs_queued := False, fbs_dirty := False, fbs_park_req := False\<rparr>"
    using assms(2) by (auto simp: flush_take_def)
  have k: "geometry_ok s' = geometry_ok s" "vis_len s' = vis_len s" "\<And>n. stale s' n = stale s n"
    by (simp_all add: s' geometry_ok_def vis_len_def stale_def)
  have c: "covered s' (Some j) P n" if "covered s None P n" for n
    using that by (auto simp: covered_def in_dirty_def j s')
  have "job_ok s' (Some j)" using assms(1) by (auto simp: fb_inv_def rect_ok_def j s')
  moreover have "rect_ok s'" "\<not> fbs_dirty s'" "\<not> fbs_park_req s'" "fbs_glyph s' = fbs_glyph s" "fbs_smem_len s' = fbs_smem_len s"
    "fbs_carveout s' = fbs_carveout s" "fbs_dp s' = fbs_dp s" "fbs_mode s' = fbs_mode s"
    by (simp_all add: s' rect_ok_def)
  ultimately show ?thesis using assms(1) c by (simp add: fb_inv_def k all_covered_def)
qed

lemma row_flushes:
  assumes inv: "fb_inv s (Some j) P" and j: "fj_dirty j" "fj_y j \<le> fj_y1 j" and r: "work_row j s = Some s'"
  obtains D where "s' = writeback D s"
    "\<And>n. in_job s (Some j) n \<Longrightarrow> fbs_phys s + of_nat n \<notin> D \<Longrightarrow> in_job s' (Some (j\<lparr>fj_y := fj_y j + 1\<rparr>)) n"
proof -
  have ok: "geometry_ok s" "fj_x0 j \<le> fj_x1 j" "fj_x1 j < fbs_width s" "fj_y1 j < fbs_height s * fbs_frames s"
    using inv j by (simp_all add: fb_inv_def)
  then have y: "fj_y j < fbs_height s * fbs_frames s" using j(2) by simp
  from flush_row_writeback [OF ok(1-3) y] r obtain D where D: "s' = writeback D s"
    "\<forall>n. in_rows (unat (fbs_stride s)) (unat (fj_x0 j)) (unat (fj_x1 j)) (unat (fj_y j)) (unat (fj_y j)) n \<longrightarrow>
       fbs_phys s + of_nat n \<in> D" by auto
  have "unat (fj_y j) + 1 < 2 ^ 32"
    using y unsigned_less [of "fbs_height s * fbs_frames s", where 'a = nat] by (simp add: word_less_nat_alt)
  then have y1: "unat (fj_y j + 1) = Suc (unat (fj_y j))" by (subst unat_add_no_wrap) simp_all
  show thesis
  proof (rule that [OF D(1)])
    fix n assume "in_job s (Some j) n" "fbs_phys s + of_nat n \<notin> D"
    then show "in_job s' (Some (j\<lparr>fj_y := fj_y j + 1\<rparr>)) n"
      using D in_rows_split [of "unat (fbs_stride s)" "unat (fj_x0 j)" "unat (fj_x1 j)" "unat (fj_y j)" "unat (fj_y1 j)" n]
      by (auto simp: y1)
  qed
qed

lemma row_inv:
  assumes inv: "fb_inv s (Some j) P" and j: "fj_dirty j" "fj_y j \<le> fj_y1 j" and r: "work_row j s = Some s'"
  shows "fb_inv s' (Some (j\<lparr>fj_y := fj_y j + 1\<rparr>)) P"
proof -
  let ?j = "j\<lparr>fj_y := fj_y j + 1\<rparr>"
  obtain D where D: "s' = writeback D s" "\<And>n. in_job s (Some j) n \<Longrightarrow> fbs_phys s + of_nat n \<notin> D \<Longrightarrow> in_job s' (Some ?j) n"
    using row_flushes [OF assms] by blast
  have "covered s' (Some ?j) P n" if "covered s (Some j) P n" "stale s' n" for n
    using that(1) unfolding covered_def
  proof (elim disjE)
    assume "in_job s (Some j) n"
    moreover have "fbs_phys s + of_nat n \<notin> D" using that(2) by (simp add: D(1))
    ultimately show "in_dirty s' n \<or> in_job s' (Some ?j) n \<or> in_pages P n \<or> n \<in> snd P" using D(2) by blast
  qed (simp_all add: D(1))
  then show ?thesis using inv by (auto simp: fb_inv_def all_covered_def D(1))
qed

lemma job_done: "\<not> (fj_dirty j \<and> fj_y j \<le> fj_y1 j) \<Longrightarrow> \<not> in_job s (Some j) n"
  by (auto simp: in_rows_def word_le_nat_alt)

lemma work_step_inv:
  assumes "fb_inv s (Some j) P" "flush_work_step j s = Some (oj', s')"
  shows "fb_inv s' oj' P"
proof (cases "fj_dirty j \<and> fj_y j \<le> fj_y1 j")
  case True
  then obtain s1 where "work_row j s = Some s1" "oj' = Some (j\<lparr>fj_y := fj_y j + 1\<rparr>)" "s' = s1"
    using assms(2) by (auto simp: flush_work_step_def)
  then show ?thesis using row_inv [OF assms(1)] True by blast
next
  case False
  then have e: "oj' = None" "s' = park_scanout j s" using assms(2) by (auto simp: flush_work_step_def)
  have "fb_inv (park_scanout j s) None P"
    using assms(1) job_done [OF False] by (auto simp: fb_inv_def all_covered_def covered_def)
  then show ?thesis by (simp add: e)
qed

lemma evict_inv: "fb_inv s oj P \<Longrightarrow> fb_inv (flush_line a s) oj P"
  using fold_flush_line [of "[a]" s] by (simp add: writeback_inv)

lemma unat_and_not4095: "unat (a AND NOT 4095 :: u64) = unat a div 4096 * 4096"
  using unat_and_not_mask [of a 12] by (simp add: mask_eq_exp_minus_1)

lemma user_store_inv:
  assumes inv: "fb_inv s oj (P, L)" and off: "off < ucast (fbs_smem_len s)"
  shows "fb_inv (s\<lparr>fbs_cpu := (fbs_cpu s)(fbs_phys s + off := v)\<rparr>) oj ((off AND NOT 4095) # P, L)"
proof -
  let ?s = "s\<lparr>fbs_cpu := (fbs_cpu s)(fbs_phys s + off := v)\<rparr>" and ?P = "((off AND NOT 4095) # P, L)"
  have g: "geometry_ok s" "unat (fbs_smem_len s) = vis_len s" using inv by (simp_all add: fb_inv_def)
  note gf = geometry_facts [OF g(1)]
  have o: "unat off < vis_len s" using off g(2) by (simp add: word_less_nat_alt unat_ucast_up)
  have "unat (off AND NOT 4095) \<le> unat off" unfolding unat_and_not4095 by (rule div_times_less_eq_dividend)
  then have page: "off AND NOT 4095 \<le> fbs_carveout s" using o gf(1) by (simp add: word_le_nat_alt)
  have k: "geometry_ok ?s = geometry_ok s" "rect_ok ?s = rect_ok s" "job_ok ?s oj = job_ok s oj" "vis_len ?s = vis_len s"
    "\<And>n. in_dirty ?s n = in_dirty s n" "\<And>n. in_job ?s oj n = in_job s oj n"
    by (cases oj; simp add: geometry_ok_def rect_ok_def vis_len_def in_dirty_def)+
  have "covered ?s oj ?P n" if n: "n < vis_len s" "stale ?s n" and c: "stale s n \<Longrightarrow> covered s oj (P, L) n" for n
  proof (cases "fbs_phys s + of_nat n = fbs_phys s + off")
    case True
    then have e: "off = of_nat n" by simp
    have n64: "n < 2 ^ 64" using n(1) gf(1) g(1) by (simp add: geometry_ok_def)
    then have "unat (of_nat n :: u64) = n" by (intro unat_of_nat_small) simp
    moreover have "unat (of_nat (n div 4096 * 4096) :: u64) = n div 4096 * 4096"
      using n64 by (intro unat_of_nat_small) (simp add: le_less_trans [OF div_times_less_eq_dividend])
    ultimately have "off AND NOT 4095 = of_nat (n div 4096 * 4096)"
      unfolding e by (simp only: word_unat_eq_iff unat_and_not4095)
    then show ?thesis by (simp add: covered_def in_pages_def)
  next
    case False
    then have "stale s n" using n(2) by (simp add: stale_def)
    then show ?thesis using c by (auto simp: covered_def in_pages_def k)
  qed
  then show ?thesis using inv page by (auto simp: fb_inv_def all_covered_def k)
qed

lemma defio_loop_writeback:
  assumes "geometry_ok s" "\<forall>p\<in>set Q. p \<le> fbs_carveout s"
    "len \<noteq> 0 \<Longrightarrow> unat start + unat len \<le> unat (fbs_phys s) + unat (fbs_carveout s) + 4096"
  shows "\<exists>D. defio_loop Q start len s = Some (writeback D s) \<and> addr_span start (unat len) \<subseteq> D \<and>
    (\<forall>p\<in>set Q. addr_span (fbs_phys s + p) 4096 \<subseteq> D)"
  using assms
proof (induction Q arbitrary: start len s)
  case Nil
  have b: "unat (fbs_phys s) + unat (fbs_carveout s) + 8192 \<le> 2 ^ 64" using Nil.prems(1) by (simp add: geometry_ok_def)
  show ?case
  proof (cases "len = 0")
    case True
    then show ?thesis by (intro exI [of _ "{}"]) (auto simp: addr_span_def)
  next
    case False
    then show ?thesis using flush_range_writeback [of start len s] Nil.prems(3) b by auto
  qed
next
  case (Cons p Q)
  let ?a = "fbs_phys s + p"
  have b: "unat (fbs_phys s) + unat (fbs_carveout s) + 8192 \<le> 2 ^ 64" "unat p \<le> unat (fbs_carveout s)"
    using Cons.prems(1,2) by (simp_all add: geometry_ok_def word_le_nat_alt)
  have a: "unat ?a = unat (fbs_phys s) + unat p" using b by (intro unat_add_no_wrap) simp
  show ?case
  proof (cases "len \<noteq> 0 \<and> ?a = start + len")
    case True
    have bound: "unat start + unat len + 8192 \<le> 2 ^ 64 + 4096" using Cons.prems(3) True b(1) by linarith
    then have sl: "unat (start + len) = unat start + unat len" by (intro unat_add_no_wrap) simp
    have "unat start + unat len \<le> unat (fbs_phys s) + unat (fbs_carveout s)" using True a b(2) sl by simp
    then have ll: "unat (len + 4096) = unat len + 4096" using b(1) by (subst unat_add_no_wrap) simp_all
    have "unat start + unat (len + 4096) \<le> unat (fbs_phys s) + unat (fbs_carveout s) + 4096"
      using True a b(2) sl ll by simp
    with Cons.IH [of s "len + 4096" start] Cons.prems(1,2) obtain D where
      D: "defio_loop Q start (len + 4096) s = Some (writeback D s)" "addr_span start (unat len + 4096) \<subseteq> D"
        "\<forall>p\<in>set Q. addr_span (fbs_phys s + p) 4096 \<subseteq> D" by (auto simp: ll)
    have "addr_span start (unat len) \<subseteq> D" "addr_span ?a 4096 \<subseteq> D" using D(2) True sl by (auto simp: addr_span_def)
    then show ?thesis using D True by (intro exI [of _ D]) simp
  next
    case False
    obtain D0 where D0: "(if len \<noteq> 0 then flush_range start len s else Some s) = Some (writeback D0 s)" "addr_span start (unat len) \<subseteq> D0"
    proof (cases "len = 0")
      case True
      then show ?thesis using that [of "{}"] by (simp add: addr_span_def)
    next
      case False
      then show ?thesis using that flush_range_writeback [of start len s] Cons.prems(3) b(1) by auto
    qed
    have "\<exists>D. defio_loop Q ?a 4096 (writeback D0 s) = Some (writeback D (writeback D0 s)) \<and> addr_span ?a (unat (4096 :: u64)) \<subseteq> D \<and>
        (\<forall>p\<in>set Q. addr_span (fbs_phys (writeback D0 s) + p) 4096 \<subseteq> D)"
      using Cons.prems(1,2) a b(2) by (intro Cons.IH) simp_all
    then obtain D where D: "defio_loop Q ?a 4096 (writeback D0 s) = Some (writeback (D \<union> D0) s)" "addr_span ?a 4096 \<subseteq> D"
        "\<forall>p\<in>set Q. addr_span (fbs_phys s + p) 4096 \<subseteq> D" by auto
    have "defio_loop (p # Q) start len s = Some (writeback (D \<union> D0) s)"
      unfolding defio_loop.simps Let_def using False D0(1) D(1) by auto
    then show ?thesis using D(2,3) D0(2) by (intro exI [of _ "D \<union> D0"]) auto
  qed
qed

lemma deferred_io_flushes:
  assumes g: "geometry_ok s" "\<forall>p\<in>set Q. p \<le> fbs_carveout s"
  obtains D where "soct_dp_fb_deferred_io Q s = Some (writeback D s)"
    "\<And>n. n < vis_len s \<Longrightarrow> in_pages (Q, L) n \<Longrightarrow> fbs_phys s + of_nat n \<in> D"
proof -
  from defio_loop_writeback [OF g, of 0 0] obtain D where
    D: "soct_dp_fb_deferred_io Q s = Some (writeback D s)" "\<forall>p\<in>set Q. addr_span (fbs_phys s + p) 4096 \<subseteq> D"
    by (auto simp: soct_dp_fb_deferred_io_def)
  note gf = geometry_facts [OF g(1)]
  show thesis
  proof (rule that [OF D(1)])
    fix n assume n: "n < vis_len s" "in_pages (Q, L) n"
    let ?q = "n div 4096 * 4096"
    have q: "?q \<le> n" "n < ?q + 4096" using div_mult_mod_eq [of n 4096] mod_less_divisor [of 4096 n] by linarith+
    have "unat (fbs_phys s + of_nat ?q) = unat (fbs_phys s) + ?q" "unat (fbs_phys s + of_nat n) = unat (fbs_phys s) + n"
      using n(1) q gf(1) by (intro unat_fb_offset [OF g(1)]; linarith)+
    then have "fbs_phys s + of_nat n \<in> addr_span (fbs_phys s + of_nat ?q) 4096" unfolding addr_span_def using q by simp
    moreover have "of_nat ?q \<in> set Q" using n(2) by (simp add: in_pages_def)
    ultimately show "fbs_phys s + of_nat n \<in> D" using D(2) by blast
  qed
qed

lemma deferred_io_inv:
  assumes inv: "fb_inv s oj (P, L)" and Q: "set Q = set P"
  shows "\<exists>s'. soct_dp_fb_deferred_io Q s = Some s' \<and> fb_inv s' oj ([], L)"
proof -
  have g: "geometry_ok s" "\<forall>p\<in>set Q. p \<le> fbs_carveout s" using inv Q by (simp_all add: fb_inv_def)
  obtain D where D: "soct_dp_fb_deferred_io Q s = Some (writeback D s)"
    "\<And>n. n < vis_len s \<Longrightarrow> in_pages (Q, L) n \<Longrightarrow> fbs_phys s + of_nat n \<in> D" using deferred_io_flushes [OF g] by blast
  have "covered s oj ([], L) n" if "n < vis_len s" "covered s oj (P, L) n" "fbs_phys s + of_nat n \<notin> D" for n
    using that D(2) [of n] Q by (auto simp: covered_def in_pages_def)
  moreover have "covered (writeback D s) oj ([], L) n = covered s oj ([], L) n" for n by (simp add: covered_def)
  ultimately have "fb_inv (writeback D s) oj ([], L)" using inv by (simp add: fb_inv_def all_covered_def)
  then show ?thesis using D(1) by blast
qed

subsection \<open>Mode changes and set-up\<close>

lemma clear_screen_result:
  assumes "geometry_ok s" "unat len = vis_len s"
  shows "\<exists>D. clear_screen len s = Some (writeback D (s\<lparr>fbs_cpu := store_bytes (fbs_phys s) (replicate (unat len) 0) (fbs_cpu s)\<rparr>)) \<and>
    (\<forall>n < vis_len s. fbs_phys s + of_nat n \<in> D)"
proof -
  have "unat (fbs_phys s) + unat len + 64 \<le> 2 ^ 64"
    using assms geometry_facts(1) [OF assms(1)] by (simp add: geometry_ok_def)
  from flush_range_writeback [OF this] obtain D where
    D: "clear_screen len s = Some (writeback D (s\<lparr>fbs_cpu := store_bytes (fbs_phys s) (replicate (unat len) 0) (fbs_cpu s)\<rparr>))"
      "addr_span (fbs_phys s) (vis_len s) \<subseteq> D"
    unfolding clear_screen_def assms(2) by blast
  have "fbs_phys s + of_nat n \<in> D" if "n < vis_len s" for n
    using span_offset [OF assms(1), of 0 "vis_len s" n] that D(2) geometry_facts(1) [OF assms(1)] by auto
  then show ?thesis using D(1) by blast
qed

lemma frame_bytes:
  assumes "3 * (unat a * unat b) < 2 ^ 64"
  shows "unat (ucast (a :: u32) * ucast (b :: u32) * 3 :: u64) = 3 * (unat a * unat b)"
proof -
  have "(ucast a * ucast b * 3 :: u64) = of_nat (3 * (unat a * unat b))" unfolding ucast_up_of_nat by simp
  moreover have "unat (of_nat (3 * (unat a * unat b)) :: u64) = 3 * (unat a * unat b)" using assms by (intro unat_of_nat_small) simp
  ultimately show ?thesis by (rule trans [OF arg_cong])
qed

lemma screen_bytes:
  assumes "geometry_ok s"
  shows "unat (ucast (fbs_stride s) * ucast (fbs_height s) * ucast (fbs_frames s) :: u64) = vis_len s"
    and "unat (fbs_stride s * fbs_height s * fbs_frames s) = vis_len s"
proof -
  have b: "vis_len s < 2 ^ 32" using geometry_facts(1) [OF assms] assms by (simp add: geometry_ok_def)
  have "(ucast (fbs_stride s) * ucast (fbs_height s) * ucast (fbs_frames s) :: u64) = of_nat (vis_len s)"
    unfolding ucast_up_of_nat vis_len_def by simp
  moreover have "unat (of_nat (vis_len s) :: u64) = vis_len s" using b by (intro unat_of_nat_small) simp
  ultimately show "unat (ucast (fbs_stride s) * ucast (fbs_height s) * ucast (fbs_frames s) :: u64) = vis_len s"
    by (rule trans [OF arg_cong])
  have "fbs_stride s * fbs_height s * fbs_frames s = of_nat (vis_len s)" unfolding vis_len_def by simp
  moreover have "unat (of_nat (vis_len s) :: u32) = vis_len s" using b by (intro unat_of_nat_small) simp
  ultimately show "unat (fbs_stride s * fbs_height s * fbs_frames s) = vis_len s" by (rule trans [OF arg_cong])
qed

lemma set_geometry_ok:
  assumes "hactive m \<noteq> 0" "vactive m \<noteq> 0" "3 * unat (hactive m) < 2 ^ 32" "3 * (unat (hactive m) * unat (vactive m)) \<le> unat (fbs_carveout s)"
    "unat (fbs_carveout s) < 2 ^ 32" "unat (fbs_phys s) + unat (fbs_carveout s) + 8192 \<le> 2 ^ 64"
  shows "geometry_ok (set_geometry m s)"
proof -
  have "unat (hactive m * 3) = 3 * unat (hactive m)" using assms(3) by (simp add: unat_word_ariths)
  then show ?thesis using assms by (simp add: geometry_ok_def set_geometry_def unat_gt_0 mult.assoc)
qed

lemma var_to_mode_size:
  "soct_dp_fb_var_to_mode v = Inr m \<Longrightarrow> hactive m = xres v \<and> vactive m = yres v"
  by (auto simp: soct_dp_fb_var_to_mode_def Let_def split: if_splits)

lemma validate_size:
  assumes "soct_dp_validate_mode s m = (Dp_OK, w)" "budget_ok s"
  shows "hactive w = hactive m" "vactive w = vactive m" "w \<noteq> no_mode" "soct_dp_validate_mode s w = (Dp_OK, w)"
proof -
  note v = validate_OK [OF assms]
  show "hactive w = hactive m" "vactive w = vactive m"
    using arg_cong [OF v(2), of hactive] arg_cong [OF v(2), of vactive] by simp_all
  show "w \<noteq> no_mode" using v(1) by (auto simp: no_mode_def)
  show "soct_dp_validate_mode s w = (Dp_OK, w)" by (rule v(3))
qed

lemma check_var_size:
  assumes "soct_dp_fb_check_var s v = Inr v'" "budget_ok (fbs_dp s)" "var_sane v"
  shows "xres v' = xres v" "yres v' = yres v" "3 * (unat (xres v) * unat (yres v)) \<le> unat (fbs_carveout s)"
proof -
  obtain m w where m: "soct_dp_fb_var_to_mode v = Inr m" "soct_dp_validate_mode (fbs_dp s) m = (Dp_OK, w)"
      "soct_dp_fb_fill_var (fbs_carveout s) w v = Some v'" "\<not> fbs_carveout s < ucast (hactive m) * ucast (vactive m) * 3"
    using assms(1) by (auto simp: soct_dp_fb_check_var_def Let_def split: sum.splits if_splits prod.splits option.splits)
  have mv: "hactive m = xres v" "vactive m = yres v" using var_to_mode_size [OF m(1)] by auto
  then show "xres v' = xres v" "yres v' = yres v"
    using m(3) validate_size(1,2) [OF m(2) assms(2)] by (auto simp: soct_dp_fb_fill_var_def split: if_splits)
  have "3 * (unat (xres v) * unat (yres v)) < 2 ^ 64" using assms(3) by (simp add: var_sane_def)
  from frame_bytes [OF this] show "3 * (unat (xres v) * unat (yres v)) \<le> unat (fbs_carveout s)"
    using m(4) unfolding mv by (simp add: word_less_nat_alt not_less)
qed

text \<open>A cleared screen satisfies the invariant.\<close>

lemma cleared_inv:
  assumes g: "geometry_ok s" and s: "\<not> fbs_dirty s" "\<not> fbs_park_req s" "glyph_ok (fbs_glyph s)" "\<forall>p\<in>set (fst P). p \<le> fbs_carveout s"
      "budget_ok (fbs_dp s)" "fbs_mode s = dp_cur (fbs_dp s)"
    and sm: "unat (fbs_smem_len s) = vis_len s" and len: "unat len = vis_len s"
  shows "\<exists>s'. clear_screen len s = Some s' \<and> fb_inv s' None P \<and> fbs_var s' = fbs_var s"
proof -
  let ?s = "s\<lparr>fbs_cpu := store_bytes (fbs_phys s) (replicate (unat len) 0) (fbs_cpu s)\<rparr>"
  obtain D where D: "clear_screen len s = Some (writeback D ?s)" "\<forall>n < vis_len s. fbs_phys s + of_nat n \<in> D"
    using clear_screen_result [OF g len] by blast
  have k: "geometry_ok ?s = geometry_ok s" "vis_len ?s = vis_len s" by (simp_all add: geometry_ok_def vis_len_def)
  have "fb_inv (writeback D ?s) None P"
    using g s sm D(2) by (simp add: fb_inv_def k all_covered_def rect_ok_def)
  moreover have "fbs_var (writeback D ?s) = fbs_var s" by (simp add: writeback_def)
  ultimately show ?thesis using D(1) by blast
qed

lemma set_par_inv:
  assumes inv: "fb_inv s None P" and v: "var_sane v" "soct_dp_fb_check_var s v = Inr v'"
  shows "\<exists>r s'. soct_dp_fb_set_par E (s\<lparr>fbs_var := v'\<rparr>) = Some (r, s') \<and> fb_inv s' None P \<and> fbs_var s' = v'"
proof -
  let ?s = "s\<lparr>fbs_var := v'\<rparr>"
  have b: "budget_ok (fbs_dp s)" and g: "geometry_ok s" and gl: "glyph_ok (fbs_glyph s)" using inv by (simp_all add: fb_inv_def)
  have var: "fb_inv (x\<lparr>fbs_var := v''\<rparr>) None P = fb_inv x None P" for x v''
    by (simp add: fb_inv_def geometry_ok_def rect_ok_def vis_len_def all_covered_def covered_def in_dirty_def stale_def)
  have same: "fb_inv ?s None P" using inv by (simp add: var)
  note sz = check_var_size [OF v(2) b v(1)]
  show ?thesis
  proof (cases "\<exists>m w. soct_dp_fb_var_to_mode v' = Inr m \<and> soct_dp_validate_mode (fbs_dp s) m = (Dp_OK, w) \<and> w \<noteq> fbs_mode s")
    case False
    then show ?thesis
      using same by (auto simp: soct_dp_fb_set_par_def split: sum.splits prod.splits)
  next
    case True
    then obtain m w where m: "soct_dp_fb_var_to_mode v' = Inr m" "soct_dp_validate_mode (fbs_dp s) m = (Dp_OK, w)"
      "w \<noteq> fbs_mode s" by blast
    note w = validate_size [OF m(2) b]
    have dims: "hactive w = xres v" "vactive w = yres v" using w(1,2) var_to_mode_size [OF m(1)] sz(1,2) by simp_all
    obtain r dp where sw: "soct_dp_switch_mode E w (fbs_dp s) = (r, dp)" by fastforce
    have "w \<noteq> dp_cur (fbs_dp s)" using m(3) inv by (simp add: fb_inv_def)
    from switch_mode_cur [OF b w(4) this sw] have cur: "dp_cur dp = (if r = Dp_OK then w else no_mode)" "budget_ok dp"
      using same_budget_ok b by auto
    let ?q = "?s\<lparr>fbs_queued := False, fbs_dirty := False, fbs_park_req := False, fbs_dp := dp\<rparr>"
    show ?thesis
    proof (cases "r = Dp_OK")
      case False
      have "soct_dp_fb_set_par E ?s = Some (Some (Fb_dp r), ?q\<lparr>fbs_mode := no_mode\<rparr>)"
        using m sw False by (simp add: soct_dp_fb_set_par_def Let_def)
      moreover have "fb_inv (?q\<lparr>fbs_mode := no_mode\<rparr>) None P"
      proof -
        have "geometry_ok (?q\<lparr>fbs_mode := no_mode\<rparr>) = geometry_ok s" "vis_len (?q\<lparr>fbs_mode := no_mode\<rparr>) = vis_len s"
          by (simp_all add: geometry_ok_def vis_len_def)
        then show ?thesis using inv cur False by (simp add: fb_inv_def rect_ok_def)
      qed
      moreover have "fbs_var (?q\<lparr>fbs_mode := no_mode\<rparr>) = v'" by simp
      ultimately show ?thesis by blast
    next
      case ok: True
      let ?g = "set_geometry w ?q"
      let ?size = "ucast (fbs_stride ?g) * ucast (fbs_height ?g) * ucast (fbs_frames ?g) :: u64"
      let ?t = "?g\<lparr>fbs_line_length := fbs_stride ?g, fbs_smem_len := ucast ?size,
          fbs_ypanstep := (if fbs_frames ?g = 2 then fbs_height ?g else 0)\<rparr>"
      have x: "8 \<le> unat (xres v)" "8 \<le> unat (yres v)" "unat (xres v) * unat (yres v) < 2 ^ 32" using v(1) by (simp_all add: var_sane_def)
      have "unat (xres v) * 8 \<le> unat (xres v) * unat (yres v)" using x(2) by (rule mult_le_mono2)
      then have "3 * unat (xres v) < 2 ^ 32" using x(3) by linarith
      then have geo: "geometry_ok ?g"
        using x sz(3) g dims by (intro set_geometry_ok) (auto simp: geometry_ok_def)
      have k: "geometry_ok ?t = geometry_ok ?g" "vis_len ?t = vis_len ?g" by (simp_all add: geometry_ok_def vis_len_def)
      have size: "unat ?size = vis_len ?g" by (rule screen_bytes(1) [OF geo])
      have "vis_len ?g < 2 ^ 32" using geometry_facts(1) [OF geo] geo by (simp add: geometry_ok_def)
      then have "unat (ucast ?size :: u32) = vis_len ?g" unfolding unat_ucast_down size by (rule mod_less)
      moreover have "fbs_smem_len ?t = ucast ?size" by simp
      ultimately have sm: "unat (fbs_smem_len ?t) = vis_len ?t" unfolding k by simp
      have f: "fbs_mode ?t = w" "fbs_dp ?t = dp" "\<not> fbs_dirty ?t" "\<not> fbs_park_req ?t" "fbs_glyph ?t = fbs_glyph s" "fbs_carveout ?t = fbs_carveout s"
        by (simp_all add: set_geometry_def)
      have "\<exists>s'. clear_screen ?size ?t = Some s' \<and> fb_inv s' None P \<and> fbs_var s' = fbs_var ?t"
      proof (rule cleared_inv)
        show "geometry_ok ?t" using geo k(1) by blast
        show "unat ?size = vis_len ?t" unfolding k(2) by (rule size)
        show "\<forall>p\<in>set (fst P). p \<le> fbs_carveout ?t" unfolding f using inv by (simp add: fb_inv_def)
        show "fbs_mode ?t = dp_cur (fbs_dp ?t)" unfolding f using cur(1) ok by simp
      qed (use f gl cur(2) sm in simp_all)
      moreover have "soct_dp_fb_set_par E ?s = map_option (\<lambda>s. (None, s)) (clear_screen ?size ?t)"
        using m sw ok by (simp add: soct_dp_fb_set_par_def Let_def)
      moreover have "fbs_var ?t = v'" by (simp add: set_geometry_def)
      ultimately show ?thesis by auto
    qed
  qed
qed

definition prepared :: "u64 \<Rightarrow> u64 \<Rightarrow> bool \<Rightarrow> fb_state \<Rightarrow> fb_state" where
  "prepared fb fb_size pages z = set_geometry (dp_cur (fbs_dp z))
     (z\<lparr>fbs_l2 := True, fbs_virt := True, fbs_phys := fb, fbs_carveout := fb_size, fbs_mmap_ok := pages\<rparr>)"

lemma prepared_fields [simp]:
  "fbs_phys (prepared fb fb_size pages z) = fb" "fbs_carveout (prepared fb fb_size pages z) = fb_size"
  "fbs_dirty (prepared fb fb_size pages z) = fbs_dirty z" "fbs_park_req (prepared fb fb_size pages z) = fbs_park_req z"
  "fbs_glyph (prepared fb fb_size pages z) = fbs_glyph z" "fbs_dp (prepared fb fb_size pages z) = fbs_dp z"
  "fbs_mode (prepared fb fb_size pages z) = dp_cur (fbs_dp z)" "fbs_width (prepared fb fb_size pages z) = hactive (dp_cur (fbs_dp z))"
  "fbs_height (prepared fb fb_size pages z) = vactive (dp_cur (fbs_dp z))"
  "fbs_stride (prepared fb fb_size pages z) = hactive (dp_cur (fbs_dp z)) * 3"
  "fbs_frames (prepared fb fb_size pages z) = nframes fb_size (hactive (dp_cur (fbs_dp z)) * 3) (vactive (dp_cur (fbs_dp z)))"
  "fbs_palette (prepared fb fb_size pages z) = fbs_palette z"
  by (simp_all add: prepared_def set_geometry_def)

lemma prepare_result:
  assumes c: "carveout_ok fb fb_size (dp_cur (fbs_dp z))"
    and fit: "3 * (unat (hactive (dp_cur (fbs_dp z))) * unat (vactive (dp_cur (fbs_dp z)))) \<le> unat fb_size"
  shows "geometry_ok (prepared fb fb_size pages z)"
    and "\<exists>D. soct_dp_fb_prepare True True True pages fb fb_size (dp_cur (fbs_dp z)) z =
      Some (None, writeback D ((prepared fb fb_size pages z)\<lparr>fbs_cpu := store_bytes fb
        (replicate (vis_len (prepared fb fb_size pages z)) 0) (fbs_cpu (prepared fb fb_size pages z))\<rparr>)) \<and>
      (\<forall>n < vis_len (prepared fb fb_size pages z). fb + of_nat n \<in> D)"
proof -
  let ?m = "dp_cur (fbs_dp z)" and ?g = "prepared fb fb_size pages z"
  let ?size = "ucast (hactive ?m) * 3 * ucast (vactive ?m) :: u64"
  have c: "unat fb_size < 2 ^ 32" "unat fb + unat fb_size + 8192 \<le> 2 ^ 64" "hactive ?m \<noteq> 0" "vactive ?m \<noteq> 0"
      "unat (hactive ?m) * unat (vactive ?m) < 2 ^ 30" using c by (simp_all add: carveout_ok_def)
  have sz: "unat ?size = 3 * (unat (hactive ?m) * unat (vactive ?m))"
    using frame_bytes [of "hactive ?m" "vactive ?m"] c(5) by (simp add: ac_simps)
  have "unat (hactive ?m) \<le> unat (hactive ?m) * unat (vactive ?m)" using c(4) by (simp add: unat_gt_0 Suc_le_eq)
  then have "unat (hactive ?m) < 2 ^ 30" using c(5) by (rule le_less_trans)
  then have h: "3 * unat (hactive ?m) < 2 ^ 32" by simp
  show geo: "geometry_ok ?g"
    unfolding prepared_def using c fit h by (intro set_geometry_ok) simp_all
  have "unat (hactive ?m * 3) = 3 * unat (hactive ?m)" using h by (simp add: unat_word_ariths)
  then have "(ucast (hactive ?m * 3) :: u64) = ucast (hactive ?m) * 3" unfolding ucast_up_of_nat by simp
  then have "?size * ucast (fbs_frames ?g) = ucast (fbs_stride ?g) * ucast (fbs_height ?g) * ucast (fbs_frames ?g)" by simp
  then have len: "unat (?size * ucast (fbs_frames ?g)) = vis_len ?g" using screen_bytes(1) [OF geo] by simp
  have "\<not> fb_size < ?size" using fit sz by (simp add: word_less_nat_alt not_less)
  then have "soct_dp_fb_prepare True True True pages fb fb_size ?m z =
      map_option (\<lambda>s. (None, s)) (clear_screen (?size * ucast (fbs_frames ?g)) ?g)"
    by (simp add: soct_dp_fb_prepare_def Let_def prepared_def)
  then show "\<exists>D. soct_dp_fb_prepare True True True pages fb fb_size ?m z =
      Some (None, writeback D (?g\<lparr>fbs_cpu := store_bytes fb (replicate (vis_len ?g) 0) (fbs_cpu ?g)\<rparr>)) \<and>
      (\<forall>n < vis_len ?g. fb + of_nat n \<in> D)"
    using clear_screen_result [OF geo len] unfolding len by fastforce
qed

lemma prepare_fits:
  assumes "soct_dp_fb_prepare True True True pages fb fb_size m z = Some (None, s1)" "unat (hactive m) * unat (vactive m) < 2 ^ 30"
  shows "3 * (unat (hactive m) * unat (vactive m)) \<le> unat fb_size"
proof -
  let ?size = "ucast (hactive m) * 3 * ucast (vactive m) :: u64"
  have "unat ?size = 3 * (unat (hactive m) * unat (vactive m))"
    using frame_bytes [of "hactive m" "vactive m"] assms(2) by (simp add: ac_simps)
  moreover have "\<not> fb_size < ?size" using assms(1) by (auto simp: soct_dp_fb_prepare_def Let_def)
  ultimately show ?thesis by (simp add: word_less_nat_alt not_less)
qed

lemma registered:
  assumes "soct_dp_fb_register alloc defio_ok reg_ok v0 s1 = (None, s)"
  shows "geometry_ok s = geometry_ok s1" "vis_len s = vis_len s1" "stale s n = stale s1 n" "fbs_dirty s = fbs_dirty s1"
    "fbs_park_req s = fbs_park_req s1" "fbs_glyph s = fbs_glyph s1" "fbs_dp s = fbs_dp s1" "fbs_mode s = fbs_mode s1"
    "fbs_width s = fbs_width s1" "fbs_height s = fbs_height s1" "fbs_stride s = fbs_stride s1" "fbs_frames s = fbs_frames s1"
    "fbs_phys s = fbs_phys s1" "fbs_palette s = fbs_palette s1" "fbs_cpu s = fbs_cpu s1" "fbs_dram s = fbs_dram s1"
    "fbs_smem_len s = fbs_stride s1 * fbs_height s1 * fbs_frames s1"
proof -
  obtain v where fill: "soct_dp_fb_fill_var (fbs_carveout s1) (fbs_mode s1) v0 = Some v"
    using assms by (auto simp: soct_dp_fb_register_def split: option.splits if_splits)
  then obtain d where "s = s1\<lparr>fbs_line_length := fbs_stride s1, fbs_smem_len := fbs_stride s1 * fbs_height s1 * fbs_frames s1,
      fbs_ypanstep := (if fbs_frames s1 = 2 then fbs_height s1 else 0), fbs_var := v\<lparr>v_activate := 0\<rparr>, fbs_info := True,
      fbs_defio_size := d\<rparr>"
    using assms by (auto simp: soct_dp_fb_register_def Let_def split: if_splits intro: that [of "fbs_defio_size s"])
  then show "geometry_ok s = geometry_ok s1" "vis_len s = vis_len s1" "stale s n = stale s1 n" "fbs_dirty s = fbs_dirty s1"
    "fbs_park_req s = fbs_park_req s1" "fbs_glyph s = fbs_glyph s1" "fbs_dp s = fbs_dp s1" "fbs_mode s = fbs_mode s1"
    "fbs_width s = fbs_width s1" "fbs_height s = fbs_height s1" "fbs_stride s = fbs_stride s1" "fbs_frames s = fbs_frames s1"
    "fbs_phys s = fbs_phys s1" "fbs_palette s = fbs_palette s1" "fbs_cpu s = fbs_cpu s1" "fbs_dram s = fbs_dram s1"
    "fbs_smem_len s = fbs_stride s1 * fbs_height s1 * fbs_frames s1"
    by (simp_all add: geometry_ok_def vis_len_def stale_def)
qed

lemma registered_inv:
  assumes g: "geometry_ok s1" and "\<And>n. n < vis_len s1 \<Longrightarrow> \<not> stale s1 n" "\<not> fbs_dirty s1" "\<not> fbs_park_req s1" "glyph_ok (fbs_glyph s1)"
      "budget_ok (fbs_dp s1)" "fbs_mode s1 = dp_cur (fbs_dp s1)"
    and reg: "soct_dp_fb_register alloc defio_ok reg_ok v0 s1 = (None, s)"
  shows "fb_inv s None ([], {})"
proof -
  have "unat (fbs_smem_len s) = vis_len s" unfolding registered [OF reg] by (rule screen_bytes(2) [OF g])
  then show ?thesis using assms by (simp add: fb_inv_def rect_ok_def all_covered_def registered [OF reg])
qed

lemma prepare_clears:
  assumes z: "fresh_module z" "carveout_ok fb fb_size (dp_cur (fbs_dp z))"
    and prep: "soct_dp_fb_prepare True True True pages fb fb_size (dp_cur (fbs_dp z)) z = Some (None, s1)"
  shows "geometry_ok s1" "n < vis_len s1 \<Longrightarrow> \<not> stale s1 n" "\<not> fbs_dirty s1" "\<not> fbs_park_req s1" "glyph_ok (fbs_glyph s1)"
    "fbs_dp s1 = fbs_dp z" "fbs_mode s1 = dp_cur (fbs_dp z)" "n < vis_len s1 \<Longrightarrow> fbs_cpu s1 (fbs_phys s1 + of_nat n) = 0"
    "fbs_width s1 = hactive (dp_cur (fbs_dp z))" "fbs_height s1 = vactive (dp_cur (fbs_dp z))"
proof -
  let ?g = "prepared fb fb_size pages z"
  have fit: "3 * (unat (hactive (dp_cur (fbs_dp z))) * unat (vactive (dp_cur (fbs_dp z)))) \<le> unat fb_size"
    using z(2) by (intro prepare_fits [OF prep]) (simp add: carveout_ok_def)
  obtain D where D: "s1 = writeback D (?g\<lparr>fbs_cpu := store_bytes fb (replicate (vis_len ?g) 0) (fbs_cpu ?g)\<rparr>)"
      "\<forall>n < vis_len ?g. fb + of_nat n \<in> D"
    using prepare_result(2) [OF z(2) fit, of pages] prep by auto
  have cpu: "geometry_ok (x\<lparr>fbs_cpu := m\<rparr>) = geometry_ok x" "vis_len (x\<lparr>fbs_cpu := m\<rparr>) = vis_len x" for x m
    by (simp_all add: geometry_ok_def vis_len_def)
  show "geometry_ok s1" using prepare_result(1) [OF z(2) fit, of pages] by (simp add: D(1) cpu)
  have v: "vis_len s1 = vis_len ?g" by (simp add: D(1) cpu)
  show "n < vis_len s1 \<Longrightarrow> \<not> stale s1 n" using D(2) unfolding v by (simp add: D(1))
  show "fbs_cpu s1 (fbs_phys s1 + of_nat n) = 0" if "n < vis_len s1"
  proof -
    have g: "geometry_ok ?g" by (rule prepare_result(1) [OF z(2) fit])
    have "unat fb_size < 2 ^ 32" using z(2) by (simp add: carveout_ok_def)
    then have "n < 2 ^ 64" using geometry_facts(1) [OF g] that v by simp
    then have "unat (of_nat n :: u64) = n" by (intro unat_of_nat_small) simp
    then show ?thesis using that v by (simp add: D(1) store_bytes_def)
  qed
  show "\<not> fbs_dirty s1" "\<not> fbs_park_req s1" "glyph_ok (fbs_glyph s1)" "fbs_dp s1 = fbs_dp z" "fbs_mode s1 = dp_cur (fbs_dp z)"
    "fbs_width s1 = hactive (dp_cur (fbs_dp z))" "fbs_height s1 = vactive (dp_cur (fbs_dp z))"
    using z(1) by (simp_all add: D(1) fresh_module_def glyph_ok_def)
qed

lemma init_inv:
  assumes z: "fresh_module z" "budget_ok (fbs_dp z)" "carveout_ok fb fb_size (dp_cur (fbs_dp z))"
    and prep: "soct_dp_fb_prepare True True True pages fb fb_size (dp_cur (fbs_dp z)) z = Some (None, s1)"
    and reg: "soct_dp_fb_register True defio_ok True v0 s1 = (None, s)"
  shows "fb_inv s None ([], {})"
  using prepare_clears [OF z(1,3) prep] z(2) by (intro registered_inv [OF _ _ _ _ _ _ _ reg]) simp_all

lemma fb_step_inv [soct_inv]: "fb_step c c' \<Longrightarrow> fb_inv (fst c) (fst (snd c)) (snd (snd c)) \<Longrightarrow> fb_inv (fst c') (fst (snd c')) (snd (snd c'))"
proof (induction rule: fb_step.induct)
  case (Set_var v s v' E r s' P)
  have var: "fb_inv (x\<lparr>fbs_var := v''\<rparr>) None P = fb_inv x None P" for x v''
    by (simp add: fb_inv_def geometry_ok_def rect_ok_def vis_len_def all_covered_def covered_def in_dirty_def stale_def)
  have "fb_inv s' None P" using set_par_inv [OF _ Set_var(1,2), of P E] Set_var(3,4) by auto
  then show ?case by (simp add: var)
next
  case (Write dying data count pos s r pos' s' oj P)
  then show ?case using write_inv by auto
next
  case (Copyarea s x y w h cfb dying s' oj P)
  then show ?case using defio_inv [of s oj P x y w h cfb dying] by auto
next
  case (Imageblit s im cfb dying s' oj P)
  then show ?case using imageblit_inv [of s oj P im cfb dying] by auto
next
  case (Fillrect s f cfb dying s' oj P)
  then show ?case using fillrect_inv [of s oj P f cfb dying] by auto
next
  case (Work j s oj' s' P)
  then show ?case using work_step_inv by simp
next
  case (Write_fault dying data count pos s pos' s' oj P L)
  then show ?case using write_fault_inv by simp
next
  case (Deferred_io Q P s s' oj L)
  then show ?case using deferred_io_inv [of s oj P L Q] by auto
next
  case (Work_take s j s' P)
  then show ?case using take_inv by simp
next
  case (User_store s off oj P L v)
  then show ?case using user_store_inv by simp
qed (simp_all only: fst_conv snd_conv setcolreg_inv pan_inv evict_inv)

lemma fb_reach_inv: "fb_reach c \<Longrightarrow> fb_inv (fst c) (fst (snd c)) (snd (snd c))"
proof (induction rule: fb_reach.induct)
  case (Init z fb fb_size pages s1 defio_ok v0 s)
  then show ?case using init_inv by simp
next
  case (Step c c')
  then show ?case using fb_step_inv by blast
qed

lemma fb_reach_exists:
  assumes z: "fresh_module z" "budget_ok (fbs_dp z)" "carveout_ok fb fb_size (dp_cur (fbs_dp z))" "pixel_clock_hz (dp_cur (fbs_dp z)) \<noteq> 0"
    and fit: "3 * (unat (hactive (dp_cur (fbs_dp z))) * unat (vactive (dp_cur (fbs_dp z)))) \<le> unat fb_size"
  shows "\<exists>s. fb_reach (s, None, [], {}) \<and> fbs_mode s = dp_cur (fbs_dp z) \<and> fbs_width s = hactive (dp_cur (fbs_dp z)) \<and>
    fbs_height s = vactive (dp_cur (fbs_dp z)) \<and> fbs_stride s = hactive (dp_cur (fbs_dp z)) * 3 \<and>
    fbs_frames s = nframes fb_size (hactive (dp_cur (fbs_dp z)) * 3) (vactive (dp_cur (fbs_dp z))) \<and>
    fbs_palette s = fbs_palette z \<and> \<not> fbs_dirty s"
proof -
  obtain D where D: "soct_dp_fb_prepare True True True True fb fb_size (dp_cur (fbs_dp z)) z =
      Some (None, writeback D ((prepared fb fb_size True z)\<lparr>fbs_cpu := store_bytes fb
        (replicate (vis_len (prepared fb fb_size True z)) 0) (fbs_cpu (prepared fb fb_size True z))\<rparr>))" (is "_ = Some (None, ?s1)")
    using prepare_result(2) [OF z(3) fit] by blast
  have f: "fbs_mode ?s1 = dp_cur (fbs_dp z)" "fbs_palette ?s1 = fbs_palette z" by (simp_all add: writeback_def)
  obtain s where r: "soct_dp_fb_register True True True demo_var ?s1 = (None, s)"
    using z(4) unfolding soct_dp_fb_register_def f(1) soct_dp_fb_fill_var_def by (simp add: Let_def)
  have "fb_reach (s, None, [], {})" by (rule fb_reach.Init [OF z(1-3) D r])
  then show ?thesis using z(1) by (intro exI [of _ s]) (simp add: registered [OF r] f fresh_module_def)
qed

lemma demo_reach:
  "\<exists>s. fb_reach (s, None, [], {}) \<and> fbs_mode s = mode_1080p \<and> fbs_width s = 1920 \<and> fbs_height s = 1080 \<and> fbs_stride s = 5760 \<and>
    fbs_frames s = 2 \<and> fbs_palette s = [0, 0xABCDEF] @ replicate 14 0 \<and> \<not> fbs_dirty s"
  using fb_reach_exists [where z = demo_fbdev and fb = "0x80000000" and fb_size = "0x1000000"]
  by (simp add: demo_fbdev_def fresh_module_def budget_ok_def demo_dp_def pixel_lim_def carveout_ok_def mode_1080p_def nframes_def)

text \<open>A write that faults after its first byte leaves that byte in the caches and no record of it.\<close>

lemma faulted_write:
  assumes "fb_reach (s, oj, P, {})" "0 < vis_len s" "vis_len s \<noteq> 1"
  shows "\<exists>s'. fb_reach (s', oj, P, {n. n < 1}) \<and> stale s' 0 \<and> fbs_mode s' = fbs_mode s \<and> fbs_dirty s' = fbs_dirty s \<and>
    vis_len s' = vis_len s"
proof -
  let ?d = "[fbs_dram s (fbs_phys s) + 1]"
  let ?s = "s\<lparr>fbs_cpu := store_bytes (fbs_phys s) ?d (fbs_cpu s)\<rparr>"
  have inv: "fb_inv s oj (P, {})" using fb_reach_inv [OF assms(1)] by simp
  then have t: "unat (ucast (fbs_smem_len s) :: u64) = vis_len s" by (simp add: fb_inv_def unat_ucast_up)
  have "\<not> (2 :: u64) > ucast (fbs_smem_len s)" using t assms(2,3) by (simp add: word_less_nat_alt)
  then have "soct_dp_fb_write False ?d 2 0 s = Some (Inl Fb_EFAULT, 0, ?s)"
    by (simp add: soct_dp_fb_write_def Let_def)
  from fb_step.Write_fault [OF this, of oj P "{}"] have "fb_reach (?s, oj, P, {n. n < 1})"
    using fb_reach.Step [OF assms(1)] by (simp add: less_Suc0)
  moreover have "stale ?s 0" by (simp add: stale_def store_bytes_def)
  ultimately show ?thesis by (intro exI [of _ ?s]) (simp add: vis_len_def)
qed

lemma flip_index: "f < (2 :: u32) \<Longrightarrow> f AND 0x1F = f"
proof -
  assume "f < 2"
  then have "unat f < 2" by (simp add: word_less_nat_alt)
  then have "unat f = 0 \<or> unat f = 1" by linarith
  then have "f = 0 \<or> f = 1" by (auto simp: word_unat_eq_iff)
  then show ?thesis by auto
qed

subsection \<open>What the worker leaves behind\<close>

lemma flush_range_only:
  assumes "flush_range start len s = Some s'"
  shows "\<exists>D. s' = writeback D s"
  using assms unfolding flush_range_def
proof (rule addr_loop_keeps)
  fix a x assume "\<exists>D. x = writeback D s"
  then obtain D where x: "x = writeback D s" by blast
  have "flush_line a x = writeback {b. b AND NOT 63 = a AND NOT 63} x" by (simp add: flush_line_def writeback_def)
  then show "\<exists>D. flush_line a x = writeback D s" unfolding x by (intro exI) simp
qed (intro exI [of _ "{}"], simp)

lemma settles_writeback [simp]: "settles s (writeback D s)"
  by (simp add: settles_def)

lemma settles_refl [simp]: "settles s s"
  by (simp add: settles_def)

lemma settles_park [simp]: "settles s s' \<Longrightarrow> settles s (park_scanout j s')"
  by (simp add: settles_def) (simp add: park_scanout_def split: option.split)

text \<open>Neither the caches nor the records matter on the side that is left.\<close>

lemma settles_from [simp]:
  "settles (s\<lparr>fbs_cpu := m\<rparr>) s' = settles s s'" "settles (s\<lparr>fbs_glyph := g\<rparr>) s' = settles s s'"
  "settles (s\<lparr>fbs_dirty := d\<rparr>) s' = settles s s'" "settles (s\<lparr>fbs_park_req := q\<rparr>) s' = settles s s'"
  "settles (s\<lparr>fbs_queued := q\<rparr>) s' = settles s s'" "settles (record_damage x y x1 y1 s) s' = settles s s'"
  by (simp_all add: settles_def vis_len_def record_damage_def)

lemma settles_trans:
  assumes "settles s s'" "settles s' s''" "fbs_cpu s'' = fbs_cpu s'"
  shows "settles s s''"
  unfolding settles_def
proof (intro conjI allI)
  fix b
  have "fbs_dram s' b = fbs_dram s b \<or> fbs_dram s' b = fbs_cpu s' b" using assms(1) unfolding settles_def by blast
  moreover have "fbs_dram s'' b = fbs_dram s' b \<or> fbs_dram s'' b = fbs_cpu s'' b" using assms(2) unfolding settles_def by blast
  ultimately show "fbs_dram s'' b = fbs_dram s b \<or> fbs_dram s'' b = fbs_cpu s'' b" using assms(3) by metis
qed (use assms in \<open>simp_all add: settles_def\<close>)

lemma step_settles:
  assumes "flush_work_step j s = Some (oj, s')"
  shows "settles s s'" "fbs_cpu s' = fbs_cpu s"
proof -
  consider (row) s1 where "work_row j s = Some s1" "s' = s1" | (park) "s' = park_scanout j s"
    using assms by (auto simp: flush_work_step_def split: if_splits)
  then have "settles s s' \<and> fbs_cpu s' = fbs_cpu s"
  proof cases
    case row
    then obtain D where "s' = writeback D s" using flush_range_only unfolding work_row_def by blast
    then show ?thesis by simp
  qed simp
  then show "settles s s'" "fbs_cpu s' = fbs_cpu s" by simp_all
qed

lemma run_settles:
  assumes "flush_work_run j s = Some s'"
  shows "settles s s' \<and> fbs_cpu s' = fbs_cpu s"
  using assms
proof (rule flush_work_run.raw_induct [where P = "\<lambda>j s s'. settles s s' \<and> fbs_cpu s' = fbs_cpu s", rotated], goal_cases)
  case (1 run j s s')
  then obtain oj s1 where s1: "flush_work_step j s = Some (oj, s1)" "case oj of None \<Rightarrow> s1 = s' | Some j \<Rightarrow> run j s1 = Some s'"
    by (auto split: Option.bind_splits option.splits)
  note step = step_settles [OF s1(1)]
  show ?case
  proof (cases oj)
    case None
    with s1(2) step show ?thesis by simp
  next
    case (Some j')
    with s1(2) 1(1) have "settles s1 s'" "fbs_cpu s' = fbs_cpu s1" by auto
    then show ?thesis using settles_trans [OF step(1)] step(2) by simp
  qed
qed

lemma damage_settles:
  assumes "soct_dp_fb_damage_area dying x y w h s = Some s'"
  shows "settles s s'"
proof -
  have q: "settles s ((record_damage a b c d s)\<lparr>fbs_queued := True\<rparr>)" for a b c d
    by (simp add: settles_def vis_len_def record_damage_def)
  have f: "settles s s'" if "soct_dp_fb_flush_work (record_damage a b c d s) = Some s'" for a b c d
    using run_settles that by (fastforce simp: soct_dp_fb_flush_work_def flush_take_def)
  show ?thesis using assms q f by (auto simp: soct_dp_fb_damage_area_def Let_def split: if_splits)
qed

lemma draw_settles:
  "soct_dp_fb_damage_area dying x y w h (s\<lparr>fbs_cpu := m\<rparr>) = Some s' \<Longrightarrow> settles s s'"
  "soct_dp_fb_damage_area dying x y w h (s\<lparr>fbs_glyph := g, fbs_cpu := m\<rparr>) = Some s' \<Longrightarrow> settles s s'"
  using damage_settles by fastforce+

lemma op_settles:
  "soct_dp_fb_defio cfb dying x y w h s = Some s' \<Longrightarrow> settles s s'"
  "soct_dp_fb_imageblit cfb dying im s = Some s' \<Longrightarrow> settles s s'"
  "soct_dp_fb_fillrect cfb dying f s = Some s' \<Longrightarrow> settles s s'"
  "soct_dp_fb_write dying data count pos s = Some (r, pos', s') \<Longrightarrow> settles s s'"
  "settles s (snd (soct_dp_fb_setcolreg regno red g b s))" "settles s (snd (soct_dp_fb_pan_display v s))"
  "settles s (flush_line a s)" "settles s (s\<lparr>fbs_cpu := m\<rparr>)"
proof -
  show "settles s s'" if "soct_dp_fb_defio cfb dying x y w h s = Some s'"
    using that by (auto simp: soct_dp_fb_defio_def dest: draw_settles)
  then show "settles s s'" if "soct_dp_fb_imageblit cfb dying im s = Some s'"
    using that by (auto simp: soct_dp_fb_imageblit_def soct_dp_fb_defio_def Let_def dest: draw_settles split: if_splits)
  show "settles s s'" if "soct_dp_fb_fillrect cfb dying f s = Some s'"
    using that by (auto simp: soct_dp_fb_fillrect_def soct_dp_fb_defio_def Let_def dest: draw_settles split: if_splits)
  show cpu: "settles s (s\<lparr>fbs_cpu := m\<rparr>)" for m by (simp add: settles_def vis_len_def)
  show "settles s s'" if "soct_dp_fb_write dying data count pos s = Some (r, pos', s')"
    using that cpu by (auto simp: soct_dp_fb_write_def soct_dp_fb_damage_range_def Let_def dest: draw_settles split: if_splits)
  show "settles s (snd (soct_dp_fb_setcolreg regno red g b s))" "settles s (snd (soct_dp_fb_pan_display v s))" "settles s (flush_line a s)"
    by (simp_all add: settles_def vis_len_def soct_dp_fb_setcolreg_def soct_dp_fb_pan_display_def flush_line_def Let_def)
qed

lemma settles_stale:
  assumes "settles s s'" "fbs_cpu s' (fbs_phys s + of_nat n) = fbs_cpu s (fbs_phys s + of_nat n)" "stale s' n"
  shows "stale s n"
proof -
  have "fbs_phys s' = fbs_phys s" using assms(1) by (simp add: settles_def)
  moreover have "fbs_dram s' (fbs_phys s + of_nat n) = fbs_dram s (fbs_phys s + of_nat n) \<or>
      fbs_dram s' (fbs_phys s + of_nat n) = fbs_cpu s' (fbs_phys s + of_nat n)"
    using assms(1) unfolding settles_def by blast
  ultimately show ?thesis using assms(2,3) unfolding stale_def by metis
qed

text \<open>What a running worker has still to write back of the bytes that were drawn before it started.\<close>

definition awaited :: "fb_state \<Rightarrow> flush_job option \<Rightarrow> fb_track \<Rightarrow> nat \<Rightarrow> bool" where
  "awaited s oj P n \<longleftrightarrow> in_job s oj n \<or> in_pages P n \<or> n \<in> snd P"

lemma settles_awaited: "settles s s' \<Longrightarrow> awaited s' (Some j) P n = awaited s (Some j) P n"
  by (simp add: awaited_def settles_def)

lemma awaited_step:
  assumes "fb_step (s, Some j, P) (s', Some j', P')" and inv: "fb_inv s (Some j) P"
  shows "settles s s' \<and> (\<forall>n < vis_len s. awaited s (Some j) P n \<longrightarrow> stale s' n \<longrightarrow> awaited s' (Some j') P' n)"
proof -
  have plain: ?thesis if "settles s s'" "j' = j" "P' = P" using that settles_awaited by blast
  from assms(1) show ?thesis
  proof cases
    case (Work)
    then obtain D where "fj_dirty j" "fj_y j \<le> fj_y1 j" "work_row j s = Some s'" "j' = j\<lparr>fj_y := fj_y j + 1\<rparr>"
      by (auto simp: flush_work_step_def split: if_splits)
    with row_flushes [OF inv] obtain D where D: "s' = writeback D s"
      "\<And>n. in_job s (Some j) n \<Longrightarrow> fbs_phys s + of_nat n \<notin> D \<Longrightarrow> in_job s' (Some j') n" by metis
    then show ?thesis using Work by (simp only: awaited_def settles_writeback writeback_keeps_inv) blast
  next
    case (Deferred_io Q P0 L)
    have g: "geometry_ok s" "\<forall>p\<in>set Q. p \<le> fbs_carveout s" using inv Deferred_io by (simp_all add: fb_inv_def)
    obtain D where D: "s' = writeback D s" "\<And>n. n < vis_len s \<Longrightarrow> in_pages (Q, L) n \<Longrightarrow> fbs_phys s + of_nat n \<in> D"
      using deferred_io_flushes [OF g] Deferred_io by (metis option.inject)
    have "awaited s' (Some j') P' n" if "n < vis_len s" "awaited s (Some j) P n" "stale s' n" for n
      using that D(2) [of n] Deferred_io by (auto simp: awaited_def in_pages_def D(1))
    then show ?thesis by (simp add: D(1))
  next
    case (User_store off P0 L v)
    then show ?thesis using op_settles(8) [of s] by (auto simp: awaited_def in_pages_def)
  next
    case (Write_fault dying data count pos pos' P0 L)
    then have x: "settles s s'" using op_settles(4) by blast
    then show ?thesis using settles_awaited [OF x] Write_fault by (auto simp: awaited_def in_pages_def settles_def)
  next
    case Write
    then show ?thesis using plain op_settles(4) by blast
  next
    case Copyarea
    then show ?thesis using plain op_settles(1) by blast
  next
    case Imageblit
    then show ?thesis using plain op_settles(2) by blast
  next
    case Fillrect
    then show ?thesis using plain op_settles(3) by blast
  qed (use plain op_settles(5-7) in metis)+
qed

lemma fb_running_awaits:
  "fb_running c R \<Longrightarrow> fb_reach c \<and> (\<forall>s j P. c = (s, Some j, P) \<longrightarrow> fbs_mode s \<noteq> no_mode \<longrightarrow>
     (\<forall>n < vis_len s. n \<notin> R \<longrightarrow> stale s n \<longrightarrow> awaited s (Some j) P n))"
proof (induction rule: fb_running.induct)
  case (Took s P j s')
  have inv: "fb_inv s None P" using fb_reach_inv [OF Took(1)] by simp
  have s': "s' = s\<lparr>fbs_queued := False, fbs_dirty := False, fbs_park_req := False\<rparr>"
    and j: "fj_dirty j = fbs_dirty s" "fj_x0 j = fbs_x0 s" "fj_x1 j = fbs_x1 s" "fj_y j = fbs_y0 s" "fj_y1 j = fbs_y1 s"
    using Took(3) by (auto simp: flush_take_def)
  have "awaited s' (Some j) P n" if "fbs_mode s' \<noteq> no_mode" "n < vis_len s'" "stale s' n" for n
  proof -
    have "covered s None P n"
      using inv that by (simp add: fb_inv_def all_covered_def s' vis_len_def stale_def)
    then show ?thesis by (auto simp: covered_def awaited_def in_dirty_def j s')
  qed
  moreover have "fb_reach (s', Some j, P)" using fb_reach.Step [OF Took(1) fb_step.Work_take [OF Took(2,3)]] .
  ultimately show ?case by blast
next
  case (Goes_on s j P R s' j' P')
  have inv: "fb_inv s (Some j) P" using fb_reach_inv [of "(s, Some j, P)"] Goes_on.IH by simp
  note step = awaited_step [OF Goes_on(2) inv]
  have eq: "fbs_mode s' = fbs_mode s" "vis_len s' = vis_len s" using step by (simp_all add: settles_def)
  have "awaited s' (Some j') P' n"
    if "fbs_mode s' \<noteq> no_mode" "n < vis_len s'" "n \<notin> R" "stale s' n"
      "fbs_cpu s' (fbs_phys s + of_nat n) = fbs_cpu s (fbs_phys s + of_nat n)" for n
    using that settles_stale [OF _ that(5,4)] step Goes_on.IH unfolding eq by blast
  moreover have "fb_reach (s', Some j', P')" using fb_reach.Step [OF _ Goes_on(2)] Goes_on.IH by blast
  ultimately show ?case by auto
qed

section \<open>Properties\<close>

text \<open>
  C22. Nothing drawn is forgotten, except by a write that faults. In every reachable state, whatever the
  drawing operations, writes, user stores, evictions, panning, mode changes and steps of the worker so
  far: a visible byte that the memory lacks lies in the recorded damage, in the rest of the running
  worker's job, in a page the deferred I/O tracks, or was stored by a write that then faulted in
  \<open>copy_from_user\<close> (the set \<open>L\<close>), which the driver records nowhere; recorded damage and flip requests have
  the worker queued; the screen lies inside the carve-out; and the device has no mode exactly when the
  pipeline has none. The witness has a state without such a write, in which nothing is stale, and one
  with it, in which a byte is stale and no damage is recorded.
\<close>

theorem fb_damage_complete:
  assumes "fb_reach (s, oj, P, L)"
  shows "(fbs_mode s \<noteq> no_mode \<longrightarrow> (\<forall>n < vis_len s. stale s n \<longrightarrow>
        in_dirty s n \<or> in_job s oj n \<or> of_nat (n div 4096 * 4096) \<in> set P \<or> n \<in> L)) \<and>
    (fbs_dirty s \<or> fbs_park_req s \<longrightarrow> fbs_queued s) \<and> vis_len s \<le> unat (fbs_carveout s) \<and> fbs_mode s = dp_cur (fbs_dp s)"
  using fb_reach_inv [OF assms] geometry_facts(1) [of s] by (simp add: fb_inv_def all_covered_def covered_def in_pages_def)

theorem fb_damage_complete_witness:
  "(\<exists>s. fb_reach (s, None, [], {}) \<and> fbs_mode s = mode_1080p \<and> (\<forall>n < vis_len s. \<not> stale s n)) \<and>
   (\<exists>s L. fb_reach (s, None, [], L) \<and> fbs_mode s = mode_1080p \<and> stale s 0 \<and> \<not> fbs_dirty s \<and> 0 \<in> L)"
proof -
  obtain s where s: "fb_reach (s, None, [], {})" "fbs_mode s = mode_1080p" "\<not> fbs_dirty s" "0 < vis_len s" "vis_len s \<noteq> 1"
    using demo_reach by (auto simp: vis_len_def)
  have m: "mode_1080p \<noteq> no_mode" by (simp add: mode_1080p_def no_mode_def)
  have "\<forall>n < vis_len s. \<not> stale s n" using fb_damage_complete [OF s(1)] s(2,3) m by (simp add: in_dirty_def)
  moreover obtain s' where s': "fb_reach (s', None, [], {n. n < 1})" "stale s' 0" "fbs_mode s' = fbs_mode s"
      "fbs_dirty s' = fbs_dirty s" "vis_len s' = vis_len s"
    using faulted_write [OF s(1)] s(4,5) by blast
  ultimately show ?thesis using s s' fb_damage_complete [OF s'(1)] m by (auto simp: in_dirty_def)
qed

text \<open>
  C25. A flip shows a finished frame. The worker's only register write is the flip to the frame a pan asked
  for, a frame that exists, and it is its last step. At that moment every visible byte whose drawn value
  has not changed since the worker took the damage (the set \<open>R\<close> holds those that have) is in memory, unless
  deferred I/O tracks its page or it was stored by a write that then faulted.
\<close>

theorem fb_flip_fresh:
  assumes "fb_running (s, Some j, P, L) R" and "fbs_mode s \<noteq> no_mode" and "flush_work_step j s = Some (oj', s')"
    and "dp_log (fbs_dp s') \<noteq> dp_log (fbs_dp s)"
  shows "\<exists>f. fj_park j = Some f \<and> f < fbs_frames s \<and> dp_log (fbs_dp s') = dp_log (fbs_dp s) @ [Vdma_write 0x28 f] \<and> oj' = None \<and>
    (\<forall>n < vis_len s. n \<notin> R \<and> of_nat (n div 4096 * 4096) \<notin> set P \<and> n \<notin> L \<longrightarrow>
       fbs_dram s (fbs_phys s + of_nat n) = fbs_cpu s (fbs_phys s + of_nat n))"
proof -
  note run = fb_running_awaits [OF assms(1)]
  have inv: "fb_inv s (Some j) (P, L)" using fb_reach_inv run by fastforce
  have last: "\<not> (fj_dirty j \<and> fj_y j \<le> fj_y1 j)"
  proof
    assume a: "fj_dirty j \<and> fj_y j \<le> fj_y1 j"
    then have "work_row j s = Some s'" using assms(3) by (auto simp: flush_work_step_def)
    then obtain D where "s' = writeback D s" using row_flushes [OF inv] a by blast
    with assms(4) show False by simp
  qed
  then have s': "s' = park_scanout j s" "oj' = None" using assms(3) by (auto simp: flush_work_step_def)
  then obtain f where f: "fj_park j = Some f" using assms(4) by (auto simp: park_scanout_def split: option.splits)
  then have lt: "f < fbs_frames s" using inv by (simp add: fb_inv_def)
  have "fbs_frames s = 1 \<or> fbs_frames s = 2" using geometry_facts(4) inv by (simp add: fb_inv_def)
  then have "f AND 0x1F = f" using flip_index [of f] lt by auto
  then have "dp_log (fbs_dp s') = dp_log (fbs_dp s) @ [Vdma_write 0x28 f]"
    by (simp add: s' f park_scanout_def soct_dp_set_scanout_frame_def dp_emit_def)
  moreover have "\<not> stale s n" if "n < vis_len s" "n \<notin> R" "of_nat (n div 4096 * 4096) \<notin> set P" "n \<notin> L" for n
    using run that assms(2) job_done [OF last, of s n] by (auto simp: awaited_def in_pages_def)
  ultimately show ?thesis using f lt s'(2) by (auto simp: stale_def)
qed

theorem fb_flip_fresh_witness:
  "\<exists>s j s'. fb_running (s, Some j, [], {}) {} \<and> flush_work_step j s = Some (None, s') \<and>
     dp_log (fbs_dp s') = dp_log (fbs_dp s) @ [Vdma_write 0x28 1] \<and>
     (\<forall>n < vis_len s. fbs_dram s (fbs_phys s + of_nat n) = fbs_cpu s (fbs_phys s + of_nat n))"
proof -
  obtain s where s: "fb_reach (s, None, [], {})" "fbs_mode s = mode_1080p" "fbs_height s = 1080" "fbs_frames s = 2" "\<not> fbs_dirty s"
    using demo_reach by blast
  let ?p = "snd (soct_dp_fb_pan_display demo_var s)"
  have p: "?p = s\<lparr>fbs_park_frame := 1, fbs_park_req := True, fbs_queued := True\<rparr>"
    using s by (simp add: soct_dp_fb_pan_display_def demo_var_def word_le_nat_alt)
  have r: "fb_reach (?p, None, [], {})" by (rule fb_reach.Step [OF s(1) fb_step.Pan])
  obtain j s' where t: "flush_take (?p\<lparr>fbs_queued := False\<rparr>) = (j, s')" by fastforce
  have q: "fbs_queued ?p" by (simp add: p)
  have r': "fb_running (s', Some j, [], {}) {}" by (rule fb_running.Took [OF r q t])
  have j: "fj_park j = Some 1" "\<not> fj_dirty j" and s': "fbs_frames s' = 2" "fbs_mode s' = mode_1080p"
    using t s by (auto simp: flush_take_def p)
  have m: "fbs_mode s' \<noteq> no_mode" by (simp add: s' mode_1080p_def no_mode_def)
  have st: "flush_work_step j s' = Some (None, park_scanout j s')" using j by (simp add: flush_work_step_def)
  have log: "dp_log (fbs_dp (park_scanout j s')) \<noteq> dp_log (fbs_dp s')"
    by (simp add: j park_scanout_def soct_dp_set_scanout_frame_def dp_emit_def)
  from fb_flip_fresh [OF r' m st log] j r' st show ?thesis
    by (intro exI [of _ s'] exI [of _ j] exI [of _ "park_scanout j s'"]) simp
qed

text \<open>
  C26. The fast path of the console draws the image. For an image of one bit per pixel that lies on the
  screen, the table of patterns, reused or rebuilt, gives every pixel of the image's area the foreground
  or the background colour as its bit says, blue first, and no other byte of memory changes.
\<close>

theorem imageblit_renders:
  assumes "fb_reach (s, oj, P)" and "image_ok s im" and "im_depth im = 1"
    and "soct_dp_fb_imageblit cfb dying im s = Some s'"
  shows "(\<forall>n < vis_len s. fbs_cpu s' (fbs_phys s + of_nat n) =
      (let S = unat (fbs_stride s); c = n mod S div 3 - unat (im_dx im)
       in if area S (unat (im_dx im)) (unat (im_dy im)) (unat (im_width im)) (unat (im_height im)) n
          then color_bytes (image_pixel (fbs_palette s) im (n div S - unat (im_dy im)) c) ! (n mod S mod 3)
          else fbs_cpu s (fbs_phys s + of_nat n))) \<and>
    (\<forall>b. b \<notin> addr_span (fbs_phys s) (vis_len s) \<longrightarrow> fbs_cpu s' b = fbs_cpu s b)"
proof -
  let ?fg = "fbs_palette s ! unat (im_fg im)" and ?bg = "fbs_palette s ! unat (im_bg im)"
  let ?S = "unat (fbs_stride s)" and ?x = "unat (im_dx im)" and ?y = "unat (im_dy im)" and ?w = "unat (im_width im)" and ?h = "unat (im_height im)"
  have inv: "fb_inv s oj P" using fb_reach_inv [OF assms(1)] by simp
  have g: "geometry_ok s" using inv by (simp add: fb_inv_def)
  have i: "inside s (im_dx im) (im_dy im) (im_width im) (im_height im)" and d: "image_pitch im * ?h \<le> length (im_data im)"
    using assms(2) by (simp_all add: image_ok_def)
  have x: "?x + ?w \<le> unat (fbs_width s)" and y: "?y + ?h \<le> unat (fbs_height s * fbs_frames s)" using i by (simp_all add: inside_def)
  have m: "fbs_cpu s' = fold (\<lambda>r. store_bytes (fbs_phys s + of_nat ((?y + r) * ?S + 3 * ?x)) (image_row ?fg ?bg im r)) [0..<?h] (fbs_cpu s)"
    using imageblit_result [OF inv assms(3) i d, of cfb dying] assms(4) by auto
  have "image_row ?fg ?bg im (n div ?S - ?y) ! (n mod ?S - 3 * ?x) =
      color_bytes (image_pixel (fbs_palette s) im (n div ?S - ?y) (n mod ?S div 3 - ?x)) ! (n mod ?S mod 3)"
    if a: "area ?S ?x ?y ?w ?h n" for n
  proof -
    let ?k = "n mod ?S - 3 * ?x"
    have k: "?k < 3 * ?w" "n div ?S - ?y < ?h" "3 * ?x \<le> n mod ?S" using a by (auto simp: area_def)
    obtain q where q: "n mod ?S = 3 * ?x + q" using k(3) le_Suc_ex by blast
    have "?k div 3 = n mod ?S div 3 - ?x" "?k mod 3 = n mod ?S mod 3"
      unfolding q by simp_all
    then show ?thesis unfolding image_row_nth(2) [OF d k(2,1)] image_pixel_def by simp
  qed
  then show ?thesis
    unfolding m using fold_rows [OF g x y image_row_nth(1) [OF d]] by (simp add: Let_def)
qed

theorem imageblit_renders_witness:
  "\<exists>s s'. fb_reach (s, None, [], {}) \<and> soct_dp_fb_imageblit (\<lambda>m. m) False demo_glyph s = Some s' \<and>
     fbs_cpu s' (fbs_phys s + of_nat (5760 + 17 * 3)) = 0xEF \<and> fbs_cpu s' (fbs_phys s + of_nat (5760 + 18 * 3)) = 0"
proof -
  obtain s where s: "fb_reach (s, None, [], {})" "fbs_width s = 1920" "fbs_height s = 1080" "fbs_stride s = 5760" "fbs_frames s = 2"
      "fbs_palette s = [0, 0xABCDEF] @ replicate 14 0" using demo_reach by blast
  have inv: "fb_inv s None ([], {})" using fb_reach_inv [OF s(1)] by simp
  have ok: "image_ok s demo_glyph" by (simp add: image_ok_def inside_def demo_glyph_def image_pitch_def s)
  have d: "im_depth demo_glyph = 1" by (simp add: demo_glyph_def)
  obtain s' where s': "soct_dp_fb_imageblit (\<lambda>m. m) False demo_glyph s = Some s'"
    using imageblit_result [OF inv d] ok by (auto simp: image_ok_def)
  have v: "vis_len s = 12441600" by (simp add: vis_len_def s)
  note r = imageblit_renders [OF s(1) ok d s', THEN conjunct1, rule_format, unfolded Let_def v s area_def]
  have "fbs_cpu s' (fbs_phys s + of_nat (5760 + 17 * 3)) = 0xEF"
    by (subst r) (simp_all add: demo_glyph_def image_pixel_def color_bytes_def image_pitch_def bit_numeral_simps)
  moreover have "fbs_cpu s' (fbs_phys s + of_nat (5760 + 18 * 3)) = 0"
    by (subst r) (simp_all add: demo_glyph_def image_pixel_def color_bytes_def image_pitch_def)
  ultimately show ?thesis using s(1) s' by blast
qed

text \<open>
  C30. The device's state stays well formed. In every reachable state the rectangles of the damage and of
  the running job lie on the screen, the screen of one or two frames lies in the carve-out with the
  length the framebuffer core was told, a requested or running flip names a frame that exists, tracked
  pages start inside the carve-out, and the table of glyph patterns belongs to its two colours.
\<close>

theorem fb_state_well_formed:
  assumes "fb_reach (s, oj, P, L)"
  shows "(fbs_dirty s \<longrightarrow> fbs_x0 s \<le> fbs_x1 s \<and> fbs_x1 s < fbs_width s \<and> fbs_y0 s \<le> fbs_y1 s \<and> fbs_y1 s < fbs_height s * fbs_frames s) \<and>
    job_ok s oj \<and> (fbs_frames s = 1 \<or> fbs_frames s = 2) \<and> unat (fbs_stride s) = 3 * unat (fbs_width s) \<and>
    unat (fbs_smem_len s) = unat (fbs_stride s) * unat (fbs_height s) * unat (fbs_frames s) \<and>
    unat (fbs_smem_len s) \<le> unat (fbs_carveout s) \<and> (fbs_park_req s \<longrightarrow> fbs_park_frame s < fbs_frames s) \<and>
    (\<forall>p\<in>set P. p \<le> fbs_carveout s) \<and> glyph_ok (fbs_glyph s)"
proof -
  have i: "fb_inv s oj (P, L)" using fb_reach_inv [OF assms] by simp
  then have g: "geometry_ok s" by (simp add: fb_inv_def)
  have "unat (fbs_stride s) = 3 * unat (fbs_width s)" using g by (simp add: geometry_ok_def)
  then show ?thesis using i geometry_facts(1,4) [OF g] unfolding fb_inv_def rect_ok_def vis_len_def by simp
qed

theorem fb_state_well_formed_witness:
  "\<exists>s j. fb_reach (s, Some j, [], {}) \<and> fj_park j = Some 1 \<and> unat (fbs_smem_len s) = 12441600 \<and> 1 < fbs_frames s"
proof -
  obtain s where s: "fb_reach (s, None, [], {})" "fbs_height s = 1080" "fbs_stride s = 5760" "fbs_frames s = 2"
    using demo_reach by blast
  let ?p = "snd (soct_dp_fb_pan_display demo_var s)"
  have p: "?p = s\<lparr>fbs_park_frame := 1, fbs_park_req := True, fbs_queued := True\<rparr>"
    using s by (simp add: soct_dp_fb_pan_display_def demo_var_def word_le_nat_alt)
  have r: "fb_reach (?p, None, [], {})" by (rule fb_reach.Step [OF s(1) fb_step.Pan])
  obtain j s' where t: "flush_take (?p\<lparr>fbs_queued := False\<rparr>) = (j, s')" by fastforce
  have r': "fb_reach (s', Some j, [], {})" by (rule fb_reach.Step [OF r fb_step.Work_take [OF _ t]]) (simp add: p)
  have "fj_park j = Some 1" "fbs_height s' = 1080" "fbs_stride s' = 5760" "fbs_frames s' = 2" using t s by (auto simp: flush_take_def p)
  with fb_state_well_formed [OF r'] r' show ?thesis by (intro exI [of _ s'] exI [of _ j]) simp
qed

end
