(* ===== verification/Linux_Bringup.thy ===== *)
theory Linux_Bringup
  imports Linux_Fb_Inv
begin

text \<open>
  The bring-up worker of the Linux display driver, \<open>soct_dp_work\<close> of \<open>linux/drivers/dp/dp-main.c\<close>: from
  the device tree to a picture, with an early return for everything that is missing or fails. What the
  kernel finds in the device tree and what the vendor's link code answers are records of the
  environment. The register window through which that code reaches the processing system
  (\<open>drivers/dp/shim.c\<close>) is here too.
\<close>

section \<open>The register window\<close>

record ps_window =
  s_window_virt :: u64
  s_ps_base :: u64
  s_window_size :: u64

definition SoctXil_SetPsWindow :: "u64 \<Rightarrow> u64 \<Rightarrow> u64 \<Rightarrow> ps_window" where
  "SoctXil_SetPsWindow virt base len = \<lparr>s_window_virt = virt, s_ps_base = base, s_window_size = len\<rparr>"

definition translate :: "ps_window \<Rightarrow> u64 \<Rightarrow> u64 option" where
  "translate w addr =
     (if s_window_size w \<noteq> 0 \<and> s_ps_base w \<le> addr \<and> addr - s_ps_base w < s_window_size w
      then Some (s_window_virt w + (addr - s_ps_base w)) else None)"

definition Xil_In32 :: "ps_window \<Rightarrow> (u64 \<Rightarrow> u32) \<Rightarrow> u64 \<Rightarrow> u32" where
  "Xil_In32 w readl addr = (case translate w addr of None \<Rightarrow> 0 | Some p \<Rightarrow> readl p)"

definition Xil_Out32 :: "ps_window \<Rightarrow> u64 \<Rightarrow> u32 \<Rightarrow> (u64 \<Rightarrow> u32) \<Rightarrow> u64 \<Rightarrow> u32" where
  "Xil_Out32 w addr v regs = (case translate w addr of None \<Rightarrow> regs | Some p \<Rightarrow> regs(p := v))"

section \<open>The link\<close>

text \<open>
  What the vendor's calls return: the initialisation of the transmitter, whether a monitor is connected
  at each poll, its capabilities, the link configuration and the training.
\<close>

record link_env =
  le_init :: bool
  le_connected :: "nat \<Rightarrow> bool"
  le_caps :: bool
  le_config :: bool
  le_train :: bool

datatype link_result = Link_OK | Link_init | Link_no_monitor | Link_caps | Link_training

partial_function (option) hpd_wait :: "(nat \<Rightarrow> bool) \<Rightarrow> u32 \<Rightarrow> nat \<Rightarrow> u32 \<Rightarrow> bool option" where
  "hpd_wait conn timeout i waited =
     (if conn i then Some True else if timeout \<le> waited then Some False else hpd_wait conn timeout (Suc i) (waited + 100))"

declare hpd_wait.simps [code]

definition dp_link_up :: "link_env \<Rightarrow> u32 \<Rightarrow> link_result option" where
  "dp_link_up L hpd_timeout_ms =
     (if \<not> le_init L then Some Link_init
      else map_option (\<lambda>c. if \<not> c then Link_no_monitor else if \<not> le_caps L then Link_caps
                           else if \<not> le_config L \<or> \<not> le_train L then Link_training else Link_OK)
             (hpd_wait (le_connected L) hpd_timeout_ms 0 0))"

section \<open>The worker\<close>

text \<open>
  What the device tree holds: whether the frame fetch maps and whether it bypasses the caches, the
  framebuffer's range, the timing controller's properties, the status register, the register window,
  the properties of the framebuffer node, and the pixel clock; and what the kernel and the hardware
  answer while the worker runs.
\<close>

record bring_env =
  be_vdma :: bool
  be_incoherent :: bool
  be_fb :: "(u64 \<times> u64) option"
  be_vtc :: "(string \<Rightarrow> u32 option) option"
  be_vidstat :: bool
  be_window :: bool
  be_window_mapped :: bool
  be_fb_prop :: "string \<Rightarrow> u32 option"
  be_pixclk :: "(string \<Rightarrow> u32 option) option"
  be_pixclk_mapped :: bool
  be_l2 :: bool
  be_l2_mapped :: bool
  be_remapped :: bool
  be_pages :: bool
  be_hw :: switch_env
  be_avbuf :: bool
  be_link :: link_env
  be_hpd_timeout :: u32
  be_fb_alloc :: bool
  be_defio :: bool
  be_registered :: bool
  be_var :: fb_var_screeninfo

datatype bring_result = W_no_pipeline | W_no_fb | W_nodes | W_window | W_timing | W_disagree | W_prepare fb_err
  | W_vdma | W_avbuf | W_link link_result | W_up bool "fb_err option"

text \<open>The console framebuffer's node against the mode.\<close>

definition fb_agrees :: "(string \<Rightarrow> u32 option) \<Rightarrow> soct_dp_mode \<Rightarrow> bool" where
  "fb_agrees np m \<longleftrightarrow> np ''width'' = Some (hactive m) \<and> np ''height'' = Some (vactive m) \<and> np ''stride'' = Some (hactive m * 3)"

text \<open>The boot clock: made exact by the check of the mode, or the design counts as static.\<close>

definition normalize_clock :: "dp_state \<Rightarrow> dp_state" where
  "normalize_clock s =
     (if dp_retunable s
      then case soct_dp_validate_mode s (dp_cur s) of
             (r, m) \<Rightarrow> s\<lparr>dp_cur := m, dp_retunable := (r = Dp_OK)\<rparr>
      else s)"

definition program_clock :: "switch_env \<Rightarrow> dp_state \<Rightarrow> bool \<times> dp_state" where
  "program_clock E s =
     (if \<not> dp_retunable s then (True, s)
      else case soct_clk_wzrd_solve (dp_lim s) (pixel_clock_hz (dp_cur s)) empty_setting of
             (r, st) \<Rightarrow>
               if r \<noteq> Wzrd_OK then (False, s)
               else case pixclk_retune (se_before E) (se_after E) st s of (r, s) \<Rightarrow> (r = Wzrd_OK, s))"

text \<open>From the start of the fetch on.\<close>

definition start_scanout :: "bring_env \<Rightarrow> bool \<Rightarrow> u64 \<Rightarrow> fb_state \<Rightarrow> (bring_result \<times> fb_state) option" where
  "start_scanout B clock_ok start s =
     (let m = dp_cur (fbs_dp s); E = be_hw B
      in case lx_vdma_start (se_restart E) (se_dmacr E) (se_dmasr E) start (hactive m) (vactive m) (fbs_dp s) of
           (ok, dp) \<Rightarrow>
             if \<not> ok then Some (W_vdma, s\<lparr>fbs_dp := dp\<rparr>)
             else
               let s = s\<lparr>fbs_dp := lx_vtc_start m dp\<rparr>
               in if \<not> be_avbuf B then Some (W_avbuf, s)
                  else do {
                    l \<leftarrow> dp_link_up (be_link B) (be_hpd_timeout B);
                    if l \<noteq> Link_OK then Some (W_link l, s)
                    else
                      let s = s\<lparr>fbs_dp := dp_emit [Dp_stream m] (fbs_dp s)\<rparr>
                      in if be_incoherent B
                         then Some (case soct_dp_fb_register (be_fb_alloc B) (be_defio B) (be_registered B) (be_var B) s of
                                      (e, s) \<Rightarrow> (W_up clock_ok e, s))
                         else Some (W_up clock_ok None, s) })"

text \<open>
  When a timing property is missing, the fields read before it are already in the driver's mode; they
  are never used and not kept here.
\<close>

definition soct_dp_work :: "bring_env \<Rightarrow> fb_state \<Rightarrow> (bring_result \<times> fb_state) option" where
  "soct_dp_work B s =
     (if \<not> be_vdma B then Some (W_no_pipeline, s)
      else case be_fb B of
        None \<Rightarrow> Some (W_no_fb, s)
      | Some (start, len) \<Rightarrow>
          (case be_vtc B of
             None \<Rightarrow> Some (W_nodes, s)
           | Some vtc \<Rightarrow>
               if \<not> be_vidstat B \<or> \<not> be_window B then Some (W_nodes, s)
               else if \<not> be_window_mapped B then Some (W_window, s)
               else
                 case of_read_mode vtc of
                   None \<Rightarrow> Some (W_timing, s)
                 | Some m \<Rightarrow>
                     let s = s\<lparr>fbs_dp := (fbs_dp s)\<lparr>dp_cur := m\<rparr>\<rparr>
                     in if \<not> be_incoherent B \<and> \<not> fb_agrees (be_fb_prop B) m then Some (W_disagree, s)
                        else
                          case program_clock (be_hw B)
                                 (normalize_clock (parse_pixclk (be_pixclk B) (be_pixclk_mapped B)
                                    ((fbs_dp s)\<lparr>dp_fb := start, dp_fb_size := len\<rparr>))) of
                            (clock_ok, dp) \<Rightarrow>
                              let s = s\<lparr>fbs_dp := dp\<rparr>
                              in if be_incoherent B
                                 then do {
                                   (e, s) \<leftarrow> soct_dp_fb_prepare (be_l2 B) (be_l2_mapped B) (be_remapped B) (be_pages B)
                                             start len (dp_cur dp) s;
                                   (case e of Some e \<Rightarrow> Some (W_prepare e, s) | None \<Rightarrow> start_scanout B clock_ok start s) }
                                 else start_scanout B clock_ok start s))"

text \<open>Leaving: the device is torn down and the fetch reset, if it was ever mapped.\<close>

definition soct_dp_exit :: "bool \<Rightarrow> bool \<Rightarrow> fb_state \<Rightarrow> fb_state" where
  "soct_dp_exit vdma last_ref s =
     (let s = soct_dp_fb_teardown last_ref s
      in if vdma then s\<lparr>fbs_dp := dp_emit [Vdma_write 0 4] (fbs_dp s)\<rparr> else s)"

definition demo_vtc :: "string \<Rightarrow> u32 option" where
  "demo_vtc = map_of [(''soct,hactive'', 1920), (''hfront-porch'', 88), (''hsync-len'', 44), (''hback-porch'', 148),
     (''soct,vactive'', 1080), (''vfront-porch'', 4), (''vsync-len'', 5), (''vback-porch'', 36), (''hsync-active'', 1),
     (''vsync-active'', 1), (''soct,fps'', 60), (''clock-frequency'', 148500000)]"

definition demo_bring :: bring_env where
  "demo_bring = \<lparr>be_vdma = True, be_incoherent = False, be_fb = Some (0x80000000, 0x1000000), be_vtc = Some demo_vtc,
     be_vidstat = True, be_window = True, be_window_mapped = True,
     be_fb_prop = map_of [(''width'', 1920), (''height'', 1080), (''stride'', 5760)], be_pixclk = None, be_pixclk_mapped = False,
     be_l2 = False, be_l2_mapped = False, be_remapped = False, be_pages = False, be_hw = demo_switch, be_avbuf = True,
     be_link = \<lparr>le_init = True, le_connected = (\<lambda>i. i = 1), le_caps = True, le_config = True, le_train = True\<rparr>,
     be_hpd_timeout = 30000, be_fb_alloc = False, be_defio = False, be_registered = False, be_var = demo_var\<rparr>"

section \<open>Lemmas\<close>

lemma translate_inside:
  "translate w addr = Some p \<Longrightarrow> unat (s_ps_base w) \<le> unat addr \<and> unat addr < unat (s_ps_base w) + unat (s_window_size w) \<and>
     p - s_window_virt w = addr - s_ps_base w"
  by (auto simp: translate_def word_le_nat_alt word_less_nat_alt unat_diff_le split: if_splits)

text \<open>The wait for a monitor ends for every timeout that leaves room for one more step.\<close>

lemma hpd_wait_returns:
  assumes "unat timeout + 100 < 2 ^ 32"
  shows "\<exists>c. hpd_wait conn timeout i waited = Some c"
proof (induction "unat timeout - unat waited" arbitrary: i waited rule: less_induct)
  case less
  show ?case
  proof (cases "conn i \<or> timeout \<le> waited")
    case True
    then show ?thesis by (subst hpd_wait.simps) auto
  next
    case False
    then have lt: "unat waited < unat timeout" by (simp add: word_le_nat_alt)
    have "unat (waited + 100) = unat waited + 100" using lt assms by (subst unat_add_no_wrap) simp_all
    then have "\<exists>c. hpd_wait conn timeout (Suc i) (waited + 100) = Some c" using lt by (intro less) simp
    then show ?thesis using False by (subst hpd_wait.simps) auto
  qed
qed

text \<open>The clock of a retunable design after the boot mode was programmed.\<close>

lemma program_clock_log:
  assumes "program_clock E s = (ok, s')"
  shows "\<exists>es. s' = dp_emit es s"
proof -
  have nil: "\<exists>es. s = dp_emit es s" for s by (rule exI [of _ "[]"]) (simp add: dp_emit_def)
  show ?thesis
    using assms nil clk_retune_keeps
    by (auto simp: program_clock_def split: if_splits prod.splits)
qed

lemma program_clock_set:
  assumes "program_clock E s = (True, s')" "dp_retunable s" "budget_ok s" "soct_dp_validate_mode s (dp_cur s) = (Dp_OK, dp_cur s)"
  shows "hw_clock (fold hw_step (dp_log s') h0) = Some (pixel_clock_hz (dp_cur s'))"
proof -
  obtain st where st: "soct_clk_wzrd_solve (dp_lim s) (pixel_clock_hz (dp_cur s)) empty_setting = (Wzrd_OK, st)"
      "achieved_hz st = pixel_clock_hz (dp_cur s)"
    using validate_OK(5) [OF assms(4,3)] assms(2) by blast
  then have "pixclk_retune (se_before E) (se_after E) st s = (Wzrd_OK, s')"
    using assms(1,2) by (auto simp: program_clock_def split: prod.splits)
  from clk_retune_log [OF this, of "fold hw_step (dp_log s) h0"] st(2) show ?thesis by auto
qed

lemma parse_pixclk_keeps:
  "dp_cur (parse_pixclk node mapped s) = dp_cur s" "dp_log (parse_pixclk node mapped s) = dp_log s"
  by (auto simp: parse_pixclk_def split: option.splits)

lemma normalize_clock_result:
  assumes "budget_ok s"
  shows "dp_log (normalize_clock s) = dp_log s" "budget_ok (normalize_clock s)"
    "dp_retunable (normalize_clock s) \<Longrightarrow>
       soct_dp_validate_mode (normalize_clock s) (dp_cur (normalize_clock s)) = (Dp_OK, dp_cur (normalize_clock s))"
proof -
  obtain r m where v: "soct_dp_validate_mode s (dp_cur s) = (r, m)" by fastforce
  show "dp_log (normalize_clock s) = dp_log s" "budget_ok (normalize_clock s)"
    using v assms by (simp_all add: normalize_clock_def budget_ok_def)
  assume a: "dp_retunable (normalize_clock s)"
  then have n: "dp_retunable s" "r = Dp_OK" "normalize_clock s = s\<lparr>dp_cur := m, dp_retunable := True\<rparr>"
    using v by (auto simp: normalize_clock_def split: if_splits)
  have "soct_dp_validate_mode (s\<lparr>dp_cur := c, dp_retunable := True\<rparr>) w = soct_dp_validate_mode s w" for c w
    using n(1) by (simp add: soct_dp_validate_mode_def Let_def split: prod.split)
  then show "soct_dp_validate_mode (normalize_clock s) (dp_cur (normalize_clock s)) = (Dp_OK, dp_cur (normalize_clock s))"
    using validate_OK(3) [OF v [unfolded n(2)] assms] by (simp add: n(3))
qed

lemma start_scanout_up:
  assumes "start_scanout B ok start s = Some (W_up ok' e, s')"
  shows "ok' = ok" "dp_cur (fbs_dp s') = dp_cur (fbs_dp s)" "dp_retunable (fbs_dp s') = dp_retunable (fbs_dp s)"
    "hw_clock (fold hw_step (dp_log (fbs_dp s)) h0) = Some (pixel_clock_hz (dp_cur (fbs_dp s))) \<Longrightarrow>
       shows_mode (dp_cur (fbs_dp s')) (fold hw_step (dp_log (fbs_dp s')) h0)"
    "be_incoherent B \<Longrightarrow> \<exists>dp. soct_dp_fb_register (be_fb_alloc B) (be_defio B) (be_registered B) (be_var B) (s\<lparr>fbs_dp := dp\<rparr>) = (e, s') \<and>
       dp_cur dp = dp_cur (fbs_dp s) \<and> same_budget (fbs_dp s) dp"
proof -
  let ?m = "dp_cur (fbs_dp s)" and ?E = "be_hw B"
  obtain k dp where v: "lx_vdma_start (se_restart ?E) (se_dmacr ?E) (se_dmasr ?E) start (hactive ?m) (vactive ?m) (fbs_dp s) = (k, dp)" by fastforce
  let ?dp = "dp_emit [Dp_stream ?m] (lx_vtc_start ?m dp)" let ?s = "s\<lparr>fbs_dp := ?dp\<rparr>"
  let ?reg = "soct_dp_fb_register (be_fb_alloc B) (be_defio B) (be_registered B) (be_var B) ?s"
  have up: "k" "ok' = ok" "if be_incoherent B then ?reg = (e, s') else s' = ?s \<and> e = None"
    using assms v by (auto simp: start_scanout_def Let_def split: if_splits prod.splits Option.bind_splits)
  obtain es where dp: "dp = dp_emit es (fbs_dp s)" using vdma_emits(2) [OF v] by blast
  have reg: "fbs_dp (snd ?reg) = ?dp" by (auto simp: soct_dp_fb_register_def Let_def split: option.split)
  then have s': "fbs_dp s' = ?dp" using up(3) by (auto split: if_splits)
  show "ok' = ok" by (rule up(2))
  show "dp_cur (fbs_dp s') = ?m" "dp_retunable (fbs_dp s') = dp_retunable (fbs_dp s)" by (simp_all add: s' lx_vtc_start_def dp)
  show "shows_mode (dp_cur (fbs_dp s')) (fold hw_step (dp_log (fbs_dp s')) h0)"
    if "hw_clock (fold hw_step (dp_log (fbs_dp s)) h0) = Some (pixel_clock_hz ?m)"
    using switch_shows [OF v [unfolded up(1) [THEN eqTrueI]] that] \<open>dp_cur (fbs_dp s') = ?m\<close> by (simp add: s')
  show "\<exists>dp. soct_dp_fb_register (be_fb_alloc B) (be_defio B) (be_registered B) (be_var B) (s\<lparr>fbs_dp := dp\<rparr>) = (e, s') \<and>
       dp_cur dp = ?m \<and> same_budget (fbs_dp s) dp" if "be_incoherent B"
    using up(3) that by (intro exI [of _ ?dp]) (simp add: lx_vtc_start_def dp same_budget_def)
qed

text \<open>A run that reaches the picture, in two parts.\<close>

definition booted :: "bring_env \<Rightarrow> soct_dp_mode \<Rightarrow> u64 \<Rightarrow> u64 \<Rightarrow> fb_state \<Rightarrow> dp_state" where
  "booted B m start len s = normalize_clock (parse_pixclk (be_pixclk B) (be_pixclk_mapped B)
     ((fbs_dp s)\<lparr>dp_cur := m, dp_fb := start, dp_fb_size := len\<rparr>))"

lemma work_up:
  assumes "soct_dp_work B s = Some (W_up ok e, s')"
  obtains m start len dp s1 where "be_fb B = Some (start, len)" "program_clock (be_hw B) (booted B m start len s) = (ok, dp)"
    "start_scanout B ok start s1 = Some (W_up ok e, s')"
    "if be_incoherent B then soct_dp_fb_prepare True True True (be_pages B) start len (dp_cur dp) (s\<lparr>fbs_dp := dp\<rparr>) = Some (None, s1)
     else s1 = s\<lparr>fbs_dp := dp\<rparr>"
proof -
  obtain start len vtc m where a: "be_vdma B" "be_fb B = Some (start, len)" "be_vtc B = Some vtc" "be_vidstat B" "be_window B"
      "be_window_mapped B" "of_read_mode vtc = Some m" "\<not> (\<not> be_incoherent B \<and> \<not> fb_agrees (be_fb_prop B) m)"
    using assms by (auto simp: soct_dp_work_def Let_def split: if_splits option.splits)
  obtain k dp where k: "program_clock (be_hw B) (booted B m start len s) = (k, dp)" by fastforce
  let ?s = "s\<lparr>fbs_dp := dp\<rparr>"
  have w: "(if be_incoherent B
      then do { (e, s) \<leftarrow> soct_dp_fb_prepare (be_l2 B) (be_l2_mapped B) (be_remapped B) (be_pages B) start len (dp_cur dp) ?s;
                (case e of Some e \<Rightarrow> Some (W_prepare e, s) | None \<Rightarrow> start_scanout B k start s) }
      else start_scanout B k start ?s) = Some (W_up ok e, s')"
    using assms a k by (simp add: soct_dp_work_def Let_def booted_def cong: if_cong)
  show ?thesis
  proof (cases "be_incoherent B")
    case False
    then have "start_scanout B k start ?s = Some (W_up ok e, s')" using w by simp
    moreover from start_scanout_up(1) [OF this] have "ok = k" .
    ultimately show ?thesis using that [OF a(2), of m dp ?s] k False by simp
  next
    case True
    then obtain s1 where p: "soct_dp_fb_prepare (be_l2 B) (be_l2_mapped B) (be_remapped B) (be_pages B) start len (dp_cur dp) ?s = Some (None, s1)"
        "start_scanout B k start s1 = Some (W_up ok e, s')"
      using w by (auto split: Option.bind_splits option.splits)
    have "be_l2 B" "be_l2_mapped B" "be_remapped B" using p(1) by (auto simp: soct_dp_fb_prepare_def Let_def split: if_splits)
    moreover from start_scanout_up(1) [OF p(2)] have "ok = k" .
    ultimately show ?thesis using that [OF a(2), of m dp s1] k True p by simp
  qed
qed

lemma parse_budget:
  "budget_ok (parse_pixclk node mapped (s\<lparr>dp_cur := m, dp_fb := f, dp_fb_size := l\<rparr>)) = budget_ok (parse_pixclk node mapped s)"
  by (auto simp: parse_pixclk_def budget_ok_def split: option.splits)

lemma flush_range_keeps_dp: "flush_range a n s = Some s' \<Longrightarrow> fbs_dp s' = fbs_dp s"
proof -
  have "addr_loop i e flush_line a s = Some s' \<Longrightarrow> fbs_dp s' = fbs_dp s" for i e a s s'
    by (rule addr_loop.raw_induct [where P = "\<lambda>i e f a s s'. f = flush_line \<longrightarrow> fbs_dp s' = fbs_dp s", rotated, THEN mp [OF _ refl]])
      (auto simp: flush_line_def split: if_splits)
  then show "flush_range a n s = Some s' \<Longrightarrow> fbs_dp s' = fbs_dp s" by (simp add: flush_range_def)
qed

lemma prepare_keeps_dp:
  "soct_dp_fb_prepare True True True pages fb l m s = Some (None, s') \<Longrightarrow> fbs_dp s' = fbs_dp s"
  using flush_range_keeps_dp
  by (fastforce simp: soct_dp_fb_prepare_def Let_def clear_screen_def set_geometry_def split: if_splits)

section \<open>Properties\<close>

text \<open>
  C29. A bring-up that succeeds leaves an honest driver. When the worker reaches the picture with the
  boot clock programmed (or, on a static design, with the clock the design was built for), the mode the
  driver has cached is on the screen: fetch geometry, timing registers, stream attributes and pixel
  clock. Without the boot clock programmed nothing is claimed of the screen. On a design whose fetch
  bypasses the caches, with a device that was registered on a carve-out below 4 GiB in size, the
  framebuffer device then satisfies its invariant, its screen has the geometry of the cached mode, and
  every byte of it is zero, in the caches and in the memory the monitor shows.
\<close>

theorem bringup_honest:
  assumes up: "soct_dp_work B s = Some (W_up ok e, s')"
    and bud: "budget_ok (parse_pixclk (be_pixclk B) (be_pixclk_mapped B) (fbs_dp s))"
  shows "(ok \<and> (dp_retunable (fbs_dp s') \<or> hw_clock (fold hw_step (dp_log (fbs_dp s)) h0) = Some (pixel_clock_hz (dp_cur (fbs_dp s')))) \<longrightarrow>
      shows_mode (dp_cur (fbs_dp s')) (fold hw_step (dp_log (fbs_dp s')) h0)) \<and>
    (be_incoherent B \<and> fresh_module s \<and> e = None \<and>
      (\<forall>start len. be_fb B = Some (start, len) \<longrightarrow> carveout_ok start len (dp_cur (fbs_dp s'))) \<longrightarrow>
      fb_inv s' None ([], {}) \<and> fbs_width s' = hactive (dp_cur (fbs_dp s')) \<and> fbs_height s' = vactive (dp_cur (fbs_dp s')) \<and>
      (\<forall>n < vis_len s'. fbs_cpu s' (fbs_phys s' + of_nat n) = 0 \<and> fbs_dram s' (fbs_phys s' + of_nat n) = 0))"
proof -
  obtain m start len dp s1 where w: "be_fb B = Some (start, len)" "program_clock (be_hw B) (booted B m start len s) = (ok, dp)"
    "start_scanout B ok start s1 = Some (W_up ok e, s')"
    "if be_incoherent B then soct_dp_fb_prepare True True True (be_pages B) start len (dp_cur dp) (s\<lparr>fbs_dp := dp\<rparr>) = Some (None, s1)
     else s1 = s\<lparr>fbs_dp := dp\<rparr>" by (rule work_up [OF up])
  let ?b = "booted B m start len s"
  let ?q = "parse_pixclk (be_pixclk B) (be_pixclk_mapped B) ((fbs_dp s)\<lparr>dp_cur := m, dp_fb := start, dp_fb_size := len\<rparr>)"
  have "budget_ok ?q" using bud by (simp only: parse_budget)
  note n = normalize_clock_result [OF this, folded booted_def]
  have logb: "dp_log ?b = dp_log (fbs_dp s)" using n(1) by (simp add: parse_pixclk_keeps)
  obtain es where dp: "dp = dp_emit es ?b" using program_clock_log [OF w(2)] by blast
  have bdp: "budget_ok dp" using n(2) by (simp add: dp budget_ok_def)
  have s1: "fbs_dp s1 = dp"
  proof (cases "be_incoherent B")
    case True
    then have "soct_dp_fb_prepare True True True (be_pages B) start len (dp_cur dp) (s\<lparr>fbs_dp := dp\<rparr>) = Some (None, s1)" using w(4) by simp
    then show ?thesis using prepare_keeps_dp by fastforce
  next
    case False
    then show ?thesis using w(4) by simp
  qed
  note u = start_scanout_up [OF w(3), unfolded s1]
  have "shows_mode (dp_cur (fbs_dp s')) (fold hw_step (dp_log (fbs_dp s')) h0)"
    if ok: ok and c: "dp_retunable (fbs_dp s') \<or> hw_clock (fold hw_step (dp_log (fbs_dp s)) h0) = Some (pixel_clock_hz (dp_cur (fbs_dp s')))"
  proof (cases "dp_retunable dp")
    case True
    then have "dp_retunable ?b" by (simp add: dp)
    with program_clock_set [OF w(2) [unfolded ok [THEN eqTrueI]] this n(2) n(3)]
    show ?thesis by (intro u(4)) simp
  next
    case False
    then have "dp = ?b" using w(2) by (auto simp: program_clock_def dp split: if_splits)
    then show ?thesis using c False u(2,3) logb by (intro u(4)) simp
  qed
  moreover have "fb_inv s' None ([], {}) \<and> fbs_width s' = hactive (dp_cur (fbs_dp s')) \<and> fbs_height s' = vactive (dp_cur (fbs_dp s')) \<and>
      (\<forall>n < vis_len s'. fbs_cpu s' (fbs_phys s' + of_nat n) = 0 \<and> fbs_dram s' (fbs_phys s' + of_nat n) = 0)"
    if i: "be_incoherent B" "fresh_module s" "e = None" "carveout_ok start len (dp_cur (fbs_dp s'))"
  proof -
    let ?z = "s\<lparr>fbs_dp := dp\<rparr>"
    have prep: "soct_dp_fb_prepare True True True (be_pages B) start len (dp_cur (fbs_dp ?z)) ?z = Some (None, s1)" using w(4) i(1) by simp
    have fz: "fresh_module ?z" using i(2) by (simp add: fresh_module_def)
    have cz: "carveout_ok start len (dp_cur (fbs_dp ?z))" using i(4) u(2) by simp
    note c = prepare_clears [OF fz cz prep]
    obtain dp' where r: "soct_dp_fb_register (be_fb_alloc B) (be_defio B) (be_registered B) (be_var B) (s1\<lparr>fbs_dp := dp'\<rparr>) = (None, s')"
        "dp_cur dp' = dp_cur dp" "same_budget dp dp'" using u(5) i(1,3) by auto
    have k: "geometry_ok (s1\<lparr>fbs_dp := dp'\<rparr>) = geometry_ok s1" "vis_len (s1\<lparr>fbs_dp := dp'\<rparr>) = vis_len s1"
        "stale (s1\<lparr>fbs_dp := dp'\<rparr>) n = stale s1 n" for n by (simp_all add: geometry_ok_def vis_len_def stale_def)
    have "fb_inv s' None ([], {})"
      using c r(2) bdp same_budget_ok [OF r(3)] by (intro registered_inv [OF _ _ _ _ _ _ _ r(1)]) (simp_all add: k)
    moreover have "fbs_cpu s' (fbs_phys s' + of_nat n) = 0 \<and> fbs_dram s' (fbs_phys s' + of_nat n) = 0" if "n < vis_len s'" for n
    proof -
      have n: "n < vis_len s1" using that by (simp add: registered [OF r(1)] k)
      show ?thesis using c(2) [OF n] c(8) [OF n] by (simp add: registered [OF r(1)] stale_def)
    qed
    ultimately show ?thesis using c(9,10) u(2) by (simp add: registered [OF r(1)])
  qed
  ultimately show ?thesis using w(1) by blast
qed

text \<open>The same boot on a design whose fetch bypasses the caches.\<close>

definition demo_incoherent :: bring_env where
  "demo_incoherent = demo_bring\<lparr>be_incoherent := True, be_l2 := True, be_l2_mapped := True, be_remapped := True,
     be_fb_alloc := True, be_defio := True, be_registered := True\<rparr>"

lemma demo_link: "dp_link_up (be_link demo_bring) 30000 = Some Link_OK"
  by (simp add: dp_link_up_def demo_bring_def hpd_wait.simps)

lemma demo_timing: "of_read_mode demo_vtc = Some mode_1080p"
  by (simp add: of_read_mode_def mode_prop_def demo_vtc_def mode_1080p_def)

lemma demo_incoherent_up:
  "\<exists>s'. soct_dp_work demo_incoherent (demo_fbdev\<lparr>fbs_dp := demo_dp\<lparr>dp_retunable := False\<rparr>\<rparr>) = Some (W_up True None, s') \<and>
     dp_cur (fbs_dp s') = mode_1080p"
proof -
  let ?dp = "demo_dp\<lparr>dp_retunable := False, dp_cur := mode_1080p, dp_fb := 0x80000000, dp_fb_size := 0x1000000\<rparr>"
  let ?z = "demo_fbdev\<lparr>fbs_dp := ?dp\<rparr>"
  have "carveout_ok 0x80000000 0x1000000 (dp_cur (fbs_dp ?z))" by (simp add: carveout_ok_def mode_1080p_def)
  moreover have "3 * (unat (hactive (dp_cur (fbs_dp ?z))) * unat (vactive (dp_cur (fbs_dp ?z)))) \<le> unat (0x1000000 :: u64)"
    by (simp add: mode_1080p_def)
  ultimately obtain s1 where p: "soct_dp_fb_prepare True True True False 0x80000000 0x1000000 mode_1080p ?z = Some (None, s1)"
      "fbs_dp s1 = ?dp" "fbs_mode s1 = mode_1080p"
    using prepare_result(2) [of "0x80000000" "0x1000000" ?z False] by fastforce
  have c: "parse_pixclk None False ?dp = ?dp" "normalize_clock ?dp = ?dp" "program_clock demo_switch ?dp = (True, ?dp)"
    by (simp_all add: parse_pixclk_def normalize_clock_def program_clock_def)
  have "\<exists>v. soct_dp_fb_fill_var c mode_1080p v0 = Some v" for c v0 by (simp add: soct_dp_fb_fill_var_def mode_1080p_def)
  then have r: "\<exists>s'. soct_dp_fb_register True True True demo_var (s1\<lparr>fbs_dp := q\<rparr>) = (None, s') \<and> fbs_dp s' = q" for q
    using p(3) by (fastforce simp: soct_dp_fb_register_def Let_def split: option.splits)
  obtain R where R: "\<And>q. soct_dp_fb_register True True True demo_var (s1\<lparr>fbs_dp := q\<rparr>) = (None, R q)" "\<And>q. fbs_dp (R q) = q"
    using r by metis
  have "\<exists>s'. start_scanout demo_incoherent True 0x80000000 s1 = Some (W_up True None, s') \<and> dp_cur (fbs_dp s') = mode_1080p"
    using demo_link
    by (simp add: start_scanout_def p(2) Let_def demo_incoherent_def demo_bring_def lx_vdma_start_def lx_vdma_halt_def demo_switch_def
        lx_vtc_start_def demo_dp_def R)
  then show ?thesis
    using p(1) c demo_timing by (simp add: soct_dp_work_def Let_def demo_incoherent_def demo_bring_def)
qed

theorem bringup_honest_witness:
  "\<exists>s'. soct_dp_work demo_incoherent (demo_fbdev\<lparr>fbs_dp := demo_dp\<lparr>dp_retunable := False\<rparr>\<rparr>) = Some (W_up True None, s') \<and>
     shows_mode mode_1080p (fold hw_step (dp_log (fbs_dp s'))
       \<lparr>hw_running = False, hw_hsize = 0, hw_vsize = 0, hw_vtc = (\<lambda>_. 0), hw_stream = None, hw_clock = Some 148500000\<rparr>) \<and>
     fbs_width s' = 1920 \<and> (\<forall>n < vis_len s'. fbs_dram s' (fbs_phys s' + of_nat n) = 0)"
proof -
  let ?s = "demo_fbdev\<lparr>fbs_dp := demo_dp\<lparr>dp_retunable := False\<rparr>\<rparr>"
  let ?h = "\<lparr>hw_running = False, hw_hsize = 0, hw_vsize = 0, hw_vtc = (\<lambda>_. 0), hw_stream = None, hw_clock = Some 148500000\<rparr>"
  obtain s' where w: "soct_dp_work demo_incoherent ?s = Some (W_up True None, s')" and c: "dp_cur (fbs_dp s') = mode_1080p"
    using demo_incoherent_up by blast
  have b: "budget_ok (parse_pixclk (be_pixclk demo_incoherent) (be_pixclk_mapped demo_incoherent) (fbs_dp ?s))"
    by (simp add: demo_incoherent_def demo_bring_def parse_pixclk_def budget_ok_def)
  have i: "be_incoherent demo_incoherent" "fresh_module ?s" "be_fb demo_incoherent = Some (0x80000000, 0x1000000)"
      "carveout_ok 0x80000000 0x1000000 mode_1080p"
    by (simp_all add: demo_incoherent_def demo_bring_def fresh_module_def demo_fbdev_def carveout_ok_def mode_1080p_def)
  have "hw_clock (fold hw_step (dp_log (fbs_dp ?s)) ?h) = Some (pixel_clock_hz mode_1080p)"
    by (simp add: demo_dp_def mode_1080p_def)
  with bringup_honest [OF w b, of ?h] w c i show ?thesis by (auto simp: mode_1080p_def)
qed

end
