(* ===== verification/Linux_Fbmode.thy ===== *)
theory Linux_Fbmode
  imports Linux_Fb_Inv
begin

text \<open>
  \<open>linux/userspace/fbmode/main.c\<close>, which switches video modes from user space: its list of modes, the
  reduced-blanking timings it computes, the description it hands to the kernel, and the switch that is
  taken back unless the user confirms it. The kernel side is the interface \<open>fbdev\<close>: the framebuffer core
  is a parameter, of which is assumed (\<open>core_puts\<close>) how it calls the handlers of the driver in \<open>Linux_Fb\<close>.
\<close>

section \<open>Definitions\<close>

record fb_mode =
  md_name :: string
  md_w :: u32
  md_h :: u32
  md_fps :: u32
  md_clock :: u64
  md_hfp :: u32
  md_hsync :: u32
  md_hbp :: u32
  md_vfp :: u32
  md_vsync :: u32
  md_vbp :: u32
  md_hpos :: bool
  md_vpos :: bool

definition table_mode :: "string \<Rightarrow> u32 \<Rightarrow> u32 \<Rightarrow> u32 \<Rightarrow> u64 \<Rightarrow> u32 \<times> u32 \<times> u32 \<Rightarrow> u32 \<times> u32 \<times> u32 \<Rightarrow> bool \<Rightarrow> fb_mode" where
  "table_mode name w h f clock hs vs pos =
     \<lparr>md_name = name, md_w = w, md_h = h, md_fps = f, md_clock = clock,
      md_hfp = fst hs, md_hsync = fst (snd hs), md_hbp = snd (snd hs),
      md_vfp = fst vs, md_vsync = fst (snd vs), md_vbp = snd (snd vs), md_hpos = pos, md_vpos = pos\<rparr>"

definition standard :: "fb_mode list" where
  "standard =
     [table_mode ''640x480@60 (DMT)'' 640 480 60 25175000 (16, 96, 48) (10, 2, 33) False,
      table_mode ''800x600@60 (DMT)'' 800 600 60 40000000 (40, 128, 88) (1, 4, 23) True,
      table_mode ''1024x768@60 (DMT)'' 1024 768 60 65000000 (24, 136, 160) (3, 6, 29) False,
      table_mode ''1280x720@60 (CEA)'' 1280 720 60 74250000 (110, 40, 220) (5, 5, 20) True,
      table_mode ''1280x1024@60 (DMT)'' 1280 1024 60 108000000 (48, 112, 248) (1, 3, 38) True,
      table_mode ''1920x1080@30 (CEA)'' 1920 1080 30 74250000 (88, 44, 148) (4, 5, 36) True,
      table_mode ''1920x1080@60 (CEA)'' 1920 1080 60 148500000 (88, 44, 148) (4, 5, 36) True]"

definition cvt_vsync :: "u32 \<Rightarrow> u32 \<Rightarrow> u32" where
  "cvt_vsync w h =
     (if w * 3 = h * 4 then 4 else if w * 9 = h * 16 then 5 else if w * 10 = h * 16 then 6
      else if w * 4 = h * 5 then 7 else if w * 9 = h * 15 then 7 else 10)"

definition cvt_vbi :: "u32 \<Rightarrow> u32 \<Rightarrow> u32 \<Rightarrow> u32" where
  "cvt_vbi w h f =
     (let vbi = ucast (460 * ucast h * ucast f div (1000000 - 460 * ucast f) :: u64) + 1; min_vbi = 3 + cvt_vsync w h + 6
      in if vbi < min_vbi then min_vbi else vbi)"

definition cvt_rb :: "u32 \<Rightarrow> u32 \<Rightarrow> u32 \<Rightarrow> fb_mode option" where
  "cvt_rb w h f =
     (if 1000000 \<le> 460 * (ucast f :: u64) then None
      else
        let vsync = cvt_vsync w h; vbi = cvt_vbi w h f
        in Some \<lparr>md_name = ''custom (CVT-RB)'', md_w = w, md_h = h, md_fps = f,
             md_clock = ucast (w + 160) * ucast (h + vbi) * ucast f, md_hfp = 48, md_hsync = 32, md_hbp = 80,
             md_vfp = 3, md_vsync = vsync, md_vbp = vbi - 3 - vsync, md_hpos = True, md_vpos = False\<rparr>)"

definition geometries :: "(u32 \<times> u32) list" where
  "geometries = [(640, 480), (800, 600), (1024, 768), (1280, 720), (1280, 1024), (1920, 1080)]"

text \<open>The last entry of the table that fits; the printed name of a computed mode is \<open>name\<close>.\<close>

definition listed_mode :: "(u32 \<Rightarrow> u32 \<Rightarrow> u32 \<Rightarrow> string) \<Rightarrow> u32 \<times> u32 \<Rightarrow> u32 \<Rightarrow> fb_mode option" where
  "listed_mode name g f =
     (case rev (filter (\<lambda>m. md_w m = fst g \<and> md_h m = snd g \<and> md_fps m = f) standard) of
        m # _ \<Rightarrow> Some m
      | [] \<Rightarrow> map_option (\<lambda>m. m\<lparr>md_name := name (fst g) (snd g) f\<rparr>) (cvt_rb (fst g) (snd g) f))"

definition build_modes :: "(u32 \<Rightarrow> u32 \<Rightarrow> u32 \<Rightarrow> string) \<Rightarrow> fb_mode list" where
  "build_modes name = concat (map (\<lambda>g. List.map_filter (listed_mode name g) [30, 60]) geometries)"

definition refresh_mhz1000 :: "fb_var_screeninfo \<Rightarrow> u32" where
  "refresh_mhz1000 v =
     (let htotal = ucast (xres v + left_margin v + right_margin v + v_hsync_len v);
          vtotal = ucast (yres v + upper_margin v + lower_margin v + v_vsync_len v);
          dots = (ucast (pixclock v) * htotal * vtotal :: u64)
      in if dots \<noteq> 0 then ucast ((1000000000000000 + dots div 2) div dots) else 0)"

text \<open>The dot period of a clock; a clock of zero is a division by zero.\<close>

definition clock_period :: "u64 \<Rightarrow> u64 option" where
  "clock_period clock = (if clock = 0 then None else Some ((2000000000000 div clock + 1) div 2))"

definition mode_to_var :: "fb_mode \<Rightarrow> fb_var_screeninfo \<Rightarrow> fb_var_screeninfo option" where
  "mode_to_var m var =
     map_option (\<lambda>ps. var\<lparr>xres := md_w m, xres_virtual := md_w m, yres := md_h m, yres_virtual := md_h m,
       xoffset := 0, yoffset := 0, bits_per_pixel := 24, pixclock := ucast ps,
       right_margin := md_hfp m, v_hsync_len := md_hsync m, left_margin := md_hbp m,
       lower_margin := md_vfp m, v_vsync_len := md_vsync m, upper_margin := md_vbp m,
       v_sync := (if md_hpos m then 1 else 0) OR (if md_vpos m then 2 else 0), v_vmode := 0, v_activate := 0\<rparr>)
       (clock_period (md_clock m))"

definition is_current :: "fb_var_screeninfo \<Rightarrow> fb_mode \<Rightarrow> bool" where
  "is_current cur m \<longleftrightarrow> md_w m = xres cur \<and> md_h m = yres cur \<and> clock_period (md_clock m) = Some (ucast (pixclock cur))"

text \<open>A terminal, and the key that came in time if one did.\<close>

definition confirm_keep :: "bool \<Rightarrow> char option \<Rightarrow> bool" where
  "confirm_keep tty key \<longleftrightarrow> tty \<and> (key = Some CHR ''y'' \<or> key = Some CHR ''Y'')"

datatype apply_result = Get_failed | Bad_clock | Rejected | Ignored | Kept | Reverted | Revert_failed

text \<open>
  The kernel is a pair of operations on its state: \<open>FBIOGET_VSCREENINFO\<close>, and
  \<open>FBIOPUT_VSCREENINFO\<close> with whether it succeeded, or no value when it does not come back. The first
  flag is \<open>-y\<close>.
\<close>

definition apply_mode ::
  "('k \<Rightarrow> fb_var_screeninfo option) \<Rightarrow> (fb_var_screeninfo \<Rightarrow> 'k \<Rightarrow> (bool \<times> 'k) option) \<Rightarrow> bool \<Rightarrow> bool \<Rightarrow> fb_mode \<Rightarrow> 'k \<Rightarrow>
   (apply_result \<times> 'k) option" where
  "apply_mode get put yes keep m k =
     (case get k of
        None \<Rightarrow> Some (Get_failed, k)
      | Some old \<Rightarrow>
          (case mode_to_var m old of
             None \<Rightarrow> Some (Bad_clock, k)
           | Some var \<Rightarrow> do {
               (ok, k) \<leftarrow> put var k;
               if \<not> ok then Some (Rejected, k)
               else
                 case get k of
                   None \<Rightarrow> Some (Get_failed, k)
                 | Some var \<Rightarrow>
                     if xres var \<noteq> md_w m \<or> yres var \<noteq> md_h m \<or> pixclock var = 0 then Some (Ignored, k)
                     else if yes \<or> keep then Some (Kept, k)
                     else do {
                       (ok, k) \<leftarrow> put (old\<lparr>v_activate := 0\<rparr>) k;
                       Some (if ok then Reverted else Revert_failed, k) } }))"

section \<open>The command line\<close>

text \<open>\<open>strtoul(arg, &end, 10)\<close>: the value, saturated, and the rest of the string.\<close>

definition is_decimal :: "char \<Rightarrow> bool" where
  "is_decimal c \<longleftrightarrow> 48 \<le> (of_char c :: nat) \<and> (of_char c :: nat) \<le> 57"

definition is_space :: "char \<Rightarrow> bool" where
  "is_space c \<longleftrightarrow> (of_char c :: nat) = 32 \<or> 9 \<le> (of_char c :: nat) \<and> (of_char c :: nat) \<le> 13"

definition add_digit :: "u64 option \<Rightarrow> char \<Rightarrow> u64 option" where
  "add_digit acc c = do { n \<leftarrow> acc; let v = unat n * 10 + (of_char c - 48); if v < 2 ^ 64 then Some (of_nat v) else None }"

definition strtoul10 :: "string \<Rightarrow> u64 \<times> string" where
  "strtoul10 s =
     (let s1 = dropWhile is_space s; neg = (s1 \<noteq> [] \<and> hd s1 = CHR ''-'');
          s2 = (if s1 \<noteq> [] \<and> (hd s1 = CHR ''-'' \<or> hd s1 = CHR ''+'') then tl s1 else s1);
          ds = takeWhile is_decimal s2
      in if ds = [] then (0, s)
         else (case foldl add_digit (Some 0) ds of None \<Rightarrow> - 1 | Some n \<Rightarrow> if neg then - n else n, dropWhile is_decimal s2))"

definition arg_num :: "string \<Rightarrow> u64 option" where
  "arg_num a = (case strtoul10 a of (v, rest) \<Rightarrow> if rest \<noteq> [] \<or> v = 0 then None else Some v)"

text \<open>The options and at most eight arguments; \<open>None\<close> is the usage message.\<close>

fun scan_args :: "string list \<Rightarrow> bool \<Rightarrow> string \<Rightarrow> string list \<Rightarrow> (bool \<times> string \<times> string list) option" where
  "scan_args [] yes dev args = Some (yes, dev, args)"
| "scan_args (a # as) yes dev args =
     (if a = ''-y'' then scan_args as True dev args
      else if a = ''-d'' then (case as of [] \<Rightarrow> None | d # as' \<Rightarrow> scan_args as' yes d args)
      else if length args < 8 then scan_args as yes dev (args @ [a])
      else None)"

datatype selection = Sel_list | Sel_usage | Sel_not_number | Sel_no_mode | Sel_no_blank | Sel fb_mode

definition select_mode :: "fb_mode list \<Rightarrow> string list \<Rightarrow> selection" where
  "select_mode modes args =
     (if args = [] then Sel_list
      else if hd args = ''--custom'' then
        if length args \<noteq> 4 then Sel_usage
        else
          (case (arg_num (args ! 1), arg_num (args ! 2), arg_num (args ! 3)) of
             (Some w, Some h, Some f) \<Rightarrow>
               (case rev (filter (\<lambda>m. ucast (md_w m) = w \<and> ucast (md_h m) = h \<and> ucast (md_fps m) = f) modes) of
                  m # _ \<Rightarrow> Sel m
                | [] \<Rightarrow> (case cvt_rb (ucast w) (ucast h) (ucast f) of None \<Rightarrow> Sel_no_blank | Some m \<Rightarrow> Sel m))
           | _ \<Rightarrow> Sel_not_number)
      else if length args \<noteq> 1 then Sel_usage
      else (case arg_num (hd args) of
              None \<Rightarrow> Sel_not_number
            | Some i \<Rightarrow> if length modes < unat i then Sel_no_mode else Sel (modes ! (unat i - 1))))"

text \<open>The exit status of the program, with the kernel after it; \<open>opened\<close> tells which device files open.\<close>

definition fbmode_main ::
  "('k \<Rightarrow> fb_var_screeninfo option) \<Rightarrow> (fb_var_screeninfo \<Rightarrow> 'k \<Rightarrow> (bool \<times> 'k) option) \<Rightarrow> (string \<Rightarrow> bool) \<Rightarrow> fb_mode list \<Rightarrow>
   string list \<Rightarrow> bool \<Rightarrow> char option \<Rightarrow> 'k \<Rightarrow> (nat \<times> 'k) option" where
  "fbmode_main get put opened modes argv tty key k =
     (case scan_args argv False ''/dev/fb0'' [] of
        None \<Rightarrow> Some (2, k)
      | Some (yes, dev, args) \<Rightarrow>
          if \<not> opened dev \<or> get k = None then Some (1, k)
          else (case select_mode modes args of
                  Sel_list \<Rightarrow> Some (0, k)
                | Sel m \<Rightarrow> do {
                    (r, k) \<leftarrow> apply_mode get put yes (confirm_keep tty key) m k;
                    Some (if r = Kept \<or> r = Reverted then 0 else 1, k) }
                | _ \<Rightarrow> Some (2, k)))"

section \<open>The kernel interface\<close>

text \<open>The description \<open>v\<close> after a run, by its outcome; \<open>confirmed\<close> is that the mode was to be kept.\<close>

definition promise :: "bool \<Rightarrow> fb_mode \<Rightarrow> fb_var_screeninfo \<Rightarrow> apply_result \<Rightarrow> fb_var_screeninfo \<Rightarrow> bool" where
  "promise confirmed m old r v \<longleftrightarrow>
     (case r of
        Kept \<Rightarrow> xres v = md_w m \<and> yres v = md_h m \<and> pixclock v \<noteq> 0 \<and> confirmed
      | Reverted \<Rightarrow> xres v = xres old \<and> yres v = yres old \<and> \<not> confirmed
      | Revert_failed \<Rightarrow> xres v = md_w m \<and> yres v = md_h m \<and> \<not> confirmed
      | Ignored \<Rightarrow> pixclock v = 0
      | Get_failed \<Rightarrow> False
      | _ \<Rightarrow> v = old)"

text \<open>
  What the program relies on: a put to take effect now that succeeds gives the geometry that was asked
  for, one that fails keeps the description.
\<close>

locale fbdev =
  fixes inv :: "'k \<Rightarrow> bool"
    and get :: "'k \<Rightarrow> fb_var_screeninfo option"
    and put :: "fb_var_screeninfo \<Rightarrow> 'k \<Rightarrow> (bool \<times> 'k) option"
  assumes put_inv: "inv k \<Longrightarrow> v_activate v = 0 \<Longrightarrow> put v k = Some (ok, k') \<Longrightarrow> inv k'"
    and get_inv: "inv k \<Longrightarrow> get k \<noteq> None"
    and put_ok: "inv k \<Longrightarrow> v_activate v = 0 \<Longrightarrow> put v k = Some (True, k') \<Longrightarrow> get k' = Some v' \<Longrightarrow>
      xres v' = xres v \<and> yres v' = yres v"
    and put_fails: "inv k \<Longrightarrow> v_activate v = 0 \<Longrightarrow> put v k = Some (False, k') \<Longrightarrow> get k' = get k"
begin

lemma apply_outcome:
  assumes i: "inv k" and old: "get k = Some old"
  shows "case apply_mode get put yes keep m k of
    None \<Rightarrow> \<exists>v k. put v k = None
  | Some (r, k') \<Rightarrow> inv k' \<and> (\<exists>v. get k' = Some v \<and> promise (yes \<or> keep) m old r v)"
proof (cases "mode_to_var m old")
  case None
  then show ?thesis using assms by (simp add: apply_mode_def promise_def)
next
  case (Some var)
  then have var: "v_activate var = 0" "xres var = md_w m" "yres var = md_h m" by (auto simp: mode_to_var_def)
  show ?thesis
  proof (cases "put var k")
    case None
    then show ?thesis using Some old by (auto simp: apply_mode_def)
  next
    case p: (Some q)
    obtain ok k1 where q: "q = (ok, k1)" by fastforce
    have i1: "inv k1" by (rule put_inv [OF i var(1) p [unfolded q]])
    then obtain v1 where g1: "get k1 = Some v1" using get_inv by auto
    show ?thesis
    proof (cases "ok \<and> pixclock v1 \<noteq> 0 \<and> \<not> (yes \<or> keep)")
      case False
      then show ?thesis
        using Some old p q i1 g1 put_ok [OF i var(1) _ g1] put_fails [OF i var(1), of k1] var(2,3)
        by (auto simp: apply_mode_def promise_def)
    next
      case True
      let ?old = "old\<lparr>v_activate := 0\<rparr>"
      have v1: "xres v1 = md_w m" "yres v1 = md_h m" using put_ok [OF i var(1) _ g1] p q True var(2,3) by auto
      show ?thesis
      proof (cases "put ?old k1")
        case None
        then show ?thesis using Some old p q g1 True v1 by (auto simp: apply_mode_def)
      next
        case p2: (Some q2)
        obtain ok2 k2 where q2: "q2 = (ok2, k2)" by fastforce
        have i2: "inv k2" by (rule put_inv [OF i1 _ p2 [unfolded q2]]) simp
        then obtain v2 where g2: "get k2 = Some v2" using get_inv by auto
        show ?thesis
          using Some old p q g1 True v1 p2 q2 i2 g2 put_ok [OF i1 _ _ g2, of ?old] put_fails [OF i1, of ?old k2]
          by (cases ok2) (auto simp: apply_mode_def promise_def)
      qed
    qed
  qed
qed

end

text \<open>
  What is documented of \<open>FBIOPUT_VSCREENINFO\<close>, which the framebuffer core answers, for a description that
  is to take effect now: it succeeds with nothing done when the description is the current one, or when
  the driver's \<open>check_var\<close> accepts it and \<open>set_par\<close> installs the description \<open>check_var\<close> has returned; it
  calls the driver only for at least 8 by 8 pixels whose number does not overflow; a failed \<open>set_par\<close> gets the old description back. Nothing is
  assumed of a call that does not come back.
\<close>

definition core_puts :: "switch_env \<Rightarrow> (fb_var_screeninfo \<Rightarrow> fb_state \<Rightarrow> (bool \<times> fb_state) option) \<Rightarrow> bool" where
  "core_puts E put \<longleftrightarrow> (\<forall>v s ok s'. v_activate v = 0 \<longrightarrow> put v s = Some (ok, s') \<longrightarrow>
     s' = s \<and> (ok \<longrightarrow> v = fbs_var s) \<or>
     (\<exists>v' r t. var_sane v \<and> soct_dp_fb_check_var s v = Inr v' \<and> soct_dp_fb_set_par E (s\<lparr>fbs_var := v'\<rparr>) = Some (r, t) \<and>
        ok = (r = None) \<and> s' = (if ok then t else t\<lparr>fbs_var := fbs_var s\<rparr>)))"

text \<open>A core that behaves so, for concrete runs; a division by zero in the driver does not come back.\<close>

definition demo_put :: "switch_env \<Rightarrow> fb_var_screeninfo \<Rightarrow> fb_state \<Rightarrow> (bool \<times> fb_state) option" where
  "demo_put E v s =
     (if v = fbs_var s then Some (True, s)
      else if \<not> var_sane v then Some (False, s)
      else
        case soct_dp_fb_check_var s v of
          Inl e \<Rightarrow> if e = Fb_undefined then None else Some (False, s)
        | Inr v' \<Rightarrow>
            map_option (\<lambda>(r, t). if r = None then (True, t) else (False, t\<lparr>fbs_var := fbs_var s\<rparr>))
              (soct_dp_fb_set_par E (s\<lparr>fbs_var := v'\<rparr>)))"


text \<open>The driver's reading of a mode the program describes, starting from the description \<open>old\<close>.\<close>

definition understood :: "fb_var_screeninfo \<Rightarrow> fb_mode \<Rightarrow> bool" where
  "understood old m \<longleftrightarrow>
     (case mode_to_var m old of
        None \<Rightarrow> False
      | Some v \<Rightarrow>
          (case soct_dp_fb_var_to_mode v of
             Inl _ \<Rightarrow> False
           | Inr k \<Rightarrow> hactive k = md_w m \<and> vactive k = md_h m \<and> hfront_porch k = md_hfp m \<and> hsync_len k = md_hsync m \<and>
               hback_porch k = md_hbp m \<and> vfront_porch k = md_vfp m \<and> vsync_len k = md_vsync m \<and> vback_porch k = md_vbp m \<and>
               hsync_active k = (if md_hpos m then 1 else 0) \<and> vsync_active k = (if md_vpos m then 1 else 0) \<and> fps k = md_fps m \<and>
               200 * (unat (md_clock m) - unat (pixel_clock_hz k)) < unat (md_clock m) \<and>
               200 * (unat (pixel_clock_hz k) - unat (md_clock m)) < unat (md_clock m)))"

section \<open>Lemmas\<close>

lemma core_put_result:
  assumes c: "core_puts E put" and a: "v_activate v = 0" and inv: "fb_inv s None P" and p: "put v s = Some (ok, s')"
  shows "fb_inv s' None P" and "ok \<Longrightarrow> xres (fbs_var s') = xres v \<and> yres (fbs_var s') = yres v"
    and "\<not> ok \<Longrightarrow> fbs_var s' = fbs_var s"
proof -
  have var: "fb_inv (x\<lparr>fbs_var := v''\<rparr>) None P = fb_inv x None P" for x v''
    by (simp add: fb_inv_def geometry_ok_def rect_ok_def vis_len_def all_covered_def covered_def in_dirty_def stale_def)
  have b: "budget_ok (fbs_dp s)" using inv by (simp add: fb_inv_def)
  consider (same) "s' = s" "ok \<longrightarrow> v = fbs_var s"
    | (driver) v' r t where "var_sane v" "soct_dp_fb_check_var s v = Inr v'"
        "soct_dp_fb_set_par E (s\<lparr>fbs_var := v'\<rparr>) = Some (r, t)" "s' = (if ok then t else t\<lparr>fbs_var := fbs_var s\<rparr>)"
    using c a p unfolding core_puts_def by blast
  then have "fb_inv s' None P \<and> (ok \<longrightarrow> xres (fbs_var s') = xres v \<and> yres (fbs_var s') = yres v) \<and> (\<not> ok \<longrightarrow> fbs_var s' = fbs_var s)"
  proof cases
    case same
    then show ?thesis using inv by auto
  next
    case driver
    have "fb_inv t None P" "fbs_var t = v'" using set_par_inv [OF inv driver(1,2), of E] driver(3) by auto
    then show ?thesis using driver(4) check_var_size(1,2) [OF driver(2) b driver(1)] by (auto simp: var split: if_splits)
  qed
  then show "fb_inv s' None P" "ok \<Longrightarrow> xres (fbs_var s') = xres v \<and> yres (fbs_var s') = yres v"
    "\<not> ok \<Longrightarrow> fbs_var s' = fbs_var s" by blast+
qed

lemma core_puts_fbdev:
  assumes "core_puts E put"
  shows "fbdev (\<lambda>s. fb_inv s None P) (\<lambda>s. Some (fbs_var s)) put"
proof
  fix s s' :: fb_state and v v' :: fb_var_screeninfo and ok
  assume i: "fb_inv s None P"
  show "Some (fbs_var s) \<noteq> None" by simp
  assume a: "v_activate v = 0"
  note put = core_put_result [OF assms a i]
  show "put v s = Some (ok, s') \<Longrightarrow> fb_inv s' None P" by (rule put(1))
  show "put v s = Some (True, s') \<Longrightarrow> Some (fbs_var s') = Some v' \<Longrightarrow> xres v' = xres v \<and> yres v' = yres v"
    using put(2) [of True s'] by auto
  show "put v s = Some (False, s') \<Longrightarrow> Some (fbs_var s') = Some (fbs_var s)" using put(3) [of False s'] by auto
qed

lemma demo_core: "core_puts E (demo_put E)"
  unfolding core_puts_def
proof (intro allI impI)
  fix v s ok s' assume "demo_put E v s = Some (ok, s')"
  then show "s' = s \<and> (ok \<longrightarrow> v = fbs_var s) \<or>
     (\<exists>v' r t. var_sane v \<and> soct_dp_fb_check_var s v = Inr v' \<and> soct_dp_fb_set_par E (s\<lparr>fbs_var := v'\<rparr>) = Some (r, t) \<and>
        ok = (r = None) \<and> s' = (if ok then t else t\<lparr>fbs_var := fbs_var s\<rparr>))"
    by (auto simp: demo_put_def split: if_splits sum.splits)
qed

interpretation soct_fb: fbdev "\<lambda>s. fb_inv s None P" "\<lambda>s. Some (fbs_var s)" "demo_put E" for P E
  by (rule core_puts_fbdev [OF demo_core])

text \<open>Rounding a clock to picoseconds and back.\<close>

lemma div_round_bounds:
  fixes d :: nat
  assumes "0 < d"
  shows "2 * ((10 ^ 12 + d div 2) div d) * d \<le> 2 * 10 ^ 12 + d" "2 * 10 ^ 12 < 2 * ((10 ^ 12 + d div 2) div d) * d + d + 2"
proof -
  let ?q = "(10 ^ 12 + d div 2) div d"
  have "?q * d + (10 ^ 12 + d div 2) mod d = 10 ^ 12 + d div 2" by (rule div_mult_mod_eq)
  moreover have "(10 ^ 12 + d div 2) mod d < d" using assms by simp
  moreover have "2 * (d div 2) \<le> d" "d \<le> 2 * (d div 2) + 1" by simp_all
  ultimately show "2 * ?q * d \<le> 2 * 10 ^ 12 + d" "2 * 10 ^ 12 < 2 * ?q * d + d + 2" by (simp_all only: mult.assoc)
qed

lemma round_trip_clock:
  fixes p :: nat
  defines "ps \<equiv> (10 ^ 12 + p div 2) div p"
  defines "p' \<equiv> (10 ^ 12 + ps div 2) div ps"
  assumes p: "1000 \<le> p" "p \<le> 10 ^ 9"
  shows "1000 \<le> ps" "ps < 2 ^ 32" "p' < 2 ^ 32" "200 * (p' - p) \<le> p" "200 * (p - p') \<le> p"
proof -
  have "1000 = 10 ^ 12 div (10 ^ 9 :: nat)" by simp
  also have "\<dots> \<le> 10 ^ 12 div p" using p by (intro div_le_mono2) simp_all
  also have "\<dots> \<le> ps" unfolding ps_def by (intro div_le_mono) simp
  finally show ps: "1000 \<le> ps" .
  have "ps \<le> (10 ^ 12 + p div 2) div 1000" unfolding ps_def using p by (intro div_le_mono2) simp_all
  also have "\<dots> < 2 ^ 32" using p by simp
  finally show "ps < 2 ^ 32" .
  have "p' \<le> (10 ^ 12 + ps div 2) div 1000" unfolding p'_def using ps by (intro div_le_mono2) simp_all
  also have "\<dots> < 2 ^ 32" using \<open>ps < 2 ^ 32\<close> by simp
  finally show "p' < 2 ^ 32" .
  have a: "2 * ps * p \<le> 2 * 10 ^ 12 + p" "2 * 10 ^ 12 < 2 * ps * p + p + 2"
    unfolding ps_def using p by (intro div_round_bounds; simp)+
  have b: "2 * p' * ps \<le> 2 * 10 ^ 12 + ps" "2 * 10 ^ 12 < 2 * p' * ps + ps + 2"
    unfolding p'_def using ps by (intro div_round_bounds; simp)+
  have near: "200 * d \<le> p" if d: "2 * (d * ps) \<le> p + ps + 1" for d
  proof (rule ccontr)
    assume "\<not> 200 * d \<le> p"
    then have "(p + 1) * ps \<le> 200 * d * ps" by (intro mult_le_mono1) simp
    moreover define X D where "X = (p + 1) * ps" and "D = d * ps"
    ultimately have x: "X \<le> 200 * D" by (simp only: mult.assoc)
    have x1: "1000 * (p + 1) \<le> X" unfolding X_def using ps mult_le_mono2 [of 1000 ps "p + 1"] by (simp only: mult.commute)
    have x2: "1000 * ps \<le> X" unfolding X_def using p by (intro mult_le_mono1) simp
    have "2 * D \<le> (p + 1) + ps" unfolding D_def using d by simp
    then have "1000 * (2 * D) \<le> 1000 * (p + 1) + 1000 * ps" by (metis add_mult_distrib2 mult_le_mono2)
    then have "1000 * (2 * D) \<le> X + X" using x1 x2 by (meson add_le_mono le_trans)
    then have "10 * X \<le> 2 * X" using x by simp
    then show False using x2 ps by simp
  qed
  have "2 * ((p' - p) * ps) \<le> p + ps + 1"
    using a b by (cases "p \<le> p'") (simp_all add: diff_mult_distrib mult.assoc mult.commute [of ps p])
  then show "200 * (p' - p) \<le> p" by (rule near)
  have "2 * ((p - p') * ps) \<le> p + ps + 1"
    using a b by (cases "p' \<le> p") (simp_all add: diff_mult_distrib mult.assoc mult.commute [of ps p])
  then show "200 * (p - p') \<le> p" by (rule near)
qed

lemma unat_div_round:
  assumes "unat d < 2 ^ 63"
  shows "unat (div_round_closest d) = (10 ^ 12 + unat d div 2) div unat d"
proof -
  have h: "unat (d div 2) = unat d div 2" by (simp add: unat_div)
  have "unat (1000000000000 + d div 2) = 10 ^ 12 + unat d div 2"
    using assms by (subst unat_add_no_wrap) (simp_all add: h)
  then show ?thesis by (simp add: div_round_closest_def unat_div)
qed

lemma period_and_back:
  fixes p :: u32
  assumes "1000 \<le> unat p" "unat p \<le> 10 ^ 9"
  defines "q \<equiv> (ucast (div_round_closest (ucast p)) :: u32)"
  shows "q \<noteq> 0" "unat (ucast (div_round_closest (ucast q)) :: u32) =
      (10 ^ 12 + (10 ^ 12 + unat p div 2) div unat p div 2) div ((10 ^ 12 + unat p div 2) div unat p)"
proof -
  let ?ps = "(10 ^ 12 + unat p div 2) div unat p"
  note r = round_trip_clock [OF assms(1,2)]
  have "unat (ucast p :: u64) < 2 ^ 63" using unsigned_less [of p, where 'a = nat] by (simp add: unat_ucast_up)
  from unat_div_round [OF this] have "unat (div_round_closest (ucast p)) = ?ps" by (simp add: unat_ucast_up)
  then have q: "unat q = ?ps" unfolding q_def unat_ucast_down using r(2) by simp
  then show "q \<noteq> 0" using r(1) by auto
  have "unat (ucast q :: u64) < 2 ^ 63" using unsigned_less [of q, where 'a = nat] by (simp add: unat_ucast_up)
  from unat_div_round [OF this] have "unat (div_round_closest (ucast q)) = (10 ^ 12 + ?ps div 2) div ?ps"
    by (simp add: unat_ucast_up q)
  then show "unat (ucast (div_round_closest (ucast q)) :: u32) = (10 ^ 12 + ?ps div 2) div ?ps"
    unfolding unat_ucast_down using r(3) by simp
qed

lemma var_to_mode_fields:
  assumes "soct_dp_fb_var_to_mode v = Inr m"
  shows "hactive m = xres v" "hfront_porch m = right_margin v" "hsync_len m = v_hsync_len v" "hback_porch m = left_margin v"
    "vactive m = yres v" "vfront_porch m = lower_margin v" "vsync_len m = v_vsync_len v" "vback_porch m = upper_margin v"
    "hsync_active m = (if v_sync v AND 1 \<noteq> 0 then 1 else 0)" "vsync_active m = (if v_sync v AND 2 \<noteq> 0 then 1 else 0)"
    "pixel_clock_hz m = ucast (div_round_closest (ucast (pixclock v)))"
  using assms unfolding soct_dp_fb_var_to_mode_def Let_def by (auto split: if_split_asm)

lemma var_to_mode_fill:
  assumes p: "1000 \<le> unat (pixel_clock_hz m)" "unat (pixel_clock_hz m) \<le> 10 ^ 9"
    and sync: "hsync_active m \<in> {0, 1}" "vsync_active m \<in> {0, 1}"
    and fill: "soct_dp_fb_fill_var c m v0 = Some v" and rt: "soct_dp_fb_var_to_mode v = Inr m'"
  shows "m' = m\<lparr>fps := fps m', pixel_clock_hz := pixel_clock_hz m'\<rparr>"
    and "200 * unat (abs_diff (pixel_clock_hz m') (pixel_clock_hz m)) \<le> unat (pixel_clock_hz m)"
proof -
  let ?p = "pixel_clock_hz m"
  note pb = period_and_back [OF p]
  have v: "xres v = hactive m" "right_margin v = hfront_porch m" "v_hsync_len v = hsync_len m" "left_margin v = hback_porch m"
    "yres v = vactive m" "lower_margin v = vfront_porch m" "v_vsync_len v = vsync_len m" "upper_margin v = vback_porch m"
    "v_sync v = (if hsync_active m \<noteq> 0 then 1 else 0) OR (if vsync_active m \<noteq> 0 then 2 else 0)"
    "pixclock v = ucast (div_round_closest (ucast ?p))"
    using fill unfolding soct_dp_fb_fill_var_def by (auto split: if_split_asm)
  have s: "hsync_active m' = hsync_active m" "vsync_active m' = vsync_active m"
    using sync by (auto simp: var_to_mode_fields [OF rt] v)
  show "m' = m\<lparr>fps := fps m', pixel_clock_hz := pixel_clock_hz m'\<rparr>"
    by (rule soct_dp_mode.equality) (simp_all add: s, simp_all add: var_to_mode_fields [OF rt] v)
  have "unat (abs_diff a b) = (if unat b < unat a then unat a - unat b else unat b - unat a)" for a b
    by (simp add: abs_diff_def word_less_nat_alt unat_diff_le word_le_nat_alt)
  moreover have "unat (pixel_clock_hz m') =
      (10 ^ 12 + (10 ^ 12 + unat ?p div 2) div unat ?p div 2) div ((10 ^ 12 + unat ?p div 2) div unat ?p)"
    unfolding var_to_mode_fields(11) [OF rt] v by (rule pb(2))
  ultimately show "200 * unat (abs_diff (pixel_clock_hz m') ?p) \<le> unat ?p"
    using round_trip_clock(4,5) [OF p] by simp
qed

text \<open>The vertical blank of a computed timing.\<close>

lemma cvt_vsync_cases: "cvt_vsync w h \<in> {4, 5, 6, 7, 10}"
  by (simp add: cvt_vsync_def)

lemma cvt_vbi_bounds:
  assumes h: "unat h < 2 ^ 16" and f: "460 * unat f < 10 ^ 6"
  shows "460 * unat h * unat f < unat (cvt_vbi w h f) * (10 ^ 6 - 460 * unat f)"
    and "9 + unat (cvt_vsync w h) \<le> unat (cvt_vbi w h f)" and "unat (cvt_vbi w h f) < 2 ^ 31"
proof -
  let ?N = "460 * unat h * unat f" and ?d = "10 ^ 6 - 460 * unat f"
  let ?q = "460 * ucast h * ucast f div (1000000 - 460 * ucast f) :: u64"
  have "460 * unat f * unat h \<le> 10 ^ 6 * unat h" using f by (intro mult_le_mono1) simp
  then have N: "?N \<le> 10 ^ 6 * unat h" by (simp add: ac_simps)
  moreover have "10 ^ 6 * unat h < 10 ^ 6 * 2 ^ 16" using h by simp
  ultimately have Nb: "?N < 10 ^ 6 * 2 ^ 16" by (rule le_less_trans)
  have n: "unat (460 * ucast h * ucast f :: u64) = ?N"
  proof -
    have "(460 * ucast h * ucast f :: u64) = of_nat ?N" unfolding ucast_up_of_nat by simp
    moreover have "unat (of_nat ?N :: u64) = ?N" using Nb by (intro unat_of_nat_small) simp
    ultimately show ?thesis by (rule trans [OF arg_cong])
  qed
  have "(460 * ucast f :: u64) = of_nat (460 * unat f)" unfolding ucast_up_of_nat by simp
  moreover have "unat (of_nat (460 * unat f) :: u64) = 460 * unat f" using f by (intro unat_of_nat_small) simp
  ultimately have "unat (460 * ucast f :: u64) = 460 * unat f" by (rule trans [OF arg_cong])
  then have d: "unat (1000000 - 460 * ucast f :: u64) = ?d" using f by (subst unat_diff_le) (simp_all add: word_le_nat_alt)
  have q: "unat ?q = ?N div ?d" unfolding unat_div n d ..
  have "unat f \<le> 2173" using f by simp
  then have "460 * unat f \<le> 999580" by simp
  then have d420: "420 \<le> ?d" by simp
  have "?N div ?d \<le> ?N div 420" using d420 by (intro div_le_mono2) simp_all
  then have small: "?N div ?d < 2 ^ 30" using Nb by simp
  have uq: "unat (ucast ?q :: u32) = ?N div ?d" unfolding unat_ucast_down q using small by simp
  then have v: "unat (ucast ?q + 1 :: u32) = ?N div ?d + 1" using small by (subst unat_add_no_wrap) simp_all
  have m: "unat (3 + cvt_vsync w h + 6) = 9 + unat (cvt_vsync w h)" using cvt_vsync_cases [of w h] by auto
  have e: "unat (cvt_vbi w h f) = max (?N div ?d + 1) (9 + unat (cvt_vsync w h))"
    unfolding cvt_vbi_def Let_def by (simp only: word_less_nat_alt v m if_distrib [of unat] max_def) auto
  have "?N < (?N div ?d + 1) * ?d" using dividend_less_div_times [of ?d ?N] d420 by simp
  also have "\<dots> \<le> unat (cvt_vbi w h f) * ?d" unfolding e by (intro mult_le_mono1) simp
  finally show "460 * unat h * unat f < unat (cvt_vbi w h f) * ?d" .
  show "9 + unat (cvt_vsync w h) \<le> unat (cvt_vbi w h f)" unfolding e by simp
  have "unat (cvt_vsync w h) \<le> 10" using cvt_vsync_cases [of w h] by auto
  then show "unat (cvt_vbi w h f) < 2 ^ 31" unfolding e using small by simp
qed

lemmas understood_eval = understood_def mode_to_var_def clock_period_def soct_dp_fb_var_to_mode_def div_round_closest_def
  mode_htotal_def mode_vtotal_def Let_def

lemma listed_understood:
  "\<exists>m. listed_mode name (640, 480) 30 = Some m \<and> understood old m" "\<exists>m. listed_mode name (640, 480) 60 = Some m \<and> understood old m"
  "\<exists>m. listed_mode name (800, 600) 30 = Some m \<and> understood old m" "\<exists>m. listed_mode name (800, 600) 60 = Some m \<and> understood old m"
  "\<exists>m. listed_mode name (1024, 768) 30 = Some m \<and> understood old m" "\<exists>m. listed_mode name (1024, 768) 60 = Some m \<and> understood old m"
  "\<exists>m. listed_mode name (1280, 720) 30 = Some m \<and> understood old m" "\<exists>m. listed_mode name (1280, 720) 60 = Some m \<and> understood old m"
  "\<exists>m. listed_mode name (1280, 1024) 30 = Some m \<and> understood old m" "\<exists>m. listed_mode name (1280, 1024) 60 = Some m \<and> understood old m"
  "\<exists>m. listed_mode name (1920, 1080) 30 = Some m \<and> understood old m" "\<exists>m. listed_mode name (1920, 1080) 60 = Some m \<and> understood old m"
  by (simp_all add: listed_mode_def standard_def table_mode_def cvt_rb_def cvt_vbi_def cvt_vsync_def understood_eval)



lemma both_rates:
  assumes "\<exists>m. f 30 = Some m \<and> P m" "\<exists>m. f 60 = Some m \<and> P m"
  shows "list_all P (List.map_filter f [30, 60])" "length (List.map_filter f [30, 60]) = 2"
  using assms by (auto simp: map_filter_simps)

section \<open>Properties\<close>



text \<open>
  Computed timings keep the standard's minimum blank. For any active area and refresh rate that
  leave room for it, the vertical blank lasts at least 460 microseconds and at least the sum of the
  fixed porches and the sync, the pixel clock is the exact product of the totals and the refresh rate,
  and the parts add up to the totals.
\<close>

theorem cvt_rb_blanking:
  assumes "cvt_rb w h f = Some m" and "unat w < 2 ^ 16" and "unat h < 2 ^ 16"
  shows "let blank = unat (md_vfp m) + unat (md_vsync m) + unat (md_vbp m);
             hblank = unat (md_hfp m) + unat (md_hsync m) + unat (md_hbp m)
    in 460 * unat f * (unat h + blank) < 10 ^ 6 * blank \<and> 6 \<le> unat (md_vbp m) \<and> hblank = 160 \<and>
       unat (md_clock m) = (unat w + hblank) * (unat h + blank) * unat f"
proof -
  let ?vbi = "cvt_vbi w h f" and ?vs = "cvt_vsync w h"
  have "unat (460 * ucast f :: u64) = 460 * unat f"
  proof -
    have "(460 * ucast f :: u64) = of_nat (460 * unat f)" unfolding ucast_up_of_nat by simp
    moreover have "unat (of_nat (460 * unat f) :: u64) = 460 * unat f"
      using unsigned_less [of f, where 'a = nat] by (intro unat_of_nat_small) simp
    ultimately show ?thesis by (rule trans [OF arg_cong])
  qed
  then have f: "460 * unat f < 10 ^ 6" using assms(1) by (auto simp: cvt_rb_def word_le_nat_alt split: if_splits)
  note b = cvt_vbi_bounds [OF assms(3) f, of w]
  have m: "md_vfp m = 3" "md_vsync m = ?vs" "md_vbp m = ?vbi - 3 - ?vs" "md_hfp m = 48" "md_hsync m = 32" "md_hbp m = 80"
      "md_clock m = ucast (w + 160) * ucast (h + ?vbi) * ucast f"
    using assms(1) by (auto simp: cvt_rb_def Let_def split: if_splits)
  have "unat (?vbi - 3) = unat ?vbi - 3" using b(2) by (subst unat_diff_le) (simp_all add: word_le_nat_alt)
  moreover from this have "unat (?vbi - 3 - ?vs) = unat ?vbi - 3 - unat ?vs"
    using b(2) by (subst unat_diff_le) (simp_all add: word_le_nat_alt)
  ultimately have vbp: "unat (md_vbp m) = unat ?vbi - 3 - unat ?vs" unfolding m by simp
  have blank: "unat (md_vfp m) + unat (md_vsync m) + unat (md_vbp m) = unat ?vbi"
    unfolding vbp using b(2) by (simp add: m)
  have "460 * unat h * unat f + unat ?vbi * (460 * unat f) < unat ?vbi * (10 ^ 6 - 460 * unat f) + unat ?vbi * (460 * unat f)"
    using b(1) by simp
  also have "\<dots> = unat ?vbi * 10 ^ 6" using f by (simp only: distrib_left [symmetric]) simp
  finally have t: "460 * unat f * (unat h + unat ?vbi) < 10 ^ 6 * unat ?vbi" by (simp add: algebra_simps)
  have w: "unat (w + 160) = unat w + 160" using assms(2) by (subst unat_add_no_wrap) simp_all
  have hv: "unat (h + ?vbi) = unat h + unat ?vbi" using assms(3) b(3) by (subst unat_add_no_wrap) simp_all
  have "(unat w + 160) * (unat h + unat ?vbi) \<le> 2 ^ 17 * 2 ^ 32" using assms(2,3) b(3) by (intro mult_le_mono) simp_all
  then have "(unat w + 160) * (unat h + unat ?vbi) * unat f \<le> 2 ^ 17 * 2 ^ 32 * 2 ^ 12" by (rule mult_le_mono) (use f in simp)
  then have lt: "(unat w + 160) * (unat h + unat ?vbi) * unat f < 2 ^ 64" by simp
  have "md_clock m = of_nat ((unat w + 160) * (unat h + unat ?vbi) * unat f)"
    unfolding m ucast_up_of_nat w hv by simp
  moreover have "unat (of_nat ((unat w + 160) * (unat h + unat ?vbi) * unat f) :: u64) = (unat w + 160) * (unat h + unat ?vbi) * unat f"
    using lt by (intro unat_of_nat_small) simp
  ultimately have c: "unat (md_clock m) = (unat w + 160) * (unat h + unat ?vbi) * unat f" by (rule trans [OF arg_cong])
  have hb: "unat (md_hfp m) + unat (md_hsync m) + unat (md_hbp m) = 160" by (simp add: m)
  have "6 \<le> unat (md_vbp m)" unfolding vbp using b(2) by simp
  then show ?thesis unfolding Let_def blank hb using t c by blast
qed

theorem cvt_rb_blanking_witness:
  "\<exists>m. cvt_rb 1280 720 30 = Some m \<and> unat (md_clock m) = 1440 * (720 + (3 + 5 + unat (md_vbp m))) * 30"
proof -
  obtain m where m: "cvt_rb 1280 720 30 = Some m" by (simp add: cvt_rb_def Let_def)
  then have "unat (md_vfp m) = 3" "unat (md_vsync m) = 5" "unat (md_hfp m) + unat (md_hsync m) + unat (md_hbp m) = 160"
    by (auto simp: cvt_rb_def Let_def cvt_vsync_def)
  with cvt_rb_blanking [OF m] m show ?thesis by (simp add: Let_def)
qed

text \<open>
  The kernel understands the list. The list has every geometry at 30 and at 60 Hz, and each mode of
  it, described by the program, comes out of the driver's conversion with the same geometry, porches,
  polarities and nominal refresh rate, and with a pixel clock less than half a percent away.
\<close>

theorem listed_modes_understood:
  "length (build_modes name) = 12 \<and> list_all (understood old) (build_modes name)"
  unfolding build_modes_def geometries_def list.map concat.simps list_all_append length_append
  by (simp only: both_rates [OF listed_understood(1,2)] both_rates [OF listed_understood(3,4)] both_rates [OF listed_understood(5,6)]
    both_rates [OF listed_understood(7,8)] both_rates [OF listed_understood(9,10)] both_rates [OF listed_understood(11,12)]) simp

text \<open>
  A console switch changes nothing on a static design. The driver hands its mode to the framebuffer
  core as a picosecond period; when the core activates that description again and the refresh rate
  comes out the same, the driver recognises its own mode and does nothing, for any pixel clock between
  1 kHz and 1 GHz.
\<close>

theorem static_mode_survives:
  assumes "\<not> dp_retunable (fbs_dp s)" and "fbs_mode s = dp_cur (fbs_dp s)"
    and "hactive (fbs_mode s) \<noteq> 0" "vactive (fbs_mode s) \<noteq> 0" "fps (fbs_mode s) \<noteq> 0"
    and "1000 \<le> unat (pixel_clock_hz (fbs_mode s))" "unat (pixel_clock_hz (fbs_mode s)) \<le> 10 ^ 9"
    and "hsync_active (fbs_mode s) \<in> {0, 1}" "vsync_active (fbs_mode s) \<in> {0, 1}"
    and "soct_dp_fb_fill_var (fbs_carveout s) (fbs_mode s) zeroed = Some (fbs_var s)"
    and "soct_dp_fb_var_to_mode (fbs_var s) = Inr m" "fps m = fps (fbs_mode s)"
  shows "soct_dp_fb_set_par E s = Some (None, s)"
proof -
  let ?c = "dp_cur (fbs_dp s)"
  note r = var_to_mode_fill [OF assms(6-9) assms(10,11), unfolded assms(2,12)]
  have "?c\<lparr>fps := fps ?c, pixel_clock_hz := x\<rparr> = ?c\<lparr>pixel_clock_hz := x\<rparr>" for x by simp
  then have m: "m = ?c\<lparr>pixel_clock_hz := pixel_clock_hz m\<rparr>" by (rule trans [OF r(1)])
  have "m\<lparr>pixel_clock_hz := pixel_clock_hz ?c\<rparr> = ?c\<lparr>pixel_clock_hz := pixel_clock_hz m\<rparr>\<lparr>pixel_clock_hz := pixel_clock_hz ?c\<rparr>"
    by (rule arg_cong [OF m])
  then have f: "m\<lparr>pixel_clock_hz := pixel_clock_hz ?c\<rparr> = ?c" "hactive m = hactive ?c" "vactive m = vactive ?c"
    using arg_cong [OF m, of hactive] arg_cong [OF m, of vactive] by simp_all
  have "unat (ucast (abs_diff (pixel_clock_hz m) (pixel_clock_hz ?c)) * 200 :: u64) =
      200 * unat (abs_diff (pixel_clock_hz m) (pixel_clock_hz ?c))"
    using unsigned_less [of "abs_diff (pixel_clock_hz m) (pixel_clock_hz ?c)", where 'a = nat] by (simp add: unat_word_ariths unat_ucast_up)
  then have near: "\<not> ucast (abs_diff (pixel_clock_hz m) (pixel_clock_hz ?c)) * 200 > (ucast (pixel_clock_hz ?c) :: u64)"
    using r(2) by (simp add: word_less_nat_alt not_less unat_ucast_up)
  have "pixel_clock_hz m \<noteq> 0"
  proof
    assume "pixel_clock_hz m = 0"
    then have "200 * unat (pixel_clock_hz ?c) \<le> unat (pixel_clock_hz ?c)" using r(2) by (simp add: abs_diff_def)
    then show False using assms(2,6) by simp
  qed
  then have "soct_dp_validate_mode (fbs_dp s) m = (Dp_OK, ?c)"
    using assms(1-5,12) near f unfolding soct_dp_validate_mode_def by simp
  then show ?thesis using assms(2,11) by (simp add: soct_dp_fb_set_par_def)
qed

theorem static_mode_survives_witness:
  "let s = demo_fbdev\<lparr>fbs_dp := demo_dp\<lparr>dp_cur := mode_1080p, dp_retunable := False\<rparr>, fbs_mode := mode_1080p, fbs_carveout := 0x1000000\<rparr>
   in \<exists>v. soct_dp_fb_fill_var 0x1000000 mode_1080p demo_var = Some v \<and> pixclock v = 6734 \<and>
     soct_dp_fb_set_par demo_switch (s\<lparr>fbs_var := v\<rparr>) = Some (None, s\<lparr>fbs_var := v\<rparr>)"
proof -
  obtain v where v: "soct_dp_fb_fill_var 0x1000000 mode_1080p demo_var = Some v" by (simp add: soct_dp_fb_fill_var_def mode_1080p_def)
  then have p: "pixclock v = 6734" by (auto simp: soct_dp_fb_fill_var_def mode_1080p_def div_round_closest_def)
  obtain m where m: "soct_dp_fb_var_to_mode v = Inr m" "fps m = 60"
    using v by (auto simp: soct_dp_fb_fill_var_def soct_dp_fb_var_to_mode_def mode_1080p_def div_round_closest_def mode_htotal_def mode_vtotal_def Let_def)
  let ?s = "demo_fbdev\<lparr>fbs_dp := demo_dp\<lparr>dp_cur := mode_1080p, dp_retunable := False\<rparr>, fbs_mode := mode_1080p, fbs_carveout := 0x1000000, fbs_var := v\<rparr>"
  have "soct_dp_fb_set_par demo_switch ?s = Some (None, ?s)"
    by (rule static_mode_survives [where zeroed = demo_var and m = m]) (use v m in \<open>simp_all add: mode_1080p_def\<close>)
  with v p show ?thesis by simp
qed

end
