(* ===== verification/Linux_Fbimg.thy ===== *)
theory Linux_Fbimg
  imports Linux_Fb_Inv
begin

text \<open>
  The image viewer for Linux (\<open>linux/userspace/fbimg/main.c\<close>) on the model of the framebuffer device: the
  progress bar and the metered input, the placing of the image, the drawing row by row through \<open>pwrite\<close>, and
  the console mode around it. Decoding is the vendor's; the decoded image is an argument. An access outside
  the image or the row buffer is \<open>None\<close>.
\<close>

section \<open>Progress and input\<close>

definition bar :: "int \<Rightarrow> string" where
  "bar pct = map (\<lambda>i. if int i < pct div 5 then CHR ''#'' else CHR ''-'') [0..<20]"

definition digit_of :: "int \<Rightarrow> char" where
  "digit_of d = char_of (48 + nat d)"

text \<open>The line \<open>on_tick\<close> writes at tick \<open>frame\<close>; \<open>g_pct\<close> is not negative, so C's division is \<open>div\<close>.\<close>

definition on_tick :: "int \<Rightarrow> u32 \<Rightarrow> string" where
  "on_tick pct frame =
     [CHR 0x0D, CHR ''[''] @ bar pct @ [CHR '']'', CHR '' ''] @ (if 100 \<le> pct then ''1'' else []) @
     (if 10 \<le> pct then [digit_of (pct div 10 mod 10)] else []) @ [digit_of (pct mod 10), CHR ''%'', CHR '' ''] @
     [[CHR ''|'', CHR ''/'', CHR ''-'', CHR 0x5C] ! unat (frame AND 3)]"

text \<open>The input, without its stream and the time it took; the bytes consumed are not negative.\<close>

record progress_src =
  ps_size :: int
  ps_consumed :: int
  ps_pct :: int

definition src_read :: "int \<Rightarrow> progress_src \<Rightarrow> progress_src" where
  "src_read n s =
     (let s = s\<lparr>ps_consumed := ps_consumed s + n\<rparr>
      in if ps_size s > 0 then s\<lparr>ps_pct := min 100 (ps_consumed s * 100 div ps_size s)\<rparr> else s)"

definition src_skip :: "int \<Rightarrow> progress_src \<Rightarrow> progress_src" where
  "src_skip n s = s\<lparr>ps_consumed := ps_consumed s + n\<rparr>"

definition src_eof :: "bool \<Rightarrow> progress_src \<Rightarrow> bool" where
  "src_eof feof s \<longleftrightarrow> feof \<or> ps_size s \<le> ps_consumed s"

text \<open>What a wait for a key sees: a byte, the end or a failure of the input, or an interruption; \<open>quit\<close>
  is the flag after each event. The wait is over when the list of events is not used up.\<close>

datatype wait_event = Key | Input_over bool | Interrupted bool

fun wait_dismiss :: "bool \<Rightarrow> wait_event list \<Rightarrow> wait_event list option" where
  "wait_dismiss True es = Some es"
| "wait_dismiss False [] = None"
| "wait_dismiss False (Key # es) = Some es"
| "wait_dismiss False (Input_over q # es) = wait_dismiss q es"
| "wait_dismiss False (Interrupted q # es) = wait_dismiss q es"

section \<open>Drawing\<close>

record placing =
  pl_dw :: u32
  pl_dh :: u32
  pl_x0 :: u32
  pl_y0 :: u32

text \<open>\<open>iw\<close> and \<open>ih\<close> are C integers of 32 bits.\<close>

definition fit :: "u32 \<Rightarrow> u32 \<Rightarrow> u32 \<Rightarrow> u32 \<Rightarrow> placing" where
  "fit iw ih xr yr =
     (let (dw, dh) =
        (if (scast iw :: u64) * ucast yr > (scast ih :: u64) * ucast xr
         then (xr, ucast ((scast ih :: u64) * ucast xr div scast iw))
         else (ucast ((scast iw :: u64) * ucast yr div scast ih), yr));
          dw = (if dw = 0 then 1 else dw);
          dh = (if dh = 0 then 1 else dh)
      in \<lparr>pl_dw = dw, pl_dh = dh, pl_x0 = (xr - dw) div 2, pl_y0 = (yr - dh) div 2\<rparr>)"

definition put_pixel :: "u8 list \<Rightarrow> u64 \<Rightarrow> u64 \<Rightarrow> u8 list \<Rightarrow> u8 list option" where
  "put_pixel img px dst row =
     (if unat px + 2 < length img \<and> unat dst + 2 < length row
      then Some (row[unat dst := img ! (unat px + 2), unat dst + 1 := img ! (unat px + 1), unat dst + 2 := img ! unat px])
      else None)"

fun row_loop :: "u8 list \<Rightarrow> u64 \<Rightarrow> u32 \<Rightarrow> placing \<Rightarrow> u32 list \<Rightarrow> u8 list \<Rightarrow> u8 list option" where
  "row_loop img src_row iw p [] row = Some row"
| "row_loop img src_row iw p (x # xs) row = do {
     row \<leftarrow> put_pixel img (src_row + (ucast x * scast iw div ucast (pl_dw p)) * 3) (ucast (pl_x0 p + x) * 3) row;
     row_loop img src_row iw p xs row }"

definition fbimg_row :: "u8 list \<Rightarrow> u32 \<Rightarrow> u32 \<Rightarrow> placing \<Rightarrow> u32 \<Rightarrow> u32 \<Rightarrow> u8 list option" where
  "fbimg_row img iw ih p line y =
     (let row = replicate (unat line) 0
      in if pl_y0 p \<le> y \<and> y < pl_y0 p + pl_dh p
         then row_loop img ((ucast (y - pl_y0 p) * scast ih div ucast (pl_dh p)) * scast iw * 3) iw p
                (map of_nat [0..<unat (pl_dw p)]) row
         else Some row)"

fun draw_rows :: "u8 list \<Rightarrow> u32 \<Rightarrow> u32 \<Rightarrow> placing \<Rightarrow> u32 \<Rightarrow> u32 list \<Rightarrow> fb_state \<Rightarrow> (bool \<times> fb_state) option" where
  "draw_rows img iw ih p line [] s = Some (True, s)"
| "draw_rows img iw ih p line (y # ys) s = do {
     row \<leftarrow> fbimg_row img iw ih p line y;
     (r, pos, s) \<leftarrow> soct_dp_fb_write False row (ucast line) (ucast y * ucast line) s;
     if r = Inr (ucast line) then draw_rows img iw ih p line ys s else Some (False, s) }"

text \<open>
  From the opened device on: whether the row buffer is allocated, whether there is a virtual terminal and
  whether it takes the graphics mode, whether a signal came while the image was drawn, and what the
  wait sees. The result is the exit status and the console
  modes set.
\<close>

datatype kd_mode = KD_GRAPHICS | KD_TEXT

definition fbimg_show :: "bool \<Rightarrow> bool \<Rightarrow> bool \<Rightarrow> bool \<Rightarrow> wait_event list \<Rightarrow> u8 list \<Rightarrow> u32 \<Rightarrow> u32 \<Rightarrow> fb_state \<Rightarrow>
    (int \<times> kd_mode list \<times> fb_state) option" where
  "fbimg_show malloc vt kd quit es img iw ih s =
     (let v = fbs_var s; line = fbs_line_length s; p = fit iw ih (xres v) (yres v)
      in if bits_per_pixel v \<noteq> 24 then Some (1, [], s)
         else if \<not> malloc then Some (1, [], s)
         else do {
           let modes = (if vt \<and> kd then [KD_GRAPHICS] else []);
           (ok, s) \<leftarrow> draw_rows img iw ih p line (map of_nat [0..<unat (yres v)]) s;
           if \<not> ok then Some (1, modes @ (if vt then [KD_TEXT] else []), s)
           else do { wait_dismiss quit es; Some (0, modes @ (if vt then [KD_TEXT] else []), s) } })"

section \<open>The placing\<close>

lemma scast_of_nat: "unat (w :: u32) < 2 ^ 31 \<Longrightarrow> (scast w :: u64) = of_nat (unat w)"
proof -
  assume "unat w < 2 ^ 31"
  then have "int (unat w) < int (2 ^ 31)" unfolding of_nat_less_iff .
  then have "uint w < 2 ^ 31" by simp
  then have "(uint w + 2 ^ 31) mod 2 ^ 32 = uint w + 2 ^ 31" using uint_bounded [of w] by (intro mod_pos_pos_trivial) simp_all
  then have "sint w = uint w" by (simp add: sint_uint signed_take_bit_eq_take_bit_shift take_bit_eq_mod)
  then show ?thesis by (simp add: scast_eq flip: uint_nat)
qed

lemma unat_mult_small:
  fixes a b :: u64
  assumes "unat a * unat b < 2 ^ 64"
  shows "unat (a * b) = unat a * unat b"
  using assms by (simp add: unat_word_ariths)

definition fit_nat :: "nat \<Rightarrow> nat \<Rightarrow> nat \<Rightarrow> nat \<Rightarrow> nat \<times> nat" where
  "fit_nat iw ih xr yr = (if ih * xr < iw * yr then (xr, max 1 (ih * xr div iw)) else (max 1 (iw * yr div ih), yr))"

lemma fit_nat_inside:
  assumes "0 < iw" "0 < ih" "0 < xr" "0 < yr"
  shows "0 < fst (fit_nat iw ih xr yr)" "fst (fit_nat iw ih xr yr) \<le> xr" "0 < snd (fit_nat iw ih xr yr)" "snd (fit_nat iw ih xr yr) \<le> yr"
proof -
  have "ih * xr < iw * yr \<Longrightarrow> ih * xr div iw < yr" by (rule less_mult_imp_div_less) (simp add: mult.commute)
  moreover have "iw * yr \<le> ih * xr \<Longrightarrow> iw * yr div ih \<le> xr" using assms(2) by (metis div_le_mono nonzero_mult_div_cancel_left less_numeral_extra(3))
  ultimately show "0 < fst (fit_nat iw ih xr yr)" "fst (fit_nat iw ih xr yr) \<le> xr" "0 < snd (fit_nat iw ih xr yr)"
    "snd (fit_nat iw ih xr yr) \<le> yr" using assms by (auto simp: fit_nat_def)
qed

lemma fit_unat:
  assumes i: "0 < unat iw" "unat iw < 2 ^ 31" "0 < unat ih" "unat ih < 2 ^ 31" and v: "0 < unat xr" "0 < unat yr"
  defines "d \<equiv> fit_nat (unat iw) (unat ih) (unat xr) (unat yr)"
  shows "unat (pl_dw (fit iw ih xr yr)) = fst d" "unat (pl_dh (fit iw ih xr yr)) = snd d"
    "unat (pl_x0 (fit iw ih xr yr)) = (unat xr - fst d) div 2" "unat (pl_y0 (fit iw ih xr yr)) = (unat yr - snd d) div 2"
proof -
  have x: "unat xr < 2 ^ 32" "unat yr < 2 ^ 32" using unsigned_less [of xr, where 'a = nat] unsigned_less [of yr, where 'a = nat] by simp_all
  have prod: "unat ((scast a :: u64) * ucast b) = unat a * unat b" if "unat a < 2 ^ 31" "unat b < 2 ^ 32" for a b :: u32
  proof -
    have "unat a * unat b < 2 ^ 31 * 2 ^ 32" using that by (intro mult_strict_mono) simp_all
    then have "unat a * unat b < 2 ^ LENGTH(64)" by simp
    then have "unat (of_nat (unat a * unat b) :: u64) = unat a * unat b" by (rule unat_of_nat_small)
    then show ?thesis unfolding scast_of_nat [OF that(1)] ucast_up_of_nat of_nat_mult .
  qed
  have quot: "unat (ucast ((scast a :: u64) * ucast b div scast c) :: u32) = unat a * unat b div unat c"
    if "unat a < 2 ^ 31" "unat b < 2 ^ 32" "unat c < 2 ^ 31" "unat a * unat b div unat c < 2 ^ 32" for a b c :: u32
  proof -
    have c: "unat (scast c :: u64) = unat c" unfolding scast_of_nat [OF that(3)] using that(3) by (intro unat_of_nat_small) simp
    show ?thesis unfolding unat_ucast_down unat_div prod [OF that(1,2)] c using that(4) by simp
  qed
  note ins = fit_nat_inside [OF i(1,3) v]
  have less: "(scast iw :: u64) * ucast yr > (scast ih :: u64) * ucast xr \<longleftrightarrow> unat ih * unat xr < unat iw * unat yr"
    unfolding word_less_nat_alt prod [OF i(2) x(2)] prod [OF i(4) x(1)] ..
  have one: "unat (if w = 0 then 1 else w :: u32) = max 1 (unat w)" for w :: u32
    by (simp add: max_def unat_eq_zero le_Suc_eq) (metis One_nat_def Suc_leI le_antisym less_Suc0 not_less unat_gt_0)
  have both: "unat (pl_dw (fit iw ih xr yr)) = fst d \<and> unat (pl_dh (fit iw ih xr yr)) = snd d"
  proof (cases "unat ih * unat xr < unat iw * unat yr")
    case True
    have "unat ih * unat xr div unat iw < unat yr" using True by (intro less_mult_imp_div_less) (simp add: mult.commute)
    then have "unat (ucast ((scast ih :: u64) * ucast xr div scast iw) :: u32) = unat ih * unat xr div unat iw"
      using x i by (intro quot) simp_all
    then show ?thesis using True less v unfolding d_def fit_def Let_def by (simp add: one fit_nat_def max_def)
  next
    case False
    then have "unat iw * unat yr div unat ih \<le> unat xr"
      using i(3) by (metis div_le_mono nonzero_mult_div_cancel_left not_less less_numeral_extra(3))
    then have "unat (ucast ((scast iw :: u64) * ucast yr div scast ih) :: u32) = unat iw * unat yr div unat ih"
      using x i by (intro quot) simp_all
    then show ?thesis using False less v unfolding d_def fit_def Let_def by (simp add: one fit_nat_def max_def)
  qed
  then show "unat (pl_dw (fit iw ih xr yr)) = fst d" "unat (pl_dh (fit iw ih xr yr)) = snd d" by blast+
  have mid: "unat ((a - b) div 2) = (unat a - unat b) div 2" if "unat b \<le> unat a" for a b :: u32
    using that by (simp add: unat_div unat_diff_le word_le_nat_alt)
  have c: "pl_x0 (fit iw ih xr yr) = (xr - pl_dw (fit iw ih xr yr)) div 2" "pl_y0 (fit iw ih xr yr) = (yr - pl_dh (fit iw ih xr yr)) div 2"
    by (simp_all add: fit_def Let_def case_prod_beta)
  show "unat (pl_x0 (fit iw ih xr yr)) = (unat xr - fst d) div 2" "unat (pl_y0 (fit iw ih xr yr)) = (unat yr - snd d) div 2"
    unfolding c using both ins by (simp_all add: mid d_def)
qed

section \<open>One row\<close>

text \<open>
  Byte \<open>j\<close> of row \<open>y\<close> as it is meant to be: in the box, the nearest pixel of the image, blue first; black
  around it.
\<close>

definition screen_byte :: "u8 list \<Rightarrow> nat \<Rightarrow> nat \<Rightarrow> placing \<Rightarrow> nat \<Rightarrow> nat \<Rightarrow> u8" where
  "screen_byte img iw ih p y j =
     (let x0 = unat (pl_x0 p); y0 = unat (pl_y0 p); dw = unat (pl_dw p); dh = unat (pl_dh p)
      in if y0 \<le> y \<and> y < y0 + dh \<and> x0 \<le> j div 3 \<and> j div 3 < x0 + dw
         then img ! ((((y - y0) * ih div dh) * iw + (j div 3 - x0) * iw div dw) * 3 + (2 - j mod 3)) else 0)"

lemma nth_triple:
  "q * 3 + 2 < length row \<Longrightarrow> j < length row \<Longrightarrow>
    row[q * 3 := a, q * 3 + 1 := b, q * 3 + 2 := c] ! j =
      (if j div 3 = q then (if j mod 3 = 0 then a else if j mod 3 = 1 then b else c) else row ! j)"
proof -
  assume l: "q * 3 + 2 < length row" "j < length row"
  have "j = j div 3 * 3 + j mod 3" "j mod 3 < 3" by simp_all
  then have "q * 3 = j \<longleftrightarrow> j div 3 = q \<and> j mod 3 = 0" "q * 3 + 1 = j \<longleftrightarrow> j div 3 = q \<and> j mod 3 = 1"
    "q * 3 + 2 = j \<longleftrightarrow> j div 3 = q \<and> j mod 3 = 2" "j mod 3 = 0 \<or> j mod 3 = 1 \<or> j mod 3 = 2" by presburger+
  then show ?thesis using l by (simp only: nth_list_update length_list_update) auto
qed

lemma fit_index:
  assumes "x < dw" shows "x * n div dw < n \<or> n = (0 :: nat)"
  using assms by (cases "n = 0") (auto intro!: less_mult_imp_div_less simp: mult.commute)

lemma row_loop_result:
  fixes img :: "u8 list" and src :: u64 and p :: placing and iw :: u32
  defines "DW \<equiv> unat (pl_dw p)" and "X0 \<equiv> unat (pl_x0 p)" and "IW \<equiv> unat iw"
  assumes L: "(X0 + DW) * 3 \<le> length row" "length row < 2 ^ 32" and iw: "0 < IW" "IW < 2 ^ 31"
    and img: "unat src + IW * 3 \<le> length img" "unat src + IW * 3 < 2 ^ 64"
  shows "a \<le> DW \<Longrightarrow> \<exists>row'. row_loop img src iw p (map of_nat [a..<DW]) row = Some row' \<and> length row' = length row \<and>
    (\<forall>j<length row. row' ! j = (if X0 + a \<le> j div 3 \<and> j div 3 < X0 + DW
       then img ! (unat src + (j div 3 - X0) * IW div DW * 3 + (2 - j mod 3)) else row ! j))"
  using L
proof (induction "DW - a" arbitrary: a row)
  case (Suc k)
  then have a: "a < DW" by simp
  have dw32: "DW < 2 ^ 32" unfolding DW_def using unsigned_less [of "pl_dw p", where 'a = nat] by simp
  have ua: "unat (of_nat a :: u32) = a" using a dw32 by (intro unat_of_nat_small) simp
  have dst: "unat (ucast (pl_x0 p + of_nat a) * 3 :: u64) = (X0 + a) * 3"
  proof -
    have "unat (pl_x0 p + of_nat a) = X0 + a"
      using Suc.prems a by (subst unat_add_no_wrap) (simp_all add: ua X0_def)
    then have "unat (ucast (pl_x0 p + of_nat a) :: u64) = X0 + a" by (simp add: unat_ucast_up)
    then show ?thesis using Suc.prems a by (subst unat_mult_small) simp_all
  qed
  have sc: "a * IW div DW < IW" using fit_index [OF a, of IW] iw by simp
  have px: "unat (src + (ucast (of_nat a :: u32) * scast iw div ucast (pl_dw p)) * 3) = unat src + a * IW div DW * 3"
  proof -
    have "a * IW < 2 ^ 32 * 2 ^ 31" using a dw32 iw by (intro mult_strict_mono) simp_all
    then have "unat (ucast (of_nat a :: u32) * (scast iw :: u64)) = a * IW"
      using iw unfolding IW_def by (subst unat_mult_small) (simp_all add: unat_ucast_up ua scast_of_nat unat_of_nat_small)
    then have q: "unat (ucast (of_nat a :: u32) * scast iw div ucast (pl_dw p) :: u64) = a * IW div DW"
      by (simp add: unat_div unat_ucast_up DW_def)
    then have "unat ((ucast (of_nat a :: u32) * scast iw div ucast (pl_dw p)) * 3 :: u64) = a * IW div DW * 3"
      using sc iw by (subst unat_mult_small) simp_all
    then show ?thesis using sc img by (subst unat_add_no_wrap) simp_all
  qed
  let ?px = "unat src + a * IW div DW * 3"
  let ?row = "row[(X0 + a) * 3 := img ! (?px + 2), (X0 + a) * 3 + 1 := img ! (?px + 1), (X0 + a) * 3 + 2 := img ! ?px]"
  have fits: "?px + 2 < length img" "(X0 + a) * 3 + 2 < length row" using sc img by (linarith, use Suc.prems a in simp)
  have k: "k = DW - Suc a" using Suc.hyps by simp
  obtain row' where r: "row_loop img src iw p (map of_nat [Suc a..<DW]) ?row = Some row'" "length row' = length row"
    "\<And>j. j < length row \<Longrightarrow> row' ! j = (if X0 + Suc a \<le> j div 3 \<and> j div 3 < X0 + DW
       then img ! (unat src + (j div 3 - X0) * IW div DW * 3 + (2 - j mod 3)) else ?row ! j)"
    using Suc.hyps(1) [OF k, of ?row] a Suc.prems by auto
  have run: "row_loop img src iw p (map of_nat [a..<DW]) row = Some row'"
    using r(1) a fits by (simp add: upt_conv_Cons put_pixel_def dst px)
  have "row' ! j = (if X0 + a \<le> j div 3 \<and> j div 3 < X0 + DW
       then img ! (unat src + (j div 3 - X0) * IW div DW * 3 + (2 - j mod 3)) else row ! j)" if j: "j < length row" for j
  proof (cases "j div 3 = X0 + a")
    case True
    have "j mod 3 = 0 \<or> j mod 3 = 1 \<or> j mod 3 = 2" by linarith
    then show ?thesis unfolding r(3) [OF j] nth_triple [OF fits(2) j] using True a by (elim disjE) simp_all
  next
    case False
    then show ?thesis unfolding r(3) [OF j] nth_triple [OF fits(2) j] by auto
  qed
  then show ?case using run r(2) by blast
qed auto

text \<open>What is needed of the image and of the row buffer: the image is held whole, and a row of the screen
  fits.\<close>

definition drawable :: "u8 list \<Rightarrow> u32 \<Rightarrow> u32 \<Rightarrow> u32 \<Rightarrow> u32 \<Rightarrow> u32 \<Rightarrow> bool" where
  "drawable img iw ih xr yr line \<longleftrightarrow> 0 < unat iw \<and> unat iw < 2 ^ 31 \<and> 0 < unat ih \<and> unat ih < 2 ^ 31 \<and>
     0 < unat xr \<and> 0 < unat yr \<and> unat xr * 3 \<le> unat line \<and> unat iw * unat ih * 3 \<le> length img"

lemma fit_box:
  assumes "drawable img iw ih xr yr line"
  defines "p \<equiv> fit iw ih xr yr"
  shows "0 < unat (pl_dw p)" "0 < unat (pl_dh p)" "unat (pl_x0 p) + unat (pl_dw p) \<le> unat xr" "unat (pl_y0 p) + unat (pl_dh p) \<le> unat yr"
proof -
  have d: "0 < unat iw" "unat iw < 2 ^ 31" "0 < unat ih" "unat ih < 2 ^ 31" "0 < unat xr" "0 < unat yr"
    using assms(1) by (simp_all add: drawable_def)
  note u = fit_unat [OF d] and i = fit_nat_inside [OF d(1,3,5,6)]
  have mid: "b \<le> a \<Longrightarrow> (a - b) div 2 + b \<le> a" for a b :: nat by linarith
  show "0 < unat (pl_dw p)" "0 < unat (pl_dh p)" unfolding p_def u using i by simp_all
  show "unat (pl_x0 p) + unat (pl_dw p) \<le> unat xr" "unat (pl_y0 p) + unat (pl_dh p) \<le> unat yr"
    unfolding p_def u using mid [OF i(2)] mid [OF i(4)] by simp_all
qed

lemma fbimg_row_result:
  assumes D: "drawable img iw ih xr yr line" and y: "y < unat yr"
  defines "p \<equiv> fit iw ih xr yr"
  shows "fbimg_row img iw ih p line (of_nat y) = Some (map (screen_byte img (unat iw) (unat ih) p y) [0..<unat line])"
proof -
  note box = fit_box [OF D, folded p_def]
  have i: "0 < unat iw" "unat iw < 2 ^ 31" "0 < unat ih" "unat ih < 2 ^ 31" "unat xr * 3 \<le> unat line" "unat iw * unat ih * 3 \<le> length img"
    using D by (simp_all add: drawable_def)
  have line: "unat line < 2 ^ 32" using unsigned_less [of line, where 'a = nat] by simp
  have yr: "unat yr < 2 ^ 32" using unsigned_less [of yr, where 'a = nat] by simp
  then have uy: "unat (of_nat y :: u32) = y" using y by (intro unat_of_nat_small) simp
  have sum: "unat (pl_y0 p + pl_dh p) = unat (pl_y0 p) + unat (pl_dh p)" using box(4) yr by (intro unat_add_no_wrap) simp
  have inb: "pl_y0 p \<le> of_nat y \<and> of_nat y < pl_y0 p + pl_dh p \<longleftrightarrow> unat (pl_y0 p) \<le> y \<and> y < unat (pl_y0 p) + unat (pl_dh p)"
    unfolding word_le_nat_alt word_less_nat_alt uy sum ..
  show ?thesis
  proof (cases "unat (pl_y0 p) \<le> y \<and> y < unat (pl_y0 p) + unat (pl_dh p)")
    case False
    then have "map (screen_byte img (unat iw) (unat ih) p y) [0..<unat line] = replicate (unat line) 0"
      by (auto intro!: nth_equalityI simp: screen_byte_def)
    then show ?thesis using False inb by (auto simp: fbimg_row_def Let_def)
  next
    case True
    let ?k = "(y - unat (pl_y0 p)) * unat ih div unat (pl_dh p)"
    let ?src = "(ucast (of_nat y - pl_y0 p) * scast ih div ucast (pl_dh p)) * scast iw * 3 :: u64"
    have "y - unat (pl_y0 p) < unat (pl_dh p)" using True by linarith
    then have k: "?k < unat ih" using fit_index [of "y - unat (pl_y0 p)" "unat (pl_dh p)" "unat ih"] i by simp
    have "unat (of_nat y - pl_y0 p :: u32) = y - unat (pl_y0 p)"
      using True by (subst unat_diff_le) (simp_all add: word_le_nat_alt uy)
    then have 1: "unat (ucast (of_nat y - pl_y0 p) :: u64) = y - unat (pl_y0 p)" by (simp add: unat_ucast_up)
    have si: "unat (scast ih :: u64) = unat ih" "unat (scast iw :: u64) = unat iw"
      using i by (simp_all add: scast_of_nat unat_of_nat_small unat_ucast_up)
    have "(y - unat (pl_y0 p)) * unat ih < 2 ^ 32 * 2 ^ 31" using y yr i by (intro mult_strict_mono) simp_all
    then have "unat (ucast (of_nat y - pl_y0 p) * scast ih :: u64) = (y - unat (pl_y0 p)) * unat ih"
      using 1 si by (subst unat_mult_small) simp_all
    then have 2: "unat (ucast (of_nat y - pl_y0 p) * scast ih div ucast (pl_dh p) :: u64) = ?k"
      by (simp add: unat_div unat_ucast_up)
    have kiw: "?k * unat iw + unat iw \<le> unat ih * unat iw" using k mult_le_mono1 [of "Suc ?k" "unat ih" "unat iw"] by simp
    have ihw: "unat ih * unat iw < 2 ^ 31 * 2 ^ 31" using i by (intro mult_strict_mono) simp_all
    have 3: "unat ((ucast (of_nat y - pl_y0 p) * scast ih div ucast (pl_dh p)) * scast iw :: u64) = ?k * unat iw"
      using 2 si kiw ihw by (subst unat_mult_small) simp_all
    have src: "unat ?src = ?k * unat iw * 3" using 3 kiw ihw by (subst unat_mult_small) simp_all
    have L: "(unat (pl_x0 p) + unat (pl_dw p)) * 3 \<le> length (replicate (unat line) (0 :: u8))"
      "length (replicate (unat line) (0 :: u8)) < 2 ^ 32" using box(3) i(5) line by simp_all
    have I: "unat ?src + unat iw * 3 \<le> length img" "unat ?src + unat iw * 3 < 2 ^ 64"
      unfolding src using kiw ihw i(6) by (simp_all add: mult.commute [of "unat ih"])
    obtain row where r: "row_loop img ?src iw p (map of_nat [0..<unat (pl_dw p)]) (replicate (unat line) 0) = Some row"
      "length row = unat line" "\<forall>j<unat line. row ! j = (if unat (pl_x0 p) \<le> j div 3 \<and> j div 3 < unat (pl_x0 p) + unat (pl_dw p)
        then img ! (unat ?src + (j div 3 - unat (pl_x0 p)) * unat iw div unat (pl_dw p) * 3 + (2 - j mod 3)) else 0)"
      using row_loop_result [OF L i(1,2) I, of 0] by auto
    have "row = map (screen_byte img (unat iw) (unat ih) p y) [0..<unat line]"
      using r(2,3) True by (intro nth_equalityI) (auto simp: screen_byte_def Let_def src add_mult_distrib)
    then show ?thesis using r(1) True inb by (simp add: fbimg_row_def Let_def)
  qed
qed

section \<open>The whole screen\<close>

definition same_screen :: "fb_state \<Rightarrow> fb_state \<Rightarrow> bool" where
  "same_screen s s' \<longleftrightarrow> fbs_phys s' = fbs_phys s \<and> fbs_stride s' = fbs_stride s \<and> vis_len s' = vis_len s"

lemma damage_range_screen:
  "\<exists>s'. soct_dp_fb_damage_range False off len s = Some s' \<and> same_screen s s' \<and> fbs_cpu s' = fbs_cpu s"
  by (auto simp: soct_dp_fb_damage_range_def soct_dp_fb_damage_area_def record_damage_def same_screen_def vis_len_def Let_def)

text \<open>A row through \<open>pwrite\<close>.\<close>

lemma write_row:
  assumes inv: "fb_inv s oj P" and row: "length row = unat (fbs_stride s)" and y: "(y + 1) * unat (fbs_stride s) \<le> vis_len s"
  shows "\<exists>pos s'. soct_dp_fb_write False row (ucast (fbs_stride s)) (ucast (of_nat y :: u32) * ucast (fbs_stride s)) s =
      Some (Inr (ucast (fbs_stride s)), pos, s') \<and> fb_inv s' oj P \<and> same_screen s s' \<and>
      fbs_cpu s' = store_bytes (fbs_phys s + of_nat (y * unat (fbs_stride s))) row (fbs_cpu s)"
proof -
  let ?S = "unat (fbs_stride s)" and ?t = "ucast (fbs_smem_len s) :: u64" and ?c = "ucast (fbs_stride s) :: u64"
  let ?pos = "ucast (of_nat y :: u32) * ucast (fbs_stride s) :: u64"
  have g: "geometry_ok s" and sm: "unat (fbs_smem_len s) = vis_len s" using inv by (simp_all add: fb_inv_def)
  note gf = geometry_facts [OF g]
  have v32: "vis_len s < 2 ^ 32" using gf(1) g by (simp add: geometry_ok_def)
  have le: "y * ?S + ?S \<le> vis_len s" using y by simp
  have "y \<le> y * ?S" using gf(5) by simp
  then have "y < 2 ^ 32" using le v32 by linarith
  then have "unat (of_nat y :: u32) = y" by (intro unat_of_nat_small) simp
  then have up: "unat (ucast (of_nat y :: u32) :: u64) = y" by (simp add: unat_ucast_up)
  have uc: "unat ?c = ?S" by (simp add: unat_ucast_up)
  have pos: "unat ?pos = y * ?S" using le v32 by (subst unat_mult_small) (simp_all add: up uc)
  moreover have "unat (of_nat (y * ?S) :: u64) = y * ?S" using le v32 by (intro unat_of_nat_small) simp
  ultimately have posn: "?pos = of_nat (y * ?S)" unfolding word_unat_eq_iff by presburger
  have t: "unat ?t = vis_len s" by (simp add: unat_ucast_up sm)
  have "int (unat ?pos) < int (2 ^ 63)" unfolding of_nat_less_iff pos using le v32 by simp
  then have "uint ?pos < 2 ^ 63" by simp
  then have "(uint ?pos + 2 ^ 63) mod 2 ^ 64 = uint ?pos + 2 ^ 63" using uint_bounded [of ?pos] by (intro mod_pos_pos_trivial) simp_all
  then have "sint ?pos = uint ?pos" by (simp add: sint_uint signed_take_bit_eq_take_bit_shift take_bit_eq_mod)
  then have ok: "\<not> (sint ?pos < 0 \<or> ?t < ?pos)" using le by (simp add: word_less_nat_alt t pos)
  have "?pos \<le> ?t" using le by (simp add: word_le_nat_alt t pos)
  then have "unat (?t - ?pos) = vis_len s - y * ?S" by (simp add: unat_diff_le t pos)
  then have cnt: "(if ?c > ?t - ?pos then ?t - ?pos else ?c) = ?c" using le by (auto simp: word_less_nat_alt uc)
  have c0: "?c \<noteq> 0" using gf(5) uc by (metis unat_0 less_numeral_extra(3))
  let ?s = "s\<lparr>fbs_cpu := store_bytes (fbs_phys s + ?pos) row (fbs_cpu s)\<rparr>"
  obtain s' where d: "soct_dp_fb_damage_range False ?pos ?c ?s = Some s'" "same_screen ?s s'" "fbs_cpu s' = fbs_cpu ?s"
    using damage_range_screen by blast
  have w: "soct_dp_fb_write False row ?c ?pos s = Some (Inr ?c, ?pos + ?c, s')"
    unfolding soct_dp_fb_write_def Let_def cnt using ok c0 row uc d(1) by simp
  have "fb_inv s' oj P" by (rule write_inv [OF inv w]) simp
  then show ?thesis using w d(2,3) by (auto simp: same_screen_def posn vis_len_def)
qed

lemma concat_rows_length: "\<forall>y<k. length (R y) = S \<Longrightarrow> length (concat (map R [0..<k])) = k * S"
  by (induction k) simp_all

lemma draw_rows_result:
  assumes rows: "\<forall>y<H. fbimg_row img iw ih p line (of_nat y) = Some (R y) \<and> length (R y) = unat line"
    and s: "fb_inv s oj P" "line = fbs_stride s" "H * unat line \<le> vis_len s" "k \<le> H"
    and cpu: "fbs_cpu s = store_bytes (fbs_phys s) (concat (map R [0..<k])) m"
  shows "\<exists>s'. draw_rows img iw ih p line (map of_nat [k..<H]) s = Some (True, s') \<and> fb_inv s' oj P \<and> same_screen s s' \<and>
    fbs_cpu s' = store_bytes (fbs_phys s) (concat (map R [0..<H])) m"
  using s cpu
proof (induction "H - k" arbitrary: k s)
  case 0
  then show ?case by (auto simp: same_screen_def)
next
  case (Suc n)
  then have k: "k < H" by simp
  let ?S = "unat line"
  have R: "fbimg_row img iw ih p line (of_nat k) = Some (R k)" "length (R k) = ?S" using rows k by auto
  have "(k + 1) * ?S \<le> H * ?S" using k by (intro mult_le_mono1) simp
  then have fit: "(k + 1) * unat (fbs_stride s) \<le> vis_len s" using Suc.prems by simp
  obtain pos s1 where w: "soct_dp_fb_write False (R k) (ucast line) (ucast (of_nat k :: u32) * ucast line) s = Some (Inr (ucast line), pos, s1)"
    and s1: "fb_inv s1 oj P" "same_screen s s1" and c1: "fbs_cpu s1 = store_bytes (fbs_phys s + of_nat (k * ?S)) (R k) (fbs_cpu s)"
    using write_row [OF Suc.prems(1) _ fit, of "R k"] R(2) Suc.prems(2) by auto
  have len: "length (concat (map R [0..<k])) = k * ?S" using rows k by (intro concat_rows_length) auto
  have g: "geometry_ok s" using Suc.prems(1) by (simp add: fb_inv_def)
  have "unat (fbs_phys s) + vis_len s < 2 ^ 64" using geometry_facts(1) [OF g] g by (simp add: geometry_ok_def)
  then have small: "unat (fbs_phys s) + length (concat (map R [0..<k])) + length (R k) < 2 ^ 64"
    unfolding len R(2) using fit Suc.prems(2) by simp
  have "fbs_cpu s1 = store_bytes (fbs_phys s) (concat (map R [0..<Suc k])) m"
    unfolding c1 Suc.prems(5) len [symmetric] using store_bytes_append [OF small, of m] by simp
  then have c: "fbs_cpu s1 = store_bytes (fbs_phys s1) (concat (map R [0..<Suc k])) m" using s1(2) by (simp add: same_screen_def)
  obtain s' where "draw_rows img iw ih p line (map of_nat [Suc k..<H]) s1 = Some (True, s')" "fb_inv s' oj P" "same_screen s1 s'"
    "fbs_cpu s' = store_bytes (fbs_phys s1) (concat (map R [0..<H])) m"
  proof -
    have "n = H - Suc k" "Suc k \<le> H" using Suc.hyps(2) by simp_all
    then show thesis
      using that Suc.hyps(1) [of "Suc k" s1] Suc.prems s1 c unfolding same_screen_def by metis
  qed
  then show ?case using w R(1) s1(2) k by (auto simp: upt_conv_Cons same_screen_def)
qed

lemma concat_rows_nth:
  "\<forall>y<k. length (R y) = S \<Longrightarrow> y < k \<Longrightarrow> j < S \<Longrightarrow> concat (map R [0..<k]) ! (y * S + j) = R y ! j"
proof (induction k)
  case (Suc k)
  have len: "length (concat (map R [0..<k])) = k * S" using Suc.prems by (intro concat_rows_length) simp
  show ?case
  proof (cases "y = k")
    case False
    then have "y < k" using Suc.prems by simp
    then have "(y + 1) * S \<le> k * S" by (intro mult_le_mono1) simp
    then have "y * S + j < length (concat (map R [0..<k]))" using Suc.prems(3) by (simp add: len)
    then show ?thesis using Suc \<open>y < k\<close> by (simp add: nth_append)
  qed (simp add: nth_append len)
qed simp

text \<open>The progress line fits in its buffer, and the percentage stays in range.\<close>

lemma on_tick_fits: "length (on_tick pct frame) \<le> 40"
  by (simp add: on_tick_def bar_def)

lemma src_read_pct: "0 \<le> n \<Longrightarrow> 0 \<le> ps_consumed s \<Longrightarrow> 0 \<le> ps_pct s \<and> ps_pct s \<le> 100 \<Longrightarrow>
    0 \<le> ps_pct (src_read n s) \<and> ps_pct (src_read n s) \<le> 100"
  by (simp add: src_read_def Let_def pos_imp_zdiv_nonneg_iff)

text \<open>A viewer that took the screen gives it back, whatever happened to the drawing.\<close>

lemma fbimg_gives_back:
  "fbimg_show malloc vt kd quit es img iw ih s = Some (r, modes, s') \<Longrightarrow> KD_GRAPHICS \<in> set modes \<Longrightarrow> last modes = KD_TEXT"
  by (auto simp: fbimg_show_def Let_def split: if_splits Option.bind_splits)

text \<open>The device describes itself as the driver sets it up.\<close>

definition described :: "fb_state \<Rightarrow> bool" where
  "described s \<longleftrightarrow> xres (fbs_var s) = fbs_width s \<and> yres (fbs_var s) = fbs_height s \<and> bits_per_pixel (fbs_var s) = 24 \<and>
     fbs_line_length s = fbs_stride s"

text \<open>
  C40. The viewer shows the image. On a device in its invariant, with a decoded image and a wait
  that ends, \<open>fbimg\<close> exits with status 0 and leaves every byte of the screen as it is meant to be: inside a box
  that lies on the screen and touches both of its sides in one direction, the nearest pixel of the
  image in the order of the device, and black around it. No access leaves the image or the row buffer, the
  device keeps its invariant, and the console mode is set back.
\<close>

theorem fbimg_shows:
  assumes inv: "fb_inv s oj P" and D: "described s" and i: "0 < unat iw" "unat iw < 2 ^ 31" "0 < unat ih" "unat ih < 2 ^ 31"
    and img: "unat iw * unat ih * 3 \<le> length img" and es: "wait_dismiss quit es \<noteq> None"
  defines "p \<equiv> fit iw ih (fbs_width s) (fbs_height s)"
  shows "(\<exists>s'. fbimg_show True vt kd quit es img iw ih s =
        Some (0, (if vt \<and> kd then [KD_GRAPHICS] else []) @ (if vt then [KD_TEXT] else []), s') \<and> fb_inv s' oj P \<and>
        (\<forall>y<unat (fbs_height s). \<forall>j<unat (fbs_stride s).
           fbs_cpu s' (fbs_phys s + of_nat (y * unat (fbs_stride s) + j)) = screen_byte img (unat iw) (unat ih) p y j)) \<and>
     unat (pl_x0 p) + unat (pl_dw p) \<le> unat (fbs_width s) \<and> unat (pl_y0 p) + unat (pl_dh p) \<le> unat (fbs_height s) \<and>
     (pl_dw p = fbs_width s \<or> pl_dh p = fbs_height s)"
proof -
  let ?S = "unat (fbs_stride s)" and ?H = "unat (fbs_height s)" and ?R = "\<lambda>y. map (screen_byte img (unat iw) (unat ih) p y) [0..<unat (fbs_stride s)]"
  have g: "geometry_ok s" using inv by (simp add: fb_inv_def)
  have wh: "0 < unat (fbs_width s)" "0 < ?H" "?S = 3 * unat (fbs_width s)" using g by (simp_all add: geometry_ok_def)
  have dr: "drawable img iw ih (fbs_width s) (fbs_height s) (fbs_stride s)" using i img wh by (simp add: drawable_def)
  note box = fit_box [OF dr, folded p_def]
  have side: "pl_dw p = fbs_width s \<or> pl_dh p = fbs_height s"
    using fit_unat(1,2) [OF i wh(1,2), folded p_def] by (auto simp: fit_nat_def word_unat_eq_iff split: if_splits)
  have rows: "\<forall>y<?H. fbimg_row img iw ih p (fbs_stride s) (of_nat y) = Some (?R y) \<and> length (?R y) = ?S"
    using fbimg_row_result [OF dr] by (simp add: p_def)
  have "1 \<le> unat (fbs_frames s)" using geometry_facts(4) [OF g] by auto
  then have v: "?H * ?S \<le> vis_len s" unfolding vis_len_def by (simp add: mult.commute)
  obtain s' where d: "draw_rows img iw ih p (fbs_stride s) (map of_nat [0..<?H]) s = Some (True, s')" "fb_inv s' oj P"
    "fbs_cpu s' = store_bytes (fbs_phys s) (concat (map ?R [0..<?H])) (fbs_cpu s)"
    using draw_rows_result [OF rows inv refl v, of 0 "fbs_cpu s"] by auto
  obtain es' where "wait_dismiss quit es = Some es'" using es by blast
  then have run: "fbimg_show True vt kd quit es img iw ih s =
      Some (0, (if vt \<and> kd then [KD_GRAPHICS] else []) @ (if vt then [KD_TEXT] else []), s')"
    using D d(1) by (simp add: fbimg_show_def Let_def described_def p_def)
  have len: "length (concat (map ?R [0..<?H])) = ?H * ?S" by (intro concat_rows_length) simp
  have "fbs_cpu s' (fbs_phys s + of_nat (y * ?S + j)) = screen_byte img (unat iw) (unat ih) p y j" if "y < ?H" "j < ?S" for y j
  proof -
    have "(y + 1) * ?S \<le> ?H * ?S" using that by (intro mult_le_mono1) simp
    then have lt: "y * ?S + j < ?H * ?S" using that by simp
    then have "y * ?S + j < 2 ^ LENGTH(64)" using v geometry_facts(1) [OF g] g by (simp add: geometry_ok_def)
    then have "unat (of_nat (y * ?S + j) :: u64) = y * ?S + j" by (rule unat_of_nat_small)
    then have "unat (fbs_phys s + of_nat (y * ?S + j) - fbs_phys s) = y * ?S + j" unfolding add_diff_cancel_left' .
    then show ?thesis
      unfolding d(3) store_bytes_def using lt len concat_rows_nth [of ?H ?R ?S y j] that by simp
  qed
  then show ?thesis using run d(2) box side by blast
qed

definition demo_screen :: fb_state where
  "demo_screen = demo_fbdev\<lparr>fbs_phys := 0x80000000, fbs_carveout := 6, fbs_mode := mode_1080p, fbs_width := 2, fbs_height := 1,
     fbs_stride := 6, fbs_frames := 1, fbs_smem_len := 6, fbs_line_length := 6,
     fbs_var := demo_var\<lparr>xres := 2, yres := 1, bits_per_pixel := 24\<rparr>, fbs_dram := (\<lambda>_. 1)\<rparr>"

lemma demo_screen_inv: "fb_inv demo_screen None ([], {})"
  by (simp add: demo_screen_def demo_fbdev_def fb_inv_def geometry_ok_def rect_ok_def glyph_ok_def vis_len_def nframes_def
      budget_ok_def demo_dp_def pixel_lim_def all_covered_def stale_def)

theorem fbimg_shows_witness:
  "\<exists>s'. fbimg_show True True True False [Key] [10, 20, 30] 1 1 demo_screen = Some (0, [KD_GRAPHICS, KD_TEXT], s') \<and>
     fbs_cpu s' 0x80000000 = 30 \<and> fbs_cpu s' 0x80000002 = 10 \<and> fbs_cpu s' 0x80000003 = 0"
proof -
  let ?p = "fit 1 1 (fbs_width demo_screen) (fbs_height demo_screen)"
  have p: "?p = \<lparr>pl_dw = 1, pl_dh = 1, pl_x0 = 0, pl_y0 = 0\<rparr>" by (simp add: fit_def demo_screen_def)
  have D: "described demo_screen" by (simp add: described_def demo_screen_def)
  have s: "unat (fbs_height demo_screen) = 1" "unat (fbs_stride demo_screen) = 6" "fbs_phys demo_screen = 0x80000000"
    by (simp_all add: demo_screen_def)
  obtain s' where r: "fbimg_show True True True False [Key] [10, 20, 30] 1 1 demo_screen = Some (0, [KD_GRAPHICS, KD_TEXT], s')"
    and b: "\<forall>j<6. fbs_cpu s' (0x80000000 + of_nat (0 * 6 + j)) = screen_byte [10, 20, 30] 1 1 ?p 0 j"
    using fbimg_shows [OF demo_screen_inv D, of 1 1 "[10, 20, 30]" False "[Key]" True True] unfolding s by auto
  have "fbs_cpu s' (0x80000000 + of_nat (0 * 6 + 0)) = 30" "fbs_cpu s' (0x80000000 + of_nat (0 * 6 + 2)) = 10"
    "fbs_cpu s' (0x80000000 + of_nat (0 * 6 + 3)) = 0"
    using b [rule_format, of 0] b [rule_format, of 2] b [rule_format, of 3] unfolding p by (simp_all add: screen_byte_def)
  then show ?thesis using r by auto
qed

end
