(* ===== verification/Xhci.thy ===== *)
theory Xhci
  imports Soct_Prelude
begin

text \<open>
  The USB host controller driver of the bare-metal USB test (\<open>baremetal/usb-test/xhci.c\<close>), with the
  allocator and the delay of its \<open>main.c\<close>: bringing the controller up, the event ring, the No-Op round
  trip, and the port watch. A register read is a function of the address and of the number of
  reads before it, register writes are a trace (latest first), and the memory the controller
  shares is a store of 32-bit words. The controller posts events the way the xHCI specification
  has it: into the slot at its enqueue position, stamped with its cycle state, and never when the ring
  is full by the dequeue pointer it was last given.
\<close>

section \<open>The machine\<close>

record usb_io =
  um_mem :: "u64 \<Rightarrow> u32"
  um_reg :: "u64 \<Rightarrow> nat \<Rightarrow> u32"
  um_time :: nat
  um_writes :: "(u64 \<times> u32) list"
  um_malloc :: "nat \<Rightarrow> u64 \<Rightarrow> u64"
  um_allocs :: nat
  s_dma_base :: u64
  s_dma_limit :: u64

definition usb_rd32 :: "u64 \<Rightarrow> usb_io \<Rightarrow> u32 \<times> usb_io" where
  "usb_rd32 p s = (um_reg s p (um_time s), s\<lparr>um_time := Suc (um_time s)\<rparr>)"

definition usb_wr32 :: "u64 \<Rightarrow> u32 \<Rightarrow> usb_io \<Rightarrow> usb_io" where
  "usb_wr32 p v s = s\<lparr>um_writes := (p, v) # um_writes s\<rparr>"

definition usb_wr64 :: "u64 \<Rightarrow> u64 \<Rightarrow> usb_io \<Rightarrow> usb_io" where
  "usb_wr64 p v s = usb_wr32 (p + 4) (ucast (drop_bit 32 v)) (usb_wr32 p (ucast v) s)"

text \<open>The value a register was last written.\<close>

definition written :: "usb_io \<Rightarrow> u64 \<Rightarrow> u32" where
  "written s p = (case map_of (um_writes s) p of None \<Rightarrow> 0 | Some v \<Rightarrow> v)"

definition usb_store :: "u64 \<Rightarrow> u32 \<Rightarrow> usb_io \<Rightarrow> usb_io" where
  "usb_store a v s = s\<lparr>um_mem := (um_mem s)(a := v)\<rparr>"

definition mem_zero :: "u64 \<Rightarrow> u64 \<Rightarrow> usb_io \<Rightarrow> usb_io" where
  "mem_zero a n s = s\<lparr>um_mem := (\<lambda>b. if b - a < n then 0 else um_mem s b)\<rparr>"

text \<open>The delay: \<open>t0\<close> is the first reading of the cycle counter, the list its further ones.\<close>

definition delay_us :: "u64 \<Rightarrow> u64 \<Rightarrow> u64 \<Rightarrow> u64 list \<Rightarrow> (u64 \<times> u64 list) option" where
  "delay_us s_cycles_per_us us t0 counts = poll (\<lambda>t1. \<not> t1 - t0 < us * s_cycles_per_us) counts"

text \<open>An allocation for the controller; \<open>None\<close> is \<open>abort\<close>.\<close>

definition dma_alloc :: "u64 \<Rightarrow> u64 \<Rightarrow> usb_io \<Rightarrow> (u64 \<times> usb_io) option" where
  "dma_alloc sz align s =
     (let raw = um_malloc s (um_allocs s) (sz + align); s = s\<lparr>um_allocs := Suc (um_allocs s)\<rparr>
      in if raw = 0 then None
         else let addr = (raw + (align - 1)) AND NOT (align - 1)
              in if addr < s_dma_base s \<or> s_dma_limit s < addr + sz then None else Some (addr, s))"

lemma delay_elapsed: "delay_us c us t0 counts = Some (t1, rest) \<Longrightarrow> us * c \<le> t1 - t0"
  unfolding delay_us_def using poll_exit by fastforce

section \<open>The controller's registers\<close>

definition CAP_CAPLENGTH :: u64 where "CAP_CAPLENGTH = 0x00"
definition CAP_HCSPARAMS1 :: u64 where "CAP_HCSPARAMS1 = 0x04"
definition CAP_HCCPARAMS1 :: u64 where "CAP_HCCPARAMS1 = 0x10"
definition CAP_DBOFF :: u64 where "CAP_DBOFF = 0x14"
definition CAP_RTSOFF :: u64 where "CAP_RTSOFF = 0x18"
definition OP_USBCMD :: u64 where "OP_USBCMD = 0x00"
definition OP_USBSTS :: u64 where "OP_USBSTS = 0x04"
definition OP_CRCR :: u64 where "OP_CRCR = 0x18"
definition OP_DCBAAP :: u64 where "OP_DCBAAP = 0x30"
definition OP_CONFIG :: u64 where "OP_CONFIG = 0x38"
definition USBCMD_RS :: u32 where "USBCMD_RS = 1"
definition USBCMD_HCRST :: u32 where "USBCMD_HCRST = 2"
definition USBSTS_HCH :: u32 where "USBSTS_HCH = 1"
definition USBSTS_HSE :: u32 where "USBSTS_HSE = 4"
definition USBSTS_CNR :: u32 where "USBSTS_CNR = 0x800"
definition CRCR_RCS :: u64 where "CRCR_RCS = 1"
definition IR0_ERSTSZ :: u64 where "IR0_ERSTSZ = 0x28"
definition IR0_ERSTBA :: u64 where "IR0_ERSTBA = 0x30"
definition IR0_ERDP :: u64 where "IR0_ERDP = 0x38"
definition TRB_BYTES :: u64 where "TRB_BYTES = 16"
definition TRB_TYPE_NOOP_CMD :: u32 where "TRB_TYPE_NOOP_CMD = 23"
definition TRB_TYPE_CMD_COMPL :: u32 where "TRB_TYPE_CMD_COMPL = 33"
definition TRB_TYPE_PORT_STATUS :: u32 where "TRB_TYPE_PORT_STATUS = 34"
definition TRB_CYCLE :: u32 where "TRB_CYCLE = 1"
definition COMPL_SUCCESS :: u32 where "COMPL_SUCCESS = 1"
definition XHCI_RING_TRBS :: nat where "XHCI_RING_TRBS = 64"

definition TRB_TYPE :: "u32 \<Rightarrow> u32" where
  "TRB_TYPE ctrl = drop_bit 10 ctrl AND 0x3F"

definition TRB_MAKE_TYPE :: "u32 \<Rightarrow> u32" where
  "TRB_MAKE_TYPE t = push_bit 10 t"

definition TRB_COMPL_CODE :: "u32 \<Rightarrow> u32" where
  "TRB_COMPL_CODE st = drop_bit 24 st AND 0xFF"

lemmas xhci_offsets = CAP_CAPLENGTH_def CAP_HCSPARAMS1_def CAP_HCCPARAMS1_def CAP_DBOFF_def CAP_RTSOFF_def
  OP_USBCMD_def OP_USBSTS_def OP_CRCR_def OP_DCBAAP_def OP_CONFIG_def IR0_ERSTSZ_def IR0_ERSTBA_def IR0_ERDP_def

record xhci =
  xh_cap :: u64
  xh_op :: u64
  xh_rt :: u64
  xh_db :: u64
  dcbaa :: u64
  cmd_ring :: u64
  evt_ring :: u64
  erst :: u64
  evt_index :: u32
  evt_cycle :: u32
  max_ports :: u32

definition xhci_report :: "xhci \<Rightarrow> usb_io \<Rightarrow> (u32 \<times> u32) \<times> usb_io" where
  "xhci_report x s =
     (let (cmd, s) = usb_rd32 (xh_op x + OP_USBCMD) s; (sts, s) = usb_rd32 (xh_op x + OP_USBSTS) s in ((cmd, sts), s))"

fun wait_loop :: "nat \<Rightarrow> u64 \<Rightarrow> u32 \<Rightarrow> u32 \<Rightarrow> usb_io \<Rightarrow> bool \<times> usb_io" where
  "wait_loop 0 reg m want s = (False, snd (usb_rd32 reg s))"
| "wait_loop (Suc n) reg m want s =
     (let (v, s) = usb_rd32 reg s in if v AND m = want then (True, s) else wait_loop n reg m want s)"

definition wait_for :: "u64 \<Rightarrow> u32 \<Rightarrow> u32 \<Rightarrow> u32 \<Rightarrow> usb_io \<Rightarrow> bool \<times> usb_io" where
  "wait_for reg m want ms s = wait_loop (unat (ms * 10)) reg m want s"

section \<open>Bringing the controller up\<close>

datatype init_result = Init_OK | Init_caplength | Init_halt | Init_reset | Init_ready | Init_start

text \<open>The capability registers: the windows, the number of slots, and the number of ports.\<close>

definition read_caps :: "xhci \<Rightarrow> u64 \<Rightarrow> u32 \<Rightarrow> usb_io \<Rightarrow> u32 \<times> xhci \<times> usb_io" where
  "read_caps x base caplen s =
     (let (rts, s) = usb_rd32 (base + CAP_RTSOFF) s;
          (dbo, s) = usb_rd32 (base + CAP_DBOFF) s;
          (hcs1, s) = usb_rd32 (base + CAP_HCSPARAMS1) s;
          (hcc1, s) = usb_rd32 (base + CAP_HCCPARAMS1) s
      in (hcs1 AND 0xFF,
          x\<lparr>xh_op := base + ucast caplen, xh_rt := base + ucast (rts AND NOT 0x1F), xh_db := base + ucast (dbo AND NOT 3),
            max_ports := drop_bit 24 hcs1 AND 0xFF\<rparr>, s))"

definition halt_reset :: "xhci \<Rightarrow> usb_io \<Rightarrow> init_result \<times> usb_io" where
  "halt_reset x s =
     (let (cmd, s) = usb_rd32 (xh_op x + OP_USBCMD) s;
          s = usb_wr32 (xh_op x + OP_USBCMD) (cmd AND NOT USBCMD_RS) s;
          (ok, s) = wait_for (xh_op x + OP_USBSTS) USBSTS_HCH USBSTS_HCH 100 s
      in if \<not> ok then (Init_halt, s)
         else let s = usb_wr32 (xh_op x + OP_USBCMD) USBCMD_HCRST s;
                  (ok, s) = wait_for (xh_op x + OP_USBCMD) USBCMD_HCRST 0 1000 s
              in if \<not> ok then (Init_reset, s)
                 else let (ok, s) = wait_for (xh_op x + OP_USBSTS) USBSTS_CNR 0 1000 s
                      in (if ok then Init_OK else Init_ready, s))"

definition alloc_rings :: "u32 \<Rightarrow> xhci \<Rightarrow> usb_io \<Rightarrow> (xhci \<times> usb_io) option" where
  "alloc_rings max_slots x s =
     (let n = ucast (max_slots + 1) * 8; ring = of_nat XHCI_RING_TRBS * TRB_BYTES
      in do {
        (d, s) \<leftarrow> dma_alloc n 64 s;
        (c, s) \<leftarrow> dma_alloc ring 64 s;
        (e, s) \<leftarrow> dma_alloc ring 64 s;
        (t, s) \<leftarrow> dma_alloc TRB_BYTES 64 s;
        Some (x\<lparr>dcbaa := d, cmd_ring := c, evt_ring := e, erst := t, evt_index := 0, evt_cycle := 1\<rparr>,
              mem_zero t TRB_BYTES (mem_zero e ring (mem_zero c ring (mem_zero d n s)))) })"

text \<open>The registers that name the rings, and the segment table.\<close>

definition program_rings :: "u32 \<Rightarrow> xhci \<Rightarrow> usb_io \<Rightarrow> usb_io" where
  "program_rings max_slots x s =
     (let s = usb_wr32 (xh_op x + OP_CONFIG) max_slots s;
          s = usb_wr64 (xh_op x + OP_DCBAAP) (dcbaa x) s;
          s = usb_wr64 (xh_op x + OP_CRCR) (cmd_ring x OR CRCR_RCS) s;
          s = usb_store (erst x) (ucast (evt_ring x)) s;
          s = usb_store (erst x + 4) 0 s;
          s = usb_store (erst x + 8) (of_nat XHCI_RING_TRBS) s;
          s = usb_store (erst x + 12) 0 s;
          s = usb_wr32 (xh_rt x + IR0_ERSTSZ) 1 s;
          s = usb_wr64 (xh_rt x + IR0_ERDP) (evt_ring x) s
      in usb_wr64 (xh_rt x + IR0_ERSTBA) (erst x) s)"

definition xhci_init :: "xhci \<Rightarrow> u64 \<Rightarrow> usb_io \<Rightarrow> (init_result \<times> xhci \<times> usb_io) option" where
  "xhci_init x base s =
     (let x = x\<lparr>xh_cap := base\<rparr>;
          (v, s) = usb_rd32 (base + CAP_CAPLENGTH) s;
          caplen = v AND 0xFF
      in if caplen < 0x20 \<or> 0xFF < caplen then Some (Init_caplength, x, s)
         else let (slots, x, s) = read_caps x base caplen s;
                  (r, s) = halt_reset x s
              in if r \<noteq> Init_OK then Some (r, x, s)
                 else do {
                   (x, s) \<leftarrow> alloc_rings slots x s;
                   let s = program_rings slots x s;
                   let (cmd, s) = usb_rd32 (xh_op x + OP_USBCMD) s;
                   let s = usb_wr32 (xh_op x + OP_USBCMD) (cmd OR USBCMD_RS) s;
                   let (ok, s) = wait_for (xh_op x + OP_USBSTS) USBSTS_HCH 0 100 s;
                   if \<not> ok then Some (Init_start, x, s) else Some (Init_OK, x, snd (xhci_report x s)) })"

section \<open>The event ring\<close>

record trb =
  t0 :: u32
  t1 :: u32
  t2 :: u32
  t3 :: u32

definition trb_at :: "usb_io \<Rightarrow> u64 \<Rightarrow> trb" where
  "trb_at s a = \<lparr>t0 = um_mem s a, t1 = um_mem s (a + 4), t2 = um_mem s (a + 8), t3 = um_mem s (a + 12)\<rparr>"

definition trb_put :: "u64 \<Rightarrow> trb \<Rightarrow> usb_io \<Rightarrow> usb_io" where
  "trb_put a e s = usb_store (a + 12) (t3 e) (usb_store (a + 8) (t2 e) (usb_store (a + 4) (t1 e) (usb_store a (t0 e) s)))"

text \<open>The address of the slot \<open>x->evt_index\<close>.\<close>

definition evt_slot :: "xhci \<Rightarrow> u64" where
  "evt_slot x = evt_ring x + ucast (evt_index x * 4) * 4"

definition event_pop :: "xhci \<Rightarrow> usb_io \<Rightarrow> u64 option \<times> xhci \<times> usb_io" where
  "event_pop x s =
     (let e = evt_slot x
      in if um_mem s (e + 12) AND TRB_CYCLE \<noteq> evt_cycle x then (None, x, s)
         else let x = x\<lparr>evt_index := evt_index x + 1\<rparr>;
                  x = (if evt_index x = of_nat XHCI_RING_TRBS
                       then x\<lparr>evt_index := 0, evt_cycle := evt_cycle x XOR 1\<rparr> else x)
              in (Some e, x, usb_wr64 (xh_rt x + IR0_ERDP) (evt_slot x OR 8) s))"

text \<open>
  The controller's side: the segment of the event ring it uses and its length, its enqueue position and
  cycle state, and the dequeue position it was given. It takes the segment from the table in memory
  that the register \<open>ERSTBA\<close> names: the address in the first two words, the number of entries in the
  third.
\<close>

record ctl =
  ct_ring :: u64
  ct_size :: nat
  ct_enq :: nat
  ct_pcs :: u32

definition ctl_on :: "u64 \<Rightarrow> nat \<Rightarrow> ctl" where
  "ctl_on a n = \<lparr>ct_ring = a, ct_size = n, ct_enq = 0, ct_pcs = 1\<rparr>"

definition reg64 :: "u64 \<Rightarrow> usb_io \<Rightarrow> u64" where
  "reg64 p s = ucast (written s p) OR push_bit 32 (ucast (written s (p + 4)))"

definition ctl_start :: "xhci \<Rightarrow> usb_io \<Rightarrow> ctl" where
  "ctl_start x s =
     (let table = reg64 (xh_rt x + 0x30) s
      in ctl_on (ucast (um_mem s table) OR push_bit 32 (ucast (um_mem s (table + 4)))) (unat (um_mem s (table + 8) AND 0xFFFF)))"

definition erdp :: "xhci \<Rightarrow> usb_io \<Rightarrow> u64" where
  "erdp x s = ucast (written s (xh_rt x + 0x38)) OR push_bit 32 (ucast (written s (xh_rt x + 0x3C)))"

definition ctl_deq :: "xhci \<Rightarrow> ctl \<Rightarrow> usb_io \<Rightarrow> nat" where
  "ctl_deq x c s = unat ((erdp x s AND NOT 0xF) - ct_ring c) div 16"

definition stamp :: "u32 \<Rightarrow> trb \<Rightarrow> trb" where
  "stamp p e = e\<lparr>t3 := (t3 e AND NOT 1) OR p\<rparr>"

definition slot_addr :: "xhci \<Rightarrow> nat \<Rightarrow> u64" where
  "slot_addr x i = evt_ring x + of_nat (16 * i)"

definition ctl_post :: "xhci \<Rightarrow> trb \<Rightarrow> usb_io \<times> ctl \<Rightarrow> usb_io \<times> ctl" where
  "ctl_post x e sc =
     (case sc of (s, c) \<Rightarrow>
        if (ct_enq c + 1) mod ct_size c = ctl_deq x c s then (s, c)
        else (trb_put (ct_ring c + of_nat (16 * ct_enq c)) (stamp (ct_pcs c) e) s,
              if ct_enq c + 1 = ct_size c then c\<lparr>ct_enq := 0, ct_pcs := ct_pcs c XOR 1\<rparr> else c\<lparr>ct_enq := ct_enq c + 1\<rparr>))"

section \<open>The No-Op round trip\<close>

datatype noop_result = Noop_OK | Noop_hse | Noop_type | Noop_code | Noop_pointer | Noop_timeout

text \<open>The judgement of one event; \<open>None\<close> goes on to the next.\<close>

definition judge :: "u64 \<Rightarrow> trb \<Rightarrow> noop_result option" where
  "judge cmd_addr evt =
     (if TRB_TYPE (t3 evt) = TRB_TYPE_PORT_STATUS then None
      else if TRB_TYPE (t3 evt) \<noteq> TRB_TYPE_CMD_COMPL then Some Noop_type
      else if TRB_COMPL_CODE (t2 evt) \<noteq> COMPL_SUCCESS then Some Noop_code
      else if ucast (t0 evt) OR push_bit 32 (ucast (t1 evt)) \<noteq> cmd_addr then Some Noop_pointer
      else Some Noop_OK)"

text \<open>
  Before the look at the ring in round \<open>i\<close> the controller posts \<open>pre i\<close>, and between that look and the
  reading of the event \<open>dur i\<close>.
\<close>

fun noop_loop :: "(nat \<Rightarrow> trb list) \<Rightarrow> (nat \<Rightarrow> trb list) \<Rightarrow> u64 \<Rightarrow> nat list \<Rightarrow> xhci \<Rightarrow> usb_io \<times> ctl \<Rightarrow>
    noop_result \<times> xhci \<times> usb_io \<times> ctl" where
  "noop_loop pre dur cmd_addr [] x (s, c) = (Noop_timeout, x, snd (xhci_report x s), c)"
| "noop_loop pre dur cmd_addr (i # is) x (s, c) =
     (let (s, c) = fold (ctl_post x) (pre i) (s, c);
          (evt, x, s) = event_pop x s;
          (s, c) = fold (ctl_post x) (dur i) (s, c)
      in case evt of
           None \<Rightarrow>
             (let (sts, s) = usb_rd32 (xh_op x + OP_USBSTS) s
              in if sts AND USBSTS_HSE \<noteq> 0 then (Noop_hse, x, snd (xhci_report x s), c)
                 else noop_loop pre dur cmd_addr is x (s, c))
         | Some a \<Rightarrow>
             (case judge cmd_addr (trb_at s a) of
                Some r \<Rightarrow> (r, x, s, c)
              | None \<Rightarrow> noop_loop pre dur cmd_addr is x (s, c)))"

definition xhci_noop_roundtrip :: "(nat \<Rightarrow> trb list) \<Rightarrow> (nat \<Rightarrow> trb list) \<Rightarrow> xhci \<Rightarrow> usb_io \<times> ctl \<Rightarrow>
    noop_result \<times> xhci \<times> usb_io \<times> ctl" where
  "xhci_noop_roundtrip pre dur x sc =
     (case sc of (s, c) \<Rightarrow>
        let s = trb_put (cmd_ring x) \<lparr>t0 = 0, t1 = 0, t2 = 0, t3 = TRB_MAKE_TYPE TRB_TYPE_NOOP_CMD OR TRB_CYCLE\<rparr> s;
            s = usb_wr32 (xh_db x) 0 s
        in noop_loop pre dur (cmd_ring x) [0..<10000] x (s, c))"

section \<open>Slots and registers\<close>

lemma trb_eqI: "t0 a = t0 b \<Longrightarrow> t1 a = t1 b \<Longrightarrow> t2 a = t2 b \<Longrightarrow> t3 a = t3 b \<Longrightarrow> a = (b :: trb)"
  by simp

lemma slot_word: "slot_addr x i + of_nat k = evt_ring x + of_nat (16 * i + k)"
  by (simp add: slot_addr_def)

lemma slot_word_eq:
  assumes "i < 64" "j < 64" "k < 16" "l < 16"
  shows "slot_addr x i + of_nat k = slot_addr x j + of_nat l \<longleftrightarrow> 16 * i + k = 16 * j + l"
proof -
  have "16 * i + k < 2 ^ LENGTH(64)" "16 * j + l < 2 ^ LENGTH(64)" using assms by simp_all
  then have "unat (of_nat (16 * i + k) :: u64) = 16 * i + k" "unat (of_nat (16 * j + l) :: u64) = 16 * j + l"
    by (simp_all only: unat_of_nat_small)
  then have "(of_nat (16 * i + k) :: u64) = of_nat (16 * j + l) \<longleftrightarrow> 16 * i + k = 16 * j + l"
    unfolding word_unat_eq_iff by presburger
  then show ?thesis unfolding slot_word add_left_cancel .
qed

lemma slot_words:
  assumes "i < 64" "j < 64" "i \<noteq> j" "k \<in> {0, 4, 8, 12}" "l \<in> {0, 4, 8, 12}"
  shows "slot_addr x i + of_nat k \<noteq> slot_addr x j + of_nat l"
proof -
  have "k < 16" "l < 16" using assms(4,5) by auto
  moreover from this have "16 * i + k \<noteq> 16 * j + l" using assms(3) by presburger
  ultimately show ?thesis using slot_word_eq [OF assms(1,2), of k l x] by blast
qed

lemma trb_at_put: "trb_at (trb_put a e s) a = e"
  by (rule trb_eqI) (simp_all add: trb_at_def trb_put_def usb_store_def)

lemma trb_at_put_other:
  assumes "i < 64" "j < 64" "i \<noteq> j"
  shows "trb_at (trb_put (slot_addr x i) e s) (slot_addr x j) = trb_at s (slot_addr x j)"
  using slot_words [OF assms, of 0 0 x] slot_words [OF assms, of 0 4 x] slot_words [OF assms, of 0 8 x] slot_words [OF assms, of 0 12 x]
    slot_words [OF assms, of 4 0 x] slot_words [OF assms, of 4 4 x] slot_words [OF assms, of 4 8 x] slot_words [OF assms, of 4 12 x]
    slot_words [OF assms, of 8 0 x] slot_words [OF assms, of 8 4 x] slot_words [OF assms, of 8 8 x] slot_words [OF assms, of 8 12 x]
    slot_words [OF assms, of 12 0 x] slot_words [OF assms, of 12 4 x] slot_words [OF assms, of 12 8 x] slot_words [OF assms, of 12 12 x]
  by (intro trb_eqI) (auto simp: trb_at_def trb_put_def usb_store_def)

lemma evt_slot_addr: "unat (evt_index x) < 64 \<Longrightarrow> evt_slot x = slot_addr x (unat (evt_index x))"
proof -
  assume lt: "unat (evt_index x) < 64"
  have "unat (evt_index x * 4) = 4 * unat (evt_index x)" using lt by (simp add: unat_word_ariths mult.commute)
  then have "(ucast (evt_index x * 4) :: u64) * 4 = of_nat (4 * unat (evt_index x)) * of_nat 4"
    unfolding ucast_up_of_nat by simp
  also have "\<dots> = of_nat (16 * unat (evt_index x))" unfolding of_nat_mult [symmetric] by simp
  finally show ?thesis unfolding evt_slot_def slot_addr_def by simp
qed

lemma halves_join: "(ucast (ucast (v :: u64) :: u32) :: u64) OR push_bit 32 (ucast (ucast (drop_bit 32 v) :: u32)) = v"
  by (rule bit_word_eqI) (auto simp: bit_simps)

lemma erdp_wr64: "erdp x (usb_wr64 (xh_rt x + IR0_ERDP) v s) = v"
  by (simp add: erdp_def written_def usb_wr64_def usb_wr32_def IR0_ERDP_def add.assoc halves_join)

lemma slot_aligned: "unat (evt_ring x) mod 16 = 0 \<Longrightarrow> unat (slot_addr x i) mod 16 = 0"
proof -
  assume a: "unat (evt_ring x) mod 16 = 0"
  have "(16 :: nat) dvd 2 ^ 64" by simp
  then have "unat (slot_addr x i) mod 16 = (unat (evt_ring x) + 16 * i mod 2 ^ 64) mod 16"
    unfolding slot_addr_def unat_word_ariths unat_of_nat by (simp add: mod_mod_cancel)
  also have "\<dots> = (unat (evt_ring x) mod 16 + 16 * i mod 2 ^ 64 mod 16) mod 16" by (rule mod_add_eq [symmetric])
  finally show ?thesis using a by (simp add: mod_mod_cancel)
qed

lemma erdp_plain: "unat (a :: u64) mod 16 = 0 \<Longrightarrow> a AND NOT 0xF = a"
proof -
  assume a: "unat a mod 16 = 0"
  have m: "(0xF :: u64) = mask 4" by (simp add: mask_eq_exp_minus_1)
  show ?thesis unfolding m word_unat_eq_iff unat_and_not_mask using a by (simp add: mult.commute [of _ 16] minus_mod_eq_mult_div [symmetric])
qed

lemma erdp_flag: "unat (a :: u64) mod 16 = 0 \<Longrightarrow> (a OR 8) AND NOT 0xF = a"
proof -
  assume "unat a mod 16 = 0"
  moreover have "(8 :: u64) AND NOT 0xF = 0" by simp
  ultimately show ?thesis by (simp only: bit.conj_disj_distrib2 erdp_plain bit.disj_zero_right)
qed

lemma slot_index: "i < 64 \<Longrightarrow> unat (slot_addr x i - evt_ring x) div 16 = i"
proof -
  assume "i < 64"
  then have "unat (of_nat (16 * i) :: u64) = 16 * i" by (intro unat_of_nat_small) simp
  then have "unat (slot_addr x i - evt_ring x) = 16 * i" unfolding slot_addr_def add_diff_cancel_left' .
  then show ?thesis by simp
qed

text \<open>Only the cycle bit of an event is the ring's own; what the driver reads of it is the event's.\<close>

lemma stamp_judge: "p = 0 \<or> p = 1 \<Longrightarrow> judge a (stamp p e) = judge a e"
proof -
  assume p: "p = 0 \<or> p = 1"
  have "drop_bit 10 ((t3 e AND NOT 1) OR p) = drop_bit 10 (t3 e)"
  proof (rule bit_word_eqI)
    fix n
    have "\<not> bit p (10 + n)" "\<not> bit (1 :: u32) (10 + n)" using p by (auto simp: bit_1_iff)
    then show "bit (drop_bit 10 ((t3 e AND NOT 1) OR p)) n \<longleftrightarrow> bit (drop_bit 10 (t3 e)) n"
      by (auto simp only: bit_drop_bit_eq o_apply bit_or_iff bit_and_iff bit_not_iff possible_bit_word dest: bit_imp_le_length)
  qed
  then show ?thesis by (simp add: judge_def stamp_def TRB_TYPE_def)
qed

lemma stamp_cycle: "p = 0 \<or> p = 1 \<Longrightarrow> t3 (stamp p e) AND 1 = p"
  by (elim disjE) (auto intro!: bit_word_eqI simp: bit_simps stamp_def)

section \<open>The ring as a queue\<close>

text \<open>
  The specification: a queue of at most 63 events, to which the controller adds and from which the
  driver takes. \<open>ring_rep\<close> relates it to the ring: from the driver's position on, the slots hold the
  waiting events with the expected cycle bit, which flips at the end of the ring; every other slot has the
  opposite one.
\<close>

definition q_post :: "trb \<Rightarrow> trb list \<Rightarrow> trb list" where
  "q_post e q = (if length q < 63 then q @ [e] else q)"

definition cyc :: "xhci \<Rightarrow> nat \<Rightarrow> u32" where
  "cyc x k = (if unat (evt_index x) + k < 64 then evt_cycle x else evt_cycle x XOR 1)"

definition nth_slot :: "xhci \<Rightarrow> nat \<Rightarrow> u64" where
  "nth_slot x k = slot_addr x ((unat (evt_index x) + k) mod 64)"

definition ring_rep :: "xhci \<Rightarrow> usb_io \<Rightarrow> ctl \<Rightarrow> trb list \<Rightarrow> bool" where
  "ring_rep x s c q \<longleftrightarrow> unat (evt_index x) < 64 \<and> (evt_cycle x = 0 \<or> evt_cycle x = 1) \<and> unat (evt_ring x) mod 16 = 0 \<and>
     ct_ring c = evt_ring x \<and> ct_size c = 64 \<and> length q \<le> 63 \<and> ct_enq c = (unat (evt_index x) + length q) mod 64 \<and> ct_pcs c = cyc x (length q) \<and>
     ctl_deq x c s = unat (evt_index x) \<and>
     (\<forall>k<length q. trb_at s (nth_slot x k) = stamp (cyc x k) (q ! k)) \<and>
     (\<forall>k<64. length q \<le> k \<longrightarrow> t3 (trb_at s (nth_slot x k)) AND 1 \<noteq> cyc x k)"

lemma mod_ring: "(n :: nat) < 128 \<Longrightarrow> n mod 64 = (if n < 64 then n else n - 64)"
  by (simp add: mod_if)

lemma cyc_bit: "ring_rep x s c q \<Longrightarrow> cyc x k = 0 \<or> cyc x k = 1"
  by (auto simp: ring_rep_def cyc_def)

lemma nth_slot_other:
  assumes "unat (evt_index x) < 64" "j < 64" "k < 64" "j \<noteq> k"
  shows "trb_at (trb_put (nth_slot x j) e s) (nth_slot x k) = trb_at s (nth_slot x k)"
proof -
  let ?i = "unat (evt_index x)"
  have "(?i + j) mod 64 \<noteq> (?i + k) mod 64" using assms by (auto simp: mod_ring)
  then show ?thesis unfolding nth_slot_def by (intro trb_at_put_other) simp_all
qed

lemma put_deq: "ctl_deq x c (trb_put a e s) = ctl_deq x c s"
  by (simp add: ctl_deq_def erdp_def written_def trb_put_def usb_store_def)

lemma ring_full_iff:
  assumes "i < 64" "n \<le> 63"
  shows "((i + n) mod 64 + 1) mod 64 = i \<longleftrightarrow> n = (63 :: nat)"
  using assms by (auto simp: mod_ring)

text \<open>A post adds to the queue, and leaves the slot before the driver's position as it is.\<close>

lemma post_refines:
  assumes R: "ring_rep x s c q" and P: "ctl_post x e (s, c) = (s', c')"
  shows "ring_rep x s' c' (q_post e q)" and "trb_at s' (nth_slot x 63) = trb_at s (nth_slot x 63)"
    and "um_reg s' = um_reg s" "um_time s' = um_time s"
proof -
  let ?i = "unat (evt_index x)" and ?n = "length q"
  have i: "?i < 64" and n: "?n \<le> 63" and enq: "ct_enq c = (?i + ?n) mod 64" and pcs: "ct_pcs c = cyc x ?n"
    and deq: "ctl_deq x c s = ?i" and seg: "ct_ring c = evt_ring x" "ct_size c = 64"
    using R by (simp_all add: ring_rep_def)
  have full: "(ct_enq c + 1) mod ct_size c = ctl_deq x c s \<longleftrightarrow> ?n = 63" unfolding enq deq seg by (rule ring_full_iff [OF i n])
  have "ring_rep x s' c' (q_post e q) \<and> trb_at s' (nth_slot x 63) = trb_at s (nth_slot x 63)
    \<and> um_reg s' = um_reg s \<and> um_time s' = um_time s"
  proof (cases "?n = 63")
    case True
    then have "s' = s" "c' = c" using P full by (simp_all add: ctl_post_def)
    then show ?thesis using R True by (simp add: q_post_def)
  next
    case False
    then have lt: "?n < 63" using n by simp
    have s': "s' = trb_put (nth_slot x ?n) (stamp (cyc x ?n) e) s"
      and c': "c' = (if ct_enq c + 1 = 64 then c\<lparr>ct_enq := 0, ct_pcs := ct_pcs c XOR 1\<rparr> else c\<lparr>ct_enq := ct_enq c + 1\<rparr>)"
      using P full False by (simp_all add: ctl_post_def nth_slot_def slot_addr_def seg enq pcs)
    have other: "k < 64 \<Longrightarrow> k \<noteq> ?n \<Longrightarrow> trb_at s' (nth_slot x k) = trb_at s (nth_slot x k)" for k
      unfolding s' using lt i by (intro nth_slot_other) simp_all
    have self: "trb_at s' (nth_slot x ?n) = stamp (cyc x ?n) e" unfolding s' by (rule trb_at_put)
    have e': "ct_enq c' = (?i + Suc ?n) mod 64"
      unfolding c' using i lt by (auto simp: enq mod_ring)
    have p': "ct_pcs c' = cyc x (Suc ?n)"
      using i lt cyc_bit [OF R, of ?n] unfolding c'
      by (auto simp: enq pcs cyc_def mod_ring split: if_splits)
    have seg': "ct_ring c' = evt_ring x" "ct_size c' = 64" unfolding c' using seg by simp_all
    have d': "ctl_deq x c' s' = ?i" unfolding s' put_deq using deq seg seg' by (simp add: ctl_deq_def)
    have q: "q_post e q = q @ [e]" using lt by (simp add: q_post_def)
    have "ring_rep x s' c' (q @ [e])"
      using R lt i e' p' d' seg' self other unfolding ring_rep_def
      by (auto simp: nth_append less_Suc_eq)
    moreover have "trb_at s' (nth_slot x 63) = trb_at s (nth_slot x 63)" using lt by (intro other) simp_all
    moreover have "um_reg s' = um_reg s" "um_time s' = um_time s" unfolding s' by (simp_all add: trb_put_def usb_store_def)
    ultimately show ?thesis unfolding q by blast
  qed
  then show "ring_rep x s' c' (q_post e q)" "trb_at s' (nth_slot x 63) = trb_at s (nth_slot x 63)"
    "um_reg s' = um_reg s" "um_time s' = um_time s" by blast+
qed

lemma posts_refine:
  assumes "ring_rep x s c q" and "fold (ctl_post x) es (s, c) = (s', c')"
  shows "ring_rep x s' c' (fold q_post es q) \<and> trb_at s' (nth_slot x 63) = trb_at s (nth_slot x 63) \<and>
    um_reg s' = um_reg s \<and> um_time s' = um_time s"
  using assms
proof (induction es arbitrary: s c q)
  case (Cons e es)
  obtain s1 c1 where 1: "ctl_post x e (s, c) = (s1, c1)" by (cases "ctl_post x e (s, c)")
  show ?case
    using Cons.IH [OF post_refines(1) [OF Cons.prems(1) 1]] Cons.prems(2) 1 post_refines(2-4) [OF Cons.prems(1) 1] by simp
qed simp

text \<open>The driver's position after one event.\<close>

definition advance :: "xhci \<Rightarrow> xhci" where
  "advance x = (if unat (evt_index x) = 63 then x\<lparr>evt_index := 0, evt_cycle := evt_cycle x XOR 1\<rparr>
     else x\<lparr>evt_index := evt_index x + 1\<rparr>)"

lemma advance_index: "unat (evt_index x) < 64 \<Longrightarrow> unat (evt_index (advance x)) = (unat (evt_index x) + 1) mod 64"
  by (simp add: advance_def unat_word_ariths mod_ring)

lemma advance_simps [simp]: "xh_op (advance x) = xh_op x" "xh_rt (advance x) = xh_rt x" "xh_db (advance x) = xh_db x"
  "cmd_ring (advance x) = cmd_ring x" "evt_ring (advance x) = evt_ring x" "slot_addr (advance x) i = slot_addr x i"
  by (simp_all add: advance_def slot_addr_def)

lemma advance_slot:
  assumes "unat (evt_index x) < 64"
  shows "nth_slot (advance x) k = nth_slot x (Suc k)"
  unfolding nth_slot_def by (simp add: advance_index [OF assms] mod_simps)

lemma advance_cyc:
  assumes "unat (evt_index x) < 64" "k < 64" "evt_cycle x = 0 \<or> evt_cycle x = 1"
  shows "cyc (advance x) k = (if k = 63 then evt_cycle x XOR 1 else cyc x (Suc k))"
proof (cases "unat (evt_index x) = 63")
  case True
  then show ?thesis using assms by (auto simp: cyc_def advance_def)
next
  case False
  then have "unat (evt_index x + 1) = Suc (unat (evt_index x))" using assms(1) by (simp add: unat_word_ariths)
  then show ?thesis using assms False by (auto simp: cyc_def advance_def)
qed

lemma event_pop_eq:
  assumes "unat (evt_index x) < 64"
  shows "event_pop x s =
    (if t3 (trb_at s (nth_slot x 0)) AND 1 \<noteq> evt_cycle x then (None, x, s)
     else (Some (nth_slot x 0), advance x, usb_wr64 (xh_rt x + IR0_ERDP) (evt_slot (advance x) OR 8) s))"
proof -
  have "evt_index x + 1 = of_nat XHCI_RING_TRBS \<longleftrightarrow> unat (evt_index x) = 63"
    using assms by (simp add: word_unat_eq_iff unat_word_ariths XHCI_RING_TRBS_def)
  moreover have "nth_slot x 0 = evt_slot x" using assms by (simp add: nth_slot_def evt_slot_addr)
  ultimately show ?thesis
    by (cases "unat (evt_index x) = 63") (simp_all add: event_pop_def Let_def TRB_CYCLE_def trb_at_def advance_def)
qed

lemma pop_empty:
  assumes "ring_rep x s c []"
  shows "event_pop x s = (None, x, s)"
proof -
  have i: "unat (evt_index x) < 64" using assms by (simp add: ring_rep_def)
  then have "cyc x 0 = evt_cycle x" by (simp add: cyc_def)
  moreover have "t3 (trb_at s (nth_slot x 0)) AND 1 \<noteq> cyc x 0" using assms by (auto simp: ring_rep_def)
  ultimately show ?thesis by (simp add: event_pop_eq [OF i])
qed

lemma wr64_keeps [simp]: "trb_at (usb_wr64 a v s) b = trb_at s b" "um_reg (usb_wr64 a v s) = um_reg s"
  "um_time (usb_wr64 a v s) = um_time s" "um_mem (usb_wr64 a v s) = um_mem s"
  by (simp_all add: trb_at_def usb_wr64_def usb_wr32_def)

lemma pop_refines:
  assumes R: "ring_rep x s c (e # q)"
  shows "\<exists>s'. event_pop x s = (Some (nth_slot (advance x) 63), advance x, s') \<and> ring_rep (advance x) s' c q \<and>
    trb_at s' (nth_slot (advance x) 63) = stamp (evt_cycle x) e \<and> um_reg s' = um_reg s \<and> um_time s' = um_time s"
proof -
  let ?i = "unat (evt_index x)" and ?s = "usb_wr64 (xh_rt x + IR0_ERDP) (evt_slot (advance x) OR 8) s" and ?x = "advance x"
  have i: "?i < 64" and b: "evt_cycle x = 0 \<or> evt_cycle x = 1" and n: "length q \<le> 62"
    and al: "unat (evt_ring x) mod 16 = 0" and seg: "ct_ring c = evt_ring x" "ct_size c = 64" and enq: "ct_enq c = (?i + Suc (length q)) mod 64"
    and pcs: "ct_pcs c = cyc x (Suc (length q))"
    and here: "\<forall>k<Suc (length q). trb_at s (nth_slot x k) = stamp (cyc x k) ((e # q) ! k)"
    and free: "\<forall>k<64. Suc (length q) \<le> k \<longrightarrow> t3 (trb_at s (nth_slot x k)) AND 1 \<noteq> cyc x k"
    using R by (simp_all add: ring_rep_def)
  have c0: "cyc x 0 = evt_cycle x" using i by (simp add: cyc_def)
  have hd: "trb_at s (nth_slot x 0) = stamp (evt_cycle x) e" using here c0 by auto
  have last: "nth_slot ?x 63 = nth_slot x 0" unfolding advance_slot [OF i] by (simp add: nth_slot_def)
  have i': "unat (evt_index ?x) < 64" unfolding advance_index [OF i] by simp
  have pop: "event_pop x s = (Some (nth_slot ?x 63), ?x, ?s)"
    unfolding event_pop_eq [OF i] last hd using stamp_cycle [OF b] by simp
  have deq: "ctl_deq ?x c ?s = unat (evt_index ?x)"
  proof -
    let ?a = "slot_addr ?x (unat (evt_index ?x))"
    have "unat ?a mod 16 = 0" using al by (intro slot_aligned) simp
    then have "(?a OR 8) AND NOT 0xF = ?a" by (rule erdp_flag)
    moreover have "erdp ?x ?s = ?a OR 8"
      using erdp_wr64 [of ?x "?a OR 8" s] by (simp only: evt_slot_addr [OF i'] advance_simps)
    ultimately show ?thesis unfolding ctl_deq_def seg by (simp only: slot_index [OF i', of ?x, unfolded advance_simps] advance_simps)
  qed
  have b': "evt_cycle ?x = 0 \<or> evt_cycle ?x = 1" using b by (auto simp: advance_def)
  have slots: "k < length q \<Longrightarrow> trb_at ?s (nth_slot ?x k) = stamp (cyc ?x k) (q ! k)" for k
    using here n by (simp add: advance_slot [OF i] advance_cyc [OF i _ b]) 
  have rest: "t3 (trb_at ?s (nth_slot ?x k)) AND 1 \<noteq> cyc ?x k" if k: "k < 64" "length q \<le> k" for k
  proof (cases "k = 63")
    case True
    then show ?thesis using stamp_cycle [OF b, of e] b by (auto simp: last hd advance_cyc [OF i _ b])
  next
    case False
    then show ?thesis using free k by (simp add: advance_slot [OF i] advance_cyc [OF i _ b])
  qed
  have e': "ct_enq c = (unat (evt_index ?x) + length q) mod 64" unfolding advance_index [OF i] enq by (simp add: mod_simps)
  have p': "ct_pcs c = cyc ?x (length q)" unfolding pcs using n by (simp add: advance_cyc [OF i _ b])
  have "ring_rep ?x ?s c q"
    unfolding ring_rep_def using i' b' al seg n e' p' deq slots rest by simp
  then show ?thesis using pop last hd by simp
qed

section \<open>Sequences of posts and pops\<close>

text \<open>A pop carries what the controller posts before the driver reads the event it was given.\<close>

datatype ring_op = Ring_post trb | Ring_pop "trb list"

fun ring_run :: "ring_op list \<Rightarrow> xhci \<Rightarrow> usb_io \<times> ctl \<Rightarrow> trb option list" where
  "ring_run [] x sc = []"
| "ring_run (Ring_post e # ops) x sc = ring_run ops x (ctl_post x e sc)"
| "ring_run (Ring_pop es # ops) x (s, c) =
     (case event_pop x s of (a, x, s) \<Rightarrow>
        case fold (ctl_post x) es (s, c) of (s, c) \<Rightarrow> map_option (trb_at s) a # ring_run ops x (s, c))"

fun queue_run :: "ring_op list \<Rightarrow> trb list \<Rightarrow> trb option list" where
  "queue_run [] q = []"
| "queue_run (Ring_post e # ops) q = queue_run ops (q_post e q)"
| "queue_run (Ring_pop es # ops) [] = None # queue_run ops (fold q_post es [])"
| "queue_run (Ring_pop es # ops) (e # q) = Some e # queue_run ops (fold q_post es q)"

text \<open>Events without the cycle bit, which belongs to the ring.\<close>

definition events :: "trb option list \<Rightarrow> trb option list" where
  "events = map (map_option (stamp 0))"

lemma stamp_stamp: "p = 0 \<or> p = 1 \<Longrightarrow> stamp 0 (stamp p e) = stamp 0 e"
  by (elim disjE) (auto intro!: trb_eqI bit_word_eqI simp: stamp_def bit_simps)

lemma ring_run_refines: "ring_rep x s c q \<Longrightarrow> events (ring_run ops x (s, c)) = events (queue_run ops q)"
proof (induction ops arbitrary: x s c q)
  case (Cons op ops)
  show ?case
  proof (cases op)
    case (Ring_post e)
    obtain s' c' where "ctl_post x e (s, c) = (s', c')" by (cases "ctl_post x e (s, c)")
    then show ?thesis using Cons.IH [OF post_refines(1) [OF Cons.prems]] Ring_post by simp
  next
    case (Ring_pop es)
    show ?thesis
    proof (cases q)
      case Nil
      obtain s' c' where f: "fold (ctl_post x) es (s, c) = (s', c')" by fastforce
      then have "ring_rep x s' c' (fold q_post es [])" using posts_refine [OF Cons.prems f] Nil by simp
      then show ?thesis using pop_empty [of x s c] Cons.IH Cons.prems Ring_pop Nil f by (simp add: events_def)
    next
      case (Cons e q')
      obtain s1 where 1: "event_pop x s = (Some (nth_slot (advance x) 63), advance x, s1)"
        "ring_rep (advance x) s1 c q'" "trb_at s1 (nth_slot (advance x) 63) = stamp (evt_cycle x) e"
        using pop_refines [of x s c e q'] \<open>ring_rep x s c q\<close> Cons by blast
      obtain s2 c2 where f: "fold (ctl_post (advance x)) es (s1, c) = (s2, c2)" by fastforce
      have b: "evt_cycle x = 0 \<or> evt_cycle x = 1" using \<open>ring_rep x s c q\<close> by (simp add: ring_rep_def)
      show ?thesis
        using posts_refine [OF 1(2) f] Cons.IH [of "advance x" s2 c2] 1(1,3) f Ring_pop Cons stamp_stamp [OF b]
        by (simp add: events_def)
    qed
  qed
qed (simp add: events_def)

text \<open>A ring as \<open>xhci_init\<close> leaves it.\<close>

definition ring_fresh :: "xhci \<Rightarrow> usb_io \<Rightarrow> bool" where
  "ring_fresh x s \<longleftrightarrow> evt_index x = 0 \<and> evt_cycle x = 1 \<and> unat (evt_ring x) mod 16 = 0 \<and> erdp x s = evt_ring x \<and>
     (\<forall>i<64. um_mem s (slot_addr x i + 12) = 0)"

lemma fresh_rep: "ring_fresh x s \<Longrightarrow> ring_rep x s (ctl_on (evt_ring x) 64) []"
proof -
  assume f: "ring_fresh x s"
  then have "(erdp x s AND NOT 0xF) - evt_ring x = 0" by (simp only: ring_fresh_def erdp_plain) simp
  then have "ctl_deq x (ctl_on (evt_ring x) 64) s = 0" by (simp add: ctl_deq_def ctl_on_def)
  with f show ?thesis by (auto simp: ring_fresh_def ring_rep_def ctl_on_def cyc_def nth_slot_def trb_at_def)
qed

section \<open>The round trip on the queue\<close>

fun noop_queue :: "(nat \<Rightarrow> trb list) \<Rightarrow> (nat \<Rightarrow> trb list) \<Rightarrow> (nat \<Rightarrow> u32) \<Rightarrow> u64 \<Rightarrow> nat list \<Rightarrow> nat \<Rightarrow> trb list \<Rightarrow> noop_result" where
  "noop_queue pre dur sts a [] t q = Noop_timeout"
| "noop_queue pre dur sts a (i # is) t q =
     (case fold q_post (pre i) q of
        [] \<Rightarrow> if sts t AND USBSTS_HSE \<noteq> 0 then Noop_hse else noop_queue pre dur sts a is (Suc t) (fold q_post (dur i) [])
      | e # q \<Rightarrow> (case judge a e of Some r \<Rightarrow> r | None \<Rightarrow> noop_queue pre dur sts a is t (fold q_post (dur i) q)))"

lemma ring_rep_read: "ring_rep x (s\<lparr>um_time := n\<rparr>) c q = ring_rep x s c q"
  by (simp add: ring_rep_def ctl_deq_def erdp_def written_def trb_at_def)

lemma noop_loop_refines:
  "ring_rep x s c q \<Longrightarrow>
    fst (noop_loop pre dur a is x (s, c)) = noop_queue pre dur (um_reg s (xh_op x + OP_USBSTS)) a is (um_time s) q"
proof (induction "is" arbitrary: x s c q)
  case (Cons i "is")
  obtain s1 c1 where p: "fold (ctl_post x) (pre i) (s, c) = (s1, c1)" by fastforce
  note 1 = posts_refine [OF Cons.prems p]
  show ?case
  proof (cases "fold q_post (pre i) q")
    case Nil
    then have r: "ring_rep x s1 c1 []" using 1 by simp
    obtain s2 c2 where d: "fold (ctl_post x) (dur i) (s1, c1) = (s2, c2)" by fastforce
    note 2 = posts_refine [OF r d]
    then have r2: "ring_rep x (s2\<lparr>um_time := Suc (um_time s2)\<rparr>) c2 (fold q_post (dur i) [])" by (simp add: ring_rep_read)
    show ?thesis
      using Cons.IH [OF r2] 1 2 p d Nil by (simp add: pop_empty [OF r] usb_rd32_def)
  next
    case (Cons e q')
    then have r: "ring_rep x s1 c1 (e # q')" using 1 by simp
    then have b: "evt_cycle x = 0 \<or> evt_cycle x = 1" by (simp add: ring_rep_def)
    obtain s2 where 2: "event_pop x s1 = (Some (nth_slot (advance x) 63), advance x, s2)" "ring_rep (advance x) s2 c1 q'"
      "trb_at s2 (nth_slot (advance x) 63) = stamp (evt_cycle x) e" "um_reg s2 = um_reg s1" "um_time s2 = um_time s1"
      using pop_refines [OF r] by blast
    obtain s3 c3 where d: "fold (ctl_post (advance x)) (dur i) (s2, c1) = (s3, c3)" by fastforce
    note 3 = posts_refine [OF 2(2) d]
    show ?thesis
      using Cons.IH [of "advance x" s3 c3] 1 2 3 p d Cons by (simp add: stamp_judge [OF b] split: option.split)
  qed
qed simp

text \<open>What the controller reports over the given rounds, and the answer it calls for.\<close>

definition reported :: "(nat \<Rightarrow> trb list) \<Rightarrow> (nat \<Rightarrow> trb list) \<Rightarrow> nat list \<Rightarrow> trb list" where
  "reported pre dur is = concat (map (\<lambda>i. pre i @ dur i) is)"

definition answer :: "u64 \<Rightarrow> trb list \<Rightarrow> noop_result" where
  "answer a es = (case dropWhile (\<lambda>e. judge a e = None) es of [] \<Rightarrow> Noop_timeout | e # _ \<Rightarrow> the (judge a e))"

lemma reported_Cons: "reported pre dur (i # is) = pre i @ dur i @ reported pre dur is"
  by (simp add: reported_def)

lemma reported_append: "reported pre dur (is @ js) = reported pre dur is @ reported pre dur js"
  by (simp add: reported_def)

lemma fold_q_post: "length q + length es \<le> 63 \<Longrightarrow> fold q_post es q = q @ es"
  by (induction es arbitrary: q) (auto simp: q_post_def)

lemma fold_q_post_set: "set (fold q_post es q) \<subseteq> set q \<union> set es"
proof (induction es arbitrary: q)
  case (Cons e es)
  have "set (q_post e q) \<subseteq> insert e (set q)" by (simp add: q_post_def subset_insertI)
  then show ?case using Cons [of "q_post e q"] by auto
qed simp

lemma answer_None [simp]: "judge a e = None \<Longrightarrow> answer a (e # es) = answer a es"
  by (simp add: answer_def)

lemma answer_Some [simp]: "judge a e = Some r \<Longrightarrow> answer a (e # es) = r"
  by (simp add: answer_def)

lemma noop_queue_quiet:
  assumes "\<forall>t. sts t AND USBSTS_HSE = 0"
  shows "\<forall>i\<in>set is. pre i = [] \<and> dur i = [] \<Longrightarrow> length q \<le> length is \<Longrightarrow> noop_queue pre dur sts a is t q = answer a q"
proof (induction "is" arbitrary: t q)
  case (Cons i "is")
  then show ?case using assms by (cases q) (auto simp: answer_def split: option.split)
qed (simp add: answer_def)

lemma noop_queue_answer:
  assumes "\<forall>t. sts t AND USBSTS_HSE = 0" "\<forall>i\<in>set late. pre i = [] \<and> dur i = []" "63 \<le> length late"
  shows "length q + length (reported pre dur is) \<le> 63 \<Longrightarrow>
    noop_queue pre dur sts a (is @ late) t q = answer a (q @ reported pre dur is)"
proof (induction "is" arbitrary: t q)
  case Nil
  then show ?case using noop_queue_quiet [OF assms(1,2)] assms(3) by (simp add: reported_def)
next
  case (Cons i "is")
  note r = reported_Cons [of pre dur i "is"]
  have q: "fold q_post (pre i) q = q @ pre i" using Cons.prems r by (intro fold_q_post) simp
  show ?case
  proof (cases "q @ pre i")
    case Nil
    then have "fold q_post (dur i) [] = dur i" using Cons.prems r fold_q_post [of "[]" "dur i"] by simp
    then show ?thesis using Cons.IH [of "dur i"] Cons.prems r q Nil assms(1) by simp
  next
    case (Cons e q')
    then have l: "length q + length (pre i) = Suc (length q')" by (metis length_append length_Cons)
    then have d: "fold q_post (dur i) q' = q' @ dur i" using Cons.prems r by (intro fold_q_post) simp
    have w: "q @ reported pre dur (i # is) = e # (q' @ dur i) @ reported pre dur is"
      unfolding r append_assoc [symmetric] Cons by simp
    have "noop_queue pre dur sts a (is @ late) t (q' @ dur i) = answer a ((q' @ dur i) @ reported pre dur is)"
      using Cons.IH [of "q' @ dur i"] Cons.prems l r by simp
    then show ?thesis unfolding w using q Cons d by (simp split: option.split)
  qed
qed

lemma noop_queue_sound:
  "noop_queue pre dur sts a is t q = Noop_OK \<Longrightarrow> \<exists>e \<in> set q \<union> set (reported pre dur is). judge a e = Some Noop_OK"
proof (induction "is" arbitrary: t q)
  case (Cons i "is")
  have r: "set (reported pre dur (i # is)) = set (pre i) \<union> set (dur i) \<union> set (reported pre dur is)" by (auto simp: reported_def)
  show ?case
  proof (cases "fold q_post (pre i) q")
    case Nil
    then show ?thesis
      using Cons.prems Cons.IH [of "Suc t" "fold q_post (dur i) []"] fold_q_post_set [of "dur i" "[]"] r
      by (fastforce split: if_splits)
  next
    case (Cons e q')
    then have "set (e # q') \<subseteq> set q \<union> set (pre i)" using fold_q_post_set [of "pre i" q] by simp
    then show ?thesis
      using Cons.prems Cons.IH [of t "fold q_post (dur i) q'"] fold_q_post_set [of "dur i" q'] r Cons
      by (fastforce split: option.splits)
  qed
qed simp

section \<open>The ring after the initialisation\<close>

text \<open>
  What is relied on of \<open>malloc\<close> for a sequence of requests: a block does not wrap around the address
  space, and blocks are disjoint. And of the register windows: the doorbell and the command register are not
  the dequeue pointer or the address of the segment table.
\<close>

definition malloc_ok :: "(nat \<Rightarrow> u64 \<Rightarrow> u64) \<Rightarrow> nat \<Rightarrow> u64 list \<Rightarrow> bool" where
  "malloc_ok m n rs \<longleftrightarrow> (\<forall>i<length rs. m (n + i) (rs ! i) \<noteq> 0 \<longrightarrow>
     unat (m (n + i) (rs ! i)) + unat (rs ! i) \<le> 2 ^ 64 \<and>
     (\<forall>j<i. unat (m (n + i) (rs ! i)) + unat (rs ! i) \<le> unat (m (n + j) (rs ! j)) \<or>
            unat (m (n + j) (rs ! j)) + unat (rs ! j) \<le> unat (m (n + i) (rs ! i))))"

definition init_requests :: "u32 \<Rightarrow> u64 list" where
  "init_requests slots = [ucast (slots + 1) * 8 + 64, 1088, 1088, 80]"

definition regs_apart :: "xhci \<Rightarrow> bool" where
  "regs_apart x \<longleftrightarrow> xh_db x \<notin> {xh_rt x + 0x38, xh_rt x + 0x3C} \<and>
     xh_op x \<notin> {xh_rt x + 0x30, xh_rt x + 0x34, xh_rt x + 0x38, xh_rt x + 0x3C}"

definition block_apart :: "u64 \<Rightarrow> nat \<Rightarrow> u64 \<Rightarrow> nat \<Rightarrow> bool" where
  "block_apart a m b n \<longleftrightarrow> unat a + m \<le> unat b \<or> unat b + n \<le> unat a"

definition rings_apart :: "xhci \<Rightarrow> bool" where
  "rings_apart x \<longleftrightarrow> unat (cmd_ring x) + 1024 \<le> 2 ^ 64 \<and> unat (evt_ring x) + 1024 \<le> 2 ^ 64 \<and>
     block_apart (cmd_ring x) 1024 (evt_ring x) 1024"

lemma in_window: "unat (a :: u64) + n \<le> 2 ^ 64 \<Longrightarrow> k < n \<Longrightarrow> unat (a + of_nat k) = unat a + k"
proof -
  assume *: "unat a + n \<le> 2 ^ 64" "k < n"
  then have "unat (of_nat k :: u64) = k" by (intro unat_of_nat_small) simp
  with * show ?thesis by (subst unat_add_no_wrap) simp_all
qed

lemma block_word_apart:
  assumes "unat a + m \<le> 2 ^ 64" "unat b + n \<le> 2 ^ 64" "block_apart a m b n" "k < m" "l < n"
  shows "(a :: u64) + of_nat k \<noteq> b + of_nat l"
proof
  assume "a + of_nat k = b + of_nat l"
  then have "unat (a + of_nat k) = unat (b + of_nat l)" by (rule arg_cong)
  then show False using assms by (simp only: in_window) (auto simp: block_apart_def)
qed

lemma trb_at_put_apart:
  assumes "unat a + m \<le> 2 ^ 64" "unat (evt_ring x) + 1024 \<le> 2 ^ 64" "block_apart a m (evt_ring x) 1024" "16 \<le> m" "i < 64"
  shows "trb_at (trb_put a e s) (slot_addr x i) = trb_at s (slot_addr x i)"
proof -
  have *: "a + of_nat k \<noteq> slot_addr x i + of_nat l" if "k < 16" "l < 16" for k l
    unfolding slot_word using that assms(4,5) by (intro block_word_apart [OF assms(1-3)]) simp_all
  show ?thesis
    using * [of 0 0] * [of 0 4] * [of 0 8] * [of 0 12] * [of 4 0] * [of 4 4] * [of 4 8] * [of 4 12]
      * [of 8 0] * [of 8 4] * [of 8 8] * [of 8 12] * [of 12 0] * [of 12 4] * [of 12 8] * [of 12 12]
    by (intro trb_eqI) (auto simp: trb_at_def trb_put_def usb_store_def)
qed

lemma command_keeps_rep:
  assumes R: "ring_rep x s c q" and A: "rings_apart x" "regs_apart x"
  shows "ring_rep x (usb_wr32 (xh_db x) 0 (trb_put (cmd_ring x) e s)) c q"
proof -
  let ?s = "usb_wr32 (xh_db x) 0 (trb_put (cmd_ring x) e s)"
  have "trb_at ?s (nth_slot x k) = trb_at s (nth_slot x k)" for k
  proof -
    have "trb_at ?s (nth_slot x k) = trb_at (trb_put (cmd_ring x) e s) (nth_slot x k)"
      by (simp add: trb_at_def usb_wr32_def)
    also have "\<dots> = trb_at s (nth_slot x k)"
      unfolding nth_slot_def using A(1) by (intro trb_at_put_apart [where m = 1024]) (auto simp: rings_apart_def)
    finally show ?thesis .
  qed
  moreover have "ctl_deq x c ?s = ctl_deq x c s"
    using A(2) by (auto simp: ctl_deq_def erdp_def written_def usb_wr32_def trb_put_def usb_store_def regs_apart_def)
  ultimately show ?thesis using R by (simp add: ring_rep_def)
qed

text \<open>An allocation: aligned, inside its block, and inside the window.\<close>

lemma dma_alloc_block:
  assumes "dma_alloc n 64 s = Some (a, s')" "unat n + 64 < 2 ^ 64"
  defines "raw \<equiv> um_malloc s (um_allocs s) (n + 64)"
  shows "s' = s\<lparr>um_allocs := Suc (um_allocs s)\<rparr> \<and> raw \<noteq> 0 \<and>
    (unat raw + unat (n + 64) \<le> 2 ^ 64 \<longrightarrow> unat a mod 64 = 0 \<and> unat raw \<le> unat a \<and> unat a + unat n \<le> unat raw + unat (n + 64) \<and>
       s_dma_base s \<le> a \<and> unat a + unat n \<le> unat (s_dma_limit s))"
proof -
  have m: "(64 :: u64) - 1 = mask 6" by (simp add: mask_eq_exp_minus_1)
  have u: "unat (n + 64) = unat n + 64" using assms(2) by (subst unat_add_no_wrap) simp_all
  have a: "a = (raw + mask 6) AND NOT (mask 6)" and s': "s' = s\<lparr>um_allocs := Suc (um_allocs s)\<rparr>" and "raw \<noteq> 0"
    and w: "s_dma_base s \<le> a" "a + n \<le> s_dma_limit s"
    using assms(1) unfolding dma_alloc_def Let_def m raw_def [symmetric]
    by (auto simp: not_less split: if_splits)
  moreover have "unat a mod 64 = 0 \<and> unat raw \<le> unat a \<and> unat a + unat n \<le> unat raw + unat (n + 64) \<and>
       s_dma_base s \<le> a \<and> unat a + unat n \<le> unat (s_dma_limit s)" if b: "unat raw + unat (n + 64) \<le> 2 ^ 64"
  proof -
    have r: "unat raw + 2 ^ 6 \<le> 2 ^ 64" using b u by simp
    have al: "raw \<le> a" "unat a mod 2 ^ 6 = 0" "unat a < unat raw + 2 ^ 6" unfolding a by (rule align_up [OF r])+
    then have "unat a + unat n < 2 ^ LENGTH(64)" using b u by simp
    then have "unat (a + n) = unat a + unat n" by (rule unat_add_no_wrap)
    then show ?thesis using al w u by (simp add: word_le_nat_alt)
  qed
  ultimately show ?thesis by blast
qed

definition in_dma :: "usb_io \<Rightarrow> u64 \<Rightarrow> nat \<Rightarrow> bool" where
  "in_dma s a n \<longleftrightarrow> unat a mod 64 = 0 \<and> s_dma_base s \<le> a \<and> unat a + n \<le> unat (s_dma_limit s)"

lemma alloc_rings_blocks:
  assumes A: "alloc_rings slots x s = Some (x', s')" and S: "slots \<le> 0xFF"
    and M: "malloc_ok (um_malloc s) (um_allocs s) (init_requests slots)"
  shows "\<exists>mem. s' = s\<lparr>um_allocs := um_allocs s + 4, um_mem := mem\<rparr> \<and> (\<forall>a. a - evt_ring x' < 1024 \<longrightarrow> mem a = 0)"
    "x' = x\<lparr>dcbaa := dcbaa x', cmd_ring := cmd_ring x', evt_ring := evt_ring x', erst := erst x', evt_index := 0, evt_cycle := 1\<rparr>"
    "in_dma s (dcbaa x') ((unat slots + 1) * 8)" "in_dma s (cmd_ring x') 1024" "in_dma s (evt_ring x') 1024" "in_dma s (erst x') 16"
    "rings_apart x'" "block_apart (erst x') 16 (evt_ring x') 1024"
proof -
  let ?n = "ucast (slots + 1) * 8 :: u64" and ?m = "um_malloc s" and ?k = "um_allocs s"
  have sl: "unat slots \<le> 255" using S by (simp add: word_le_nat_alt)
  have "unat (slots + 1) = unat slots + 1" using sl by (simp add: unat_word_ariths)
  then have "unat (ucast (slots + 1) :: u64) = unat slots + 1" using unat_ucast_up [of "slots + 1", where 'b = 64] by simp
  then have n: "unat ?n = (unat slots + 1) * 8"
    using sl by (simp only: unat_word_ariths) simp
  obtain d c e r s1 s2 s3 s4 where
    1: "dma_alloc ?n 64 s = Some (d, s1)" and 2: "dma_alloc 1024 64 s1 = Some (c, s2)"
    and 3: "dma_alloc 1024 64 s2 = Some (e, s3)" and 4: "dma_alloc 16 64 s3 = Some (r, s4)"
    and x': "x' = x\<lparr>dcbaa := d, cmd_ring := c, evt_ring := e, erst := r, evt_index := 0, evt_cycle := 1\<rparr>"
    and s': "s' = mem_zero r 16 (mem_zero e 1024 (mem_zero c 1024 (mem_zero d ?n s4)))"
    using A by (auto simp: alloc_rings_def Let_def XHCI_RING_TRBS_def TRB_BYTES_def split: Option.bind_splits)
  have n': "unat ?n + 64 < 2 ^ 64" unfolding n using sl by simp
  note b1 = dma_alloc_block [OF 1 n']
  have s1: "s1 = s\<lparr>um_allocs := Suc ?k\<rparr>" using b1 by blast
  note b2 = dma_alloc_block [OF 2, unfolded s1, simplified]
  have s2: "s2 = s\<lparr>um_allocs := Suc (Suc ?k)\<rparr>" using b2 s1 by simp
  note b3 = dma_alloc_block [OF 3, unfolded s2, simplified]
  have s3: "s3 = s\<lparr>um_allocs := Suc (Suc (Suc ?k))\<rparr>" using b3 s2 by simp
  note b4 = dma_alloc_block [OF 4, unfolded s3, simplified]
  have s4: "s4 = s\<lparr>um_allocs := Suc (Suc (Suc (Suc ?k)))\<rparr>" using b4 s3 by simp
  show "\<exists>mem. s' = s\<lparr>um_allocs := um_allocs s + 4, um_mem := mem\<rparr> \<and> (\<forall>a. a - evt_ring x' < 1024 \<longrightarrow> mem a = 0)"
    by (rule exI [of _ "um_mem s'"]) (simp add: s' s4 x' mem_zero_def)
  show "x' = x\<lparr>dcbaa := dcbaa x', cmd_ring := cmd_ring x', evt_ring := evt_ring x', erst := erst x', evt_index := 0, evt_cycle := 1\<rparr>"
    unfolding x' by simp
  have bounds: "unat (?m (?k + i) (init_requests slots ! i)) + unat (init_requests slots ! i) \<le> 2 ^ 64 \<and>
      (\<forall>j<i. block_apart (?m (?k + i) (init_requests slots ! i)) (unat (init_requests slots ! i))
        (?m (?k + j) (init_requests slots ! j)) (unat (init_requests slots ! j)))"
    if "i < 4" "?m (?k + i) (init_requests slots ! i) \<noteq> 0" for i
  proof -
    have "i < length (init_requests slots)" using that by (simp add: init_requests_def)
    then show ?thesis using M that(2) unfolding malloc_ok_def block_apart_def by blast
  qed
  have k: "?k + 1 = Suc ?k" "?k + 2 = Suc (Suc ?k)" "?k + 3 = Suc (Suc (Suc ?k))" by simp_all
  have u2: "unat (?m (Suc ?k) 1088) + 1088 \<le> 2 ^ 64" using bounds [of 1] b2 k by (simp add: init_requests_def)
  have u3: "unat (?m (Suc (Suc ?k)) 1088) + 1088 \<le> 2 ^ 64" "block_apart (?m (Suc (Suc ?k)) 1088) 1088 (?m (Suc ?k) 1088) 1088"
    using bounds [of 2] b3 k by (auto simp: init_requests_def dest!: spec [of _ "1 :: nat"])
  have u4: "unat (?m (Suc (Suc (Suc ?k))) 80) + 80 \<le> 2 ^ 64"
      "block_apart (?m (Suc (Suc (Suc ?k))) 80) 80 (?m (Suc (Suc ?k)) 1088) 1088"
    using bounds [of 3] b4 k by (auto simp: init_requests_def dest!: spec [of _ "2 :: nat"])
  show "in_dma s (dcbaa x') ((unat slots + 1) * 8)"
    using b1 bounds [of 0] n unfolding x' by (simp add: in_dma_def init_requests_def)
  show "in_dma s (cmd_ring x') 1024" "in_dma s (evt_ring x') 1024" "in_dma s (erst x') 16"
    using b2 b3 b4 u2 u3(1) u4(1) unfolding x' by (simp_all add: in_dma_def)
  show "rings_apart x'" "block_apart (erst x') 16 (evt_ring x') 1024"
    using b2 b3 b4 u2 u3 u4 unfolding x' rings_apart_def by (auto simp: block_apart_def)
qed

lemma wait_loop_time: "wait_loop n reg m w s = (ok, s') \<Longrightarrow> \<exists>t. s' = s\<lparr>um_time := t\<rparr>"
proof (induction n arbitrary: s)
  case (Suc n)
  then show ?case
    by (cases "um_reg s reg (um_time s) AND m = w") (auto simp: usb_rd32_def dest!: Suc.IH)
qed (auto simp: usb_rd32_def)

lemma wait_for_time: "\<exists>t. snd (wait_for reg m w ms s) = s\<lparr>um_time := t\<rparr>"
  unfolding wait_for_def using wait_loop_time [of "unat (ms * 10)" reg m w s] by (metis prod.exhaust_sel)

lemma wait_for_seen: "wait_for reg m w ms s = (True, s') \<Longrightarrow> \<exists>t\<ge>um_time s. um_reg s reg t AND m = w"
proof -
  have "wait_loop n reg m w s = (True, s') \<Longrightarrow> \<exists>t\<ge>um_time s. um_reg s reg t AND m = w" for n s
    by (induction n arbitrary: s) (fastforce simp: usb_rd32_def dest: Suc_leD split: if_splits)+
  then show "wait_for reg m w ms s = (True, s') \<Longrightarrow> ?thesis" by (simp add: wait_for_def)
qed

lemma halt_reset_frame: "\<exists>t ws. snd (halt_reset x s) = s\<lparr>um_writes := ws, um_time := t\<rparr>"
proof -
  let ?w = "\<lambda>s. (fst (usb_rd32 (xh_op x + OP_USBCMD) s)) AND NOT USBCMD_RS"
  define s1 where "s1 = usb_wr32 (xh_op x + OP_USBCMD) (?w s) (snd (usb_rd32 (xh_op x + OP_USBCMD) s))"
  obtain t1 where 1: "snd (wait_for (xh_op x + OP_USBSTS) USBSTS_HCH USBSTS_HCH 100 s1) = s1\<lparr>um_time := t1\<rparr>"
    using wait_for_time by blast
  define s2 where "s2 = usb_wr32 (xh_op x + OP_USBCMD) USBCMD_HCRST (s1\<lparr>um_time := t1\<rparr>)"
  obtain t2 where 2: "snd (wait_for (xh_op x + OP_USBCMD) USBCMD_HCRST 0 1000 s2) = s2\<lparr>um_time := t2\<rparr>"
    using wait_for_time by blast
  obtain t3 where 3: "snd (wait_for (xh_op x + OP_USBSTS) USBSTS_CNR 0 1000 (s2\<lparr>um_time := t2\<rparr>)) = s2\<lparr>um_time := t3\<rparr>"
    using wait_for_time [of "xh_op x + OP_USBSTS" USBSTS_CNR 0 1000 "s2\<lparr>um_time := t2\<rparr>"] by auto
  have "snd (halt_reset x s) \<in> {s1\<lparr>um_time := t1\<rparr>, s2\<lparr>um_time := t2\<rparr>, s2\<lparr>um_time := t3\<rparr>}"
    using 1 2 3 unfolding halt_reset_def Let_def
    by (simp add: case_prod_beta flip: s1_def) (simp add: s2_def)
  then show ?thesis
    by (intro exI [of _ "um_time (snd (halt_reset x s))"] exI [of _ "um_writes (snd (halt_reset x s))"])
      (auto simp: s1_def s2_def usb_wr32_def usb_rd32_def)
qed

text \<open>What \<open>program_rings\<close> stores in the table: the upper half of the ring's address is left out.\<close>

definition segment_table :: "xhci \<Rightarrow> trb" where
  "segment_table x = \<lparr>t0 = ucast (evt_ring x), t1 = 0, t2 = of_nat XHCI_RING_TRBS, t3 = 0\<rparr>"

lemma program_rings_mem: "um_mem (program_rings slots x s) = um_mem (trb_put (erst x) (segment_table x) s)"
  by (simp add: program_rings_def Let_def trb_put_def usb_store_def segment_table_def usb_wr64_def usb_wr32_def)

text \<open>The registers of the rings, in the order they are written.\<close>

definition ring_writes :: "u32 \<Rightarrow> xhci \<Rightarrow> (u64 \<times> u32) list" where
  "ring_writes slots x =
     [(xh_op x + 0x38, slots),
      (xh_op x + 0x30, ucast (dcbaa x)), (xh_op x + 0x34, ucast (drop_bit 32 (dcbaa x))),
      (xh_op x + 0x18, ucast (cmd_ring x OR 1)), (xh_op x + 0x1C, ucast (drop_bit 32 (cmd_ring x OR 1))),
      (xh_rt x + 0x28, 1),
      (xh_rt x + 0x38, ucast (evt_ring x)), (xh_rt x + 0x3C, ucast (drop_bit 32 (evt_ring x))),
      (xh_rt x + 0x30, ucast (erst x)), (xh_rt x + 0x34, ucast (drop_bit 32 (erst x)))]"

lemma program_rings_writes: "um_writes (program_rings slots x s) = rev (ring_writes slots x) @ um_writes s"
  by (simp add: program_rings_def Let_def ring_writes_def usb_store_def usb_wr64_def usb_wr32_def xhci_offsets CRCR_RCS_def add.assoc)

lemma program_rings_frame: "\<exists>mem ws. program_rings slots x s = s\<lparr>um_mem := mem, um_writes := ws\<rparr>"
  by (intro exI [of _ "um_mem (program_rings slots x s)"] exI [of _ "um_writes (program_rings slots x s)"])
    (simp add: program_rings_def Let_def usb_store_def usb_wr64_def usb_wr32_def)

lemma xhci_init_cases:
  assumes "xhci_init x0 base s = Some (Init_OK, x, s')"
  obtains x1 t ws mem v t' where
    "alloc_rings (um_reg s (base + 4) (um_time s + 3) AND 0xFF) x1 (s\<lparr>um_writes := ws, um_time := t\<rparr>) = Some (x, mem)"
    "s' = (program_rings (um_reg s (base + 4) (um_time s + 3) AND 0xFF) x mem)
       \<lparr>um_writes := (xh_op x, v) # um_writes (program_rings (um_reg s (base + 4) (um_time s + 3) AND 0xFF) x mem), um_time := t'\<rparr>"
    "\<exists>t. um_reg s (xh_op x + 4) t AND 1 = 0"
proof -
  let ?sl = "um_reg s (base + 4) (um_time s + 3) AND 0xFF"
  let ?caps = "read_caps (x0\<lparr>xh_cap := base\<rparr>) base (um_reg s base (um_time s) AND 0xFF) (s\<lparr>um_time := Suc (um_time s)\<rparr>)"
  define x1 where "x1 = fst (snd ?caps)"
  have caps: "?caps = (?sl, x1, s\<lparr>um_time := um_time s + 5\<rparr>)"
    by (simp add: x1_def read_caps_def usb_rd32_def xhci_offsets eval_nat_numeral)
  obtain r s2 where hr: "halt_reset x1 (s\<lparr>um_time := um_time s + 5\<rparr>) = (r, s2)" by fastforce
  obtain t ws where s2: "s2 = s\<lparr>um_writes := ws, um_time := t\<rparr>"
    using halt_reset_frame [of x1 "s\<lparr>um_time := um_time s + 5\<rparr>"] hr by auto
  from assms have r: "r = Init_OK" and
    b: "alloc_rings ?sl x1 s2 \<bind> (\<lambda>(x, s). let s = program_rings ?sl x s; (cmd, s) = usb_rd32 (xh_op x + OP_USBCMD) s;
       s = usb_wr32 (xh_op x + OP_USBCMD) (cmd OR USBCMD_RS) s;
       (ok, s) = wait_for (xh_op x + OP_USBSTS) USBSTS_HCH 0 100 s
       in if \<not> ok then Some (Init_start, x, s) else Some (Init_OK, x, snd (xhci_report x s))) = Some (Init_OK, x, s')"
    unfolding xhci_init_def Let_def
    by (auto simp: usb_rd32_def CAP_CAPLENGTH_def caps hr split: if_splits)
  then obtain s3 where al: "alloc_rings ?sl x1 s2 = Some (x, s3)"
    by (auto simp: Let_def case_prod_beta split: Option.bind_splits if_splits)
  define s5 where "s5 = (program_rings ?sl x s3)\<lparr>um_time := Suc (um_time (program_rings ?sl x s3)),
     um_writes := (xh_op x, um_reg (program_rings ?sl x s3) (xh_op x) (um_time (program_rings ?sl x s3)) OR 1)
       # um_writes (program_rings ?sl x s3)\<rparr>"
  obtain ok s6 where w: "wait_for (xh_op x + OP_USBSTS) USBSTS_HCH 0 100 s5 = (ok, s6)" by fastforce
  obtain t6 where s6: "s6 = s5\<lparr>um_time := t6\<rparr>" using wait_for_time [of "xh_op x + OP_USBSTS" USBSTS_HCH 0 100 s5] w by auto
  have ok: "ok" and s': "s' = s6\<lparr>um_time := Suc (Suc (um_time s6))\<rparr>"
    using b al w by (auto simp: usb_rd32_def usb_wr32_def OP_USBCMD_def USBCMD_RS_def s5_def xhci_report_def split: if_splits)
  obtain mem ws' where "program_rings ?sl x s3 = s3\<lparr>um_mem := mem, um_writes := ws'\<rparr>" using program_rings_frame by blast
  moreover have "um_reg s3 = um_reg s"
    using al s2 by (auto simp: alloc_rings_def Let_def dma_alloc_def mem_zero_def split: Option.bind_splits if_splits)
  ultimately have "um_reg s5 = um_reg s" by (simp add: s5_def)
  then have "\<exists>t. um_reg s (xh_op x + 4) t AND 1 = 0"
    using wait_for_seen [of "xh_op x + OP_USBSTS" USBSTS_HCH 0 100 s5 s6] w ok by (auto simp: OP_USBSTS_def USBSTS_HCH_def)
  then show ?thesis using that [OF al [unfolded s2]] s' s6 by (simp add: s5_def)
qed

lemma slot_in_ring: "i < 64 \<Longrightarrow> k < 16 \<Longrightarrow> slot_addr x i + of_nat k - evt_ring x < 1024"
proof -
  assume "i < 64" "k < 16"
  then have "unat (of_nat (16 * i + k) :: u64) = 16 * i + k" by (intro unat_of_nat_small) simp
  moreover have "slot_addr x i + of_nat k - evt_ring x = of_nat (16 * i + k)" unfolding slot_word by simp
  ultimately show ?thesis using \<open>i < 64\<close> \<open>k < 16\<close> by (simp only: word_less_nat_alt) simp
qed

lemma ring_writes_erdp:
  assumes "regs_apart x" "um_writes s = (xh_op x, v) # rev (ring_writes slots x) @ ws"
  shows "erdp x s = evt_ring x"
proof -
  have "xh_rt x + 0x38 \<noteq> xh_op x" "xh_rt x + 0x3C \<noteq> xh_op x" using assms(1) by (auto simp: regs_apart_def)
  then show ?thesis
    using halves_join [of "evt_ring x"] by (simp add: erdp_def written_def assms(2) ring_writes_def)
qed

text \<open>The controller finds the driver's ring in the table when the ring lies below 4 GiB.\<close>

lemma low_half: "unat a < 2 ^ 32 \<Longrightarrow> (ucast (ucast (a :: u64) :: u32) :: u64) = a"
  by (simp add: word_unat_eq_iff unat_ucast_up unat_ucast_down)

lemma ctl_starts_on_ring:
  assumes R: "regs_apart x" and w: "um_writes s = (xh_op x, v) # rev (ring_writes slots x) @ ws"
    and t: "trb_at s (erst x) = segment_table x" and low: "unat (evt_ring x) < 2 ^ 32"
  shows "ctl_start x s = ctl_on (evt_ring x) 64"
proof -
  have "xh_rt x + 0x30 \<noteq> xh_op x" "xh_rt x + 0x34 \<noteq> xh_op x" using R by (auto simp: regs_apart_def)
  then have "reg64 (xh_rt x + 0x30) s = erst x"
    using halves_join [of "erst x"] by (simp add: reg64_def written_def w ring_writes_def add.assoc)
  moreover have "um_mem s (erst x) = ucast (evt_ring x)" "um_mem s (erst x + 4) = 0" "um_mem s (erst x + 8) = 64"
    using t by (simp_all add: trb_at_def segment_table_def XHCI_RING_TRBS_def)
  ultimately show ?thesis using low_half [OF low] by (simp add: ctl_start_def Let_def)
qed

text \<open>After a successful initialisation the ring is fresh, all four structures are aligned and
  inside the window, and the segment table names the ring.\<close>

lemma xhci_init_ready:
  assumes I: "xhci_init x0 base s = Some (Init_OK, x, s')" and P: "regs_apart x"
    and M: "malloc_ok (um_malloc s) (um_allocs s) (init_requests (um_reg s (base + 4) (um_time s + 3) AND 0xFF))"
  shows "ring_fresh x s'" "rings_apart x" "um_reg s' = um_reg s" "trb_at s' (erst x) = segment_table x"
    "in_dma s (dcbaa x) ((unat (um_reg s (base + 4) (um_time s + 3) AND 0xFF) + 1) * 8)" "in_dma s (cmd_ring x) 1024"
    "in_dma s (evt_ring x) 1024" "in_dma s (erst x) 16"
    "\<exists>v ws. um_writes s' = (xh_op x, v) # rev (ring_writes (um_reg s (base + 4) (um_time s + 3) AND 0xFF) x) @ ws"
    "\<exists>t. um_reg s (xh_op x + 4) t AND 1 = 0"
proof -
  let ?sl = "um_reg s (base + 4) (um_time s + 3) AND 0xFF"
  obtain x1 t ws m v t' where al: "alloc_rings ?sl x1 (s\<lparr>um_writes := ws, um_time := t\<rparr>) = Some (x, m)"
    and s': "s' = (program_rings ?sl x m)\<lparr>um_writes := (xh_op x, v) # um_writes (program_rings ?sl x m), um_time := t'\<rparr>"
    and run: "\<exists>t. um_reg s (xh_op x + 4) t AND 1 = 0"
    by (rule xhci_init_cases [OF I])
  have le: "?sl \<le> 0xFF" by (rule word_and_le1)
  have M': "malloc_ok (um_malloc (s\<lparr>um_writes := ws, um_time := t\<rparr>)) (um_allocs (s\<lparr>um_writes := ws, um_time := t\<rparr>))
      (init_requests ?sl)" using M by simp
  note b = alloc_rings_blocks [OF al le M']
  obtain mem where m: "m = s\<lparr>um_writes := ws, um_time := t, um_allocs := um_allocs s + 4, um_mem := mem\<rparr>"
    "\<forall>a. a - evt_ring x < 1024 \<longrightarrow> mem a = 0" using b(1) by auto
  show "rings_apart x" by (rule b(7))
  show dma: "in_dma s (dcbaa x) ((unat ?sl + 1) * 8)" "in_dma s (cmd_ring x) 1024" "in_dma s (evt_ring x) 1024" "in_dma s (erst x) 16"
    using b(3-6) by (simp_all add: in_dma_def)
  show "\<exists>t. um_reg s (xh_op x + 4) t AND 1 = 0" by (rule run)
  have w: "um_writes s' = (xh_op x, v) # rev (ring_writes ?sl x) @ ws"
    unfolding s' using m(1) by (simp add: program_rings_writes)
  then show "\<exists>v ws. um_writes s' = (xh_op x, v) # rev (ring_writes ?sl x) @ ws" by blast
  show "um_reg s' = um_reg s" using program_rings_frame [of ?sl x m] m(1) s' by auto
  have mem: "trb_at s' a = trb_at (trb_put (erst x) (segment_table x) m) a" for a
    unfolding trb_at_def s' by (simp add: program_rings_mem)
  show "trb_at s' (erst x) = segment_table x" unfolding mem by (rule trb_at_put)
  have "trb_at s' (slot_addr x i) = trb_at m (slot_addr x i)" if "i < 64" for i
    unfolding mem using b(7,8) dma(4) that unsigned_less [of "s_dma_limit s", where 'a = nat]
    by (intro trb_at_put_apart [where m = 16]) (auto simp: rings_apart_def in_dma_def)
  then have "um_mem s' (slot_addr x i + 12) = um_mem m (slot_addr x i + 12)" if "i < 64" for i
    using that by (auto simp: trb_at_def dest: arg_cong [of _ _ t3])
  moreover have "um_mem m (slot_addr x i + 12) = 0" if "i < 64" for i
    using m slot_in_ring [OF that, of 12 x] by simp
  moreover have "unat (evt_ring x) mod 16 = 0"
    using dma(3) mod_mod_cancel [of 16 64 "unat (evt_ring x)"] by (simp add: in_dma_def)
  moreover have "evt_index x = 0" "evt_cycle x = 1" using arg_cong [OF b(2), of evt_index] arg_cong [OF b(2), of evt_cycle] by simp_all
  ultimately show "ring_fresh x s'" using ring_writes_erdp [OF P w] by (simp add: ring_fresh_def)
qed

end
