(* ===== verification/Usb_Test.thy ===== *)
theory Usb_Test
  imports Xhci Smoldtb
begin

text \<open>
  The USB test (\<open>baremetal/usb-test\<close>): the watch over the root-hub ports (\<open>xhci.c\<close>), the lookups in the
  device tree, the choice of the host role and the program itself (\<open>main.c\<close>), and the theorems about the
  test as a whole. \<open>None\<close> is \<open>abort\<close> or a fault.
\<close>

section \<open>The port watch\<close>

definition OP_PORTSC :: "nat \<Rightarrow> u64" where
  "OP_PORTSC n = 0x400 + 0x10 * (of_nat n - 1)"

definition PORTSC_CCS :: u32 where "PORTSC_CCS = 1"
definition PORTSC_PED :: u32 where "PORTSC_PED = 2"
definition PORTSC_OCA :: u32 where "PORTSC_OCA = 8"
definition PORTSC_PR :: u32 where "PORTSC_PR = 0x10"
definition PORTSC_PP :: u32 where "PORTSC_PP = 0x200"
definition PORTSC_CSC :: u32 where "PORTSC_CSC = 0x20000"
definition PORTSC_SPEED :: "u32 \<Rightarrow> u32" where "PORTSC_SPEED v = drop_bit 10 v AND 0xF"

definition speed_name :: "u32 \<Rightarrow> string" where
  "speed_name c = (if c = 0 then ''none'' else if c = 1 then ''full'' else if c = 2 then ''low''
     else if c = 3 then ''high'' else if c = 4 then ''super'' else ''?'')"

text \<open>
  The lines printed: a port with its register, whether it is connected, enabled, powered, in reset and
  over its current, and its speed; an unpowered port; a change; and the closing verdict.
\<close>

datatype port_msg = Port nat u32 bool bool bool bool bool string | Not_powered nat | Change | Ever_connected bool

definition print_port :: "nat \<Rightarrow> u32 \<Rightarrow> port_msg" where
  "print_port n v = Port n v (v AND PORTSC_CCS \<noteq> 0) (v AND PORTSC_PED \<noteq> 0) (v AND PORTSC_PP \<noteq> 0)
     (v AND PORTSC_PR \<noteq> 0) (v AND PORTSC_OCA \<noteq> 0) (speed_name (PORTSC_SPEED v))"

record watch =
  wa_io :: usb_io
  wa_prev :: "u32 list"
  wa_log :: "port_msg list"

definition watched :: "xhci \<Rightarrow> nat list" where
  "watched x = [1..<Suc (min (unat (max_ports x)) 16)]"

definition read_port :: "xhci \<Rightarrow> nat \<Rightarrow> watch \<Rightarrow> u32 \<times> watch" where
  "read_port x n w = (case usb_rd32 (xh_op x + OP_PORTSC n) (wa_io w) of (v, s) \<Rightarrow> (v, w\<lparr>wa_io := s\<rparr>))"

definition log_port :: "port_msg list \<Rightarrow> watch \<Rightarrow> watch" where
  "log_port ms w = w\<lparr>wa_log := wa_log w @ ms\<rparr>"

definition first_look :: "xhci \<Rightarrow> nat \<Rightarrow> watch \<Rightarrow> watch" where
  "first_look x n w = (case read_port x n w of (v, w) \<Rightarrow> log_port [print_port n v] (w\<lparr>wa_prev := wa_prev w @ [v]\<rparr>))"

definition watch_port :: "xhci \<Rightarrow> nat \<Rightarrow> watch \<Rightarrow> watch" where
  "watch_port x n w =
     (let (v, w) = read_port x n w
      in if v AND NOT PORTSC_CSC \<noteq> wa_prev w ! (n - 1) AND NOT PORTSC_CSC \<or> v AND PORTSC_CSC \<noteq> 0
         then let w = log_port [Change, print_port n v] w;
                  w = (if v AND PORTSC_CSC \<noteq> 0
                       then w\<lparr>wa_io := usb_wr32 (xh_op x + OP_PORTSC n) ((v AND NOT PORTSC_PED) OR PORTSC_CSC) (wa_io w)\<rparr>
                       else w);
                  (p, w) = read_port x n w
              in w\<lparr>wa_prev := (wa_prev w)[n - 1 := p]\<rparr>
         else w)"

definition last_look :: "xhci \<Rightarrow> nat \<Rightarrow> bool \<times> watch \<Rightarrow> bool \<times> watch" where
  "last_look x n aw =
     (case aw of (any, w) \<Rightarrow> case read_port x n w of (v, w) \<Rightarrow> (any \<or> v AND PORTSC_CCS \<noteq> 0, log_port [print_port n v] w))"

definition xhci_watch_ports :: "xhci \<Rightarrow> u32 \<Rightarrow> usb_io \<Rightarrow> watch" where
  "xhci_watch_ports x seconds s =
     (let w = fold (first_look x) (watched x) \<lparr>wa_io = s, wa_prev = [], wa_log = []\<rparr>;
          w = log_port (map Not_powered (filter (\<lambda>n. wa_prev w ! (n - 1) AND PORTSC_PP = 0) (watched x))) w;
          w = (fold (watch_port x) (watched x) ^^ unat (seconds * 100)) w;
          (any, w) = fold (last_look x) (watched x) (False, w)
      in log_port [Ever_connected any] w)"

section \<open>The program\<close>

definition usb_require_compatible :: "blob \<Rightarrow> 'h dtb_state \<Rightarrow> string \<Rightarrow> nat option" where
  "usb_require_compatible b D name = Option.bind (dtb_find_compatible b D None (cstring name)) id"

text \<open>The readers store every value of the property; more than the one there is room for overrun it.\<close>

definition only :: "'a list \<Rightarrow> 'a option" where
  "only xs = (case xs of [x] \<Rightarrow> Some x | _ \<Rightarrow> None)"

definition usb_require_reg :: "blob \<Rightarrow> 'h dtb_state \<Rightarrow> nat \<Rightarrow> (u64 \<times> u64) option" where
  "usb_require_reg b D n = do {
     reg \<leftarrow> dtb_find_prop b D (Some n) (cstring ''reg'');
     ac \<leftarrow> dtb_get_addr_cells_for b D (Some n);
     sc \<leftarrow> dtb_get_size_cells_for b D (Some n);
     p \<leftarrow> reg;
     pr \<leftarrow> prop_at D p;
     vals \<leftarrow> dtb_read_prop_2 b (Some pr) (ac, sc);
     only vals }"

definition usb_require_u32 :: "blob \<Rightarrow> 'h dtb_state \<Rightarrow> nat \<Rightarrow> string \<Rightarrow> u64 option" where
  "usb_require_u32 b D n name = do {
     prop \<leftarrow> dtb_find_prop b D (Some n) (cstring name);
     p \<leftarrow> prop;
     pr \<leftarrow> prop_at D p;
     vals \<leftarrow> dtb_read_prop_1 b (Some pr) 1;
     only vals }"

text \<open>\<open>dma-ranges\<close> of the controller's node, or of the bus above it.\<close>

definition dma_ranges :: "blob \<Rightarrow> 'h dtb_state \<Rightarrow> nat \<Rightarrow> (u64 \<times> u64 \<times> u64) option" where
  "dma_ranges b D usb = do {
     own \<leftarrow> dtb_find_prop b D (Some usb) (cstring ''dma-ranges'');
     ranges \<leftarrow> (case own of
                 Some p \<Rightarrow> Some (Some p)
               | None \<Rightarrow> do {
                   bus \<leftarrow> dtb_get_parent D (Some usb);
                   case bus of None \<Rightarrow> Some None | Some n \<Rightarrow> dtb_find_prop b D (Some n) (cstring ''dma-ranges'') });
     p \<leftarrow> ranges;
     pr \<leftarrow> prop_at D p;
     vals \<leftarrow> dtb_read_prop_3 b (Some pr) 1 1 1;
     v \<leftarrow> only vals;
     Some (v ! 0, v ! 1, v ! 2) }"

definition DWC3_GCTL :: u64 where "DWC3_GCTL = 0xC110"

definition dwc3_select_host_mode :: "u64 \<Rightarrow> usb_io \<Rightarrow> usb_io" where
  "dwc3_select_host_mode base s =
     (let (before, s) = usb_rd32 (base + DWC3_GCTL) s
      in if drop_bit 12 (before AND 0x3000) \<noteq> 1
         then snd (usb_rd32 (base + DWC3_GCTL) (usb_wr32 (base + DWC3_GCTL) ((before AND NOT 0x3000) OR 0x1000) s))
         else s)"

datatype usb_exit = Usb_passed "port_msg list" | Usb_no_init init_result | Usb_no_dma noop_result

text \<open>From the choice of the role on; \<open>x\<close> is the uninitialised structure on the stack.\<close>

definition usb_run :: "(nat \<Rightarrow> trb list) \<Rightarrow> (nat \<Rightarrow> trb list) \<Rightarrow> xhci \<Rightarrow> u64 \<Rightarrow> usb_io \<Rightarrow> usb_exit option" where
  "usb_run pre dur x usb_base s = do {
     (r, x, s) \<leftarrow> xhci_init x usb_base (dwc3_select_host_mode usb_base s);
     if r \<noteq> Init_OK then Some (Usb_no_init r)
     else case xhci_noop_roundtrip pre dur x (s, ctl_start x s) of
            (r, x, s, c) \<Rightarrow>
              if r \<noteq> Noop_OK then Some (Usb_no_dma r)
              else Some (Usb_passed (wa_log (xhci_watch_ports x 20 s))) }"

definition usb_main :: "blob \<Rightarrow> 'h dtb_state \<Rightarrow> (nat \<Rightarrow> trb list) \<Rightarrow> (nat \<Rightarrow> trb list) \<Rightarrow> xhci \<Rightarrow> usb_io \<Rightarrow>
    (u64 \<times> usb_exit) option" where
  "usb_main b D pre dur x s = do {
     cbus \<leftarrow> Option.bind (dtb_find b D (cstring ''/soc/cbus_clock'')) id;
     f \<leftarrow> usb_require_u32 b D cbus ''clock-frequency'';
     usb \<leftarrow> usb_require_compatible b D ''snps,dwc3'';
     (usb_base, usb_size) \<leftarrow> usb_require_reg b D usb;
     (bus, cpu, size) \<leftarrow> dma_ranges b D usb;
     if bus \<noteq> cpu then None
     else map_option (Pair (f div 1000000)) (usb_run pre dur x usb_base (s\<lparr>s_dma_base := cpu, s_dma_limit := cpu + size\<rparr>)) }"

section \<open>The watch\<close>

text \<open>
  The acknowledgement of a connect change: written to the register of a watched port, with the change bit
  set and the enable bit clear, so that it does not disable the port.
\<close>

definition acknowledges :: "xhci \<Rightarrow> u64 \<times> u32 \<Rightarrow> bool" where
  "acknowledges x av \<longleftrightarrow> (\<exists>n\<in>set (watched x). fst av = xh_op x + OP_PORTSC n) \<and>
     snd av AND PORTSC_PED = 0 \<and> snd av AND PORTSC_CSC \<noteq> 0"

definition only_acks :: "xhci \<Rightarrow> usb_io \<Rightarrow> watch \<Rightarrow> bool" where
  "only_acks x s w \<longleftrightarrow> (\<exists>ws. um_writes (wa_io w) = ws @ um_writes s \<and> (\<forall>av\<in>set ws. acknowledges x av))"

lemma ack_bits: "((v AND NOT PORTSC_PED) OR PORTSC_CSC) AND PORTSC_PED = 0"
  "((v AND NOT PORTSC_PED) OR PORTSC_CSC) AND PORTSC_CSC \<noteq> 0"
proof -
  have "bit (((v AND NOT PORTSC_PED) OR PORTSC_CSC) AND PORTSC_CSC) 17"
    by (simp add: PORTSC_CSC_def bit_simps)
  then show "((v AND NOT PORTSC_PED) OR PORTSC_CSC) AND PORTSC_CSC \<noteq> 0" by (metis bit_0_eq bot_apply bot_bool_def)
  have "PORTSC_CSC AND PORTSC_PED = 0" by (simp add: PORTSC_CSC_def PORTSC_PED_def)
  then show "((v AND NOT PORTSC_PED) OR PORTSC_CSC) AND PORTSC_PED = 0"
    by (simp add: bit.conj_disj_distrib2 and.assoc)
qed

lemma read_port_acks: "only_acks x s (snd (read_port x n w)) = only_acks x s w"
  by (simp add: only_acks_def read_port_def usb_rd32_def)

lemma log_port_acks [simp]: "only_acks x s (log_port ms w) = only_acks x s w"
  by (simp add: only_acks_def log_port_def)

lemma prev_acks [simp]: "only_acks x s (w\<lparr>wa_prev := p\<rparr>) = only_acks x s w"
  by (simp add: only_acks_def)

lemma watch_port_acks:
  assumes n: "n \<in> set (watched x)" and w: "only_acks x s w"
  shows "only_acks x s (watch_port x n w)"
proof -
  obtain v w1 where 1: "read_port x n w = (v, w1)" by fastforce
  then have w1: "only_acks x s w1" using read_port_acks [of x s n w] w by simp
  let ?w = "log_port [Change, print_port n v] w1"
  let ?a = "?w\<lparr>wa_io := usb_wr32 (xh_op x + OP_PORTSC n) ((v AND NOT PORTSC_PED) OR PORTSC_CSC) (wa_io ?w)\<rparr>"
  obtain ws where "um_writes (wa_io w1) = ws @ um_writes s" "\<forall>av\<in>set ws. acknowledges x av"
    using w1 by (auto simp: only_acks_def)
  then have a: "only_acks x s ?a"
    using n ack_bits [of v] unfolding only_acks_def
    by (intro exI [of _ "(xh_op x + OP_PORTSC n, (v AND NOT PORTSC_PED) OR PORTSC_CSC) # ws"])
      (auto simp: usb_wr32_def log_port_def acknowledges_def)
  show ?thesis
    using a w1 read_port_acks [of x s n ?a] read_port_acks [of x s n ?w]
    unfolding watch_port_def by (simp add: 1 Let_def case_prod_beta)
qed

lemma fold_acks:
  "(\<And>n w. n \<in> set ns \<Longrightarrow> only_acks x s w \<Longrightarrow> only_acks x s (f n w)) \<Longrightarrow> only_acks x s w \<Longrightarrow> only_acks x s (fold f ns w)"
  by (induction ns arbitrary: w) auto

lemma last_look_acks: "only_acks x s (snd aw) \<Longrightarrow> only_acks x s (snd (fold (last_look x) ns aw))"
proof (induction ns arbitrary: aw)
  case (Cons n ns)
  have "only_acks x s (snd (last_look x n aw))"
    using Cons.prems read_port_acks [of x s n "snd aw"] by (simp add: last_look_def case_prod_beta)
  then show ?case using Cons.IH by simp
qed simp

text \<open>The watch writes nothing but acknowledgements, whatever the ports do.\<close>

theorem watch_only_acks: "only_acks x s (xhci_watch_ports x seconds s)"
proof -
  let ?w0 = "\<lparr>wa_io = s, wa_prev = [], wa_log = []\<rparr>"
  have "only_acks x s (first_look x n w)" if "only_acks x s w" for n w
    using that read_port_acks [of x s n w] by (simp add: first_look_def case_prod_beta)
  moreover have "only_acks x s ?w0" by (simp add: only_acks_def)
  ultimately have 1: "only_acks x s (fold (first_look x) (watched x) ?w0)" by (rule fold_acks)
  have "only_acks x s ((fold (watch_port x) (watched x) ^^ k) w)" if "only_acks x s w" for k w
    using that by (induction k) (auto intro: fold_acks watch_port_acks)
  with 1 show ?thesis
    unfolding xhci_watch_ports_def Let_def by (simp add: case_prod_beta last_look_acks)
qed

section \<open>The test as a whole\<close>

lemma dwc3_frame: "\<exists>ws t. dwc3_select_host_mode base s = s\<lparr>um_writes := ws, um_time := t\<rparr>"
  by (rule exI [of _ "um_writes (dwc3_select_host_mode base s)"], rule exI [of _ "um_time (dwc3_select_host_mode base s)"])
    (simp add: dwc3_select_host_mode_def usb_rd32_def usb_wr32_def Let_def)

lemma noop_refines_queue:
  assumes "ring_fresh x s" "rings_apart x" "regs_apart x"
  shows "fst (xhci_noop_roundtrip pre dur x (s, ctl_on (evt_ring x) 64)) =
    noop_queue pre dur (um_reg s (xh_op x + OP_USBSTS)) (cmd_ring x) [0..<10000] (um_time s) []"
proof -
  let ?e = "\<lparr>t0 = 0, t1 = 0, t2 = 0, t3 = TRB_MAKE_TYPE TRB_TYPE_NOOP_CMD OR TRB_CYCLE\<rparr>"
  have "ring_rep x (usb_wr32 (xh_db x) 0 (trb_put (cmd_ring x) ?e s)) (ctl_on (evt_ring x) 64) []"
    using assms by (intro command_keeps_rep fresh_rep)
  from noop_loop_refines [OF this, of pre dur "cmd_ring x" "[0..<10000]"] show ?thesis
    by (simp add: xhci_noop_roundtrip_def usb_wr32_def trb_put_def usb_store_def del: upt_rec_numeral)
qed

lemma usb_run_passes:
  assumes "xhci_init x0 base (dwc3_select_host_mode base s) = Some (Init_OK, x, s')"
  shows "(\<exists>log. usb_run pre dur x0 base s = Some (Usb_passed log)) \<longleftrightarrow>
    fst (xhci_noop_roundtrip pre dur x (s', ctl_start x s')) = Noop_OK"
  using assms by (auto simp: usb_run_def case_prod_beta split: prod.splits)

text \<open>
  What the test is to look for: an event about a port, and a successful completion of the command at an
  address.
\<close>

definition about_port :: "trb \<Rightarrow> bool" where
  "about_port e \<longleftrightarrow> TRB_TYPE (t3 e) = TRB_TYPE_PORT_STATUS"

definition completes :: "u64 \<Rightarrow> trb \<Rightarrow> bool" where
  "completes a e \<longleftrightarrow> TRB_TYPE (t3 e) = TRB_TYPE_CMD_COMPL \<and> TRB_COMPL_CODE (t2 e) = COMPL_SUCCESS \<and>
     unat (t0 e) + unat (t1 e) * 2 ^ 32 = unat a"

lemma halves_value: "ucast (l :: u32) OR push_bit 32 (ucast (h :: u32)) = (a :: u64) \<longleftrightarrow> unat l + unat h * 2 ^ 32 = unat a"
proof -
  let ?l = "ucast l :: u64" and ?h = "push_bit 32 (ucast h) :: u64"
  have b: "unat l < 2 ^ 32" "unat h < 2 ^ 32" using unsigned_less [of l, where 'a = nat] unsigned_less [of h, where 'a = nat] by simp_all
  have "?l AND ?h = 0" by (rule bit_word_eqI) (auto simp: bit_simps dest: bit_imp_le_length)
  then have "?l OR ?h = ?l + ?h" by (rule disjunctive_add_eq_or [symmetric])
  moreover have "unat ?l = unat l" by (simp add: unat_ucast_up)
  moreover have "unat ?h = unat h * 2 ^ 32"
    unfolding unsigned_push_bit_eq using b by (simp add: push_bit_eq_mult take_bit_eq_mod unat_ucast_up)
  ultimately have "unat (?l OR ?h) = unat l + unat h * 2 ^ 32"
    using b by (simp add: unat_word_ariths)
  then show ?thesis by (metis word_unat_eq_iff)
qed

lemma judge_OK: "judge a e = Some Noop_OK \<longleftrightarrow> completes a e"
  by (auto simp: judge_def completes_def halves_value TRB_TYPE_PORT_STATUS_def TRB_TYPE_CMD_COMPL_def)

lemma judge_None: "judge a e = None \<longleftrightarrow> about_port e"
  by (simp add: judge_def about_port_def)

definition verdict :: "u64 \<Rightarrow> trb list \<Rightarrow> bool" where
  "verdict a es = (case dropWhile about_port es of [] \<Rightarrow> False | e # _ \<Rightarrow> completes a e)"

lemma answer_verdict: "answer a es = Noop_OK \<longleftrightarrow> verdict a es"
proof (cases "dropWhile about_port es")
  case (Cons e es')
  then obtain r where "judge a e = Some r" using hd_dropWhile [of about_port es] judge_None [of a e] by fastforce
  then show ?thesis using Cons judge_OK [of a e] by (simp add: answer_def verdict_def judge_None)
qed (simp add: answer_def verdict_def judge_None del: dropWhile_eq_Nil_conv)

text \<open>Some events and a controller, for the witnesses.\<close>

definition port_event :: trb where
  "port_event = \<lparr>t0 = 0x01000000, t1 = 0, t2 = 0x01000000, t3 = push_bit 10 34\<rparr>"

definition completion :: "u64 \<Rightarrow> trb" where
  "completion a = \<lparr>t0 = ucast a, t1 = ucast (drop_bit 32 a), t2 = 0x01000000, t3 = push_bit 10 33\<rparr>"

definition demo_reg :: "u64 \<Rightarrow> nat \<Rightarrow> u32" where
  "demo_reg a t =
     (if a = 0xFE20C110 then 0x1000 else if a = 0xFE200000 then 0x20 else if a = 0xFE200018 then 0x440
      else if a = 0xFE200014 then 0x480 else if a = 0xFE200004 then 0x01000001
      else if a = 0xFE200024 then (if t < 10 then 1 else 0) else 0)"

definition demo_usb :: usb_io where
  "demo_usb = \<lparr>um_mem = (\<lambda>_. 0), um_reg = demo_reg, um_time = 0, um_writes = [],
     um_malloc = (\<lambda>n _. 0x80000010 + of_nat n * 0x2000), um_allocs = 0, s_dma_base = 0x80000000, s_dma_limit = 0x90000000\<rparr>"

definition demo_xhci :: xhci where
  "demo_xhci = \<lparr>xh_cap = 0, xh_op = 0, xh_rt = 0, xh_db = 0, dcbaa = 0, cmd_ring = 0, evt_ring = 0, erst = 0,
     evt_index = 7, evt_cycle = 0, max_ports = 0\<rparr>"

lemma wait_for_first:
  "um_reg s reg (um_time s) AND m = want \<Longrightarrow> unat (ms * 10) \<noteq> 0 \<Longrightarrow>
    wait_for reg m want ms s = (True, s\<lparr>um_time := Suc (um_time s)\<rparr>)"
  by (cases "unat (ms * 10)") (simp_all add: wait_for_def usb_rd32_def)

lemma demo_dwc3: "dwc3_select_host_mode 0xFE200000 demo_usb = demo_usb\<lparr>um_time := 1\<rparr>"
  by (simp add: dwc3_select_host_mode_def usb_rd32_def demo_usb_def demo_reg_def DWC3_GCTL_def)

lemma demo_caps:
  "read_caps (demo_xhci\<lparr>xh_cap := 0xFE200000\<rparr>) 0xFE200000 0x20 (demo_usb\<lparr>um_time := Suc (Suc 0)\<rparr>) =
    (1, demo_xhci\<lparr>xh_cap := 0xFE200000, xh_op := 0xFE200020, xh_rt := 0xFE200440, xh_db := 0xFE200480, max_ports := 1\<rparr>,
     demo_usb\<lparr>um_time := 6\<rparr>)"
  by (simp add: read_caps_def usb_rd32_def demo_usb_def demo_reg_def xhci_offsets)

lemma demo_halt:
  "xh_op x = 0xFE200020 \<Longrightarrow> halt_reset x (demo_usb\<lparr>um_time := 6\<rparr>) =
    (Init_OK, demo_usb\<lparr>um_time := 10, um_writes := [(0xFE200020, 2), (0xFE200020, 0)]\<rparr>)"
  by (simp add: halt_reset_def usb_rd32_def usb_wr32_def demo_usb_def demo_reg_def xhci_offsets wait_for_first
      USBCMD_RS_def USBCMD_HCRST_def USBSTS_HCH_def USBSTS_CNR_def)

lemma demo_alloc:
  "n \<in> {16, 1024} \<Longrightarrow> um_allocs s \<in> {0, 1, 2, 3} \<Longrightarrow> um_malloc s = um_malloc demo_usb \<Longrightarrow>
    s_dma_base s = 0x80000000 \<Longrightarrow> s_dma_limit s = 0x90000000 \<Longrightarrow>
    dma_alloc n 64 s = Some (0x80000040 + of_nat (um_allocs s) * 0x2000, s\<lparr>um_allocs := Suc (um_allocs s)\<rparr>)"
  by (auto simp: dma_alloc_def Let_def demo_usb_def)

lemma demo_init:
  "\<exists>x s'. xhci_init demo_xhci 0xFE200000 (demo_usb\<lparr>um_time := 1\<rparr>) = Some (Init_OK, x, s') \<and>
     xh_op x = 0xFE200020 \<and> xh_rt x = 0xFE200440 \<and> xh_db x = 0xFE200480 \<and> cmd_ring x = 0x80002040 \<and> evt_ring x = 0x80004040"
proof -
  define x1 where "x1 = demo_xhci\<lparr>xh_cap := 0xFE200000, xh_op := 0xFE200020, xh_rt := 0xFE200440, xh_db := 0xFE200480, max_ports := 1\<rparr>"
  define s1 where "s1 = demo_usb\<lparr>um_time := 10, um_writes := [(0xFE200020, 2), (0xFE200020, 0)]\<rparr>"
  have "um_malloc s1 = um_malloc demo_usb" "um_allocs s1 = 0" "s_dma_base s1 = 0x80000000" "s_dma_limit s1 = 0x90000000"
    by (simp_all add: s1_def demo_usb_def)
  then have "\<exists>x s2. alloc_rings 1 x1 s1 = Some (x, s2) \<and> xh_op x = xh_op x1 \<and> xh_rt x = xh_rt x1 \<and>
      xh_db x = xh_db x1 \<and> cmd_ring x = 0x80002040 \<and> evt_ring x = 0x80004040 \<and> um_reg s2 = um_reg s1 \<and> um_time s2 = um_time s1"
    by (simp add: alloc_rings_def Let_def XHCI_RING_TRBS_def TRB_BYTES_def demo_alloc mem_zero_def)
  then obtain x s2 where al: "alloc_rings 1 x1 s1 = Some (x, s2)" and x: "xh_op x = 0xFE200020"
    "xh_rt x = 0xFE200440" "xh_db x = 0xFE200480" "cmd_ring x = 0x80002040" "evt_ring x = 0x80004040"
    and s2: "um_reg s2 = demo_reg" "um_time s2 = 10" by (auto simp: x1_def s1_def demo_usb_def)
  obtain m' ws where pr: "program_rings 1 x s2 = s2\<lparr>um_mem := m', um_writes := ws\<rparr>"
    using program_rings_frame [of 1 x s2] by auto
  have hr: "halt_reset x1 (demo_usb\<lparr>um_time := 6\<rparr>) = (Init_OK, s1)" unfolding s1_def by (rule demo_halt) (simp add: x1_def)
  have "um_reg demo_usb 0xFE200000 1 = 0x20" by (simp add: demo_usb_def demo_reg_def)
  then have "\<exists>s'. xhci_init demo_xhci 0xFE200000 (demo_usb\<lparr>um_time := 1\<rparr>) = Some (Init_OK, x, s')"
    unfolding xhci_init_def Let_def usb_rd32_def
    by (simp add: CAP_CAPLENGTH_def demo_caps hr al pr x flip: x1_def)
      (simp add: usb_wr32_def OP_USBSTS_def USBSTS_HCH_def wait_for_first s2 demo_reg_def)
  with x show ?thesis by blast
qed

lemma demo_usb_malloc: "malloc_ok (um_malloc demo_usb) 0 (init_requests 1)"
proof -
  have a: "unat (um_malloc demo_usb i r) = 0x80000010 + i * 0x2000" if "i < 4" for i r
  proof -
    have "0x80000010 + i * 0x2000 < 2 ^ LENGTH(64)" using that by simp
    then have "unat (of_nat (0x80000010 + i * 0x2000) :: u64) = 0x80000010 + i * 0x2000" by (rule unat_of_nat_small)
    then show ?thesis by (simp add: demo_usb_def)
  qed
  have r: "unat (init_requests 1 ! i) \<le> 1088" if "i < 4" for i
  proof -
    have "i = 0 \<or> i = 1 \<or> i = 2 \<or> i = 3" using that by linarith
    then show ?thesis by (elim disjE) (simp_all add: init_requests_def)
  qed
  show ?thesis
    unfolding malloc_ok_def
  proof (intro allI impI conjI)
    fix i assume "i < length (init_requests 1)"
    then have i: "i < 4" by (simp add: init_requests_def)
    show "unat (um_malloc demo_usb (0 + i) (init_requests 1 ! i)) + unat (init_requests 1 ! i) \<le> 2 ^ 64"
      using a [OF i] r [OF i] i by simp
    fix j assume j: "j < i"
    then have "j < 4" using i by simp
    then show "unat (um_malloc demo_usb (0 + i) (init_requests 1 ! i)) + unat (init_requests 1 ! i)
        \<le> unat (um_malloc demo_usb (0 + j) (init_requests 1 ! j)) \<or>
      unat (um_malloc demo_usb (0 + j) (init_requests 1 ! j)) + unat (init_requests 1 ! j)
        \<le> unat (um_malloc demo_usb (0 + i) (init_requests 1 ! i))"
      using a [OF i] a [of j] r [of j] j by simp
  qed
qed

section \<open>Properties\<close>

text \<open>
  C38. The event ring is a queue. For every sequence of posts of the controller and pops of the driver
  on a fresh ring that the controller was given, the pops return exactly what a first-in first-out queue of 63 events returns, nothing
  when it is empty, over any number of wraps of the ring; an event handed out stays what it was while
  the controller goes on posting.
\<close>

theorem event_ring_fifo:
  assumes "ring_fresh x s"
  shows "events (ring_run ops x (s, ctl_on (evt_ring x) 64)) = events (queue_run ops [])"
  by (rule ring_run_refines [OF fresh_rep [OF assms]])

definition demo_ring :: xhci where
  "demo_ring = demo_xhci\<lparr>xh_rt := 0xFE200440, evt_ring := 0x80004040, evt_index := 0, evt_cycle := 1\<rparr>"

lemma demo_ring_at: "evt_ring demo_ring = 0x80004040"
  by (simp add: demo_ring_def)

definition demo_ring_io :: usb_io where
  "demo_ring_io = demo_usb\<lparr>um_writes := [(0xFE20047C, 0), (0xFE200478, 0x80004040)]\<rparr>"

theorem event_ring_fifo_witness:
  "events (ring_run [Ring_pop [port_event], Ring_post (completion 0x80002040), Ring_pop [], Ring_pop []] demo_ring (demo_ring_io, ctl_on 0x80004040 64))
    = [None, Some (stamp 0 port_event), Some (stamp 0 (completion 0x80002040))]"
proof -
  have "ring_fresh demo_ring demo_ring_io"
    by (simp add: ring_fresh_def demo_ring_def demo_ring_io_def demo_usb_def erdp_def written_def)
  from event_ring_fifo [OF this] show ?thesis by (simp only: demo_ring_at) (simp add: events_def q_post_def)
qed

text \<open>
  C39. The verdict of the USB test. Once the controller is up, and when the event ring was allocated below
  4 GiB (the driver stores only the lower half of its address in the segment table from which the
  controller takes it), the test passes only if the controller
  reported a successful completion that names the address of the test's command. And when the controller
  reports no system error, at most 63 events, and none in the last 63 of the 10000 rounds, the test passes
  exactly when the first event that is not about a port is such a completion.
\<close>

theorem usb_test_verdict:
  assumes I: "xhci_init x0 base (dwc3_select_host_mode base s) = Some (Init_OK, x, s')" and P: "regs_apart x"
    and M: "malloc_ok (um_malloc s) (um_allocs s)
      (init_requests (um_reg s (base + 4) (um_time (dwc3_select_host_mode base s) + 3) AND 0xFF))"
    and L: "unat (evt_ring x) < 2 ^ 32"
  shows "(usb_run pre dur x0 base s = Some (Usb_passed log) \<longrightarrow>
      (\<exists>e\<in>set (reported pre dur [0..<10000]). completes (cmd_ring x) e)) \<and>
    ((\<forall>t. um_reg s (xh_op x + 4) t AND 4 = 0) \<and> length (reported pre dur [0..<9937]) \<le> 63 \<and>
      (\<forall>i\<ge>9937. pre i = [] \<and> dur i = []) \<longrightarrow>
      ((\<exists>log. usb_run pre dur x0 base s = Some (Usb_passed log)) \<longleftrightarrow>
        verdict (cmd_ring x) (reported pre dur [0..<9937])))"
proof -
  let ?s = "dwc3_select_host_mode base s"
  obtain ws t where d: "?s = s\<lparr>um_writes := ws, um_time := t\<rparr>" using dwc3_frame by blast
  have M': "malloc_ok (um_malloc ?s) (um_allocs ?s) (init_requests (um_reg ?s (base + 4) (um_time ?s + 3) AND 0xFF))"
    using M by (simp add: d)
  note R = xhci_init_ready [OF I P M']
  obtain v ws' where w: "um_writes s' = (xh_op x, v) # rev (ring_writes (um_reg ?s (base + 4) (um_time ?s + 3) AND 0xFF) x) @ ws'"
    using R(9) by blast
  have c: "ctl_start x s' = ctl_on (evt_ring x) 64" by (rule ctl_starts_on_ring [OF P w R(4) L])
  have q: "fst (xhci_noop_roundtrip pre dur x (s', ctl_start x s')) =
      noop_queue pre dur (um_reg s (xh_op x + 4)) (cmd_ring x) [0..<10000] (um_time s') []"
    unfolding c using noop_refines_queue [OF R(1,2) P] R(3) by (simp add: d OP_USBSTS_def del: upt_rec_numeral)
  note pass = usb_run_passes [OF I, of pre dur, unfolded q]
  have split: "[0..<10000] = [0..<9937] @ [9937..<10000]" using upt_add_eq_append [of 0 9937 63] by (simp del: upt_rec_numeral)
  have "noop_queue pre dur (um_reg s (xh_op x + 4)) (cmd_ring x) [0..<10000] (um_time s') [] =
      answer (cmd_ring x) ([] @ reported pre dur [0..<9937])"
    if "\<forall>t. um_reg s (xh_op x + 4) t AND 4 = 0" "length (reported pre dur [0..<9937]) \<le> 63" "\<forall>i\<ge>9937. pre i = [] \<and> dur i = []"
    unfolding split using that by (intro noop_queue_answer) (simp_all add: USBSTS_HSE_def del: upt_rec_numeral)
  then show ?thesis
    using pass noop_queue_sound [of pre dur "um_reg s (xh_op x + 4)" "cmd_ring x" "[0..<10000]" "um_time s'" "[]"]
    by (auto simp: judge_OK simp flip: answer_verdict simp del: upt_rec_numeral)
qed

theorem usb_test_verdict_witness:
  "\<exists>log. usb_run (\<lambda>i. if i = 3 then [port_event, completion 0x80002040] else []) (\<lambda>_. []) demo_xhci 0xFE200000 demo_usb
     = Some (Usb_passed log)"
proof -
  let ?pre = "\<lambda>i :: nat. if i = 3 then [port_event, completion 0x80002040] else []" and ?dur = "\<lambda>_ :: nat. [] :: trb list"
  obtain x s' where I: "xhci_init demo_xhci 0xFE200000 (dwc3_select_host_mode 0xFE200000 demo_usb) = Some (Init_OK, x, s')"
    and x: "xh_op x = 0xFE200020" "xh_rt x = 0xFE200440" "xh_db x = 0xFE200480" "cmd_ring x = 0x80002040" "evt_ring x = 0x80004040"
    using demo_init unfolding demo_dwc3 by blast
  have P: "regs_apart x" by (simp add: regs_apart_def x)
  have "um_reg demo_usb (0xFE200000 + 4) (um_time (dwc3_select_host_mode 0xFE200000 demo_usb) + 3) AND 0xFF = 1"
    unfolding demo_dwc3 by (simp add: demo_usb_def demo_reg_def)
  then have M: "malloc_ok (um_malloc demo_usb) (um_allocs demo_usb)
      (init_requests (um_reg demo_usb (0xFE200000 + 4) (um_time (dwc3_select_host_mode 0xFE200000 demo_usb) + 3) AND 0xFF))"
    using demo_usb_malloc by (simp add: demo_usb_def)
  have split: "[0..<9937] = [0..<3] @ [3..<9937 :: nat]"
    using upt_add_eq_append [of 0 3 9934] by (simp only: add_0 le0 numeral_plus_numeral add_num_simps)
  have cons: "[3..<9937] = 3 # [Suc 3..<9937 :: nat]" by (rule upt_conv_Cons) simp
  have "reported ?pre ?dur [Suc 3..<9937] = []" unfolding reported_def by (rule concat_eq_Nil_conv [THEN iffD2]) (auto simp del: upt_rec_numeral)
  moreover have "reported ?pre ?dur [0..<3] = []" by (simp add: reported_def)
  ultimately have r: "reported ?pre ?dur [0..<9937] = [port_event, completion 0x80002040]"
    unfolding split cons reported_append reported_Cons by (simp only: append_Nil append_Nil2 if_True refl)
  have "verdict (cmd_ring x) (reported ?pre ?dur [0..<9937])"
    unfolding r x by (simp add: verdict_def about_port_def completes_def port_event_def completion_def TRB_TYPE_def
        TRB_COMPL_CODE_def TRB_TYPE_PORT_STATUS_def TRB_TYPE_CMD_COMPL_def COMPL_SUCCESS_def)
  moreover have "um_reg demo_usb (xh_op x + 4) t AND 4 = 0" for t by (simp add: x demo_usb_def demo_reg_def)
  ultimately show ?thesis
    using usb_test_verdict [OF I P M _, of ?pre ?dur] x(5) r by (simp del: upt_rec_numeral)
qed

end
