(* ===== verification/Spec2Isabelle.thy ===== *)
theory Spec2Isabelle
  imports Mem_Main Posix Bootrom Clk_Wzrd Soctfb_Video Linux_Sdc Linux_Bringup Linux_Fbmode Linux_Fbimg Usb_Test
begin

text \<open>
  Verification of the C runtime of SoCeteer: the bare-metal library \<open>shared/soctglue\<close>, the SD boot
  ROM, and the C programs that drive its hardware. A bare-metal program starts in \<open>soctglue.c\<close>,
  which parses the device tree, finds the console and the end of memory, and releases the other
  harts. From then on the C library calls the stubs of \<open>posix/\<close>; each runs \<open>soct_syscall\<close>, which
  offers the call to the registered handlers (user handlers first, then the UART or the host
  interface). The heap asks the tree for its bounds, file access goes through FatFs to the SD card
  driver, and the boot ROM has its own copy of that driver, its own printing and an ELF loader. Under
  Linux the same hardware is driven by kernel modules (SD card, display, clocking wizard), and the
  user program \<open>fbmode\<close> changes the mode of the display through the framebuffer device.

  Theories and sources (paths under src/; glue is \<open>shared/soctglue/src\<close>).
  \<^item> \<open>Soct_Prelude\<close>: word types of RV64, polling, C strings, shared lemmas; \<open>soct_simps\<close> and
    \<open>soct_inv\<close> collect what components export. \<open>Addr_Loop\<close>: loops over addresses.
  \<^item> \<open>Syscall_Handler\<close> (glue \<open>syscall-handler.c\<close>): the two-ended handler table and the dispatch. The
    locale \<open>handler_registry\<close> is the contract of registration and dispatch; its interpretation gives
    the refinement of \<open>soct_syscall\<close> to a search through the chain of handlers, and the chain that
    any sequence of registrations builds.
  \<^item> \<open>Bump_Alloc\<close>: the locale \<open>bump_allocator\<close>, the contract of an allocator that only moves up, with
    the disjointness of its blocks. Interpreted in \<open>Heap_Sbrk\<close> (glue \<open>posix/sbrk.c\<close>: the break on
    64-bit addresses, refined to arithmetic without wrap-around; blocks avoid image, stacks and the
    end of memory) and in \<open>Soctglue\<close> for the buffer of the tree.
  \<^item> \<open>Smoldtb_Mem\<close>, \<open>Smoldtb\<close>, \<open>Smoldtb_Tree\<close>, \<open>Smoldtb_Query\<close>, \<open>Device_Tree\<close> (glue \<open>smoldtb.c\<close>): loads and
    strings, the parser and its queries function by function, an abstract tree with its encoding in
    a blob and its representation in the node arrays, and the proofs that the parser turns the one
    into the other and that lookups and readers answer as the abstract tree does.
  \<^item> \<open>Uart\<close> (glue \<open>syscall-uart.c\<close>) and \<open>Htif\<close> (glue \<open>syscall-htif.c\<close>, \<open>include/spinlock.h\<close>): the
    console over polled registers, and the mailbox shared by any number of harts and the host as a
    step relation, with mutual exclusion, delivery and progress by rule induction.
  \<^item> \<open>Soctglue\<close> (glue \<open>soctglue.c\<close>): start-up, setup log, end of memory and hart count.
  \<^item> \<open>Sd_Controller\<close>, \<open>Sdc\<close> (glue \<open>soct_ff/sdc.c\<close>), \<open>Boot_Sdc\<close> (\<open>binaries/bootroms/sd-boot/bootrom.c\<close>):
    the SD controller as register reads and a trace of writes, a controller and card that read the
    trace as transfers with their direction and address, the two drivers, and their equivalence on
    every read.
  \<^item> \<open>Soct_Ff\<close> (glue \<open>soct_ff/soct_ff.c\<close>), \<open>Posix\<close> (glue \<open>posix/\<close>, \<open>compat.c\<close>): files on volumes, and
    the system call stubs.
  \<^item> \<open>Vxprintf\<close> (glue \<open>stdio/\<close>), \<open>Kprintf\<close> (\<open>sd-boot/kprintf.c\<close>): formatted output.
  \<^item> \<open>Bootrom\<close> (\<open>sd-boot/bootrom.c\<close>): the ELF loader, the placing of the tree, and the jump.
  \<^item> \<open>Mem_Test\<close>, \<open>Mem_Windows\<close>, \<open>Mem_Main\<close> (\<open>binaries/baremetal/mem-test/main.c\<close>): the suites against memory
    whose address mapping is a parameter, the windows they run on, the clock, and \<open>main\<close>, which returns 0
    exactly when no two words of the windows share a cell. The locale \<open>unique_marks\<close> is what a suite needs
    of its pattern; it is interpreted for each of the patterns.
  \<^item> \<open>Soctfb\<close>, \<open>Soctfb_Video\<close> (\<open>binaries/baremetal/soctfb\<close>): drawing, and the video pipeline.
  \<^item> \<open>Clk_Wzrd\<close> (\<open>binaries/linux/drivers/clk-wzrd\<close>): the divider search and the retuning.
  \<^item> \<open>Linux_Sdc\<close> (\<open>binaries/linux/drivers/sdc\<close>): the MMC host driver: commands, data with DMA, timeouts,
    interrupt halves, bus settings, probe and remove. Register reads and deadlines are streams. Over any
    sequence of requests, interrupts and settings every request is handed back once and each call returns; a
    mapped buffer is unmapped once, as long as no mapping fails (a failed one is unmapped all the same); a
    card that is gone gives an error.
  \<^item> \<open>Linux_Dp\<close>, \<open>Linux_Bringup\<close> (\<open>binaries/linux/drivers/dp/dp-main.c\<close>, \<open>shim.c\<close>): timings and their check, the mode
    switch, the worker that brings the display up, and the register window. The cached mode is
    the one on the screen after every switch, and after a bring-up in which the boot clock was
    programmed (or never had to be); when programming it fails, the cached mode claims a clock that is not there.
  \<^item> \<open>Linux_Fb\<close>, \<open>Linux_Fb_Inv\<close> (\<open>binaries/linux/drivers/dp/fb.c\<close>): the framebuffer device with two memories, what
    the processor sees and what has reached the memory the display fetches from; damage, blits,
    page flips and the worker as one step relation in which they interleave, the worker by the steps of
    which its code is made. Every byte the memory lacks is covered by recorded damage or a tracked page, except
    bytes stored by a write that then faults, which the driver does not record; when a flip is
    written, every other byte that has not changed since the worker took the damage has arrived.
  \<^item> \<open>Linux_Fbmode\<close> (\<open>binaries/linux/userspace/fbmode\<close>): the mode list and the switch with its
    confirmation. The locale \<open>fbdev\<close> is what it needs of the device (a put keeps the invariant and reads
    back). The framebuffer core between the two is a parameter; every core that calls the modelled
    handlers of the driver as documented (\<open>core_puts\<close>) is shown to provide it. \<open>Linux_Fbimg\<close> (\<open>userspace/fbimg\<close>): an image or an
    animation is placed on the screen and drawn through the write path of the same device; every byte of the
    screen is the pixel meant for it.
  \<^item> \<open>Xhci\<close>, \<open>Usb_Test\<close> (\<open>binaries/baremetal/usb-test\<close>): the xHCI controller is brought up and its event ring read.
    The ring, with its cycle bits and wraps, is refined to a queue of 63 events against a controller
    that posts as the xHCI specification has it, into the segment that the table in memory names; with the
    ring below 4 GiB (the table gets the lower half of its address only) the test passes exactly on a
    successful completion of its command.
  This theory holds the property that spans stubs, dispatch and console.

  Conventions. Integers have the width of the code. \<open>None\<close> is a run with no result: a loop that does
  not end, a device that never answers, a read outside the blob or through NULL. Volatile registers
  are the lists of values their coming reads return, so a polling loop ends exactly when such a
  value is in the list, and theorems that promise a result say how long the list must be
  (for instance \<open>tx_room\<close>). Loops that may run forever are partial functions; only the mutually
  recursive parsing loops of \<open>smoldtb.c\<close> take fuel, with running out a result of its own: more fuel
  than the structure block has cells is shown to suffice for every well-formed tree, and on
  trees with too few node slots no fuel is enough. FatFs, the C library and the addresses the build
  generates are parameters.

  Bounds. The framebuffer of the Linux device lies below 4 GiB of carve-out, as its checks require; the
  USB theorem counts rounds of the 10000 the loop has, and asks that the controller reports no event in the
  last 63, so that a ring full of events is still read to its end.

  Not modelled: the write mode of \<open>smoldtb.c\<close>, which the build leaves out; \<open>%f\<close> (floating point);
  assembly; FatFs and the other vendored code; the DisplayPort link itself, which calls vendor code (its
  answers are arguments of the bring-up); the
  demonstration programs; the Linux user programs other than \<open>fbmode\<close> and
  \<open>fbimg\<close>, and the decoder and the command line of the latter; the simulator and the hardware
  generators.
\<close>

section \<open>The console path\<close>

text \<open>
  The UART handler as an entry of the handler table: a machine that is still polling the UART is
  \<open>None\<close>, and nothing runs on it any more.
\<close>

definition uart_entry :: "uart_io option soct_handler_t" where
  "uart_entry s nr args =
     (case s of
        None \<Rightarrow> (handled 0, None)
      | Some io \<Rightarrow>
          (case soct_handle_uart io nr args of
             None \<Rightarrow> (handled 0, None)
           | Some (resp, io') \<Rightarrow> (resp, Some io')))"

definition passes :: "'s soct_handler_t \<Rightarrow> bool" where
  "passes h \<longleftrightarrow> (\<forall>s nr args. resp_status (fst (h s nr args)) \<noteq> SOCT_HANDLER_HANDLED \<and> snd (h s nr args) = s)"

definition demo_console :: "uart_io option proc" where
  "demo_console = \<lparr>p_table = snd (soct_register_default_handler uart_entry initial_table), p_errno = 0,
     p_machine = Some demo_io, p_stdio = []\<rparr>"

lemma chain_dispatch_passes:
  "\<forall>h\<in>set hs. passes h \<Longrightarrow> chain_dispatch (hs @ hs') nr args s = chain_dispatch hs' nr args s"
proof (induction hs)
  case (Cons h hs)
  then have "resp_status (fst (h s nr args)) \<noteq> SOCT_HANDLER_HANDLED" "snd (h s nr args) = s"
    by (auto simp: passes_def)
  with Cons show ?case by (simp add: case_prod_beta)
qed simp

text \<open>
  C12. The console path. In a process whose user handlers pass and whose first default handler is the
  UART, a write of \<open>n > 0\<close> bytes (fewer than \<open>2 ^ 63\<close>) from a buffer that is not NULL to standard output or
  error through \<open>_write\<close> ends when the transmitter takes enough characters, returns \<open>n\<close>, keeps \<open>errno\<close> and
  sends exactly the bytes of the buffer with a carriage return before each line feed. A write of 0 bytes
  is another matter: the UART then sends the string at the buffer (\<open>uart_write_zero_sends_string\<close>).
\<close>

theorem console_write:
  assumes T: "handlers_wf (p_table p)" "\<forall>h\<in>set (user_handlers (p_table p)). passes h"
      "default_handlers (p_table p) = uart_entry # ds"
    and io: "p_machine p = Some io" "fd = 1 \<or> fd = 2" "buf \<noteq> 0" "n \<noteq> 0" "unat n < 2 ^ 63"
      "tx_room (length (crlf (buffer_at (io_mem io) buf (unat n)))) io"
  shows "\<exists>io'. posix_write fd buf n p = Some (n, p\<lparr>p_machine := Some io'\<rparr>) \<and>
    sent (crlf (buffer_at (io_mem io) buf (unat n))) io io'"
proof -
  let ?args = "sc_args (scast fd) buf n 0"
  obtain io' where k: "kputs buf n io = Some io'" and s: "sent (crlf (buffer_at (io_mem io) buf (unat n))) io io'"
    using kputs_loop_sent [of io buf "[0..<unat n]"] io by (auto simp: kputs_def buffer_at_def)
  have "sc_a0 ?args = SOCT_STDOUT \<or> sc_a0 ?args = SOCT_STDERR"
    using io(2) by (auto simp: sc_args_def SOCT_STDOUT_def SOCT_STDERR_def)
  then have h: "soct_handle_uart io SOCT_WRITE ?args = Some (handled n, io')"
    using k io(3,4) by (simp add: soct_handle_uart_def Let_def sc_args_def SOCT_WRITE_def SOCT_READ_def)
  have "chain_dispatch (user_handlers (p_table p) @ uart_entry # ds) SOCT_WRITE ?args (Some io) = (Some n, Some io')"
    using T(2) by (subst chain_dispatch_passes) (simp_all add: uart_entry_def h handled_def)
  moreover have "\<not> sint n < 0"
  proof -
    have "int (unat n) < int (2 ^ 63)" using io(5) unfolding of_nat_less_iff .
    then have "uint n < 2 ^ 63" by simp
    then show ?thesis by (simp add: sint_split)
  qed
  ultimately have "soct_syscall (p_table p) SOCT_WRITE ?args (p_errno p) (Some io) = Some (n, p_errno p, Some io')"
    unfolding soct_reg.call_chain [OF T(1)] T(3) by (simp add: syscall_spec_def answer_spec_def)
  then show ?thesis
    using s io(1,3) by (auto simp: posix_write_def proc_syscall_def)
qed

theorem console_write_witness:
  "\<exists>io'. posix_write 1 0x1000 2 demo_console = Some (2, demo_console\<lparr>p_machine := Some io'\<rparr>) \<and>
     tx_writes io' = [0x68, 0x0D, 0x0A]"
proof -
  have "handlers_wf (p_table demo_console)" "user_handlers (p_table demo_console) = []"
    "default_handlers (p_table demo_console) = [uart_entry]"
    by (simp_all add: demo_console_def soct_inv soct_register_default_handler_chains soct_simps SOCT_N_SYSCALL_HANDLERS_def)
  then show ?thesis
    using console_write [of demo_console "[]" demo_io 1 "0x1000" 2]
    by (auto simp: demo_console_def demo_uart sent_def)
qed

end
